(* ===== verification/Prelude.thy ===== *)
theory Prelude
  imports Main "HOL-Library.Word" "HOL-Library.Monad_Syntax"
begin

text \<open>
  Shared vocabulary of the development: the machine types of the C++ code, the
  little-endian integer codec that every wire module repeats as a pair of templates
  (\<open>write_le\<close>/\<open>append_le\<close> and \<open>read_le\<close>), the readers of fixed arrays, saturating
  arithmetic, and two interfaces stated as locales: a \<open>codec\<close> (an encoder and a decoder
  that agree) and a \<open>machine\<close> (an operation that keeps an invariant, and therefore every
  sequence of operations keeps it).

  A C++ pair \<open>(span, offset)\<close> is represented by the suffix of the input that is not yet
  consumed; \<open>read_le_at\<close> is the literal offset version and \<open>read_le_at_suffix\<close> shows that
  the two agree. \<open>std::size_t\<close> is \<open>nat\<close>; fixed-width integers are words.
\<close>

unbundle bit_operations_syntax

type_synonym byte = "8 word"
type_synonym bytes = "8 word list"
type_synonym u8 = "8 word"
type_synonym u16 = "16 word"
type_synonym u32 = "32 word"
type_synonym u64 = "64 word"

named_theorems codec_simps \<open>reading back what an encoder wrote\<close>
named_theorems wire_defs \<open>definitions of the wire encoders and decoders\<close>

text \<open>A string literal of the code.\<close>

definition ascii :: "string \<Rightarrow> bytes" where
  "ascii s = map of_char s"

section \<open>Little-endian integers\<close>

primrec le_bytes :: "nat \<Rightarrow> 'a::len word \<Rightarrow> bytes" where
  "le_bytes 0 v = []"
| "le_bytes (Suc n) v = ucast (v AND 255) # le_bytes n (drop_bit 8 v)"

abbreviation sizeof :: "'a::len itself \<Rightarrow> nat" where
  "sizeof _ \<equiv> LENGTH('a) div 8"

definition append_le :: "'a::len word \<Rightarrow> bytes" where
  "append_le v = le_bytes (sizeof TYPE('a)) v"

primrec le_loop :: "nat \<Rightarrow> 'a::len word \<Rightarrow> bytes \<Rightarrow> 'a word" where
  "le_loop i v [] = v"
| "le_loop i v (b # bs) = le_loop (Suc i) (v OR push_bit (8 * i) (ucast b)) bs"

definition read_le_at :: "bytes \<Rightarrow> nat \<Rightarrow> ('a::len word \<times> nat) option" where
  "read_le_at input off =
     (if off + sizeof TYPE('a) > length input then None
      else Some (le_loop 0 0 (take (sizeof TYPE('a)) (drop off input)), off + sizeof TYPE('a)))"

definition read_le :: "bytes \<Rightarrow> ('a::len word \<times> bytes) option" where
  "read_le bs =
     (if length bs < sizeof TYPE('a) then None
      else Some (le_loop 0 0 (take (sizeof TYPE('a)) bs), drop (sizeof TYPE('a)) bs))"

lemma length_le_bytes [simp]: "length (le_bytes n v) = n"
  by (induction n arbitrary: v) auto

lemma length_append_le [simp]: "length (append_le (v :: 'a::len word)) = LENGTH('a) div 8"
  by (simp add: append_le_def)

lemma le_loop_acc: "le_loop i (v :: 'a::len word) bs = v OR push_bit (8 * i) (le_loop 0 0 bs)"
proof (induction bs arbitrary: i v)
  case Nil
  then show ?case by simp
next
  case (Cons b bs)
  have "le_loop i v (b # bs) =
      (v OR push_bit (8 * i) (ucast b)) OR push_bit (8 * Suc i) (le_loop 0 0 bs)"
    by (simp only: le_loop.simps Cons.IH [of "Suc i"])
  moreover have "le_loop 0 0 (b # bs) = ucast b OR push_bit 8 (le_loop 0 0 bs :: 'a word)"
    by (simp only: le_loop.simps Cons.IH [of "Suc 0"]) simp
  ultimately show ?case
    by (simp add: push_bit_or or.assoc add.commute)
qed

lemma le_loop_Cons: "le_loop 0 0 (b # bs) = ucast b OR push_bit 8 (le_loop 0 0 bs)"
  by (subst le_loop.simps, subst le_loop_acc) simp

declare le_loop.simps(2) [simp del]

lemma ucast_and_255: "ucast ((v :: 'a::len word) AND 255) = (ucast v :: byte)"
proof (rule bit_word_eqI)
  fix n assume "n < LENGTH(8)"
  then have "n < 8" by simp
  have "bit (255 :: 'a word) n \<longleftrightarrow> bit (mask 8 :: 'a word) n"
    by (simp add: mask_eq_exp_minus_1)
  also have "\<dots> \<longleftrightarrow> n < LENGTH('a)"
    using \<open>n < 8\<close> by (simp add: bit_mask_iff del: mask_numeral)
  finally show "bit (ucast (v AND 255) :: byte) n = bit (ucast v :: byte) n"
    using \<open>n < 8\<close> by (auto simp: bit_simps dest: bit_imp_le_length)
qed

lemma le_loop_le_bytes: "le_loop 0 0 (le_bytes n v) = take_bit (8 * n) (v :: 'a::len word)"
proof (induction n arbitrary: v)
  case 0
  then show ?case by simp
next
  case (Suc n)
  have "le_loop 0 0 (le_bytes (Suc n) v) =
      ucast (ucast v :: byte) OR push_bit 8 (take_bit (8 * n) (drop_bit 8 v))"
    by (simp add: le_loop_Cons Suc.IH ucast_and_255)
  also have "\<dots> = take_bit (8 * Suc n) v"
    by (rule bit_word_eqI) (auto simp: bit_simps)
  finally show ?case .
qed

lemma le_loop_take_bit: "take_bit (8 * length bs) (le_loop 0 0 bs) = (le_loop 0 0 bs :: 'a::len word)"
proof (induction bs)
  case Nil
  then show ?case by simp
next
  case (Cons b bs)
  let ?w = "le_loop 0 0 bs :: 'a word"
  have w: "bit ?w n \<Longrightarrow> n < 8 * length bs" for n
    using Cons.IH by (metis bit_take_bit_iff)
  show ?case
    by (rule bit_word_eqI) (auto simp: le_loop_Cons bit_simps dest: w bit_imp_le_length)
qed

lemma le_bytes_le_loop:
  "8 * length bs \<le> LENGTH('a) \<Longrightarrow> le_bytes (length bs) (le_loop 0 0 bs :: 'a::len word) = bs"
proof (induction bs)
  case Nil
  then show ?case by simp
next
  case (Cons b bs)
  let ?w = "le_loop 0 0 bs :: 'a word"
  have w: "bit ?w n \<Longrightarrow> n < 8 * length bs" for n
    using le_loop_take_bit [of bs, where ?'a = 'a] by (metis bit_take_bit_iff)
  have "ucast (ucast b OR push_bit 8 ?w) = b"
    by (rule bit_word_eqI) (use Cons.prems in \<open>auto simp: bit_simps\<close>)
  moreover have "drop_bit 8 (ucast b OR push_bit 8 ?w) = ?w"
    by (rule bit_word_eqI) (use Cons.prems in \<open>auto simp: bit_simps dest: w bit_imp_le_length\<close>)
  ultimately show ?case
    using Cons by (simp add: le_loop_Cons ucast_and_255)
qed

lemma read_append_le:
  assumes "8 dvd LENGTH('a)"
  shows "read_le (append_le (v :: 'a::len word) @ rest) = Some (v, rest)"
proof -
  have "8 * (LENGTH('a) div 8) = LENGTH('a)" using assms by simp
  then show ?thesis
    by (simp add: read_le_def append_le_def le_loop_le_bytes)
qed

lemma read_le_SomeD:
  assumes "8 dvd LENGTH('a)" and "read_le bs = Some (v :: 'a::len word, rest)"
  shows "bs = append_le v @ rest"
proof -
  let ?n = "LENGTH('a) div 8"
  have v: "v = le_loop 0 0 (take ?n bs)" and rest: "rest = drop ?n bs" and len: "?n \<le> length bs"
    using assms(2) by (auto simp: read_le_def split: if_splits)
  have "le_bytes (length (take ?n bs)) v = take ?n bs"
    unfolding v by (rule le_bytes_le_loop) (use len assms(1) in auto)
  then show ?thesis
    using len rest by (simp add: append_le_def)
qed

lemma read_le_at_suffix:
  "off \<le> length input \<Longrightarrow>
   read_le_at input off =
     map_option (\<lambda>(v :: 'a::len word, rest). (v, length input - length rest)) (read_le (drop off input))"
  by (auto simp: read_le_at_def read_le_def)

lemma read_le_u8 [codec_simps, simp]: "read_le (append_le (v :: u8) @ rest) = Some (v, rest)"
  and read_le_u16 [codec_simps, simp]: "read_le (append_le (w :: u16) @ rest) = Some (w, rest)"
  and read_le_u32 [codec_simps, simp]: "read_le (append_le (x :: u32) @ rest) = Some (x, rest)"
  and read_le_u64 [codec_simps, simp]: "read_le (append_le (y :: u64) @ rest) = Some (y, rest)"
  by (rule read_append_le; simp)+


lemma read_le_u8_iff: "read_le bs = Some (v :: u8, rest) \<longleftrightarrow> bs = append_le v @ rest"
  and read_le_u16_iff: "read_le bs = Some (w :: u16, rest) \<longleftrightarrow> bs = append_le w @ rest"
  and read_le_u32_iff: "read_le bs = Some (x :: u32, rest) \<longleftrightarrow> bs = append_le x @ rest"
  and read_le_u64_iff: "read_le bs = Some (y :: u64, rest) \<longleftrightarrow> bs = append_le y @ rest"
  by (auto dest!: read_le_SomeD [rotated])

lemmas read_le_iffs = read_le_u8_iff read_le_u16_iff read_le_u32_iff read_le_u64_iff

lemma read_le_None_iff: "read_le bs = (None :: ('a::len word \<times> bytes) option) \<longleftrightarrow> length bs < sizeof TYPE('a)"
  by (simp add: read_le_def)

lemma append_le_inj:
  assumes "8 dvd LENGTH('a)" and "append_le (v :: 'a::len word) = append_le w"
  shows "v = w"
  using assms read_append_le [of v "[]"] read_append_le [of w "[]"] by simp

lemma append_le_same_prefix:
  assumes "8 dvd LENGTH('a)"
  shows "append_le (v :: 'a::len word) @ xs = append_le w @ ys \<longleftrightarrow> v = w \<and> xs = ys"
  using append_le_inj [OF assms, of v w] by auto

lemma append_le_eq_iffs [simp]:
  "append_le (v :: u16) @ xs = append_le v' @ xs' \<longleftrightarrow> v = v' \<and> xs = xs'"
  "append_le (w :: u32) @ ys = append_le w' @ ys' \<longleftrightarrow> w = w' \<and> ys = ys'"
  "append_le (x :: u64) @ zs = append_le x' @ zs' \<longleftrightarrow> x = x' \<and> zs = zs'"
  "append_le (v :: u16) = append_le v' \<longleftrightarrow> v = v'"
  "append_le (w :: u32) = append_le w' \<longleftrightarrow> w = w'"
  "append_le (x :: u64) = append_le x' \<longleftrightarrow> x = x'"
  using append_le_same_prefix [of v xs v' xs'] append_le_same_prefix [of w ys w' ys']
    append_le_same_prefix [of x zs x' zs'] append_le_inj [of v v'] append_le_inj [of w w']
    append_le_inj [of x x'] by auto

section \<open>Fixed arrays and blocks of bytes\<close>

definition read_array :: "nat \<Rightarrow> bytes \<Rightarrow> (bytes \<times> bytes) option" where
  "read_array n bs = (if length bs < n then None else Some (take n bs, drop n bs))"

lemma read_array_append [codec_simps, simp]:
  "length xs = n \<Longrightarrow> read_array n (xs @ rest) = Some (xs, rest)"
  by (simp add: read_array_def)

lemma read_array_exact [codec_simps, simp]: "length xs = n \<Longrightarrow> read_array n xs = Some (xs, [])"
  by (simp add: read_array_def)

lemma read_array_iff:
  "read_array n bs = Some (xs, rest) \<longleftrightarrow> bs = xs @ rest \<and> length xs = n"
  by (auto simp: read_array_def)

fun read_byte :: "bytes \<Rightarrow> (byte \<times> bytes) option" where
  "read_byte [] = None"
| "read_byte (b # bs) = Some (b, bs)"

lemma read_byte_iff: "read_byte bs = Some (b, rest) \<longleftrightarrow> bs = b # rest"
  by (cases bs) auto

lemmas reader_iffs = read_le_iffs read_array_iff read_byte_iff

definition non_zero :: "bytes \<Rightarrow> bool" where
  "non_zero bs \<longleftrightarrow> list_ex (\<lambda>b. b \<noteq> 0) bs"

section \<open>Saturating arithmetic and clamping\<close>

definition saturating_add :: "u64 \<Rightarrow> u64 \<Rightarrow> u64" where
  "saturating_add value amount = (if amount > -1 - value then -1 else value + amount)"

lemma unat_max_u64: "unat (-1 :: u64) = 2 ^ 64 - 1"
  by (simp add: unat_eq_nat_uint uint_word_ariths)

lemma unat_saturating_add:
  "unat (saturating_add v a) = min (unat v + unat a) (2 ^ 64 - 1)"
proof -
  have v: "unat v \<le> 2 ^ 64 - 1"
    using unsigned_less [of v, where ?'a = nat] by simp
  have s: "unat (-1 - v) = 2 ^ 64 - 1 - unat v"
    using unat_sub [of v "-1"] by (simp add: unat_max_u64)
  show ?thesis
  proof (cases "a > -1 - v")
    case True
    then have "unat a > 2 ^ 64 - 1 - unat v" using s by (simp add: word_less_nat_alt)
    then show ?thesis using True v by (simp add: saturating_add_def unat_max_u64)
  next
    case False
    then have "unat a \<le> 2 ^ 64 - 1 - unat v" using s by (simp add: word_less_nat_alt)
    then have "unat v + unat a < 2 ^ 64" using v by simp
    then have "unat (v + a) = unat v + unat a" by (simp add: unat_word_ariths)
    then show ?thesis using False \<open>unat v + unat a < 2 ^ 64\<close> by (simp add: saturating_add_def)
  qed
qed

definition clamp :: "'a::linorder \<Rightarrow> 'a \<Rightarrow> 'a \<Rightarrow> 'a" where
  "clamp v lo hi = (if v < lo then lo else if hi < v then hi else v)"

lemma clamp_bounds: "lo \<le> hi \<Longrightarrow> lo \<le> clamp v lo hi \<and> clamp v lo hi \<le> hi"
  by (auto simp: clamp_def)

text \<open>\<open>std::size_t\<close> and \<open>std::uint64_t\<close> arithmetic on \<open>nat\<close>, with the wrap-around written out.\<close>

abbreviation u64_max :: nat where "u64_max \<equiv> 2 ^ 64 - 1"

definition wrap64 :: "nat \<Rightarrow> nat" where
  "wrap64 n = n mod 2 ^ 64"

definition sub64 :: "nat \<Rightarrow> nat \<Rightarrow> nat" where
  "sub64 a b = nat ((int a - int b) mod 2 ^ 64)"

lemma wrap64_small [simp]: "n < 2 ^ 64 \<Longrightarrow> wrap64 n = n"
  by (simp add: wrap64_def)

lemma sub64_small [simp]: "b \<le> a \<Longrightarrow> a < 2 ^ 64 \<Longrightarrow> sub64 a b = a - b"
  by (simp add: sub64_def of_nat_diff)

lemma nth_update_if: "xs[i := v] ! j = (if i = j \<and> j < length xs then v else xs ! j)"
proof (induction xs arbitrary: i j)
  case (Cons x xs)
  then show ?case by (cases i; cases j) auto
qed simp

section \<open>Tables as association lists\<close>

text \<open>
  A hash map is an association list with distinct keys, in the iteration order of the
  container: \<open>map_of\<close> is \<open>find\<close>, \<open>alist_modify\<close> writes through an iterator, \<open>alist_erase\<close>
  is \<open>erase\<close>, \<open>alist_emplace\<close> is \<open>try_emplace\<close>.
\<close>

definition alist_modify :: "'k \<Rightarrow> ('v \<Rightarrow> 'v) \<Rightarrow> ('k \<times> 'v) list \<Rightarrow> ('k \<times> 'v) list" where
  "alist_modify k f xs = map (\<lambda>(k', v). (k', if k' = k then f v else v)) xs"

definition alist_erase :: "'k \<Rightarrow> ('k \<times> 'v) list \<Rightarrow> ('k \<times> 'v) list" where
  "alist_erase k xs = filter (\<lambda>(k', _). k' \<noteq> k) xs"

definition alist_emplace :: "'k \<Rightarrow> 'v \<Rightarrow> ('k \<times> 'v) list \<Rightarrow> ('k \<times> 'v) list" where
  "alist_emplace k v xs = (if map_of xs k = None then xs @ [(k, v)] else xs)"

lemma map_fst_modify [simp]: "map fst (alist_modify k f xs) = map fst xs"
  by (induction xs) (auto simp: alist_modify_def)

lemma length_modify [simp]: "length (alist_modify k f xs) = length xs"
  by (simp add: alist_modify_def)

lemma map_of_modify [simp]:
  "map_of (alist_modify k f xs) x = (if x = k then map_option f (map_of xs x) else map_of xs x)"
  by (induction xs) (auto simp: alist_modify_def)

lemma map_of_erase [simp]: "map_of (alist_erase k xs) x = (if x = k then None else map_of xs x)"
  by (induction xs) (auto simp: alist_erase_def)

lemma distinct_erase [simp]: "distinct (map fst xs) \<Longrightarrow> distinct (map fst (alist_erase k xs))"
  by (induction xs) (auto simp: alist_erase_def)

lemma length_erase_le: "length (alist_erase k xs) \<le> length xs"
  by (simp add: alist_erase_def)

lemma length_erase_less: "map_of xs k \<noteq> None \<Longrightarrow> length (alist_erase k xs) < length xs"
  by (induction xs) (auto simp: alist_erase_def le_imp_less_Suc)

lemma map_of_emplace [simp]:
  "map_of (alist_emplace k v xs) x =
     (if x = k \<and> map_of xs k = None then Some v else map_of xs x)"
  by (auto simp: alist_emplace_def map_add_def split: option.splits)

lemma distinct_emplace [simp]: "distinct (map fst xs) \<Longrightarrow> distinct (map fst (alist_emplace k v xs))"
  by (auto simp: alist_emplace_def map_of_eq_None_iff)

lemma erase_absent: "map_of xs k = None \<Longrightarrow> alist_erase k xs = xs"
  by (auto simp: alist_erase_def filter_id_conv map_of_eq_None_iff image_iff)

lemma erase_modify [simp]: "alist_erase k (alist_modify k f xs) = alist_erase k xs"
  by (induction xs) (auto simp: alist_erase_def alist_modify_def)

lemma sum_erase:
  "distinct (map fst xs) \<Longrightarrow> map_of xs k = Some v \<Longrightarrow>
   sum_list (map (\<lambda>x. f (snd x)) xs) = (f v :: nat) + sum_list (map (\<lambda>x. f (snd x)) (alist_erase k xs))"
proof (induction xs)
  case (Cons x xs)
  obtain a b where x: "x = (a, b)" by (cases x)
  show ?case
  proof (cases "a = k")
    case True
    then have "map_of xs k = None" using Cons.prems(1) x by (simp add: map_of_eq_None_iff)
    then have "alist_erase k (x # xs) = xs"
      using True x erase_absent [of xs k] by (simp add: alist_erase_def)
    then show ?thesis using True Cons.prems x by simp
  next
    case False
    then have "alist_erase k (x # xs) = x # alist_erase k xs" using x by (simp add: alist_erase_def)
    then show ?thesis using False Cons x by simp
  qed
qed simp

lemma fst_set_modify [simp]: "fst ` set (alist_modify k f xs) = fst ` set xs"
  by (metis list.set_map map_fst_modify)

lemma fst_set_erase: "fst ` set (alist_erase k xs) = fst ` set xs - {k}"
  by (force simp: alist_erase_def)

lemma fst_set_emplace [simp]: "fst ` set (alist_emplace k v xs) = insert k (fst ` set xs)"
  by (auto simp: alist_emplace_def map_of_eq_None_iff)

text \<open>A property of every entry of a table survives each table operation.\<close>

definition alist_all :: "('k \<Rightarrow> 'v \<Rightarrow> bool) \<Rightarrow> ('k \<times> 'v) list \<Rightarrow> bool" where
  "alist_all P xs \<longleftrightarrow> (\<forall>(k, v) \<in> set xs. P k v)"

lemma alist_all_erase: "alist_all P xs \<Longrightarrow> alist_all P (alist_erase k xs)"
  by (auto simp: alist_all_def alist_erase_def)

lemma alist_all_modify: "alist_all P xs \<Longrightarrow> (\<And>v. P k v \<Longrightarrow> P k (f v)) \<Longrightarrow> alist_all P (alist_modify k f xs)"
  by (fastforce simp: alist_all_def alist_modify_def)

lemma alist_all_emplace: "alist_all P xs \<Longrightarrow> P k v \<Longrightarrow> alist_all P (alist_emplace k v xs)"
  by (auto simp: alist_all_def alist_emplace_def)

lemma alist_all_lookup: "alist_all P xs \<Longrightarrow> map_of xs k = Some v \<Longrightarrow> P k v"
  by (auto simp: alist_all_def dest: map_of_SomeD)

lemma alist_all_mono: "alist_all P xs \<Longrightarrow> (\<And>k v. P k v \<Longrightarrow> Q k v) \<Longrightarrow> alist_all Q xs"
  by (auto simp: alist_all_def)

lemma alist_all_subset: "alist_all P xs \<Longrightarrow> set ys \<subseteq> set xs \<Longrightarrow> alist_all P ys"
  by (auto simp: alist_all_def)

section \<open>Library calls\<close>

text \<open>
  What is asked of the two library calls that are parameters in many places: a SHA-256 digest
  has 32 bytes, and opening a protected secret gives what was protected.
\<close>

definition digest_ok :: "(bytes \<Rightarrow> bytes option) \<Rightarrow> bool" where
  "digest_ok sha \<longleftrightarrow> (\<forall>m h. sha m = Some h \<longrightarrow> length h = 32)"

definition secret_ok :: "(bytes \<Rightarrow> bytes option) \<Rightarrow> (bytes \<Rightarrow> bytes option) \<Rightarrow> bool" where
  "secret_ok protect unprotect \<longleftrightarrow> (\<forall>m b. protect m = Some b \<longrightarrow> unprotect b = Some m)"

section \<open>Interfaces\<close>

text \<open>
  A codec promises that a value accepted by the encoder is read back unchanged. A strict
  codec promises the converse too: the decoder accepts nothing but encodings of valid
  values, so that there is one wire form per value.
\<close>

locale codec =
  fixes enc :: "'a \<Rightarrow> bytes"
    and dec :: "bytes \<Rightarrow> 'a option"
    and valid :: "'a \<Rightarrow> bool"
  assumes dec_enc: "valid x \<Longrightarrow> dec (enc x) = Some x"
begin

lemma enc_inj: "valid x \<Longrightarrow> valid y \<Longrightarrow> enc x = enc y \<Longrightarrow> x = y"
  by (metis dec_enc option.inject)

end

locale strict_codec = codec enc dec valid
  for enc :: "'a \<Rightarrow> bytes" and dec :: "bytes \<Rightarrow> 'a option" and valid :: "'a \<Rightarrow> bool" +
  assumes dec_sound: "dec w = Some x \<Longrightarrow> valid x \<and> enc x = w"
begin

lemma dec_iff: "dec w = Some x \<longleftrightarrow> valid x \<and> enc x = w"
  using dec_enc dec_sound by blast

lemma dec_inj: "dec v = Some x \<Longrightarrow> dec w = Some x \<Longrightarrow> v = w"
  by (auto simp: dec_iff)

lemma dec_rejects: "dec w = None \<longleftrightarrow> (\<forall>x. valid x \<longrightarrow> enc x \<noteq> w)"
proof (cases "dec w")
  case None
  then show ?thesis using dec_enc by fastforce
next
  case (Some x)
  then have "valid x" and "enc x = w" by (simp_all add: dec_iff)
  with Some show ?thesis by auto
qed

end

text \<open>
  A guarded machine is an operation on a state together with an invariant that every
  operation allowed by the guard keeps. What holds of one operation then holds of every
  sequence of allowed operations. A machine has no guard: its invariant survives anything.
\<close>

locale guarded_machine =
  fixes step :: "'e \<Rightarrow> 's \<Rightarrow> 's"
    and allowed :: "'e \<Rightarrow> bool"
    and inv :: "'s \<Rightarrow> bool"
  assumes guarded_step: "allowed e \<Longrightarrow> inv s \<Longrightarrow> inv (step e s)"
begin

lemma guarded_run: "list_all allowed es \<Longrightarrow> inv s \<Longrightarrow> inv (fold step es s)"
  by (induction es arbitrary: s) (auto simp: guarded_step)

end

locale machine =
  fixes step :: "'e \<Rightarrow> 's \<Rightarrow> 's"
    and inv :: "'s \<Rightarrow> bool"
  assumes step_inv: "inv s \<Longrightarrow> inv (step e s)"

sublocale machine \<subseteq> guarded_machine step "\<lambda>_. True" inv
  by unfold_locales (rule step_inv)

context machine
begin

lemma run_inv: "inv s \<Longrightarrow> inv (fold step es s)"
  by (rule guarded_run) (simp add: list_all_iff)

end

end
