(* ===== verification/Protocol.thy ===== *)
theory Protocol
  imports Prelude
begin

text \<open>
  The command and video framing of \<^verbatim>\<open>common/src/protocol.cpp\<close>: the 20-byte command header,
  the 32-byte connection preamble, the 44-byte video header, length-prefixed TCP frames and
  the incremental \<open>TcpFrameParser\<close>. The enumerations of the wire are carried as the
  unsigned integers they are cast from (\<open>static_cast\<close> keeps every value), with the
  enumerators the code tests as constants.

  Shown: every header reads back what was written; a decoded header was written by the
  encoder; and the parser is independent of how the byte stream is cut into reads, so the
  frames a peer sends arrive whole and in order, one after the other.
\<close>

section \<open>Constants\<close>

definition kMagic :: u32 where "kMagic = 0x4E535455"
definition kCommandVersion :: u16 where "kCommandVersion = 1"
definition kVideoVersion :: u16 where "kVideoVersion = 2"
definition kCommandHeaderBytes :: nat where "kCommandHeaderBytes = 20"
definition kConnectionPreambleBytes :: nat where "kConnectionPreambleBytes = 32"
definition kVideoHeaderBytes :: nat where "kVideoHeaderBytes = 44"
definition kMaxCommandPayload :: nat where "kMaxCommandPayload = 64 * 1024"
definition kMaxTcpBufferedBytes :: nat where
  "kMaxTcpBufferedBytes = 4 * (kCommandHeaderBytes + kMaxCommandPayload)"

definition role_client :: u8 where "role_client = 1"
definition role_server :: u8 where "role_server = 2"
definition role_diagnostic :: u8 where "role_diagnostic = 3"

definition flag_keyframe :: u16 where "flag_keyframe = 1"
definition flag_end_of_frame :: u16 where "flag_end_of_frame = 2"

lemmas protocol_consts [simp] =
  kCommandHeaderBytes_def kConnectionPreambleBytes_def kVideoHeaderBytes_def
  kMaxCommandPayload_def kMaxTcpBufferedBytes_def

section \<open>Command header\<close>

record command_envelope =
  cmd_version :: u16
  cmd_type :: u16
  cmd_payload_bytes :: u32
  cmd_request_id :: u64

definition encode_command_header :: "command_envelope \<Rightarrow> bytes" where
  "encode_command_header e =
     append_le kMagic @ append_le (cmd_version e) @ append_le (cmd_type e) @
     append_le (cmd_payload_bytes e) @ append_le (cmd_request_id e)"

definition decode_command_header :: "bytes \<Rightarrow> command_envelope option" where
  "decode_command_header wire =
     (if length wire < kCommandHeaderBytes then None
      else do {
        (magic, w) \<leftarrow> read_le wire;
        if magic \<noteq> kMagic then None else do {
          (version, w) \<leftarrow> read_le w;
          (typ, w) \<leftarrow> read_le w;
          (payload, w) \<leftarrow> read_le w;
          (request, w) \<leftarrow> read_le w;
          if version \<noteq> kCommandVersion then None
          else Some \<lparr>cmd_version = version, cmd_type = typ, cmd_payload_bytes = payload,
                     cmd_request_id = request\<rparr>
        }
      })"

lemma length_encode_command_header [simp]: "length (encode_command_header e) = 20"
  by (simp add: encode_command_header_def)

lemma decode_encode_command_header:
  "cmd_version e = kCommandVersion \<Longrightarrow> decode_command_header (encode_command_header e @ rest) = Some e"
  by (simp add: decode_command_header_def encode_command_header_def)

lemma decode_command_header_sound:
  assumes "decode_command_header w = Some e"
  shows "cmd_version e = kCommandVersion \<and> (\<exists>rest. w = encode_command_header e @ rest)"
  using assms
  by (auto simp: decode_command_header_def encode_command_header_def bind_eq_Some_conv reader_iffs
      split: if_splits)

section \<open>Connection preamble\<close>

record connection_preamble =
  pre_version :: u16
  pre_role :: u8
  pre_flags :: u8
  pre_bytes :: u16
  pre_reserved :: u16
  pre_key_id :: u32
  pre_identity :: bytes

definition known_role :: "u8 \<Rightarrow> bool" where
  "known_role r \<longleftrightarrow> r = role_client \<or> r = role_server \<or> r = role_diagnostic"

definition encode_connection_preamble :: "connection_preamble \<Rightarrow> bytes" where
  "encode_connection_preamble p =
     (if unat (pre_bytes p) \<noteq> kConnectionPreambleBytes \<or> pre_reserved p \<noteq> 0 \<or>
         \<not> known_role (pre_role p)
      then []
      else append_le kMagic @ append_le (pre_version p) @ [pre_role p] @ [pre_flags p] @
           append_le (pre_bytes p) @ append_le (pre_reserved p) @ append_le (pre_key_id p) @
           pre_identity p)"

definition decode_connection_preamble :: "bytes \<Rightarrow> connection_preamble option" where
  "decode_connection_preamble wire =
     (if length wire \<noteq> kConnectionPreambleBytes then None
      else do {
        (magic, w) \<leftarrow> read_le wire;
        if magic \<noteq> kMagic then None else do {
          (version, w) \<leftarrow> read_le w;
          (role, w) \<leftarrow> read_byte w;
          (flags, w) \<leftarrow> read_byte w;
          (pbytes, w) \<leftarrow> read_le w;
          (reserved, w) \<leftarrow> read_le w;
          (key, w) \<leftarrow> read_le w;
          let identity = take 16 w; identity_present = non_zero identity
          in if length w \<noteq> 16 \<or> version \<noteq> kCommandVersion \<or>
                unat pbytes \<noteq> kConnectionPreambleBytes \<or> reserved \<noteq> 0 \<or> \<not> known_role role
             then None
             else if role = role_client \<and> (\<not> identity_present \<or> key = 0) then None
             else if (role = role_server \<or> role = role_diagnostic) \<and>
                     (identity_present \<or> key \<noteq> 0) then None
             else Some \<lparr>pre_version = version, pre_role = role, pre_flags = flags,
                        pre_bytes = pbytes, pre_reserved = reserved, pre_key_id = key,
                        pre_identity = identity\<rparr>
        }
      })"

text \<open>What the decoder demands of a preamble, as a predicate on the structure.\<close>

definition preamble_ok :: "connection_preamble \<Rightarrow> bool" where
  "preamble_ok p \<longleftrightarrow>
     length (pre_identity p) = 16 \<and> pre_version p = kCommandVersion \<and>
     unat (pre_bytes p) = kConnectionPreambleBytes \<and> pre_reserved p = 0 \<and>
     known_role (pre_role p) \<and>
     (if pre_role p = role_client then non_zero (pre_identity p) \<and> pre_key_id p \<noteq> 0
      else \<not> non_zero (pre_identity p) \<and> pre_key_id p = 0)"

section \<open>Video header\<close>

record video_header =
  vid_version :: u16
  vid_flags :: u16
  vid_stream_id :: u32
  vid_packet_sequence :: u64
  vid_frame_id :: u64
  vid_fragment_index :: u16
  vid_fragment_count :: u16
  vid_payload_bytes :: u32
  vid_capture_time :: u64

definition encode_video_header :: "video_header \<Rightarrow> bytes" where
  "encode_video_header h =
     append_le kMagic @ append_le (vid_version h) @ append_le (vid_flags h) @
     append_le (vid_stream_id h) @ append_le (vid_packet_sequence h) @
     append_le (vid_frame_id h) @ append_le (vid_fragment_index h) @
     append_le (vid_fragment_count h) @ append_le (vid_payload_bytes h) @
     append_le (vid_capture_time h)"

definition decode_video_header :: "bytes \<Rightarrow> video_header option" where
  "decode_video_header wire =
     (if length wire < kVideoHeaderBytes then None
      else do {
        (magic, w) \<leftarrow> read_le wire;
        if magic \<noteq> kMagic then None else do {
          (version, w) \<leftarrow> read_le w;
          (flags, w) \<leftarrow> read_le w;
          (stream, w) \<leftarrow> read_le w;
          (seq, w) \<leftarrow> read_le w;
          (frame, w) \<leftarrow> read_le w;
          (idx, w) \<leftarrow> read_le w;
          (count, w) \<leftarrow> read_le w;
          (payload, w) \<leftarrow> read_le w;
          (time, w) \<leftarrow> read_le w;
          if version \<noteq> kVideoVersion \<or> count = 0 \<or> idx \<ge> count then None
          else Some \<lparr>vid_version = version, vid_flags = flags, vid_stream_id = stream,
                     vid_packet_sequence = seq, vid_frame_id = frame,
                     vid_fragment_index = idx, vid_fragment_count = count,
                     vid_payload_bytes = payload, vid_capture_time = time\<rparr>
        }
      })"

definition video_header_ok :: "video_header \<Rightarrow> bool" where
  "video_header_ok h \<longleftrightarrow>
     vid_version h = kVideoVersion \<and> vid_fragment_index h < vid_fragment_count h"

lemma length_encode_video_header [simp]: "length (encode_video_header h) = 44"
  by (simp add: encode_video_header_def)

lemma decode_encode_video_header:
  "video_header_ok h \<Longrightarrow> decode_video_header (encode_video_header h @ rest) = Some h"
  by (auto simp: decode_video_header_def encode_video_header_def video_header_ok_def)

lemma decode_video_header_sound:
  assumes "decode_video_header w = Some h"
  shows "video_header_ok h \<and> (\<exists>rest. w = encode_video_header h @ rest)"
  using assms
  by (auto simp: decode_video_header_def encode_video_header_def video_header_ok_def
      bind_eq_Some_conv reader_iffs not_le split: if_splits)


lemma non_zero_code: "non_zero bs \<longleftrightarrow> (\<exists>b \<in> set bs. b \<noteq> 0)"
  by (auto simp: non_zero_def list_ex_iff)

lemma preamble_role_cases:
  "known_role r \<Longrightarrow> r \<noteq> role_client \<Longrightarrow> r = role_server \<or> r = role_diagnostic"
  by (auto simp: known_role_def)

lemma role_distinct [simp]:
  "role_client \<noteq> role_server" "role_client \<noteq> role_diagnostic" "role_server \<noteq> role_diagnostic"
  "role_server \<noteq> role_client" "role_diagnostic \<noteq> role_client" "role_diagnostic \<noteq> role_server"
  by (simp_all add: role_client_def role_server_def role_diagnostic_def)

lemma decode_encode_preamble:
  "preamble_ok p \<Longrightarrow> decode_connection_preamble (encode_connection_preamble p) = Some p"
  by (auto simp: preamble_ok_def decode_connection_preamble_def encode_connection_preamble_def
      Let_def dest: preamble_role_cases split: if_splits)

lemma decode_preamble_sound:
  "decode_connection_preamble w = Some p \<Longrightarrow> preamble_ok p \<and> encode_connection_preamble p = w"
  by (auto simp: preamble_ok_def decode_connection_preamble_def encode_connection_preamble_def
      Let_def bind_eq_Some_conv reader_iffs dest: preamble_role_cases
      split: if_splits)

interpretation preamble_codec: strict_codec encode_connection_preamble decode_connection_preamble preamble_ok
  by unfold_locales (auto simp: decode_encode_preamble dest: decode_preamble_sound)

section \<open>TCP frames\<close>

record tcp_frame =
  envelope :: command_envelope
  payload :: bytes

definition encode_tcp_frame :: "command_envelope \<Rightarrow> bytes \<Rightarrow> bytes" where
  "encode_tcp_frame env body =
     (if length body > kMaxCommandPayload \<or> length body \<noteq> unat (cmd_payload_bytes env) then []
      else let header = encode_command_header env;
               body_bytes = length header + length body
           in append_le (word_of_nat body_bytes :: u32) @ header @ body)"

definition frame_ok :: "tcp_frame \<Rightarrow> bool" where
  "frame_ok f \<longleftrightarrow> length (payload f) \<le> kMaxCommandPayload \<and>
     length (payload f) = unat (cmd_payload_bytes (envelope f)) \<and>
     cmd_version (envelope f) = kCommandVersion"

abbreviation frame_wire :: "tcp_frame \<Rightarrow> bytes" where
  "frame_wire f \<equiv> encode_tcp_frame (envelope f) (payload f)"

text \<open>
  The loop of \<open>TcpFrameParser::feed\<close>: the result is the returned flag, the buffer kept and
  the frames emitted so far. \<open>reset()\<close> on a violation clears the buffer; frames already
  pushed stay in the caller's vector.
\<close>

definition tcp_reset :: "bytes \<Rightarrow> bytes" where
  "tcp_reset buffer = []"

declare tcp_reset_def [simp]

function parse_loop :: "bytes \<Rightarrow> tcp_frame list \<Rightarrow> bool \<times> bytes \<times> tcp_frame list" where
  "parse_loop buffer frames =
     (if length buffer < 4 then (True, buffer, frames)
      else case read_le buffer :: (u32 \<times> bytes) option of
        None \<Rightarrow> (False, tcp_reset buffer, frames)
      | Some (body_bytes, _) \<Rightarrow>
          if unat body_bytes < kCommandHeaderBytes \<or>
             unat body_bytes > kCommandHeaderBytes + kMaxCommandPayload
          then (False, tcp_reset buffer, frames)
          else let total_bytes = 4 + unat body_bytes in
            if length buffer < total_bytes then (True, buffer, frames)
            else let body = take (unat body_bytes) (drop 4 buffer) in
              case decode_command_header body of
                None \<Rightarrow> (False, tcp_reset buffer, frames)
              | Some env \<Rightarrow>
                  if unat (cmd_payload_bytes env) \<noteq> unat body_bytes - kCommandHeaderBytes
                  then (False, tcp_reset buffer, frames)
                  else parse_loop (drop total_bytes buffer)
                         (frames @ [\<lparr>envelope = env, payload = drop kCommandHeaderBytes body\<rparr>]))"
  by pat_completeness auto
termination
  by (relation "measure (\<lambda>(buffer, _). length buffer)") auto

declare parse_loop.simps [simp del]

definition feed :: "bytes \<Rightarrow> bytes \<Rightarrow> tcp_frame list \<Rightarrow> bool \<times> bytes \<times> tcp_frame list" where
  "feed buffer chunk frames =
     (if length chunk > kMaxTcpBufferedBytes - min (length buffer) kMaxTcpBufferedBytes
      then (False, tcp_reset buffer, frames)
      else parse_loop (buffer @ chunk) frames)"

text \<open>A connection feeds the reads as they come and stops at the first violation.\<close>

fun feed_all :: "bytes \<Rightarrow> bytes list \<Rightarrow> tcp_frame list \<Rightarrow> bool \<times> bytes \<times> tcp_frame list" where
  "feed_all buffer [] frames = (True, buffer, frames)"
| "feed_all buffer (c # cs) frames =
     (case feed buffer c frames of
        (True, buffer', frames') \<Rightarrow> feed_all buffer' cs frames'
      | (False, buffer', frames') \<Rightarrow> (False, buffer', frames'))"

text \<open>
  One step of the loop, independent of the accumulated frames: \<open>Wait\<close> when the buffer holds
  no complete frame, \<open>Bad\<close> on a violation, \<open>Got\<close> with the frame and the rest.
\<close>

datatype step_result = Wait | Bad | Got tcp_frame bytes

definition frame_step :: "bytes \<Rightarrow> step_result" where
  "frame_step buffer =
     (if length buffer < 4 then Wait
      else let n = unat (le_loop 0 0 (take 4 buffer) :: u32) in
        if n < 20 \<or> n > 65556 then Bad
        else if length buffer < 4 + n then Wait
        else case decode_command_header (take n (drop 4 buffer)) of
               None \<Rightarrow> Bad
             | Some env \<Rightarrow> if unat (cmd_payload_bytes env) \<noteq> n - 20 then Bad
                 else Got \<lparr>envelope = env, payload = drop 20 (take n (drop 4 buffer))\<rparr>
                        (drop (4 + n) buffer))"

lemma parse_loop_step:
  "parse_loop buffer frames =
     (case frame_step buffer of Wait \<Rightarrow> (True, buffer, frames) | Bad \<Rightarrow> (False, [], frames)
      | Got f rest \<Rightarrow> parse_loop rest (frames @ [f]))"
  by (subst parse_loop.simps) (auto simp: frame_step_def Let_def read_le_def split: option.splits)

lemma frame_step_shorter: "frame_step b = Got f r \<Longrightarrow> length r < length b"
  by (auto simp: frame_step_def Let_def split: if_splits option.splits)

lemma frame_step_append:
  shows "frame_step b = Bad \<Longrightarrow> frame_step (b @ c) = Bad"
    and "frame_step b = Got f r \<Longrightarrow> frame_step (b @ c) = Got f (r @ c)"
  by (auto simp: frame_step_def Let_def split: if_splits option.splits)

lemma frame_step_wait_bound: "frame_step b = Wait \<Longrightarrow> length b < 65560"
  by (auto simp: frame_step_def Let_def split: if_splits option.splits)

lemma parse_loop_append:
  "parse_loop (b @ c) fs =
     (case parse_loop b fs of (True, r, fs') \<Rightarrow> parse_loop (r @ c) fs'
      | (False, r, fs') \<Rightarrow> (False, r, fs'))"
proof (induction "length b" arbitrary: b fs rule: less_induct)
  case less
  show ?case
  proof (cases "frame_step b")
    case Wait
    then show ?thesis by (simp add: parse_loop_step [of b])
  next
    case Bad
    then show ?thesis
      by (simp add: parse_loop_step [of b] parse_loop_step [of "b @ c"] frame_step_append)
  next
    case (Got f r)
    have "parse_loop (b @ c) fs = parse_loop (r @ c) (fs @ [f])"
      by (subst parse_loop_step) (simp add: frame_step_append(2) [OF Got])
    moreover have "parse_loop b fs = parse_loop r (fs @ [f])"
      by (subst parse_loop_step) (simp add: Got)
    ultimately show ?thesis
      using less [OF frame_step_shorter [OF Got]] by simp
  qed
qed

lemma parse_loop_buffer: "parse_loop b fs = (ok, r, fs') \<Longrightarrow> length r < 65560"
proof (induction "length b" arbitrary: b fs rule: less_induct)
  case less
  show ?case
  proof (cases "frame_step b")
    case (Got f r')
    have "parse_loop r' (fs @ [f]) = (ok, r, fs')"
      using less.prems by (subst (asm) parse_loop_step) (simp add: Got)
    then show ?thesis using less.hyps [OF frame_step_shorter [OF Got]] by blast
  qed (use less.prems frame_step_wait_bound in \<open>auto simp: parse_loop_step [of b]\<close>)
qed


lemma frame_wire_append:
  "frame_ok f \<Longrightarrow>
   frame_wire f = append_le (word_of_nat (20 + length (payload f)) :: u32) @
     encode_command_header (envelope f) @ payload f"
  by (simp add: encode_tcp_frame_def frame_ok_def)

lemma body_length_u32: "n \<le> 65556 \<Longrightarrow> unat (word_of_nat n :: u32) = n"
  by (simp add: unat_of_nat)

lemma le_loop_append_u32: "le_loop 0 0 (append_le (v :: u32)) = v"
  using read_le_u32 [of v "[]"] by (simp add: read_le_def)

lemma frame_step_wire:
  assumes "frame_ok f"
  shows "frame_step (frame_wire f @ rest) = Got f rest"
proof -
  define w where "w = (word_of_nat (20 + length (payload f)) :: u32)"
  have w: "unat w = 20 + length (payload f)"
    unfolding w_def by (rule body_length_u32) (use assms in \<open>simp add: frame_ok_def\<close>)
  have wire: "frame_wire f = append_le w @ encode_command_header (envelope f) @ payload f"
    using assms by (simp only: frame_wire_append w_def)
  have "decode_command_header (encode_command_header (envelope f) @ payload f) = Some (envelope f)"
    using assms by (simp add: decode_encode_command_header frame_ok_def)
  then show ?thesis
    using assms w by (simp add: frame_step_def wire Let_def le_loop_append_u32 frame_ok_def)
qed

lemma frame_step_Got:
  assumes "frame_step b = Got f r"
  shows "frame_ok f \<and> b = frame_wire f @ r"
proof -
  define w where "w = (le_loop 0 0 (take 4 b) :: u32)"
  define body where "body = take (unat w) (drop 4 b)"
  have n: "20 \<le> unat w" "unat w \<le> 65556" "4 + unat w \<le> length b" "r = drop (4 + unat w) b"
    and env: "decode_command_header body = Some (envelope f)"
    and len: "unat (cmd_payload_bytes (envelope f)) = unat w - 20" and pay: "payload f = drop 20 body"
    using assms by (auto simp: frame_step_def Let_def w_def body_def split: if_splits option.splits)
  have body: "length body = unat w" using n by (simp add: body_def)
  from decode_command_header_sound [OF env] obtain rest where
    ver: "cmd_version (envelope f) = kCommandVersion" and
    b: "body = encode_command_header (envelope f) @ rest" by blast
  have ok: "frame_ok f" using n len ver pay body by (simp add: frame_ok_def)
  have "read_le b = Some (w, drop 4 b)" using n by (simp add: read_le_def w_def)
  then have "b = append_le w @ drop 4 b" by (simp only: read_le_u32_iff)
  moreover have "drop 4 b = body @ r"
    using n by (simp add: body_def add.commute) (metis append_take_drop_id drop_drop)
  moreover have "word_of_nat (20 + length (payload f)) = w"
    using n pay body by simp
  moreover have "body = encode_command_header (envelope f) @ payload f"
    using b pay by simp
  ultimately show ?thesis using ok by (simp add: frame_wire_append)
qed

lemma parse_loop_frames:
  "\<forall>f \<in> set fs. frame_ok f \<Longrightarrow>
   parse_loop (concat (map frame_wire fs) @ rest) acc = parse_loop rest (acc @ fs)"
proof (induction fs arbitrary: acc)
  case Nil
  then show ?case by simp
next
  case (Cons f fs)
  have "parse_loop (frame_wire f @ (concat (map frame_wire fs) @ rest)) acc =
      parse_loop (concat (map frame_wire fs) @ rest) (acc @ [f])"
    using Cons.prems by (subst parse_loop_step) (simp add: frame_step_wire)
  then show ?case using Cons by simp
qed

lemma parse_loop_sound:
  "parse_loop b acc = (ok, r, fs) \<Longrightarrow>
   \<exists>new tail. fs = acc @ new \<and> (\<forall>f \<in> set new. frame_ok f) \<and>
     b = concat (map frame_wire new) @ tail \<and> (ok \<longrightarrow> tail = r \<and> frame_step r = Wait)"
proof (induction "length b" arbitrary: b acc rule: less_induct)
  case less
  show ?case
  proof (cases "frame_step b")
    case (Got f r')
    have "parse_loop r' (acc @ [f]) = (ok, r, fs)"
      using less.prems by (subst (asm) parse_loop_step) (simp add: Got)
    from less.hyps [OF frame_step_shorter [OF Got] this] obtain new tail where
      "fs = (acc @ [f]) @ new" "\<forall>f \<in> set new. frame_ok f"
      "r' = concat (map frame_wire new) @ tail" "ok \<longrightarrow> tail = r \<and> frame_step r = Wait"
      by blast
    with frame_step_Got [OF Got] show ?thesis
      by (intro exI [of _ "f # new"] exI [of _ tail]) simp
  qed (use less.prems in \<open>auto simp: parse_loop_step [of b]\<close>)
qed

lemma feed_all_parse_loop:
  assumes "\<forall>c \<in> set chunks. length c \<le> 196664" and "frame_step b = Wait"
  shows "feed_all b chunks fs = parse_loop (b @ concat chunks) fs"
  using assms
proof (induction chunks arbitrary: b fs)
  case Nil
  then show ?case by (simp add: parse_loop_step [of b])
next
  case (Cons c cs)
  have "length c \<le> 196664" and "length b < 65560"
    using Cons.prems frame_step_wait_bound [of b] by auto
  then have feed: "feed b c fs = parse_loop (b @ c) fs"
    by (auto simp: feed_def)
  obtain ok r fs' where p: "parse_loop (b @ c) fs = (ok, r, fs')" by (metis prod_cases3)
  have "parse_loop (b @ concat (c # cs)) fs =
      (if ok then parse_loop (r @ concat cs) fs' else (False, r, fs'))"
    using parse_loop_append [of "b @ c" "concat cs" fs] p by simp
  moreover have "ok \<Longrightarrow> feed_all r cs fs' = parse_loop (r @ concat cs) fs'"
    using Cons.IH [of r fs'] Cons.prems(1) parse_loop_sound [OF p] by auto
  ultimately show ?case using feed p by (cases ok) simp_all
qed

text \<open>
  The TCP frame parser does not depend on how the byte stream is cut into reads: as long
  as no single read exceeds what the 262224-byte buffer always leaves free (196664 bytes),
  feeding the reads one after the other gives the same verdict, the same left-over buffer
  and the same frames as parsing the whole stream at once.
\<close>

theorem tcp_chunking_invariance:
  assumes "\<forall>c \<in> set chunks. length c \<le> kMaxTcpBufferedBytes - 65560"
  shows "feed_all [] chunks fs = parse_loop (concat chunks) fs"
  using feed_all_parse_loop [of chunks "[]" fs] assms by (simp add: frame_step_def)

theorem tcp_chunking_invariance_witness:
  "feed_all [] [[1, 2, 3], [4, 5]] [] = parse_loop [1, 2, 3, 4, 5] []"
  using tcp_chunking_invariance [of "[[1, 2, 3], [4, 5]]" "[]"] by simp

text \<open>
  C18. Frames survive the network: whatever sequence of well-formed frames a peer encodes, and
  however the resulting bytes are cut into reads of at most 196664 bytes each (the parser's buffer
  limit of 262224 bytes less one maximal frame with its length prefix), the parser accepts, emits
  exactly those frames in that order, and ends with an empty buffer. The bound is needed: the
  parser refuses a read that does not fit beside what it holds. Reads of the dispatcher have
  16384 bytes by default.
\<close>

theorem tcp_stream_roundtrip:
  assumes "\<forall>f \<in> set frames. frame_ok f"
    and "concat chunks = concat (map (\<lambda>f. encode_tcp_frame (envelope f) (payload f)) frames)"
    and "\<forall>c \<in> set chunks. length c \<le> kMaxTcpBufferedBytes - 65560"
  shows "feed_all [] chunks [] = (True, [], frames)"
proof -
  have "feed_all [] chunks [] = parse_loop (concat chunks) []"
    using feed_all_parse_loop [of chunks "[]" "[]"] assms(3) by (simp add: frame_step_def)
  also have "\<dots> = parse_loop [] frames"
    using parse_loop_frames [of frames "[]" "[]"] assms(1,2) by simp
  finally show ?thesis by (simp add: parse_loop.simps)
qed

definition demo_frame :: tcp_frame where
  "demo_frame = \<lparr>envelope = \<lparr>cmd_version = 1, cmd_type = 3, cmd_payload_bytes = 2,
     cmd_request_id = 7\<rparr>, payload = [10, 20]\<rparr>"

theorem tcp_stream_roundtrip_witness:
  "feed_all [] [take 5 (frame_wire demo_frame), drop 5 (frame_wire demo_frame)] [] =
     (True, [], [demo_frame])"
  by (rule tcp_stream_roundtrip)
    (auto simp: demo_frame_def frame_ok_def kCommandVersion_def encode_tcp_frame_def)

text \<open>
  The parser invents nothing: if it accepts a stream, the stream is the concatenation of
  the encodings of the emitted frames, each well formed and within the payload limit,
  followed by the bytes still in the buffer; that remainder holds no complete frame and is
  shorter than one maximal frame.
\<close>

theorem tcp_parser_sound:
  assumes "parse_loop stream [] = (True, buffer, frames)"
  shows "(\<forall>f \<in> set frames. frame_ok f) \<and>
    stream = concat (map (\<lambda>f. encode_tcp_frame (envelope f) (payload f)) frames) @ buffer \<and>
    length buffer < 4 + kCommandHeaderBytes + kMaxCommandPayload"
  using parse_loop_sound [OF assms] parse_loop_buffer [OF assms] by auto

theorem tcp_parser_sound_witness:
  "parse_loop [1, 2, 3] [] = (True, [1, 2, 3], []) \<and> length [1, 2, 3 :: byte] < 65560"
proof -
  have h: "parse_loop [1, 2, 3] [] = (True, [1, 2, 3], [])" by (simp add: parse_loop.simps)
  show ?thesis using h tcp_parser_sound [OF h] by simp
qed

text \<open>
  Connection preambles have one wire form: the decoder accepts a 32-byte message exactly
  when it is the encoding of a preamble with a known role, version 1, zero reserved field,
  a non-zero identity and key id for a client, and neither for a server or diagnostic peer.
\<close>

theorem preamble_decode_exact:
  "decode_connection_preamble w = Some p \<longleftrightarrow> preamble_ok p \<and> encode_connection_preamble p = w"
  by (rule preamble_codec.dec_iff)

text \<open>
  Video packet headers read back field by field, whatever follows them in the datagram,
  and every header the decoder accepts is the encoding of a version-2 header whose fragment
  index is below its fragment count.
\<close>

theorem video_header_roundtrip:
  "(\<exists>rest. w = encode_video_header h @ rest) \<and> video_header_ok h \<longleftrightarrow> decode_video_header w = Some h"
  using decode_encode_video_header decode_video_header_sound by auto

end
