(* ===== verification/Auth.thy ===== *)
theory Auth
  imports Protocol
begin

text \<open>
  Session authentication of \<^verbatim>\<open>common/src/auth.cpp\<close>: the hello and challenge messages, the
  HMAC transcripts of the mutual handshake, the per-frame control and video tags, the
  control sequence guard and the replay protector. The Windows primitive behind
  \<open>hmac_sha256\<close> (the BCrypt calls) is the parameter \<open>bcrypt\<close> of the definitions that use it:
  a function of key and message whose result is \<open>None\<close> when a call fails.

  Shown: both messages are strict codecs; MAC inputs of different purposes never coincide and
  the input of one purpose determines what it authenticates, so an accepted tag on anything
  else is a collision of the truncated HMAC; the guard accepts each sequence number once and
  in order up to the last one; a hello accepted once is refused when it is replayed.
\<close>

section \<open>Messages\<close>

definition kClientIdBytes :: nat where "kClientIdBytes = 16"
definition kNonceBytes :: nat where "kNonceBytes = 32"
definition kMinimumProtocolKeyBytes :: nat where "kMinimumProtocolKeyBytes = 32"
definition kAuthHelloBytes :: nat where "kAuthHelloBytes = 60"
definition kAuthChallengeBytes :: nat where "kAuthChallengeBytes = 40"
definition kControlAuthTagBytes :: nat where "kControlAuthTagBytes = 16"
definition kVideoAuthTagBytes :: nat where "kVideoAuthTagBytes = 16"

lemmas auth_consts [simp] =
  kClientIdBytes_def kNonceBytes_def kMinimumProtocolKeyBytes_def kAuthHelloBytes_def
  kAuthChallengeBytes_def kControlAuthTagBytes_def kVideoAuthTagBytes_def

record auth_hello =
  hello_client_id :: bytes
  hello_client_nonce :: bytes
  hello_time :: u64
  hello_key_id :: u32

record auth_challenge =
  chal_server_nonce :: bytes
  chal_time :: u64

definition hello_wf :: "auth_hello \<Rightarrow> bool" where
  "hello_wf h \<longleftrightarrow> length (hello_client_id h) = kClientIdBytes \<and>
     length (hello_client_nonce h) = kNonceBytes"

definition challenge_wf :: "auth_challenge \<Rightarrow> bool" where
  "challenge_wf c \<longleftrightarrow> length (chal_server_nonce c) = kNonceBytes"

definition encode_auth_hello :: "auth_hello \<Rightarrow> bytes" where
  "encode_auth_hello h =
     hello_client_id h @ hello_client_nonce h @ append_le (hello_time h) @
     append_le (hello_key_id h)"

definition decode_auth_hello :: "bytes \<Rightarrow> auth_hello option" where
  "decode_auth_hello wire =
     (if length wire \<noteq> kAuthHelloBytes then None
      else do {
        (cid, w) \<leftarrow> read_array kClientIdBytes wire;
        (nonce, w) \<leftarrow> read_array kNonceBytes w;
        (time, w) \<leftarrow> read_le w;
        (key, w) \<leftarrow> read_le w;
        Some \<lparr>hello_client_id = cid, hello_client_nonce = nonce, hello_time = time,
              hello_key_id = key\<rparr>
      })"

definition encode_auth_challenge :: "auth_challenge \<Rightarrow> bytes" where
  "encode_auth_challenge c = chal_server_nonce c @ append_le (chal_time c)"

definition decode_auth_challenge :: "bytes \<Rightarrow> auth_challenge option" where
  "decode_auth_challenge wire =
     (if length wire \<noteq> kAuthChallengeBytes then None
      else do {
        (nonce, w) \<leftarrow> read_array kNonceBytes wire;
        (time, w) \<leftarrow> read_le w;
        Some \<lparr>chal_server_nonce = nonce, chal_time = time\<rparr>
      })"

definition validate_auth_hello :: "auth_hello \<Rightarrow> bool" where
  "validate_auth_hello h \<longleftrightarrow>
     non_zero (hello_client_id h) \<and> non_zero (hello_client_nonce h) \<and>
     hello_time h \<noteq> 0 \<and> hello_key_id h \<noteq> 0"

definition validate_auth_challenge :: "auth_challenge \<Rightarrow> bool" where
  "validate_auth_challenge c \<longleftrightarrow> non_zero (chal_server_nonce c) \<and> chal_time c \<noteq> 0"

interpretation hello_codec: strict_codec encode_auth_hello decode_auth_hello hello_wf
proof
  fix h assume "hello_wf h"
  then show "decode_auth_hello (encode_auth_hello h) = Some h"
    using read_le_u32 [of "hello_key_id h" "[]"]
    by (simp add: decode_auth_hello_def encode_auth_hello_def hello_wf_def)
next
  fix w h assume "decode_auth_hello w = Some h"
  then show "hello_wf h \<and> encode_auth_hello h = w"
    by (auto simp: decode_auth_hello_def encode_auth_hello_def hello_wf_def bind_eq_Some_conv
        reader_iffs split: if_splits)
qed

interpretation challenge_codec: strict_codec encode_auth_challenge decode_auth_challenge challenge_wf
proof
  fix c assume "challenge_wf c"
  then show "decode_auth_challenge (encode_auth_challenge c) = Some c"
    using read_le_u64 [of "chal_time c" "[]"]
    by (simp add: decode_auth_challenge_def encode_auth_challenge_def challenge_wf_def)
next
  fix w c assume "decode_auth_challenge w = Some c"
  then show "challenge_wf c \<and> encode_auth_challenge c = w"
    by (auto simp: decode_auth_challenge_def encode_auth_challenge_def challenge_wf_def
        bind_eq_Some_conv reader_iffs split: if_splits)
qed

section \<open>HMAC and transcripts\<close>

definition hmac_sha256 :: "(bytes \<Rightarrow> bytes \<Rightarrow> bytes option) \<Rightarrow> bytes \<Rightarrow> bytes \<Rightarrow> bytes option" where
  "hmac_sha256 bcrypt key message =
     (if key = [] \<or> length key > 2 ^ 32 - 1 \<or> length message > 2 ^ 32 - 1 then None
      else bcrypt key message)"

primrec constant_time_loop :: "bytes \<Rightarrow> bytes \<Rightarrow> u32 \<Rightarrow> u32" where
  "constant_time_loop [] right difference = difference"
| "constant_time_loop (l # left) right difference =
     constant_time_loop left (tl right) (difference OR ucast (l XOR hd right))"

definition constant_time_equal :: "bytes \<Rightarrow> bytes \<Rightarrow> bool" where
  "constant_time_equal left right =
     (if length left \<noteq> length right then False else constant_time_loop left right 0 = 0)"

definition make_transcript :: "string \<Rightarrow> auth_hello \<Rightarrow> auth_challenge \<Rightarrow> bytes" where
  "make_transcript label h c = ascii label @ encode_auth_hello h @ encode_auth_challenge c"

definition compute_client_proof ::
    "(bytes \<Rightarrow> bytes \<Rightarrow> bytes option) \<Rightarrow> bytes \<Rightarrow> auth_hello \<Rightarrow> auth_challenge \<Rightarrow> bytes option" where
  "compute_client_proof bcrypt psk h c =
     (if length psk < kMinimumProtocolKeyBytes \<or> \<not> validate_auth_hello h \<or>
         \<not> validate_auth_challenge c then None
      else hmac_sha256 bcrypt psk (make_transcript ''NSTU-CLIENT-PROOF-V1'' h c))"

definition derive_session_key ::
    "(bytes \<Rightarrow> bytes \<Rightarrow> bytes option) \<Rightarrow> bytes \<Rightarrow> auth_hello \<Rightarrow> auth_challenge \<Rightarrow> bytes option" where
  "derive_session_key bcrypt psk h c =
     (if length psk < kMinimumProtocolKeyBytes \<or> \<not> validate_auth_hello h \<or>
         \<not> validate_auth_challenge c then None
      else hmac_sha256 bcrypt psk (make_transcript ''NSTU-SESSION-KEY-V1'' h c))"

definition compute_server_proof ::
    "(bytes \<Rightarrow> bytes \<Rightarrow> bytes option) \<Rightarrow> bytes \<Rightarrow> auth_hello \<Rightarrow> auth_challenge \<Rightarrow> bytes option" where
  "compute_server_proof bcrypt session_key h c =
     (if length session_key < kMinimumProtocolKeyBytes \<or> \<not> validate_auth_hello h \<or>
         \<not> validate_auth_challenge c then None
      else hmac_sha256 bcrypt session_key (make_transcript ''NSTU-SERVER-PROOF-V1'' h c))"

section \<open>Frame tags\<close>

definition video_message :: "video_header \<Rightarrow> bytes \<Rightarrow> bytes" where
  "video_message h body = ascii ''NSTU-VIDEO-PACKET-V1'' @ encode_video_header h @ body"

definition compute_video_auth_tag ::
    "(bytes \<Rightarrow> bytes \<Rightarrow> bytes option) \<Rightarrow> bytes \<Rightarrow> video_header \<Rightarrow> bytes \<Rightarrow> bytes option" where
  "compute_video_auth_tag bcrypt key h body =
     (if length key < kMinimumProtocolKeyBytes then None
      else map_option (take kVideoAuthTagBytes) (hmac_sha256 bcrypt key (video_message h body)))"

definition verify_video_auth_tag ::
    "(bytes \<Rightarrow> bytes \<Rightarrow> bytes option) \<Rightarrow> bytes \<Rightarrow> video_header \<Rightarrow> bytes \<Rightarrow> bytes \<Rightarrow> bool" where
  "verify_video_auth_tag bcrypt key h body tag =
     (if length tag \<noteq> kVideoAuthTagBytes then False
      else case compute_video_auth_tag bcrypt key h body of
             None \<Rightarrow> False | Some expected \<Rightarrow> constant_time_equal expected tag)"

datatype control_direction = Client_to_server | Server_to_client

fun direction_byte :: "control_direction \<Rightarrow> byte" where
  "direction_byte Client_to_server = 1"
| "direction_byte Server_to_client = 2"

text \<open>The neutral (version 1) and the directional (version 2) authenticated message.\<close>

definition control_message :: "command_envelope \<Rightarrow> u64 \<Rightarrow> bytes \<Rightarrow> bytes" where
  "control_message env sequence body =
     ascii ''NSTU-CONTROL-FRAME-V1'' @ encode_command_header env @ append_le sequence @ body"

definition control_message_v2 :: "control_direction \<Rightarrow> command_envelope \<Rightarrow> u64 \<Rightarrow> bytes \<Rightarrow> bytes" where
  "control_message_v2 dir env sequence body =
     ascii ''NSTU-CONTROL-FRAME-V2'' @ [direction_byte dir] @ encode_command_header env @
     append_le sequence @ body"

definition compute_control_auth_tag ::
    "(bytes \<Rightarrow> bytes \<Rightarrow> bytes option) \<Rightarrow> bytes \<Rightarrow> command_envelope \<Rightarrow> u64 \<Rightarrow> bytes \<Rightarrow> bytes option" where
  "compute_control_auth_tag bcrypt key env sequence body =
     (if length key < kMinimumProtocolKeyBytes then None
      else map_option (take kControlAuthTagBytes)
             (hmac_sha256 bcrypt key (control_message env sequence body)))"

definition compute_control_auth_tag_v2 ::
    "(bytes \<Rightarrow> bytes \<Rightarrow> bytes option) \<Rightarrow> bytes \<Rightarrow> command_envelope \<Rightarrow> u64 \<Rightarrow> bytes \<Rightarrow>
     control_direction \<Rightarrow> bytes option" where
  "compute_control_auth_tag_v2 bcrypt key env sequence body dir =
     (if length key < kMinimumProtocolKeyBytes then None
      else map_option (take kControlAuthTagBytes)
             (hmac_sha256 bcrypt key (control_message_v2 dir env sequence body)))"

definition verify_control_auth_tag ::
    "(bytes \<Rightarrow> bytes \<Rightarrow> bytes option) \<Rightarrow> bytes \<Rightarrow> command_envelope \<Rightarrow> u64 \<Rightarrow> bytes \<Rightarrow> bytes \<Rightarrow> bool" where
  "verify_control_auth_tag bcrypt key env sequence body tag =
     (if length tag \<noteq> kControlAuthTagBytes then False
      else case compute_control_auth_tag bcrypt key env sequence body of
             None \<Rightarrow> False | Some expected \<Rightarrow> constant_time_equal expected tag)"

definition verify_control_auth_tag_v2 ::
    "(bytes \<Rightarrow> bytes \<Rightarrow> bytes option) \<Rightarrow> bytes \<Rightarrow> command_envelope \<Rightarrow> u64 \<Rightarrow> bytes \<Rightarrow>
     control_direction \<Rightarrow> bytes \<Rightarrow> bool" where
  "verify_control_auth_tag_v2 bcrypt key env sequence body dir tag =
     (if length tag \<noteq> kControlAuthTagBytes then False
      else case compute_control_auth_tag_v2 bcrypt key env sequence body dir of
             None \<Rightarrow> False | Some expected \<Rightarrow> constant_time_equal expected tag)"

section \<open>Sequence guard\<close>

record sequence_guard =
  next_expected :: u64
  exhausted :: bool

definition guard_reset :: "u64 \<Rightarrow> sequence_guard \<Rightarrow> sequence_guard" where
  "guard_reset first g = g\<lparr>next_expected := first, exhausted := False\<rparr>"

definition guard_accept :: "u64 \<Rightarrow> sequence_guard \<Rightarrow> bool \<times> sequence_guard" where
  "guard_accept sequence g =
     (if exhausted g \<or> sequence \<noteq> next_expected g then (False, g)
      else if next_expected g = -1 then (True, g\<lparr>exhausted := True\<rparr>)
      else (True, g\<lparr>next_expected := next_expected g + 1\<rparr>))"

text \<open>The sequence numbers a guard accepts out of a stream of attempts.\<close>

fun guard_run :: "u64 list \<Rightarrow> sequence_guard \<Rightarrow> u64 list" where
  "guard_run [] g = []"
| "guard_run (q # qs) g =
     (case guard_accept q g of (True, g') \<Rightarrow> q # guard_run qs g' | (False, g') \<Rightarrow> guard_run qs g')"

section \<open>Replay protector\<close>

record replay_protector =
  rp_capacity :: nat
  rp_skew :: u64
  rp_entries :: "(bytes \<times> u64) list"
  rp_keys :: "bytes set"

definition make_replay_protector :: "nat \<Rightarrow> int \<Rightarrow> replay_protector" where
  "make_replay_protector capacity skew =
     \<lparr>rp_capacity = max capacity 1, rp_skew = word_of_int (max skew 1),
      rp_entries = [], rp_keys = {}\<rparr>"

definition replay_key :: "auth_hello \<Rightarrow> bytes" where
  "replay_key h = hello_client_id h @ hello_client_nonce h"

fun pop_expired :: "u64 \<Rightarrow> (bytes \<times> u64) list \<Rightarrow> bytes set \<Rightarrow> (bytes \<times> u64) list \<times> bytes set" where
  "pop_expired now [] keys = ([], keys)"
| "pop_expired now ((k, expires_at) # es) keys =
     (if expires_at < now then pop_expired now es (keys - {k}) else ((k, expires_at) # es, keys))"

fun pop_over_capacity :: "nat \<Rightarrow> (bytes \<times> u64) list \<Rightarrow> bytes set \<Rightarrow> (bytes \<times> u64) list \<times> bytes set" where
  "pop_over_capacity capacity [] keys = ([], keys)"
| "pop_over_capacity capacity ((k, t) # es) keys =
     (if length ((k, t) # es) \<ge> capacity then pop_over_capacity capacity es (keys - {k})
      else ((k, t) # es, keys))"

definition expiry :: "u64 \<Rightarrow> u64 \<Rightarrow> u64" where
  "expiry skew base = (if skew > -1 - base then -1 else base + skew)"

definition replay_accept :: "auth_hello \<Rightarrow> u64 \<Rightarrow> replay_protector \<Rightarrow> bool \<times> replay_protector" where
  "replay_accept h now s =
     (if \<not> validate_auth_hello h then (False, s)
      else let difference = (if hello_time h > now then hello_time h - now else now - hello_time h) in
        if difference > rp_skew s then (False, s)
        else let key = replay_key h;
                 (es, ks) = pop_expired now (rp_entries s) (rp_keys s)
             in if key \<in> ks then (False, s\<lparr>rp_entries := es, rp_keys := ks\<rparr>)
                else let (es, ks) = pop_over_capacity (rp_capacity s) es ks;
                         expires_at = expiry (rp_skew s) (max now (hello_time h))
                     in (True, s\<lparr>rp_entries := es @ [(key, expires_at)], rp_keys := insert key ks\<rparr>))"

definition replay_clear :: "replay_protector \<Rightarrow> replay_protector" where
  "replay_clear s = s\<lparr>rp_entries := [], rp_keys := {}\<rparr>"


section \<open>Comparison and MAC inputs\<close>

lemma or_zero_iff: "(a OR b) = 0 \<longleftrightarrow> a = 0 \<and> b = (0 :: 'a::len word)"
  by (auto simp: bit_eq_iff bit_simps)

lemma ucast_xor_zero: "(ucast (l XOR r) :: u32) = 0 \<longleftrightarrow> l = (r :: byte)"
proof
  assume z: "(ucast (l XOR r) :: u32) = 0"
  show "l = r"
  proof (rule bit_word_eqI)
    fix n assume "n < LENGTH(8)"
    then show "bit l n = bit r n"
      using arg_cong [OF z, of "\<lambda>w. bit w n"] by (simp add: bit_simps)
  qed
qed simp

lemma constant_time_loop_zero:
  "length left = length right \<Longrightarrow>
   constant_time_loop left right d = 0 \<longleftrightarrow> d = 0 \<and> left = right"
proof (induction left arbitrary: right d)
  case Nil
  then show ?case by simp
next
  case (Cons l left)
  then obtain r rs where "right = r # rs" and "length left = length rs" by (cases right) auto
  then show ?case using Cons.IH [of rs] by (auto simp: or_zero_iff ucast_xor_zero)
qed

lemma constant_time_equal_iff: "constant_time_equal left right \<longleftrightarrow> left = right"
  using constant_time_loop_zero [of left right 0] by (auto simp: constant_time_equal_def)

lemma encode_command_header_inj [simp]:
  "encode_command_header e @ xs = encode_command_header e' @ ys \<longleftrightarrow> e = e' \<and> xs = ys"
  by (auto simp: encode_command_header_def)

lemma encode_video_header_inj [simp]:
  "encode_video_header h @ xs = encode_video_header h' @ ys \<longleftrightarrow> h = h' \<and> xs = ys"
  by (auto simp: encode_video_header_def)

text \<open>
  Everything the code ever passes to \<open>hmac_sha256\<close> in this module: one constructor per
  purpose, with the bytes that are authenticated.
\<close>

datatype mac_input =
    Client_proof auth_hello auth_challenge
  | Session_key auth_hello auth_challenge
  | Server_proof auth_hello auth_challenge
  | Video_packet video_header bytes
  | Control_frame command_envelope u64 bytes
  | Directed_frame control_direction command_envelope u64 bytes

fun mac_bytes :: "mac_input \<Rightarrow> bytes" where
  "mac_bytes (Client_proof h c) = make_transcript ''NSTU-CLIENT-PROOF-V1'' h c"
| "mac_bytes (Session_key h c) = make_transcript ''NSTU-SESSION-KEY-V1'' h c"
| "mac_bytes (Server_proof h c) = make_transcript ''NSTU-SERVER-PROOF-V1'' h c"
| "mac_bytes (Video_packet h body) = video_message h body"
| "mac_bytes (Control_frame e q body) = control_message e q body"
| "mac_bytes (Directed_frame d e q body) = control_message_v2 d e q body"

fun mac_wf :: "mac_input \<Rightarrow> bool" where
  "mac_wf (Client_proof h c) \<longleftrightarrow> hello_wf h \<and> challenge_wf c"
| "mac_wf (Session_key h c) \<longleftrightarrow> hello_wf h \<and> challenge_wf c"
| "mac_wf (Server_proof h c) \<longleftrightarrow> hello_wf h \<and> challenge_wf c"
| "mac_wf _ \<longleftrightarrow> True"

lemma make_transcript_inj:
  assumes "hello_wf h" "challenge_wf c" "hello_wf h'" "challenge_wf c'"
  shows "make_transcript l h c = make_transcript l h' c' \<longleftrightarrow> h = h' \<and> c = c'"
  using assms by (auto simp: make_transcript_def encode_auth_hello_def encode_auth_challenge_def
      hello_wf_def challenge_wf_def)

lemma direction_byte_inj [simp]: "direction_byte d = direction_byte d' \<longleftrightarrow> d = d'"
  by (cases d; cases d') auto

lemma control_message_inj [simp]:
  "control_message e q b = control_message e' q' b' \<longleftrightarrow> e = e' \<and> q = q' \<and> b = b'"
  by (auto simp: control_message_def)

lemma control_message_v2_inj [simp]:
  "control_message_v2 d e q b = control_message_v2 d' e' q' b' \<longleftrightarrow>
   d = d' \<and> e = e' \<and> q = q' \<and> b = b'"
  by (auto simp: control_message_v2_def)

lemma video_message_inj [simp]: "video_message h b = video_message h' b' \<longleftrightarrow> h = h' \<and> b = b'"
  by (auto simp: video_message_def)

text \<open>
  Domain separation: two different statements are never authenticated by the same bytes.
  The HMAC inputs of client proofs, session keys, server proofs, video packets and control
  frames (neutral and directional) are pairwise different, and each one determines every
  field it authenticates: identities, nonces, clocks, headers, sequence number and payload.
\<close>

theorem mac_inputs_injective:
  assumes "mac_wf a" and "mac_wf b" and "mac_bytes a = mac_bytes b"
  shows "a = b"
  using assms(3) make_transcript_inj assms(1,2)
  by (cases a; cases b)
    (simp_all add: make_transcript_inj,
     simp_all add: make_transcript_def video_message_def control_message_def
       control_message_v2_def ascii_def)


definition demo_hello :: auth_hello where
  "demo_hello = \<lparr>hello_client_id = replicate 16 1, hello_client_nonce = replicate 32 2,
     hello_time = 1000, hello_key_id = 1\<rparr>"

definition demo_challenge :: auth_challenge where
  "demo_challenge = \<lparr>chal_server_nonce = replicate 32 3, chal_time = 1000\<rparr>"

theorem mac_inputs_injective_witness:
  "mac_bytes (Client_proof demo_hello demo_challenge) \<noteq>
   mac_bytes (Server_proof demo_hello demo_challenge)"
proof
  assume "mac_bytes (Client_proof demo_hello demo_challenge) =
    mac_bytes (Server_proof demo_hello demo_challenge)"
  then have "Client_proof demo_hello demo_challenge = Server_proof demo_hello demo_challenge"
    by (rule mac_inputs_injective [rotated 2])
      (simp_all add: demo_hello_def demo_challenge_def hello_wf_def challenge_wf_def)
  then show False by simp
qed

section \<open>Tags\<close>

lemma compute_control_auth_tag_Some:
  "compute_control_auth_tag bcrypt key e q b = Some t \<Longrightarrow>
   \<exists>d. bcrypt key (control_message e q b) = Some d \<and> t = take 16 d"
  by (auto simp: compute_control_auth_tag_def hmac_sha256_def split: if_splits)

lemma verify_control_auth_tag_iff:
  "verify_control_auth_tag bcrypt key e q b t \<longleftrightarrow>
   length t = 16 \<and> compute_control_auth_tag bcrypt key e q b = Some t"
  by (auto simp: verify_control_auth_tag_def constant_time_equal_iff split: option.splits)

text \<open>
  A control tag binds the whole frame. If the tag issued for one frame (envelope, sequence
  number, payload) is accepted under the same session key for a different frame, then the
  HMAC primitive has produced two digests of different messages that agree on their first
  16 bytes: forging or replaying a frame under another number needs such a collision.
\<close>

theorem control_tag_binding:
  assumes "compute_control_auth_tag bcrypt key env sequence body = Some tag"
    and "verify_control_auth_tag bcrypt key env' sequence' body' tag"
    and "(env, sequence, body) \<noteq> (env', sequence', body')"
  shows "\<exists>m m' d d'. m \<noteq> m' \<and> bcrypt key m = Some d \<and> bcrypt key m' = Some d' \<and>
    take kControlAuthTagBytes d = take kControlAuthTagBytes d'"
proof -
  from assms(1) obtain d where "bcrypt key (control_message env sequence body) = Some d"
    "tag = take 16 d" using compute_control_auth_tag_Some by blast
  moreover from assms(2) obtain d' where
    "bcrypt key (control_message env' sequence' body') = Some d'" "tag = take 16 d'"
    using compute_control_auth_tag_Some verify_control_auth_tag_iff by blast
  moreover have "control_message env sequence body \<noteq> control_message env' sequence' body'"
    using assms(3) by simp
  ultimately show ?thesis unfolding kControlAuthTagBytes_def by metis
qed

text \<open>
  A tag computed by one side is accepted by the other: with a session key of at least 32
  bytes, a body the size limits allow and an HMAC primitive that returns a digest of at
  least 16 bytes, the computed tag exists, is 16 bytes long and verifies.
\<close>

theorem control_tag_complete:
  assumes "32 \<le> length key" and "length key \<le> 2 ^ 32 - 1" and "length body \<le> kMaxCommandPayload"
    and "\<And>m. \<exists>d. bcrypt key m = Some d \<and> 16 \<le> length d"
  shows "\<exists>tag. compute_control_auth_tag bcrypt key env sequence body = Some tag \<and>
    length tag = kControlAuthTagBytes \<and> verify_control_auth_tag bcrypt key env sequence body tag"
proof -
  obtain d where d: "bcrypt key (control_message env sequence body) = Some d" "16 \<le> length d"
    using assms(4) by blast
  have "length (control_message env sequence body) \<le> 2 ^ 32 - 1"
    using assms(3) by (simp add: control_message_def ascii_def)
  then have "compute_control_auth_tag bcrypt key env sequence body = Some (take 16 d)"
    using assms(1,2) d by (auto simp: compute_control_auth_tag_def hmac_sha256_def)
  then show ?thesis using d by (simp add: verify_control_auth_tag_iff)
qed

text \<open>A stand-in primitive for the witnesses: it ignores its input.\<close>

definition const_mac :: "bytes \<Rightarrow> bytes \<Rightarrow> bytes option" where
  "const_mac key m = Some (replicate 32 7)"

definition demo_envelope :: command_envelope where
  "demo_envelope = \<lparr>cmd_version = 1, cmd_type = 3, cmd_payload_bytes = 0, cmd_request_id = 1\<rparr>"

theorem control_tag_complete_witness:
  "\<exists>tag. compute_control_auth_tag const_mac (replicate 32 1) demo_envelope 0 [] = Some tag \<and>
     length tag = kControlAuthTagBytes \<and>
     verify_control_auth_tag const_mac (replicate 32 1) demo_envelope 0 [] tag"
  by (rule control_tag_complete) (simp_all add: const_mac_def)

theorem control_tag_binding_witness:
  "\<exists>m m' d d'. m \<noteq> m' \<and> const_mac (replicate 32 1) m = Some d \<and>
     const_mac (replicate 32 1) m' = Some d' \<and>
     take kControlAuthTagBytes d = take kControlAuthTagBytes d'"
  by (rule control_tag_binding [of const_mac "replicate 32 1" demo_envelope 0 "[]"
        "replicate 16 7" demo_envelope 1 "[]"])
    (simp_all add: verify_control_auth_tag_iff compute_control_auth_tag_def hmac_sha256_def
      const_mac_def control_message_def ascii_def)

section \<open>Sequence guard\<close>

lemma guard_run_exhausted: "exhausted g \<Longrightarrow> guard_run qs g = []"
  by (induction qs) (auto simp: guard_accept_def)

lemma unat_succ_u64: "(w :: u64) \<noteq> -1 \<Longrightarrow> unat (w + 1) = Suc (unat w)"
  by (metis Suc_eq_plus1 add.commute add_eq_0_iff unatSuc)

lemma guard_run_upt:
  "\<not> exhausted g \<Longrightarrow>
   map unat (guard_run qs g) = [unat (next_expected g) ..< unat (next_expected g) + length (guard_run qs g)] \<and>
   unat (next_expected g) + length (guard_run qs g) \<le> 2 ^ 64"
proof (induction qs arbitrary: g)
  case Nil
  then show ?case using unsigned_less [of "next_expected g", where ?'a = nat] by simp
next
  case (Cons q qs)
  show ?case
  proof (cases "q = next_expected g")
    case False
    then show ?thesis using Cons by (simp add: guard_accept_def)
  next
    case same: True
    show ?thesis
    proof (cases "next_expected g = -1")
      case True
      then show ?thesis
        using same Cons.prems by (simp add: guard_accept_def guard_run_exhausted unat_max_u64)
    next
      case False
      let ?g = "g\<lparr>next_expected := next_expected g + 1\<rparr>"
      have "guard_run (q # qs) g = q # guard_run qs ?g"
        using False same Cons.prems by (simp add: guard_accept_def)
      then show ?thesis
        using Cons.IH [of ?g] Cons.prems same unat_succ_u64 [OF False]
        by (simp add: upt_conv_Cons del: upt_Suc)
    qed
  qed
qed

text \<open>
  Control frames are accepted once and in order: after a reset to \<open>n\<close>, whatever sequence
  numbers arrive, the accepted ones are exactly \<open>n, n+1, n+2, \<dots>\<close> without gap, repetition
  or reordering, and the counter never wraps: after the largest 64-bit number nothing more
  is accepted.
\<close>

theorem sequence_guard_in_order:
  "map unat (guard_run qs (guard_reset n g)) =
     [unat n ..< unat n + length (guard_run qs (guard_reset n g))] \<and>
   unat n + length (guard_run qs (guard_reset n g)) \<le> 2 ^ 64"
  using guard_run_upt [of "guard_reset n g" qs] by (simp add: guard_reset_def)


section \<open>Replay protector\<close>

definition rp_inv :: "replay_protector \<Rightarrow> bool" where
  "rp_inv s \<longleftrightarrow> 1 \<le> rp_capacity s \<and> length (rp_entries s) \<le> rp_capacity s \<and>
     distinct (map fst (rp_entries s)) \<and> rp_keys s = set (map fst (rp_entries s))"

lemma pop_expired_dropWhile:
  "distinct (map fst es) \<Longrightarrow> ks = set (map fst es) \<Longrightarrow>
   pop_expired now es ks =
     (dropWhile (\<lambda>(k, x). x < now) es, set (map fst (dropWhile (\<lambda>(k, x). x < now) es)))"
  by (induction now es ks rule: pop_expired.induct) auto

lemma pop_over_capacity_drop:
  "distinct (map fst es) \<Longrightarrow> ks = set (map fst es) \<Longrightarrow>
   pop_over_capacity c es ks =
     (drop (Suc (length es) - c) es, set (map fst (drop (Suc (length es) - c) es)))"
proof (induction c es ks rule: pop_over_capacity.induct)
  case (1 c ks)
  then show ?case by simp
next
  case (2 c k t es ks)
  show ?case
  proof (cases "c \<le> Suc (length es)")
    case True
    then have "Suc (Suc (length es)) - c = Suc (Suc (length es) - c)" by simp
    with 2 True show ?thesis by simp
  qed (use 2 in simp)
qed

lemma distinct_dropWhile_fst: "distinct (map fst es) \<Longrightarrow> distinct (map fst (dropWhile P es))"
  by (induction es) auto

text \<open>
  The two loops together, on a state that satisfies the invariant: the expired prefix goes,
  then, if the hello is new, the oldest entries beyond the capacity.
\<close>

lemma replay_accept_eq:
  assumes "rp_inv s"
  shows "replay_accept h now s =
    (if \<not> validate_auth_hello h \<or>
        (if hello_time h > now then hello_time h - now else now - hello_time h) > rp_skew s
     then (False, s)
     else let es = dropWhile (\<lambda>(k, x). x < now) (rp_entries s) in
       if replay_key h \<in> fst ` set es then (False, s\<lparr>rp_entries := es, rp_keys := fst ` set es\<rparr>)
       else let es' = drop (Suc (length es) - rp_capacity s) es @
                  [(replay_key h, expiry (rp_skew s) (max now (hello_time h)))]
            in (True, s\<lparr>rp_entries := es', rp_keys := fst ` set es'\<rparr>))"
  using assms distinct_dropWhile_fst [of "rp_entries s" "\<lambda>(k, x). x < now"]
  by (simp add: replay_accept_def rp_inv_def pop_expired_dropWhile pop_over_capacity_drop Let_def)

definition rp_step :: "auth_hello \<times> u64 \<Rightarrow> replay_protector \<Rightarrow> replay_protector" where
  "rp_step a s = snd (replay_accept (fst a) (snd a) s)"

lemma rp_step_frame [simp]:
  "rp_capacity (rp_step a s) = rp_capacity s" "rp_skew (rp_step a s) = rp_skew s"
  by (auto simp: rp_step_def replay_accept_def Let_def split: prod.splits)

lemma rp_step_inv:
  assumes "rp_inv s"
  shows "rp_inv (rp_step a s)"
proof -
  let ?es = "dropWhile (\<lambda>(k, x). x < snd a) (rp_entries s)"
  have d: "distinct (map fst ?es)" "length ?es \<le> rp_capacity s" "1 \<le> rp_capacity s"
    using assms distinct_dropWhile_fst [of "rp_entries s"]
      length_dropWhile_le [of "\<lambda>(k, x). x < snd a" "rp_entries s"] by (simp_all add: rp_inv_def)
  have sub: "replay_key (fst a) \<notin> fst ` set ?es \<Longrightarrow>
      replay_key (fst a) \<notin> fst ` set (drop n ?es)" for n
    by (meson image_mono in_mono set_drop_subset)
  show ?thesis
    using assms d sub
    by (simp add: rp_step_def replay_accept_eq Let_def rp_inv_def drop_map [symmetric])
      (auto simp: drop_map distinct_drop)
qed

interpretation replay_machine: machine rp_step rp_inv
  by unfold_locales (rule rp_step_inv)


text \<open>
  An accepted key with expiry \<open>x\<close> is remembered: it is in the queue with at most \<open>n\<close> younger
  entries behind it, or its expiry lies before the current time.
\<close>

definition remembered :: "bytes \<Rightarrow> u64 \<Rightarrow> nat \<Rightarrow> u64 \<Rightarrow> replay_protector \<Rightarrow> bool" where
  "remembered k x n now s \<longleftrightarrow>
     (\<exists>pre post. rp_entries s = pre @ (k, x) # post \<and> length post \<le> n) \<or> x < now"

lemma dropWhile_keeps:
  "\<not> P y \<Longrightarrow> dropWhile P (pre @ y # post) = dropWhile P pre @ y # post"
  by (induction pre) auto

lemma remembered_step:
  assumes inv: "rp_inv s" and rem: "remembered k x n t s" and le: "t \<le> snd a"
    and cap: "Suc n < rp_capacity s"
  shows "remembered k x (Suc n) (snd a) (rp_step a s)"
proof (cases "x < snd a")
  case True
  then show ?thesis by (simp add: remembered_def)
next
  case False
  with rem le obtain pre post where es: "rp_entries s = pre @ (k, x) # post" "length post \<le> n"
    by (auto simp: remembered_def)
  let ?P = "\<lambda>(k, x). x < snd a"
  have drop: "dropWhile ?P (rp_entries s) = dropWhile ?P pre @ (k, x) # post"
    unfolding es by (rule dropWhile_keeps) (simp add: False)
  let ?m = "Suc (length (dropWhile ?P (rp_entries s))) - rp_capacity s"
  have "?m \<le> length (dropWhile ?P pre)" using cap es(2) drop by simp
  then have cut: "drop ?m (dropWhile ?P (rp_entries s)) = drop ?m (dropWhile ?P pre) @ (k, x) # post"
    by (simp add: drop)
  have keep: "\<exists>pre' post'. pre'' @ (k, x) # post = pre' @ (k, x) # post' \<and> length post' \<le> Suc n"
    for pre'' using es(2) by (intro exI [of _ pre''] exI [of _ post]) simp
  have grow: "\<exists>pre' post'. (pre'' @ (k, x) # post) @ [y] = pre' @ (k, x) # post' \<and>
      length post' \<le> Suc n" for pre'' y
    using es(2) by (intro exI [of _ pre''] exI [of _ "post @ [y]"]) simp
  show ?thesis
    unfolding remembered_def rp_step_def replay_accept_eq [OF inv] Let_def
    using keep [of pre] keep [of "dropWhile ?P pre"] grow [of "drop ?m (dropWhile ?P pre)"]
    by (simp only: es(1) [symmetric] cut drop [symmetric] split: if_splits) (simp add: es drop)
qed

lemma remembered_run:
  assumes "rp_inv s" and "remembered k x n t s" and "sorted (t # map snd ops)"
    and "n + length ops < rp_capacity s"
  shows "remembered k x (n + length ops) (last (t # map snd ops)) (fold rp_step ops s)"
  using assms
proof (induction ops arbitrary: s n t)
  case Nil
  then show ?case by simp
next
  case (Cons a ops)
  have "remembered k x (Suc n) (snd a) (rp_step a s)"
    by (rule remembered_step [of s k x n t]) (use Cons.prems in auto)
  moreover have "rp_inv (rp_step a s)" using Cons.prems by (simp add: rp_step_inv)
  ultimately have "remembered k x (Suc n + length ops) (last (snd a # map snd ops))
      (fold rp_step ops (rp_step a s))"
    using Cons.prems by (intro Cons.IH) auto
  then show ?case by simp
qed

lemma expired_is_stale:
  assumes "expiry skew (max t0 (ht :: u64)) < now"
  shows "\<not> ht > now \<and> skew < now - ht"
proof -
  let ?b = "max t0 ht"
  have ns: "\<not> skew > -1 - ?b" and lt: "?b + skew < now"
    using assms by (auto simp: expiry_def split: if_splits)
  have "unat (-1 - ?b) = 2 ^ 64 - 1 - unat ?b"
    using unat_sub [of ?b "-1"] by (simp add: unat_max_u64)
  then have "unat ?b + unat skew < 2 ^ 64"
    using ns unsigned_less [of ?b, where ?'a = nat] by (simp add: word_less_nat_alt)
  then have "unat (?b + skew) = unat ?b + unat skew" by (simp add: unat_word_ariths)
  then have sum: "unat ?b + unat skew < unat now" using lt by (simp add: word_less_nat_alt)
  have "unat ht \<le> unat ?b" by (simp add: max_def word_le_nat_alt)
  then have le: "ht \<le> now" and "unat skew < unat now - unat ht"
    using sum by (simp_all add: word_le_nat_alt)
  then show ?thesis by (simp add: word_less_nat_alt unat_sub not_less)
qed

lemma remembered_rejects:
  assumes "rp_inv s" and "remembered (replay_key h) (expiry (rp_skew s) (max ta (hello_time h))) n t s"
    and "t \<le> now"
  shows "\<not> fst (replay_accept h now s)"
proof (cases "expiry (rp_skew s) (max ta (hello_time h)) < now")
  case True
  from expired_is_stale [OF this] show ?thesis by (auto simp: replay_accept_def)
next
  case False
  let ?e = "(replay_key h, expiry (rp_skew s) (max ta (hello_time h)))"
  from False assms(2,3) obtain pre post where es: "rp_entries s = pre @ ?e # post"
    by (auto simp: remembered_def)
  have "dropWhile (\<lambda>(k, x). x < now) (rp_entries s) =
      dropWhile (\<lambda>(k, x). x < now) pre @ ?e # post"
    unfolding es by (rule dropWhile_keeps) (simp add: False)
  then show ?thesis by (simp add: replay_accept_eq [OF assms(1)] Let_def)
qed

text \<open>
  C23. A hello that was accepted once is never accepted again: as long as the clock does not
  run backwards and fewer hellos than the protector's capacity arrive in between, the same
  hello presented again is refused, however much later. Either its nonce is still
  remembered or its own timestamp has left the permitted clock skew.
\<close>

theorem replay_refused:
  assumes "rp_inv s" and "replay_accept h t0 s = (True, s1)"
    and "sorted (t0 # map snd ops @ [now])" and "length ops < rp_capacity s"
  shows "\<not> fst (replay_accept h now (fold rp_step ops s1))"
proof -
  let ?x = "expiry (rp_skew s) (max t0 (hello_time h))"
  have s1: "s1 = rp_step (h, t0) s" using assms(2) by (simp add: rp_step_def)
  have inv1: "rp_inv s1" unfolding s1 using assms(1) by (rule rp_step_inv)
  have "remembered (replay_key h) ?x 0 t0 s1"
    using assms(2) by (auto simp: replay_accept_eq [OF assms(1)] Let_def remembered_def split: if_splits)
  then have "remembered (replay_key h) ?x (0 + length ops) (last (t0 # map snd ops)) (fold rp_step ops s1)"
    by (rule remembered_run [OF inv1]) (use assms in \<open>auto simp: sorted_append s1\<close>)
  moreover have "rp_skew (fold rp_step ops s') = rp_skew s'" for s'
    by (induction ops arbitrary: s') auto
  moreover have "last (t0 # map snd ops) \<le> now"
    using assms(3) by (cases ops rule: rev_cases) (auto simp: sorted_append)
  ultimately show ?thesis
    by (intro remembered_rejects [where ta = t0 and n = "0 + length ops"
          and t = "last (t0 # map snd ops)"] replay_machine.run_inv inv1) (simp_all add: s1)
qed

theorem replay_refused_witness:
  "\<not> fst (replay_accept demo_hello 1005
      (fold rp_step [] (snd (replay_accept demo_hello 1000 (make_replay_protector 4 120)))))"
  by (rule replay_refused [of "make_replay_protector 4 120" _ 1000])
    (simp_all add: rp_inv_def make_replay_protector_def replay_accept_def validate_auth_hello_def
      demo_hello_def non_zero_def list_ex_iff Let_def)

end
