(* ===== verification/TcpTransport.thy ===== *)
theory TcpTransport
  imports Protocol
begin

text \<open>
  The blocking TCP socket of \<^verbatim>\<open>common/src/network.cpp\<close> as the control channel uses it: sending a
  whole buffer (with and without a deadline), receiving, closing, and the exact reads of
  \<^verbatim>\<open>common/src/control_channel.cpp\<close>. The system calls are data of the socket: \<open>sock_rx\<close> holds
  what successive calls of \<open>recv\<close> find (an empty block is the orderly close of the peer),
  \<open>sock_room\<close> what successive calls of \<open>send\<close> accept (0 is a failure), and \<open>sock_out\<close> collects
  the bytes that were handed to the network, those of a send that failed half-way included.
  A send with a deadline takes the clock, the attempts and the waits as functions of the call
  number; as it may wait forever on a clock that stands still, it is a partial function.

  Shown: an exact read returns the next bytes of the stream whatever the blocks are, and
  nothing else; a send either hands over the whole buffer or a proper prefix; a deadline send
  returns whenever the clock passes the deadline, and leaves the socket open only when the
  whole buffer went out in time.
\<close>

section \<open>Sockets\<close>

record tcp_socket =
  sock_open :: bool
  sock_rx :: "bytes list"
  sock_reset :: bool
  sock_room :: "nat list"
  sock_out :: bytes

abbreviation int_max :: nat where "int_max \<equiv> 2147483647"

datatype recv_result = Recv_failed | Recv_closed | Recv_bytes bytes

text \<open>\<open>sock_reset\<close> tells whether \<open>recv\<close> fails or reports the close once the blocks are used up.\<close>

definition sock_receive :: "nat \<Rightarrow> tcp_socket \<Rightarrow> recv_result \<times> tcp_socket" where
  "sock_receive n s =
     (if \<not> sock_open s \<or> n > int_max then (Recv_failed, s)
      else case sock_rx s of
             [] \<Rightarrow> (if sock_reset s then Recv_failed else Recv_closed, s)
           | [] # rx \<Rightarrow> (Recv_closed, s)
           | bs # rx \<Rightarrow> (Recv_bytes (take n bs),
               s\<lparr>sock_rx := (if length bs \<le> n then rx else drop n bs # rx)\<rparr>))"

definition sock_close :: "tcp_socket \<Rightarrow> tcp_socket" where
  "sock_close s = s\<lparr>sock_open := False\<rparr>"

text \<open>The loop of \<open>send_all\<close>: the bytes handed over, the calls left, and whether all went out.\<close>

fun send_all_loop :: "bytes \<Rightarrow> nat list \<Rightarrow> bytes \<times> nat list \<times> bool" where
  "send_all_loop [] room = ([], room, True)"
| "send_all_loop (b # bs) [] = ([], [], False)"
| "send_all_loop (b # bs) (k # room) =
     (if k = 0 then ([], room, False)
      else case send_all_loop (drop k (b # bs)) room of
             (out, room', ok) \<Rightarrow> (take k (b # bs) @ out, room', ok))"

definition send_all :: "bytes \<Rightarrow> tcp_socket \<Rightarrow> int \<times> tcp_socket" where
  "send_all wire s =
     (if \<not> sock_open s \<or> length wire > int_max then (-1, s)
      else case send_all_loop wire (sock_room s) of
             (out, room, ok) \<Rightarrow>
               (if ok then int (length wire) else -1,
                s\<lparr>sock_room := room, sock_out := sock_out s @ out\<rparr>))"

section \<open>Sending with a deadline\<close>

record deadline_ops =
  op_now :: "nat \<Rightarrow> int"
  op_set_nonblocking :: "bool \<Rightarrow> bool"
  op_send :: "nat \<Rightarrow> int \<times> bool"
  op_wait_failed :: "nat \<Rightarrow> bool"

text \<open>
  The loop of \<open>send_all_with_deadline\<close>: \<open>nows\<close>, \<open>sends\<close> and \<open>waits\<close> count the calls of the
  clock, of \<open>send\<close> and of \<open>wait_writable\<close>. The result tells whether the buffer went out, how
  much of it did, and how often the clock was read.
\<close>

partial_function (option) deadline_loop ::
    "deadline_ops \<Rightarrow> nat \<Rightarrow> int \<Rightarrow> nat \<Rightarrow> nat \<Rightarrow> nat \<Rightarrow> nat \<Rightarrow> (bool \<times> nat \<times> nat) option" where
  "deadline_loop ops count deadline sent nows sends waits =
     (if count \<le> sent then Some (True, sent, nows)
      else if op_now ops nows \<ge> deadline then Some (False, sent, nows + 1)
      else let to_send = min (count - sent) 16384;
               attempt = op_send ops sends
           in if fst attempt > 0 \<and> nat (fst attempt) \<le> to_send
              then deadline_loop ops count deadline (sent + nat (fst attempt)) (nows + 1) (sends + 1) waits
              else if fst attempt < 0 \<and> snd attempt
              then (if op_now ops (nows + 1) \<ge> deadline then Some (False, sent, nows + 2)
                    else if op_wait_failed ops waits then Some (False, sent, nows + 2)
                    else deadline_loop ops count deadline sent (nows + 2) (sends + 1) (waits + 1))
              else Some (False, sent, nows + 1))"

definition send_all_with_deadline ::
    "bytes \<Rightarrow> int \<Rightarrow> deadline_ops \<Rightarrow> tcp_socket \<Rightarrow> (int \<times> tcp_socket) option" where
  "send_all_with_deadline wire deadline ops s =
     (if length wire > int_max then Some (-1, s)
      else if wire = [] then Some (0, s)
      else if op_now ops 0 \<ge> deadline then Some (-1, sock_close s)
      else if \<not> op_set_nonblocking ops True then Some (-1, sock_close s)
      else case deadline_loop ops (length wire) deadline 0 1 0 0 of
             None \<Rightarrow> None
           | Some (done, sent, nows) \<Rightarrow>
               (let s' = s\<lparr>sock_out := sock_out s @ take sent wire\<rparr>
                in if \<not> done then Some (-1, sock_close s')
                   else if op_now ops nows \<ge> deadline then Some (-1, sock_close s')
                   else if \<not> op_set_nonblocking ops False then Some (-1, sock_close s')
                   else Some (int sent, s')))"

definition send_all_deadline ::
    "bytes \<Rightarrow> int \<Rightarrow> deadline_ops \<Rightarrow> tcp_socket \<Rightarrow> (int \<times> tcp_socket) option" where
  "send_all_deadline wire deadline ops s =
     (if \<not> sock_open s \<or> length wire > int_max then Some (-1, s)
      else send_all_with_deadline wire deadline ops s)"

definition deadline_wait_duration :: "int \<Rightarrow> int \<times> int" where
  "deadline_wait_duration remaining =
     (if remaining \<le> 0 then (0, 0)
      else let microseconds = (remaining + 999) div 1000;
               seconds = microseconds div 1000000
           in if seconds > int int_max then (int int_max, 999999)
              else (seconds, microseconds mod 1000000))"

section \<open>Exact reads and plain frames\<close>

function receive_exact :: "nat \<Rightarrow> tcp_socket \<Rightarrow> bytes option \<times> tcp_socket" where
  "receive_exact n s =
     (if n = 0 then (Some [], s)
      else case sock_receive n s of
             (Recv_bytes bs, s') \<Rightarrow>
               (if bs = [] then (None, s')
                else case receive_exact (n - length bs) s' of
                       (Some rest, s'') \<Rightarrow> (Some (bs @ rest), s'')
                     | (None, s'') \<Rightarrow> (None, s''))
           | (_, s') \<Rightarrow> (None, s'))"
  by pat_completeness auto
termination
  by (relation "measure fst") auto

declare receive_exact.simps [simp del]

definition receive_plain_frame :: "tcp_socket \<Rightarrow> tcp_frame option \<times> tcp_socket" where
  "receive_plain_frame s =
     (case receive_exact 4 s of
        (None, s) \<Rightarrow> (None, s)
      | (Some prefix, s) \<Rightarrow>
          (let body_bytes = unat (le_loop 0 0 prefix :: u32)
           in if body_bytes < kCommandHeaderBytes \<or>
                 body_bytes > kCommandHeaderBytes + kMaxCommandPayload then (None, s)
              else case receive_exact body_bytes s of
                     (None, s) \<Rightarrow> (None, s)
                   | (Some body, s) \<Rightarrow>
                       (case decode_command_header body of
                          None \<Rightarrow> (None, s)
                        | Some env \<Rightarrow>
                            if unat (cmd_payload_bytes env) \<noteq> length body - kCommandHeaderBytes
                            then (None, s)
                            else (Some \<lparr>envelope = env, payload = drop kCommandHeaderBytes body\<rparr>, s))))"

definition send_plain_frame :: "u16 \<Rightarrow> u64 \<Rightarrow> bytes \<Rightarrow> tcp_socket \<Rightarrow> bool \<times> tcp_socket" where
  "send_plain_frame typ request_id body s =
     (if length body > kMaxCommandPayload then (False, s)
      else let env = \<lparr>cmd_version = kCommandVersion, cmd_type = typ,
                      cmd_payload_bytes = word_of_nat (length body), cmd_request_id = request_id\<rparr>;
               wire = encode_tcp_frame env body
           in if wire = [] then (False, s)
              else case send_all wire s of (sent, s') \<Rightarrow> (sent = int (length wire), s'))"

section \<open>What a read returns\<close>

text \<open>The bytes still to come, and a socket whose peer has not closed before them.\<close>

definition stream :: "tcp_socket \<Rightarrow> bytes" where
  "stream s = concat (sock_rx s)"

definition live :: "tcp_socket \<Rightarrow> bool" where
  "live s \<longleftrightarrow> sock_open s \<and> [] \<notin> set (sock_rx s)"

text \<open>Reading changes nothing but the blocks to come.\<close>

definition same_sender :: "tcp_socket \<Rightarrow> tcp_socket \<Rightarrow> bool" where
  "same_sender s s' \<longleftrightarrow> (\<exists>rx. s' = s\<lparr>sock_rx := rx\<rparr>)"

lemma same_sender_refl [simp, intro]: "same_sender s s"
  by (auto simp: same_sender_def intro: exI [of _ "sock_rx s"])

lemma same_sender_trans [trans]: "same_sender s t \<Longrightarrow> same_sender t u \<Longrightarrow> same_sender s u"
  by (auto simp: same_sender_def)

lemma same_senderD:
  "same_sender s s' \<Longrightarrow> sock_out s' = sock_out s \<and> sock_room s' = sock_room s \<and> sock_open s' = sock_open s"
  by (auto simp: same_sender_def)

lemma sock_receive_bytes:
  assumes "sock_receive n s = (Recv_bytes bs, s')"
  shows "stream s = bs @ stream s'" "same_sender s s'" "length bs \<le> n" "live s \<Longrightarrow> live s'"
    "0 < n \<Longrightarrow> bs \<noteq> []"
  using assms
  by (auto simp: sock_receive_def same_sender_def stream_def live_def
      split: if_splits list.splits)

lemma sock_receive_live:
  assumes "live s" "n \<le> int_max" "0 < n" "stream s \<noteq> []"
  shows "\<exists>bs s'. sock_receive n s = (Recv_bytes bs, s') \<and> bs \<noteq> []"
  using assms by (cases "sock_rx s") (auto simp: sock_receive_def stream_def live_def split: list.splits)

lemma sock_receive_same: "sock_receive n s = (r, s') \<Longrightarrow> same_sender s s'"
  by (auto simp: sock_receive_def same_sender_def split: if_splits list.splits
      intro: exI [of _ "sock_rx s"])

lemma receive_exact_step:
  "receive_exact n s = (r, s') \<Longrightarrow> n \<noteq> 0 \<Longrightarrow>
   (\<exists>r1. sock_receive n s = (r1, s') \<and> r = None) \<or>
   (\<exists>bs s1 r1. sock_receive n s = (Recv_bytes bs, s1) \<and> bs \<noteq> [] \<and>
      receive_exact (n - length bs) s1 = (r1, s') \<and> r = map_option (\<lambda>rest. bs @ rest) r1)"
  by (subst (asm) receive_exact.simps) (auto split: if_splits prod.splits recv_result.splits option.splits)

lemma receive_exact_same: "receive_exact n s = (r, s') \<Longrightarrow> same_sender s s'"
proof (induction n s arbitrary: r s' rule: receive_exact.induct)
  case (1 n s)
  show ?case
  proof (cases "n = 0")
    case True
    with 1(2) show ?thesis by (simp add: receive_exact.simps)
  next
    case False
    from receive_exact_step [OF 1(2) False] show ?thesis
    proof (elim disjE exE conjE)
      fix bs s1 r1
      assume r: "sock_receive n s = (Recv_bytes bs, s1)" "bs \<noteq> []" "receive_exact (n - length bs) s1 = (r1, s')"
      show ?thesis
        using sock_receive_same [OF r(1)] 1(1) [OF False r(1) [symmetric] refl r(2,3)]
        by (rule same_sender_trans)
    qed (rule sock_receive_same)
  qed
qed

lemma receive_exact_sound:
  "receive_exact n s = (Some bs, s') \<Longrightarrow> length bs = n \<and> stream s = bs @ stream s' \<and> (live s \<longrightarrow> live s')"
proof (induction n s arbitrary: bs s' rule: receive_exact.induct)
  case (1 n s)
  show ?case
  proof (cases "n = 0")
    case True
    with 1(2) show ?thesis by (simp add: receive_exact.simps)
  next
    case False
    with 1(2) obtain b1 s1 rest where
      r: "sock_receive n s = (Recv_bytes b1, s1)" "b1 \<noteq> []" "bs = b1 @ rest"
      "receive_exact (n - length b1) s1 = (Some rest, s')"
      by (auto simp: receive_exact.simps [of n s] split: if_splits prod.splits recv_result.splits option.splits)
    from 1(1) [OF False r(1) [symmetric] refl r(2) r(4)] sock_receive_bytes [OF r(1)] r
    show ?thesis by auto
  qed
qed

lemma receive_exact_live:
  "live s \<Longrightarrow> n \<le> int_max \<Longrightarrow> n \<le> length (stream s) \<Longrightarrow> \<exists>bs s'. receive_exact n s = (Some bs, s')"
proof (induction n s rule: receive_exact.induct)
  case (1 n s)
  show ?case
  proof (cases "n = 0")
    case True
    then show ?thesis by (simp add: receive_exact.simps)
  next
    case False
    then obtain b1 s1 where r: "sock_receive n s = (Recv_bytes b1, s1)" "b1 \<noteq> []"
      using sock_receive_live [of s n] 1(2,3,4) by (cases "stream s = []") auto
    note b = sock_receive_bytes [OF r(1)]
    have "n - length b1 \<le> int_max" "n - length b1 \<le> length (stream s1)"
      using 1(3,4) b(1,3) by simp_all
    from 1(1) [OF False r(1) [symmetric] refl r(2) b(4) [OF 1(2)] this]
    obtain rest s2 where "receive_exact (n - length b1) s1 = (Some rest, s2)" by blast
    then show ?thesis using r False by (simp add: receive_exact.simps [of n s])
  qed
qed

lemma receive_exact_stream:
  assumes "live s" "n \<le> int_max" "stream s = bs @ rest" "length bs = n"
  shows "\<exists>s'. receive_exact n s = (Some bs, s') \<and> live s' \<and> stream s' = rest \<and> same_sender s s'"
proof -
  have "n \<le> length (stream s)" using assms(3,4) by simp
  from receive_exact_live [OF assms(1,2) this] obtain bs' s' where
    r: "receive_exact n s = (Some bs', s')" by blast
  note sound = receive_exact_sound [OF r]
  have "bs' @ stream s' = bs @ rest" using sound assms(3) by (metis)
  moreover have "length bs' = length bs" using sound assms(4) by simp
  ultimately have "bs' = bs" "stream s' = rest" by simp_all
  moreover have "live s'" using sound assms(1) by blast
  ultimately show ?thesis using r receive_exact_same [OF r] by blast
qed

section \<open>Frames over a socket\<close>

lemma receive_frame_wire:
  assumes "live s" "frame_ok f" "stream s = frame_wire f @ rest"
  shows "\<exists>s'. receive_plain_frame s = (Some f, s') \<and> live s' \<and> stream s' = rest \<and> same_sender s s'"
proof -
  define w where "w = (word_of_nat (20 + length (payload f)) :: u32)"
  define body where "body = encode_command_header (envelope f) @ payload f"
  have bounds: "length (payload f) \<le> 65536" "length (payload f) = unat (cmd_payload_bytes (envelope f))"
    using assms(2) by (simp_all add: frame_ok_def)
  have w: "unat w = length body"
    unfolding w_def body_def using body_length_u32 [of "20 + length (payload f)"] bounds by simp
  have wire: "stream s = append_le w @ body @ rest"
    using assms(2,3) by (simp add: frame_wire_append w_def body_def)
  obtain s1 where s1: "receive_exact 4 s = (Some (append_le w), s1)" "live s1"
    "stream s1 = body @ rest" "same_sender s s1"
    using receive_exact_stream [OF assms(1) _ wire, of 4] by auto
  have len: "length body = 20 + length (payload f)" by (simp add: body_def)
  obtain s2 where s2: "receive_exact (unat w) s1 = (Some body, s2)" "live s2" "stream s2 = rest"
    "same_sender s1 s2"
    using receive_exact_stream [OF s1(2) _ s1(3), of "unat w"] w len bounds by auto
  have dec: "decode_command_header body = Some (envelope f)"
    using assms(2) by (simp add: body_def decode_encode_command_header frame_ok_def)
  have "receive_plain_frame s = (Some f, s2)"
    using s1(1) s2(1) dec w len bounds
    by (simp add: receive_plain_frame_def le_loop_append_u32 body_def)
  then show ?thesis using s2 same_sender_trans [OF s1(4) s2(4)] by blast
qed

lemma receive_frame_sound:
  assumes "receive_plain_frame s = (Some f, s')"
  shows "frame_ok f \<and> stream s = frame_wire f @ stream s' \<and> same_sender s s'"
proof -
  from assms obtain pre s1 body where
    r1: "receive_exact 4 s = (Some pre, s1)" and
    r2: "receive_exact (unat (le_loop 0 0 pre :: u32)) s1 = (Some body, s')" and
    b: "20 \<le> unat (le_loop 0 0 pre :: u32)" "unat (le_loop 0 0 pre :: u32) \<le> 65556" and
    d: "decode_command_header body = Some (envelope f)"
      "unat (cmd_payload_bytes (envelope f)) = length body - 20" "payload f = drop 20 body"
    by (auto simp: receive_plain_frame_def Let_def split: prod.splits option.splits if_splits)
  note s1 = receive_exact_sound [OF r1] and s2 = receive_exact_sound [OF r2]
  have st: "stream s = pre @ body @ stream s'" using s1 s2 by simp
  have "frame_step (stream s) = Got f (stream s')"
    using s1 s2 b d by (simp add: frame_step_def st Let_def)
  from frame_step_Got [OF this] show ?thesis
    using same_sender_trans [OF receive_exact_same [OF r1] receive_exact_same [OF r2]] by blast
qed

lemma receive_frame_same: "receive_plain_frame s = (r, s') \<Longrightarrow> same_sender s s'"
  by (auto simp: receive_plain_frame_def Let_def split: prod.splits option.splits if_splits
      dest!: receive_exact_same intro: same_sender_trans)

section \<open>What a send hands over\<close>

lemma send_all_loop_prefix:
  "send_all_loop wire room = (out, room', ok) \<Longrightarrow>
   (\<exists>rest. wire = out @ rest \<and> (ok \<longleftrightarrow> rest = []))"
proof (induction wire room arbitrary: out room' ok rule: send_all_loop.induct)
  case (3 b bs k room)
  show ?case
  proof (cases "k = 0")
    case True
    with 3(2) show ?thesis by auto
  next
    case False
    obtain o1 r1 k1 where l: "send_all_loop (drop k (b # bs)) room = (o1, r1, k1)" by (metis prod_cases3)
    from 3(1) [OF False l] obtain rest where "drop k (b # bs) = o1 @ rest" "k1 = (rest = [])" by blast
    moreover have "out = take k (b # bs) @ o1" "ok = k1" using 3(2) False l by auto
    ultimately show ?thesis
      by (intro exI [of _ rest]) (metis append.assoc append_take_drop_id)
  qed
qed auto

lemma send_all_cases:
  assumes "send_all wire s = (sent, s')"
  shows "(sent = int (length wire) \<and> sock_out s' = sock_out s @ wire \<or>
    sent = -1 \<and> (\<exists>out rest. wire = out @ rest \<and> sock_out s' = sock_out s @ out)) \<and>
    sock_rx s' = sock_rx s \<and> sock_open s' = sock_open s"
proof (cases "\<not> sock_open s \<or> length wire > int_max")
  case True
  with assms show ?thesis by (auto simp: send_all_def)
next
  case False
  obtain o1 r1 k1 where l: "send_all_loop wire (sock_room s) = (o1, r1, k1)" by (metis prod_cases3)
  from send_all_loop_prefix [OF l] False assms l show ?thesis by (auto simp: send_all_def)
qed

lemma send_all_stream: "send_all wire s = (sent, s') \<Longrightarrow> stream s' = stream s \<and> (live s' \<longleftrightarrow> live s)"
  using send_all_cases [of wire s sent s'] by (auto simp: stream_def live_def)

section \<open>Deadlines\<close>

text \<open>
  A send with a deadline returns whenever the clock has passed the deadline from some reading
  on. Each round reads the clock at least once, so the readings it needs bound its rounds.
\<close>

lemma deadline_loop_returns:
  assumes "\<And>k. limit \<le> k \<Longrightarrow> deadline \<le> op_now ops k"
  shows "deadline_loop ops n deadline sent nows sends waits \<noteq> None"
proof (induction "limit - nows" arbitrary: sent nows sends waits rule: less_induct)
  case less
  show ?case
  proof (cases "n \<le> sent \<or> deadline \<le> op_now ops nows")
    case True
    then show ?thesis by (subst deadline_loop.simps) auto
  next
    case False
    then have "nows < limit" using assms [of nows] by (metis not_le)
    then have ih: "deadline_loop ops n deadline sent' (nows + j) sends' waits' \<noteq> None"
      if "0 < j" for sent' j sends' waits'
      using less [of "nows + j" sent' sends' waits'] that by simp
    show ?thesis
      by (subst deadline_loop.simps) (use False ih [of 1] ih [of 2] in \<open>simp add: Let_def del: not_None_eq\<close>)
  qed
qed

lemma deadline_loop_sent:
  assumes "deadline_loop ops n deadline sent nows sends waits = Some r"
  shows "sent \<le> n \<longrightarrow> fst (snd r) \<le> n \<and> (fst r \<longrightarrow> fst (snd r) = n)"
proof (rule deadline_loop.raw_induct [where
    P = "\<lambda>ops n deadline sent nows sends waits r. sent \<le> n \<longrightarrow> fst (snd r) \<le> n \<and> (fst r \<longrightarrow> fst (snd r) = n)",
    OF _ assms])
  fix loop ops n deadline sent nows sends waits
    and r :: "bool \<times> nat \<times> nat"
  assume ih: "\<And>ops n deadline sent nows sends waits r. loop ops n deadline sent nows sends waits = Some r \<Longrightarrow>
      sent \<le> n \<longrightarrow> fst (snd r) \<le> n \<and> (fst r \<longrightarrow> fst (snd r) = n)"
    and r: "(if n \<le> sent then Some (True, sent, nows)
      else if deadline \<le> op_now ops nows then Some (False, sent, nows + 1)
      else let to_send = min (n - sent) 16384; attempt = op_send ops sends
           in if 0 < fst attempt \<and> nat (fst attempt) \<le> to_send
              then loop ops n deadline (sent + nat (fst attempt)) (nows + 1) (sends + 1) waits
              else if fst attempt < 0 \<and> snd attempt
              then if deadline \<le> op_now ops (nows + 1) then Some (False, sent, nows + 2)
                   else if op_wait_failed ops waits then Some (False, sent, nows + 2)
                   else loop ops n deadline sent (nows + 2) (sends + 1) (waits + 1)
              else Some (False, sent, nows + 1)) = Some r"
  from r show "sent \<le> n \<longrightarrow> fst (snd r) \<le> n \<and> (fst r \<longrightarrow> fst (snd r) = n)"
    by (auto simp: Let_def split: if_splits dest!: ih)
qed

text \<open>
  C40. A send with a deadline always returns and never leaves a half-written stream open. If the
  clock shows the deadline or later from some reading on, the call returns, however the
  attempts, waits and mode switches go. Either the whole buffer was handed over, the socket is
  as open as before and the count is returned; or -1 is returned, some prefix of the buffer was
  handed over, and the socket is closed (unless the buffer was refused for its size, or the
  socket was closed already).
\<close>

theorem deadline_send_returns:
  assumes "\<And>k. limit \<le> k \<Longrightarrow> deadline \<le> op_now ops k"
  shows "\<exists>r s'. send_all_deadline wire deadline ops s = Some (r, s') \<and>
    (r = int (length wire) \<and> s' = s\<lparr>sock_out := sock_out s @ wire\<rparr> \<or>
     r = -1 \<and> (length wire \<le> int_max \<longrightarrow> \<not> sock_open s') \<and>
       (\<exists>sent. sock_out s' = sock_out s @ take sent wire))"
proof -
  obtain ok sent nows where loop: "deadline_loop ops (length wire) deadline 0 1 0 0 = Some (ok, sent, nows)"
    using deadline_loop_returns [of limit deadline ops "length wire" 0 1 0 0] assms by auto
  have sent: "ok \<longrightarrow> sent = length wire"
    using deadline_loop_sent [OF loop] by simp
  consider (refused) "\<not> sock_open s \<or> length wire > int_max" | (nothing) "wire = []"
    | (late) "deadline \<le> op_now ops 0 \<or> \<not> op_set_nonblocking ops True"
    | (run) "sock_open s" "length wire \<le> int_max" "wire \<noteq> []" "\<not> deadline \<le> op_now ops 0"
        "op_set_nonblocking ops True"
    by linarith
  then show ?thesis
  proof cases
    case refused
    then have "send_all_deadline wire deadline ops s = Some (-1, s)" by (simp add: send_all_deadline_def)
    with refused show ?thesis by (auto intro!: exI [of _ 0])
  next
    case run
    then show ?thesis
      using loop sent
      by (auto simp: send_all_deadline_def send_all_with_deadline_def Let_def sock_close_def
          intro: exI [of _ "length wire"])
  qed (cases "sock_open s \<and> length wire \<le> int_max",
       auto simp: send_all_deadline_def send_all_with_deadline_def sock_close_def intro!: exI [of _ 0])
qed

definition demo_ops :: deadline_ops where
  "demo_ops = \<lparr>op_now = (\<lambda>k. if k < 3 then int k else 10), op_set_nonblocking = (\<lambda>_. True),
     op_send = (\<lambda>k. (-1, True)), op_wait_failed = (\<lambda>_. False)\<rparr>"

definition demo_socket :: tcp_socket where
  "demo_socket = \<lparr>sock_open = True, sock_rx = [], sock_reset = False, sock_room = [], sock_out = []\<rparr>"

theorem deadline_send_returns_witness:
  "\<exists>r s'. send_all_deadline [1, 2] 10 demo_ops demo_socket = Some (r, s') \<and>
     (r = 2 \<and> s' = demo_socket\<lparr>sock_out := [1, 2]\<rparr> \<or>
      r = -1 \<and> \<not> sock_open s' \<and> (\<exists>sent. sock_out s' = take sent [1, 2]))"
  using deadline_send_returns [of 3 10 demo_ops "[1, 2]" demo_socket]
  by (simp add: demo_ops_def demo_socket_def)

end
