(* ===== verification/ControlChannel.thy ===== *)
theory ControlChannel
  imports Auth TcpTransport
begin

text \<open>
  The authenticated control channel of \<^verbatim>\<open>common/src/control_channel.cpp\<close>: the two handshakes,
  the wrapping of commands (HMAC or AES-GCM) and the channel object with its sequence numbers.
  The primitives of BCrypt are the record \<open>crypto\<close>: HMAC-SHA-256 and the GCM calls, each with
  a result that may be a failure. Random bytes are arguments (\<open>None\<close> when the generator
  fails), and the socket is that of \<open>TcpTransport\<close>, so a peer is any sequence of blocks.

  Shown: over an intact connection two parties with the same key complete the handshake with
  the same session; a server session is proof that the peer computed an HMAC with the enrolled
  key over this server's fresh nonce, and no hello gives two sessions; commands arrive
  unaltered, once and in order; the nonces of the frames a channel sent are pairwise
  different; and what breaks: after a failed send without deadline the nonce is used again.
\<close>

section \<open>Constants and parameters\<close>

definition kAeadKeyBytes :: nat where "kAeadKeyBytes = 32"
definition kAeadNonceBytes :: nat where "kAeadNonceBytes = 12"
definition kAeadAuthTagBytes :: nat where "kAeadAuthTagBytes = 16"
definition kAuthenticatedOverhead :: nat where "kAuthenticatedOverhead = 8 + kControlAuthTagBytes"
definition kPreambleFlagNone :: u8 where "kPreambleFlagNone = 0"
definition kPreambleFlagAead :: u8 where "kPreambleFlagAead = 1"
definition auth_hello_type :: u16 where "auth_hello_type = 8"
definition auth_challenge_type :: u16 where "auth_challenge_type = 9"
definition auth_proof_type :: u16 where "auth_proof_type = 10"
definition auth_accept_type :: u16 where "auth_accept_type = 11"

lemmas channel_consts [simp] =
  kAeadKeyBytes_def kAeadNonceBytes_def kAeadAuthTagBytes_def kAuthenticatedOverhead_def

record crypto =
  crypto_hmac :: "bytes \<Rightarrow> bytes \<Rightarrow> bytes option"
  gcm_encrypt :: "bytes \<Rightarrow> bytes \<Rightarrow> bytes \<Rightarrow> bytes \<Rightarrow> (bytes \<times> bytes) option"
  gcm_decrypt :: "bytes \<Rightarrow> bytes \<Rightarrow> bytes \<Rightarrow> bytes \<Rightarrow> bytes \<Rightarrow> bytes option"

section \<open>Sessions and handshakes\<close>

record authenticated_session =
  session_key :: bytes
  session_client_id :: bytes
  session_key_id :: u32
  session_aead :: bool
  session_role :: u8

definition is_handshake_command :: "u16 \<Rightarrow> bool" where
  "is_handshake_command typ \<longleftrightarrow> typ = auth_hello_type \<or> typ = auth_challenge_type \<or>
     typ = auth_proof_type \<or> typ = auth_accept_type"

definition make_preamble :: "u8 \<Rightarrow> bytes \<Rightarrow> u32 \<Rightarrow> u8 \<Rightarrow> connection_preamble" where
  "make_preamble role identity key_id flags =
     \<lparr>pre_version = kCommandVersion, pre_role = role, pre_flags = flags,
      pre_bytes = word_of_nat kConnectionPreambleBytes, pre_reserved = 0,
      pre_key_id = (if role = role_server then 0 else key_id),
      pre_identity = (if role = role_server then replicate (length identity) 0 else identity)\<rparr>"

definition send_preamble :: "u8 \<Rightarrow> bytes \<Rightarrow> u32 \<Rightarrow> u8 \<Rightarrow> tcp_socket \<Rightarrow> bool \<times> tcp_socket" where
  "send_preamble role identity key_id flags s =
     (let wire = encode_connection_preamble (make_preamble role identity key_id flags)
      in if wire = [] then (False, s)
         else case send_all wire s of (sent, s') \<Rightarrow> (sent = int (length wire), s'))"

definition receive_preamble :: "tcp_socket \<Rightarrow> connection_preamble option \<times> tcp_socket" where
  "receive_preamble s =
     (case receive_exact kConnectionPreambleBytes s of
        (None, s) \<Rightarrow> (None, s)
      | (Some wire, s) \<Rightarrow> (decode_connection_preamble wire, s))"

definition time_is_valid :: "u64 \<Rightarrow> u64 \<Rightarrow> int \<Rightarrow> bool" where
  "time_is_valid peer_time now maximum_clock_skew =
     (let allowed = word_of_int (max maximum_clock_skew 1) :: u64;
          difference = (if peer_time > now then peer_time - now else now - peer_time)
      in difference \<le> allowed)"

definition random_request_id :: "bytes option \<Rightarrow> u64" where
  "random_request_id rnd =
     (case rnd of None \<Rightarrow> 0
      | Some bs \<Rightarrow> let value = le_loop 0 0 bs in if value = 0 then 1 else value)"

definition client_finish ::
    "crypto \<Rightarrow> bytes \<Rightarrow> auth_hello \<Rightarrow> auth_challenge \<Rightarrow> u64 \<Rightarrow> bool \<Rightarrow> tcp_socket \<Rightarrow>
     authenticated_session option \<times> tcp_socket" where
  "client_finish cr psk hello challenge request_id aead s =
     (case (compute_client_proof (crypto_hmac cr) psk hello challenge,
            derive_session_key (crypto_hmac cr) psk hello challenge) of
        (Some proof, Some key) \<Rightarrow>
          (case send_plain_frame auth_proof_type request_id proof s of
             (False, s) \<Rightarrow> (None, s)
           | (True, s) \<Rightarrow>
               (case receive_plain_frame s of
                  (None, s) \<Rightarrow> (None, s)
                | (Some accept, s) \<Rightarrow>
                    if cmd_type (envelope accept) \<noteq> auth_accept_type \<or>
                       cmd_request_id (envelope accept) \<noteq> request_id \<or>
                       length (payload accept) \<noteq> 32 then (None, s)
                    else case compute_server_proof (crypto_hmac cr) key hello challenge of
                           None \<Rightarrow> (None, s)
                         | Some expected \<Rightarrow>
                             if \<not> constant_time_equal expected (payload accept) then (None, s)
                             else (Some \<lparr>session_key = key, session_client_id = hello_client_id hello,
                                         session_key_id = hello_key_id hello, session_aead = aead,
                                         session_role = role_client\<rparr>, s)))
      | _ \<Rightarrow> (None, s))"

definition client_await ::
    "crypto \<Rightarrow> bytes \<Rightarrow> auth_hello \<Rightarrow> u64 \<Rightarrow> int \<Rightarrow> bool \<Rightarrow> tcp_socket \<Rightarrow>
     authenticated_session option \<times> tcp_socket" where
  "client_await cr psk hello request_id skew request_aead s =
     (case receive_preamble s of
        (None, s) \<Rightarrow> (None, s)
      | (Some server_preamble, s) \<Rightarrow>
          if pre_role server_preamble \<noteq> role_server then (None, s)
          else let aead = (request_aead \<and> pre_flags server_preamble AND kPreambleFlagAead \<noteq> 0) in
          case receive_plain_frame s of
            (None, s) \<Rightarrow> (None, s)
          | (Some frame, s) \<Rightarrow>
              if cmd_type (envelope frame) \<noteq> auth_challenge_type \<or>
                 cmd_request_id (envelope frame) \<noteq> request_id then (None, s)
              else case decode_auth_challenge (payload frame) of
                None \<Rightarrow> (None, s)
              | Some challenge \<Rightarrow>
                  if \<not> validate_auth_challenge challenge \<or>
                     \<not> time_is_valid (chal_time challenge) (hello_time hello) skew then (None, s)
                  else client_finish cr psk hello challenge request_id aead s)"

definition client_handshake ::
    "crypto \<Rightarrow> bytes \<Rightarrow> u32 \<Rightarrow> bytes \<Rightarrow> u64 \<Rightarrow> int \<Rightarrow> bool \<Rightarrow> bytes option \<Rightarrow> bytes option \<Rightarrow>
     tcp_socket \<Rightarrow> authenticated_session option \<times> tcp_socket" where
  "client_handshake cr client_id key_id psk now skew request_aead nonce_random id_random s =
     (case nonce_random of
        None \<Rightarrow> (None, s)
      | Some nonce \<Rightarrow>
          (let hello = \<lparr>hello_client_id = client_id, hello_client_nonce = nonce, hello_time = now,
                        hello_key_id = key_id\<rparr>;
               request_id = random_request_id id_random;
               flags = (if request_aead then kPreambleFlagAead else kPreambleFlagNone)
           in if \<not> validate_auth_hello hello \<or> request_id = 0 then (None, s)
              else case send_preamble role_client client_id key_id flags s of
                (False, s) \<Rightarrow> (None, s)
              | (True, s) \<Rightarrow>
              (case send_plain_frame auth_hello_type request_id (encode_auth_hello hello) s of
                (False, s) \<Rightarrow> (None, s)
              | (True, s) \<Rightarrow> client_await cr psk hello request_id skew request_aead s)))"

definition server_finish ::
    "crypto \<Rightarrow> bytes \<Rightarrow> auth_hello \<Rightarrow> auth_challenge \<Rightarrow> u64 \<Rightarrow> bool \<Rightarrow> u64 \<Rightarrow> replay_protector \<Rightarrow>
     tcp_socket \<Rightarrow> authenticated_session option \<times> replay_protector \<times> tcp_socket" where
  "server_finish cr psk hello challenge request_id aead now rp s =
     (case receive_plain_frame s of
        (None, s) \<Rightarrow> (None, rp, s)
      | (Some proof, s) \<Rightarrow>
          if cmd_type (envelope proof) \<noteq> auth_proof_type \<or>
             cmd_request_id (envelope proof) \<noteq> request_id \<or> length (payload proof) \<noteq> 32
          then (None, rp, s)
          else case compute_client_proof (crypto_hmac cr) psk hello challenge of
            None \<Rightarrow> (None, rp, s)
          | Some expected \<Rightarrow>
              if \<not> constant_time_equal expected (payload proof) then (None, rp, s)
              else case replay_accept hello now rp of
                (False, rp) \<Rightarrow> (None, rp, s)
              | (True, rp) \<Rightarrow>
              (case derive_session_key (crypto_hmac cr) psk hello challenge of
                None \<Rightarrow> (None, rp, s)
              | Some key \<Rightarrow>
              (case compute_server_proof (crypto_hmac cr) key hello challenge of
                None \<Rightarrow> (None, rp, s)
              | Some server_proof \<Rightarrow>
              (case send_plain_frame auth_accept_type request_id server_proof s of
                (False, s) \<Rightarrow> (None, rp, s)
              | (True, s) \<Rightarrow>
                  (Some \<lparr>session_key = key, session_client_id = hello_client_id hello,
                         session_key_id = hello_key_id hello, session_aead = aead,
                         session_role = role_server\<rparr>, rp, s)))))"

definition server_handshake ::
    "crypto \<Rightarrow> (bytes \<Rightarrow> u32 \<Rightarrow> bytes option) \<Rightarrow> u64 \<Rightarrow> bool \<Rightarrow> bytes option \<Rightarrow> replay_protector \<Rightarrow>
     tcp_socket \<Rightarrow> authenticated_session option \<times> replay_protector \<times> tcp_socket" where
  "server_handshake cr key_resolver now allow_aead nonce_random rp s =
     (case receive_preamble s of
        (None, s) \<Rightarrow> (None, rp, s)
      | (Some preamble, s) \<Rightarrow>
          if pre_role preamble \<noteq> role_client then (None, rp, s)
          else let aead = (allow_aead \<and> pre_flags preamble AND kPreambleFlagAead \<noteq> 0) in
          case receive_plain_frame s of
            (None, s) \<Rightarrow> (None, rp, s)
          | (Some frame, s) \<Rightarrow>
              if cmd_type (envelope frame) \<noteq> auth_hello_type then (None, rp, s)
              else case decode_auth_hello (payload frame) of
                None \<Rightarrow> (None, rp, s)
              | Some hello \<Rightarrow>
                  if \<not> validate_auth_hello hello then (None, rp, s)
                  else if hello_client_id hello \<noteq> pre_identity preamble \<or>
                          hello_key_id hello \<noteq> pre_key_id preamble then (None, rp, s)
                  else case key_resolver (hello_client_id hello) (hello_key_id hello) of
                    None \<Rightarrow> (None, rp, s)
                  | Some psk \<Rightarrow>
                      if length psk < kMinimumProtocolKeyBytes then (None, rp, s)
                      else case nonce_random of
                        None \<Rightarrow> (None, rp, s)
                      | Some nonce \<Rightarrow>
                          (let challenge = \<lparr>chal_server_nonce = nonce, chal_time = now\<rparr>;
                               flags = (if aead then kPreambleFlagAead else kPreambleFlagNone);
                               request_id = cmd_request_id (envelope frame)
                           in case send_preamble role_server (replicate kClientIdBytes 0) 0 flags s of
                                (False, s) \<Rightarrow> (None, rp, s)
                              | (True, s) \<Rightarrow>
                              (case send_plain_frame auth_challenge_type request_id
                                      (encode_auth_challenge challenge) s of
                                (False, s) \<Rightarrow> (None, rp, s)
                              | (True, s) \<Rightarrow>
                                  server_finish cr psk hello challenge request_id aead now rp s)))"

section \<open>Wrapped commands\<close>

record authenticated_command =
  ac_envelope :: command_envelope
  ac_sequence :: u64
  ac_payload :: bytes

definition wrap_command :: "command_envelope \<Rightarrow> u64 \<Rightarrow> bytes \<Rightarrow> bytes \<Rightarrow> bytes" where
  "wrap_command normalized sequence tag body =
     (let authenticated = append_le sequence @ tag @ body
      in encode_tcp_frame (normalized\<lparr>cmd_payload_bytes := word_of_nat (length authenticated)\<rparr>)
           authenticated)"

definition normalize :: "command_envelope \<Rightarrow> bytes \<Rightarrow> command_envelope" where
  "normalize env body = env\<lparr>cmd_version := kCommandVersion, cmd_payload_bytes := word_of_nat (length body)\<rparr>"

definition encode_authenticated_command ::
    "crypto \<Rightarrow> bytes \<Rightarrow> command_envelope \<Rightarrow> u64 \<Rightarrow> bytes \<Rightarrow> bytes" where
  "encode_authenticated_command cr key env sequence body =
     (if is_handshake_command (cmd_type env) \<or>
         length body > kMaxCommandPayload - kAuthenticatedOverhead then []
      else let normalized = normalize env body in
        case compute_control_auth_tag (crypto_hmac cr) key normalized sequence body of
          None \<Rightarrow> []
        | Some tag \<Rightarrow> wrap_command normalized sequence tag body)"

definition wrapper_bad :: "tcp_frame \<Rightarrow> bool" where
  "wrapper_bad frame \<longleftrightarrow> length (payload frame) < kAuthenticatedOverhead \<or>
     unat (cmd_payload_bytes (envelope frame)) \<noteq> length (payload frame) \<or>
     is_handshake_command (cmd_type (envelope frame))"

definition decode_authenticated_command ::
    "crypto \<Rightarrow> bytes \<Rightarrow> tcp_frame \<Rightarrow> authenticated_command option" where
  "decode_authenticated_command cr key frame =
     (if wrapper_bad frame then None
      else let sequence = le_loop 0 0 (take 8 (payload frame));
               tag = take kControlAuthTagBytes (drop 8 (payload frame));
               body = drop kAuthenticatedOverhead (payload frame);
               normalized = (envelope frame)\<lparr>cmd_payload_bytes := word_of_nat (length body)\<rparr>
           in if \<not> verify_control_auth_tag (crypto_hmac cr) key normalized sequence body tag then None
              else Some \<lparr>ac_envelope = normalized, ac_sequence = sequence, ac_payload = body\<rparr>)"

record aead_session_keys =
  client_to_server_key :: bytes
  server_to_client_key :: bytes
  client_to_server_iv :: bytes
  server_to_client_iv :: bytes

definition derive_aead_session_keys :: "crypto \<Rightarrow> bytes \<Rightarrow> aead_session_keys option" where
  "derive_aead_session_keys cr key =
     (if length key < kMinimumProtocolKeyBytes then None
      else do {
        c2s_key \<leftarrow> hmac_sha256 (crypto_hmac cr) key (ascii ''NSTU-AEAD-C2S-KEY-V1'');
        s2c_key \<leftarrow> hmac_sha256 (crypto_hmac cr) key (ascii ''NSTU-AEAD-S2C-KEY-V1'');
        c2s_iv \<leftarrow> hmac_sha256 (crypto_hmac cr) key (ascii ''NSTU-AEAD-C2S-IV-V1'');
        s2c_iv \<leftarrow> hmac_sha256 (crypto_hmac cr) key (ascii ''NSTU-AEAD-S2C-IV-V1'');
        Some \<lparr>client_to_server_key = c2s_key, server_to_client_key = s2c_key,
              client_to_server_iv = take kAeadNonceBytes c2s_iv,
              server_to_client_iv = take kAeadNonceBytes s2c_iv\<rparr>
      })"

definition construct_aead_nonce :: "bytes \<Rightarrow> u64 \<Rightarrow> bytes" where
  "construct_aead_nonce iv_base sequence =
     take 4 iv_base @
     map (\<lambda>i. (iv_base ! (4 + i)) XOR ucast (drop_bit (8 * i) sequence AND 0xff)) [0..<8]"

definition make_aead_aad :: "command_envelope \<Rightarrow> u64 \<Rightarrow> bytes" where
  "make_aead_aad env sequence = encode_command_header env @ append_le sequence"

definition encrypt_aead_gcm ::
    "crypto \<Rightarrow> bytes \<Rightarrow> bytes \<Rightarrow> bytes \<Rightarrow> bytes \<Rightarrow> (bytes \<times> bytes) option" where
  "encrypt_aead_gcm cr key nonce aad plaintext =
     (if length key \<noteq> kAeadKeyBytes then None
      else case gcm_encrypt cr key nonce aad plaintext of
             None \<Rightarrow> None
           | Some (ciphertext, tag) \<Rightarrow>
               if length ciphertext \<noteq> length plaintext then None else Some (ciphertext, tag))"

definition decrypt_aead_gcm ::
    "crypto \<Rightarrow> bytes \<Rightarrow> bytes \<Rightarrow> bytes \<Rightarrow> bytes \<Rightarrow> bytes \<Rightarrow> bytes option" where
  "decrypt_aead_gcm cr key nonce aad ciphertext tag =
     (if length key \<noteq> kAeadKeyBytes then None
      else case gcm_decrypt cr key nonce aad ciphertext tag of
             None \<Rightarrow> None
           | Some plaintext \<Rightarrow>
               if length plaintext \<noteq> length ciphertext then None else Some plaintext)"

definition encode_authenticated_command_aead ::
    "crypto \<Rightarrow> bytes \<Rightarrow> bytes \<Rightarrow> command_envelope \<Rightarrow> u64 \<Rightarrow> bytes \<Rightarrow> bytes" where
  "encode_authenticated_command_aead cr key iv_base env sequence body =
     (if is_handshake_command (cmd_type env) \<or>
         length body > kMaxCommandPayload - kAuthenticatedOverhead then []
      else let normalized = normalize env body in
        case encrypt_aead_gcm cr key (construct_aead_nonce iv_base sequence)
               (make_aead_aad normalized sequence) body of
          None \<Rightarrow> []
        | Some (ciphertext, tag) \<Rightarrow> wrap_command normalized sequence tag ciphertext)"

definition decode_authenticated_command_aead ::
    "crypto \<Rightarrow> bytes \<Rightarrow> bytes \<Rightarrow> tcp_frame \<Rightarrow> authenticated_command option" where
  "decode_authenticated_command_aead cr key iv_base frame =
     (if wrapper_bad frame then None
      else let sequence = le_loop 0 0 (take 8 (payload frame));
               tag = take kAeadAuthTagBytes (drop 8 (payload frame));
               ciphertext = drop kAuthenticatedOverhead (payload frame);
               normalized = (envelope frame)\<lparr>cmd_payload_bytes := word_of_nat (length ciphertext)\<rparr>
           in case decrypt_aead_gcm cr key (construct_aead_nonce iv_base sequence)
                     (make_aead_aad normalized sequence) ciphertext tag of
                None \<Rightarrow> None
              | Some plaintext \<Rightarrow>
                  Some \<lparr>ac_envelope = normalized, ac_sequence = sequence, ac_payload = plaintext\<rparr>)"

section \<open>The channel object\<close>

record control_channel =
  ch_socket :: tcp_socket
  ch_session_key :: bytes
  ch_aead :: bool
  ch_role :: u8
  ch_send_key :: bytes
  ch_send_iv :: bytes
  ch_receive_key :: bytes
  ch_receive_iv :: bytes
  ch_receive_sequence :: sequence_guard
  ch_send_sequence :: u64
  ch_send_exhausted :: bool

definition new_channel :: "tcp_socket \<Rightarrow> bytes \<Rightarrow> control_channel" where
  "new_channel s key =
     \<lparr>ch_socket = s, ch_session_key = key, ch_aead = False, ch_role = role_client,
      ch_send_key = replicate 32 0, ch_send_iv = replicate 12 0,
      ch_receive_key = replicate 32 0, ch_receive_iv = replicate 12 0,
      ch_receive_sequence = \<lparr>next_expected = 0, exhausted = False\<rparr>,
      ch_send_sequence = 0, ch_send_exhausted = False\<rparr>"

definition session_channel :: "crypto \<Rightarrow> tcp_socket \<Rightarrow> authenticated_session \<Rightarrow> control_channel" where
  "session_channel cr s ses =
     (let c = (new_channel s (session_key ses))\<lparr>ch_aead := session_aead ses, ch_role := session_role ses\<rparr>
      in if \<not> session_aead ses then c
         else case derive_aead_session_keys cr (session_key ses) of
                None \<Rightarrow> c\<lparr>ch_aead := False\<rparr>
              | Some keys \<Rightarrow>
                  if session_role ses = role_client
                  then c\<lparr>ch_send_key := client_to_server_key keys, ch_send_iv := client_to_server_iv keys,
                         ch_receive_key := server_to_client_key keys,
                         ch_receive_iv := server_to_client_iv keys\<rparr>
                  else c\<lparr>ch_send_key := server_to_client_key keys, ch_send_iv := server_to_client_iv keys,
                         ch_receive_key := client_to_server_key keys,
                         ch_receive_iv := client_to_server_iv keys\<rparr>)"

definition zeroed :: "bytes \<Rightarrow> bytes" where
  "zeroed bs = replicate (length bs) 0"

definition channel_close :: "control_channel \<Rightarrow> control_channel" where
  "channel_close c =
     c\<lparr>ch_socket := sock_close (ch_socket c), ch_session_key := zeroed (ch_session_key c),
       ch_send_key := zeroed (ch_send_key c), ch_receive_key := zeroed (ch_receive_key c),
       ch_send_iv := zeroed (ch_send_iv c), ch_receive_iv := zeroed (ch_receive_iv c),
       ch_aead := False, ch_send_exhausted := True\<rparr>"

definition channel_encode :: "crypto \<Rightarrow> control_channel \<Rightarrow> command_envelope \<Rightarrow> bytes \<Rightarrow> bytes" where
  "channel_encode cr c env body =
     (if ch_aead c
      then encode_authenticated_command_aead cr (ch_send_key c) (ch_send_iv c) env (ch_send_sequence c) body
      else encode_authenticated_command cr (ch_session_key c) env (ch_send_sequence c) body)"

definition advance_send :: "control_channel \<Rightarrow> control_channel" where
  "advance_send c =
     (if ch_send_sequence c = -1 then c\<lparr>ch_send_exhausted := True\<rparr>
      else c\<lparr>ch_send_sequence := ch_send_sequence c + 1\<rparr>)"

text \<open>\<open>deadline\<close> is the deadline with the calls a send under it makes; \<open>None\<close> is an ordinary send.\<close>

definition send_impl ::
    "crypto \<Rightarrow> u16 \<Rightarrow> u64 \<Rightarrow> bytes \<Rightarrow> (int \<times> deadline_ops) option \<Rightarrow> control_channel \<Rightarrow>
     (bool \<times> control_channel) option" where
  "send_impl cr typ request_id body deadline c =
     (if \<not> sock_open (ch_socket c) \<or> ch_send_exhausted c \<or> is_handshake_command typ
      then Some (False, c)
      else let env = \<lparr>cmd_version = kCommandVersion, cmd_type = typ,
                      cmd_payload_bytes = word_of_nat (length body), cmd_request_id = request_id\<rparr>;
               wire = channel_encode cr c env body
           in if wire = [] then Some (False, c)
              else case (case deadline of
                           None \<Rightarrow> Some (send_all wire (ch_socket c))
                         | Some (limit, ops) \<Rightarrow> send_all_deadline wire limit ops (ch_socket c)) of
                     None \<Rightarrow> None
                   | Some (sent, s) \<Rightarrow>
                       (let c' = c\<lparr>ch_socket := s\<rparr>
                        in if sent \<noteq> int (length wire)
                           then Some (False, if deadline \<noteq> None then channel_close c' else c')
                           else Some (True, advance_send c')))"

definition channel_decode :: "crypto \<Rightarrow> control_channel \<Rightarrow> tcp_frame \<Rightarrow> authenticated_command option" where
  "channel_decode cr c frame =
     (if ch_aead c
      then decode_authenticated_command_aead cr (ch_receive_key c) (ch_receive_iv c) frame
      else decode_authenticated_command cr (ch_session_key c) frame)"

definition channel_receive :: "crypto \<Rightarrow> control_channel \<Rightarrow> authenticated_command option \<times> control_channel" where
  "channel_receive cr c =
     (if \<not> sock_open (ch_socket c) then (None, c)
      else case receive_plain_frame (ch_socket c) of
             (None, s) \<Rightarrow> (None, c\<lparr>ch_socket := s\<rparr>)
           | (Some frame, s) \<Rightarrow>
               (let c' = c\<lparr>ch_socket := s\<rparr>
                in case channel_decode cr c frame of
                     None \<Rightarrow> (None, c')
                   | Some command \<Rightarrow>
                       (case guard_accept (ac_sequence command) (ch_receive_sequence c) of
                          (ok, g) \<Rightarrow> (if ok then Some command else None, c'\<lparr>ch_receive_sequence := g\<rparr>))))"

text \<open>A run of ordinary sends that all succeed, and the commands a number of receives returns.\<close>

type_synonym outgoing = "u16 \<times> u64 \<times> bytes"

fun send_run :: "crypto \<Rightarrow> outgoing list \<Rightarrow> control_channel \<Rightarrow> control_channel option" where
  "send_run cr [] c = Some c"
| "send_run cr ((t, r, b) # cs) c =
     (case send_impl cr t r b None c of Some (True, c') \<Rightarrow> send_run cr cs c' | _ \<Rightarrow> None)"

fun receive_calls :: "crypto \<Rightarrow> nat \<Rightarrow> control_channel \<Rightarrow> authenticated_command list \<times> control_channel" where
  "receive_calls cr 0 c = ([], c)"
| "receive_calls cr (Suc n) c =
     (case channel_receive cr c of
        (r, c') \<Rightarrow> (case receive_calls cr n c' of (ms, c'') \<Rightarrow> ((case r of None \<Rightarrow> ms | Some m \<Rightarrow> m # ms), c'')))"

definition outgoing_envelope :: "outgoing \<Rightarrow> command_envelope" where
  "outgoing_envelope = (\<lambda>(t, r, b). \<lparr>cmd_version = kCommandVersion, cmd_type = t,
     cmd_payload_bytes = word_of_nat (length b), cmd_request_id = r\<rparr>)"

fun sent_commands :: "u64 \<Rightarrow> outgoing list \<Rightarrow> authenticated_command list" where
  "sent_commands q [] = []"
| "sent_commands q (o1 # cs) =
     \<lparr>ac_envelope = outgoing_envelope o1, ac_sequence = q, ac_payload = snd (snd o1)\<rparr> # sent_commands (q + 1) cs"

section \<open>What is on the wire\<close>

definition plain_frame :: "u16 \<Rightarrow> u64 \<Rightarrow> bytes \<Rightarrow> tcp_frame" where
  "plain_frame typ request_id body =
     \<lparr>envelope = \<lparr>cmd_version = kCommandVersion, cmd_type = typ,
        cmd_payload_bytes = word_of_nat (length body), cmd_request_id = request_id\<rparr>, payload = body\<rparr>"

lemma plain_frame_simps [simp]:
  "payload (plain_frame typ r b) = b" "cmd_type (envelope (plain_frame typ r b)) = typ"
  "cmd_request_id (envelope (plain_frame typ r b)) = r"
  by (simp_all add: plain_frame_def)

lemma plain_frame_ok: "length b \<le> 65536 \<Longrightarrow> frame_ok (plain_frame typ r b)"
  by (simp add: plain_frame_def frame_ok_def unat_of_nat)

lemma frame_wire_length: "frame_ok f \<Longrightarrow> length (frame_wire f) = 24 + length (payload f)"
  by (simp add: frame_wire_append)

text \<open>A socket on which every call of \<open>send\<close> makes progress, for at least \<open>n\<close> more bytes.\<close>

definition roomy :: "nat \<Rightarrow> tcp_socket \<Rightarrow> bool" where
  "roomy n s \<longleftrightarrow> sock_open s \<and> 0 \<notin> set (sock_room s) \<and> n \<le> length (sock_room s)"

lemma send_loop_roomy:
  "0 \<notin> set room \<Longrightarrow> length wire \<le> length room \<Longrightarrow>
   \<exists>room'. send_all_loop wire room = (wire, room', True) \<and> 0 \<notin> set room' \<and>
     length room \<le> length room' + length wire"
proof (induction wire room rule: send_all_loop.induct)
  case (3 b bs k room)
  have k: "k \<noteq> 0" using 3(2) by auto
  have "length (drop k (b # bs)) \<le> length room" using 3(3) k by (cases k) auto
  with 3(1) [OF k] 3(2) obtain room' where r: "send_all_loop (drop k (b # bs)) room = (drop k (b # bs), room', True)"
    "0 \<notin> set room'" "length room \<le> length room' + length (drop k (b # bs))" by auto
  have "length (k # room) \<le> length room' + length (b # bs)" using r(3) k by (auto simp: diff_Suc split: nat.splits)
  then show ?case using r k by simp
qed auto

lemma send_all_roomy:
  assumes "roomy (m + n) s" "length wire = m" "m \<le> int_max"
  shows "\<exists>s'. send_all wire s = (int (length wire), s') \<and> roomy n s' \<and>
    sock_out s' = sock_out s @ wire \<and> sock_rx s' = sock_rx s"
proof -
  obtain room' where "send_all_loop wire (sock_room s) = (wire, room', True)" "0 \<notin> set room'"
    "length (sock_room s) \<le> length room' + length wire"
    using send_loop_roomy [of "sock_room s" wire] assms by (auto simp: roomy_def)
  then show ?thesis using assms by (auto simp: send_all_def roomy_def)
qed

lemma roomy_same: "same_sender s s' \<Longrightarrow> roomy n s' = roomy n s"
  by (auto simp: same_sender_def roomy_def)

lemma live_cong: "sock_rx s' = sock_rx s \<Longrightarrow> sock_open s' = sock_open s \<Longrightarrow> live s' = live s \<and> stream s' = stream s"
  by (simp add: live_def stream_def)

lemma send_plain_roomy:
  assumes "roomy (24 + length body + n) s" "length body \<le> 65536"
  shows "\<exists>s'. send_plain_frame typ r body s = (True, s') \<and> roomy n s' \<and>
    sock_out s' = sock_out s @ frame_wire (plain_frame typ r body) \<and> sock_rx s' = sock_rx s"
proof -
  define w where "w = frame_wire (plain_frame typ r body)"
  have l: "length w = 24 + length body"
    using frame_wire_length [OF plain_frame_ok [OF assms(2)], of "typ" r] by (simp add: w_def)
  from send_all_roomy [OF assms(1) l] assms(2) obtain s' where
    "send_all w s = (int (length w), s')" "roomy n s'" "sock_out s' = sock_out s @ w" "sock_rx s' = sock_rx s"
    by auto
  moreover have "w \<noteq> []" using l by auto
  ultimately show ?thesis
    using assms(2) by (auto simp: send_plain_frame_def Let_def w_def plain_frame_def)
qed

lemma send_plain_out:
  "send_plain_frame typ r body s = (ok, s') \<Longrightarrow>
   \<exists>out. sock_out s' = sock_out s @ out \<and> sock_rx s' = sock_rx s \<and> sock_open s' = sock_open s"
  by (auto simp: send_plain_frame_def Let_def split: if_splits prod.splits dest!: send_all_cases)

lemma preamble_wire_ok:
  assumes "preamble_ok p" shows "encode_connection_preamble p \<noteq> [] \<and> length (encode_connection_preamble p) = 32"
  using preamble_codec.dec_enc [OF assms] assms
  by (auto simp: encode_connection_preamble_def preamble_ok_def)

lemma send_preamble_roomy:
  assumes "preamble_ok (make_preamble role i k f)" "roomy (32 + n) s"
  shows "\<exists>s'. send_preamble role i k f s = (True, s') \<and> roomy n s' \<and>
    sock_out s' = sock_out s @ encode_connection_preamble (make_preamble role i k f) \<and> sock_rx s' = sock_rx s"
  using preamble_wire_ok [OF assms(1)] send_all_roomy [OF assms(2)]
  by (fastforce simp: send_preamble_def Let_def)

lemma receive_preamble_wire:
  assumes "live s" "preamble_ok p" "stream s = encode_connection_preamble p @ rest"
  shows "\<exists>s'. receive_preamble s = (Some p, s') \<and> live s' \<and> stream s' = rest \<and> same_sender s s'"
proof -
  obtain s' where "receive_exact 32 s = (Some (encode_connection_preamble p), s')" "live s'"
    "stream s' = rest" "same_sender s s'"
    using receive_exact_stream [OF assms(1) _ assms(3), of 32] preamble_wire_ok [OF assms(2)] by auto
  then show ?thesis using preamble_codec.dec_enc [OF assms(2)] by (simp add: receive_preamble_def)
qed

lemma receive_preamble_sound:
  "receive_preamble s = (Some p, s') \<Longrightarrow>
   preamble_ok p \<and> stream s = encode_connection_preamble p @ stream s' \<and> same_sender s s'"
  by (auto simp: receive_preamble_def preamble_codec.dec_iff split: prod.splits option.splits
      dest: receive_exact_sound receive_exact_same)

lemma receive_preamble_same: "receive_preamble s = (r, s') \<Longrightarrow> same_sender s s'"
  by (auto simp: receive_preamble_def split: prod.splits option.splits dest!: receive_exact_same)

section \<open>An intact handshake\<close>

text \<open>The primitive works and gives 32-byte digests; a key the length checks accept.\<close>

definition digests :: "crypto \<Rightarrow> bool" where
  "digests cr \<longleftrightarrow> (\<forall>key m. \<exists>d. crypto_hmac cr key m = Some d \<and> length d = 32)"

definition usable_key :: "bytes \<Rightarrow> bool" where
  "usable_key key \<longleftrightarrow> 32 \<le> length key \<and> length key \<le> 2 ^ 32 - 1"

definition good_hello :: "auth_hello \<Rightarrow> bool" where
  "good_hello h \<longleftrightarrow> hello_wf h \<and> validate_auth_hello h"

definition good_challenge :: "auth_challenge \<Rightarrow> bool" where
  "good_challenge c \<longleftrightarrow> challenge_wf c \<and> validate_auth_challenge c"

lemma hmac_digest:
  assumes "digests cr" "usable_key key" "length m \<le> 2 ^ 32 - 1"
  shows "\<exists>d. hmac_sha256 (crypto_hmac cr) key m = Some d \<and> length d = 32"
  using assms by (auto simp: hmac_sha256_def digests_def usable_key_def)

lemma transcript_length:
  "good_hello h \<Longrightarrow> good_challenge c \<Longrightarrow> length (make_transcript label h c) = length label + 100"
  by (simp add: make_transcript_def good_hello_def good_challenge_def hello_wf_def challenge_wf_def
      encode_auth_hello_def encode_auth_challenge_def ascii_def)

lemma proofs_exist:
  assumes "digests cr" "usable_key psk" "good_hello h" "good_challenge c"
  shows "\<exists>d. compute_client_proof (crypto_hmac cr) psk h c = Some d \<and> length d = 32"
    and "\<exists>d. derive_session_key (crypto_hmac cr) psk h c = Some d \<and> length d = 32"
    and "\<exists>d. compute_server_proof (crypto_hmac cr) psk h c = Some d \<and> length d = 32"
  using assms hmac_digest [OF assms(1,2)] transcript_length [OF assms(3,4)]
  by (simp_all add: compute_client_proof_def derive_session_key_def compute_server_proof_def
      usable_key_def good_hello_def good_challenge_def)

lemma session_key_usable: "length key = 32 \<Longrightarrow> usable_key key"
  by (simp add: usable_key_def)

abbreviation client_flight :: "u8 \<Rightarrow> u64 \<Rightarrow> auth_hello \<Rightarrow> bytes" where
  "client_flight flags r h \<equiv>
     encode_connection_preamble (make_preamble role_client (hello_client_id h) (hello_key_id h) flags) @
     frame_wire (plain_frame auth_hello_type r (encode_auth_hello h))"

abbreviation server_flight :: "u8 \<Rightarrow> u64 \<Rightarrow> auth_challenge \<Rightarrow> bytes" where
  "server_flight flags r c \<equiv>
     encode_connection_preamble (make_preamble role_server (replicate 16 0) 0 flags) @
     frame_wire (plain_frame auth_challenge_type r (encode_auth_challenge c))"

abbreviation aead_flag :: "bool \<Rightarrow> u8" where
  "aead_flag b \<equiv> (if b then kPreambleFlagAead else kPreambleFlagNone)"

lemma aead_flag_bit [simp]: "(aead_flag b AND kPreambleFlagAead \<noteq> 0) = b"
  by (simp add: kPreambleFlagAead_def kPreambleFlagNone_def)

lemma make_preamble_simps [simp]:
  "pre_role (make_preamble r i k f) = r" "pre_flags (make_preamble r i k f) = f"
  "r \<noteq> role_server \<Longrightarrow> pre_identity (make_preamble r i k f) = i"
  "r \<noteq> role_server \<Longrightarrow> pre_key_id (make_preamble r i k f) = k"
  by (simp_all add: make_preamble_def)

lemma client_preamble_ok:
  "good_hello h \<Longrightarrow> preamble_ok (make_preamble role_client (hello_client_id h) (hello_key_id h) f)"
  by (simp add: preamble_ok_def make_preamble_def good_hello_def hello_wf_def validate_auth_hello_def known_role_def)

lemma server_preamble_ok: "preamble_ok (make_preamble role_server (replicate 16 0) 0 f)"
  by (simp add: preamble_ok_def make_preamble_def known_role_def non_zero_def list_ex_iff)

lemma hello_message: "good_hello h \<Longrightarrow> length (encode_auth_hello h) = 60 \<and> decode_auth_hello (encode_auth_hello h) = Some h"
  using hello_codec.dec_enc [of h] by (simp add: good_hello_def hello_wf_def encode_auth_hello_def)

lemma challenge_message:
  "good_challenge c \<Longrightarrow> length (encode_auth_challenge c) = 40 \<and> decode_auth_challenge (encode_auth_challenge c) = Some c"
  using challenge_codec.dec_enc [of c] by (simp add: good_challenge_def challenge_wf_def encode_auth_challenge_def)

lemma roomy_open: "roomy n s \<Longrightarrow> sock_open s"
  by (simp add: roomy_def)

lemma client_starts:
  assumes "good_hello \<lparr>hello_client_id = i, hello_client_nonce = n, hello_time = now, hello_key_id = k\<rparr>"
      (is "good_hello ?h")
    and "random_request_id idr = r" "r \<noteq> 0" "roomy 172 s"
  shows "\<exists>s1. client_handshake cr i k psk now skew req (Some n) idr s = client_await cr psk ?h r skew req s1 \<and>
    roomy 56 s1 \<and> sock_out s1 = sock_out s @ client_flight (aead_flag req) r ?h \<and> sock_rx s1 = sock_rx s"
proof -
  from send_preamble_roomy [OF client_preamble_ok [OF assms(1), of "aead_flag req"], of 140 s] assms(4) obtain s1 where s1:
    "send_preamble role_client i k (aead_flag req) s = (True, s1)" "roomy 140 s1"
    "sock_out s1 = sock_out s @ encode_connection_preamble (make_preamble role_client i k (aead_flag req))"
    "sock_rx s1 = sock_rx s" by auto
  from send_plain_roomy [of "encode_auth_hello ?h" 56 s1 auth_hello_type r] s1(2) hello_message [OF assms(1)]
  obtain s2 where s2: "send_plain_frame auth_hello_type r (encode_auth_hello ?h) s1 = (True, s2)" "roomy 56 s2"
    "sock_out s2 = sock_out s1 @ frame_wire (plain_frame auth_hello_type r (encode_auth_hello ?h))"
    "sock_rx s2 = sock_rx s1" by auto
  have "client_handshake cr i k psk now skew req (Some n) idr s = client_await cr psk ?h r skew req s2"
    using assms(1,2,3) s1(1) s2(1) by (simp add: client_handshake_def Let_def good_hello_def)
  then show ?thesis using s1 s2 by (intro exI [of _ s2]) simp
qed

lemma server_starts:
  assumes "good_hello h" "good_challenge \<lparr>chal_server_nonce = n, chal_time = now\<rparr>" (is "good_challenge ?c")
    and "resolver (hello_client_id h) (hello_key_id h) = Some psk" "usable_key psk"
    and "live s" "roomy 152 s" "stream s = client_flight (aead_flag req) r h @ rest"
  shows "\<exists>s1. server_handshake cr resolver now allow (Some n) rp s =
      server_finish cr psk h ?c r (allow \<and> req) now rp s1 \<and> live s1 \<and> roomy 56 s1 \<and> stream s1 = rest \<and>
      sock_out s1 = sock_out s @ server_flight (aead_flag (allow \<and> req)) r ?c"
proof -
  let ?p = "make_preamble role_client (hello_client_id h) (hello_key_id h) (aead_flag req)"
  let ?hf = "plain_frame auth_hello_type r (encode_auth_hello h)"
  obtain s1 where s1: "receive_preamble s = (Some ?p, s1)" "live s1" "stream s1 = frame_wire ?hf @ rest" "same_sender s s1"
    using receive_preamble_wire [OF assms(5) client_preamble_ok [OF assms(1)], of "aead_flag req" "frame_wire ?hf @ rest"]
      assms(7) by auto
  have hf: "frame_ok ?hf" using plain_frame_ok [of "encode_auth_hello h"] hello_message [OF assms(1)] by simp
  from receive_frame_wire [OF s1(2) hf s1(3)] obtain s2 where
    s2: "receive_plain_frame s1 = (Some ?hf, s2)" "live s2" "stream s2 = rest" "same_sender s1 s2" by auto
  have "roomy 152 s2" "sock_out s2 = sock_out s" "sock_open s2"
    using assms(6) roomy_same [OF same_sender_trans [OF s1(4) s2(4)]] same_senderD [OF same_sender_trans [OF s1(4) s2(4)]]
      roomy_open by auto
  moreover from send_preamble_roomy [OF server_preamble_ok, of 120 s2 "aead_flag (allow \<and> req)"] this obtain s3 where s3:
    "send_preamble role_server (replicate 16 0) 0 (aead_flag (allow \<and> req)) s2 = (True, s3)" "roomy 120 s3"
    "sock_out s3 = sock_out s2 @ encode_connection_preamble (make_preamble role_server (replicate 16 0) 0 (aead_flag (allow \<and> req)))"
    "sock_rx s3 = sock_rx s2" by auto
  moreover from send_plain_roomy [of "encode_auth_challenge ?c" 56 s3 auth_challenge_type r] s3(2) challenge_message [OF assms(2)]
  obtain s4 where s4: "send_plain_frame auth_challenge_type r (encode_auth_challenge ?c) s3 = (True, s4)" "roomy 56 s4"
    "sock_out s4 = sock_out s3 @ frame_wire (plain_frame auth_challenge_type r (encode_auth_challenge ?c))"
    "sock_rx s4 = sock_rx s3" by auto
  moreover have "live s4 \<and> stream s4 = rest"
    using live_cong [of s4 s2] s2 s3(4) s4(4) roomy_open [OF s4(2)] \<open>sock_open s2\<close> by simp
  moreover have "server_handshake cr resolver now allow (Some n) rp s =
      server_finish cr psk h ?c r (allow \<and> req) now rp s4"
    using assms(1-4) s1(1) s2(1) s3(1) s4(1) hello_message [OF assms(1)] aead_flag_bit [of req]
    by (simp add: server_handshake_def Let_def good_hello_def usable_key_def)
  ultimately show ?thesis by (intro exI [of _ s4]) simp
qed

lemma client_continues:
  assumes "good_challenge c" "time_is_valid (chal_time c) (hello_time h) skew"
    and "live s" "stream s = server_flight (aead_flag a) r c @ rest"
  shows "\<exists>s1. client_await cr psk h r skew req s = client_finish cr psk h c r (req \<and> a) s1 \<and>
    live s1 \<and> stream s1 = rest \<and> same_sender s s1"
proof -
  let ?p = "make_preamble role_server (replicate 16 0) 0 (aead_flag a)"
  let ?cf = "plain_frame auth_challenge_type r (encode_auth_challenge c)"
  obtain s1 where s1: "receive_preamble s = (Some ?p, s1)" "live s1" "stream s1 = frame_wire ?cf @ rest" "same_sender s s1"
    using receive_preamble_wire [OF assms(3) server_preamble_ok, of "aead_flag a" "frame_wire ?cf @ rest"] assms(4) by auto
  have cf: "frame_ok ?cf" using plain_frame_ok [of "encode_auth_challenge c"] challenge_message [OF assms(1)] by simp
  from receive_frame_wire [OF s1(2) cf s1(3)] obtain s2 where
    s2: "receive_plain_frame s1 = (Some ?cf, s2)" "live s2" "stream s2 = rest" "same_sender s1 s2" by auto
  have "client_await cr psk h r skew req s = client_finish cr psk h c r (req \<and> a) s2"
    using assms(1,2) s1(1) s2(1) challenge_message [OF assms(1)] aead_flag_bit [of a]
    by (simp add: client_await_def Let_def good_challenge_def)
  then show ?thesis using s2 same_sender_trans [OF s1(4) s2(4)] by blast
qed

lemma client_finishes:
  assumes "compute_client_proof (crypto_hmac cr) psk h c = Some cproof" "length cproof = 32"
    and "derive_session_key (crypto_hmac cr) psk h c = Some key"
    and "live s" "roomy 56 s" "client_finish cr psk h c r a s = (res, s')"
  shows "sock_out s' = sock_out s @ frame_wire (plain_frame auth_proof_type r cproof)"
    and "stream s = frame_wire (plain_frame auth_accept_type r accept) \<Longrightarrow>
      compute_server_proof (crypto_hmac cr) key h c = Some accept \<Longrightarrow> length accept = 32 \<Longrightarrow>
      res = Some \<lparr>session_key = key, session_client_id = hello_client_id h, session_key_id = hello_key_id h,
        session_aead = a, session_role = role_client\<rparr>"
proof -
  from send_plain_roomy [of cproof 0 s auth_proof_type r] assms(2,5) obtain s1 where
    s1: "send_plain_frame auth_proof_type r cproof s = (True, s1)" "roomy 0 s1"
    "sock_out s1 = sock_out s @ frame_wire (plain_frame auth_proof_type r cproof)" "sock_rx s1 = sock_rx s" by auto
  have l: "live s1" "stream s1 = stream s"
    using live_cong [of s1 s] s1(4) roomy_open [OF s1(2)] assms(4) by (auto simp: live_def)
  obtain f s2 where f: "receive_plain_frame s1 = (f, s2)" by fastforce
  have "s' = s2"
    using assms(1,3,6) s1(1) f by (auto simp: client_finish_def split: option.splits if_splits)
  then show "sock_out s' = sock_out s @ frame_wire (plain_frame auth_proof_type r cproof)"
    using same_senderD [OF receive_frame_same [OF f]] s1(3) by simp
  assume st: "stream s = frame_wire (plain_frame auth_accept_type r accept)"
    and acc: "compute_server_proof (crypto_hmac cr) key h c = Some accept" "length accept = 32"
  have "frame_ok (plain_frame auth_accept_type r accept)" using plain_frame_ok [of accept] acc(2) by simp
  from receive_frame_wire [OF l(1) this, of "[]"] l(2) st f have "f = Some (plain_frame auth_accept_type r accept)"
    by auto
  then show "res = Some \<lparr>session_key = key, session_client_id = hello_client_id h, session_key_id = hello_key_id h,
        session_aead = a, session_role = role_client\<rparr>"
    using assms(1,3,6) s1(1) f acc by (simp add: client_finish_def constant_time_equal_iff)
qed

lemma server_finishes:
  assumes "compute_client_proof (crypto_hmac cr) psk h c = Some cproof" "length cproof = 32"
    and "derive_session_key (crypto_hmac cr) psk h c = Some key"
    and "compute_server_proof (crypto_hmac cr) key h c = Some accept" "length accept = 32"
    and "live s" "roomy 56 s" "stream s = frame_wire (plain_frame auth_proof_type r cproof) @ rest"
    and "fst (replay_accept h now rp)"
  shows "\<exists>rp' s'. server_finish cr psk h c r a now rp s =
      (Some \<lparr>session_key = key, session_client_id = hello_client_id h, session_key_id = hello_key_id h,
        session_aead = a, session_role = role_server\<rparr>, rp', s') \<and>
      sock_out s' = sock_out s @ frame_wire (plain_frame auth_accept_type r accept)"
proof -
  let ?pf = "plain_frame auth_proof_type r cproof"
  have "frame_ok ?pf" using plain_frame_ok [of cproof] assms(2) by simp
  from receive_frame_wire [OF assms(6) this assms(8)] obtain s1 where
    s1: "receive_plain_frame s = (Some ?pf, s1)" "same_sender s s1" by auto
  have "roomy 56 s1" "sock_out s1 = sock_out s"
    using assms(7) roomy_same [OF s1(2)] same_senderD [OF s1(2)] by auto
  moreover from send_plain_roomy [of accept 0 s1 auth_accept_type r] this assms(5) obtain s2 where
    s2: "send_plain_frame auth_accept_type r accept s1 = (True, s2)"
    "sock_out s2 = sock_out s1 @ frame_wire (plain_frame auth_accept_type r accept)" by auto
  ultimately show ?thesis
    using assms(1-5,9) s1(1)
    by (cases "replay_accept h now rp") (simp add: server_finish_def constant_time_equal_iff)
qed

definition extends_out :: "tcp_socket \<Rightarrow> tcp_socket \<Rightarrow> bool" where
  "extends_out s s' \<longleftrightarrow> (\<exists>out. sock_out s' = sock_out s @ out)"

lemma extends_out_refl: "extends_out s s"
  by (simp add: extends_out_def)

lemma extends_out_trans: "extends_out s t \<Longrightarrow> extends_out t u \<Longrightarrow> extends_out s u"
  by (auto simp: extends_out_def)

lemma same_sender_extends: "same_sender s s' \<Longrightarrow> extends_out s s'"
  by (auto simp: same_sender_def extends_out_def)

lemma io_extends:
  "receive_plain_frame s = (f, s') \<Longrightarrow> extends_out s s'"
  "receive_preamble s = (p, s') \<Longrightarrow> extends_out s s'"
  "send_plain_frame t r b s = (ok, s') \<Longrightarrow> extends_out s s'"
  by (auto intro: same_sender_extends dest: receive_frame_same receive_preamble_same)
    (auto simp: extends_out_def dest: send_plain_out)

lemma server_finish_out:
  assumes "server_finish cr psk h c r a now rp s = (res, rp', s')" shows "extends_out s s'"
proof -
  obtain f s1 where f: "receive_plain_frame s = (f, s1)" by fastforce
  have "extends_out s1 s'"
    using assms f by (auto simp: server_finish_def extends_out_refl split: prod.splits option.splits if_splits bool.splits
      dest: io_extends(3))
  with io_extends(1) [OF f] show ?thesis by (rule extends_out_trans)
qed

lemma client_finish_out:
  assumes "client_finish cr psk h c r a s = (res, s')" shows "extends_out s s'"
proof (cases "compute_client_proof (crypto_hmac cr) psk h c = None \<or> derive_session_key (crypto_hmac cr) psk h c = None")
  case True
  with assms show ?thesis by (auto simp: client_finish_def extends_out_refl split: option.splits)
next
  case False
  then obtain cproof key where k: "compute_client_proof (crypto_hmac cr) psk h c = Some cproof"
    "derive_session_key (crypto_hmac cr) psk h c = Some key" by auto
  obtain ok s1 f s2 where f: "send_plain_frame auth_proof_type r cproof s = (ok, s1)" "receive_plain_frame s1 = (f, s2)"
    by fastforce
  have "s' = s1 \<or> s' = s2"
    using assms f k by (auto simp: client_finish_def split: option.splits if_splits bool.splits)
  then show ?thesis
    using io_extends(3) [OF f(1)] io_extends(1) [OF f(2)] by (auto intro: extends_out_trans)
qed

lemma client_await_out:
  assumes "client_await cr psk h r skew req s = (res, s')" shows "extends_out s s'"
proof -
  obtain p s1 f s2 where f: "receive_preamble s = (p, s1)" "receive_plain_frame s1 = (f, s2)" by fastforce
  have "s' = s1 \<or> s' = s2 \<or> extends_out s2 s'"
    using assms f by (auto simp: client_await_def Let_def split: option.splits if_splits dest: client_finish_out)
  then show ?thesis
    using io_extends(2) [OF f(1)] io_extends(1) [OF f(2)] by (auto intro: extends_out_trans)
qed

text \<open>
  C11. Over an intact connection the handshake completes, and both ends hold the same session. Take
  a client and a server that share a key, whose random bytes, clocks and identities pass the
  checks of the code, and whose replay protector has not seen this hello. Whatever the blocks
  are in which the network delivers the bytes and however the sends are split: if each end
  receives exactly what the other one handed to its socket, both return a session with the same
  session key, client identity and key id, with opposite roles, and encrypted exactly when both
  ends asked for it.
\<close>

theorem handshake_completes:
  assumes c: "client_handshake cr i k psk now_c skew req (Some n) idr cs = (rc, cs')"
    and s: "server_handshake cr resolver now_s allow (Some m) rp ss = (rs, rp', ss')"
    and "digests cr" "usable_key psk" "resolver i k = Some psk" "random_request_id idr \<noteq> 0"
    and h: "good_hello \<lparr>hello_client_id = i, hello_client_nonce = n, hello_time = now_c, hello_key_id = k\<rparr>"
    and ch: "good_challenge \<lparr>chal_server_nonce = m, chal_time = now_s\<rparr>"
    and "time_is_valid now_s now_c skew"
    and "fst (replay_accept \<lparr>hello_client_id = i, hello_client_nonce = n, hello_time = now_c, hello_key_id = k\<rparr> now_s rp)"
    and "live cs" "roomy 172 cs" "sock_out cs = []" "live ss" "roomy 152 ss" "sock_out ss = []"
    and "stream ss = sock_out cs'" "stream cs = sock_out ss'"
  shows "\<exists>key. length key = 32 \<and>
    rc = Some \<lparr>session_key = key, session_client_id = i, session_key_id = k, session_aead = (req \<and> allow),
      session_role = role_client\<rparr> \<and>
    rs = Some \<lparr>session_key = key, session_client_id = i, session_key_id = k, session_aead = (req \<and> allow),
      session_role = role_server\<rparr>"
proof -
  define h where "h = \<lparr>hello_client_id = i, hello_client_nonce = n, hello_time = now_c, hello_key_id = k\<rparr>"
  define chal where "chal = \<lparr>chal_server_nonce = m, chal_time = now_s\<rparr>"
  define r where "r = random_request_id idr"
  have gh: "good_hello h" and gc: "good_challenge chal" using h ch by (simp_all add: h_def chal_def)
  obtain cproof where pr: "compute_client_proof (crypto_hmac cr) psk h chal = Some cproof" "length cproof = 32"
    using proofs_exist(1) [OF assms(3,4) gh gc] by blast
  obtain key where key: "derive_session_key (crypto_hmac cr) psk h chal = Some key" "length key = 32"
    using proofs_exist(2) [OF assms(3,4) gh gc] by blast
  obtain accept where acc: "compute_server_proof (crypto_hmac cr) key h chal = Some accept" "length accept = 32"
    using proofs_exist(3) [OF assms(3) session_key_usable [OF key(2)] gh gc] by blast
  let ?pf = "frame_wire (plain_frame auth_proof_type r cproof)" and ?af = "frame_wire (plain_frame auth_accept_type r accept)"
  from client_starts [of i n now_c k idr r cs cr psk skew req] h assms(6,12) obtain c1 where
    c1: "client_await cr psk h r skew req c1 = (rc, cs')" "roomy 56 c1"
      "sock_out c1 = client_flight (aead_flag req) r h" "sock_rx c1 = sock_rx cs"
    using c assms(13) by (auto simp: h_def r_def)
  have lc1: "live c1" "stream c1 = stream cs"
    using live_cong [of c1 cs] c1(4) roomy_open [OF c1(2)] \<open>live cs\<close> by (auto simp: live_def)
  obtain more where more: "sock_out cs' = client_flight (aead_flag req) r h @ more"
    using client_await_out [OF c1(1)] c1(3) by (auto simp: extends_out_def)
  have res: "resolver (hello_client_id h) (hello_key_id h) = Some psk" using assms(5) by (simp add: h_def)
  from server_starts [where resolver = resolver and h = h and n = m and now = now_s and req = req and r = r and
      rest = more and cr = cr and allow = allow and rp = rp and s = ss, OF gh _ res assms(4,14,15)] gc more assms(17)
  obtain s1 where s1: "server_finish cr psk h chal r (allow \<and> req) now_s rp s1 = (rs, rp', ss')" "live s1" "roomy 56 s1"
    "stream s1 = more" "sock_out s1 = server_flight (aead_flag (allow \<and> req)) r chal"
    using s assms(16) by (auto simp: chal_def)
  obtain more2 where more2: "sock_out ss' = server_flight (aead_flag (allow \<and> req)) r chal @ more2"
    using server_finish_out [OF s1(1)] s1(5) by (auto simp: extends_out_def)
  have tv: "time_is_valid (chal_time chal) (hello_time h) skew" using assms(9) by (simp add: chal_def h_def)
  from client_continues [OF gc tv lc1(1), of "allow \<and> req" r more2 cr psk req] lc1(2) assms(18) more2 obtain c2 where
    c2: "client_finish cr psk h chal r (req \<and> allow \<and> req) c2 = (rc, cs')" "live c2" "stream c2 = more2" "same_sender c1 c2"
    using c1(1) by auto
  have "roomy 56 c2" using c1(2) roomy_same [OF c2(4)] by simp
  note cf = client_finishes [OF pr key(1) c2(2) this c2(1)]
  have "more = ?pf" using cf(1) same_senderD [OF c2(4)] c1(3) more by simp
  then have st: "stream s1 = ?pf @ []" using s1(4) by simp
  have fresh: "fst (replay_accept h now_s rp)" using assms(10) by (simp add: h_def)
  from server_finishes [OF pr key(1) acc s1(2,3) st fresh, of "allow \<and> req"] s1(1,5)
  have rs: "rs = Some \<lparr>session_key = key, session_client_id = i, session_key_id = k, session_aead = (allow \<and> req),
      session_role = role_server\<rparr>" and "sock_out ss' = server_flight (aead_flag (allow \<and> req)) r chal @ ?af"
    by (auto simp: h_def)
  with more2 have "more2 = ?af" by simp
  with cf(2) [of accept] c2(3) acc have "rc = Some \<lparr>session_key = key, session_client_id = i, session_key_id = k,
      session_aead = (req \<and> allow \<and> req), session_role = role_client\<rparr>" by (simp add: h_def)
  with rs key(2) show ?thesis by auto
qed

text \<open>What the two ends of a concrete run hand to their sockets.\<close>

lemma client_output:
  assumes hd: "h = \<lparr>hello_client_id = i, hello_client_nonce = n, hello_time = now, hello_key_id = k\<rparr>"
    and h: "good_hello h"
    and "good_challenge c" "digests cr" "usable_key psk"
    and "random_request_id idr = r" "r \<noteq> 0" "time_is_valid (chal_time c) now skew" "live s" "roomy 172 s"
    and "stream s = server_flight (aead_flag a) r c @ rest"
    and "compute_client_proof (crypto_hmac cr) psk h c = Some cproof"
  shows "sock_out (snd (client_handshake cr i k psk now skew req (Some n) idr s)) =
    sock_out s @ client_flight (aead_flag req) r h @ frame_wire (plain_frame auth_proof_type r cproof)"
proof -
  from client_starts [OF h [unfolded hd] assms(6,7,10), of cr psk skew req] obtain s1 where
    s1: "client_handshake cr i k psk now skew req (Some n) idr s = client_await cr psk h r skew req s1"
      "roomy 56 s1" "sock_out s1 = sock_out s @ client_flight (aead_flag req) r h" "sock_rx s1 = sock_rx s" by (auto simp: hd)
  have l: "live s1" "stream s1 = stream s"
    using live_cong [of s1 s] s1(4) roomy_open [OF s1(2)] assms(9) by (auto simp: live_def)
  have "time_is_valid (chal_time c) (hello_time h) skew" using assms(8) by (simp add: hd)
  from client_continues [OF assms(3) this l(1), of a r rest cr psk req] l(2) assms(11) obtain s2 where
    s2: "client_await cr psk h r skew req s1 = client_finish cr psk h c r (req \<and> a) s2" "live s2" "same_sender s1 s2"
    by auto
  obtain res s' where f: "client_finish cr psk h c r (req \<and> a) s2 = (res, s')" by fastforce
  obtain key where key: "derive_session_key (crypto_hmac cr) psk h c = Some key"
    using proofs_exist(2) [OF assms(4,5) h assms(3)] by blast
  have len: "length cproof = 32" using proofs_exist(1) [OF assms(4,5) h assms(3)] assms(12) by auto
  have "roomy 56 s2" using s1(2) roomy_same [OF s2(3)] by simp
  from client_finishes(1) [OF assms(12) len key s2(2) this f] show ?thesis
    using s1(1,3) s2(1) f same_senderD [OF s2(3)] by simp
qed

lemma server_output:
  assumes cd: "c = \<lparr>chal_server_nonce = n, chal_time = now\<rparr>" and "good_hello h" "good_challenge c"
    and "resolver (hello_client_id h) (hello_key_id h) = Some psk" "digests cr" "usable_key psk"
    and "live s" "roomy 152 s" "fst (replay_accept h now rp)"
    and pr: "compute_client_proof (crypto_hmac cr) psk h c = Some cproof"
    and key: "derive_session_key (crypto_hmac cr) psk h c = Some key"
    and acc: "compute_server_proof (crypto_hmac cr) key h c = Some accept"
    and "stream s = client_flight (aead_flag req) r h @ frame_wire (plain_frame auth_proof_type r cproof)"
  shows "sock_out (snd (snd (server_handshake cr resolver now allow (Some n) rp s))) =
    sock_out s @ server_flight (aead_flag (allow \<and> req)) r c @ frame_wire (plain_frame auth_accept_type r accept)"
proof -
  have "length key = 32" using proofs_exist(2) [OF assms(5,6,2,3)] key by auto
  then have len: "length cproof = 32" "length accept = 32"
    using proofs_exist(1) [OF assms(5,6,2,3)] pr proofs_exist(3) [OF assms(5) session_key_usable assms(2,3), of key] acc
    by auto
  from server_starts [where resolver = resolver and h = h and n = n and now = now and req = req and r = r and
      rest = "frame_wire (plain_frame auth_proof_type r cproof)" and cr = cr and allow = allow and rp = rp and s = s,
      OF assms(2) _ assms(4,6,7,8)] assms(3,13) obtain s1 where
    s1: "server_handshake cr resolver now allow (Some n) rp s = server_finish cr psk h c r (allow \<and> req) now rp s1"
      "live s1" "roomy 56 s1" "stream s1 = frame_wire (plain_frame auth_proof_type r cproof)"
      "sock_out s1 = sock_out s @ server_flight (aead_flag (allow \<and> req)) r c" by (auto simp: cd)
  from server_finishes [OF pr len(1) key acc len(2) s1(2,3), of r "[]" now rp "allow \<and> req"] s1 assms(9)
  show ?thesis by auto
qed

definition demo_crypto :: crypto where
  "demo_crypto = \<lparr>crypto_hmac = const_mac, gcm_encrypt = (\<lambda>k n a p. Some (p, replicate 16 0)),
     gcm_decrypt = (\<lambda>k n a c t. if t = replicate 16 0 then Some c else None)\<rparr>"

definition demo_peer :: "bytes \<Rightarrow> tcp_socket" where
  "demo_peer rx = \<lparr>sock_open = True, sock_rx = [rx], sock_reset = False, sock_room = replicate 172 3, sock_out = []\<rparr>"

abbreviation demo_psk :: bytes where "demo_psk \<equiv> replicate 32 9"
abbreviation demo_digest :: bytes where "demo_digest \<equiv> replicate 32 7"
abbreviation demo_id :: "bytes option" where "demo_id \<equiv> Some [5, 0, 0, 0, 0, 0, 0, 0]"

definition demo_client_socket :: tcp_socket where
  "demo_client_socket = demo_peer (server_flight kPreambleFlagAead 5 demo_challenge @
     frame_wire (plain_frame auth_accept_type 5 demo_digest))"

definition demo_server_socket :: tcp_socket where
  "demo_server_socket = demo_peer (client_flight kPreambleFlagAead 5 demo_hello @
     frame_wire (plain_frame auth_proof_type 5 demo_digest))"

lemma demo_peer_simps [simp]:
  "rx \<noteq> [] \<Longrightarrow> live (demo_peer rx)" "stream (demo_peer rx) = rx" "sock_out (demo_peer rx) = []"
  "n \<le> 172 \<Longrightarrow> roomy n (demo_peer rx)"
  by (simp_all add: demo_peer_def live_def stream_def roomy_def)

lemma demo_parties:
  "digests demo_crypto" "usable_key demo_psk" "good_hello demo_hello" "good_challenge demo_challenge"
  "random_request_id demo_id = 5" "time_is_valid 1000 1000 120"
  by (simp_all add: digests_def demo_crypto_def const_mac_def usable_key_def good_hello_def good_challenge_def
      demo_hello_def demo_challenge_def hello_wf_def challenge_wf_def validate_auth_hello_def
      validate_auth_challenge_def non_zero_def list_ex_iff random_request_id_def le_loop_Cons time_is_valid_def)

lemma demo_transcript:
  "compute_client_proof (crypto_hmac demo_crypto) demo_psk demo_hello demo_challenge = Some demo_digest"
  "derive_session_key (crypto_hmac demo_crypto) demo_psk demo_hello demo_challenge = Some demo_digest"
  "compute_server_proof (crypto_hmac demo_crypto) demo_digest demo_hello demo_challenge = Some demo_digest"
  using transcript_length [OF demo_parties(3,4)] demo_parties(3,4)
  by (simp_all add: compute_client_proof_def derive_session_key_def compute_server_proof_def hmac_sha256_def
      good_hello_def good_challenge_def demo_crypto_def const_mac_def)

lemma demo_fresh: "fst (replay_accept demo_hello 1000 (make_replay_protector 4 120))"
  by (simp add: replay_accept_def demo_hello_def validate_auth_hello_def non_zero_def list_ex_iff
      make_replay_protector_def Let_def)

abbreviation demo_client :: "authenticated_session option \<times> tcp_socket" where
  "demo_client \<equiv> client_handshake demo_crypto (replicate 16 1) 1 demo_psk 1000 120 True (Some (replicate 32 2))
     demo_id demo_client_socket"

abbreviation demo_server :: "authenticated_session option \<times> replay_protector \<times> tcp_socket" where
  "demo_server \<equiv> server_handshake demo_crypto (\<lambda>i k. Some demo_psk) 1000 True (Some (replicate 32 3))
     (make_replay_protector 4 120) demo_server_socket"

lemma frame_wire_nonempty: "length b \<le> 65536 \<Longrightarrow> frame_wire (plain_frame t r b) \<noteq> []"
  using frame_wire_length [OF plain_frame_ok, of b t r] by auto

lemma demo_sockets:
  "live demo_client_socket" "roomy 172 demo_client_socket" "sock_out demo_client_socket = []"
  "live demo_server_socket" "roomy 152 demo_server_socket" "sock_out demo_server_socket = []"
  "stream demo_client_socket = server_flight (aead_flag True) 5 demo_challenge @
     frame_wire (plain_frame auth_accept_type 5 demo_digest)"
  "stream demo_server_socket = client_flight (aead_flag True) 5 demo_hello @
     frame_wire (plain_frame auth_proof_type 5 demo_digest)"
  using frame_wire_nonempty [of demo_digest]
  by (simp_all add: demo_client_socket_def demo_server_socket_def)

lemma demo_outputs:
  "sock_out (snd demo_client) = stream demo_server_socket"
  "sock_out (snd (snd demo_server)) = stream demo_client_socket"
proof -
  have h: "demo_hello = \<lparr>hello_client_id = replicate 16 1, hello_client_nonce = replicate 32 2,
      hello_time = 1000, hello_key_id = 1\<rparr>" by (simp add: demo_hello_def)
  have c: "demo_challenge = \<lparr>chal_server_nonce = replicate 32 3, chal_time = 1000\<rparr>" by (simp add: demo_challenge_def)
  have t: "time_is_valid (chal_time demo_challenge) 1000 120" using demo_parties(6) by (simp add: demo_challenge_def)
  show "sock_out (snd demo_client) = stream demo_server_socket"
    using client_output [OF h demo_parties(3,4,1,2,5) _ t demo_sockets(1,2,7) demo_transcript(1), of True] demo_sockets(3,8)
    by simp
  show "sock_out (snd (snd demo_server)) = stream demo_client_socket"
    using server_output [OF c demo_parties(3,4) _ demo_parties(1,2) demo_sockets(4,5) demo_fresh demo_transcript
        demo_sockets(8), of "\<lambda>i k. Some demo_psk" True] demo_sockets(6,7) by simp
qed

theorem handshake_completes_witness:
  "\<exists>key. length key = 32 \<and>
    fst demo_client = Some \<lparr>session_key = key, session_client_id = replicate 16 1, session_key_id = 1,
      session_aead = True, session_role = role_client\<rparr> \<and>
    fst demo_server = Some \<lparr>session_key = key, session_client_id = replicate 16 1, session_key_id = 1,
      session_aead = True, session_role = role_server\<rparr>"
proof -
  obtain rc cs' where c: "demo_client = (rc, cs')" by fastforce
  obtain rs rp' ss' where s: "demo_server = (rs, rp', ss')" by (metis prod_cases3)
  have "\<exists>key. length key = 32 \<and>
    rc = Some \<lparr>session_key = key, session_client_id = replicate 16 1, session_key_id = 1,
      session_aead = (True \<and> True), session_role = role_client\<rparr> \<and>
    rs = Some \<lparr>session_key = key, session_client_id = replicate 16 1, session_key_id = 1,
      session_aead = (True \<and> True), session_role = role_server\<rparr>"
  proof (rule handshake_completes [OF c s])
    show "fst (replay_accept \<lparr>hello_client_id = replicate 16 1, hello_client_nonce = replicate 32 2,
        hello_time = 1000, hello_key_id = 1\<rparr> 1000 (make_replay_protector 4 120))"
      using demo_fresh by (simp add: demo_hello_def)
    show "stream demo_server_socket = sock_out cs'" "stream demo_client_socket = sock_out ss'"
      using demo_outputs c s by simp_all
    show "random_request_id demo_id \<noteq> 0" using demo_parties(5) by simp
  qed (use demo_parties demo_sockets in \<open>simp_all add: demo_hello_def demo_challenge_def\<close>)
  with c s show ?thesis by simp
qed

section \<open>What a session proves\<close>

text \<open>
  C8. A server session is a proof of possession. Whatever bytes arrive, in whatever blocks: when
  \<open>server_handshake\<close> returns a session, the peer had sent a client preamble, a hello with the
  same identity and key id, and a proof; the identity is enrolled with a key of at least 32
  bytes; the proof is the HMAC under that key of the transcript of this hello with the nonce
  this server has just drawn and its clock; the replay protector accepted the hello; and the
  session key is the one derived from that key and transcript.
\<close>

theorem server_session_authentic:
  assumes "server_handshake cr resolver now allow nonce_random rp s = (Some ses, rp', s')"
  shows "\<exists>nonce psk pre hello hello_frame proof_frame.
    nonce_random = Some nonce \<and> resolver (session_client_id ses) (session_key_id ses) = Some psk \<and>
    kMinimumProtocolKeyBytes \<le> length psk \<and>
    pre_role pre = role_client \<and> pre_identity pre = session_client_id ses \<and> pre_key_id pre = session_key_id ses \<and>
    decode_auth_hello (payload hello_frame) = Some hello \<and> validate_auth_hello hello \<and>
    hello_client_id hello = session_client_id ses \<and> hello_key_id hello = session_key_id ses \<and>
    stream s = encode_connection_preamble pre @ frame_wire hello_frame @ frame_wire proof_frame @ stream s' \<and>
    compute_client_proof (crypto_hmac cr) psk hello \<lparr>chal_server_nonce = nonce, chal_time = now\<rparr> = Some (payload proof_frame) \<and>
    derive_session_key (crypto_hmac cr) psk hello \<lparr>chal_server_nonce = nonce, chal_time = now\<rparr> = Some (session_key ses) \<and>
    replay_accept hello now rp = (True, rp') \<and>
    session_role ses = role_server \<and>
    session_aead ses = (allow \<and> pre_flags pre AND kPreambleFlagAead \<noteq> 0)"
proof -
  from assms obtain pre s1 hf s2 hello psk nonce s3 s4 where
    p: "receive_preamble s = (Some pre, s1)" "pre_role pre = role_client" and
    h: "receive_plain_frame s1 = (Some hf, s2)" "decode_auth_hello (payload hf) = Some hello" "validate_auth_hello hello"
      "hello_client_id hello = pre_identity pre" "hello_key_id hello = pre_key_id pre" and
    k: "resolver (hello_client_id hello) (hello_key_id hello) = Some psk" "32 \<le> length psk" "nonce_random = Some nonce" and
    io: "send_preamble role_server (replicate 16 0) 0 (aead_flag (allow \<and> pre_flags pre AND kPreambleFlagAead \<noteq> 0)) s2 = (True, s3)"
      "send_plain_frame auth_challenge_type (cmd_request_id (envelope hf))
         (encode_auth_challenge \<lparr>chal_server_nonce = nonce, chal_time = now\<rparr>) s3 = (True, s4)" and
    f: "server_finish cr psk hello \<lparr>chal_server_nonce = nonce, chal_time = now\<rparr> (cmd_request_id (envelope hf))
         (allow \<and> pre_flags pre AND kPreambleFlagAead \<noteq> 0) now rp s4 = (Some ses, rp', s')"
    by (auto simp: server_handshake_def Let_def split: prod.splits option.splits if_splits bool.splits)
  from f obtain pf s5 d where
    pf: "receive_plain_frame s4 = (Some pf, s5)"
      "compute_client_proof (crypto_hmac cr) psk hello \<lparr>chal_server_nonce = nonce, chal_time = now\<rparr> = Some (payload pf)"
      "derive_session_key (crypto_hmac cr) psk hello \<lparr>chal_server_nonce = nonce, chal_time = now\<rparr> = Some (session_key ses)"
      "replay_accept hello now rp = (True, rp')" and
    se: "session_client_id ses = hello_client_id hello" "session_key_id ses = hello_key_id hello"
      "session_role ses = role_server" "session_aead ses = (allow \<and> pre_flags pre AND kPreambleFlagAead \<noteq> 0)" and
    o: "send_plain_frame auth_accept_type (cmd_request_id (envelope hf)) d s5 = (True, s')"
    by (auto simp: server_finish_def constant_time_equal_iff split: prod.splits option.splits if_splits bool.splits)
  have "stream s3 = stream s2"
    using io(1) send_all_stream by (auto simp: send_preamble_def Let_def split: if_splits prod.splits)
  moreover have "stream s4 = stream s3" "stream s' = stream s5"
    using send_plain_out [OF io(2)] send_plain_out [OF o] by (auto simp: stream_def)
  ultimately have "stream s = encode_connection_preamble pre @ frame_wire hf @ frame_wire pf @ stream s'"
    using receive_preamble_sound [OF p(1)] receive_frame_sound [OF h(1)] receive_frame_sound [OF pf(1)] by simp
  then show ?thesis using p h k pf se by (simp del: append_assoc) blast
qed

lemma demo_server_session:
  "\<exists>rp' s'. demo_server = (Some \<lparr>session_key = demo_digest, session_client_id = replicate 16 1, session_key_id = 1,
     session_aead = True, session_role = role_server\<rparr>, rp', s')"
proof -
  let ?h = demo_hello and ?c = "\<lparr>chal_server_nonce = replicate 32 3, chal_time = 1000\<rparr>"
  have c: "?c = demo_challenge" by (simp add: demo_challenge_def)
  have "good_challenge ?c" using demo_parties(4) c by simp
  from server_starts [where resolver = "\<lambda>i k. Some demo_psk" and h = demo_hello and req = True and r = 5 and
      rest = "frame_wire (plain_frame auth_proof_type 5 demo_digest)" and cr = demo_crypto and allow = True and
      rp = "make_replay_protector 4 120" and s = demo_server_socket, OF demo_parties(3) this _ demo_parties(2)
      demo_sockets(4,5)] demo_sockets(8)
  obtain s1 where s1: "demo_server = server_finish demo_crypto demo_psk demo_hello demo_challenge 5 True 1000
      (make_replay_protector 4 120) s1" "live s1" "roomy 56 s1"
    "stream s1 = frame_wire (plain_frame auth_proof_type 5 demo_digest) @ []" by (auto simp: c)
  from server_finishes [OF demo_transcript(1) _ demo_transcript(2,3) _ s1(2-4) demo_fresh, of True]
  show ?thesis unfolding s1(1) by (auto simp: demo_hello_def)
qed

theorem server_session_authentic_witness:
  "\<exists>ses rp' s' psk pre hello hello_frame proof_frame.
    demo_server = (Some ses, rp', s') \<and> psk = demo_psk \<and> session_client_id ses = replicate 16 1 \<and>
    hello_client_id hello = session_client_id ses \<and>
    stream demo_server_socket = encode_connection_preamble pre @ frame_wire hello_frame @ frame_wire proof_frame @ stream s' \<and>
    compute_client_proof (crypto_hmac demo_crypto) psk hello \<lparr>chal_server_nonce = replicate 32 3, chal_time = 1000\<rparr> =
      Some (payload proof_frame) \<and>
    replay_accept hello 1000 (make_replay_protector 4 120) = (True, rp')"
proof -
  from demo_server_session obtain ses rp' s' where d: "demo_server = (Some ses, rp', s')"
    "session_client_id ses = replicate 16 1" by auto
  from server_session_authentic [OF d(1)] d show ?thesis by fastforce
qed

section \<open>Commands over a channel\<close>

definition gcm_works :: "crypto \<Rightarrow> bool" where
  "gcm_works cr \<longleftrightarrow> (\<forall>key nonce aad p ct tag. gcm_encrypt cr key nonce aad p = Some (ct, tag) \<longrightarrow>
     length tag = 16 \<and> gcm_decrypt cr key nonce aad ct tag = Some p)"

definition wrapped_frame :: "command_envelope \<Rightarrow> u64 \<Rightarrow> bytes \<Rightarrow> bytes \<Rightarrow> tcp_frame" where
  "wrapped_frame env q tag body =
     \<lparr>envelope = env\<lparr>cmd_payload_bytes := word_of_nat (24 + length body)\<rparr>, payload = append_le q @ tag @ body\<rparr>"

lemma normalize_outgoing [simp]:
  "normalize (outgoing_envelope (t, r, b)) b = outgoing_envelope (t, r, b)"
  by (simp add: normalize_def outgoing_envelope_def)

lemma outgoing_simps [simp]:
  "cmd_type (outgoing_envelope (t, r, b)) = t" "cmd_version (outgoing_envelope (t, r, b)) = kCommandVersion"
  by (simp_all add: outgoing_envelope_def)

lemma wrapped_size: "n \<le> 65512 \<Longrightarrow> unat (24 + word_of_nat n :: u32) = 24 + n"
  using body_length_u32 [of "24 + n"] by simp

lemma wrapped_frame_ok:
  assumes "length tag = 16" "length body \<le> 65512" "cmd_version env = kCommandVersion"
  shows "frame_ok (wrapped_frame env q tag body)" "wrap_command env q tag body = frame_wire (wrapped_frame env q tag body)"
  using assms by (simp_all add: frame_ok_def wrapped_frame_def wrap_command_def wrapped_size)

lemma le_loop_append_u64: "le_loop 0 0 (append_le (v :: u64)) = v"
  using read_le_u64 [of v "[]"] by (simp add: read_le_def)

lemma unwrap:
  assumes "length tag = 16" "length body \<le> 65512" "\<not> is_handshake_command (cmd_type env)"
  shows "\<not> wrapper_bad (wrapped_frame env q tag body)"
    and "le_loop 0 0 (take 8 (payload (wrapped_frame env q tag body))) = q"
    and "take 16 (drop 8 (payload (wrapped_frame env q tag body))) = tag"
    and "drop 24 (payload (wrapped_frame env q tag body)) = body"
  using assms by (simp_all add: wrapper_bad_def wrapped_frame_def wrapped_size le_loop_append_u64)

lemma rewrap: "(envelope (wrapped_frame (outgoing_envelope (t, r, b)) q tag x))\<lparr>cmd_payload_bytes := word_of_nat (length b)\<rparr> =
    outgoing_envelope (t, r, b)"
  by (simp add: wrapped_frame_def outgoing_envelope_def)

lemma encode_mac_frame:
  assumes "encode_authenticated_command cr key (outgoing_envelope (t, r, b)) q b \<noteq> []" (is "?w \<noteq> []") and "digests cr"
  shows "\<exists>f. ?w = frame_wire f \<and> frame_ok f \<and>
    decode_authenticated_command cr key f =
      Some \<lparr>ac_envelope = outgoing_envelope (t, r, b), ac_sequence = q, ac_payload = b\<rparr>"
proof -
  let ?env = "outgoing_envelope (t, r, b)"
  from assms(1) obtain tag where
    tag: "compute_control_auth_tag (crypto_hmac cr) key ?env q b = Some tag"
      "\<not> is_handshake_command t" "length b \<le> 65512" "?w = wrap_command ?env q tag b"
    by (auto simp: encode_authenticated_command_def Let_def split: if_splits option.splits)
  obtain d where d: "crypto_hmac cr key (control_message ?env q b) = Some d" "tag = take 16 d"
    using compute_control_auth_tag_Some [OF tag(1)] by blast
  have "\<exists>d. crypto_hmac cr key (control_message ?env q b) = Some d \<and> length d = 32"
    using assms(2) by (simp only: digests_def)
  then have len: "length tag = 16" using d by auto
  have "decode_authenticated_command cr key (wrapped_frame ?env q tag b) =
      Some \<lparr>ac_envelope = ?env, ac_sequence = q, ac_payload = b\<rparr>"
    using unwrap [OF len tag(3), of ?env q] tag(1,2) len rewrap [where t = t and r = r and b = b and q = q and tag = tag and x = b]
    by (simp add: decode_authenticated_command_def Let_def verify_control_auth_tag_iff)
  then show ?thesis
    using wrapped_frame_ok [OF len tag(3), of ?env q] tag(4) by (intro exI [of _ "wrapped_frame ?env q tag b"]) simp
qed

lemma encode_aead_frame:
  assumes "encode_authenticated_command_aead cr key iv (outgoing_envelope (t, r, b)) q b \<noteq> []" (is "?w \<noteq> []")
    and "gcm_works cr"
  shows "\<exists>f. ?w = frame_wire f \<and> frame_ok f \<and>
    decode_authenticated_command_aead cr key iv f =
      Some \<lparr>ac_envelope = outgoing_envelope (t, r, b), ac_sequence = q, ac_payload = b\<rparr>"
proof -
  let ?env = "outgoing_envelope (t, r, b)"
  from assms(1) obtain ct tag where
    enc: "gcm_encrypt cr key (construct_aead_nonce iv q) (make_aead_aad ?env q) b = Some (ct, tag)"
      "length key = 32" "length ct = length b" and
    tag: "\<not> is_handshake_command t" "length b \<le> 65512" "?w = wrap_command ?env q tag ct"
    by (auto simp: encode_authenticated_command_aead_def encrypt_aead_gcm_def Let_def split: if_splits option.splits)
  have dec: "length tag = 16" "gcm_decrypt cr key (construct_aead_nonce iv q) (make_aead_aad ?env q) ct tag = Some b"
    using enc(1) assms(2) by (simp_all add: gcm_works_def)
  have ct: "length ct \<le> 65512" using enc(3) tag(2) by simp
  have "decode_authenticated_command_aead cr key iv (wrapped_frame ?env q tag ct) =
      Some \<lparr>ac_envelope = ?env, ac_sequence = q, ac_payload = b\<rparr>"
    using unwrap [OF dec(1) ct, of ?env q] tag(1) dec enc(2,3) rewrap [where t = t and r = r and b = b and q = q and tag = tag and x = ct]
    by (simp add: decode_authenticated_command_aead_def decrypt_aead_gcm_def Let_def)
  then show ?thesis
    using wrapped_frame_ok [OF dec(1) ct, of ?env q] tag(3) by (intro exI [of _ "wrapped_frame ?env q tag ct"]) simp
qed

text \<open>One end sends what the other one reads: same keys for this direction, same next number.\<close>

definition linked :: "control_channel \<Rightarrow> control_channel \<Rightarrow> bool" where
  "linked c d \<longleftrightarrow> ch_aead c = ch_aead d \<and>
     (if ch_aead c then ch_send_key c = ch_receive_key d \<and> ch_send_iv c = ch_receive_iv d
      else ch_session_key c = ch_session_key d) \<and>
     next_expected (ch_receive_sequence d) = ch_send_sequence c \<and> \<not> exhausted (ch_receive_sequence d)"

lemma channel_encode_frame:
  assumes "channel_encode cr c (outgoing_envelope (t, r, b)) b \<noteq> []" "linked c d" "digests cr" "gcm_works cr"
  shows "\<exists>f. channel_encode cr c (outgoing_envelope (t, r, b)) b = frame_wire f \<and> frame_ok f \<and>
    channel_decode cr d f =
      Some \<lparr>ac_envelope = outgoing_envelope (t, r, b), ac_sequence = ch_send_sequence c, ac_payload = b\<rparr>"
  using assms encode_aead_frame [of cr "ch_send_key c" "ch_send_iv c" t r b "ch_send_sequence c"]
    encode_mac_frame [of cr "ch_session_key c" t r b "ch_send_sequence c"]
  by (auto simp: channel_encode_def channel_decode_def linked_def split: if_splits)

lemma send_impl_sent:
  assumes "send_impl cr t r b None c = Some (True, c')"
  shows "\<exists>wire s. channel_encode cr c (outgoing_envelope (t, r, b)) b = wire \<and> wire \<noteq> [] \<and>
    c' = advance_send (c\<lparr>ch_socket := s\<rparr>) \<and> sock_out s = sock_out (ch_socket c) @ wire"
proof -
  define wire where "wire = channel_encode cr c (outgoing_envelope (t, r, b)) b"
  from assms obtain sent s where s: "send_all wire (ch_socket c) = (sent, s)" "sent = int (length wire)"
    "c' = advance_send (c\<lparr>ch_socket := s\<rparr>)" "wire \<noteq> []"
    by (auto simp: send_impl_def Let_def wire_def outgoing_envelope_def split: if_splits prod.splits)
  have "sock_out s = sock_out (ch_socket c) @ wire"
    using send_all_cases [OF s(1)] s(2) by auto
  then show ?thesis using s wire_def by blast
qed

lemma channel_receive_frame:
  assumes "live (ch_socket d)" "stream (ch_socket d) = frame_wire f @ rest" "frame_ok f"
    and "channel_decode cr d f = Some m" "guard_accept (ac_sequence m) (ch_receive_sequence d) = (True, g)"
  shows "\<exists>s. channel_receive cr d = (Some m, d\<lparr>ch_socket := s, ch_receive_sequence := g\<rparr>) \<and> live s \<and> stream s = rest"
proof -
  from receive_frame_wire [OF assms(1,3,2)] obtain s where
    "receive_plain_frame (ch_socket d) = (Some f, s)" "live s" "stream s = rest" by blast
  then show ?thesis using assms(1,4,5) by (auto simp: channel_receive_def live_def Let_def)
qed

lemma linked_advance:
  assumes "linked c d" "guard_accept (ch_send_sequence c) (ch_receive_sequence d) = (True, g)" "ch_send_sequence c \<noteq> -1"
  shows "linked (advance_send (c\<lparr>ch_socket := s\<rparr>)) (d\<lparr>ch_socket := s', ch_receive_sequence := g\<rparr>)"
  using assms by (auto simp: linked_def advance_send_def guard_accept_def split: if_splits)

lemma send_run_Cons:
  assumes "send_run cr ((t, r, b) # cmds) c = Some c'"
  obtains s where "channel_encode cr c (outgoing_envelope (t, r, b)) b \<noteq> []"
    and "send_run cr cmds (advance_send (c\<lparr>ch_socket := s\<rparr>)) = Some c'"
    and "sock_out s = sock_out (ch_socket c) @ channel_encode cr c (outgoing_envelope (t, r, b)) b"
  using assms by (auto split: option.splits prod.splits bool.splits dest!: send_impl_sent)

lemma send_run_extends: "send_run cr cmds c = Some c' \<Longrightarrow> extends_out (ch_socket c) (ch_socket c')"
proof (induction cmds arbitrary: c)
  case (Cons o1 cmds)
  obtain t r b where o1: "o1 = (t, r, b)" by (cases o1)
  from send_run_Cons [OF Cons.prems [unfolded o1]] obtain s where
    s: "send_run cr cmds (advance_send (c\<lparr>ch_socket := s\<rparr>)) = Some c'"
      "sock_out s = sock_out (ch_socket c) @ channel_encode cr c (outgoing_envelope (t, r, b)) b" by blast
  have "extends_out (ch_socket c) (ch_socket (advance_send (c\<lparr>ch_socket := s\<rparr>)))"
    using s(2) by (simp add: extends_out_def advance_send_def)
  then show ?case using Cons.IH [OF s(1)] by (rule extends_out_trans)
qed (simp add: extends_out_refl)

lemma channel_run:
  assumes "digests cr" "gcm_works cr"
  shows "send_run cr cmds c = Some c' \<Longrightarrow> linked c d \<Longrightarrow>
    sock_out (ch_socket c') = sock_out (ch_socket c) @ out \<Longrightarrow>
    live (ch_socket d) \<Longrightarrow> stream (ch_socket d) = out @ rest \<Longrightarrow>
    unat (ch_send_sequence c) + length cmds < 2 ^ 64 \<Longrightarrow>
    fst (receive_calls cr (length cmds) d) = sent_commands (ch_send_sequence c) cmds \<and>
    stream (ch_socket (snd (receive_calls cr (length cmds) d))) = rest"
proof (induction cmds arbitrary: c d out)
  case Nil
  then show ?case by simp
next
  case (Cons o1 cmds)
  obtain t r b where o1: "o1 = (t, r, b)" by (cases o1)
  from send_run_Cons [OF Cons.prems(1) [unfolded o1]] obtain s where
    s: "channel_encode cr c (outgoing_envelope (t, r, b)) b \<noteq> []"
      "send_run cr cmds (advance_send (c\<lparr>ch_socket := s\<rparr>)) = Some c'"
      "sock_out s = sock_out (ch_socket c) @ channel_encode cr c (outgoing_envelope (t, r, b)) b" by blast
  let ?c = "advance_send (c\<lparr>ch_socket := s\<rparr>)"
  from channel_encode_frame [OF s(1) Cons.prems(2) assms] obtain f where
    f: "channel_encode cr c (outgoing_envelope (t, r, b)) b = frame_wire f" "frame_ok f"
    "channel_decode cr d f =
      Some \<lparr>ac_envelope = outgoing_envelope (t, r, b), ac_sequence = ch_send_sequence c, ac_payload = b\<rparr>" by blast
  have sock: "ch_socket ?c = s" by (simp add: advance_send_def)
  obtain out2 where out2: "sock_out (ch_socket c') = sock_out (ch_socket ?c) @ out2"
    using send_run_extends [OF s(2)] by (auto simp: extends_out_def)
  have out: "out = frame_wire f @ out2" using Cons.prems(3) s(3) sock out2 f(1) by simp
  have seq: "ch_send_sequence c \<noteq> -1" using Cons.prems(6) by (auto simp: unat_max_u64)
  define g where "g = (ch_receive_sequence d)\<lparr>next_expected := ch_send_sequence c + 1\<rparr>"
  have g: "guard_accept (ch_send_sequence c) (ch_receive_sequence d) = (True, g)"
    using Cons.prems(2) seq by (simp add: guard_accept_def linked_def g_def)
  from channel_receive_frame [OF Cons.prems(4) _ f(2,3), of "out2 @ rest" g] g Cons.prems(5) out obtain s' where
    s': "channel_receive cr d =
      (Some \<lparr>ac_envelope = outgoing_envelope (t, r, b), ac_sequence = ch_send_sequence c, ac_payload = b\<rparr>,
       d\<lparr>ch_socket := s', ch_receive_sequence := g\<rparr>)" "live s'" "stream s' = out2 @ rest" by auto
  let ?d = "d\<lparr>ch_socket := s', ch_receive_sequence := g\<rparr>"
  have next_seq: "ch_send_sequence ?c = ch_send_sequence c + 1" using seq by (simp add: advance_send_def)
  have "unat (ch_send_sequence c + 1) = unat (ch_send_sequence c) + 1"
    using Cons.prems(6) by (simp add: unat_word_ariths)
  then have "fst (receive_calls cr (length cmds) ?d) = sent_commands (ch_send_sequence ?c) cmds \<and>
    stream (ch_socket (snd (receive_calls cr (length cmds) ?d))) = rest"
    using Cons.IH [OF s(2) linked_advance [OF Cons.prems(2) g seq, of s s'] out2] s'(2,3) Cons.prems(6) next_seq
    by simp
  then show ?case using s'(1) next_seq by (cases "receive_calls cr (length cmds) ?d") (simp add: o1)
qed

lemma session_channels_linked:
  assumes "(ra, rb) = (role_client, role_server) \<or> (ra, rb) = (role_server, role_client)"
  shows "linked (session_channel cr s (ses\<lparr>session_role := ra\<rparr>)) (session_channel cr s' (ses\<lparr>session_role := rb\<rparr>))"
    and "ch_send_sequence (session_channel cr s (ses\<lparr>session_role := ra\<rparr>)) = 0"
    and "ch_socket (session_channel cr s (ses\<lparr>session_role := ra\<rparr>)) = s"
  using assms by (auto simp: linked_def session_channel_def new_channel_def Let_def split: option.splits)

text \<open>
  C9. Commands arrive unaltered, once and in order. Take the two channels that the ends of one
  session build, in either direction, encrypted or not. Whatever commands one end sends
  successfully (fewer than 2^64), and in whatever blocks their bytes reach the other end:
  receiving as often returns exactly these commands, with their types, request ids and
  payloads, numbered from 0, and leaves exactly the bytes that follow.
\<close>

theorem channel_delivers:
  assumes "digests cr" "gcm_works cr"
    and "(ra, rb) = (role_client, role_server) \<or> (ra, rb) = (role_server, role_client)"
    and "send_run cr cmds (session_channel cr s (ses\<lparr>session_role := ra\<rparr>)) = Some c'"
    and "sock_out (ch_socket c') = sock_out s @ out"
    and "live s'" "stream s' = out @ rest" "length cmds < 2 ^ 64"
  shows "fst (receive_calls cr (length cmds) (session_channel cr s' (ses\<lparr>session_role := rb\<rparr>))) = sent_commands 0 cmds \<and>
    stream (ch_socket (snd (receive_calls cr (length cmds) (session_channel cr s' (ses\<lparr>session_role := rb\<rparr>))))) = rest"
proof -
  have swap: "(rb, ra) = (role_client, role_server) \<or> (rb, ra) = (role_server, role_client)" using assms(3) by auto
  note l = session_channels_linked [OF assms(3)] and l' = session_channels_linked(3) [OF swap]
  show ?thesis
    using channel_run [OF assms(1,2,4) l(1) [where s' = s'], where out = out and rest = rest] assms(5-8)
    by (simp add: l(2,3) l')
qed

lemma const_gcm_works: "gcm_works demo_crypto"
  by (simp add: gcm_works_def demo_crypto_def)

definition demo_session :: authenticated_session where
  "demo_session = \<lparr>session_key = demo_digest, session_client_id = replicate 16 1, session_key_id = 1,
     session_aead = True, session_role = role_client\<rparr>"

abbreviation demo_commands :: "outgoing list" where
  "demo_commands \<equiv> [(3, 1, [4])]"

lemma demo_channel:
  "session_channel demo_crypto s (demo_session\<lparr>session_role := role_client\<rparr>) =
     (new_channel s demo_digest)\<lparr>ch_aead := True, ch_send_key := demo_digest, ch_send_iv := replicate 12 7,
       ch_receive_key := demo_digest, ch_receive_iv := replicate 12 7\<rparr>"
  by (simp add: session_channel_def demo_session_def derive_aead_session_keys_def demo_crypto_def const_mac_def
      hmac_sha256_def ascii_def new_channel_def)

lemma demo_encrypt:
  "length key = 32 \<Longrightarrow> encrypt_aead_gcm demo_crypto key nonce aad b = Some (b, replicate 16 0)"
  by (simp add: encrypt_aead_gcm_def demo_crypto_def)

lemma plain_type: "\<not> is_handshake_command 3"
  by (simp add: is_handshake_command_def auth_hello_type_def auth_challenge_type_def auth_proof_type_def auth_accept_type_def)

theorem channel_delivers_witness:
  "\<exists>c' out. send_run demo_crypto demo_commands (session_channel demo_crypto (demo_peer []) demo_session) = Some c' \<and>
     sock_out (ch_socket c') = out \<and> out \<noteq> [] \<and>
     fst (receive_calls demo_crypto 1 (session_channel demo_crypto (demo_peer out) (demo_session\<lparr>session_role := role_server\<rparr>))) =
       sent_commands 0 demo_commands"
proof -
  let ?c = "session_channel demo_crypto (demo_peer []) (demo_session\<lparr>session_role := role_client\<rparr>)"
  let ?w = "channel_encode demo_crypto ?c (outgoing_envelope (3, 1, [4])) [4]"
  have w: "?w = wrap_command (outgoing_envelope (3, 1, [4])) 0 (replicate 16 0) [4]"
    using demo_channel [of "demo_peer []"] plain_type
    by (simp add: channel_encode_def encode_authenticated_command_aead_def new_channel_def demo_encrypt)
  have "length ?w = 49"
    using wrapped_frame_ok [of "replicate 16 0" "[4]" "outgoing_envelope (3, 1, [4])" 0]
      frame_wire_length [of "wrapped_frame (outgoing_envelope (3, 1, [4])) 0 (replicate 16 0) [4]"] w
    by (simp add: wrapped_frame_def)
  then obtain s where s: "send_all ?w (demo_peer []) = (49, s)" "sock_out s = ?w"
    using send_all_roomy [of 49 0 "demo_peer []" ?w] by auto
  have run: "send_run demo_crypto demo_commands ?c = Some (advance_send (?c\<lparr>ch_socket := s\<rparr>))"
    using demo_channel [of "demo_peer []"] plain_type s(1) \<open>length ?w = 49\<close>
    by (auto simp: send_impl_def Let_def new_channel_def outgoing_envelope_def demo_peer_def)
  have "?w \<noteq> []" using \<open>length ?w = 49\<close> by auto
  moreover have "sock_out (ch_socket (advance_send (?c\<lparr>ch_socket := s\<rparr>))) = sock_out (demo_peer []) @ ?w"
    using s(2) by (simp add: advance_send_def)
  ultimately have "fst (receive_calls demo_crypto (length demo_commands) (session_channel demo_crypto (demo_peer ?w)
      (demo_session\<lparr>session_role := role_server\<rparr>))) = sent_commands 0 demo_commands"
    using channel_delivers [OF demo_parties(1) const_gcm_works _ run, of role_server ?w "demo_peer ?w" "[]"] by simp
  moreover have "demo_session\<lparr>session_role := role_client\<rparr> = demo_session" by (simp add: demo_session_def)
  ultimately show ?thesis using run s(2) \<open>?w \<noteq> []\<close> by (auto simp: advance_send_def)
qed

section \<open>Nonces\<close>

lemma byte_of_sequence: "i < 8 \<Longrightarrow> j < 8 \<Longrightarrow> bit (ucast (drop_bit (8 * i) (q :: u64) AND 0xff) :: u8) j = bit q (8 * i + j)"
  by (simp add: ucast_and_255 bit_simps)

lemma xor_right_cancel: "(a XOR b = a XOR c) = (b = (c :: 'a::len word))"
  by (metis xor.assoc xor.left_neutral xor_self_eq)

lemma construct_aead_nonce_inj:
  assumes "construct_aead_nonce iv q = construct_aead_nonce iv q'"
  shows "q = q'"
proof (rule bit_word_eqI)
  fix n assume "n < LENGTH(64)"
  then have n: "n div 8 < 8" "n mod 8 < 8" "n = 8 * (n div 8) + n mod 8" by auto
  have "map (\<lambda>i. (iv ! (4 + i)) XOR ucast (drop_bit (8 * i) q AND 0xff)) [0..<8] =
      map (\<lambda>i. (iv ! (4 + i)) XOR ucast (drop_bit (8 * i) q' AND 0xff)) [0..<8]"
    using assms by (simp only: construct_aead_nonce_def append_same_eq same_append_eq)
  then have "(iv ! (4 + n div 8)) XOR ucast (drop_bit (8 * (n div 8)) q AND 0xff) =
      (iv ! (4 + n div 8)) XOR ucast (drop_bit (8 * (n div 8)) q' AND 0xff)"
    using n(1) by (metis (no_types, lifting) map_eq_conv set_upt atLeastLessThan_iff le0)
  then have "(ucast (drop_bit (8 * (n div 8)) q AND 0xff) :: u8) = ucast (drop_bit (8 * (n div 8)) q' AND 0xff)"
    by (simp only: xor_right_cancel)
  then show "bit q n = bit q' n"
    using byte_of_sequence [OF n(1,2), of q] byte_of_sequence [OF n(1,2), of q'] n(3) by metis
qed

lemma length_sent_commands [simp]: "length (sent_commands q cmds) = length cmds"
  by (induction cmds arbitrary: q) auto

lemma sent_commands_sequence:
  "i < length cmds \<Longrightarrow> ac_sequence (sent_commands q cmds ! i) = q + word_of_nat i"
proof (induction cmds arbitrary: q i)
  case (Cons o1 cmds)
  then show ?case by (cases i) (simp_all add: add.assoc)
qed simp

lemma sequence_index: "i < 2 ^ 64 \<Longrightarrow> unat (word_of_nat i :: u64) = i"
  by (simp add: unat_of_nat)

text \<open>The frames of successful sends of one direction never share a nonce.\<close>

lemma sent_nonces_distinct:
  assumes "length cmds < 2 ^ 64"
  shows "distinct (map (\<lambda>m. construct_aead_nonce iv (ac_sequence m)) (sent_commands 0 cmds))"
proof (simp add: distinct_conv_nth sent_commands_sequence, intro allI impI notI)
  fix i j assume i: "i < length cmds" "j < length cmds" "i \<noteq> j"
    and "construct_aead_nonce iv (word_of_nat i) = construct_aead_nonce iv (word_of_nat j)"
  then have "(word_of_nat i :: u64) = word_of_nat j" using construct_aead_nonce_inj by blast
  then show False using i assms sequence_index [of i] sequence_index [of j] by simp
qed

section \<open>A hostile stream\<close>

lemma channel_receive_cases:
  assumes "channel_receive cr d = (r, d')"
  shows "ch_aead d' = ch_aead d" "ch_receive_key d' = ch_receive_key d" "ch_receive_iv d' = ch_receive_iv d"
    and "r = None \<Longrightarrow> ch_receive_sequence d' = ch_receive_sequence d"
    and "r = Some m \<Longrightarrow> (\<exists>f. channel_decode cr d f = Some m) \<and>
      guard_accept (ac_sequence m) (ch_receive_sequence d) = (True, ch_receive_sequence d')"
  using assms
  by (auto simp: channel_receive_def Let_def guard_accept_def split: if_splits prod.splits option.splits)

lemma aad_inj: "make_aead_aad e q = make_aead_aad e' q' \<longleftrightarrow> e = e' \<and> q = q'"
  by (simp add: make_aead_aad_def)

text \<open>
  What the receiving end hands to the GCM primitive: nonce, associated data, ciphertext and tag of every frame
  it reads in a number of calls; and what the sending end got from it for a list of commands.
\<close>

type_synonym gcm_tuple = "bytes \<times> bytes \<times> bytes \<times> bytes"

definition frame_query :: "bytes \<Rightarrow> tcp_frame \<Rightarrow> gcm_tuple" where
  "frame_query iv f =
     (let q = le_loop 0 0 (take 8 (payload f)); ct = drop 24 (payload f);
          env = (envelope f)\<lparr>cmd_payload_bytes := word_of_nat (length ct)\<rparr>
      in (construct_aead_nonce iv q, make_aead_aad env q, ct, take 16 (drop 8 (payload f))))"

definition frame_read :: "control_channel \<Rightarrow> tcp_frame list" where
  "frame_read d = (if sock_open (ch_socket d)
     then case fst (receive_plain_frame (ch_socket d)) of None \<Rightarrow> [] | Some f \<Rightarrow> [f] else [])"

fun gcm_queries :: "crypto \<Rightarrow> nat \<Rightarrow> control_channel \<Rightarrow> gcm_tuple list" where
  "gcm_queries cr 0 d = []"
| "gcm_queries cr (Suc n) d =
     map (frame_query (ch_receive_iv d)) (frame_read d) @ gcm_queries cr n (snd (channel_receive cr d))"

definition sealed_command :: "crypto \<Rightarrow> control_channel \<Rightarrow> authenticated_command \<Rightarrow> gcm_tuple list" where
  "sealed_command cr c m =
     (let nonce = construct_aead_nonce (ch_send_iv c) (ac_sequence m);
          aad = make_aead_aad (ac_envelope m) (ac_sequence m)
      in case gcm_encrypt cr (ch_send_key c) nonce aad (ac_payload m) of
           None \<Rightarrow> [] | Some (ct, tag) \<Rightarrow> [(nonce, aad, ct, tag)])"

definition sealed :: "crypto \<Rightarrow> control_channel \<Rightarrow> outgoing list \<Rightarrow> gcm_tuple list" where
  "sealed cr c cmds = concat (map (sealed_command cr c) (sent_commands (ch_send_sequence c) cmds))"

definition opens :: "crypto \<Rightarrow> bytes \<Rightarrow> gcm_tuple \<Rightarrow> bool" where
  "opens cr key = (\<lambda>(nonce, aad, ct, tag). gcm_decrypt cr key nonce aad ct tag \<noteq> None)"

lemma sealed_in:
  assumes "(nonce, aad, ct, tag) \<in> set (sealed cr c cmds)"
  obtains m where "m \<in> set (sent_commands (ch_send_sequence c) cmds)" "aad = make_aead_aad (ac_envelope m) (ac_sequence m)"
    "gcm_encrypt cr (ch_send_key c) nonce aad (ac_payload m) = Some (ct, tag)"
  using assms by (auto simp: sealed_def sealed_command_def Let_def split: option.splits)

lemma channel_receive_from:
  assumes "channel_receive cr d = (Some m, d')"
  obtains f where "f \<in> set (frame_read d)" "channel_decode cr d f = Some m"
proof -
  obtain f s where "sock_open (ch_socket d)" "receive_plain_frame (ch_socket d) = (Some f, s)" "channel_decode cr d f = Some m"
    using assms by (auto simp: channel_receive_def Let_def split: if_splits prod.splits option.splits)
  then show thesis by (intro that [of f]) (simp_all add: frame_read_def)
qed

lemma decode_aead_issued:
  assumes "decode_authenticated_command_aead cr (ch_send_key c) iv f = Some m"
    and "opens cr (ch_send_key c) (frame_query iv f) \<Longrightarrow> frame_query iv f \<in> set (sealed cr c cmds)" and "gcm_works cr"
  shows "m \<in> set (sent_commands (ch_send_sequence c) cmds)"
proof -
  obtain n x t where q: "frame_query iv f = (n, make_aead_aad (ac_envelope m) (ac_sequence m), x, t)"
    "gcm_decrypt cr (ch_send_key c) n (make_aead_aad (ac_envelope m) (ac_sequence m)) x t = Some (ac_payload m)"
    using assms(1) that
    by (auto simp: decode_authenticated_command_aead_def decrypt_aead_gcm_def frame_query_def Let_def
        split: if_splits option.splits)
  then have "frame_query iv f \<in> set (sealed cr c cmds)" using assms(2) by (auto simp: opens_def)
  then obtain m' where m': "m' \<in> set (sent_commands (ch_send_sequence c) cmds)"
    "make_aead_aad (ac_envelope m) (ac_sequence m) = make_aead_aad (ac_envelope m') (ac_sequence m')"
    "gcm_encrypt cr (ch_send_key c) n (make_aead_aad (ac_envelope m) (ac_sequence m)) (ac_payload m') = Some (x, t)"
    unfolding q(1) by (rule sealed_in) blast
  then have "ac_payload m = ac_payload m'" using q(2) assms(3) unfolding gcm_works_def by (metis option.inject)
  then have "m = m'" using m'(2) by (simp add: aad_inj)
  then show ?thesis using m'(1) by simp
qed

lemma receive_calls_prefix:
  assumes "length cmds < 2 ^ 64" "gcm_works cr" "ch_send_sequence c = 0"
  shows "ch_aead d \<Longrightarrow> ch_receive_key d = ch_send_key c \<Longrightarrow> next_expected (ch_receive_sequence d) = word_of_nat k \<Longrightarrow>
    k \<le> length cmds \<Longrightarrow> \<forall>q \<in> set (gcm_queries cr n d). opens cr (ch_send_key c) q \<longrightarrow> q \<in> set (sealed cr c cmds) \<Longrightarrow>
    \<exists>j. fst (receive_calls cr n d) = take j (drop k (sent_commands 0 cmds))"
proof (induction n arbitrary: d k)
  case 0
  then show ?case by (intro exI [of _ 0]) simp
next
  case (Suc n)
  obtain r d' where r: "channel_receive cr d = (r, d')" by fastforce
  note c = channel_receive_cases [OF r]
  obtain ms d'' where ms: "receive_calls cr n d' = (ms, d'')" by fastforce
  have later: "\<forall>q \<in> set (gcm_queries cr n d'). opens cr (ch_send_key c) q \<longrightarrow> q \<in> set (sealed cr c cmds)"
    using Suc.prems(5) r by simp
  show ?case
  proof (cases r)
    case None
    with Suc.IH [of d' k] Suc.prems c(1,2,4) ms r later show ?thesis by simp
  next
    case (Some m)
    obtain f where f: "f \<in> set (frame_read d)" "channel_decode cr d f = Some m"
      using channel_receive_from r Some by metis
    have g: "guard_accept (ac_sequence m) (ch_receive_sequence d) = (True, ch_receive_sequence d')" using c(5) [OF Some] by blast
    have "decode_authenticated_command_aead cr (ch_send_key c) (ch_receive_iv d) f = Some m"
      using f(2) Suc.prems(1,2) by (simp add: channel_decode_def)
    then have "m \<in> set (sent_commands (ch_send_sequence c) cmds)"
      by (rule decode_aead_issued [OF _ _ assms(2)]) (use f(1) Suc.prems(5) in simp)
    then have "m \<in> set (sent_commands 0 cmds)" using assms(3) by simp
    then obtain i where i: "i < length cmds" "sent_commands 0 cmds ! i = m" by (auto simp: in_set_conv_nth)
    have "ac_sequence m = word_of_nat k"
      using g Suc.prems(3) by (auto simp: guard_accept_def split: if_splits)
    moreover have "ac_sequence m = word_of_nat i" using sent_commands_sequence [OF i(1), of 0] i(2) by simp
    ultimately have "(word_of_nat i :: u64) = word_of_nat k" by (simp only:)
    moreover have "i < 2 ^ 64" "k < 2 ^ 64"
      using less_trans [OF i(1) assms(1)] le_less_trans [OF Suc.prems(4) assms(1)] by (simp_all only:)
    ultimately have ik: "i = k" using sequence_index by metis
    have k: "k < 2 ^ 64 - 1" using ik i(1) assms(1) by simp
    then have "unat (next_expected (ch_receive_sequence d)) = k"
      unfolding Suc.prems(3) by (intro sequence_index) simp
    then have "next_expected (ch_receive_sequence d) \<noteq> -1" using k unat_max_u64 by (metis less_irrefl)
    then have "ch_receive_sequence d' = (ch_receive_sequence d)\<lparr>next_expected := word_of_nat k + 1\<rparr>"
      using g Suc.prems(3) by (auto simp: guard_accept_def split: if_splits)
    then have next_k: "next_expected (ch_receive_sequence d') = word_of_nat (Suc k)" by (simp add: add.commute)
    have "ch_aead d'" "ch_receive_key d' = ch_send_key c" using c(1,2) Suc.prems(1,2) by simp_all
    from Suc.IH [OF this next_k _ later] ik i(1) ms obtain j where j: "ms = take j (drop (Suc k) (sent_commands 0 cmds))" by auto
    have "drop k (sent_commands 0 cmds) = m # drop (Suc k) (sent_commands 0 cmds)"
      using i ik by (metis Cons_nth_drop_Suc length_sent_commands)
    then show ?thesis using r Some ms j by (intro exI [of _ "Suc j"]) simp
  qed
qed

text \<open>
  C10. On an encrypted channel an attacker can only cut the stream short. Take the two channels of one
  encrypted session and any commands one end seals, numbered from 0 (fewer than 2^64, and none
  sealed twice under a number, as after a send that failed half-way). Whatever bytes arrive at
  the other end in whatever blocks, and however often \<open>receive\<close> is called, also after rejected
  frames: if none of the frames that arrive is a forgery, that is, every tuple of nonce, associated
  data, ciphertext and tag read there that opens under the key is one that was sealed, then the
  commands returned are a prefix of the commands sealed, in order, none altered, repeated,
  reordered or left out before the last one.
\<close>

theorem aead_stream_prefix:
  assumes "(ra, rb) = (role_client, role_server) \<or> (ra, rb) = (role_server, role_client)"
    and "gcm_works cr" "ch_aead (session_channel cr s' (ses\<lparr>session_role := rb\<rparr>))" "length cmds < 2 ^ 64"
    and "\<forall>q \<in> set (gcm_queries cr n (session_channel cr s' (ses\<lparr>session_role := rb\<rparr>))).
      opens cr (ch_receive_key (session_channel cr s' (ses\<lparr>session_role := rb\<rparr>))) q \<longrightarrow>
      q \<in> set (sealed cr (session_channel cr s (ses\<lparr>session_role := ra\<rparr>)) cmds)"
  shows "\<exists>j. fst (receive_calls cr n (session_channel cr s' (ses\<lparr>session_role := rb\<rparr>))) = take j (sent_commands 0 cmds)"
proof -
  let ?c = "session_channel cr s (ses\<lparr>session_role := ra\<rparr>)" and ?d = "session_channel cr s' (ses\<lparr>session_role := rb\<rparr>)"
  note l = session_channels_linked(1) [OF assms(1), where s' = s'] session_channels_linked(2) [OF assms(1)]
  have seq: "ch_send_sequence ?c = 0" by (rule l(2))
  have "ch_receive_key ?d = ch_send_key ?c" "next_expected (ch_receive_sequence ?d) = word_of_nat 0"
    using l(1,2) assms(3) by (auto simp: linked_def)
  with receive_calls_prefix [OF assms(4,2) seq assms(3), of 0 n] assms(5) show ?thesis by simp
qed

text \<open>A cipher whose tag covers key, nonce, associated data and text. The attacker changes a byte of the second
  frame in transit and plays the first one again.\<close>

definition sum_tag :: "bytes \<Rightarrow> bytes" where
  "sum_tag bs = replicate 15 0 @ [sum_list bs]"

lemma sum_tag_simps [simp]:
  "length (sum_tag bs) = 16" "sum_tag (k @ n @ a @ b) = sum_tag (k @ n @ a @ c) \<longleftrightarrow> sum_list b = sum_list c"
  by (simp_all add: sum_tag_def)

definition sum_crypto :: crypto where
  "sum_crypto = \<lparr>crypto_hmac = const_mac, gcm_encrypt = (\<lambda>k n a p. Some (p, sum_tag (k @ n @ a @ p))),
     gcm_decrypt = (\<lambda>k n a c t. if t = sum_tag (k @ n @ a @ c) then Some c else None)\<rparr>"

abbreviation two_commands :: "outgoing list" where
  "two_commands \<equiv> [(3, 1, [4]), (3, 2, [6])]"

definition sum_frame :: "outgoing \<Rightarrow> u64 \<Rightarrow> bytes \<Rightarrow> tcp_frame" where
  "sum_frame cmd q body = wrapped_frame (outgoing_envelope cmd) q
     (sum_tag (demo_digest @ construct_aead_nonce (replicate 12 7) q @ make_aead_aad (outgoing_envelope cmd) q @ snd (snd cmd))) body"

definition attacked_stream :: bytes where
  "attacked_stream = frame_wire (sum_frame (3, 1, [4]) 0 [4]) @ frame_wire (sum_frame (3, 2, [6]) 1 [9]) @
     frame_wire (sum_frame (3, 1, [4]) 0 [4])"

abbreviation attacked_end :: control_channel where
  "attacked_end \<equiv> session_channel sum_crypto (demo_peer attacked_stream) (demo_session\<lparr>session_role := role_server\<rparr>)"

lemma sum_channel:
  "session_channel sum_crypto s (demo_session\<lparr>session_role := role_client\<rparr>) =
     (new_channel s demo_digest)\<lparr>ch_aead := True, ch_send_key := demo_digest, ch_send_iv := replicate 12 7,
       ch_receive_key := demo_digest, ch_receive_iv := replicate 12 7\<rparr>"
  "session_channel sum_crypto s (demo_session\<lparr>session_role := role_server\<rparr>) =
     (new_channel s demo_digest)\<lparr>ch_aead := True, ch_role := role_server, ch_send_key := demo_digest,
       ch_send_iv := replicate 12 7, ch_receive_key := demo_digest, ch_receive_iv := replicate 12 7\<rparr>"
  by (simp_all add: session_channel_def demo_session_def derive_aead_session_keys_def sum_crypto_def const_mac_def
      hmac_sha256_def ascii_def new_channel_def role_client_def role_server_def)

lemma sum_frame_facts:
  assumes "length body = length b" "length b \<le> 65512" "\<not> is_handshake_command t"
  shows "frame_ok (sum_frame (t, r, b) q body)"
    and "frame_query (replicate 12 7) (sum_frame (t, r, b) q body) =
      (construct_aead_nonce (replicate 12 7) q, make_aead_aad (outgoing_envelope (t, r, b)) q, body,
       sum_tag (demo_digest @ construct_aead_nonce (replicate 12 7) q @ make_aead_aad (outgoing_envelope (t, r, b)) q @ b))"
    and "decode_authenticated_command_aead sum_crypto demo_digest (replicate 12 7) (sum_frame (t, r, b) q body) =
      (if sum_list b = sum_list body
       then Some \<lparr>ac_envelope = outgoing_envelope (t, r, b), ac_sequence = q, ac_payload = body\<rparr> else None)"
proof -
  let ?tag = "sum_tag (demo_digest @ construct_aead_nonce (replicate 12 7) q @ make_aead_aad (outgoing_envelope (t, r, b)) q @ b)"
  have tag: "length ?tag = 16" by simp
  have body: "length body \<le> 65512" using assms by simp
  note u = unwrap [OF tag body, of "outgoing_envelope (t, r, b)" q] wrapped_frame_ok [OF tag body, of "outgoing_envelope (t, r, b)" q]
    rewrap [where t = t and r = r and b = b and q = q and tag = ?tag and x = body]
  show "frame_ok (sum_frame (t, r, b) q body)" using u by (simp add: sum_frame_def)
  show "frame_query (replicate 12 7) (sum_frame (t, r, b) q body) =
      (construct_aead_nonce (replicate 12 7) q, make_aead_aad (outgoing_envelope (t, r, b)) q, body, ?tag)"
    using u assms by (simp add: sum_frame_def frame_query_def Let_def)
  show "decode_authenticated_command_aead sum_crypto demo_digest (replicate 12 7) (sum_frame (t, r, b) q body) =
      (if sum_list b = sum_list body
       then Some \<lparr>ac_envelope = outgoing_envelope (t, r, b), ac_sequence = q, ac_payload = body\<rparr> else None)"
    using u assms
    by (simp add: sum_frame_def decode_authenticated_command_aead_def decrypt_aead_gcm_def sum_crypto_def Let_def)
qed

lemma receive_one:
  assumes "live (ch_socket d)" "stream (ch_socket d) = frame_wire f @ rest" "frame_ok f"
  obtains s where "frame_read d = [f]" "live s" "stream s = rest"
    "channel_receive cr d = (case channel_decode cr d f of None \<Rightarrow> (None, d\<lparr>ch_socket := s\<rparr>)
       | Some m \<Rightarrow> (case guard_accept (ac_sequence m) (ch_receive_sequence d) of
           (ok, g) \<Rightarrow> (if ok then Some m else None, d\<lparr>ch_socket := s, ch_receive_sequence := g\<rparr>)))"
proof -
  from receive_frame_wire [OF assms(1,3,2)] obtain s where
    "receive_plain_frame (ch_socket d) = (Some f, s)" "live s" "stream s = rest" by blast
  then show thesis using assms(1) that [of s]
    by (simp add: channel_receive_def frame_read_def live_def Let_def split: option.splits prod.splits)
qed

lemma attacked_run:
  "gcm_queries sum_crypto 3 attacked_end = map (frame_query (replicate 12 7))
     [sum_frame (3, 1, [4]) 0 [4], sum_frame (3, 2, [6]) 1 [9], sum_frame (3, 1, [4]) 0 [4]]"
  "fst (receive_calls sum_crypto 3 attacked_end) = take 1 (sent_commands 0 two_commands)"
proof -
  let ?f = "sum_frame (3, 1, [4]) 0 [4]" and ?g = "sum_frame (3, 2, [6]) 1 [9]"
  let ?m = "\<lparr>ac_envelope = outgoing_envelope (3, 1, [4]), ac_sequence = 0, ac_payload = [4 :: byte]\<rparr>"
  note first = sum_frame_facts [OF _ _ plain_type, of "[4]" "[4]" 1 0, simplified]
  note second = sum_frame_facts [OF _ _ plain_type, of "[9]" "[6]" 2 1, simplified]
  have wire: "frame_wire ?f \<noteq> []" using frame_wire_length [OF first(1)] by auto
  let ?d = "attacked_end"
  have live: "live (ch_socket ?d)" "stream (ch_socket ?d) = frame_wire ?f @ frame_wire ?g @ frame_wire ?f"
    using wire by (simp_all add: sum_channel new_channel_def attacked_stream_def)
  obtain s where s: "frame_read ?d = [?f]" "live s" "stream s = frame_wire ?g @ frame_wire ?f"
    "channel_receive sum_crypto ?d = (Some ?m, ?d\<lparr>ch_socket := s, ch_receive_sequence := \<lparr>next_expected = 1, exhausted = False\<rparr>\<rparr>)"
    by (rule receive_one [OF live first(1), where cr = sum_crypto])
      (simp add: sum_channel new_channel_def channel_decode_def first(3) guard_accept_def)
  let ?d1 = "?d\<lparr>ch_socket := s, ch_receive_sequence := \<lparr>next_expected = 1, exhausted = False\<rparr>\<rparr>"
  obtain s' where s': "frame_read ?d1 = [?g]" "live s'" "stream s' = frame_wire ?f"
    "channel_receive sum_crypto ?d1 = (None, ?d1\<lparr>ch_socket := s'\<rparr>)"
    by (rule receive_one [where d = ?d1 and f = ?g and rest = "frame_wire ?f" and cr = sum_crypto])
      (use s second in \<open>simp_all add: sum_channel new_channel_def channel_decode_def\<close>)
  let ?d2 = "?d1\<lparr>ch_socket := s'\<rparr>"
  obtain s'' where s'': "frame_read ?d2 = [?f]" "channel_receive sum_crypto ?d2 = (None, ?d2\<lparr>ch_socket := s''\<rparr>)"
    by (rule receive_one [where d = ?d2 and f = ?f and rest = "[]" and cr = sum_crypto])
      (use s' first in \<open>simp_all add: sum_channel new_channel_def channel_decode_def guard_accept_def\<close>)
  have iv: "ch_receive_iv ?d = replicate 12 7" by (simp add: sum_channel)
  show "gcm_queries sum_crypto 3 ?d = map (frame_query (replicate 12 7)) [?f, ?g, ?f]"
    using s s' s'' iv by (simp add: numeral_3_eq_3)
  show "fst (receive_calls sum_crypto 3 ?d) = take 1 (sent_commands 0 two_commands)"
    using s(4) s'(4) s''(2) by (simp add: numeral_3_eq_3)
qed

theorem aead_stream_prefix_witness:
  "(\<exists>j. fst (receive_calls sum_crypto 3 attacked_end) = take j (sent_commands 0 two_commands)) \<and>
   length (gcm_queries sum_crypto 3 attacked_end) = 3 \<and>
   fst (receive_calls sum_crypto 3 attacked_end) = take 1 (sent_commands 0 two_commands)"
proof -
  let ?c = "session_channel sum_crypto (demo_peer []) (demo_session\<lparr>session_role := role_client\<rparr>)"
  have "ch_aead attacked_end" by (simp add: sum_channel)
  moreover have "gcm_works sum_crypto" by (simp add: gcm_works_def sum_crypto_def)
  moreover have "\<forall>q \<in> set (gcm_queries sum_crypto 3 attacked_end).
      opens sum_crypto (ch_receive_key attacked_end) q \<longrightarrow> q \<in> set (sealed sum_crypto ?c two_commands)"
    unfolding attacked_run(1) unfolding sum_channel
    using sum_frame_facts(2) [OF _ _ plain_type, of "[4]" "[4]" 1 0] sum_frame_facts(2) [OF _ _ plain_type, of "[9]" "[6]" 2 1]
    by (simp add: opens_def sealed_def sealed_command_def sum_crypto_def new_channel_def Let_def)
  ultimately have "\<exists>j. fst (receive_calls sum_crypto 3 attacked_end) = take j (sent_commands 0 two_commands)"
    by (intro aead_stream_prefix [where ra = role_client and s = "demo_peer []"]) simp_all
  then show ?thesis using attacked_run by simp
qed

section \<open>A send that fails\<close>

lemma wrap_nonempty:
  assumes "length tag = 16" "length body \<le> 65512" "cmd_version env = kCommandVersion"
  shows "length (wrap_command env q tag body) = 48 + length body"
  using wrapped_frame_ok [OF assms] frame_wire_length [of "wrapped_frame env q tag body"] assms(1)
  by (simp add: wrapped_frame_def)

lemma channel_encode_aead:
  assumes "ch_aead c" "\<not> is_handshake_command t" "length b \<le> 65512"
    and "encrypt_aead_gcm cr (ch_send_key c) (construct_aead_nonce (ch_send_iv c) (ch_send_sequence c))
      (make_aead_aad (outgoing_envelope (t, r, b)) (ch_send_sequence c)) b = Some (ct, tag)"
  shows "channel_encode cr c (outgoing_envelope (t, r, b)) b =
    wrap_command (outgoing_envelope (t, r, b)) (ch_send_sequence c) tag ct"
  using assms by (simp add: channel_encode_def encode_authenticated_command_aead_def)

text \<open>
  C39. A failed send makes the next one reuse its nonce. Suppose an ordinary send (without deadline)
  on an encrypted channel gets some bytes out and then fails. The call returns false, but the
  channel stays open and its number does not move: the next send succeeds, and the bytes on the
  network are a prefix of one frame followed by a frame of another command, both sealed under
  the same key and the same nonce.
\<close>

theorem failed_send_reuses_nonce:
  assumes c: "ch_aead c" "sock_open (ch_socket c)" "\<not> ch_send_exhausted c"
    and t1: "\<not> is_handshake_command t1" "length b1 \<le> 65512" and t2: "\<not> is_handshake_command t2" "length b2 \<le> 65512"
    and e1: "encrypt_aead_gcm cr (ch_send_key c) (construct_aead_nonce (ch_send_iv c) (ch_send_sequence c))
      (make_aead_aad (outgoing_envelope (t1, r1, b1)) (ch_send_sequence c)) b1 = Some (ct1, tag1)" "length tag1 = 16"
    and e2: "encrypt_aead_gcm cr (ch_send_key c) (construct_aead_nonce (ch_send_iv c) (ch_send_sequence c))
      (make_aead_aad (outgoing_envelope (t2, r2, b2)) (ch_send_sequence c)) b2 = Some (ct2, tag2)" "length tag2 = 16"
    and room: "sock_room (ch_socket c) = k # 0 # room" "0 < k" "k < 48 + length ct1"
      "0 \<notin> set room" "48 + length ct2 \<le> length room"
  shows "\<exists>c1 c2. send_impl cr t1 r1 b1 None c = Some (False, c1) \<and> send_impl cr t2 r2 b2 None c1 = Some (True, c2) \<and>
    sock_out (ch_socket c2) = sock_out (ch_socket c) @
      take k (wrap_command (outgoing_envelope (t1, r1, b1)) (ch_send_sequence c) tag1 ct1) @
      wrap_command (outgoing_envelope (t2, r2, b2)) (ch_send_sequence c) tag2 ct2"
proof -
  let ?w1 = "wrap_command (outgoing_envelope (t1, r1, b1)) (ch_send_sequence c) tag1 ct1"
  let ?w2 = "wrap_command (outgoing_envelope (t2, r2, b2)) (ch_send_sequence c) tag2 ct2"
  have len: "length ct1 = length b1" "length ct2 = length b2"
    using e1(1) e2(1) by (auto simp: encrypt_aead_gcm_def split: if_splits option.splits)
  have w: "length ?w1 = 48 + length b1" "length ?w2 = 48 + length b2"
    using wrap_nonempty [OF e1(2), of ct1 "outgoing_envelope (t1, r1, b1)"] t1(2)
      wrap_nonempty [OF e2(2), of ct2 "outgoing_envelope (t2, r2, b2)"] t2(2) len by auto
  let ?s1 = "(ch_socket c)\<lparr>sock_room := room, sock_out := sock_out (ch_socket c) @ take k ?w1\<rparr>"
  have "send_all_loop ?w1 (k # 0 # room) = (take k ?w1, room, False)"
  proof (cases ?w1)
    case (Cons x xs)
    have "drop k (x # xs) \<noteq> []" using room(3) w(1) len(1) unfolding Cons [symmetric] by simp
    then obtain y ys where "drop k (x # xs) = y # ys" by (cases "drop k (x # xs)") auto
    then show ?thesis using room(2) unfolding Cons by simp
  qed (use w in simp)
  then have s1: "send_all ?w1 (ch_socket c) = (-1, ?s1)"
    using c(2) room(1) w(1) t1(2) by (simp add: send_all_def)
  let ?c1 = "c\<lparr>ch_socket := ?s1\<rparr>"
  have f: "send_impl cr t1 r1 b1 None c = Some (False, ?c1)"
    using c t1(1) s1 channel_encode_aead [OF c(1) t1 e1(1)] w(1)
    by (auto simp: send_impl_def Let_def outgoing_envelope_def)
  have "roomy (length ?w2 + 0) ?s1" using c(2) room(4,5) w(2) len(2) by (simp add: roomy_def)
  from send_all_roomy [OF this refl] w(2) t2(2) obtain s2 where
    s2: "send_all ?w2 ?s1 = (int (length ?w2), s2)" "sock_out s2 = sock_out ?s1 @ ?w2" by auto
  have enc2: "channel_encode cr ?c1 (outgoing_envelope (t2, r2, b2)) b2 = ?w2"
    using channel_encode_aead [OF c(1) t2 e2(1)] c(1) by (simp add: channel_encode_def)
  have "send_impl cr t2 r2 b2 None ?c1 = Some (True, advance_send (?c1\<lparr>ch_socket := s2\<rparr>))"
    using c t2(1) enc2 s2(1) w(2) by (auto simp: send_impl_def Let_def outgoing_envelope_def)
  then show ?thesis using f s2(2) by (intro exI conjI) (auto simp: advance_send_def)
qed

definition demo_broken :: control_channel where
  "demo_broken = session_channel demo_crypto ((demo_peer [])\<lparr>sock_room := 5 # 0 # replicate 60 1\<rparr>) demo_session"

theorem failed_send_reuses_nonce_witness:
  "\<exists>c1 c2. send_impl demo_crypto 3 1 [4] None demo_broken = Some (False, c1) \<and>
     send_impl demo_crypto 3 2 [6] None c1 = Some (True, c2) \<and>
     sock_out (ch_socket c2) = take 5 (wrap_command (outgoing_envelope (3, 1, [4])) 0 (replicate 16 0) [4]) @
       wrap_command (outgoing_envelope (3, 2, [6])) 0 (replicate 16 0) [6]"
proof -
  have b: "demo_broken = (new_channel ((demo_peer [])\<lparr>sock_room := 5 # 0 # replicate 60 1\<rparr>) demo_digest)
      \<lparr>ch_aead := True, ch_send_key := demo_digest, ch_send_iv := replicate 12 7,
       ch_receive_key := demo_digest, ch_receive_iv := replicate 12 7\<rparr>"
    using demo_channel by (simp add: demo_broken_def demo_session_def)
  show ?thesis
    using failed_send_reuses_nonce [of demo_broken 3 "[4]" 3 "[6]" demo_crypto 1 "[4]" "replicate 16 0" 2 "[6]" "replicate 16 0"
        5 "replicate 60 1"] plain_type demo_encrypt
    by (simp add: b new_channel_def demo_peer_def)
qed

end
