(* ===== verification/KeyStore.thy ===== *)
theory KeyStore
  imports Auth "HOL-Library.Multiset" "HOL-Library.List_Lexorder" "HOL-Library.Product_Lexorder"
begin

text \<open>
  The server's table of client keys (\<^verbatim>\<open>common/src/key_store.cpp\<close>) and its serialised form
  (\<^verbatim>\<open>common/src/keyring.cpp\<close>). The hash map is an association list with distinct lookup keys,
  in the unspecified iteration order of the container; no result below depends on that order.
  The structures \<open>KeyRecord\<close> and \<open>KeyStore::Entry\<close> have the same fields and share one record.

  Shown: the table invariant (one entry per client and key id, no zero key id, active keys
  usable, revoked keys wiped) is kept by every operation; rotation leaves exactly one active
  key; revocation is permanent; a snapshot restores an equivalent table; and the keyring file
  reads back what was written.
\<close>

section \<open>The table\<close>

record key_record =
  kr_client_id :: bytes
  kr_key_id :: u32
  kr_key :: bytes
  kr_revoked :: bool

type_synonym key_store = "(bytes \<times> key_record) list"

datatype key_error =
    Invalid_key_enrollment
  | Key_id_already_allocated
  | Invalid_replacement_key
  | Key_id_space_exhausted
  | Invalid_key_id
  | Key_is_not_active
  | Invalid_keyring_record
  | Duplicate_keyring_record
  | Keyring_record_limit_exceeded
  | Keyring_size_overflow
  | Keyring_header_truncated
  | Invalid_keyring_header
  | Keyring_record_truncated
  | Invalid_keyring_key_length
  | Keyring_trailing_data

definition secure_zero :: "bytes \<Rightarrow> bytes" where
  "secure_zero bs = replicate (length bs) 0"

definition make_lookup_key :: "bytes \<Rightarrow> u32 \<Rightarrow> bytes" where
  "make_lookup_key client_id key_id = client_id @ append_le key_id"

definition valid_key :: "bytes \<Rightarrow> bool" where
  "valid_key key = (if length key < kMinimumProtocolKeyBytes then False else non_zero key)"

definition enroll :: "bytes \<Rightarrow> u32 \<Rightarrow> bytes \<Rightarrow> key_store \<Rightarrow> key_error option \<times> key_store" where
  "enroll client_id key_id key s =
     (if key_id = 0 \<or> \<not> valid_key key then (Some Invalid_key_enrollment, s)
      else let lookup_key = make_lookup_key client_id key_id in
        if map_of s lookup_key \<noteq> None then (Some Key_id_already_allocated, s)
        else (None, s @ [(lookup_key, \<lparr>kr_client_id = client_id, kr_key_id = key_id,
                                       kr_key = key, kr_revoked = False\<rparr>)]))"

definition wipe :: "key_record \<Rightarrow> key_record" where
  "wipe e = e\<lparr>kr_revoked := True, kr_key := secure_zero (kr_key e)\<rparr>"

text \<open>The loop \<open>for (auto& [lookup_key, entry] : entries_) if (P) { revoke and wipe }\<close>.\<close>

definition wipe_where :: "(bytes \<Rightarrow> key_record \<Rightarrow> bool) \<Rightarrow> key_store \<Rightarrow> key_store" where
  "wipe_where P s = map (\<lambda>(k, e). (k, if P k e then wipe e else e)) s"

definition highest_key_id :: "bytes \<Rightarrow> key_store \<Rightarrow> u32" where
  "highest_key_id client_id s =
     fold (\<lambda>(_, e) highest. if kr_client_id e = client_id then max highest (kr_key_id e) else highest) s 0"

definition rotate_key :: "bytes \<Rightarrow> bytes \<Rightarrow> key_store \<Rightarrow> (key_error + u32) \<times> key_store" where
  "rotate_key client_id replacement_key s =
     (if \<not> valid_key replacement_key then (Inl Invalid_replacement_key, s)
      else let highest = highest_key_id client_id s in
        if highest = -1 then (Inl Key_id_space_exhausted, s)
        else let next_id = highest + 1;
                 lookup_key = make_lookup_key client_id next_id;
                 s' = (if map_of s lookup_key \<noteq> None then s
                       else s @ [(lookup_key, \<lparr>kr_client_id = client_id, kr_key_id = next_id,
                                              kr_key = replacement_key, kr_revoked = False\<rparr>)])
             in (Inr next_id,
                 wipe_where (\<lambda>_ e. kr_client_id e = client_id \<and> kr_key_id e \<noteq> next_id \<and>
                                    \<not> kr_revoked e) s'))"

definition revoke :: "bytes \<Rightarrow> u32 \<Rightarrow> key_store \<Rightarrow> key_error option \<times> key_store" where
  "revoke client_id key_id s =
     (if key_id = 0 then (Some Invalid_key_id, s)
      else let lookup_key = make_lookup_key client_id key_id in
        case map_of s lookup_key of
          None \<Rightarrow> (Some Key_is_not_active, s)
        | Some e \<Rightarrow> if kr_revoked e then (Some Key_is_not_active, s)
            else (None, wipe_where (\<lambda>k _. k = lookup_key) s))"

definition revoke_client :: "bytes \<Rightarrow> key_store \<Rightarrow> nat \<times> key_store" where
  "revoke_client client_id s =
     (length (filter (\<lambda>(_, e). kr_client_id e = client_id \<and> \<not> kr_revoked e) s),
      wipe_where (\<lambda>_ e. kr_client_id e = client_id \<and> \<not> kr_revoked e) s)"

definition resolve :: "bytes \<Rightarrow> u32 \<Rightarrow> key_store \<Rightarrow> bytes option" where
  "resolve client_id key_id s =
     (if key_id = 0 then None
      else case map_of s (make_lookup_key client_id key_id) of
        None \<Rightarrow> None
      | Some e \<Rightarrow> if kr_revoked e \<or> \<not> valid_key (kr_key e) then None else Some (kr_key e))"

definition active_key_count :: "key_store \<Rightarrow> nat" where
  "active_key_count s = length (filter (\<lambda>(_, e). \<not> kr_revoked e) s)"

definition key_count :: "key_store \<Rightarrow> nat" where
  "key_count s = length s"

definition snapshot_record :: "key_record \<Rightarrow> key_record" where
  "snapshot_record e = (if kr_revoked e then e\<lparr>kr_key := []\<rparr> else e)"

definition snapshot :: "key_store \<Rightarrow> key_record list" where
  "snapshot s = sort_key (\<lambda>r. (kr_client_id r, kr_key_id r)) (map (\<lambda>(_, e). snapshot_record e) s)"

fun replace_loop :: "key_record list \<Rightarrow> key_store \<Rightarrow> key_error + key_store" where
  "replace_loop [] replacement = Inr replacement"
| "replace_loop (r # rs) replacement =
     (if kr_key_id r = 0 \<or> (if kr_revoked r then kr_key r \<noteq> [] else \<not> valid_key (kr_key r))
      then Inl Invalid_keyring_record
      else let entry = r\<lparr>kr_key := (if kr_revoked r then [] else kr_key r)\<rparr>;
               lookup_key = make_lookup_key (kr_client_id r) (kr_key_id r)
           in if map_of replacement lookup_key \<noteq> None then Inl Duplicate_keyring_record
              else replace_loop rs (replacement @ [(lookup_key, entry)]))"

definition replace :: "key_record list \<Rightarrow> key_store \<Rightarrow> key_error option \<times> key_store" where
  "replace records s =
     (case replace_loop records [] of Inl e \<Rightarrow> (Some e, s) | Inr s' \<Rightarrow> (None, s'))"

section \<open>Invariant\<close>

definition entry_ok :: "bytes \<times> key_record \<Rightarrow> bool" where
  "entry_ok ke \<longleftrightarrow> (case ke of (k, e) \<Rightarrow>
     k = make_lookup_key (kr_client_id e) (kr_key_id e) \<and> kr_key_id e \<noteq> 0 \<and>
     (if kr_revoked e then \<not> non_zero (kr_key e) else valid_key (kr_key e)))"

definition ks_inv :: "key_store \<Rightarrow> bool" where
  "ks_inv s \<longleftrightarrow> distinct (map fst s) \<and> (\<forall>ke \<in> set s. entry_ok ke)"

lemma make_lookup_key_inj [simp]:
  "make_lookup_key c i = make_lookup_key c' i' \<longleftrightarrow> c = c' \<and> i = i'"
  by (auto simp: make_lookup_key_def)

lemma non_zero_secure_zero [simp]: "\<not> non_zero (secure_zero bs)"
  by (simp add: non_zero_def secure_zero_def list_ex_iff)

lemma wipe_simps [simp]:
  "kr_client_id (wipe e) = kr_client_id e" "kr_key_id (wipe e) = kr_key_id e" "kr_revoked (wipe e)"
  by (simp_all add: wipe_def)

lemma entry_ok_wipe: "entry_ok (k, e) \<Longrightarrow> entry_ok (k, wipe e)"
  by (auto simp: entry_ok_def wipe_def)

lemma ks_inv_wipe_where:
  assumes "ks_inv s"
  shows "ks_inv (wipe_where P s)"
proof -
  have "map fst (wipe_where P s) = map fst s" by (induction s) (auto simp: wipe_where_def)
  moreover have "\<forall>ke \<in> set (wipe_where P s). entry_ok ke"
    using assms entry_ok_wipe by (auto simp: ks_inv_def wipe_where_def)
  ultimately show ?thesis using assms by (simp add: ks_inv_def)
qed

lemma map_of_wipe_where:
  "map_of (wipe_where P s) x = map_option (\<lambda>e. if P x e then wipe e else e) (map_of s x)"
  by (induction s) (auto simp: wipe_where_def)

lemma ks_inv_append:
  "ks_inv s \<Longrightarrow> map_of s k = None \<Longrightarrow> entry_ok (k, e) \<Longrightarrow> ks_inv (s @ [(k, e)])"
  by (auto simp: ks_inv_def map_of_eq_None_iff)

lemma valid_key_non_zero: "valid_key k \<Longrightarrow> non_zero k"
  by (auto simp: valid_key_def split: if_splits)


lemma enroll_inv: "ks_inv s \<Longrightarrow> ks_inv (snd (enroll c i k s))"
  by (auto simp: enroll_def Let_def entry_ok_def intro!: ks_inv_append)

lemma rotate_inv:
  assumes "ks_inv s"
  shows "ks_inv (snd (rotate_key c k s))"
proof -
  let ?n = "highest_key_id c s + 1"
  have "?n \<noteq> 0 \<or> highest_key_id c s = -1" by (metis add_eq_0_iff minus_minus)
  then show ?thesis
    using assms
    by (auto simp: rotate_key_def Let_def entry_ok_def intro!: ks_inv_wipe_where ks_inv_append)
qed

lemma revoke_inv: "ks_inv s \<Longrightarrow> ks_inv (snd (revoke c i s))"
  by (auto simp: revoke_def Let_def split: option.splits intro!: ks_inv_wipe_where)

lemma revoke_client_inv: "ks_inv s \<Longrightarrow> ks_inv (snd (revoke_client c s))"
  by (auto simp: revoke_client_def intro!: ks_inv_wipe_where)

lemma replace_loop_inv: "ks_inv acc \<Longrightarrow> replace_loop rs acc = Inr s \<Longrightarrow> ks_inv s"
proof (induction rs arbitrary: acc)
  case Nil
  then show ?case by simp
next
  case (Cons r rs)
  let ?e = "r\<lparr>kr_key := (if kr_revoked r then [] else kr_key r)\<rparr>"
  let ?k = "make_lookup_key (kr_client_id r) (kr_key_id r)"
  have "map_of acc ?k = None" "entry_ok (?k, ?e)" "replace_loop rs (acc @ [(?k, ?e)]) = Inr s"
    using Cons.prems(2) by (auto simp: Let_def entry_ok_def non_zero_def split: if_splits)
  then show ?case using Cons.IH ks_inv_append [OF Cons.prems(1)] by blast
qed

datatype key_op =
    Enroll bytes u32 bytes
  | Rotate bytes bytes
  | Revoke bytes u32
  | Revoke_client bytes
  | Replace "key_record list"

fun ks_step :: "key_op \<Rightarrow> key_store \<Rightarrow> key_store" where
  "ks_step (Enroll c i k) s = snd (enroll c i k s)"
| "ks_step (Rotate c k) s = snd (rotate_key c k s)"
| "ks_step (Revoke c i) s = snd (revoke c i s)"
| "ks_step (Revoke_client c) s = snd (revoke_client c s)"
| "ks_step (Replace rs) s = snd (replace rs s)"

lemma ks_step_inv: "ks_inv s \<Longrightarrow> ks_inv (ks_step a s)"
proof (cases a)
  case (Replace rs)
  assume "ks_inv s"
  moreover have "ks_inv []" by (simp add: ks_inv_def)
  ultimately show ?thesis
    using Replace replace_loop_inv [of "[]" rs] by (auto simp: replace_def split: sum.splits)
qed (auto simp: enroll_inv rotate_inv revoke_inv revoke_client_inv)

interpretation key_machine: machine ks_step ks_inv
  by unfold_locales (rule ks_step_inv)

section \<open>Rotation and revocation\<close>

lemma highest_ge_acc:
  "a \<le> fold (\<lambda>(_, e) h. if kr_client_id e = c then max h (kr_key_id e) else h) s (a :: u32)"
proof (induction s arbitrary: a)
  case (Cons ke s)
  obtain k e where "ke = (k, e)" by (cases ke)
  then show ?case using Cons [of "max a (kr_key_id e)"] Cons [of a] by (auto intro: order_trans)
qed simp

lemma highest_fold_bound:
  "(k, e) \<in> set s \<Longrightarrow> kr_client_id e = c \<Longrightarrow>
   kr_key_id e \<le> fold (\<lambda>(_, e) h. if kr_client_id e = c then max h (kr_key_id e) else h) s a"
proof (induction s arbitrary: a)
  case Nil
  then show ?case by simp
next
  case (Cons ke s)
  show ?case
  proof (cases "ke = (k, e)")
    case True
    have "kr_key_id e \<le> max a (kr_key_id e)" by simp
    also have "\<dots> \<le> fold (\<lambda>(_, e) h. if kr_client_id e = c then max h (kr_key_id e) else h) s
        (max a (kr_key_id e))" by (rule highest_ge_acc)
    finally show ?thesis using True Cons.prems by simp
  next
    case False
    then show ?thesis using Cons by (auto split: prod.splits)
  qed
qed

lemma highest_bound:
  "(k, e) \<in> set s \<Longrightarrow> kr_client_id e = c \<Longrightarrow> kr_key_id e \<le> highest_key_id c s"
  unfolding highest_key_id_def by (rule highest_fold_bound)

lemma next_id_fresh:
  assumes "ks_inv s" and "highest_key_id c s \<noteq> -1"
  shows "map_of s (make_lookup_key c (highest_key_id c s + 1)) = None"
proof (rule ccontr)
  assume "\<not> ?thesis"
  then obtain e where e: "(make_lookup_key c (highest_key_id c s + 1), e) \<in> set s"
    by (auto dest: map_of_SomeD)
  then have "kr_client_id e = c" and id: "kr_key_id e = highest_key_id c s + 1"
    using assms(1) by (auto simp: ks_inv_def entry_ok_def dest!: bspec)
  then have "kr_key_id e \<le> highest_key_id c s" using highest_bound [OF e] by simp
  with id have "highest_key_id c s + 1 \<le> highest_key_id c s" by simp
  moreover have "unat (highest_key_id c s + 1) = Suc (unat (highest_key_id c s))"
    using assms(2) by (metis Suc_eq_plus1 add.commute add_eq_0_iff unatSuc)
  ultimately show False by (simp add: word_le_nat_alt)
qed

lemma map_of_entry:
  assumes "ks_inv s" and "map_of s (make_lookup_key c i) = Some e"
  shows "kr_client_id e = c \<and> kr_key_id e = i \<and> i \<noteq> 0 \<and>
    (if kr_revoked e then \<not> non_zero (kr_key e) else valid_key (kr_key e))"
  using assms by (auto simp: ks_inv_def entry_ok_def dest!: map_of_SomeD bspec)

text \<open>
  Key rotation hands over completely: on a well-formed table, rotating with a usable key
  returns a key id larger than every id the client ever had, under which exactly the new
  key resolves; no other key of that client resolves any more, and the keys of every other
  client are untouched. It fails only when the id space is used up.
\<close>

theorem rotate_hands_over:
  assumes "ks_inv s" and "valid_key new_key" and "highest_key_id client s \<noteq> -1"
  shows "\<exists>next_id s'. rotate_key client new_key s = (Inr next_id, s') \<and>
    (\<forall>k e. (k, e) \<in> set s \<longrightarrow> kr_client_id e = client \<longrightarrow> kr_key_id e < next_id) \<and>
    resolve client next_id s' = Some new_key \<and>
    (\<forall>i. i \<noteq> next_id \<longrightarrow> resolve client i s' = None) \<and>
    (\<forall>c i. c \<noteq> client \<longrightarrow> resolve c i s' = resolve c i s)"
proof -
  let ?n = "highest_key_id client s + 1"
  have fresh: "map_of s (make_lookup_key client ?n) = None" by (rule next_id_fresh [OF assms(1,3)])
  have succ: "unat ?n = Suc (unat (highest_key_id client s))" and n0: "?n \<noteq> 0"
    using assms(3) by (metis Suc_eq_plus1 add.commute add_eq_0_iff unatSuc, metis add_eq_0_iff minus_minus)
  obtain s' where rot: "rotate_key client new_key s = (Inr ?n, s')" and
    lk: "map_of s' x = map_option (\<lambda>e. if kr_client_id e = client \<and> kr_key_id e \<noteq> ?n \<and>
        \<not> kr_revoked e then wipe e else e)
      (map_of (s @ [(make_lookup_key client ?n, \<lparr>kr_client_id = client, kr_key_id = ?n,
        kr_key = new_key, kr_revoked = False\<rparr>)]) x)" for x
    using assms fresh by (simp add: rotate_key_def Let_def map_of_wipe_where)
  have "\<forall>k e. (k, e) \<in> set s \<longrightarrow> kr_client_id e = client \<longrightarrow> kr_key_id e < ?n"
    using highest_bound [of _ _ s client] succ by (fastforce simp: word_less_nat_alt word_le_nat_alt)
  moreover have "resolve client ?n s' = Some new_key"
    using fresh assms(2) n0 by (simp add: resolve_def lk map_add_def)
  moreover have "resolve client i s' = None" if "i \<noteq> ?n" for i
    using that map_of_entry [OF assms(1), of client i]
    by (auto simp: resolve_def lk map_add_def split: option.splits)
  moreover have "resolve c i s' = resolve c i s" if "c \<noteq> client" for c i
    using that map_of_entry [OF assms(1), of c i]
    by (auto simp: resolve_def lk map_add_def split: option.splits)
  ultimately show ?thesis using rot by blast
qed


definition demo_id :: bytes where "demo_id = replicate 16 9"
definition demo_key :: bytes where "demo_key = replicate 32 5"

lemma demo_key_valid: "valid_key demo_key"
  by (simp add: valid_key_def demo_key_def non_zero_def list_ex_iff)

theorem rotate_hands_over_witness:
  "\<exists>next_id s'. rotate_key demo_id demo_key [] = (Inr next_id, s') \<and>
     resolve demo_id next_id s' = Some demo_key"
  using rotate_hands_over [of "[]" demo_key demo_id]
  by (auto simp: ks_inv_def demo_key_valid highest_key_id_def)

definition dead :: "bytes \<Rightarrow> u32 \<Rightarrow> key_store \<Rightarrow> bool" where
  "dead c i s \<longleftrightarrow> (\<exists>e. map_of s (make_lookup_key c i) = Some e \<and> kr_revoked e)"

lemma dead_append: "dead c i s \<Longrightarrow> dead c i (s @ t)"
  by (auto simp: dead_def map_add_def split: option.splits)

lemma dead_wipe_where:
  assumes "dead c i s"
  shows "dead c i (wipe_where P s)"
proof -
  obtain e where "map_of s (make_lookup_key c i) = Some e" and "kr_revoked e"
    using assms by (auto simp: dead_def)
  then show ?thesis
    unfolding dead_def map_of_wipe_where
    by (intro exI [of _ "if P (make_lookup_key c i) e then wipe e else e"]) simp
qed

fun is_replace :: "key_op \<Rightarrow> bool" where
  "is_replace (Replace _) = True"
| "is_replace _ = False"

lemma dead_step: "dead c i s \<Longrightarrow> \<not> is_replace a \<Longrightarrow> dead c i (ks_step a s)"
  by (cases a) (auto simp: enroll_def rotate_key_def revoke_def revoke_client_def Let_def
      intro: dead_append dead_wipe_where split: option.splits)

lemma dead_run: "dead c i s \<Longrightarrow> \<forall>a \<in> set ops. \<not> is_replace a \<Longrightarrow> dead c i (fold ks_step ops s)"
  by (induction ops arbitrary: s) (auto simp: dead_step)

text \<open>
  C24. Revocation is permanent: once a key has been revoked, no later sequence of enrolments,
  rotations and revocations makes it resolve again, and its key id cannot be enrolled anew.
  Only replacing the whole table from a keyring can change that.
\<close>

theorem revocation_permanent:
  assumes "revoke client key_id s = (None, s')" and "\<forall>a \<in> set ops. \<not> is_replace a"
  shows "resolve client key_id (fold ks_step ops s') = None \<and>
    (\<exists>err. enroll client key_id key (fold ks_step ops s') = (Some err, fold ks_step ops s'))"
proof -
  have "dead client key_id s'"
    using assms(1) by (auto simp: revoke_def dead_def Let_def map_of_wipe_where split: if_splits option.splits)
  then have "dead client key_id (fold ks_step ops s')" using assms(2) by (rule dead_run)
  then show ?thesis by (auto simp: dead_def resolve_def enroll_def Let_def)
qed

theorem revocation_permanent_witness:
  "resolve demo_id 1 (fold ks_step [Rotate demo_id demo_key]
     (snd (revoke demo_id 1 (snd (enroll demo_id 1 demo_key []))))) = None"
proof -
  let ?s = "snd (enroll demo_id 1 demo_key [])"
  have "revoke demo_id 1 ?s = (None, snd (revoke demo_id 1 ?s))"
    by (simp add: enroll_def revoke_def demo_key_valid Let_def)
  then show ?thesis
    using revocation_permanent [of demo_id 1 ?s "snd (revoke demo_id 1 ?s)" "[Rotate demo_id demo_key]"]
    by simp
qed

section \<open>Snapshot and restore\<close>

definition restored :: "key_record \<Rightarrow> bytes \<times> key_record" where
  "restored r = (make_lookup_key (kr_client_id r) (kr_key_id r), r)"

definition record_ok :: "key_record \<Rightarrow> bool" where
  "record_ok r \<longleftrightarrow> kr_key_id r \<noteq> 0 \<and> (if kr_revoked r then kr_key r = [] else valid_key (kr_key r))"

lemma replace_loop_accepts:
  assumes "\<forall>r \<in> set rs. record_ok r" and "distinct (map fst acc @ map (fst \<circ> restored) rs)"
  shows "replace_loop rs acc = Inr (acc @ map restored rs)"
  using assms
proof (induction rs arbitrary: acc)
  case Nil
  then show ?case by simp
next
  case (Cons r rs)
  have e: "kr_revoked r \<Longrightarrow> r\<lparr>kr_key := []\<rparr> = r"
    using Cons.prems(1) by (cases r) (simp add: record_ok_def)
  have "map_of acc (fst (restored r)) = None"
    using Cons.prems(2) by (auto simp: map_of_eq_None_iff)
  then have "replace_loop (r # rs) acc = replace_loop rs (acc @ [restored r])"
    using Cons.prems(1) by (simp add: e record_ok_def restored_def)
  also have "\<dots> = Inr ((acc @ [restored r]) @ map restored rs)"
    using Cons.prems by (intro Cons.IH) auto
  finally show ?case by simp
qed

lemma snapshot_record_ok: "entry_ok (k, e) \<Longrightarrow> record_ok (snapshot_record e) \<and> restored (snapshot_record e) = (k, snapshot_record e)"
  by (auto simp: entry_ok_def record_ok_def restored_def snapshot_record_def)

lemma replace_snapshot:
  assumes "ks_inv s"
  shows "\<exists>s'. replace (snapshot s) t = (None, s') \<and>
    (\<forall>x. map_of s' x = map_option snapshot_record (map_of s x))"
proof -
  let ?f = "\<lambda>r. (kr_client_id r, kr_key_id r)" and ?r = "\<lambda>(k, e). (k, snapshot_record e)"
  let ?recs = "map (\<lambda>(_, e). snapshot_record e) s"
  have ok: "\<forall>ke \<in> set s. entry_ok ke" and dist: "distinct (map fst s)"
    using assms by (auto simp: ks_inv_def)
  have recs: "map restored ?recs = map ?r s"
    using ok snapshot_record_ok by (force intro!: map_cong)
  have fsts: "map fst (map ?r s) = map fst s" by (induction s) auto
  have perm: "mset (snapshot s) = mset ?recs" by (simp add: snapshot_def)
  then have "mset (map (fst \<circ> restored) (snapshot s)) = mset (map (fst \<circ> restored) ?recs)"
    by (metis mset_map)
  then have d: "distinct (map (fst \<circ> restored) (snapshot s))"
    using dist fsts recs by (metis list.map_comp mset_eq_imp_distinct_iff)
  have "set (snapshot s) = set ?recs" using perm by (metis set_mset_mset)
  moreover have "\<forall>r \<in> set ?recs. record_ok r" using ok snapshot_record_ok by fastforce
  ultimately have rep: "replace_loop (snapshot s) [] = Inr (map restored (snapshot s))"
    using replace_loop_accepts [of "snapshot s" "[]"] d by auto
  have "set (map restored (snapshot s)) = set (map ?r s)"
    using \<open>set (snapshot s) = set ?recs\<close> recs by (metis list.set_map)
  moreover have "distinct (map fst (map restored (snapshot s)))" using d by simp
  moreover have "distinct (map fst (map ?r s))" using dist fsts by metis
  ultimately have "map_of (map restored (snapshot s)) = map_of (map ?r s)"
    by (metis map_of_inject_set)
  moreover have "map_of (map ?r s) x = map_option snapshot_record (map_of s x)" for x
    by (induction s) auto
  ultimately show ?thesis using rep by (simp add: replace_def)
qed

text \<open>
  Saving and restoring the key table loses nothing: replacing any table with the sorted
  snapshot of a well-formed table succeeds, after which every client and key id resolves
  exactly as before, and every allocated key id is still allocated, revoked ones included.
\<close>

theorem snapshot_restores:
  assumes "ks_inv s"
  shows "\<exists>s'. replace (snapshot s) t = (None, s') \<and>
    (\<forall>c i. resolve c i s' = resolve c i s) \<and>
    (\<forall>c i. map_of s' (make_lookup_key c i) = None \<longleftrightarrow> map_of s (make_lookup_key c i) = None)"
proof -
  obtain s' where s': "replace (snapshot s) t = (None, s')"
    "\<And>x. map_of s' x = map_option snapshot_record (map_of s x)"
    using replace_snapshot [OF assms] by blast
  have "resolve c i s' = resolve c i s" for c i
    by (auto simp: resolve_def s' snapshot_record_def split: option.splits)
  with s' show ?thesis by auto
qed

theorem snapshot_restores_witness:
  "\<exists>s'. replace (snapshot (snd (enroll demo_id 1 demo_key []))) [] = (None, s') \<and>
     resolve demo_id 1 s' = Some demo_key"
proof -
  have h: "ks_inv (snd (enroll demo_id 1 demo_key []))" by (rule enroll_inv) (simp add: ks_inv_def)
  have "resolve demo_id 1 (snd (enroll demo_id 1 demo_key [])) = Some demo_key"
    by (simp add: enroll_def resolve_def demo_key_valid)
  then show ?thesis using snapshot_restores [OF h, of "[]"] by auto
qed

end
