(* ===== verification/Pairing.thy ===== *)
theory Pairing
  imports KeyStore
begin

text \<open>
  Verified pairing, \<^verbatim>\<open>common/src/pairing.cpp\<close>, and enrolment with a shared secret,
  \<^verbatim>\<open>common/src/enrollment.cpp\<close>: the messages of both exchanges, the transcript, the secrets and
  the six-digit code derived from it, the confirmation tags, the checks around the key agreement,
  and the authority that admits an enrolment request. The elliptic-curve agreement of BCrypt is the
  parameter \<open>ecdh\<close> (own public key and peer public key to the raw secret), SHA-256 is \<open>sha\<close> and
  HMAC is \<open>bcrypt\<close> as in \<open>Auth\<close>.

  Shown: every message has one wire form; the transcript determines every field both sides must
  agree on, so tags and codes of different transcripts come from different inputs; the code is six
  decimal digits; the authority enrols a key only for a request that carries the HMAC of the
  secret, is within the clock window and was not seen before.
\<close>

section \<open>Messages\<close>

definition kPairingVersion :: u16 where "kPairingVersion = 1"
definition kMaximumIdentityBytes :: nat where "kMaximumIdentityBytes = 128"
definition kMaximumPublicKeyBytes :: nat where "kMaximumPublicKeyBytes = 256"
definition kMaximumPairingMessageBytes :: nat where "kMaximumPairingMessageBytes = 1024"
definition kEccBlobHeaderBytes :: nat where "kEccBlobHeaderBytes = 8"
definition agreement_x25519 :: u16 where "agreement_x25519 = 1"
definition agreement_nist_p256 :: u16 where "agreement_nist_p256 = 2"

lemmas pairing_consts [simp] =
  kMaximumIdentityBytes_def kMaximumPublicKeyBytes_def kMaximumPairingMessageBytes_def kEccBlobHeaderBytes_def

definition known_agreement :: "u16 \<Rightarrow> bool" where
  "known_agreement a \<longleftrightarrow> a = agreement_x25519 \<or> a = agreement_nist_p256"

definition valid_identity :: "bytes \<Rightarrow> bool" where
  "valid_identity v \<longleftrightarrow> v \<noteq> [] \<and> length v \<le> kMaximumIdentityBytes \<and> list_all (\<lambda>c. c \<ge> 0x20 \<and> c < 0x7f) v"

definition valid_public_key :: "bytes \<Rightarrow> bool" where
  "valid_public_key key \<longleftrightarrow> key \<noteq> [] \<and> length key \<le> kMaximumPublicKeyBytes"

text \<open>A block with a 16-bit length in front, \<open>read_blob\<close> and \<open>read_text\<close>.\<close>

definition append_blob :: "bytes \<Rightarrow> bytes" where
  "append_blob b = append_le (word_of_nat (length b) :: u16) @ b"

definition read_blob :: "bytes \<Rightarrow> (bytes \<times> bytes) option" where
  "read_blob w = do { (n, w) \<leftarrow> read_le w; read_array (unat (n :: u16)) w }"

record pairing_hello =
  ph_version :: u16
  ph_agreement :: u16
  ph_uuid :: bytes
  ph_hostname :: bytes
  ph_public_key :: bytes
  ph_nonce :: bytes

record pairing_offer =
  po_version :: u16
  po_agreement :: u16
  po_public_key :: bytes
  po_nonce :: bytes

record pairing_accept =
  pa_key_id :: u32
  pa_server_tag :: bytes

datatype reject_reason = Unspecified | Operator_declined | Timed_out | Unavailable | Protocol_error | Confirmation_failed

definition reject_code :: "reject_reason \<Rightarrow> u16" where
  "reject_code r = (case r of Unspecified \<Rightarrow> 0 | Operator_declined \<Rightarrow> 1 | Timed_out \<Rightarrow> 2 | Unavailable \<Rightarrow> 3
     | Protocol_error \<Rightarrow> 4 | Confirmation_failed \<Rightarrow> 5)"

definition hello_valid :: "pairing_hello \<Rightarrow> bool" where
  "hello_valid h \<longleftrightarrow> ph_version h \<noteq> 0 \<and> known_agreement (ph_agreement h) \<and> valid_identity (ph_uuid h) \<and>
     valid_identity (ph_hostname h) \<and> valid_public_key (ph_public_key h) \<and> non_zero (ph_nonce h)"

definition encode_pairing_hello :: "pairing_hello \<Rightarrow> bytes" where
  "encode_pairing_hello h =
     (if \<not> hello_valid h then []
      else append_le (ph_version h) @ append_le (ph_agreement h) @ append_blob (ph_uuid h) @
           append_blob (ph_hostname h) @ append_blob (ph_public_key h) @ ph_nonce h)"

definition decode_pairing_hello :: "bytes \<Rightarrow> pairing_hello option" where
  "decode_pairing_hello w =
     (if length w > kMaximumPairingMessageBytes then None
      else do {
        (version, w) \<leftarrow> read_le w;
        (agreement, w) \<leftarrow> read_le w;
        (uuid, w) \<leftarrow> read_blob w;
        (hostname, w) \<leftarrow> read_blob w;
        (public_key, w) \<leftarrow> read_blob w;
        (nonce, w) \<leftarrow> read_array kNonceBytes w;
        let h = \<lparr>ph_version = version, ph_agreement = agreement, ph_uuid = uuid, ph_hostname = hostname,
                 ph_public_key = public_key, ph_nonce = nonce\<rparr>;
        if w \<noteq> [] \<or> \<not> hello_valid h then None else Some h
      })"

definition offer_valid :: "pairing_offer \<Rightarrow> bool" where
  "offer_valid p \<longleftrightarrow> po_version p \<noteq> 0 \<and> known_agreement (po_agreement p) \<and> valid_public_key (po_public_key p) \<and>
     non_zero (po_nonce p)"

definition encode_pairing_offer :: "pairing_offer \<Rightarrow> bytes" where
  "encode_pairing_offer p =
     (if \<not> offer_valid p then []
      else append_le (po_version p) @ append_le (po_agreement p) @ append_blob (po_public_key p) @ po_nonce p)"

definition decode_pairing_offer :: "bytes \<Rightarrow> pairing_offer option" where
  "decode_pairing_offer w =
     (if length w > kMaximumPairingMessageBytes then None
      else do {
        (version, w) \<leftarrow> read_le w;
        (agreement, w) \<leftarrow> read_le w;
        (public_key, w) \<leftarrow> read_blob w;
        (nonce, w) \<leftarrow> read_array kNonceBytes w;
        let p = \<lparr>po_version = version, po_agreement = agreement, po_public_key = public_key, po_nonce = nonce\<rparr>;
        if w \<noteq> [] \<or> \<not> offer_valid p then None else Some p
      })"

definition decode_pairing_confirm :: "bytes \<Rightarrow> bytes option" where
  "decode_pairing_confirm w = (if length w \<noteq> 32 then None else Some w)"

definition encode_pairing_accept :: "pairing_accept \<Rightarrow> bytes" where
  "encode_pairing_accept a = (if pa_key_id a = 0 then [] else append_le (pa_key_id a) @ pa_server_tag a)"

definition decode_pairing_accept :: "bytes \<Rightarrow> pairing_accept option" where
  "decode_pairing_accept w =
     (if length w \<noteq> 36 then None
      else do {
        (key_id, w) \<leftarrow> read_le w;
        (tag, w) \<leftarrow> read_array 32 w;
        if key_id = 0 then None else Some \<lparr>pa_key_id = key_id, pa_server_tag = tag\<rparr>
      })"

definition encode_pairing_reject :: "reject_reason \<Rightarrow> bytes" where
  "encode_pairing_reject r = append_le (reject_code r)"

definition decode_pairing_reject :: "bytes \<Rightarrow> reject_reason option" where
  "decode_pairing_reject w =
     (if length w \<noteq> 2 then None
      else do {
        (reason :: u16, w) \<leftarrow> read_le w;
        find (\<lambda>r. reject_code r = reason)
          [Unspecified, Operator_declined, Timed_out, Unavailable, Protocol_error, Confirmation_failed]
      })"

section \<open>Transcript and secrets\<close>

record pairing_transcript =
  pt_version :: u16
  pt_agreement :: u16
  pt_uuid :: bytes
  pt_hostname :: bytes
  pt_client_key :: bytes
  pt_server_key :: bytes
  pt_client_nonce :: bytes
  pt_server_nonce :: bytes

definition valid_transcript :: "pairing_transcript \<Rightarrow> bool" where
  "valid_transcript t \<longleftrightarrow> pt_version t \<noteq> 0 \<and> known_agreement (pt_agreement t) \<and> valid_identity (pt_uuid t) \<and>
     valid_identity (pt_hostname t) \<and> valid_public_key (pt_client_key t) \<and> valid_public_key (pt_server_key t) \<and>
     non_zero (pt_client_nonce t) \<and> non_zero (pt_server_nonce t)"

definition encode_transcript :: "pairing_transcript \<Rightarrow> bytes option" where
  "encode_transcript t =
     (if \<not> valid_transcript t then None
      else Some (ascii ''NSTP'' @ append_le (pt_version t) @ append_le (pt_agreement t) @ append_blob (pt_uuid t) @
             append_blob (pt_hostname t) @ append_blob (pt_client_key t) @ append_blob (pt_server_key t) @
             pt_client_nonce t @ pt_server_nonce t))"

definition make_pairing_transcript :: "pairing_hello \<Rightarrow> pairing_offer \<Rightarrow> pairing_transcript option" where
  "make_pairing_transcript h p =
     (if ph_version h \<noteq> po_version p \<or> ph_agreement h \<noteq> po_agreement p then None
      else let t = \<lparr>pt_version = ph_version h, pt_agreement = ph_agreement h, pt_uuid = ph_uuid h,
                    pt_hostname = ph_hostname h, pt_client_key = ph_public_key h, pt_server_key = po_public_key p,
                    pt_client_nonce = ph_nonce h, pt_server_nonce = po_nonce p\<rparr>
           in if valid_transcript t then Some t else None)"

definition hkdf_sha256 :: "(bytes \<Rightarrow> bytes \<Rightarrow> bytes option) \<Rightarrow> bytes \<Rightarrow> bytes \<Rightarrow> bytes \<Rightarrow> bytes option" where
  "hkdf_sha256 bcrypt input_key_material salt info =
     (if input_key_material = [] then None
      else do {
        pseudo_random_key \<leftarrow> hmac_sha256 bcrypt salt input_key_material;
        hmac_sha256 bcrypt pseudo_random_key (info @ [0x01])
      })"

record pairing_secrets =
  ps_confirm_key :: bytes
  ps_enrolled_key :: bytes
  ps_sas :: bytes

text \<open>\<open>sas_digits n v\<close> writes the last \<open>n\<close> decimal digits of \<open>v\<close>, from the right.\<close>

fun sas_digits :: "nat \<Rightarrow> u64 \<Rightarrow> bytes" where
  "sas_digits 0 v = []"
| "sas_digits (Suc n) v = sas_digits n (v div 10) @ [0x30 + ucast (v mod 10)]"

definition format_sas :: "bytes \<Rightarrow> bytes" where
  "format_sas digest =
     (let v = foldl (\<lambda>v b. push_bit 8 v OR ucast b) (0 :: u64) (take 8 digest)
      in sas_digits 6 (v mod 1000000))"

definition derive_pairing_secrets ::
    "(bytes \<Rightarrow> bytes option) \<Rightarrow> (bytes \<Rightarrow> bytes \<Rightarrow> bytes option) \<Rightarrow> bytes \<Rightarrow> pairing_transcript \<Rightarrow> pairing_secrets option" where
  "derive_pairing_secrets sha bcrypt shared_secret t =
     (if length shared_secret < kMinimumProtocolKeyBytes then None
      else do {
        encoded \<leftarrow> encode_transcript t;
        salt \<leftarrow> sha encoded;
        confirm \<leftarrow> hkdf_sha256 bcrypt shared_secret salt (ascii ''nstu-pair-confirm-v1'');
        sas_material \<leftarrow> hkdf_sha256 bcrypt shared_secret salt (ascii ''nstu-pair-sas-v1'');
        enrolled \<leftarrow> hkdf_sha256 bcrypt shared_secret salt (ascii ''nstu-pair-key-v1'');
        Some \<lparr>ps_confirm_key = confirm, ps_enrolled_key = enrolled, ps_sas = format_sas sas_material\<rparr>
      })"

datatype confirmation_role = Client_role | Server_role

definition tag_label :: "confirmation_role \<Rightarrow> bytes" where
  "tag_label r = (case r of Client_role \<Rightarrow> ascii ''nstu-pair-tag-client-v1'' | Server_role \<Rightarrow> ascii ''nstu-pair-tag-server-v1'')"

definition confirmation_tag ::
    "(bytes \<Rightarrow> bytes \<Rightarrow> bytes option) \<Rightarrow> pairing_secrets \<Rightarrow> pairing_transcript \<Rightarrow> confirmation_role \<Rightarrow> bytes option" where
  "confirmation_tag bcrypt secrets t role =
     do { encoded \<leftarrow> encode_transcript t; hmac_sha256 bcrypt (ps_confirm_key secrets) (tag_label role @ encoded) }"

definition verify_confirmation_tag ::
    "(bytes \<Rightarrow> bytes \<Rightarrow> bytes option) \<Rightarrow> pairing_secrets \<Rightarrow> pairing_transcript \<Rightarrow> confirmation_role \<Rightarrow> bytes \<Rightarrow> bool" where
  "verify_confirmation_tag bcrypt secrets t role received =
     (case confirmation_tag bcrypt secrets t role of
        None \<Rightarrow> False | Some expected \<Rightarrow> constant_time_equal expected received)"

definition client_id_from_uuid :: "(bytes \<Rightarrow> bytes option) \<Rightarrow> bytes \<Rightarrow> bytes option" where
  "client_id_from_uuid sha uuid =
     (if uuid = [] \<or> length uuid > kMaximumIdentityBytes then None
      else map_option (take kClientIdBytes) (sha (ascii ''NSTU-CLIENT-ID-V1'' @ uuid)))"

definition format_short_authentication_string :: "bytes \<Rightarrow> bytes" where
  "format_short_authentication_string sas =
     (if length sas = 6 then take 3 sas @ [0x20] @ drop 3 sas else sas)"

text \<open>The checks of \<open>EphemeralKeyPair::agree\<close> around the agreement.\<close>

definition agree :: "(bytes \<Rightarrow> bytes \<Rightarrow> bytes option) \<Rightarrow> bytes \<Rightarrow> bytes \<Rightarrow> bytes option" where
  "agree ecdh own peer =
     (if length own \<le> kEccBlobHeaderBytes \<or> length peer \<noteq> length own then None
      else if take 4 peer \<noteq> take 4 own \<or> take 4 (drop 4 peer) \<noteq> take 4 (drop 4 own) then None
      else if peer = own then None
      else case ecdh own peer of
             None \<Rightarrow> None
           | Some secret \<Rightarrow>
               if length secret < kMinimumProtocolKeyBytes \<or> length secret > kMaximumPublicKeyBytes \<or>
                  \<not> non_zero secret then None
               else Some secret)"

section \<open>Enrolment with a secret\<close>

record enrollment_request =
  er_client_id :: bytes
  er_key_id :: u32
  er_nonce :: bytes
  er_time :: u64
  er_authenticator :: bytes

definition enrollment_message :: "string \<Rightarrow> enrollment_request \<Rightarrow> bytes" where
  "enrollment_message label r =
     ascii label @ er_client_id r @ append_le (er_key_id r) @ er_nonce r @ append_le (er_time r)"

definition valid_request_fields :: "enrollment_request \<Rightarrow> bool" where
  "valid_request_fields r \<longleftrightarrow> er_key_id r \<noteq> 0 \<and> er_time r \<noteq> 0 \<and> non_zero (er_client_id r) \<and> non_zero (er_nonce r)"

definition create_enrollment_request ::
    "(bytes \<Rightarrow> bytes \<Rightarrow> bytes option) \<Rightarrow> bytes \<Rightarrow> u32 \<Rightarrow> u64 \<Rightarrow> bytes \<Rightarrow> bytes option \<Rightarrow> enrollment_request option" where
  "create_enrollment_request bcrypt client_id key_id time secret nonce_random =
     (if length secret < kMinimumProtocolKeyBytes then None
      else case nonce_random of
        None \<Rightarrow> None
      | Some nonce \<Rightarrow>
          (let r = \<lparr>er_client_id = client_id, er_key_id = key_id, er_nonce = nonce, er_time = time,
                    er_authenticator = replicate 32 0\<rparr>
           in if \<not> valid_request_fields r then None
              else map_option (\<lambda>d. r\<lparr>er_authenticator := d\<rparr>)
                     (hmac_sha256 bcrypt secret (enrollment_message ''NSTU-ENROLLMENT-AUTH-V1'' r))))"

definition encode_enrollment_request :: "enrollment_request \<Rightarrow> bytes" where
  "encode_enrollment_request r =
     (if \<not> valid_request_fields r then []
      else er_client_id r @ append_le (er_key_id r) @ er_nonce r @ append_le (er_time r) @ er_authenticator r)"

definition decode_enrollment_request :: "bytes \<Rightarrow> enrollment_request option" where
  "decode_enrollment_request w =
     (if length w \<noteq> 92 then None
      else do {
        (client_id, w) \<leftarrow> read_array kClientIdBytes w;
        (key_id, w) \<leftarrow> read_le w;
        (nonce, w) \<leftarrow> read_array kNonceBytes w;
        (time, w) \<leftarrow> read_le w;
        (authenticator, w) \<leftarrow> read_array 32 w;
        let r = \<lparr>er_client_id = client_id, er_key_id = key_id, er_nonce = nonce, er_time = time,
                 er_authenticator = authenticator\<rparr>;
        if valid_request_fields r then Some r else None
      })"

definition derive_enrolled_key ::
    "(bytes \<Rightarrow> bytes \<Rightarrow> bytes option) \<Rightarrow> bytes \<Rightarrow> enrollment_request \<Rightarrow> bytes option" where
  "derive_enrolled_key bcrypt secret r =
     (if length secret < kMinimumProtocolKeyBytes \<or> \<not> valid_request_fields r then None
      else hmac_sha256 bcrypt secret (enrollment_message ''NSTU-ENROLLED-KEY-V1'' r))"

record enrollment_authority =
  ea_secret :: bytes
  ea_replay :: replay_protector
  ea_skew :: int

definition make_authority :: "bytes \<Rightarrow> nat \<Rightarrow> int \<Rightarrow> enrollment_authority" where
  "make_authority secret capacity skew =
     \<lparr>ea_secret = secret, ea_replay = make_replay_protector capacity skew, ea_skew = max skew 1\<rparr>"

definition replay_identity :: "enrollment_request \<Rightarrow> auth_hello" where
  "replay_identity r = \<lparr>hello_client_id = er_client_id r, hello_client_nonce = er_nonce r, hello_time = er_time r,
     hello_key_id = er_key_id r\<rparr>"

datatype enrollment_error =
  Invalid_enrollment_request | Outside_clock_window | Enrollment_authentication_failed | Enrollment_replayed
  | Enrollment_key_derivation_failed | Enrollment_refused key_error

definition authority_accept ::
    "(bytes \<Rightarrow> bytes \<Rightarrow> bytes option) \<Rightarrow> enrollment_request \<Rightarrow> u64 \<Rightarrow> enrollment_authority \<Rightarrow> key_store \<Rightarrow>
     enrollment_error option \<times> enrollment_authority \<times> key_store" where
  "authority_accept bcrypt r now a ks =
     (if length (ea_secret a) < kMinimumProtocolKeyBytes \<or> \<not> valid_request_fields r
      then (Some Invalid_enrollment_request, a, ks)
      else let difference = (if er_time r > now then er_time r - now else now - er_time r) in
        if difference > word_of_int (ea_skew a) then (Some Outside_clock_window, a, ks)
        else case hmac_sha256 bcrypt (ea_secret a) (enrollment_message ''NSTU-ENROLLMENT-AUTH-V1'' r) of
          None \<Rightarrow> (Some Enrollment_authentication_failed, a, ks)
        | Some expected \<Rightarrow>
            if \<not> constant_time_equal expected (er_authenticator r) then (Some Enrollment_authentication_failed, a, ks)
            else case replay_accept (replay_identity r) now (ea_replay a) of
              (False, rp) \<Rightarrow> (Some Enrollment_replayed, a\<lparr>ea_replay := rp\<rparr>, ks)
            | (True, rp) \<Rightarrow>
                (case derive_enrolled_key bcrypt (ea_secret a) r of
                   None \<Rightarrow> (Some Enrollment_key_derivation_failed, a\<lparr>ea_replay := rp\<rparr>, ks)
                 | Some key \<Rightarrow>
                     (case enroll (er_client_id r) (er_key_id r) key ks of
                        (err, ks') \<Rightarrow> (map_option Enrollment_refused err, a\<lparr>ea_replay := rp\<rparr>, ks'))))"

section \<open>One wire form per message\<close>

lemma read_blob_append [simp]: "length b \<le> 65535 \<Longrightarrow> read_blob (append_blob b @ rest) = Some (b, rest)"
  by (simp add: read_blob_def append_blob_def unat_of_nat)

lemma read_blob_iff: "read_blob w = Some (b, rest) \<longleftrightarrow> length b \<le> 65535 \<and> w = append_blob b @ rest"
proof
  assume "read_blob w = Some (b, rest)"
  then obtain n :: u16 where n: "w = append_le n @ b @ rest" "length b = unat n"
    by (auto simp: read_blob_def bind_eq_Some_conv reader_iffs)
  moreover have "unat n < 2 ^ 16" using unsigned_less [of n, where ?'a = nat] by simp
  ultimately show "length b \<le> 65535 \<and> w = append_blob b @ rest" by (simp add: append_blob_def)
qed (use read_blob_append in auto)

lemma append_blob_inj [simp]:
  "length b \<le> 65535 \<Longrightarrow> length b' \<le> 65535 \<Longrightarrow> append_blob b @ x = append_blob b' @ y \<longleftrightarrow> b = b' \<and> x = y"
  by (metis read_blob_append option.inject prod.inject)

lemma append_blob_eq [simp]:
  "length b \<le> 65535 \<Longrightarrow> length b' \<le> 65535 \<Longrightarrow> append_blob b = append_blob b' \<longleftrightarrow> b = b'"
  using append_blob_inj [of b b' "[]" "[]"] by simp

lemma length_append_blob [simp]: "length (append_blob b) = 2 + length b"
  by (simp add: append_blob_def)

lemma identity_length: "valid_identity v \<Longrightarrow> length v \<le> 128"
  by (simp add: valid_identity_def)

lemma public_key_length: "valid_public_key v \<Longrightarrow> length v \<le> 256"
  by (simp add: valid_public_key_def)

interpretation pairing_hello_codec: strict_codec encode_pairing_hello decode_pairing_hello
  "\<lambda>h. hello_valid h \<and> length (ph_nonce h) = 32"
proof
  fix h assume h: "hello_valid h \<and> length (ph_nonce h) = 32"
  then have "length (ph_uuid h) \<le> 128" "length (ph_hostname h) \<le> 128" "length (ph_public_key h) \<le> 256"
    by (auto simp: hello_valid_def dest: identity_length public_key_length)
  then show "decode_pairing_hello (encode_pairing_hello h) = Some h"
    using h by (simp add: decode_pairing_hello_def encode_pairing_hello_def Let_def hello_valid_def)
next
  fix w h assume "decode_pairing_hello w = Some h"
  then show "(hello_valid h \<and> length (ph_nonce h) = 32) \<and> encode_pairing_hello h = w"
    by (auto simp: decode_pairing_hello_def encode_pairing_hello_def Let_def bind_eq_Some_conv reader_iffs read_blob_iff
        split: if_splits)
qed

interpretation pairing_offer_codec: strict_codec encode_pairing_offer decode_pairing_offer
  "\<lambda>p. offer_valid p \<and> length (po_nonce p) = 32"
proof
  fix p assume p: "offer_valid p \<and> length (po_nonce p) = 32"
  then have "length (po_public_key p) \<le> 256" by (auto simp: offer_valid_def dest: public_key_length)
  then show "decode_pairing_offer (encode_pairing_offer p) = Some p"
    using p by (simp add: decode_pairing_offer_def encode_pairing_offer_def Let_def offer_valid_def)
next
  fix w p assume "decode_pairing_offer w = Some p"
  then show "(offer_valid p \<and> length (po_nonce p) = 32) \<and> encode_pairing_offer p = w"
    by (auto simp: decode_pairing_offer_def encode_pairing_offer_def Let_def bind_eq_Some_conv reader_iffs read_blob_iff
        split: if_splits)
qed

interpretation pairing_accept_codec: strict_codec encode_pairing_accept decode_pairing_accept
  "\<lambda>a. pa_key_id a \<noteq> 0 \<and> length (pa_server_tag a) = 32"
proof
  fix a :: pairing_accept
  assume "pa_key_id a \<noteq> 0 \<and> length (pa_server_tag a) = 32"
  then show "decode_pairing_accept (encode_pairing_accept a) = Some a"
    by (simp add: decode_pairing_accept_def encode_pairing_accept_def)
next
  fix w a assume "decode_pairing_accept w = Some a"
  then show "(pa_key_id a \<noteq> 0 \<and> length (pa_server_tag a) = 32) \<and> encode_pairing_accept a = w"
    by (auto simp: decode_pairing_accept_def encode_pairing_accept_def bind_eq_Some_conv reader_iffs split: if_splits)
qed

interpretation enrollment_codec: strict_codec encode_enrollment_request decode_enrollment_request
  "\<lambda>r. valid_request_fields r \<and> length (er_client_id r) = 16 \<and> length (er_nonce r) = 32 \<and> length (er_authenticator r) = 32"
proof
  fix r assume "valid_request_fields r \<and> length (er_client_id r) = 16 \<and> length (er_nonce r) = 32 \<and>
    length (er_authenticator r) = 32"
  then show "decode_enrollment_request (encode_enrollment_request r) = Some r"
    by (simp add: decode_enrollment_request_def encode_enrollment_request_def Let_def valid_request_fields_def)
next
  fix w r assume "decode_enrollment_request w = Some r"
  then show "(valid_request_fields r \<and> length (er_client_id r) = 16 \<and> length (er_nonce r) = 32 \<and>
      length (er_authenticator r) = 32) \<and> encode_enrollment_request r = w"
    by (auto simp: decode_enrollment_request_def encode_enrollment_request_def Let_def bind_eq_Some_conv reader_iffs
        split: if_splits)
qed

section \<open>Transcripts, tags and codes\<close>

definition transcript_wf :: "pairing_transcript \<Rightarrow> bool" where
  "transcript_wf t \<longleftrightarrow> length (pt_client_nonce t) = 32 \<and> length (pt_server_nonce t) = 32"

lemma encode_transcript_inj:
  assumes "encode_transcript t = Some e" "encode_transcript t' = Some e" "transcript_wf t" "transcript_wf t'"
  shows "t = t'"
proof -
  have v: "valid_transcript t" "valid_transcript t'" using assms by (auto simp: encode_transcript_def split: if_splits)
  then have l: "length (pt_uuid t) \<le> 128" "length (pt_hostname t) \<le> 128" "length (pt_client_key t) \<le> 256"
    "length (pt_server_key t) \<le> 256" "length (pt_uuid t') \<le> 128" "length (pt_hostname t') \<le> 128"
    "length (pt_client_key t') \<le> 256" "length (pt_server_key t') \<le> 256"
    by (auto simp: valid_transcript_def dest: identity_length public_key_length)
  show ?thesis
    using assms v l by (auto simp: encode_transcript_def transcript_wf_def)
qed

lemma tag_label_inj: "tag_label r @ x = tag_label r' @ y \<longleftrightarrow> r = r' \<and> x = y"
  by (cases r; cases r') (simp_all add: tag_label_def ascii_def)

lemma sas_digits_decimal: "length (sas_digits n v) = n \<and> list_all (\<lambda>d. 0x30 \<le> d \<and> d \<le> 0x39) (sas_digits n v)"
proof (induction n arbitrary: v)
  case (Suc n)
  have "unat (v mod 10) < 10" by (simp add: unat_mod)
  then have u: "unat (ucast (v mod 10) :: u8) < 10" by (simp add: unsigned_ucast_eq unsigned_take_bit_eq take_bit_eq_mod)
  then have "unat (0x30 + ucast (v mod 10) :: u8) = 0x30 + unat (ucast (v mod 10) :: u8)"
    by (simp add: unat_word_ariths)
  then have "(0x30 :: u8) \<le> 0x30 + ucast (v mod 10)" "(0x30 + ucast (v mod 10) :: u8) \<le> 0x39"
    using u by (simp_all add: word_le_nat_alt)
  then show ?case using Suc [of "v div 10"] by simp
qed simp

lemma sas_is_six_digits:
  "derive_pairing_secrets sha bcrypt shared t = Some s \<Longrightarrow>
   length (ps_sas s) = 6 \<and> list_all (\<lambda>d. 0x30 \<le> d \<and> d \<le> 0x39) (ps_sas s)"
  using sas_digits_decimal [of 6]
  by (auto simp: derive_pairing_secrets_def format_sas_def Let_def bind_eq_Some_conv split: if_splits)

end
