(* ===== verification/ServerSession.thy ===== *)
theory ServerSession
  imports ControlChannel Pairing
begin

text \<open>
  How a connection becomes a client: the stages of a connection in \<^verbatim>\<open>server/src/control_plane.cpp\<close>
  (\<open>on_bytes\<close>, \<open>process_frame\<close> and the handlers of enrolment, pairing and authentication), the
  pairing requests that wait for the operator, and the operator's answers. Everything that varies
  from call to call is the record \<open>env\<close>: the two clocks, the random bytes, the fresh key pair,
  whether the keyring could be saved and whether the dispatcher took a message. The primitives
  are the record \<open>world\<close>, together with whether a keyring file is configured. A handler returns
  whether the loop goes on, the new state and the messages and requests for the dispatcher;
  closing a connection is a request, its effect is the later event \<open>Closed\<close>.

  The theory \<open>SessionSafety\<close> proves what can be said of every run of these events.
\<close>

section \<open>State\<close>

datatype stage = Initial | Enrollment | Enrollment_complete | Probe_complete | Pairing_offered | Pairing_pending
  | Auth_hello_stage | Auth_proof_stage | Authenticated

record conn =
  co_source :: bytes
  co_stage :: stage
  co_initial :: bytes
  co_parser :: bytes
  co_preamble :: connection_preamble
  co_hello :: auth_hello
  co_challenge :: auth_challenge
  co_psk :: bytes
  co_session_key :: bytes
  co_aead :: bool
  co_send_key :: bytes
  co_send_iv :: bytes
  co_receive_key :: bytes
  co_receive_iv :: bytes
  co_receive_sequence :: sequence_guard
  co_send_sequence :: u64
  co_request_id :: u64
  co_pairing_id :: u64
  co_settled :: bool

record pending_pairing =
  pp_connection :: u64
  pp_request_id :: u64
  pp_address :: bytes
  pp_transcript :: pairing_transcript
  pp_secrets :: pairing_secrets
  pp_expires :: int
  pp_confirmed :: bool

record server =
  sv_conns :: "(u64 \<times> conn) list"
  sv_keys :: key_store
  sv_replay :: replay_protector
  sv_authority :: "enrollment_authority option"
  sv_window :: bool
  sv_pending :: "(u64 \<times> pending_pairing) list"
  sv_next_pairing :: u64

record world =
  wd_crypto :: crypto
  wd_sha :: "bytes \<Rightarrow> bytes option"
  wd_ecdh :: "bytes \<Rightarrow> bytes \<Rightarrow> bytes option"
  wd_keyring :: bool

record env =
  en_unix :: u64
  en_now :: int
  en_nonce :: "bytes option"
  en_pair :: "(u16 \<times> bytes) option"
  en_saved :: bool
  en_sent :: bool

datatype action = Transmit u64 bytes | Fail u64 | Disconnect u64 | Deliver u64 authenticated_command | Publish u64

definition kMaximumPendingPairings :: nat where "kMaximumPendingPairings = 16"
definition kPairingApprovalWindow :: int where "kPairingApprovalWindow = 180"

definition heartbeat_type :: u16 where "heartbeat_type = 3"
definition enrollment_request_type :: u16 where "enrollment_request_type = 12"
definition enrollment_accept_type :: u16 where "enrollment_accept_type = 13"
definition pairing_hello_type :: u16 where "pairing_hello_type = 38"
definition pairing_offer_type :: u16 where "pairing_offer_type = 39"
definition pairing_confirm_type :: u16 where "pairing_confirm_type = 40"
definition pairing_accept_type :: u16 where "pairing_accept_type = 41"
definition pairing_reject_type :: u16 where "pairing_reject_type = 42"

definition empty_hello :: auth_hello where
  "empty_hello = \<lparr>hello_client_id = replicate 16 0, hello_client_nonce = replicate 32 0, hello_time = 0, hello_key_id = 0\<rparr>"

definition new_conn :: "bytes \<Rightarrow> conn" where
  "new_conn source = \<lparr>co_source = source, co_stage = Initial, co_initial = [], co_parser = [],
     co_preamble = make_preamble role_client (replicate 16 0) 0 0, co_hello = empty_hello,
     co_challenge = \<lparr>chal_server_nonce = replicate 32 0, chal_time = 0\<rparr>, co_psk = [],
     co_session_key = replicate 32 0, co_aead = False, co_send_key = replicate 32 0, co_send_iv = replicate 12 0,
     co_receive_key = replicate 32 0, co_receive_iv = replicate 12 0,
     co_receive_sequence = \<lparr>next_expected = 0, exhausted = False\<rparr>, co_send_sequence = 0, co_request_id = 0,
     co_pairing_id = 0, co_settled = False\<rparr>"

definition set_conn :: "u64 \<Rightarrow> (conn \<Rightarrow> conn) \<Rightarrow> server \<Rightarrow> server" where
  "set_conn k f sv = sv\<lparr>sv_conns := alist_modify k f (sv_conns sv)\<rparr>"

type_synonym outcome = "bool \<times> server \<times> action list"

definition plain_wire :: "u16 \<Rightarrow> u64 \<Rightarrow> bytes \<Rightarrow> bytes" where
  "plain_wire typ request_id body =
     encode_tcp_frame \<lparr>cmd_version = kCommandVersion, cmd_type = typ,
       cmd_payload_bytes = word_of_nat (length body), cmd_request_id = request_id\<rparr> body"

section \<open>Pairing\<close>

definition send_pairing_reject :: "u64 \<Rightarrow> u64 \<Rightarrow> reject_reason \<Rightarrow> action list" where
  "send_pairing_reject k request_id reason =
     [Transmit k (plain_wire pairing_reject_type request_id (encode_pairing_reject reason))]"

definition refuse_pairing :: "u64 \<Rightarrow> u64 \<Rightarrow> reject_reason \<Rightarrow> server \<Rightarrow> outcome" where
  "refuse_pairing k request_id reason sv = (False, sv, send_pairing_reject k request_id reason @ [Fail k])"

definition settle_pairing_connection :: "u64 \<Rightarrow> server \<Rightarrow> server" where
  "settle_pairing_connection k sv = set_conn k (\<lambda>c. c\<lparr>co_settled := True\<rparr>) sv"

definition refuse_abandoned :: "(u64 \<times> u64) list \<Rightarrow> reject_reason \<Rightarrow> server \<Rightarrow> server \<times> action list" where
  "refuse_abandoned abandoned reason sv =
     (fold (\<lambda>(k, _). settle_pairing_connection k) abandoned sv,
      concat (map (\<lambda>(k, r). send_pairing_reject k r reason) abandoned))"

definition take_expired :: "int \<Rightarrow> server \<Rightarrow> (u64 \<times> u64) list \<times> server" where
  "take_expired now sv =
     (map (\<lambda>(_, p). (pp_connection p, pp_request_id p)) (filter (\<lambda>(_, p). \<not> pp_expires p > now) (sv_pending sv)),
      sv\<lparr>sv_pending := filter (\<lambda>(_, p). pp_expires p > now) (sv_pending sv)\<rparr>)"

definition drop_pending_pairing :: "u64 \<Rightarrow> server \<Rightarrow> server" where
  "drop_pending_pairing pid sv = sv\<lparr>sv_pending := alist_erase pid (sv_pending sv)\<rparr>"

definition drop_pending_pairings_for :: "u64 \<Rightarrow> server \<Rightarrow> server" where
  "drop_pending_pairings_for k sv = sv\<lparr>sv_pending := filter (\<lambda>(_, p). pp_connection p \<noteq> k) (sv_pending sv)\<rparr>"

text \<open>The part of \<open>process_pairing_hello\<close> after the secrets: the request takes a slot.\<close>

definition admit_pairing ::
    "env \<Rightarrow> u64 \<Rightarrow> bytes \<Rightarrow> u64 \<Rightarrow> pairing_transcript \<Rightarrow> pairing_secrets \<Rightarrow> bytes \<Rightarrow> server \<Rightarrow> outcome" where
  "admit_pairing en k source request_id transcript secrets offer_payload sv =
     (case take_expired (en_now en) sv of
        (expired, sv) \<Rightarrow>
          if \<not> sv_window sv \<or> length (sv_pending sv) \<ge> kMaximumPendingPairings
          then (case refuse_abandoned expired Timed_out sv of
                  (sv, acts) \<Rightarrow> (case refuse_pairing k request_id Unavailable sv of
                     (go, sv, acts') \<Rightarrow> (go, sv, acts @ acts')))
          else let pid = sv_next_pairing sv;
                   p = \<lparr>pp_connection = k, pp_request_id = request_id, pp_address = source,
                        pp_transcript = transcript, pp_secrets = secrets,
                        pp_expires = en_now en + kPairingApprovalWindow, pp_confirmed = False\<rparr>;
                   sv = sv\<lparr>sv_next_pairing := pid + 1, sv_pending := alist_emplace pid p (sv_pending sv)\<rparr>
               in case refuse_abandoned expired Timed_out sv of
                    (sv, acts) \<Rightarrow>
                      if \<not> en_sent en then (False, drop_pending_pairing pid sv, acts)
                      else (True,
                            set_conn k (\<lambda>c. c\<lparr>co_pairing_id := pid, co_request_id := request_id,
                                              co_stage := Pairing_offered\<rparr>) sv,
                            acts @ [Transmit k (plain_wire pairing_offer_type request_id offer_payload)]))"

definition process_pairing_hello :: "world \<Rightarrow> env \<Rightarrow> u64 \<Rightarrow> conn \<Rightarrow> tcp_frame \<Rightarrow> server \<Rightarrow> outcome" where
  "process_pairing_hello w en k c frame sv =
     (let request_id = cmd_request_id (envelope frame) in
      case decode_pairing_hello (payload frame) of
        None \<Rightarrow> refuse_pairing k request_id Protocol_error sv
      | Some hello \<Rightarrow>
      (case en_pair en of
        None \<Rightarrow> refuse_pairing k request_id Protocol_error sv
      | Some (agreement, public_key) \<Rightarrow>
          if agreement \<noteq> ph_agreement hello then refuse_pairing k request_id Protocol_error sv
          else case en_nonce en of
            None \<Rightarrow> refuse_pairing k request_id Unspecified sv
          | Some nonce \<Rightarrow>
              (let offer = \<lparr>po_version = kPairingVersion, po_agreement = agreement, po_public_key = public_key,
                            po_nonce = nonce\<rparr> in
               case make_pairing_transcript hello offer of
                 None \<Rightarrow> refuse_pairing k request_id Protocol_error sv
               | Some transcript \<Rightarrow>
               (case agree (wd_ecdh w) public_key (ph_public_key hello) of
                 None \<Rightarrow> refuse_pairing k request_id Protocol_error sv
               | Some shared \<Rightarrow>
               (case derive_pairing_secrets (wd_sha w) (crypto_hmac (wd_crypto w)) shared transcript of
                 None \<Rightarrow> refuse_pairing k request_id Unspecified sv
               | Some secrets \<Rightarrow>
                   (let offer_payload = encode_pairing_offer offer
                    in if offer_payload = [] then (False, sv, [Fail k])
                       else admit_pairing en k (co_source c) request_id transcript secrets offer_payload sv))))))"

definition answer_pairing_heartbeat :: "env \<Rightarrow> u64 \<Rightarrow> tcp_frame \<Rightarrow> server \<Rightarrow> outcome" where
  "answer_pairing_heartbeat en k frame sv =
     (if payload frame \<noteq> [] then (False, sv, [Fail k])
      else (en_sent en, sv, if en_sent en then [Transmit k (plain_wire heartbeat_type (cmd_request_id (envelope frame)) [])] else []))"

definition process_pairing_confirm :: "world \<Rightarrow> env \<Rightarrow> u64 \<Rightarrow> conn \<Rightarrow> tcp_frame \<Rightarrow> server \<Rightarrow> outcome" where
  "process_pairing_confirm w en k c frame sv =
     (if cmd_type (envelope frame) = heartbeat_type then answer_pairing_heartbeat en k frame sv
      else if cmd_type (envelope frame) \<noteq> pairing_confirm_type \<or>
              cmd_request_id (envelope frame) \<noteq> co_request_id c then (False, sv, [Fail k])
      else case map_of (sv_pending sv) (co_pairing_id c) of
        None \<Rightarrow> (False, sv, [Fail k])
      | Some p \<Rightarrow>
          (let verified = (case decode_pairing_confirm (payload frame) of
                 None \<Rightarrow> False
               | Some tag \<Rightarrow> verify_confirmation_tag (crypto_hmac (wd_crypto w)) (pp_secrets p) (pp_transcript p) Client_role tag)
           in if verified
              then (True,
                    set_conn k (\<lambda>c. c\<lparr>co_stage := Pairing_pending\<rparr>)
                      (sv\<lparr>sv_pending := alist_modify (co_pairing_id c)
                           (\<lambda>p. p\<lparr>pp_confirmed := True, pp_expires := en_now en + kPairingApprovalWindow\<rparr>)
                           (sv_pending sv)\<rparr>), [])
              else refuse_pairing k (cmd_request_id (envelope frame)) Confirmation_failed
                     (drop_pending_pairing (co_pairing_id c) sv)))"

definition process_pairing_wait :: "env \<Rightarrow> u64 \<Rightarrow> conn \<Rightarrow> tcp_frame \<Rightarrow> server \<Rightarrow> outcome" where
  "process_pairing_wait en k c frame sv =
     (if co_settled c then (False, sv, [Disconnect k])
      else if cmd_type (envelope frame) \<noteq> heartbeat_type then (False, sv, [Fail k])
      else answer_pairing_heartbeat en k frame sv)"

section \<open>Enrolment and authentication\<close>

definition process_enrollment :: "world \<Rightarrow> env \<Rightarrow> u64 \<Rightarrow> tcp_frame \<Rightarrow> server \<Rightarrow> outcome" where
  "process_enrollment w en k frame sv =
     (case sv_authority sv of
        None \<Rightarrow> (False, sv, [Fail k])
      | Some authority \<Rightarrow>
          if cmd_type (envelope frame) \<noteq> enrollment_request_type then (False, sv, [Fail k])
          else case decode_enrollment_request (payload frame) of
            None \<Rightarrow> (False, sv, [Fail k])
          | Some request \<Rightarrow>
              (let previous = snapshot (sv_keys sv) in
               case authority_accept (crypto_hmac (wd_crypto w)) request (en_unix en) authority (sv_keys sv) of
                 (err, authority', keys) \<Rightarrow>
                   (let sv = sv\<lparr>sv_authority := Some authority', sv_keys := keys\<rparr>
                    in if err \<noteq> None then (False, sv, [Fail k])
                       else if wd_keyring w \<and> \<not> en_saved en
                       then (False, sv\<lparr>sv_keys := snd (replace previous keys)\<rparr>, [Fail k])
                       else if \<not> en_sent en then (False, sv, [])
                       else (True, set_conn k (\<lambda>c. c\<lparr>co_stage := Enrollment_complete\<rparr>) sv,
                             [Transmit k (plain_wire enrollment_accept_type (cmd_request_id (envelope frame))
                                (append_le (er_key_id request)))]))))"

definition process_auth_hello :: "env \<Rightarrow> u64 \<Rightarrow> conn \<Rightarrow> tcp_frame \<Rightarrow> server \<Rightarrow> outcome" where
  "process_auth_hello en k c frame sv =
     (if cmd_type (envelope frame) \<noteq> auth_hello_type then (False, sv, [Fail k])
      else case decode_auth_hello (payload frame) of
        None \<Rightarrow> (False, sv, [Fail k])
      | Some hello \<Rightarrow>
          if \<not> validate_auth_hello hello \<or> hello_client_id hello \<noteq> pre_identity (co_preamble c) \<or>
             hello_key_id hello \<noteq> pre_key_id (co_preamble c) then (False, sv, [Fail k])
          else case resolve (hello_client_id hello) (hello_key_id hello) (sv_keys sv) of
            None \<Rightarrow> (False, sv, [Fail k])
          | Some key \<Rightarrow>
              (let c' = (\<lambda>c. c\<lparr>co_hello := hello, co_psk := key,
                               co_challenge := (co_challenge c)\<lparr>chal_time := en_unix en\<rparr>\<rparr>) in
               case en_nonce en of
                 None \<Rightarrow> (False, set_conn k c' sv, [Fail k])
               | Some nonce \<Rightarrow>
                   (let aead = (pre_flags (co_preamble c) AND kPreambleFlagAead \<noteq> 0);
                        flags = (if aead then kPreambleFlagAead else kPreambleFlagNone);
                        challenge = \<lparr>chal_server_nonce = nonce, chal_time = en_unix en\<rparr>;
                        sv = set_conn k (\<lambda>c. (c' c)\<lparr>co_challenge := challenge, co_aead := co_aead c \<or> aead\<rparr>) sv;
                        wire = encode_connection_preamble (make_preamble role_server (replicate 16 0) 0 flags) @
                               plain_wire auth_challenge_type (cmd_request_id (envelope frame)) (encode_auth_challenge challenge)
                    in if \<not> en_sent en then (False, sv, [])
                       else (True,
                             set_conn k (\<lambda>c. c\<lparr>co_request_id := cmd_request_id (envelope frame),
                                               co_stage := Auth_proof_stage\<rparr>) sv,
                             [Transmit k wire]))))"

definition install_session :: "world \<Rightarrow> bytes \<Rightarrow> conn \<Rightarrow> conn option" where
  "install_session w key c =
     (let c = c\<lparr>co_session_key := key\<rparr>
      in if \<not> co_aead c then Some c
         else map_option (\<lambda>keys. c\<lparr>co_send_key := server_to_client_key keys, co_send_iv := server_to_client_iv keys,
                                   co_receive_key := client_to_server_key keys, co_receive_iv := client_to_server_iv keys\<rparr>)
                (derive_aead_session_keys (wd_crypto w) key))"

definition process_auth_proof :: "world \<Rightarrow> env \<Rightarrow> u64 \<Rightarrow> conn \<Rightarrow> tcp_frame \<Rightarrow> server \<Rightarrow> outcome" where
  "process_auth_proof w en k c frame sv =
     (if cmd_type (envelope frame) \<noteq> auth_proof_type \<or> cmd_request_id (envelope frame) \<noteq> co_request_id c \<or>
         length (payload frame) \<noteq> 32 then (False, sv, [Fail k])
      else case compute_client_proof (crypto_hmac (wd_crypto w)) (co_psk c) (co_hello c) (co_challenge c) of
        None \<Rightarrow> (False, sv, [Fail k])
      | Some expected \<Rightarrow>
          if \<not> constant_time_equal expected (payload frame) then (False, sv, [Fail k])
          else case replay_accept (co_hello c) (en_unix en) (sv_replay sv) of
            (False, rp) \<Rightarrow> (False, sv\<lparr>sv_replay := rp\<rparr>, [Fail k])
          | (True, rp) \<Rightarrow>
              (let sv = set_conn k (\<lambda>c. c\<lparr>co_psk := []\<rparr>) (sv\<lparr>sv_replay := rp\<rparr>) in
               case derive_session_key (crypto_hmac (wd_crypto w)) (co_psk c) (co_hello c) (co_challenge c) of
                 None \<Rightarrow> (False, sv, [Fail k])
               | Some key \<Rightarrow>
               (case compute_server_proof (crypto_hmac (wd_crypto w)) key (co_hello c) (co_challenge c) of
                 None \<Rightarrow> (False, sv, [Fail k])
               | Some server_proof \<Rightarrow>
                   if \<not> en_sent en then (False, sv, [])
                   else let wire = Transmit k (plain_wire auth_accept_type (co_request_id c) server_proof) in
                     case install_session w key (c\<lparr>co_psk := []\<rparr>) of
                       None \<Rightarrow> (False, set_conn k (\<lambda>c. c\<lparr>co_session_key := key\<rparr>) sv, [wire, Fail k])
                     | Some c' \<Rightarrow>
                         (True,
                          set_conn k (\<lambda>_. c'\<lparr>co_receive_sequence := \<lparr>next_expected = 0, exhausted = False\<rparr>,
                                             co_send_sequence := 0, co_stage := Authenticated\<rparr>) sv,
                          [wire, Publish k]))))"

definition decode_command :: "world \<Rightarrow> conn \<Rightarrow> tcp_frame \<Rightarrow> authenticated_command option" where
  "decode_command w c frame =
     (if co_aead c then decode_authenticated_command_aead (wd_crypto w) (co_receive_key c) (co_receive_iv c) frame
      else decode_authenticated_command (wd_crypto w) (co_session_key c) frame)"

definition receive_authenticated :: "world \<Rightarrow> u64 \<Rightarrow> conn \<Rightarrow> tcp_frame \<Rightarrow> server \<Rightarrow> outcome" where
  "receive_authenticated w k c frame sv =
     (case decode_command w c frame of
        None \<Rightarrow> (False, sv, [Disconnect k])
      | Some command \<Rightarrow>
          (case guard_accept (ac_sequence command) (co_receive_sequence c) of
             (False, g) \<Rightarrow> (False, sv, [Disconnect k])
           | (True, g) \<Rightarrow> (True, set_conn k (\<lambda>c. c\<lparr>co_receive_sequence := g\<rparr>) sv, [Deliver k command])))"

text \<open>\<open>send_authenticated_locked\<close>: the number of a message is used up only when the dispatcher took it.\<close>

definition send_authenticated :: "world \<Rightarrow> env \<Rightarrow> u64 \<Rightarrow> u16 \<Rightarrow> u64 \<Rightarrow> bytes \<Rightarrow> server \<Rightarrow> outcome" where
  "send_authenticated w en k typ request_id body sv =
     (case map_of (sv_conns sv) k of
        None \<Rightarrow> (False, sv, [])
      | Some c \<Rightarrow>
          if co_stage c \<noteq> Authenticated \<or> co_send_sequence c = -1 \<or> length body > kMaxCommandPayload then (False, sv, [])
          else (let envl = \<lparr>cmd_version = kCommandVersion, cmd_type = typ, cmd_payload_bytes = word_of_nat (length body),
                            cmd_request_id = request_id\<rparr>;
                    wire = (if co_aead c
                            then encode_authenticated_command_aead (wd_crypto w) (co_send_key c) (co_send_iv c) envl (co_send_sequence c) body
                            else encode_authenticated_command (wd_crypto w) (co_session_key c) envl (co_send_sequence c) body)
                in if wire = [] \<or> \<not> en_sent en then (False, sv, [])
                   else (True, set_conn k (\<lambda>c. c\<lparr>co_send_sequence := co_send_sequence c + 1\<rparr>) sv, [Transmit k wire])))"

section \<open>Connections\<close>

definition process_frame :: "world \<Rightarrow> env \<Rightarrow> u64 \<Rightarrow> tcp_frame \<Rightarrow> server \<Rightarrow> outcome" where
  "process_frame w en k frame sv =
     (case map_of (sv_conns sv) k of
        None \<Rightarrow> (False, sv, [])
      | Some c \<Rightarrow>
          (case co_stage c of
             Enrollment \<Rightarrow>
               if cmd_type (envelope frame) = pairing_hello_type then process_pairing_hello w en k c frame sv
               else process_enrollment w en k frame sv
           | Pairing_offered \<Rightarrow> process_pairing_confirm w en k c frame sv
           | Pairing_pending \<Rightarrow> process_pairing_wait en k c frame sv
           | Enrollment_complete \<Rightarrow> (False, sv, [Disconnect k])
           | Probe_complete \<Rightarrow> (False, sv, [Disconnect k])
           | Auth_hello_stage \<Rightarrow> process_auth_hello en k c frame sv
           | Auth_proof_stage \<Rightarrow> process_auth_proof w en k c frame sv
           | Authenticated \<Rightarrow> receive_authenticated w k c frame sv
           | Initial \<Rightarrow> (False, sv, [Fail k])))"

text \<open>The loop over the frames of one read; each frame has its own readings of the clocks and so on.\<close>

fun process_frames :: "world \<Rightarrow> (nat \<Rightarrow> env) \<Rightarrow> nat \<Rightarrow> u64 \<Rightarrow> tcp_frame list \<Rightarrow> server \<Rightarrow> server \<times> action list" where
  "process_frames w ens n k [] sv = (sv, [])"
| "process_frames w ens n k (f # fs) sv =
     (case process_frame w (ens n) k f sv of
        (go, sv', acts) \<Rightarrow>
          if \<not> go then (sv', acts)
          else case process_frames w ens (Suc n) k fs sv' of (sv'', acts') \<Rightarrow> (sv'', acts @ acts'))"

definition feed_frames :: "world \<Rightarrow> (nat \<Rightarrow> env) \<Rightarrow> u64 \<Rightarrow> bytes \<Rightarrow> server \<Rightarrow> server \<times> action list" where
  "feed_frames w ens k bs sv =
     (if bs = [] then (sv, [])
      else case map_of (sv_conns sv) k of
        None \<Rightarrow> (sv, [])
      | Some c \<Rightarrow>
          (case feed (co_parser c) bs [] of
             (ok, buffer, frames) \<Rightarrow>
               (let sv = set_conn k (\<lambda>c. c\<lparr>co_parser := buffer\<rparr>) sv
                in if \<not> ok then (sv, [Fail k]) else process_frames w ens 0 k frames sv)))"

text \<open>The first bytes of a connection: a preamble, or enrolment when the magic number is missing.\<close>

definition open_stage :: "env \<Rightarrow> u64 \<Rightarrow> bytes \<Rightarrow> server \<Rightarrow> (bytes \<times> server) option \<times> server \<times> action list" where
  "open_stage en k initial sv =
     (let keep = set_conn k (\<lambda>c. c\<lparr>co_initial := initial\<rparr>) sv;
          clear = (\<lambda>f. set_conn k (\<lambda>c. (f c)\<lparr>co_initial := []\<rparr>) sv) in
      if length initial < 4 then (None, keep, [])
      else if le_loop 0 0 (take 4 initial) = kMagic
      then (if length initial < kConnectionPreambleBytes then (None, keep, [])
            else case decode_connection_preamble (take kConnectionPreambleBytes initial) of
              None \<Rightarrow> (None, keep, [Fail k])
            | Some preamble \<Rightarrow>
                if pre_role preamble = role_diagnostic
                then (let response = encode_connection_preamble (make_preamble role_server (replicate 16 0) 0 kPreambleFlagNone)
                      in if response = [] \<or> \<not> en_sent en then (None, keep, [Fail k])
                         else (None, clear (\<lambda>c. c\<lparr>co_stage := Probe_complete\<rparr>), [Transmit k response]))
                else if pre_role preamble \<noteq> role_client then (None, keep, [Fail k])
                else (Some (drop kConnectionPreambleBytes initial,
                            clear (\<lambda>c. c\<lparr>co_preamble := preamble, co_stage := Auth_hello_stage\<rparr>)), sv, []))
      else (Some (initial, clear (\<lambda>c. c\<lparr>co_stage := Enrollment\<rparr>)), sv, []))"

definition on_bytes :: "world \<Rightarrow> (nat \<Rightarrow> env) \<Rightarrow> u64 \<Rightarrow> bytes \<Rightarrow> server \<Rightarrow> server \<times> action list" where
  "on_bytes w ens k bs sv =
     (case map_of (sv_conns sv) k of
        None \<Rightarrow> (sv, [])
      | Some c \<Rightarrow>
          if co_stage c = Initial
          then (case open_stage (ens 0) k (co_initial c @ bs) sv of
                  (None, sv, acts) \<Rightarrow> (sv, acts)
                | (Some (rest, sv), _, acts) \<Rightarrow> feed_frames w ens k rest sv)
          else feed_frames w ens k bs sv)"

section \<open>The operator\<close>

definition approve_pairing :: "world \<Rightarrow> env \<Rightarrow> u64 \<Rightarrow> server \<Rightarrow> outcome" where
  "approve_pairing w en pid sv =
     (case take_expired (en_now en) sv of
        (expired, sv) \<Rightarrow>
          (let found = (case map_of (sv_pending sv) pid of Some p \<Rightarrow> if pp_confirmed p then Some p else None | None \<Rightarrow> None);
               sv = (if found = None then sv else drop_pending_pairing pid sv)
           in case refuse_abandoned expired Timed_out sv of
                (sv, acts) \<Rightarrow>
                  (case found of
                     None \<Rightarrow> (False, sv, acts)
                   | Some p \<Rightarrow>
                   (case client_id_from_uuid (wd_sha w) (pt_uuid (pp_transcript p)) of
                     None \<Rightarrow> (False, sv, acts)
                   | Some client_id \<Rightarrow>
                   (case confirmation_tag (crypto_hmac (wd_crypto w)) (pp_secrets p) (pp_transcript p) Server_role of
                     None \<Rightarrow> (False, sv, acts)
                   | Some server_tag \<Rightarrow>
                       (let previous = snapshot (sv_keys sv) in
                        case rotate_key client_id (ps_enrolled_key (pp_secrets p)) (sv_keys sv) of
                          (Inl _, _) \<Rightarrow> (False, sv, acts)
                        | (Inr key_id, keys) \<Rightarrow>
                            if wd_keyring w \<and> \<not> en_saved en
                            then (False, sv\<lparr>sv_keys := snd (replace previous keys)\<rparr>, acts)
                            else let sv = sv\<lparr>sv_keys := keys\<rparr>;
                                     body = encode_pairing_accept \<lparr>pa_key_id = key_id, pa_server_tag = server_tag\<rparr>
                                 in if body = [] then (False, sv, acts)
                                    else let sv = settle_pairing_connection (pp_connection p) sv
                                         in if \<not> en_sent en then (False, sv, acts)
                                            else (True, sv, acts @ [Transmit (pp_connection p)
                                                    (plain_wire pairing_accept_type (pp_request_id p) body)])))))))"

definition reject_pairing :: "u64 \<Rightarrow> server \<Rightarrow> outcome" where
  "reject_pairing pid sv =
     (case map_of (sv_pending sv) pid of
        None \<Rightarrow> (False, sv, [])
      | Some p \<Rightarrow>
          (True, settle_pairing_connection (pp_connection p) (drop_pending_pairing pid sv),
           send_pairing_reject (pp_connection p) (pp_request_id p) Operator_declined))"

definition expire_pending_pairings :: "int \<Rightarrow> server \<Rightarrow> server \<times> action list" where
  "expire_pending_pairings now sv =
     (case take_expired now sv of (expired, sv) \<Rightarrow> refuse_abandoned expired Timed_out sv)"

definition set_pairing_window :: "bool \<Rightarrow> server \<Rightarrow> server \<times> action list" where
  "set_pairing_window open_it sv =
     (let sv = sv\<lparr>sv_window := open_it\<rparr>
      in if open_it then (sv, [])
         else refuse_abandoned (map (\<lambda>(_, p). (pp_connection p, pp_request_id p)) (sv_pending sv)) Unavailable
                (sv\<lparr>sv_pending := []\<rparr>))"

text \<open>What the operator sees: the confirmed requests that have not expired, by number.\<close>

definition visible_pairings :: "int \<Rightarrow> server \<Rightarrow> (u64 \<times> bytes \<times> bytes) list" where
  "visible_pairings now sv =
     sort_key fst (map (\<lambda>(pid, p). (pid, pt_hostname (pp_transcript p), ps_sas (pp_secrets p)))
       (filter (\<lambda>(_, p). pp_confirmed p \<and> pp_expires p > now) (sv_pending sv)))"

datatype event = Connect u64 bytes | Bytes "nat \<Rightarrow> env" u64 bytes | Closed u64 | Approve env u64 | Reject u64
  | Expire int | Set_window bool | Revoke_key bytes u32 | Send env u64 u16 u64 bytes

fun server_step :: "world \<Rightarrow> event \<Rightarrow> server \<Rightarrow> server" where
  "server_step w (Connect k source) sv =
     (if map_of (sv_conns sv) k \<noteq> None then sv else sv\<lparr>sv_conns := sv_conns sv @ [(k, new_conn source)]\<rparr>)"
| "server_step w (Bytes ens k bs) sv = fst (on_bytes w ens k bs sv)"
| "server_step w (Closed k) sv = drop_pending_pairings_for k (sv\<lparr>sv_conns := alist_erase k (sv_conns sv)\<rparr>)"
| "server_step w (Approve en pid) sv = fst (snd (approve_pairing w en pid sv))"
| "server_step w (Reject pid) sv = fst (snd (reject_pairing pid sv))"
| "server_step w (Expire now) sv = fst (expire_pending_pairings now sv)"
| "server_step w (Set_window b) sv = fst (set_pairing_window b sv)"
| "server_step w (Revoke_key cid kid) sv = sv\<lparr>sv_keys := snd (revoke cid kid (sv_keys sv))\<rparr>"
| "server_step w (Send en k typ request_id body) sv = fst (snd (send_authenticated w en k typ request_id body sv))"

definition initial_server :: "key_store \<Rightarrow> enrollment_authority option \<Rightarrow> replay_protector \<Rightarrow> server" where
  "initial_server keys authority replay =
     \<lparr>sv_conns = [], sv_keys = keys, sv_replay = replay, sv_authority = authority, sv_window = False,
      sv_pending = [], sv_next_pairing = 1\<rparr>"

end
