(* ===== verification/SessionSafety.thy ===== *)
theory SessionSafety
  imports ServerSession
begin

text \<open>
  Where keys and sessions of the server come from. The frames that connections sent and the
  decisions of the operator are recorded in a log, each with the server's state at that moment
  (\<open>run_log\<close>, which follows \<open>process_frames\<close>, \<open>feed_frames\<close> and \<open>on_bytes\<close>), and the invariant
  \<open>session_inv\<close> ties the state to the log: every usable key to its origin, every confirmed
  request to the tag that confirmed it, every session to its hello and its proof.
\<close>

section \<open>The log\<close>

datatype happening = Heard env u64 tcp_frame | Decided event

type_synonym log = "(server \<times> happening) list"

fun frames_log :: "world \<Rightarrow> (nat \<Rightarrow> env) \<Rightarrow> nat \<Rightarrow> u64 \<Rightarrow> tcp_frame list \<Rightarrow> server \<Rightarrow> log" where
  "frames_log w ens n k [] sv = []"
| "frames_log w ens n k (f # fs) sv =
     (case process_frame w (ens n) k f sv of
        (go, sv', _) \<Rightarrow> (sv, Heard (ens n) k f) # (if go then frames_log w ens (Suc n) k fs sv' else []))"

definition feed_log :: "world \<Rightarrow> (nat \<Rightarrow> env) \<Rightarrow> u64 \<Rightarrow> bytes \<Rightarrow> server \<Rightarrow> log" where
  "feed_log w ens k bs sv =
     (if bs = [] then []
      else case map_of (sv_conns sv) k of
        None \<Rightarrow> []
      | Some c \<Rightarrow>
          (case feed (co_parser c) bs [] of
             (ok, buffer, frames) \<Rightarrow>
               if \<not> ok then [] else frames_log w ens 0 k frames (set_conn k (\<lambda>c. c\<lparr>co_parser := buffer\<rparr>) sv)))"

definition bytes_log :: "world \<Rightarrow> (nat \<Rightarrow> env) \<Rightarrow> u64 \<Rightarrow> bytes \<Rightarrow> server \<Rightarrow> log" where
  "bytes_log w ens k bs sv =
     (case map_of (sv_conns sv) k of
        None \<Rightarrow> []
      | Some c \<Rightarrow>
          if co_stage c = Initial
          then (case open_stage (ens 0) k (co_initial c @ bs) sv of
                  (None, _) \<Rightarrow> []
                | (Some (rest, sv), _) \<Rightarrow> feed_log w ens k rest sv)
          else feed_log w ens k bs sv)"

definition event_log :: "world \<Rightarrow> event \<Rightarrow> server \<Rightarrow> log" where
  "event_log w e sv = (case e of Bytes ens k bs \<Rightarrow> bytes_log w ens k bs sv | _ \<Rightarrow> [(sv, Decided e)])"

fun run_log :: "world \<Rightarrow> event list \<Rightarrow> server \<Rightarrow> log" where
  "run_log w [] sv = []"
| "run_log w (e # es) sv = event_log w e sv @ run_log w es (server_step w e sv)"

section \<open>The invariant\<close>

definition pending_ok :: "world \<Rightarrow> log \<Rightarrow> pending_pairing \<Rightarrow> bool" where
  "pending_ok w log p \<longleftrightarrow>
     (\<exists>shared. agree (wd_ecdh w) (pt_server_key (pp_transcript p)) (pt_client_key (pp_transcript p)) = Some shared \<and>
        derive_pairing_secrets (wd_sha w) (crypto_hmac (wd_crypto w)) shared (pp_transcript p) = Some (pp_secrets p)) \<and>
     (pp_confirmed p \<longrightarrow> (\<exists>s en k f. (s, Heard en k f) \<in> set log \<and>
        confirmation_tag (crypto_hmac (wd_crypto w)) (pp_secrets p) (pp_transcript p) Client_role = Some (payload f)))"

text \<open>The two ways in which a key becomes usable.\<close>

definition approved :: "world \<Rightarrow> log \<Rightarrow> bytes \<Rightarrow> bytes \<Rightarrow> bool" where
  "approved w log cid key \<longleftrightarrow>
     (\<exists>s en pid p. (s, Decided (Approve en pid)) \<in> set log \<and> sv_window s \<and> map_of (sv_pending s) pid = Some p \<and>
        pp_confirmed p \<and> pending_ok w log p \<and> en_now en < pp_expires p \<and>
        client_id_from_uuid (wd_sha w) (pt_uuid (pp_transcript p)) = Some cid \<and>
        ps_enrolled_key (pp_secrets p) = key \<and> (wd_keyring w \<longrightarrow> en_saved en))"

definition enrolled :: "world \<Rightarrow> bytes option \<Rightarrow> log \<Rightarrow> bytes \<Rightarrow> u32 \<Rightarrow> bytes \<Rightarrow> bool" where
  "enrolled w configured log cid kid key \<longleftrightarrow>
     (\<exists>s en k f r secret. (s, Heard en k f) \<in> set log \<and> configured = Some secret \<and>
        decode_enrollment_request (payload f) = Some r \<and> er_client_id r = cid \<and> er_key_id r = kid \<and>
        hmac_sha256 (crypto_hmac (wd_crypto w)) secret (enrollment_message ''NSTU-ENROLLMENT-AUTH-V1'' r) =
          Some (er_authenticator r) \<and>
        derive_enrolled_key (crypto_hmac (wd_crypto w)) secret r = Some key \<and> (wd_keyring w \<longrightarrow> en_saved en))"

definition origin :: "world \<Rightarrow> key_store \<Rightarrow> bytes option \<Rightarrow> log \<Rightarrow> bytes \<Rightarrow> u32 \<Rightarrow> bytes \<Rightarrow> bool" where
  "origin w keys0 configured log cid kid key \<longleftrightarrow>
     resolve cid kid keys0 = Some key \<or> approved w log cid key \<or> enrolled w configured log cid kid key"

definition keys_inv :: "world \<Rightarrow> key_store \<Rightarrow> bytes option \<Rightarrow> log \<Rightarrow> key_store \<Rightarrow> bool" where
  "keys_inv w keys0 configured log keys \<longleftrightarrow> ks_inv keys \<and>
     (\<forall>cid kid key. resolve cid kid keys = Some key \<longrightarrow> origin w keys0 configured log cid kid key)"

definition pendings_inv :: "world \<Rightarrow> log \<Rightarrow> bool \<Rightarrow> (u64 \<times> pending_pairing) list \<Rightarrow> bool" where
  "pendings_inv w log window pending \<longleftrightarrow> length pending \<le> kMaximumPendingPairings \<and> (window \<or> pending = []) \<and>
     distinct (map fst pending) \<and> alist_all (\<lambda>_. pending_ok w log) pending"

text \<open>What stands behind the stages of authentication.\<close>

definition greeted :: "world \<Rightarrow> key_store \<Rightarrow> bytes option \<Rightarrow> log \<Rightarrow> u64 \<Rightarrow> conn \<Rightarrow> bytes \<Rightarrow> bool" where
  "greeted w keys0 A log k c psk \<longleftrightarrow>
     (\<exists>s en f. (s, Heard en k f) \<in> set log \<and> decode_auth_hello (payload f) = Some (co_hello c) \<and>
        resolve (hello_client_id (co_hello c)) (hello_key_id (co_hello c)) (sv_keys s) = Some psk \<and>
        origin w keys0 A log (hello_client_id (co_hello c)) (hello_key_id (co_hello c)) psk \<and>
        en_nonce en = Some (chal_server_nonce (co_challenge c)))"

definition proof_checked :: "world \<Rightarrow> log \<Rightarrow> u64 \<Rightarrow> conn \<Rightarrow> bytes \<Rightarrow> bool" where
  "proof_checked w log k c psk \<longleftrightarrow>
     (\<exists>s en f. (s, Heard en k f) \<in> set log \<and>
        compute_client_proof (crypto_hmac (wd_crypto w)) psk (co_hello c) (co_challenge c) = Some (payload f) \<and>
        fst (replay_accept (co_hello c) (en_unix en) (sv_replay s)) \<and>
        derive_session_key (crypto_hmac (wd_crypto w)) psk (co_hello c) (co_challenge c) = Some (co_session_key c))"

definition conn_ok :: "world \<Rightarrow> key_store \<Rightarrow> bytes option \<Rightarrow> log \<Rightarrow> u64 \<Rightarrow> conn \<Rightarrow> bool" where
  "conn_ok w keys0 A log k c \<longleftrightarrow>
     (co_stage c = Auth_proof_stage \<longrightarrow> co_psk c = [] \<or> greeted w keys0 A log k c (co_psk c)) \<and>
     (co_stage c = Authenticated \<longrightarrow> (\<exists>psk. greeted w keys0 A log k c psk \<and> proof_checked w log k c psk))"

definition conns_inv :: "world \<Rightarrow> key_store \<Rightarrow> bytes option \<Rightarrow> log \<Rightarrow> (u64 \<times> conn) list \<Rightarrow> bool" where
  "conns_inv w keys0 A log conns \<longleftrightarrow> (\<forall>k c. map_of conns k = Some c \<longrightarrow> conn_ok w keys0 A log k c)"

definition session_inv :: "world \<Rightarrow> key_store \<Rightarrow> bytes option \<Rightarrow> log \<Rightarrow> server \<Rightarrow> bool" where
  "session_inv w keys0 configured log sv \<longleftrightarrow>
     keys_inv w keys0 configured log (sv_keys sv) \<and> pendings_inv w log (sv_window sv) (sv_pending sv) \<and>
     conns_inv w keys0 configured log (sv_conns sv) \<and> map_option ea_secret (sv_authority sv) = configured"

text \<open>The invariant only grows with the log.\<close>

lemma pending_ok_mono: "pending_ok w log p \<Longrightarrow> set log \<subseteq> set log' \<Longrightarrow> pending_ok w log' p"
  unfolding pending_ok_def by blast

lemma approved_mono: "approved w log cid key \<Longrightarrow> set log \<subseteq> set log' \<Longrightarrow> approved w log' cid key"
  unfolding approved_def using pending_ok_mono by blast

lemma enrolled_mono: "enrolled w A log cid kid key \<Longrightarrow> set log \<subseteq> set log' \<Longrightarrow> enrolled w A log' cid kid key"
  unfolding enrolled_def by blast

lemma origin_mono: "origin w keys0 A log cid kid key \<Longrightarrow> set log \<subseteq> set log' \<Longrightarrow> origin w keys0 A log' cid kid key"
  unfolding origin_def using approved_mono enrolled_mono by blast

lemma conn_ok_mono: "conn_ok w keys0 A log k c \<Longrightarrow> set log \<subseteq> set log' \<Longrightarrow> conn_ok w keys0 A log' k c"
  unfolding conn_ok_def greeted_def proof_checked_def using origin_mono by blast

lemma session_inv_mono: "session_inv w keys0 A log sv \<Longrightarrow> set log \<subseteq> set log' \<Longrightarrow> session_inv w keys0 A log' sv"
  unfolding session_inv_def keys_inv_def pendings_inv_def conns_inv_def
  by (meson alist_all_mono pending_ok_mono origin_mono conn_ok_mono)

section \<open>Changes of the state\<close>

lemma session_inv_conn:
  "session_inv w keys0 A log sv \<Longrightarrow>
   (\<And>c. map_of (sv_conns sv) k = Some c \<Longrightarrow> conn_ok w keys0 A log k c \<Longrightarrow> conn_ok w keys0 A log k (f c)) \<Longrightarrow>
   session_inv w keys0 A log (set_conn k f sv)"
  by (auto simp: session_inv_def set_conn_def conns_inv_def)

lemma conn_ok_settled [simp]: "conn_ok w keys0 A log k (c\<lparr>co_settled := b\<rparr>) = conn_ok w keys0 A log k c"
  by (simp add: conn_ok_def greeted_def proof_checked_def)

lemma conn_ok_parser [simp]: "conn_ok w keys0 A log k (c\<lparr>co_parser := b\<rparr>) = conn_ok w keys0 A log k c"
  by (simp add: conn_ok_def greeted_def proof_checked_def)

lemma conn_ok_initial [simp]: "conn_ok w keys0 A log k (c\<lparr>co_initial := b\<rparr>) = conn_ok w keys0 A log k c"
  by (simp add: conn_ok_def greeted_def proof_checked_def)

lemma conn_ok_sequence [simp]: "conn_ok w keys0 A log k (c\<lparr>co_receive_sequence := b\<rparr>) = conn_ok w keys0 A log k c"
  by (simp add: conn_ok_def greeted_def proof_checked_def)

lemma conn_ok_other: "co_stage c \<noteq> Auth_proof_stage \<Longrightarrow> co_stage c \<noteq> Authenticated \<Longrightarrow> conn_ok w keys0 A log k c"
  by (simp add: conn_ok_def)

lemma settled_all:
  "session_inv w keys0 A log sv \<Longrightarrow> session_inv w keys0 A log (fst (refuse_abandoned xs r sv))"
proof (induction xs arbitrary: sv)
  case (Cons x xs)
  have "session_inv w keys0 A log (settle_pairing_connection (fst x) sv)"
    unfolding settle_pairing_connection_def using Cons.prems by (rule session_inv_conn) simp
  then show ?case using Cons.IH by (simp add: refuse_abandoned_def case_prod_unfold)
qed (simp add: refuse_abandoned_def)

lemma session_inv_filter:
  assumes "session_inv w keys0 A log sv"
  shows "session_inv w keys0 A log (sv\<lparr>sv_pending := filter P (sv_pending sv)\<rparr>)"
  using assms le_trans [OF length_filter_le]
  by (auto simp: session_inv_def pendings_inv_def distinct_map_filter intro: alist_all_subset)

lemma session_inv_drop:
  "session_inv w keys0 A log sv \<Longrightarrow> session_inv w keys0 A log (drop_pending_pairing pid sv)"
  "session_inv w keys0 A log sv \<Longrightarrow> session_inv w keys0 A log (drop_pending_pairings_for k sv)"
  by (simp_all add: drop_pending_pairing_def drop_pending_pairings_for_def alist_erase_def session_inv_filter)

lemma session_inv_replay [simp]: "session_inv w keys0 A log (sv\<lparr>sv_replay := rp\<rparr>) = session_inv w keys0 A log sv"
  by (simp add: session_inv_def)

lemma session_inv_taken: "session_inv w keys0 A log sv \<Longrightarrow> session_inv w keys0 A log (snd (take_expired now sv))"
  by (simp add: take_expired_def session_inv_filter)

lemma session_inv_keys:
  assumes "session_inv w keys0 A log sv" and "ks_inv keys"
    and "\<And>cid kid key. resolve cid kid keys = Some key \<Longrightarrow> resolve cid kid (sv_keys sv) \<noteq> Some key \<Longrightarrow>
           approved w log cid key \<or> enrolled w A log cid kid key"
  shows "session_inv w keys0 A log (sv\<lparr>sv_keys := keys\<rparr>)"
  using assms unfolding session_inv_def keys_inv_def origin_def by (simp, blast)

section \<open>Keys\<close>

lemma resolve_enroll:
  "enroll c i key s = (err, s') \<Longrightarrow> resolve cid kid s' = Some x \<Longrightarrow>
   resolve cid kid s = Some x \<or> err = None \<and> cid = c \<and> kid = i \<and> x = key"
  by (auto simp: enroll_def resolve_def Let_def map_add_def split: if_splits option.splits)

lemma resolve_wipe: "resolve cid kid (wipe_where P s) = Some x \<Longrightarrow> resolve cid kid s = Some x"
  by (auto simp: resolve_def map_of_wipe_where split: if_splits option.splits)

lemma resolve_rotate:
  assumes "rotate_key c key s = (Inr n, s')" "resolve cid kid s' = Some x"
  shows "resolve cid kid s = Some x \<or> cid = c \<and> x = key"
proof -
  have "resolve cid kid (if map_of s (make_lookup_key c n) \<noteq> None then s
      else s @ [(make_lookup_key c n, \<lparr>kr_client_id = c, kr_key_id = n, kr_key = key, kr_revoked = False\<rparr>)]) = Some x"
    using assms by (auto simp: rotate_key_def Let_def split: if_splits intro: resolve_wipe)
  then show ?thesis by (auto simp: resolve_def map_add_def split: if_splits option.splits)
qed

lemma resolve_revoke: "resolve cid kid (snd (revoke c i s)) = Some x \<Longrightarrow> resolve cid kid s = Some x"
  by (auto simp: revoke_def Let_def split: if_splits option.splits dest: resolve_wipe)

lemma replace_snapshot_keeps:
  assumes "ks_inv s"
  shows "ks_inv (snd (replace (snapshot s) t))" and "resolve cid kid (snd (replace (snapshot s) t)) = resolve cid kid s"
proof -
  obtain s' where s': "replace (snapshot s) t = (None, s')" "\<And>x. map_of s' x = map_option snapshot_record (map_of s x)"
    using replace_snapshot [OF assms] by blast
  have "replace_loop (snapshot s) [] = Inr s'" using s'(1) by (auto simp: replace_def split: sum.splits)
  then have "ks_inv s'" by (rule replace_loop_inv [rotated]) (simp add: ks_inv_def)
  then show "ks_inv (snd (replace (snapshot s) t))" using s' by simp
  show "resolve cid kid (snd (replace (snapshot s) t)) = resolve cid kid s"
    by (auto simp: resolve_def s' snapshot_record_def split: option.splits)
qed

lemma session_inv_restored:
  assumes "session_inv w keys0 A log sv"
  shows "session_inv w keys0 A log (sv\<lparr>sv_keys := snd (replace (snapshot (sv_keys sv)) t)\<rparr>)"
proof -
  have "ks_inv (sv_keys sv)" using assms by (simp add: session_inv_def keys_inv_def)
  then show ?thesis using replace_snapshot_keeps by (intro session_inv_keys [OF assms]) auto
qed

lemma authority_accept_origin:
  assumes "authority_accept bcrypt r now a ks = (err, a', ks')" and "ks_inv ks"
  shows "ea_secret a' = ea_secret a \<and> ks_inv ks' \<and> (err \<noteq> None \<longrightarrow> ks' = ks) \<and>
    (\<forall>cid kid x. resolve cid kid ks' = Some x \<longrightarrow> resolve cid kid ks \<noteq> Some x \<longrightarrow>
       cid = er_client_id r \<and> kid = er_key_id r \<and>
       hmac_sha256 bcrypt (ea_secret a) (enrollment_message ''NSTU-ENROLLMENT-AUTH-V1'' r) = Some (er_authenticator r) \<and>
       derive_enrolled_key bcrypt (ea_secret a) r = Some x)"
proof -
  have inv: "ks_inv (snd (enroll c i key ks))" for c i key using assms(2) by (rule enroll_inv)
  have same: "snd (enroll c i key ks) = ks" if "fst (enroll c i key ks) \<noteq> None" for c i key
    using that by (auto simp: enroll_def Let_def split: if_splits)
  show ?thesis
    using assms inv same
    by (auto simp: authority_accept_def Let_def constant_time_equal_iff split: if_splits option.splits prod.splits bool.splits
        dest: resolve_enroll) (metis fst_conv snd_conv option.simps(3))+
qed

section \<open>Handlers\<close>

text \<open>The invariant of an outcome.\<close>

definition outcome_inv :: "world \<Rightarrow> key_store \<Rightarrow> bytes option \<Rightarrow> log \<Rightarrow> outcome \<Rightarrow> bool" where
  "outcome_inv w keys0 A log out \<longleftrightarrow> session_inv w keys0 A log (fst (snd out))"

lemma outcome_inv_simps [simp]:
  "outcome_inv w keys0 A log (go, sv, acts) = session_inv w keys0 A log sv"
  "outcome_inv w keys0 A log (refuse_pairing k rid reason sv) = session_inv w keys0 A log sv"
  by (simp_all add: outcome_inv_def refuse_pairing_def)

lemma conn_ok_stage [simp]:
  "st \<noteq> Auth_proof_stage \<Longrightarrow> st \<noteq> Authenticated \<Longrightarrow> conn_ok w keys0 A log k (c\<lparr>co_stage := st\<rparr>)"
  by (simp add: conn_ok_def)

lemma pendings_emplace:
  assumes "session_inv w keys0 A log sv" and "sv_window sv" and "length (sv_pending sv) < kMaximumPendingPairings"
    and "pending_ok w log p"
  shows "session_inv w keys0 A log (sv\<lparr>sv_next_pairing := n, sv_pending := alist_emplace pid p (sv_pending sv)\<rparr>)"
proof -
  have "length (alist_emplace pid p (sv_pending sv)) \<le> kMaximumPendingPairings"
    using assms(3) by (simp add: alist_emplace_def)
  then show ?thesis using assms by (auto simp: session_inv_def pendings_inv_def intro: alist_all_emplace)
qed

lemma admit_pairing_inv:
  assumes "session_inv w keys0 A log sv"
    and "\<And>p. pp_transcript p = t \<Longrightarrow> pp_secrets p = secrets \<Longrightarrow> \<not> pp_confirmed p \<Longrightarrow> pending_ok w log p"
  shows "outcome_inv w keys0 A log (admit_pairing en k source rid t secrets body sv)"
proof -
  obtain expired sv1 where t1: "take_expired (en_now en) sv = (expired, sv1)" by fastforce
  then have sv1: "session_inv w keys0 A log sv1" using session_inv_taken [OF assms(1), of "en_now en"] by simp
  let ?p = "\<lparr>pp_connection = k, pp_request_id = rid, pp_address = source, pp_transcript = t, pp_secrets = secrets,
     pp_expires = en_now en + kPairingApprovalWindow, pp_confirmed = False\<rparr>"
  let ?sv2 = "sv1\<lparr>sv_next_pairing := sv_next_pairing sv1 + 1,
     sv_pending := alist_emplace (sv_next_pairing sv1) ?p (sv_pending sv1)\<rparr>"
  consider (refused) "\<not> sv_window sv1 \<or> length (sv_pending sv1) \<ge> kMaximumPendingPairings"
    | (admitted) "sv_window sv1" "length (sv_pending sv1) < kMaximumPendingPairings" by linarith
  then show ?thesis
  proof cases
    case refused
    then show ?thesis using settled_all [OF sv1, of expired Timed_out]
      by (auto simp: admit_pairing_def t1 refuse_pairing_def split: prod.splits)
  next
    case admitted
    have "session_inv w keys0 A log ?sv2"
      using admitted assms(2) [of ?p] by (intro pendings_emplace [OF sv1]) auto
    then have sv3: "session_inv w keys0 A log (fst (refuse_abandoned expired Timed_out ?sv2))" by (rule settled_all)
    show ?thesis
    proof (cases "en_sent en")
      case True
      have "session_inv w keys0 A log (set_conn k (\<lambda>c. c\<lparr>co_pairing_id := sv_next_pairing sv1, co_request_id := rid,
          co_stage := Pairing_offered\<rparr>) (fst (refuse_abandoned expired Timed_out ?sv2)))"
        using sv3 by (rule session_inv_conn) simp
      then show ?thesis using admitted True by (auto simp: admit_pairing_def t1 Let_def not_le split: prod.splits)
    next
      case False
      then show ?thesis using admitted session_inv_drop(1) [OF sv3]
        by (auto simp: admit_pairing_def t1 Let_def not_le split: prod.splits)
    qed
  qed
qed

lemma make_transcript_keys:
  "make_pairing_transcript h p = Some t \<Longrightarrow> pt_server_key t = po_public_key p \<and> pt_client_key t = ph_public_key h"
  by (auto simp: make_pairing_transcript_def Let_def split: if_splits)

lemma pairing_hello_inv:
  assumes "session_inv w keys0 A log sv"
  shows "outcome_inv w keys0 A log (process_pairing_hello w en k c f sv)"
proof -
  have "pending_ok w log p"
    if "make_pairing_transcript hello \<lparr>po_version = kPairingVersion, po_agreement = a, po_public_key = key, po_nonce = nonce\<rparr> = Some t"
      "agree (wd_ecdh w) key (ph_public_key hello) = Some shared"
      "derive_pairing_secrets (wd_sha w) (crypto_hmac (wd_crypto w)) shared t = Some secrets"
      "pp_transcript p = t" "pp_secrets p = secrets" "\<not> pp_confirmed p"
    for hello a key nonce t shared secrets p
    using that make_transcript_keys [OF that(1)] by (simp add: pending_ok_def)
  then show ?thesis
    using assms by (auto simp: process_pairing_hello_def Let_def split: option.split prod.split intro!: admit_pairing_inv)
qed

lemma heartbeat_inv: "session_inv w keys0 A log sv \<Longrightarrow> outcome_inv w keys0 A log (answer_pairing_heartbeat en k f sv)"
  by (simp add: answer_pairing_heartbeat_def)

lemma confirm_pending:
  assumes "session_inv w keys0 A log sv" and "(s, Heard en k f) \<in> set log" and "map_of (sv_pending sv) pid = Some p"
    and tag: "confirmation_tag (crypto_hmac (wd_crypto w)) (pp_secrets p) (pp_transcript p) Client_role = Some (payload f)"
  shows "session_inv w keys0 A log
    (sv\<lparr>sv_pending := alist_modify pid (\<lambda>p. p\<lparr>pp_confirmed := True, pp_expires := e\<rparr>) (sv_pending sv)\<rparr>)"
proof -
  have inv: "pendings_inv w log (sv_window sv) (sv_pending sv)" using assms(1) by (simp add: session_inv_def)
  then have d: "distinct (map fst (sv_pending sv))" and all: "alist_all (\<lambda>_. pending_ok w log) (sv_pending sv)"
    by (simp_all add: pendings_inv_def)
  have "pending_ok w log p" using alist_all_lookup [OF all assms(3)] .
  then have ok: "pending_ok w log (p\<lparr>pp_confirmed := True, pp_expires := e\<rparr>)"
    using assms(2) tag by (auto simp: pending_ok_def)
  have "pending_ok w log (q\<lparr>pp_confirmed := True, pp_expires := e\<rparr>)" if "(pid, q) \<in> set (sv_pending sv)" for q
    using ok that d assms(3) map_of_is_SomeI by fastforce
  then have "alist_all (\<lambda>_. pending_ok w log) (alist_modify pid (\<lambda>p. p\<lparr>pp_confirmed := True, pp_expires := e\<rparr>) (sv_pending sv))"
    using all by (auto simp: alist_all_def alist_modify_def)
  moreover have "alist_modify pid g (sv_pending sv) = [] \<longleftrightarrow> sv_pending sv = []" for g by (simp add: alist_modify_def)
  ultimately show ?thesis using assms(1) inv by (simp add: session_inv_def pendings_inv_def)
qed

lemma pairing_confirm_inv:
  assumes "session_inv w keys0 A log sv" and "(s, Heard en k f) \<in> set log"
  shows "outcome_inv w keys0 A log (process_pairing_confirm w en k c f sv)"
proof -
  have "session_inv w keys0 A log (set_conn k (\<lambda>c. c\<lparr>co_stage := Pairing_pending\<rparr>)
      (sv\<lparr>sv_pending := alist_modify (co_pairing_id c) (\<lambda>p. p\<lparr>pp_confirmed := True, pp_expires := e\<rparr>) (sv_pending sv)\<rparr>))"
    if "map_of (sv_pending sv) (co_pairing_id c) = Some p" 
      "verify_confirmation_tag (crypto_hmac (wd_crypto w)) (pp_secrets p) (pp_transcript p) Client_role (payload f)" for p e
  proof (rule session_inv_conn)
    have "confirmation_tag (crypto_hmac (wd_crypto w)) (pp_secrets p) (pp_transcript p) Client_role = Some (payload f)"
      using that(2) by (auto simp: verify_confirmation_tag_def constant_time_equal_iff split: option.splits)
    then show "session_inv w keys0 A log
        (sv\<lparr>sv_pending := alist_modify (co_pairing_id c) (\<lambda>p. p\<lparr>pp_confirmed := True, pp_expires := e\<rparr>) (sv_pending sv)\<rparr>)"
      using confirm_pending [OF assms that(1)] by blast
  qed simp
  then show ?thesis
    using assms session_inv_drop heartbeat_inv
    by (auto simp: process_pairing_confirm_def Let_def decode_pairing_confirm_def split: option.split)
qed

lemma pairing_wait_inv: "session_inv w keys0 A log sv \<Longrightarrow> outcome_inv w keys0 A log (process_pairing_wait en k c f sv)"
  by (simp add: process_pairing_wait_def heartbeat_inv)

lemma enrollment_inv:
  assumes "session_inv w keys0 A log sv" and "(s, Heard en k f) \<in> set log"
  shows "outcome_inv w keys0 A log (process_enrollment w en k f sv)"
proof -
  have ks: "ks_inv (sv_keys sv)" and A: "map_option ea_secret (sv_authority sv) = A"
    using assms(1) by (simp_all add: session_inv_def keys_inv_def)
  have new: "session_inv w keys0 A log (sv\<lparr>sv_authority := Some a', sv_keys := keys\<rparr>)"
    if acc: "sv_authority sv = Some a" "decode_enrollment_request (payload f) = Some r"
      "authority_accept (crypto_hmac (wd_crypto w)) r now a (sv_keys sv) = (err, a', keys)" "err \<noteq> None \<or> \<not> wd_keyring w \<or> en_saved en"
    for a r a' now err keys
  proof -
    note origin = authority_accept_origin [OF acc(3) ks]
    have "session_inv w keys0 A log (sv\<lparr>sv_keys := keys\<rparr>)"
    proof (rule session_inv_keys [OF assms(1)])
      fix cid kid x assume x: "resolve cid kid keys = Some x" "resolve cid kid (sv_keys sv) \<noteq> Some x"
      then have "enrolled w A log cid kid x"
        unfolding enrolled_def using origin acc A assms(2)
        by (intro exI [of _ s] exI [of _ en] exI [of _ k] exI [of _ f] exI [of _ r] exI [of _ "ea_secret a"]) auto
      then show "approved w log cid x \<or> enrolled w A log cid kid x" ..
    qed (use origin in blast)
    then show ?thesis using origin acc(1) by (simp add: session_inv_def)
  qed
  have old: "session_inv w keys0 A log (sv\<lparr>sv_authority := Some a', sv_keys := snd (replace (snapshot (sv_keys sv)) keys)\<rparr>)"
    if acc: "sv_authority sv = Some a" "authority_accept (crypto_hmac (wd_crypto w)) r now a (sv_keys sv) = (err, a', keys)"
    for a r a' now err keys
    using session_inv_restored [OF assms(1)] authority_accept_origin [OF acc(2) ks] acc(1) by (simp add: session_inv_def)
  show ?thesis
    using assms(1) new old session_inv_conn
    by (auto simp: process_enrollment_def Let_def split: option.split prod.split intro!: session_inv_conn)
qed

lemma auth_hello_inv:
  assumes "session_inv w keys0 A log sv" and "(s, Heard en k f) \<in> set log" and "sv_keys s = sv_keys sv"
    and "co_stage c \<noteq> Auth_proof_stage" "co_stage c \<noteq> Authenticated" "map_of (sv_conns sv) k = Some c"
  shows "outcome_inv w keys0 A log (process_auth_hello en k c f sv)"
proof -
  have one: "session_inv w keys0 A log (set_conn k g sv)" if "\<And>c. co_stage (g c) = co_stage c" for g
    using assms by (intro session_inv_conn [OF assms(1)]) (simp add: that conn_ok_def)
  have origin: "origin w keys0 A log cid kid key" if "resolve cid kid (sv_keys sv) = Some key" for cid kid key
    using assms(1) that by (simp add: session_inv_def keys_inv_def)
  have two: "session_inv w keys0 A log (set_conn k (\<lambda>c. c\<lparr>co_request_id := rid, co_stage := Auth_proof_stage\<rparr>) (set_conn k g sv))"
    if hello: "decode_auth_hello (payload f) = Some hello" "en_nonce en = Some nonce"
      "resolve (hello_client_id hello) (hello_key_id hello) (sv_keys sv) = Some key"
    and g: "\<And>c. co_hello (g c) = hello" "\<And>c. co_psk (g c) = key" "\<And>c. chal_server_nonce (co_challenge (g c)) = nonce"
      "\<And>c. co_stage (g c) = co_stage c" for hello key nonce rid g
  proof (rule session_inv_conn [OF one])
    fix c' assume "map_of (sv_conns (set_conn k g sv)) k = Some c'"
    then show "conn_ok w keys0 A log k (c'\<lparr>co_request_id := rid, co_stage := Auth_proof_stage\<rparr>)"
      using hello g assms(2,3) origin
      by (auto simp: conn_ok_def greeted_def set_conn_def intro!: exI [of _ s] exI [of _ en] exI [of _ f])
  qed (rule g(4))
  show ?thesis
    using assms(1) one two by (auto simp: process_auth_hello_def Let_def split: option.split)
qed

lemma install_session_keeps:
  "install_session w key c = Some c' \<Longrightarrow> co_hello c' = co_hello c \<and> co_challenge c' = co_challenge c \<and> co_session_key c' = key"
  by (auto simp: install_session_def Let_def split: if_splits)

lemma auth_proof_inv:
  assumes "session_inv w keys0 A log sv" and "(s, Heard en k f) \<in> set log" and "sv_replay s = sv_replay sv"
    and c: "map_of (sv_conns sv) k = Some c" "co_stage c = Auth_proof_stage"
  shows "outcome_inv w keys0 A log (process_auth_proof w en k c f sv)"
proof -
  have psk: "co_psk c = [] \<or> greeted w keys0 A log k c (co_psk c)"
    using assms(1) c by (auto simp: session_inv_def conns_inv_def conn_ok_def)
  have wiped: "session_inv w keys0 A log (set_conn k (\<lambda>c. c\<lparr>co_psk := []\<rparr>) (sv\<lparr>sv_replay := rp\<rparr>))" for rp
    using c by (intro session_inv_conn) (auto simp: assms(1) conn_ok_def)
  have failed: "session_inv w keys0 A log (set_conn k (\<lambda>c. c\<lparr>co_session_key := key\<rparr>)
      (set_conn k (\<lambda>c. c\<lparr>co_psk := []\<rparr>) (sv\<lparr>sv_replay := rp\<rparr>)))" for rp key
    using c by (intro session_inv_conn [OF wiped]) (auto simp: conn_ok_def set_conn_def greeted_def)
  have passed: "session_inv w keys0 A log (set_conn k (\<lambda>_. c'\<lparr>co_receive_sequence := g, co_send_sequence := 0,
        co_stage := Authenticated\<rparr>) (set_conn k (\<lambda>c. c\<lparr>co_psk := []\<rparr>) (sv\<lparr>sv_replay := rp\<rparr>)))"
    if step: "compute_client_proof (crypto_hmac (wd_crypto w)) (co_psk c) (co_hello c) (co_challenge c) = Some (payload f)"
      "replay_accept (co_hello c) (en_unix en) (sv_replay sv) = (True, rp')"
      "derive_session_key (crypto_hmac (wd_crypto w)) (co_psk c) (co_hello c) (co_challenge c) = Some key"
      "install_session w key (c\<lparr>co_psk := []\<rparr>) = Some c'" for rp rp' key c' g
  proof (rule session_inv_conn [OF wiped])
    have same: "co_hello c' = co_hello c" "co_challenge c' = co_challenge c" "co_session_key c' = key"
      using install_session_keeps [OF step(4)] by simp_all
    have "co_psk c \<noteq> []" using step(1) by (auto simp: compute_client_proof_def hmac_sha256_def split: if_splits)
    then have "greeted w keys0 A log k c' (co_psk c)" using psk same by (simp add: greeted_def)
    moreover have "proof_checked w log k c' (co_psk c)"
      using step same assms(2,3) by (auto simp: proof_checked_def intro!: exI [of _ s] exI [of _ en] exI [of _ f])
    ultimately show "conn_ok w keys0 A log k (c'\<lparr>co_receive_sequence := g, co_send_sequence := 0, co_stage := Authenticated\<rparr>)"
      by (auto simp: conn_ok_def greeted_def proof_checked_def intro!: exI [of _ "co_psk c"])
  qed
  show ?thesis
    using assms(1) wiped failed passed
    by (auto simp: process_auth_proof_def Let_def constant_time_equal_iff split: option.split prod.split bool.split)
qed

lemma receive_inv: "session_inv w keys0 A log sv \<Longrightarrow> outcome_inv w keys0 A log (receive_authenticated w k c f sv)"
  by (auto simp: receive_authenticated_def split: option.split prod.split bool.split intro!: session_inv_conn)

lemma process_frame_inv:
  assumes "session_inv w keys0 A log sv" and "(sv, Heard en k f) \<in> set log"
  shows "outcome_inv w keys0 A log (process_frame w en k f sv)"
proof (cases "map_of (sv_conns sv) k")
  case (Some c)
  then show ?thesis
    using assms pairing_hello_inv enrollment_inv pairing_confirm_inv pairing_wait_inv auth_proof_inv receive_inv
      auth_hello_inv [OF assms refl, of c]
    by (simp add: process_frame_def split: stage.split)
qed (simp add: process_frame_def assms)

section \<open>Events and runs\<close>

lemma frames_inv:
  "session_inv w keys0 A log sv \<Longrightarrow>
   session_inv w keys0 A (log @ frames_log w ens n k fs sv) (fst (process_frames w ens n k fs sv))"
proof (induction fs arbitrary: n sv log)
  case (Cons f fs)
  obtain go sv' acts where step: "process_frame w (ens n) k f sv = (go, sv', acts)" by (cases "process_frame w (ens n) k f sv")
  have "session_inv w keys0 A (log @ [(sv, Heard (ens n) k f)]) sv"
    using Cons.prems by (rule session_inv_mono) auto
  then have "session_inv w keys0 A (log @ [(sv, Heard (ens n) k f)]) sv'"
    using process_frame_inv [of w keys0 A "log @ [(sv, Heard (ens n) k f)]" sv "ens n" k f] step by simp
  then show ?case using Cons.IH [of "log @ [(sv, Heard (ens n) k f)]" sv' "Suc n"] step
    by (auto split: prod.splits)
qed simp

lemma feed_inv:
  assumes "session_inv w keys0 A log sv"
  shows "session_inv w keys0 A (log @ feed_log w ens k bs sv) (fst (feed_frames w ens k bs sv))"
proof -
  have "session_inv w keys0 A log (set_conn k (\<lambda>c. c\<lparr>co_parser := b\<rparr>) sv)" for b
    using assms by (rule session_inv_conn) simp
  then show ?thesis using assms frames_inv
    by (auto simp: feed_log_def feed_frames_def Let_def split: option.split prod.splits)
qed

lemma open_stage_inv:
  assumes "session_inv w keys0 A log sv" "open_stage en k bs sv = (r, sv', acts)"
  shows "(case r of None \<Rightarrow> session_inv w keys0 A log sv' | Some (_, sv'') \<Rightarrow> session_inv w keys0 A log sv'')"
proof -
  have "session_inv w keys0 A log (set_conn k g sv)"
    if "\<And>c. conn_ok w keys0 A log k c \<Longrightarrow> conn_ok w keys0 A log k (g c)" for g
    using assms(1) by (rule session_inv_conn) (simp add: that)
  then show ?thesis using assms
    by (auto simp: open_stage_def Let_def split: if_splits option.splits)
qed

lemma bytes_inv:
  assumes "session_inv w keys0 A log sv"
  shows "session_inv w keys0 A (log @ bytes_log w ens k bs sv) (fst (on_bytes w ens k bs sv))"
proof -
  obtain r sv' acts where o: "open_stage (ens 0) k (co_initial (the (map_of (sv_conns sv) k)) @ bs) sv = (r, sv', acts)"
    by (metis prod_cases3)
  show ?thesis
    using assms feed_inv [OF assms] feed_inv open_stage_inv [OF assms o] o
    by (auto simp: bytes_log_def on_bytes_def split: option.splits prod.splits)
qed

lemma approve_inv:
  assumes "session_inv w keys0 A log sv" and "(sv, Decided (Approve en pid)) \<in> set log"
  shows "outcome_inv w keys0 A log (approve_pairing w en pid sv)"
proof -
  obtain expired sv1 where t: "take_expired (en_now en) sv = (expired, sv1)" by fastforce
  then have sv1: "session_inv w keys0 A log sv1" using session_inv_taken [OF assms(1), of "en_now en"] by simp
  let ?f = "case map_of (sv_pending sv1) pid of Some p \<Rightarrow> if pp_confirmed p then Some p else None | None \<Rightarrow> None"
  let ?sv2 = "if ?f = None then sv1 else drop_pending_pairing pid sv1"
  have sv2: "session_inv w keys0 A log ?sv2" using sv1 session_inv_drop(1) by simp
  obtain sv3 acts where r: "refuse_abandoned expired Timed_out ?sv2 = (sv3, acts)" by fastforce
  then have sv3: "session_inv w keys0 A log sv3" using settled_all [OF sv2, of expired Timed_out] by simp
  have ks: "ks_inv (sv_keys sv3)" using sv3 by (simp add: session_inv_def keys_inv_def)
  have keys: "session_inv w keys0 A log (sv3\<lparr>sv_keys := keys\<rparr>)"
    if "?f = Some p" "client_id_from_uuid (wd_sha w) (pt_uuid (pp_transcript p)) = Some cid"
      "rotate_key cid (ps_enrolled_key (pp_secrets p)) (sv_keys sv3) = (Inr kid, keys)" "\<not> wd_keyring w \<or> en_saved en"
    for p cid kid keys
  proof (rule session_inv_keys [OF sv3])
    have p: "map_of (sv_pending sv1) pid = Some p" "pp_confirmed p" using that(1) by (auto split: option.splits if_splits)
    have "(pid, p) \<in> set (sv_pending sv)" "en_now en < pp_expires p"
      using map_of_SomeD [OF p(1)] t by (auto simp: take_expired_def)
    moreover have "distinct (map fst (sv_pending sv))" "sv_window sv \<or> sv_pending sv = []"
      "alist_all (\<lambda>_. pending_ok w log) (sv_pending sv)"
      using assms(1) by (auto simp: session_inv_def pendings_inv_def)
    ultimately have "approved w log cid (ps_enrolled_key (pp_secrets p))"
      unfolding approved_def using that p assms(2)
      by (intro exI [of _ sv] exI [of _ en] exI [of _ pid] exI [of _ p]) (auto simp: alist_all_def)
    then show "approved w log c x \<or> enrolled w A log c i x"
      if "resolve c i keys = Some x" "resolve c i (sv_keys sv3) \<noteq> Some x" for c i x
      using that resolve_rotate [OF \<open>rotate_key _ _ _ = _\<close> that(1)] by auto
    show "ks_inv keys" using rotate_inv [OF ks] that(3) by (metis snd_conv)
  qed
  have settled: "session_inv w keys0 A log s \<Longrightarrow> session_inv w keys0 A log (settle_pairing_connection k s)" for k s
    unfolding settle_pairing_connection_def by (rule session_inv_conn) simp_all
  show ?thesis
    using sv3 keys settled session_inv_restored [OF sv3]
    by (simp add: approve_pairing_def t r Let_def split: option.split prod.split sum.split)
qed

lemma event_inv:
  assumes "session_inv w keys0 A log sv"
  shows "session_inv w keys0 A (log @ event_log w e sv) (server_step w e sv)"
proof -
  have more: "session_inv w keys0 A (log @ l) sv" for l using assms by (rule session_inv_mono) simp
  have fresh: "conn_ok w keys0 A l k (new_conn source)" for l k source by (simp add: new_conn_def conn_ok_def)
  show ?thesis
  proof (cases e)
    case (Connect k source)
    then show ?thesis using more [of "event_log w e sv"] fresh
      by (auto simp: session_inv_def conns_inv_def event_log_def map_add_def split: option.splits)
  next
    case (Bytes ens k bs)
    then show ?thesis using bytes_inv [OF assms] by (simp add: event_log_def)
  next
    case (Closed k)
    have "session_inv w keys0 A (log @ event_log w e sv) (sv\<lparr>sv_conns := alist_erase k (sv_conns sv)\<rparr>)"
      using more by (simp add: session_inv_def conns_inv_def)
    then show ?thesis using Closed session_inv_drop(2) by simp
  next
    case (Approve en pid)
    then show ?thesis using approve_inv [OF more] by (simp add: event_log_def outcome_inv_def)
  next
    case (Reject pid)
    then show ?thesis using more [of "event_log w e sv"]
      by (auto simp: reject_pairing_def settle_pairing_connection_def split: option.split intro!: session_inv_conn session_inv_drop(1))
  next
    case (Expire now)
    then show ?thesis using session_inv_taken [OF more, of _ now]
      by (auto simp: expire_pending_pairings_def split: prod.split intro!: settled_all)
  next
    case (Set_window b)
    have "session_inv w keys0 A (log @ event_log w e sv) (sv\<lparr>sv_window := b, sv_pending := []\<rparr>)"
      "session_inv w keys0 A (log @ event_log w e sv) (sv\<lparr>sv_window := True\<rparr>)"
      using more by (auto simp: session_inv_def pendings_inv_def alist_all_def)
    then show ?thesis using Set_window by (cases b) (auto simp: set_pairing_window_def Let_def intro!: settled_all)
  next
    case (Revoke_key cid kid)
    have "ks_inv (snd (revoke cid kid (sv_keys sv)))"
      using assms by (simp add: session_inv_def keys_inv_def revoke_inv)
    then have "session_inv w keys0 A (log @ event_log w e sv) (sv\<lparr>sv_keys := snd (revoke cid kid (sv_keys sv))\<rparr>)"
      by (rule session_inv_keys [OF more]) (use resolve_revoke in blast)
    then show ?thesis using Revoke_key by simp
  next
    case (Send en k t request_id body)
    have "session_inv w keys0 A (log @ event_log w e sv) (set_conn k (\<lambda>c. c\<lparr>co_send_sequence := co_send_sequence c + 1\<rparr>) sv)"
      using more by (rule session_inv_conn) (simp add: conn_ok_def greeted_def proof_checked_def)
    then show ?thesis using Send more [of "event_log w e sv"] by (auto simp: send_authenticated_def Let_def split: option.split)
  qed
qed

text \<open>The server with its log is a machine that keeps the invariant.\<close>

definition logged_step :: "world \<Rightarrow> event \<Rightarrow> log \<times> server \<Rightarrow> log \<times> server" where
  "logged_step w e ls = (fst ls @ event_log w e (snd ls), server_step w e (snd ls))"

interpretation session_machine: machine "logged_step w" "\<lambda>ls. session_inv w keys0 A (fst ls) (snd ls)"
  by unfold_locales (simp add: logged_step_def event_inv)

lemma logged_run: "fold (logged_step w) es (log, sv) = (log @ run_log w es sv, fold (server_step w) es sv)"
  by (induction es arbitrary: log sv) (simp_all add: logged_step_def)

lemma session_inv_initial:
  "ks_inv keys \<Longrightarrow> session_inv w keys (map_option ea_secret authority) [] (initial_server keys authority replay)"
  by (simp add: session_inv_def initial_server_def keys_inv_def pendings_inv_def conns_inv_def alist_all_def origin_def)

lemma session_inv_run:
  "ks_inv keys \<Longrightarrow> session_inv w keys (map_option ea_secret authority) (run_log w es (initial_server keys authority replay))
     (fold (server_step w) es (initial_server keys authority replay))"
  using session_machine.run_inv [of w keys "map_option ea_secret authority" "([], initial_server keys authority replay)" es]
    session_inv_initial by (simp add: logged_run)

section \<open>Properties\<close>

text \<open>A small run: the window opens, a client pairs and confirms, the operator approves.\<close>

definition sample_world :: world where
  "sample_world = \<lparr>wd_crypto = \<lparr>crypto_hmac = (\<lambda>_ _. Some (replicate 32 5)), gcm_encrypt = (\<lambda>_ _ _ _. None),
      gcm_decrypt = (\<lambda>_ _ _ _ _. None)\<rparr>, wd_sha = (\<lambda>_. Some (replicate 32 7)),
     wd_ecdh = (\<lambda>_ _. Some (replicate 32 3)), wd_keyring = True\<rparr>"

definition sample_env :: env where
  "sample_env = \<lparr>en_unix = 1000, en_now = 10, en_nonce = Some (replicate 32 2), en_pair = Some (1, [6, 6, 6, 6, 6, 6, 6, 6, 6]),
     en_saved = True, en_sent = True\<rparr>"

abbreviation sample_hello :: pairing_hello where
  "sample_hello \<equiv> \<lparr>ph_version = 1, ph_agreement = 1, ph_uuid = [0x41], ph_hostname = [0x42],
     ph_public_key = [6, 6, 6, 6, 6, 6, 6, 6, 1], ph_nonce = replicate 32 9\<rparr>"

abbreviation sample_transcript :: pairing_transcript where
  "sample_transcript \<equiv> \<lparr>pt_version = 1, pt_agreement = 1, pt_uuid = [0x41], pt_hostname = [0x42],
     pt_client_key = [6, 6, 6, 6, 6, 6, 6, 6, 1], pt_server_key = [6, 6, 6, 6, 6, 6, 6, 6, 6],
     pt_client_nonce = replicate 32 9, pt_server_nonce = replicate 32 2\<rparr>"

abbreviation sample_secrets :: pairing_secrets where
  "sample_secrets \<equiv> \<lparr>ps_confirm_key = replicate 32 5, ps_enrolled_key = replicate 32 5, ps_sas = format_sas (replicate 32 5)\<rparr>"

definition pairing_events :: "event list" where
  "pairing_events = [Set_window True, Connect 1 [0x31],
     Bytes (\<lambda>_. sample_env) 1 (plain_wire pairing_hello_type 4 (encode_pairing_hello sample_hello)),
     Bytes (\<lambda>_. sample_env) 1 (plain_wire pairing_confirm_type 4 (replicate 32 5)), Approve sample_env 1]"

definition sample_server :: server where
  "sample_server = initial_server [] None (make_replay_protector 4 60)"

lemma feed_plain:
  assumes "length b \<le> 65536"
  shows "feed [] (plain_wire t r b) [] = (True, [], [plain_frame t r b])" 
proof -
  have ok: "frame_ok (plain_frame t r b)" using assms by (rule plain_frame_ok)
  have "plain_wire t r b = frame_wire (plain_frame t r b)" by (simp add: plain_wire_def plain_frame_def)
  then show ?thesis using parse_loop_frames [of "[plain_frame t r b]" "[]"] ok frame_wire_length [OF ok] assms
    by (simp add: feed_def parse_loop.simps [of "[]"])
qed

lemma sample_derive:
  "make_pairing_transcript sample_hello \<lparr>po_version = 1, po_agreement = 1, po_public_key = [6, 6, 6, 6, 6, 6, 6, 6, 6],
     po_nonce = replicate 32 2\<rparr> = Some sample_transcript"
  "agree (wd_ecdh sample_world) [6, 6, 6, 6, 6, 6, 6, 6, 6] [6, 6, 6, 6, 6, 6, 6, 6, 1] = Some (replicate 32 3)"
  "derive_pairing_secrets (wd_sha sample_world) (crypto_hmac (wd_crypto sample_world)) (replicate 32 3) sample_transcript =
     Some sample_secrets"
  "confirmation_tag (crypto_hmac (wd_crypto sample_world)) sample_secrets sample_transcript role = Some (replicate 32 5)"
  "client_id_from_uuid (wd_sha sample_world) [0x41] = Some (replicate 16 7)"
  "decode_pairing_hello (encode_pairing_hello sample_hello) = Some sample_hello"
  "length (encode_pairing_hello sample_hello) = 53"
  by (simp_all add: make_pairing_transcript_def valid_transcript_def known_agreement_def agreement_x25519_def valid_identity_def
      valid_public_key_def non_zero_def list_ex_iff agree_def sample_world_def derive_pairing_secrets_def encode_transcript_def
      hkdf_sha256_def hmac_sha256_def ascii_def confirmation_tag_def client_id_from_uuid_def tag_label_def
      encode_pairing_hello_def hello_valid_def decode_pairing_hello_def Let_def split: confirmation_role.split)

abbreviation sample_pending :: "bool \<Rightarrow> pending_pairing" where
  "sample_pending b \<equiv> \<lparr>pp_connection = 1, pp_request_id = 4, pp_address = [0x31], pp_transcript = sample_transcript,
     pp_secrets = sample_secrets, pp_expires = 190, pp_confirmed = b\<rparr>"

abbreviation sample_paired :: server where
  "sample_paired \<equiv> sample_server\<lparr>sv_window := True, sv_next_pairing := 2, sv_pending := [(1, sample_pending False)],
     sv_conns := [(1, (new_conn [0x31])\<lparr>co_stage := Pairing_offered, co_pairing_id := 1, co_request_id := 4\<rparr>)]\<rparr>"

lemma sample_hello_step:
  "fst (on_bytes sample_world (\<lambda>_. sample_env) 1 (plain_wire pairing_hello_type 4 (encode_pairing_hello sample_hello))
     (sample_server\<lparr>sv_window := True, sv_conns := [(1, new_conn [0x31])]\<rparr>)) = sample_paired"
proof -
  let ?w = "plain_wire pairing_hello_type 4 (encode_pairing_hello sample_hello)"
  have "frame_ok (plain_frame pairing_hello_type 4 (encode_pairing_hello sample_hello))"
    by (rule plain_frame_ok) (simp add: sample_derive)
  then have "?w = append_le (73 :: u32) @ encode_command_header (envelope (plain_frame pairing_hello_type 4 (encode_pairing_hello sample_hello))) @ encode_pairing_hello sample_hello"
    using frame_wire_append [of "plain_frame pairing_hello_type 4 (encode_pairing_hello sample_hello)"] sample_derive(7)
    by (simp add: plain_wire_def plain_frame_def)
  then have w: "\<not> length ?w < 4" "le_loop 0 0 (take 4 ?w) = (73 :: u32)" by (simp_all add: le_loop_append_u32)
  then have "?w \<noteq> []" by auto
  show ?thesis
    using w \<open>?w \<noteq> []\<close> feed_plain [of "encode_pairing_hello sample_hello" pairing_hello_type 4]
    by (simp add: on_bytes_def open_stage_def Let_def new_conn_def feed_frames_def set_conn_def alist_modify_def
        sample_derive sample_env_def kMagic_def process_frame_def process_pairing_hello_def kPairingVersion_def
        encode_pairing_offer_def offer_valid_def known_agreement_def agreement_x25519_def valid_public_key_def non_zero_def
        list_ex_iff admit_pairing_def take_expired_def sample_server_def initial_server_def refuse_abandoned_def
        kMaximumPendingPairings_def kPairingApprovalWindow_def alist_emplace_def append_le_def)
qed

lemma sample_confirm_step:
  "fst (on_bytes sample_world (\<lambda>_. sample_env) 1 (plain_wire pairing_confirm_type 4 (replicate 32 5)) sample_paired) =
   sample_paired\<lparr>sv_pending := [(1, sample_pending True)],
     sv_conns := [(1, (new_conn [0x31])\<lparr>co_stage := Pairing_pending, co_pairing_id := 1, co_request_id := 4\<rparr>)]\<rparr>"
proof -
  have ok: "frame_ok (plain_frame pairing_confirm_type 4 (replicate 32 5))" by (rule plain_frame_ok) simp
  have "plain_wire pairing_confirm_type 4 (replicate 32 5) \<noteq> []"
    using frame_wire_length [OF ok] by (auto simp: plain_wire_def plain_frame_def)
  then show ?thesis
    using feed_plain [of "replicate 32 5" pairing_confirm_type 4]
    by (simp add: on_bytes_def new_conn_def feed_frames_def Let_def set_conn_def alist_modify_def process_frame_def
        process_pairing_confirm_def heartbeat_type_def pairing_confirm_type_def decode_pairing_confirm_def
        verify_confirmation_tag_def sample_derive constant_time_equal_iff sample_env_def kPairingApprovalWindow_def)
qed

lemma sample_approve_step:
  "sv_keys (fst (snd (approve_pairing sample_world sample_env 1 (sample_server\<lparr>sv_window := True, sv_next_pairing := 2,
     sv_pending := [(1, sample_pending True)], sv_conns := conns\<rparr>)))) = [(make_lookup_key (replicate 16 7) 1,
       \<lparr>kr_client_id = replicate 16 7, kr_key_id = 1, kr_key = replicate 32 5, kr_revoked = False\<rparr>)]"
  by (simp add: approve_pairing_def take_expired_def sample_env_def Let_def drop_pending_pairing_def alist_erase_def
      refuse_abandoned_def sample_derive sample_server_def initial_server_def rotate_key_def valid_key_def non_zero_def
      list_ex_iff highest_key_id_def wipe_where_def encode_pairing_accept_def settle_pairing_connection_def set_conn_def append_le_def)

lemma sample_key:
  "resolve (replicate 16 7) 1 (sv_keys (fold (server_step sample_world) pairing_events sample_server)) = Some (replicate 32 5)"
proof -
  have "fold (server_step sample_world) pairing_events sample_server =
    fst (snd (approve_pairing sample_world sample_env 1 (fst (on_bytes sample_world (\<lambda>_. sample_env) 1
      (plain_wire pairing_confirm_type 4 (replicate 32 5)) sample_paired))))"
    using sample_hello_step by (simp add: pairing_events_def set_pairing_window_def sample_server_def initial_server_def)
  then show ?thesis
    by (simp add: sample_confirm_step sample_approve_step resolve_def valid_key_def non_zero_def list_ex_iff)
qed

text \<open>
  C6. Where a key comes from: after any run of the server from a well-formed keyring, a key that a
  client can authenticate with and that was not in the keyring at the start got there in one of
  two ways. Either the operator approved, while the pairing window was open, a waiting request
  before its deadline; the key is the one derived from the agreed secret and the transcript of
  that request, the client identity is the hash of the machine id in it, and a frame with the
  client's confirmation tag over that transcript had been heard. Or a frame carried an enrolment
  request for exactly this identity and key number with the HMAC of the configured secret. In
  both cases the keyring file had been saved when one is configured.
\<close>

theorem key_provenance:
  assumes "ks_inv keys"
    and "resolve cid kid (sv_keys (fold (server_step w) es (initial_server keys authority replay))) = Some key"
    and "resolve cid kid keys \<noteq> Some key"
  shows "(\<exists>s en pid p. (s, Decided (Approve en pid)) \<in> set (run_log w es (initial_server keys authority replay)) \<and>
        sv_window s \<and> map_of (sv_pending s) pid = Some p \<and> pp_confirmed p \<and> en_now en < pp_expires p \<and>
        pending_ok w (run_log w es (initial_server keys authority replay)) p \<and>
        client_id_from_uuid (wd_sha w) (pt_uuid (pp_transcript p)) = Some cid \<and>
        ps_enrolled_key (pp_secrets p) = key \<and> (wd_keyring w \<longrightarrow> en_saved en)) \<or>
    (\<exists>s en k f r a. (s, Heard en k f) \<in> set (run_log w es (initial_server keys authority replay)) \<and> authority = Some a \<and>
        decode_enrollment_request (payload f) = Some r \<and> er_client_id r = cid \<and> er_key_id r = kid \<and>
        hmac_sha256 (crypto_hmac (wd_crypto w)) (ea_secret a) (enrollment_message ''NSTU-ENROLLMENT-AUTH-V1'' r) =
          Some (er_authenticator r) \<and>
        derive_enrolled_key (crypto_hmac (wd_crypto w)) (ea_secret a) r = Some key \<and> (wd_keyring w \<longrightarrow> en_saved en))"
proof -
  have "origin w keys (map_option ea_secret authority) (run_log w es (initial_server keys authority replay)) cid kid key"
    using session_inv_run [OF assms(1), of w authority es replay] assms(2) by (simp add: session_inv_def keys_inv_def)
  then show ?thesis using assms(3) unfolding origin_def approved_def enrolled_def by (auto simp: eq_commute [of "Some _" "map_option _ _"])
qed

text \<open>
  At the concrete run above, the key of the paired client comes from the operator's approval.
\<close>

theorem key_provenance_witness:
  "\<exists>s en pid p. (s, Decided (Approve en pid)) \<in> set (run_log sample_world pairing_events sample_server) \<and>
     sv_window s \<and> map_of (sv_pending s) pid = Some p \<and> pp_confirmed p \<and> en_now en < pp_expires p \<and>
     ps_enrolled_key (pp_secrets p) = replicate 32 5"
  using key_provenance [of "[]" "replicate 16 7" 1 sample_world pairing_events None "make_replay_protector 4 60" "replicate 32 5"]
    sample_key unfolding sample_server_def by (auto simp: ks_inv_def resolve_def)

definition vouched :: "world \<Rightarrow> log \<Rightarrow> int \<Rightarrow> server \<Rightarrow> u64 \<times> bytes \<times> bytes \<Rightarrow> bool" where
  "vouched w log now sv shown \<longleftrightarrow> (case shown of (pid, host, code) \<Rightarrow>
     length code = 6 \<and> list_all (\<lambda>d. 0x30 \<le> d \<and> d \<le> 0x39) code \<and>
     (\<exists>p shared s en k f. map_of (sv_pending sv) pid = Some p \<and> now < pp_expires p \<and>
        pt_hostname (pp_transcript p) = host \<and> ps_sas (pp_secrets p) = code \<and>
        agree (wd_ecdh w) (pt_server_key (pp_transcript p)) (pt_client_key (pp_transcript p)) = Some shared \<and>
        derive_pairing_secrets (wd_sha w) (crypto_hmac (wd_crypto w)) shared (pp_transcript p) = Some (pp_secrets p) \<and>
        (s, Heard en k f) \<in> set log \<and>
        confirmation_tag (crypto_hmac (wd_crypto w)) (pp_secrets p) (pp_transcript p) Client_role = Some (payload f)))"

lemma visible_vouched:
  assumes inv: "pendings_inv w log (sv_window sv) (sv_pending sv)"
  shows "list_all (vouched w log now sv) (visible_pairings now sv)"
proof -
  have "vouched w log now sv (pid, host, code)" if seen: "(pid, host, code) \<in> set (visible_pairings now sv)" for pid host code
  proof -
    obtain p where p: "(pid, p) \<in> set (sv_pending sv)" "pp_confirmed p" "now < pp_expires p"
      "pt_hostname (pp_transcript p) = host" "ps_sas (pp_secrets p) = code"
      using seen by (auto simp: visible_pairings_def)
    have "map_of (sv_pending sv) pid = Some p" using inv p(1) by (simp add: pendings_inv_def)
    moreover have "pending_ok w log p" using inv p(1) by (auto simp: pendings_inv_def alist_all_def)
    ultimately show ?thesis using p sas_is_six_digits unfolding pending_ok_def vouched_def by fast
  qed
  then show ?thesis by (auto simp: list_all_iff)
qed

text \<open>
  C7. Pairing is bounded and checked: after any run at most 16 requests wait, none while the window
  is closed, and whatever the operator is shown (number, host name and code) belongs to a waiting,
  unexpired request whose host name is the one of its transcript; its code has six decimal digits,
  its secrets come from the key agreement of the two public keys in that same transcript, and
  a frame with the client's confirmation tag over it was heard.
\<close>

theorem pairings_vouched:
  assumes "ks_inv keys"
  shows "length (sv_pending (fold (server_step w) es (initial_server keys authority replay))) \<le> 16 \<and>
    (sv_window (fold (server_step w) es (initial_server keys authority replay)) \<or>
     sv_pending (fold (server_step w) es (initial_server keys authority replay)) = []) \<and>
    list_all (vouched w (run_log w es (initial_server keys authority replay)) now
        (fold (server_step w) es (initial_server keys authority replay)))
      (visible_pairings now (fold (server_step w) es (initial_server keys authority replay)))"
proof -
  have "pendings_inv w (run_log w es (initial_server keys authority replay))
      (sv_window (fold (server_step w) es (initial_server keys authority replay)))
      (sv_pending (fold (server_step w) es (initial_server keys authority replay)))"
    using session_inv_run [OF assms, of w authority es replay] by (simp add: session_inv_def)
  then show ?thesis using visible_vouched by (auto simp: pendings_inv_def kMaximumPendingPairings_def)
qed

lemma sample_visible:
  "visible_pairings 20 (fold (server_step sample_world) (take 4 pairing_events) sample_server) =
     [(1, [0x42], format_sas (replicate 32 5))]"
proof -
  have "fold (server_step sample_world) (take 4 pairing_events) sample_server =
    fst (on_bytes sample_world (\<lambda>_. sample_env) 1 (plain_wire pairing_confirm_type 4 (replicate 32 5)) sample_paired)"
    using sample_hello_step by (simp add: pairing_events_def set_pairing_window_def sample_server_def initial_server_def)
  then show ?thesis by (simp add: sample_confirm_step visible_pairings_def)
qed

theorem pairings_vouched_witness:
  "vouched sample_world (run_log sample_world (take 4 pairing_events) sample_server) 20
     (fold (server_step sample_world) (take 4 pairing_events) sample_server) (1, [0x42], format_sas (replicate 32 5))"
  using pairings_vouched [of "[]" sample_world "take 4 pairing_events" None "make_replay_protector 4 60" 20] sample_visible
  unfolding sample_server_def by (simp add: ks_inv_def)

text \<open>
  C5. What stands behind a session: when, after any run, a connection is authenticated, then for some
  key the connection sent the hello it is authenticated for, at that moment the key table held
  this key for the identity and key number of the hello, and the key was in the keyring from the
  start or got there by an approved pairing or an enrolment; the server's nonce in the challenge was
  drawn for this hello; later the connection sent exactly the client's HMAC under this key over the hello
  and the challenge, the replay protection accepted the hello then, and the session key
  is the one derived from the same key, hello and challenge.
\<close>

theorem session_has_proof:
  assumes "ks_inv keys"
    and "map_of (sv_conns (fold (server_step w) es (initial_server keys authority replay))) k = Some c"
    and "co_stage c = Authenticated"
  shows "\<exists>psk.
    (\<exists>s en f. (s, Heard en k f) \<in> set (run_log w es (initial_server keys authority replay)) \<and>
       decode_auth_hello (payload f) = Some (co_hello c) \<and>
       resolve (hello_client_id (co_hello c)) (hello_key_id (co_hello c)) (sv_keys s) = Some psk \<and>
       origin w keys (map_option ea_secret authority) (run_log w es (initial_server keys authority replay))
         (hello_client_id (co_hello c)) (hello_key_id (co_hello c)) psk \<and>
       en_nonce en = Some (chal_server_nonce (co_challenge c))) \<and>
    (\<exists>s en f. (s, Heard en k f) \<in> set (run_log w es (initial_server keys authority replay)) \<and>
       compute_client_proof (crypto_hmac (wd_crypto w)) psk (co_hello c) (co_challenge c) = Some (payload f) \<and>
       fst (replay_accept (co_hello c) (en_unix en) (sv_replay s)) \<and>
       derive_session_key (crypto_hmac (wd_crypto w)) psk (co_hello c) (co_challenge c) = Some (co_session_key c))"
proof -
  have "conn_ok w keys (map_option ea_secret authority) (run_log w es (initial_server keys authority replay)) k c"
    using session_inv_run [OF assms(1), of w authority es replay] assms(2) by (simp add: session_inv_def conns_inv_def)
  then show ?thesis using assms(3) unfolding conn_ok_def greeted_def proof_checked_def by blast
qed

abbreviation sample_preamble :: connection_preamble where
  "sample_preamble \<equiv> make_preamble role_client (replicate 16 1) 1 kPreambleFlagNone"

definition sample_keys :: key_store where
  "sample_keys = [(make_lookup_key (replicate 16 1) 1,
     \<lparr>kr_client_id = replicate 16 1, kr_key_id = 1, kr_key = replicate 32 9, kr_revoked = False\<rparr>)]"

definition login_events :: "event list" where
  "login_events = [Connect 1 [0x31],
     Bytes (\<lambda>_. sample_env) 1 (encode_connection_preamble sample_preamble),
     Bytes (\<lambda>_. sample_env) 1 (plain_wire auth_hello_type 4 (encode_auth_hello demo_hello)),
     Bytes (\<lambda>_. sample_env) 1 (plain_wire auth_proof_type 4 (replicate 32 5))]"

abbreviation login_server :: "conn \<Rightarrow> server" where
  "login_server c \<equiv> (initial_server sample_keys None (make_replay_protector 4 60))\<lparr>sv_conns := [(1, c)]\<rparr>"

abbreviation greeting_conn :: conn where
  "greeting_conn \<equiv> (new_conn [0x31])\<lparr>co_preamble := sample_preamble, co_stage := Auth_hello_stage\<rparr>"

abbreviation proving_conn :: conn where
  "proving_conn \<equiv> greeting_conn\<lparr>co_stage := Auth_proof_stage, co_hello := demo_hello, co_psk := replicate 32 9,
     co_challenge := \<lparr>chal_server_nonce = replicate 32 2, chal_time = 1000\<rparr>, co_request_id := 4\<rparr>"

lemma login_preamble_step:
  "fst (on_bytes sample_world (\<lambda>_. sample_env) 1 (encode_connection_preamble sample_preamble) (login_server (new_conn [0x31]))) =
   login_server greeting_conn"
proof -
  have ok: "preamble_ok sample_preamble"
    by (simp add: preamble_ok_def make_preamble_def known_role_def non_zero_def list_ex_iff)
  have e: "encode_connection_preamble sample_preamble = append_le kMagic @ drop 4 (encode_connection_preamble sample_preamble)"
    "length (encode_connection_preamble sample_preamble) = 32"
    by (simp_all add: encode_connection_preamble_def make_preamble_def known_role_def)
  have "le_loop 0 0 (take 4 (encode_connection_preamble sample_preamble)) = kMagic"
    by (subst e) (simp add: le_loop_append_u32)
  then show ?thesis using e(2) decode_encode_preamble [OF ok]
    by (simp add: on_bytes_def open_stage_def new_conn_def Let_def set_conn_def alist_modify_def feed_frames_def make_preamble_def)
qed

lemma login_hello_step:
  "fst (on_bytes sample_world (\<lambda>_. sample_env) 1 (plain_wire auth_hello_type 4 (encode_auth_hello demo_hello))
     (login_server greeting_conn)) = login_server proving_conn"
proof -
  have h: "decode_auth_hello (encode_auth_hello demo_hello) = Some demo_hello" "length (encode_auth_hello demo_hello) = 60"
    "validate_auth_hello demo_hello"
    using hello_message [OF demo_parties(3)] demo_parties(3) by (simp_all add: good_hello_def)
  have ok: "frame_ok (plain_frame auth_hello_type 4 (encode_auth_hello demo_hello))" by (rule plain_frame_ok) (simp add: h)
  have "plain_wire auth_hello_type 4 (encode_auth_hello demo_hello) \<noteq> []"
    using frame_wire_length [OF ok] by (auto simp: plain_wire_def plain_frame_def)
  moreover have "resolve (replicate 16 1) 1 sample_keys = Some (replicate 32 9)"
    by (simp add: sample_keys_def resolve_def valid_key_def non_zero_def list_ex_iff)
  ultimately show ?thesis
    using feed_plain [of "encode_auth_hello demo_hello" auth_hello_type 4] h
    by (simp add: on_bytes_def new_conn_def feed_frames_def Let_def set_conn_def alist_modify_def process_frame_def
        process_auth_hello_def demo_hello_def make_preamble_def sample_env_def initial_server_def kPreambleFlagNone_def)
qed

lemma login_proof_step:
  "\<exists>c. map_of (sv_conns (fst (on_bytes sample_world (\<lambda>_. sample_env) 1 (plain_wire auth_proof_type 4 (replicate 32 5))
     (login_server proving_conn)))) 1 = Some c \<and> co_stage c = Authenticated \<and> co_hello c = demo_hello"
proof -
  let ?c = "\<lparr>chal_server_nonce = replicate 32 2, chal_time = 1000\<rparr> :: auth_challenge"
  have ok: "frame_ok (plain_frame auth_proof_type 4 (replicate 32 5))" by (rule plain_frame_ok) simp
  have w: "plain_wire auth_proof_type 4 (replicate 32 5) \<noteq> []"
    using frame_wire_length [OF ok] by (auto simp: plain_wire_def plain_frame_def)
  have good: "good_challenge ?c"
    by (simp add: good_challenge_def challenge_wf_def validate_auth_challenge_def non_zero_def list_ex_iff)
  have mac: "compute_client_proof (crypto_hmac (wd_crypto sample_world)) (replicate 32 9) demo_hello ?c = Some (replicate 32 5)"
    "derive_session_key (crypto_hmac (wd_crypto sample_world)) (replicate 32 9) demo_hello ?c = Some (replicate 32 5)"
    "compute_server_proof (crypto_hmac (wd_crypto sample_world)) (replicate 32 5) demo_hello ?c = Some (replicate 32 5)"
    using transcript_length [OF demo_parties(3) good] demo_parties(3) good
    by (simp_all add: compute_client_proof_def derive_session_key_def compute_server_proof_def hmac_sha256_def
        good_hello_def good_challenge_def sample_world_def)
  obtain rp where "replay_accept demo_hello 1000 (make_replay_protector 4 60) = (True, rp)"
    by (simp add: replay_accept_def demo_hello_def validate_auth_hello_def non_zero_def list_ex_iff make_replay_protector_def Let_def)
  then show ?thesis
    using feed_plain [of "replicate 32 5" auth_proof_type 4] w mac
    by (simp add: on_bytes_def new_conn_def feed_frames_def Let_def set_conn_def alist_modify_def process_frame_def
        process_auth_proof_def constant_time_equal_iff sample_env_def initial_server_def install_session_def)
qed

lemma login_authenticated:
  "\<exists>c. map_of (sv_conns (fold (server_step sample_world) login_events (initial_server sample_keys None (make_replay_protector 4 60)))) 1 =
     Some c \<and> co_stage c = Authenticated \<and> co_hello c = demo_hello"
proof -
  have "fold (server_step sample_world) login_events (initial_server sample_keys None (make_replay_protector 4 60)) =
    fst (on_bytes sample_world (\<lambda>_. sample_env) 1 (plain_wire auth_proof_type 4 (replicate 32 5)) (login_server proving_conn))"
    using login_preamble_step login_hello_step by (simp add: login_events_def initial_server_def)
  then show ?thesis using login_proof_step by simp
qed

theorem session_has_proof_witness:
  "\<exists>psk s en f. (s, Heard en 1 f) \<in> set (run_log sample_world login_events (initial_server sample_keys None (make_replay_protector 4 60))) \<and>
     decode_auth_hello (payload f) = Some demo_hello \<and> resolve (replicate 16 1) 1 (sv_keys s) = Some psk"
proof -
  obtain c where c: "map_of (sv_conns (fold (server_step sample_world) login_events
      (initial_server sample_keys None (make_replay_protector 4 60)))) 1 = Some c" "co_stage c = Authenticated" "co_hello c = demo_hello"
    using login_authenticated by blast
  have "ks_inv sample_keys" by (simp add: ks_inv_def sample_keys_def entry_ok_def valid_key_def non_zero_def list_ex_iff)
  from session_has_proof [OF this c(1,2)] show ?thesis by (auto simp: c(3) demo_hello_def) 
qed

end
