(* ===== verification/Keyring.thy ===== *)
theory Keyring
  imports KeyStore
begin

text \<open>
  The keyring file of \<^verbatim>\<open>common/src/keyring.cpp\<close>: a 12-byte header, then one record per key
  (client id, key id, flags, key length, key). The protected machine storage behind
  \<open>save_machine_secret\<close> and \<open>load_machine_secret\<close> (Windows DPAPI and the file system) is a
  pair of parameters; what the code relies on is that loading returns what was last saved.

  Shown: every record list the encoder accepts is read back unchanged, the encoder accepts
  every well-formed list within the record limit, and a table saved to storage and loaded
  into any other table resolves exactly the same keys.
\<close>

definition kMaximumKeyringRecords :: nat where "kMaximumKeyringRecords = 100000"
definition kKeyringMagic :: u32 where "kKeyringMagic = 0x31524b4e"
definition kKeyringVersion :: u16 where "kKeyringVersion = 1"
definition kKeyringHeaderBytes :: u16 where "kKeyringHeaderBytes = 12"
definition kRevokedFlag :: u32 where "kRevokedFlag = 1"
definition size_max :: nat where "size_max = 2 ^ 64 - 1"

definition fixed_record_bytes :: nat where "fixed_record_bytes = kClientIdBytes + 4 * 3"

text \<open>The size pass of the encoder over the records: an error, or the total_bytes size.\<close>

fun keyring_size :: "key_record list \<Rightarrow> nat \<Rightarrow> key_error + nat" where
  "keyring_size [] total_bytes = Inr total_bytes"
| "keyring_size (r # rs) total_bytes =
     (if kr_key_id r = 0 \<or> length (kr_key r) > 2 ^ 32 - 1 \<or>
         (if kr_revoked r then kr_key r \<noteq> [] else length (kr_key r) < kMinimumProtocolKeyBytes)
      then Inl Invalid_keyring_record
      else if length (kr_key r) > size_max - fixed_record_bytes \<or>
              fixed_record_bytes + length (kr_key r) > size_max - total_bytes
      then Inl Keyring_size_overflow
      else keyring_size rs (total_bytes + fixed_record_bytes + length (kr_key r)))"

definition encode_key_record :: "key_record \<Rightarrow> bytes" where
  "encode_key_record r =
     kr_client_id r @ append_le (kr_key_id r) @
     append_le (if kr_revoked r then kRevokedFlag else 0) @
     append_le (word_of_nat (length (kr_key r)) :: u32) @ kr_key r"

definition encode_keyring :: "key_record list \<Rightarrow> key_error + bytes" where
  "encode_keyring records =
     (if length records > kMaximumKeyringRecords \<or> length records > 2 ^ 32 - 1
      then Inl Keyring_record_limit_exceeded
      else case keyring_size records (unat kKeyringHeaderBytes) of
        Inl e \<Rightarrow> Inl e
      | Inr _ \<Rightarrow>
          Inr (append_le kKeyringMagic @ append_le kKeyringVersion @ append_le kKeyringHeaderBytes @
               append_le (word_of_nat (length records) :: u32) @
               concat (map encode_key_record records)))"

fun decode_records :: "nat \<Rightarrow> bytes \<Rightarrow> key_record list \<Rightarrow> key_error + key_record list \<times> bytes" where
  "decode_records 0 w records = Inr (records, w)"
| "decode_records (Suc n) w records =
     (if length w < fixed_record_bytes then Inl Keyring_record_truncated
      else case do {
          (cid, w) \<leftarrow> read_array kClientIdBytes w;
          (key_id, w) \<leftarrow> read_le w;
          (flags, w) \<leftarrow> read_le w;
          (key_bytes, w) \<leftarrow> read_le w;
          Some (cid, key_id :: u32, flags :: u32, unat (key_bytes :: u32), w)
        } of
        None \<Rightarrow> Inl Invalid_keyring_record
      | Some (cid, key_id, flags, key_bytes, w) \<Rightarrow>
          if flags AND NOT kRevokedFlag \<noteq> 0 \<or> key_id = 0 \<or> key_bytes > length w
          then Inl Invalid_keyring_record
          else let revoked = (flags AND kRevokedFlag \<noteq> 0) in
            if (revoked \<and> key_bytes \<noteq> 0) \<or> (\<not> revoked \<and> key_bytes < kMinimumProtocolKeyBytes)
            then Inl Invalid_keyring_key_length
            else decode_records n (drop key_bytes w)
                   (records @ [\<lparr>kr_client_id = cid, kr_key_id = key_id, kr_key = take key_bytes w,
                                kr_revoked = revoked\<rparr>]))"

definition decode_keyring :: "bytes \<Rightarrow> key_error + key_record list" where
  "decode_keyring wire =
     (if length wire < unat kKeyringHeaderBytes then Inl Keyring_header_truncated
      else case do {
          (magic, w) \<leftarrow> read_le wire;
          (version, w) \<leftarrow> read_le w;
          (header_bytes, w) \<leftarrow> read_le w;
          (record_count, w) \<leftarrow> read_le w;
          Some (magic :: u32, version :: u16, header_bytes :: u16, unat (record_count :: u32), w)
        } of
        None \<Rightarrow> Inl Invalid_keyring_header
      | Some (magic, version, header_bytes, record_count, w) \<Rightarrow>
          if magic \<noteq> kKeyringMagic \<or> version \<noteq> kKeyringVersion \<or>
             header_bytes \<noteq> kKeyringHeaderBytes \<or> record_count > kMaximumKeyringRecords
          then Inl Invalid_keyring_header
          else case decode_records record_count w [] of
            Inl e \<Rightarrow> Inl e
          | Inr (records, rest) \<Rightarrow> if rest \<noteq> [] then Inl Keyring_trailing_data else Inr records)"

definition save_keyring :: "(bytes \<Rightarrow> 'disk \<Rightarrow> 'disk option) \<Rightarrow> key_store \<Rightarrow> 'disk \<Rightarrow> 'disk option" where
  "save_keyring save_machine_secret store disk =
     (case encode_keyring (snapshot store) of
        Inl _ \<Rightarrow> None
      | Inr wire \<Rightarrow> if wire = [] then None else save_machine_secret wire disk)"

definition load_keyring :: "('disk \<Rightarrow> bytes) \<Rightarrow> 'disk \<Rightarrow> key_store \<Rightarrow> bool \<times> key_store" where
  "load_keyring load_machine_secret disk store =
     (let wire = load_machine_secret disk in
      if wire = [] then (False, store)
      else case decode_keyring wire of
        Inl _ \<Rightarrow> (False, store)
      | Inr records \<Rightarrow> (case replace records store of
            (None, store') \<Rightarrow> (True, store') | (Some _, store') \<Rightarrow> (False, store')))"

section \<open>Round trip\<close>

lemmas keyring_consts = kMaximumKeyringRecords_def fixed_record_bytes_def size_max_def

definition wire_record_ok :: "key_record \<Rightarrow> bool" where
  "wire_record_ok r \<longleftrightarrow> length (kr_client_id r) = 16 \<and> kr_key_id r \<noteq> 0 \<and>
     length (kr_key r) \<le> 2 ^ 32 - 1 \<and>
     (if kr_revoked r then kr_key r = [] else 32 \<le> length (kr_key r))"

lemma keyring_size_ok:
  assumes "\<forall>r \<in> set rs. wire_record_ok r" and "total_bytes + length rs * (2 ^ 32 + 27) \<le> size_max"
  shows "\<exists>n. keyring_size rs total_bytes = Inr n"
  using assms
proof (induction rs arbitrary: total_bytes)
  case Nil
  then show ?case by simp
next
  case (Cons r rs)
  have r: "wire_record_ok r" and len: "28 + length (kr_key r) \<le> 2 ^ 32 + 27"
    using Cons.prems(1) by (auto simp: wire_record_ok_def)
  have "total_bytes + 28 + length (kr_key r) + length rs * (2 ^ 32 + 27) \<le> size_max"
    using Cons.prems(2) len by simp
  then have "\<exists>n. keyring_size rs (total_bytes + fixed_record_bytes + length (kr_key r)) = Inr n"
    using Cons.IH [of "total_bytes + 28 + length (kr_key r)"] Cons.prems(1)
    by (simp add: fixed_record_bytes_def)
  moreover have "length (kr_key r) \<le> size_max - fixed_record_bytes"
      "fixed_record_bytes + length (kr_key r) \<le> size_max - total_bytes"
    using Cons.prems(2) len by (simp_all add: keyring_consts)
  ultimately show ?case using r by (auto simp: wire_record_ok_def not_less split: if_splits)
qed

lemma keyring_size_records:
  "keyring_size rs total_bytes = Inr n \<Longrightarrow> \<forall>r \<in> set rs. length (kr_client_id r) = 16 \<Longrightarrow>
   \<forall>r \<in> set rs. wire_record_ok r"
  by (induction rs arbitrary: total_bytes) (auto simp: wire_record_ok_def split: if_splits)

lemma revoked_flag_bits:
  "kRevokedFlag AND NOT kRevokedFlag = 0" "kRevokedFlag AND kRevokedFlag \<noteq> 0" "kRevokedFlag \<noteq> 0"
  by (simp_all add: kRevokedFlag_def)

lemma decode_records_encode:
  assumes "\<forall>r \<in> set rs. wire_record_ok r"
  shows "decode_records (length rs) (concat (map encode_key_record rs) @ rest) acc = Inr (acc @ rs, rest)"
  using assms
proof (induction rs arbitrary: acc)
  case Nil
  then show ?case by simp
next
  case (Cons r rs)
  have r: "wire_record_ok r" using Cons.prems by simp
  have len: "unat (word_of_nat (length (kr_key r)) :: u32) = length (kr_key r)"
    using r by (simp add: wire_record_ok_def unat_of_nat)
  have "decode_records (length (r # rs)) (concat (map encode_key_record (r # rs)) @ rest) acc =
      decode_records (length rs) (concat (map encode_key_record rs) @ rest) (acc @ [r])"
    using r len by (cases r; cases "kr_revoked r")
      (auto simp: encode_key_record_def wire_record_ok_def fixed_record_bytes_def
        revoked_flag_bits Let_def)
  then show ?case using Cons by simp
qed

lemma keyring_roundtrip_aux:
  assumes "\<forall>r \<in> set records. wire_record_ok r" and "length records \<le> 100000"
  shows "\<exists>wire. encode_keyring records = Inr wire \<and> wire \<noteq> [] \<and> decode_keyring wire = Inr records"
proof -
  have "\<exists>n. keyring_size records 12 = Inr n"
    by (rule keyring_size_ok [OF assms(1)]) (use assms(2) in \<open>simp add: size_max_def\<close>)
  then obtain n where "keyring_size records (unat kKeyringHeaderBytes) = Inr n"
    by (auto simp: kKeyringHeaderBytes_def)
  moreover have "unat (word_of_nat (length records) :: u32) = length records"
    using assms(2) by (simp add: unat_of_nat)
  moreover have "append_le kKeyringMagic \<noteq> []"
    using length_append_le [of kKeyringMagic] by fastforce
  ultimately show ?thesis
    using assms decode_records_encode [OF assms(1), of "[]" "[]"]
    by (auto simp: encode_keyring_def decode_keyring_def kMaximumKeyringRecords_def
        kKeyringHeaderBytes_def)
qed


text \<open>
  The keyring file format loses nothing: every list of at most 100000 records with non-zero
  key ids, 16-byte client ids, no key for a revoked record and at least 32 key bytes for an
  active one is encoded, and decoding the result gives back exactly that list; conversely
  whatever the encoder accepts is such a list.
\<close>

theorem keyring_roundtrip:
  assumes "\<forall>r \<in> set records. length (kr_client_id r) = kClientIdBytes"
  shows "((\<exists>wire. encode_keyring records = Inr wire) \<longleftrightarrow>
      length records \<le> kMaximumKeyringRecords \<and> (\<forall>r \<in> set records. wire_record_ok r)) \<and>
    (\<forall>wire. encode_keyring records = Inr wire \<longrightarrow> decode_keyring wire = Inr records)"
proof -
  have "encode_keyring records = Inr w \<Longrightarrow>
      length records \<le> kMaximumKeyringRecords \<and> (\<forall>r \<in> set records. wire_record_ok r)" for w
    using assms keyring_size_records [of records "unat kKeyringHeaderBytes"]
    by (auto simp: encode_keyring_def kMaximumKeyringRecords_def split: if_splits sum.splits)
  then show ?thesis
    using keyring_roundtrip_aux [of records] by (fastforce simp: kMaximumKeyringRecords_def)
qed

definition demo_record :: key_record where
  "demo_record = \<lparr>kr_client_id = demo_id, kr_key_id = 1, kr_key = demo_key, kr_revoked = False\<rparr>"

theorem keyring_roundtrip_witness:
  "\<exists>wire. encode_keyring [demo_record] = Inr wire \<and> decode_keyring wire = Inr [demo_record]"
  using keyring_roundtrip [of "[demo_record]"]
  by (auto simp: demo_record_def demo_id_def demo_key_def wire_record_ok_def kMaximumKeyringRecords_def)

lemma snapshot_wire_ok:
  assumes "ks_inv s" and "\<forall>ke \<in> set s. length (kr_client_id (snd ke)) = 16 \<and> length (kr_key (snd ke)) \<le> 2 ^ 32 - 1"
  shows "\<forall>r \<in> set (snapshot s). wire_record_ok r"
proof
  fix r assume "r \<in> set (snapshot s)"
  then obtain k e where "(k, e) \<in> set s" "r = snapshot_record e" by (auto simp: snapshot_def)
  with assms show "wire_record_ok r"
    by (auto simp: ks_inv_def entry_ok_def wire_record_ok_def snapshot_record_def valid_key_def
        dest!: bspec split: if_splits)
qed

text \<open>
  C29. Keys survive a restart: if a well-formed table with at most 100000 entries is saved, and
  the machine storage returns what was saved, then loading it into any other table succeeds
  and every client and key id resolves there exactly as in the table that was saved.
\<close>

theorem keyring_save_load:
  assumes "ks_inv s" and "key_count s \<le> kMaximumKeyringRecords"
    and "\<forall>ke \<in> set s. length (kr_client_id (snd ke)) = kClientIdBytes \<and> length (kr_key (snd ke)) \<le> 2 ^ 32 - 1"
    and storage: "\<And>wire d d'. save_machine_secret wire d = Some d' \<Longrightarrow> load_machine_secret d' = wire"
    and "save_keyring save_machine_secret s disk = Some disk'"
  shows "\<exists>t'. load_keyring load_machine_secret disk' t = (True, t') \<and>
    (\<forall>c i. resolve c i t' = resolve c i s)"
proof -
  have "length (snapshot s) = length s" by (simp add: snapshot_def)
  moreover have "\<forall>r \<in> set (snapshot s). wire_record_ok r"
    using snapshot_wire_ok [OF assms(1)] assms(3) by simp
  ultimately obtain wire where wire: "encode_keyring (snapshot s) = Inr wire" "wire \<noteq> []"
      "decode_keyring wire = Inr (snapshot s)"
    using keyring_roundtrip_aux [of "snapshot s"] assms(2)
    by (auto simp: kMaximumKeyringRecords_def key_count_def)
  then have "load_machine_secret disk' = wire"
    using assms(5) storage by (simp add: save_keyring_def)
  moreover obtain t' where "replace (snapshot s) t = (None, t')"
      "\<And>x. map_of t' x = map_option snapshot_record (map_of s x)"
    using replace_snapshot [OF assms(1)] by blast
  ultimately show ?thesis
    using wire by (auto simp: load_keyring_def resolve_def snapshot_record_def split: option.splits)
qed

theorem keyring_save_load_witness:
  "\<exists>t'. load_keyring (\<lambda>d :: bytes. d)
      (the (save_keyring (\<lambda>w d. Some w) (snd (enroll demo_id 1 demo_key [])) [])) [] = (True, t') \<and>
     (\<forall>c i. resolve c i t' = resolve c i (snd (enroll demo_id 1 demo_key [])))"
proof -
  let ?s = "snd (enroll demo_id 1 demo_key [])"
  have s: "?s = [(make_lookup_key demo_id 1, demo_record)]"
    by (simp add: enroll_def demo_key_valid Let_def demo_record_def)
  have snap: "snapshot ?s = [demo_record]" by (simp add: s snapshot_def snapshot_record_def demo_record_def)
  have "\<exists>wire. encode_keyring [demo_record] = Inr wire \<and> wire \<noteq> [] \<and> decode_keyring wire = Inr [demo_record]"
    by (rule keyring_roundtrip_aux) (auto simp: demo_record_def demo_id_def demo_key_def wire_record_ok_def)
  then obtain wire where "save_keyring (\<lambda>w d. Some w) ?s [] = Some wire"
    by (auto simp: save_keyring_def snap)
  moreover have "ks_inv ?s" by (rule enroll_inv) (simp add: ks_inv_def)
  moreover have "key_count ?s \<le> kMaximumKeyringRecords"
      "\<forall>ke \<in> set ?s. length (kr_client_id (snd ke)) = kClientIdBytes \<and> length (kr_key (snd ke)) \<le> 2 ^ 32 - 1"
    unfolding s by (simp_all add: key_count_def kMaximumKeyringRecords_def demo_record_def
        demo_id_def demo_key_def)
  ultimately show ?thesis
    using keyring_save_load [of ?s "\<lambda>w d. Some w" "\<lambda>d. d" "[]" wire "[]"] by simp
qed

end
