(* ===== verification/RateLimiter.thy ===== *)
theory RateLimiter
  imports Prelude
begin

text \<open>
  The admission limiter for unauthenticated handshakes (\<^verbatim>\<open>common/src/rate_limiter.cpp\<close>). Time
  points and durations are integer tick counts of the steady clock, whose epoch is 0; the
  policy is normalised by the constructor.

  Shown: the table never exceeds its bound and never holds the same source twice; a source
  that fails as often as the policy allows within one window is refused for the whole block
  and admitted again afterwards; a success or an unknown source is admitted. One behaviour the
  interface comment does not announce is shown too: a failure recorded while a source is
  blocked, but after its window, lifts the block.
\<close>

record rate_limit_policy =
  maximum_sources :: nat
  maximum_failures :: nat
  window :: int
  block :: int

record limiter_entry =
  failures :: nat
  window_start :: int
  blocked_until :: int
  last_seen :: int

record rate_limiter =
  policy :: rate_limit_policy
  sources :: "(string \<times> limiter_entry) list"

definition empty_entry :: limiter_entry where
  "empty_entry = \<lparr>failures = 0, window_start = 0, blocked_until = 0, last_seen = 0\<rparr>"

text \<open>\<open>ticks\<close> is the number of clock ticks per second.\<close>

definition make_limiter :: "int \<Rightarrow> rate_limit_policy \<Rightarrow> rate_limiter" where
  "make_limiter ticks p =
     \<lparr>policy = \<lparr>maximum_sources = max (maximum_sources p) 1,
                maximum_failures = max (maximum_failures p) 1,
                window = max (window p) ticks, block = max (block p) ticks\<rparr>,
      sources = []\<rparr>"

definition reset_window :: "rate_limit_policy \<Rightarrow> int \<Rightarrow> limiter_entry \<Rightarrow> limiter_entry" where
  "reset_window p now e =
     (let e = (if window_start e = 0 \<or> now - window_start e \<ge> window p
               then e\<lparr>failures := 0, window_start := now, blocked_until := 0\<rparr> else e)
      in if blocked_until e \<le> now then e\<lparr>blocked_until := 0\<rparr> else e)"

definition allow :: "string \<Rightarrow> int \<Rightarrow> rate_limiter \<Rightarrow> bool \<times> rate_limiter" where
  "allow source now s =
     (if source = [] then (False, s)
      else case map_of (sources s) source of
        None \<Rightarrow> (True, s)
      | Some e \<Rightarrow>
          let e = e\<lparr>last_seen := now\<rparr> in
          if blocked_until e > now
          then (False, s\<lparr>sources := alist_modify source (\<lambda>_. e) (sources s)\<rparr>)
          else let e = reset_window (policy s) now e
               in (failures e < maximum_failures (policy s),
                   s\<lparr>sources := alist_modify source (\<lambda>_. e) (sources s)\<rparr>))"

text \<open>The scan for the entry seen least recently; the first one wins a tie.\<close>

fun find_oldest :: "string \<times> limiter_entry \<Rightarrow> (string \<times> limiter_entry) list \<Rightarrow> string \<times> limiter_entry" where
  "find_oldest best [] = best"
| "find_oldest best (x # xs) =
     find_oldest (if last_seen (snd x) < last_seen (snd best) then x else best) xs"

lemma find_oldest_in: "find_oldest b xs \<in> set (b # xs)"
  by (induction xs arbitrary: b) fastforce+

function trim :: "nat \<Rightarrow> (string \<times> limiter_entry) list \<Rightarrow> (string \<times> limiter_entry) list" where
  "trim bound xs =
     (if length xs > bound \<and> xs \<noteq> [] then trim bound (alist_erase (fst (find_oldest (hd xs) (tl xs))) xs)
      else xs)"
  by pat_completeness auto
termination
proof (relation "measure (\<lambda>(bound, xs). length xs)")
  fix bound :: nat and xs :: "(string \<times> limiter_entry) list"
  assume "length xs > bound \<and> xs \<noteq> []"
  then have "find_oldest (hd xs) (tl xs) \<in> set xs"
    using find_oldest_in [of "hd xs" "tl xs"] by simp
  then have "map_of xs (fst (find_oldest (hd xs) (tl xs))) \<noteq> None"
    by (metis map_of_eq_None_iff image_eqI)
  then show "((bound, alist_erase (fst (find_oldest (hd xs) (tl xs))) xs), bound, xs)
      \<in> measure (\<lambda>(bound, xs). length xs)"
    using length_erase_less by simp
qed simp

declare trim.simps [simp del]

text \<open>What \<open>record_failure\<close> does to the entry it found or inserted.\<close>

definition count_failure :: "rate_limit_policy \<Rightarrow> bool \<Rightarrow> int \<Rightarrow> limiter_entry \<Rightarrow> limiter_entry" where
  "count_failure p inserted now e =
     (let e = (if inserted then e\<lparr>window_start := now\<rparr> else reset_window p now e);
          e = e\<lparr>last_seen := now\<rparr>;
          e = (if failures e < maximum_failures p then e\<lparr>failures := Suc (failures e)\<rparr> else e)
      in if failures e \<ge> maximum_failures p then e\<lparr>blocked_until := now + block p\<rparr> else e)"

definition record_failure :: "string \<Rightarrow> int \<Rightarrow> rate_limiter \<Rightarrow> rate_limiter" where
  "record_failure source now s =
     (if source = [] then s
      else let inserted = (map_of (sources s) source = None);
               xs = alist_emplace source empty_entry (sources s)
           in s\<lparr>sources := trim (maximum_sources (policy s))
                  (alist_modify source (count_failure (policy s) inserted now) xs)\<rparr>)"

definition record_success :: "string \<Rightarrow> rate_limiter \<Rightarrow> rate_limiter" where
  "record_success source s =
     (if source = [] then s else s\<lparr>sources := alist_erase source (sources s)\<rparr>)"

definition tracked_sources :: "rate_limiter \<Rightarrow> nat" where
  "tracked_sources s = length (sources s)"

section \<open>Bounded table\<close>

datatype limiter_op = Allow string int | Failure string int | Success string

fun limiter_step :: "limiter_op \<Rightarrow> rate_limiter \<Rightarrow> rate_limiter" where
  "limiter_step (Allow src now) s = snd (allow src now s)"
| "limiter_step (Failure src now) s = record_failure src now s"
| "limiter_step (Success src) s = record_success src s"

definition limiter_inv :: "rate_limiter \<Rightarrow> bool" where
  "limiter_inv s \<longleftrightarrow> distinct (map fst (sources s)) \<and> [] \<notin> fst ` set (sources s) \<and>
     length (sources s) \<le> maximum_sources (policy s)"

lemma trim_length: "length (trim bound xs) \<le> bound"
proof (induction bound xs rule: trim.induct)
  case (1 bound xs)
  then show ?case by (subst trim.simps) auto
qed

lemma trim_subset: "set (trim bound xs) \<subseteq> set xs"
proof (induction bound xs rule: trim.induct)
  case (1 bound xs)
  then show ?case by (subst trim.simps) (auto simp: alist_erase_def)
qed

lemma trim_distinct: "distinct (map fst xs) \<Longrightarrow> distinct (map fst (trim bound xs))"
proof (induction bound xs rule: trim.induct)
  case (1 bound xs)
  then show ?case by (subst trim.simps) simp
qed

lemma trim_small: "length xs \<le> bound \<Longrightarrow> trim bound xs = xs"
  by (subst trim.simps) simp

lemma limiter_step_inv: "limiter_inv s \<Longrightarrow> limiter_inv (limiter_step a s)"
proof (cases a)
  case (Failure src now)
  assume inv: "limiter_inv s"
  have "fst ` set (trim n (alist_modify src f (alist_emplace src empty_entry (sources s)))) \<subseteq>
      insert src (fst ` set (sources s))" for n f
    using image_mono [OF trim_subset [of n "alist_modify src f (alist_emplace src empty_entry (sources s))"],
        of fst] by simp
  moreover have "record_failure src now s = s \<or> (\<exists>f. src \<noteq> [] \<and> record_failure src now s =
      s\<lparr>sources := trim (maximum_sources (policy s))
         (alist_modify src f (alist_emplace src empty_entry (sources s)))\<rparr>)"
    by (auto simp: record_failure_def Let_def)
  ultimately show ?thesis
    using inv Failure trim_length
    by (elim disjE exE) (auto simp: limiter_inv_def trim_distinct)
next
  case (Success src)
  assume "limiter_inv s"
  then show ?thesis
    using Success length_erase_le [of src "sources s"]
    by (auto simp: limiter_inv_def record_success_def fst_set_erase intro: le_trans)
qed (auto simp: limiter_inv_def allow_def Let_def split: option.splits)

interpretation limiter_machine: machine limiter_step limiter_inv
  by unfold_locales (rule limiter_step_inv)

lemma record_failure_policy [simp]: "policy (record_failure src now s) = policy s"
  by (simp add: record_failure_def Let_def)

lemma limiter_step_policy [simp]: "policy (limiter_step a s) = policy s"
  by (cases a) (auto simp: allow_def record_failure_def record_success_def Let_def split: option.splits)

lemma limiter_run_policy: "policy (fold limiter_step ops s) = policy s"
  by (induction ops arbitrary: s) auto

text \<open>
  The limiter's memory is bounded whatever an attacker sends: after any sequence of
  admission checks, failures and successes, from any sources and at any times, the table
  tracks each source at most once and no more sources than the policy's maximum.
\<close>

theorem limiter_bounded:
  "tracked_sources (fold limiter_step ops (make_limiter ticks p)) \<le> max (maximum_sources p) 1 \<and>
   distinct (map fst (sources (fold limiter_step ops (make_limiter ticks p))))"
proof -
  have "limiter_inv (make_limiter ticks p)" by (simp add: limiter_inv_def make_limiter_def)
  then have "limiter_inv (fold limiter_step ops (make_limiter ticks p))"
    by (rule limiter_machine.run_inv)
  then show ?thesis
    by (auto simp: limiter_inv_def tracked_sources_def limiter_run_policy make_limiter_def)
qed


section \<open>Lock-out\<close>

definition counting :: "rate_limit_policy \<Rightarrow> int \<Rightarrow> nat \<Rightarrow> int \<Rightarrow> limiter_entry \<Rightarrow> bool" where
  "counting p t0 j t e \<longleftrightarrow> failures e = j \<and> window_start e = t0 \<and>
     blocked_until e = (if j \<ge> maximum_failures p then t + block p else 0)"

lemma counting_first: "1 \<le> maximum_failures p \<Longrightarrow> counting p t 1 t (count_failure p True t empty_entry)"
  by (auto simp: counting_def count_failure_def empty_entry_def Let_def)

lemma counting_next:
  "counting p t0 j t e \<Longrightarrow> j < maximum_failures p \<Longrightarrow> 0 < t0 \<Longrightarrow> t0 \<le> now \<Longrightarrow> now - t0 < window p \<Longrightarrow>
   counting p t0 (Suc j) now (count_failure p False now e)"
  by (auto simp: counting_def count_failure_def reset_window_def Let_def)

text \<open>What a run does to one source: the times of its failures, the times of its checks, its successes.\<close>

fun failure_times :: "string \<Rightarrow> limiter_op list \<Rightarrow> int list" where
  "failure_times src [] = []"
| "failure_times src (Failure x now # ops) = (if x = src then now # failure_times src ops else failure_times src ops)"
| "failure_times src (_ # ops) = failure_times src ops"

fun checked_before :: "string \<Rightarrow> int \<Rightarrow> limiter_op \<Rightarrow> bool" where
  "checked_before src limit (Allow x now) = (x = src \<longrightarrow> now < limit)"
| "checked_before src limit _ = True"

fun failing :: "limiter_op \<Rightarrow> string list" where
  "failing (Failure x now) = (if x = [] then [] else [x])"
| "failing _ = []"

text \<open>All the sources a run can put into the table fit.\<close>

definition table_fits :: "limiter_op list \<Rightarrow> rate_limiter \<Rightarrow> bool" where
  "table_fits ops s \<longleftrightarrow> card (fst ` set (sources s) \<union> set (concat (map failing ops))) \<le> maximum_sources (policy s)"

lemma record_failure_roomy:
  assumes "limiter_inv s" "table_fits (Failure x now # ops) s" "x \<noteq> []"
  shows "sources (record_failure x now s) = alist_modify x (count_failure (policy s) (map_of (sources s) x = None) now)
    (alist_emplace x empty_entry (sources s))"
proof -
  let ?xs = "alist_emplace x empty_entry (sources s)"
  have "length ?xs = card (fst ` set ?xs)"
    using assms(1) by (metis limiter_inv_def distinct_card length_map list.set_map distinct_emplace)
  also have "\<dots> \<le> card (fst ` set (sources s) \<union> set (concat (map failing (Failure x now # ops))))"
    using assms(3) by (intro card_mono) auto
  finally show ?thesis using assms by (simp add: record_failure_def Let_def trim_small table_fits_def)
qed

lemma table_fits_step:
  assumes "limiter_inv s" "table_fits (a # ops) s"
  shows "table_fits ops (limiter_step a s)"
proof -
  have "fst ` set (sources (limiter_step a s)) \<subseteq> fst ` set (sources s) \<union> set (failing a)"
  proof (cases a)
    case (Failure x now)
    then show ?thesis
      using record_failure_roomy [of s x now ops] assms by (cases "x = []") (auto simp: record_failure_def)
  next
    case (Success x)
    then show ?thesis by (auto simp: record_success_def fst_set_erase)
  qed (auto simp: allow_def Let_def split: option.splits)
  then have "card (fst ` set (sources (limiter_step a s)) \<union> set (concat (map failing ops))) \<le>
      card (fst ` set (sources s) \<union> set (concat (map failing (a # ops))))"
    by (intro card_mono) auto
  then show ?thesis using assms(2) by (simp add: table_fits_def)
qed

text \<open>The entry of \<open>src\<close> after a run: untouched by other sources, by checks made in time, and counting
  its own failures.\<close>

definition entry_counts :: "string \<Rightarrow> int list \<Rightarrow> rate_limiter \<Rightarrow> bool" where
  "entry_counts src ts s \<longleftrightarrow>
     (if ts = [] then map_of (sources s) src = None
      else \<exists>e. map_of (sources s) src = Some e \<and> counting (policy s) (hd ts) (length ts) (last ts) e)"

lemma counting_seen [simp]: "counting p t0 j t (e\<lparr>last_seen := now\<rparr>) = counting p t0 j t e"
  by (simp add: counting_def)

lemma counting_checked:
  assumes "counting p t0 j t e" "now < (if j < maximum_failures p then t0 + window p else t + block p)" "0 < t0"
    "\<not> blocked_until e > now"
  shows "counting p t0 j t (reset_window p now e)"
  using assms by (auto simp: counting_def reset_window_def Let_def split: if_splits)

lemma entry_counts_step:
  assumes "limiter_inv s" "table_fits (a # ops) s" "entry_counts src ts s" "src \<noteq> []" "a \<noteq> Success src"
    and "ts \<noteq> [] \<Longrightarrow> 0 < hd ts \<and> checked_before src (if length ts < maximum_failures (policy s)
      then hd ts + window (policy s) else last ts + block (policy s)) a"
    and "failure_times src [a] \<noteq> [] \<Longrightarrow> length ts < maximum_failures (policy s)"
    and "\<And>x. x \<in> set (failure_times src [a]) \<Longrightarrow> ts \<noteq> [] \<Longrightarrow> hd ts \<le> x \<and> x - hd ts < window (policy s)"
  shows "entry_counts src (ts @ failure_times src [a]) (limiter_step a s)"
proof (cases a)
  case (Allow x now)
  then show ?thesis
    using assms(3,4,6) counting_checked [of "policy s" "hd ts" "length ts" "last ts" _ now]
    by (cases "x = src") (auto simp: entry_counts_def allow_def Let_def split: option.splits if_splits)
next
  case (Failure x now)
  show ?thesis
  proof (cases "x = src")
    case False
    then show ?thesis
      using assms(3) Failure record_failure_roomy [OF assms(1), of x now ops] assms(2)
      by (cases "x = []") (auto simp: entry_counts_def record_failure_def)
  next
    case True
    have less: "length ts < maximum_failures (policy s)" using assms(7) Failure True by simp
    have now: "hd ts \<le> now" "now - hd ts < window (policy s)" "0 < hd ts" if "ts \<noteq> []"
      using assms(6) [OF that] assms(8) [of now] that Failure True by simp_all
    have new: "map_of (sources (record_failure src now s)) src = map_option
        (count_failure (policy s) (map_of (sources s) src = None) now) (map_of (alist_emplace src empty_entry (sources s)) src)"
      using record_failure_roomy [OF assms(1), of src now ops] assms(2,4) Failure True by simp
    show ?thesis
    proof (cases "ts = []")
      case True
      then have "map_of (sources s) src = None" using assms(3) by (simp add: entry_counts_def)
      then show ?thesis
        using counting_first [of "policy s" now] less new True Failure \<open>x = src\<close> by (simp add: entry_counts_def)
    next
      case False
      then obtain e where "map_of (sources s) src = Some e" "counting (policy s) (hd ts) (length ts) (last ts) e"
        using assms(3) by (auto simp: entry_counts_def)
      then show ?thesis
        using counting_next [of "policy s" "hd ts" "length ts" "last ts" e now] less new now [OF False] False Failure
          \<open>x = src\<close> by (simp add: entry_counts_def)
    qed
  qed
next
  case (Success x)
  then show ?thesis using assms(3,5) by (auto simp: entry_counts_def record_success_def)
qed

lemma counting_run:
  assumes "src \<noteq> []" "0 < t0" and "limiter_inv s" "table_fits (ops @ rest) s" "entry_counts src ts s"
    and "Success src \<notin> set ops" "list_all (checked_before src limit) ops"
    and "hd (ts @ failure_times src ops @ [t0]) = t0"
    and "\<forall>x \<in> set (failure_times src ops). t0 \<le> x \<and> x - t0 < window (policy s)"
    and "length ts + length (failure_times src ops) < maximum_failures (policy s) \<and> limit = t0 + window (policy s) \<or>
      length ts = maximum_failures (policy s) \<and> failure_times src ops = [] \<and> limit = last ts + block (policy s)"
  shows "entry_counts src (ts @ failure_times src ops) (fold limiter_step ops s) \<and>
    limiter_inv (fold limiter_step ops s) \<and> table_fits rest (fold limiter_step ops s)"
  using assms
proof (induction ops arbitrary: s ts)
  case (Cons a ops)
  let ?ts = "ts @ failure_times src [a]"
  have split: "failure_times src (a # ops) = failure_times src [a] @ failure_times src ops" by (cases a) auto
  have hd: "ts \<noteq> [] \<Longrightarrow> hd ts = t0" using Cons.prems(8) by (auto simp: hd_append)
  have "entry_counts src ?ts (limiter_step a s)"
    by (rule entry_counts_step [OF Cons.prems(3) _ Cons.prems(5,1)])
      (use Cons.prems(2,4,6,7,9,10) hd in \<open>auto simp: split\<close>)
  moreover have "limiter_inv (limiter_step a s)" using Cons.prems(3) by (rule limiter_step_inv)
  moreover have "table_fits (ops @ rest) (limiter_step a s)" using table_fits_step [OF Cons.prems(3)] Cons.prems(4) by simp
  ultimately have "entry_counts src (?ts @ failure_times src ops) (fold limiter_step ops (limiter_step a s)) \<and>
      limiter_inv (fold limiter_step ops (limiter_step a s)) \<and> table_fits rest (fold limiter_step ops (limiter_step a s))"
    by (intro Cons.IH) (use Cons.prems(1,2,6-10) in \<open>auto simp: split\<close>)
  then show ?case by (simp add: split)
qed simp

lemma limiter_fold_policy [simp]: "policy (fold limiter_step ops s) = policy s"
  by (rule limiter_run_policy)

text \<open>
  C30. Brute force is locked out. A source that is not yet tracked fails as often as the policy allows,
  within one window of its first failure, in a run of checks, failures and successes of any sources;
  the run goes on in any way. It is refused at every moment before the end of the block that
  follows its last failure, and admitted once both the block and the window are over. Provided
  that: the source has no success in the run; its own checks come within the window while it
  still fails and within the block afterwards; no further failure of it is recorded; and all the
  sources that are tracked or fail in the run fit into the table, so that none is evicted.
\<close>

theorem limiter_lockout:
  assumes "limiter_inv s" "table_fits (ops @ Failure src tn # later) s"
    and "src \<noteq> []" "map_of (sources s) src = None" "Success src \<notin> set (ops @ later)"
    and "failure_times src ops @ [tn] = ts" "length ts = maximum_failures (policy s)" "failure_times src later = []"
    and "0 < hd ts" "\<forall>x \<in> set ts. hd ts \<le> x \<and> x - hd ts < window (policy s)"
    and "list_all (checked_before src (hd ts + window (policy s))) ops"
    and "list_all (checked_before src (tn + block (policy s))) later"
  shows "(now < tn + block (policy s) \<longrightarrow>
      \<not> fst (allow src now (fold limiter_step (ops @ Failure src tn # later) s))) \<and>
    (now \<ge> tn + block (policy s) \<and> now - hd ts \<ge> window (policy s) \<longrightarrow>
      fst (allow src now (fold limiter_step (ops @ Failure src tn # later) s)))"
proof -
  let ?s1 = "fold limiter_step ops s" and ?p = "policy s"
  let ?s2 = "limiter_step (Failure src tn) ?s1"
  have one: "entry_counts src (failure_times src ops) ?s1" "limiter_inv ?s1" "table_fits (Failure src tn # later) ?s1"
  proof -
    have e: "entry_counts src [] s" using assms(4) by (simp add: entry_counts_def)
    have "Success src \<notin> set ops" "\<forall>x \<in> set (failure_times src ops). hd ts \<le> x \<and> x - hd ts < window ?p"
      "length (failure_times src ops) < maximum_failures ?p" using assms(5,6,7,10) by auto
    moreover have "hd (failure_times src ops @ [hd ts]) = hd ts"
      unfolding assms(6) [symmetric] by (cases "failure_times src ops") auto
    ultimately show "entry_counts src (failure_times src ops) ?s1" "limiter_inv ?s1" "table_fits (Failure src tn # later) ?s1"
      using counting_run [OF assms(3,9,1,2) e, of "hd ts + window ?p"] assms(11) by simp_all
  qed
  have hd: "failure_times src ops \<noteq> [] \<Longrightarrow> hd (failure_times src ops) = hd ts" using assms(6) by auto
  have tn: "hd ts \<le> tn" "tn - hd ts < window ?p" using assms(6,10) by auto
  have less: "length (failure_times src ops) < maximum_failures ?p" unfolding assms(7) [symmetric] assms(6) [symmetric] by simp
  have "entry_counts src (failure_times src ops @ failure_times src [Failure src tn]) ?s2"
    by (rule entry_counts_step [OF one(2,3,1) assms(3)]) (use assms(9) hd tn less in simp_all)
  then have two: "entry_counts src ts ?s2" using assms(6) by simp
  have ts: "ts \<noteq> []" "last ts = tn" using assms(6) by auto
  have "entry_counts src (ts @ failure_times src later) (fold limiter_step later ?s2)"
    using counting_run [OF assms(3,9) limiter_step_inv [OF one(2)] _ two, of later "[]" "tn + block ?p"]
      table_fits_step [OF one(2,3)] assms(5,7,8,12) ts by simp
  then obtain e where "map_of (sources (fold limiter_step later ?s2)) src = Some e"
    "counting ?p (hd ts) (maximum_failures ?p) tn e" using assms(7,8) ts by (auto simp: entry_counts_def)
  moreover have "1 \<le> maximum_failures ?p" using assms(7) ts by (cases ts) auto
  ultimately show ?thesis
    using assms(3) by (auto simp: allow_def Let_def counting_def reset_window_def)
qed

definition demo_limiter :: rate_limiter where
  "demo_limiter = make_limiter 1
     \<lparr>maximum_sources = 4096, maximum_failures = 5, window = 60, block = 300\<rparr>"

definition demo_attack :: "limiter_op list" where
  "demo_attack = concat (map (\<lambda>t. [Allow ''10.0.0.7'' t, Failure ''10.0.0.7'' t, Failure ''10.0.0.8'' t]) [1, 2, 3, 4])"

theorem limiter_lockout_witness:
  "\<not> fst (allow ''10.0.0.7'' 304 (fold limiter_step
     (demo_attack @ Failure ''10.0.0.7'' 5 # [Success ''10.0.0.8'', Allow ''10.0.0.7'' 200]) demo_limiter))"
proof -
  have d: "policy demo_limiter = \<lparr>maximum_sources = 4096, maximum_failures = 5, window = 60, block = 300\<rparr>"
    "sources demo_limiter = []" by (simp_all add: demo_limiter_def make_limiter_def)
  have "table_fits (demo_attack @ Failure ''10.0.0.7'' 5 # [Success ''10.0.0.8'', Allow ''10.0.0.7'' 200]) demo_limiter"
    by (simp add: table_fits_def d demo_attack_def card_insert_if)
  moreover have "limiter_inv demo_limiter" by (simp add: limiter_inv_def d)
  ultimately show ?thesis
    using limiter_lockout [of demo_limiter demo_attack "''10.0.0.7''" 5 "[Success ''10.0.0.8'', Allow ''10.0.0.7'' 200]"
        "[1, 2, 3, 4, 5]" 304]
    by (simp add: d demo_attack_def)
qed

text \<open>
  C31. A failure recorded during a block can end it: if a source is blocked but its counting
  window has already elapsed (the block being longer than the window), and the policy allows more
  than one failure, one further recorded failure restarts the window, clears the block and leaves
  the source admitted at once, although the block had not run out. It takes a handshake that was
  admitted before the block and fails during it.
\<close>

theorem late_failure_lifts_block:
  assumes "src \<noteq> []" and "map_of (sources s) src = Some e" and "now < blocked_until e"
    and "now - window_start e \<ge> window (policy s)" and "1 < maximum_failures (policy s)"
    and "length (sources s) \<le> maximum_sources (policy s)" and "0 < now" and "0 < window (policy s)"
  shows "\<not> fst (allow src now s) \<and> fst (allow src now (record_failure src now s))"
  using assms
  by (auto simp: allow_def record_failure_def Let_def trim_small alist_emplace_def
      count_failure_def reset_window_def)

theorem late_failure_lifts_block_witness:
  "\<not> fst (allow ''a'' 66 \<lparr>policy = policy demo_limiter,
       sources = [(''a'', \<lparr>failures = 5, window_start = 1, blocked_until = 305, last_seen = 5\<rparr>)]\<rparr>) \<and>
   fst (allow ''a'' 66 (record_failure ''a'' 66 \<lparr>policy = policy demo_limiter,
       sources = [(''a'', \<lparr>failures = 5, window_start = 1, blocked_until = 305, last_seen = 5\<rparr>)]\<rparr>))"
  by (rule late_failure_lifts_block) (auto simp: demo_limiter_def make_limiter_def)

end
