(* ===== verification/PacketLoss.thy ===== *)
theory PacketLoss
  imports Protocol
begin

text \<open>
  The packet loss tracker of \<^verbatim>\<open>common/src/packet_loss.cpp\<close>. Sequence numbers and counters are
  natural numbers below \<open>2 ^ 64\<close>, with the wrap-around of \<open>+=\<close> written out; the ring of
  received flags is a list of booleans with a head index, as in the code. \<open>loss_per_mille\<close>
  computes with \<open>long double\<close> and is not modelled.

  Shown: the ring is a sliding window (advancing it drops slots at the front and adds empty
  ones at the back), and the counters are exact: for every run of packets, finalisations and
  flushes they are the cardinalities of the sets they are named after.
\<close>

definition sat_add :: "nat \<Rightarrow> nat \<Rightarrow> nat" where
  "sat_add value amount = (if amount > u64_max - value then u64_max else value + amount)"

datatype packet_disposition =
    Uninitialized | In_order | Reordered | Duplicate | Too_late | Wrong_stream | Invalid_forward_jump

record loss_stats =
  ls_stream_id :: u32
  ls_generation :: nat
  ls_finalized_received :: nat
  ls_confirmed_lost :: nat
  ls_unique_received :: nat
  ls_duplicates :: nat
  ls_reordered :: nat
  ls_too_late :: nat
  ls_wrong_stream :: nat
  ls_invalid_forward_jumps :: nat

definition zero_stats :: loss_stats where
  "zero_stats = \<lparr>ls_stream_id = 0, ls_generation = 0, ls_finalized_received = 0,
     ls_confirmed_lost = 0, ls_unique_received = 0, ls_duplicates = 0, ls_reordered = 0,
     ls_too_late = 0, ls_wrong_stream = 0, ls_invalid_forward_jumps = 0\<rparr>"

definition finalized_sample_size :: "loss_stats \<Rightarrow> nat" where
  "finalized_sample_size s =
     (if ls_confirmed_lost s > u64_max - ls_finalized_received s then u64_max
      else ls_finalized_received s + ls_confirmed_lost s)"

definition packet_loss_delta :: "loss_stats \<Rightarrow> loss_stats \<Rightarrow> loss_stats option" where
  "packet_loss_delta newer older =
     (if ls_stream_id newer \<noteq> ls_stream_id older \<or> ls_generation newer \<noteq> ls_generation older
      then None
      else if list_ex (\<lambda>field. field newer < field older)
           [ls_finalized_received, ls_confirmed_lost, ls_unique_received, ls_duplicates,
            ls_reordered, ls_too_late, ls_wrong_stream, ls_invalid_forward_jumps]
      then None
      else Some \<lparr>ls_stream_id = ls_stream_id newer, ls_generation = ls_generation newer,
         ls_finalized_received = ls_finalized_received newer - ls_finalized_received older,
         ls_confirmed_lost = ls_confirmed_lost newer - ls_confirmed_lost older,
         ls_unique_received = ls_unique_received newer - ls_unique_received older,
         ls_duplicates = ls_duplicates newer - ls_duplicates older,
         ls_reordered = ls_reordered newer - ls_reordered older,
         ls_too_late = ls_too_late newer - ls_too_late older,
         ls_wrong_stream = ls_wrong_stream newer - ls_wrong_stream older,
         ls_invalid_forward_jumps = ls_invalid_forward_jumps newer - ls_invalid_forward_jumps older\<rparr>)"

record loss_tracker =
  lt_received :: "bool list"
  lt_head :: nat
  lt_window_start :: nat
  lt_highest :: nat
  lt_max_jump :: nat
  lt_stream_id :: u32
  lt_generation :: nat
  lt_stream_set :: bool
  lt_sequence_set :: bool
  lt_packet_seen :: bool
  lt_stats :: loss_stats

definition make_tracker :: "nat \<Rightarrow> nat \<Rightarrow> loss_tracker" where
  "make_tracker reorder_window max_forward_jump =
     \<lparr>lt_received = replicate (clamp reorder_window 8 65536) False, lt_head = 0,
      lt_window_start = 0, lt_highest = 0, lt_max_jump = max max_forward_jump 1,
      lt_stream_id = 0, lt_generation = 0, lt_stream_set = False, lt_sequence_set = False,
      lt_packet_seen = False, lt_stats = zero_stats\<rparr>"

definition tracker_reset :: "u32 \<Rightarrow> nat option \<Rightarrow> loss_tracker \<Rightarrow> loss_tracker" where
  "tracker_reset stream_id initial t =
     (let start = (case initial of None \<Rightarrow> 0 | Some q \<Rightarrow> q);
          generation = wrap64 (lt_generation t + 1)
      in t\<lparr>lt_received := replicate (length (lt_received t)) False, lt_head := 0,
           lt_window_start := start, lt_highest := start, lt_stream_id := stream_id,
           lt_generation := generation, lt_stream_set := True,
           lt_sequence_set := (initial \<noteq> None), lt_packet_seen := False,
           lt_stats := zero_stats\<lparr>ls_stream_id := stream_id, ls_generation := generation\<rparr>\<rparr>)"

definition finalize_slot :: "nat \<Rightarrow> loss_tracker \<Rightarrow> loss_tracker" where
  "finalize_slot index t =
     (if lt_received t ! index
      then t\<lparr>lt_stats := (lt_stats t)\<lparr>ls_finalized_received := sat_add (ls_finalized_received (lt_stats t)) 1\<rparr>\<rparr>
      else t\<lparr>lt_stats := (lt_stats t)\<lparr>ls_confirmed_lost := sat_add (ls_confirmed_lost (lt_stats t)) 1\<rparr>\<rparr>)"

primrec advance_loop :: "nat \<Rightarrow> loss_tracker \<Rightarrow> loss_tracker" where
  "advance_loop 0 t = t"
| "advance_loop (Suc n) t =
     (let t = finalize_slot (lt_head t) t
      in advance_loop n (t\<lparr>lt_received := (lt_received t)[lt_head t := False],
                           lt_head := (lt_head t + 1) mod length (lt_received t)\<rparr>))"

definition advance :: "nat \<Rightarrow> loss_tracker \<Rightarrow> loss_tracker" where
  "advance count t =
     (let window_size = length (lt_received t);
          t = (if count \<ge> window_size
               then let t = fold finalize_slot [0 ..< window_size] t;
                        lost = sat_add (ls_confirmed_lost (lt_stats t)) (count - window_size)
                    in t\<lparr>lt_stats := (lt_stats t)\<lparr>ls_confirmed_lost := lost\<rparr>,
                         lt_received := replicate window_size False, lt_head := 0\<rparr>
               else advance_loop count t)
      in t\<lparr>lt_window_start := wrap64 (lt_window_start t + count)\<rparr>)"

text \<open>The counters \<open>observe\<close> increments, by name.\<close>

definition bump :: "((nat \<Rightarrow> nat) \<Rightarrow> loss_stats \<Rightarrow> loss_stats) \<Rightarrow> loss_tracker \<Rightarrow> loss_tracker" where
  "bump field_update t = t\<lparr>lt_stats := field_update (\<lambda>v. sat_add v 1) (lt_stats t)\<rparr>"

definition observe :: "video_header \<Rightarrow> loss_tracker \<Rightarrow> packet_disposition \<times> loss_tracker" where
  "observe packet t =
     (if \<not> lt_stream_set t then (Uninitialized, t)
      else if vid_stream_id packet \<noteq> lt_stream_id t then (Wrong_stream, bump ls_wrong_stream_update t)
      else let sequence = unat (vid_packet_sequence packet) in
        if \<not> lt_sequence_set t
        then (In_order, bump ls_unique_received_update
               (t\<lparr>lt_sequence_set := True, lt_packet_seen := True, lt_window_start := sequence,
                  lt_highest := sequence, lt_received := (lt_received t)[lt_head t := True]\<rparr>))
        else if sequence < lt_window_start t then (Too_late, bump ls_too_late_update t)
        else let reference = (if lt_packet_seen t then lt_highest t else lt_window_start t) in
          if sequence > reference \<and> sequence - reference > lt_max_jump t
          then (Invalid_forward_jump, bump ls_invalid_forward_jumps_update t)
          else let below_highest = (lt_packet_seen t \<and> sequence < lt_highest t);
                   size = length (lt_received t);
                   before = sequence - lt_window_start t;
                   t = (if before \<ge> size then advance (before - size + 1) t else t);
                   offset = sequence - lt_window_start t;
                   index = (lt_head t + offset) mod length (lt_received t)
               in if lt_received t ! index then (Duplicate, bump ls_duplicates_update t)
                  else let t = bump ls_unique_received_update
                                 (t\<lparr>lt_received := (lt_received t)[index := True]\<rparr>);
                           t = (if \<not> lt_packet_seen t \<or> sequence > lt_highest t
                                then t\<lparr>lt_highest := sequence\<rparr> else t);
                           t = t\<lparr>lt_packet_seen := True\<rparr>
                       in if below_highest then (Reordered, bump ls_reordered_update t)
                          else (In_order, t))"

definition finalize_through :: "nat \<Rightarrow> loss_tracker \<Rightarrow> bool \<times> loss_tracker" where
  "finalize_through sequence t =
     (if \<not> lt_packet_seen t \<or> sequence < lt_window_start t \<or> sequence > lt_highest t then (False, t)
      else (True, advance (sequence - lt_window_start t + 1) t))"

definition flush :: "loss_tracker \<Rightarrow> loss_tracker" where
  "flush t =
     (if lt_packet_seen t \<and> lt_highest t \<ge> lt_window_start t
      then advance (lt_highest t - lt_window_start t + 1) t else t)"

section \<open>The ring is a sliding window\<close>

definition window_of :: "loss_tracker \<Rightarrow> bool list" where
  "window_of t = List.rotate (lt_head t) (lt_received t)"

definition ring_ok :: "loss_tracker \<Rightarrow> bool" where
  "ring_ok t \<longleftrightarrow> lt_head t < length (lt_received t)"

lemma ring_pos: "ring_ok t \<Longrightarrow> 0 < length (lt_received t)"
  unfolding ring_ok_def by linarith

lemma length_window [simp]: "length (window_of t) = length (lt_received t)"
  by (simp add: window_of_def)

lemma window_nth:
  "i < length (lt_received t) \<Longrightarrow>
   window_of t ! i = lt_received t ! ((lt_head t + i) mod length (lt_received t))"
  by (simp add: window_of_def nth_rotate)

lemma ring_mod: "h < n \<Longrightarrow> i < n \<Longrightarrow> (h + i) mod n = (if h + i < n then h + i else h + i - (n :: nat))"
  by (simp add: le_mod_geq)

lemma ring_index_inj: "h < n \<Longrightarrow> i < n \<Longrightarrow> j < n \<Longrightarrow> (h + i) mod n = (h + j) mod (n :: nat) \<longleftrightarrow> i = j"
  by (auto simp: ring_mod split: if_splits)

lemma window_set:
  assumes "ring_ok t" and "i < length (lt_received t)"
  shows "window_of (t\<lparr>lt_received := (lt_received t)[(lt_head t + i) mod length (lt_received t) := v]\<rparr>) =
    (window_of t)[i := v]"
proof (rule nth_equalityI)
  fix j assume "j < length (window_of (t\<lparr>lt_received := (lt_received t)[(lt_head t + i) mod
      length (lt_received t) := v]\<rparr>))"
  then have j: "j < length (lt_received t)" by simp
  have "(lt_head t + k) mod length (lt_received t) < length (lt_received t)" for k
    by (rule mod_less_divisor [OF ring_pos [OF assms(1)]])
  then show "window_of (t\<lparr>lt_received := (lt_received t)[(lt_head t + i) mod length (lt_received t) := v]\<rparr>) ! j =
      (window_of t)[i := v] ! j"
    using assms j ring_index_inj [of "lt_head t" "length (lt_received t)" i j]
    by (simp add: window_nth nth_list_update ring_ok_def)
qed simp

lemma window_shift:
  assumes "ring_ok t"
  shows "window_of (t\<lparr>lt_received := (lt_received t)[lt_head t := False],
      lt_head := (lt_head t + 1) mod length (lt_received t)\<rparr>) = tl (window_of t) @ [False]"
proof (rule nth_equalityI)
  show "length (window_of (t\<lparr>lt_received := (lt_received t)[lt_head t := False],
      lt_head := (lt_head t + 1) mod length (lt_received t)\<rparr>)) = length (tl (window_of t) @ [False])"
    using assms by (simp add: ring_ok_def)
next
  fix j assume "j < length (window_of (t\<lparr>lt_received := (lt_received t)[lt_head t := False],
      lt_head := (lt_head t + 1) mod length (lt_received t)\<rparr>))"
  then have j: "j < length (lt_received t)" by simp
  let ?n = "length (lt_received t)" and ?h = "lt_head t"
  have h: "?h < ?n" using assms by (simp add: ring_ok_def)
  have idx: "((?h + 1) mod ?n + j) mod ?n = (?h + Suc j) mod ?n"
    by (simp add: mod_add_left_eq)
  show "window_of (t\<lparr>lt_received := (lt_received t)[?h := False], lt_head := (?h + 1) mod ?n\<rparr>) ! j =
      (tl (window_of t) @ [False]) ! j"
  proof (cases "Suc j < ?n")
    case True
    have "(?h + Suc j) mod ?n \<noteq> ?h" using ring_index_inj [OF h True ring_pos [OF assms]] h by simp
    moreover have "j < ?n - 1" using True by linarith
    ultimately show ?thesis using True j idx by (simp add: window_nth nth_append nth_tl)
  next
    case False
    then have "Suc j = ?n" "\<not> j < ?n - 1" using j by linarith+
    moreover have "(?h + ?n) mod ?n = ?h" using h by simp
    ultimately show ?thesis using idx h j by (simp add: window_nth nth_append)
  qed
qed

text \<open>What finalising a list of slots does to the two counters, when they do not saturate.\<close>

definition count_slots :: "bool list \<Rightarrow> loss_tracker \<Rightarrow> loss_tracker \<Rightarrow> bool" where
  "count_slots slots t t' \<longleftrightarrow>
     ls_finalized_received (lt_stats t') = ls_finalized_received (lt_stats t) + length (filter id slots) \<and>
     ls_confirmed_lost (lt_stats t') = ls_confirmed_lost (lt_stats t) + length (filter Not slots)"

definition same_but_counts :: "loss_tracker \<Rightarrow> loss_tracker \<Rightarrow> bool" where
  "same_but_counts t t' \<longleftrightarrow> length (lt_received t') = length (lt_received t) \<and>
     lt_highest t' = lt_highest t \<and> lt_max_jump t' = lt_max_jump t \<and> lt_stream_id t' = lt_stream_id t \<and>
     lt_stream_set t' = lt_stream_set t \<and> lt_sequence_set t' = lt_sequence_set t \<and>
     lt_packet_seen t' = lt_packet_seen t \<and>
     ls_unique_received (lt_stats t') = ls_unique_received (lt_stats t)"

definition room :: "nat \<Rightarrow> loss_tracker \<Rightarrow> bool" where
  "room n t \<longleftrightarrow> ls_finalized_received (lt_stats t) + n \<le> u64_max \<and> ls_confirmed_lost (lt_stats t) + n \<le> u64_max"

lemma finalize_slot_props:
  assumes "room 1 t"
  shows "count_slots [lt_received t ! i] t (finalize_slot i t)"
    and "same_but_counts t (finalize_slot i t)"
    and "lt_received (finalize_slot i t) = lt_received t" "lt_head (finalize_slot i t) = lt_head t"
      "lt_window_start (finalize_slot i t) = lt_window_start t"
  using assms by (auto simp: finalize_slot_def count_slots_def same_but_counts_def room_def sat_add_def)

lemma room_count: "room (length slots + n) t \<Longrightarrow> count_slots slots t t' \<Longrightarrow> room n t'"
proof -
  assume r: "room (length slots + n) t" and c: "count_slots slots t t'"
  note le = length_filter_le [of id slots] length_filter_le [of Not slots]
  from r c show ?thesis unfolding room_def count_slots_def using le by linarith
qed

lemma count_slots_append:
  "count_slots xs t t' \<Longrightarrow> count_slots ys t' t'' \<Longrightarrow> count_slots (xs @ ys) t t''"
  by (simp add: count_slots_def)

lemma same_but_counts_trans: "same_but_counts t t' \<Longrightarrow> same_but_counts t' t'' \<Longrightarrow> same_but_counts t t''"
  by (simp add: same_but_counts_def)

lemma finalize_all:
  "room (length is) t \<Longrightarrow>
   count_slots (map ((!) (lt_received t)) is) t (fold finalize_slot is t) \<and>
   same_but_counts t (fold finalize_slot is t) \<and>
   lt_received (fold finalize_slot is t) = lt_received t \<and>
   lt_window_start (fold finalize_slot is t) = lt_window_start t"
proof (induction "is" arbitrary: t)
  case Nil
  then show ?case by (simp add: count_slots_def same_but_counts_def)
next
  case (Cons i "is")
  have r1: "room 1 t" using Cons.prems by (simp add: room_def)
  note fs = finalize_slot_props [OF r1, of i]
  have "room (length is) (finalize_slot i t)"
    using room_count [OF _ fs(1), of "length is"] Cons.prems by simp
  from Cons.IH [OF this] show ?case
    using fs count_slots_append [OF fs(1)] same_but_counts_trans [OF fs(2)] by simp
qed

lemma advance_loop_props:
  assumes "ring_ok t" and "room n t" and "n \<le> length (lt_received t)"
  shows "count_slots (take n (window_of t)) t (advance_loop n t) \<and>
    same_but_counts t (advance_loop n t) \<and> ring_ok (advance_loop n t) \<and>
    lt_window_start (advance_loop n t) = lt_window_start t \<and>
    window_of (advance_loop n t) = drop n (window_of t) @ replicate n False"
  using assms
proof (induction n arbitrary: t)
  case 0
  then show ?case by (simp add: count_slots_def same_but_counts_def)
next
  case (Suc n)
  let ?u = "finalize_slot (lt_head t) t"
  let ?v = "?u\<lparr>lt_received := (lt_received ?u)[lt_head ?u := False],
      lt_head := (lt_head ?u + 1) mod length (lt_received ?u)\<rparr>"
  have r1: "room 1 t" using Suc.prems(2) by (simp add: room_def)
  note fs = finalize_slot_props [OF r1, of "lt_head t"]
  have h: "lt_head t < length (lt_received t)" using Suc.prems(1) by (simp add: ring_ok_def)
  have win: "window_of ?v = tl (window_of t) @ [False]"
    using window_shift [of ?u] Suc.prems(1) fs by (simp add: ring_ok_def window_of_def)
  have hd: "window_of t = (lt_received t ! lt_head t) # tl (window_of t)"
    using h window_nth [OF ring_pos [OF Suc.prems(1)]] ring_pos [OF Suc.prems(1)]
    by (cases "window_of t") (auto simp: window_of_def)
  have "(lt_head t + 1) mod length (lt_received t) < length (lt_received t)"
    by (rule mod_less_divisor [OF ring_pos [OF Suc.prems(1)]])
  then have ok: "ring_ok ?v" using fs by (simp add: ring_ok_def)
  have rv: "room n ?v" using room_count [OF _ fs(1), of n] Suc.prems(2) by (simp add: room_def)
  have cv: "count_slots [lt_received t ! lt_head t] t ?v" and sv: "same_but_counts t ?v"
    using fs by (simp_all add: count_slots_def same_but_counts_def)
  have IH: "count_slots (take n (window_of ?v)) ?v (advance_loop n ?v) \<and>
    same_but_counts ?v (advance_loop n ?v) \<and> ring_ok (advance_loop n ?v) \<and>
    lt_window_start (advance_loop n ?v) = lt_window_start ?v \<and>
    window_of (advance_loop n ?v) = drop n (window_of ?v) @ replicate n False"
    by (rule Suc.IH [OF ok rv]) (use Suc.prems(3) fs in simp)
  have len: "n \<le> length (lt_received t) - Suc 0" using Suc.prems(3) by simp
  have tk: "take (Suc n) (window_of t) = [lt_received t ! lt_head t] @ take n (window_of ?v)"
    unfolding win by (subst hd) (simp add: len)
  have dr: "drop n (window_of ?v) @ replicate n False = drop (Suc n) (window_of t) @ replicate (Suc n) False"
    unfolding win by (subst (2) hd) (simp add: len replicate_append_same)
  have "advance_loop (Suc n) t = advance_loop n ?v" by (simp add: Let_def)
  then show ?case
    using IH count_slots_append [OF cv] same_but_counts_trans [OF sv] tk dr fs(5) by simp
qed

lemma filter_rotate_length: "length (filter P (List.rotate n xs)) = length (filter P xs)"
proof -
  have "length (filter P (rotate1 ys)) = length (filter P ys)" for ys :: "'a list"
    by (cases ys) simp_all
  then show ?thesis by (induction n) (simp_all add: List.rotate_def)
qed

text \<open>
  Seen through a predicate on sequence numbers, the window is its values on the next
  \<open>length\<close> numbers, and advancing it moves that range, whichever branch runs.
\<close>

definition window_shows :: "(nat \<Rightarrow> bool) \<Rightarrow> loss_tracker \<Rightarrow> bool" where
  "window_shows P t \<longleftrightarrow> ring_ok t \<and>
     window_of t = map P [lt_window_start t ..< lt_window_start t + length (lt_received t)] \<and>
     (\<forall>q \<ge> lt_window_start t + length (lt_received t). \<not> P q)"

lemma map_beyond: "(\<forall>q \<ge> a. \<not> P q) \<Longrightarrow> map P [a ..< b] = replicate (b - a) False"
  by (intro nth_equalityI) auto

lemma window_shows_split:
  assumes "window_shows P t"
  shows "take count (window_of t) @ replicate (count - length (lt_received t)) False =
      map P [lt_window_start t ..< lt_window_start t + count]"
    and "drop count (window_of t) @ replicate (min count (length (lt_received t))) False =
      map P [lt_window_start t + count ..< lt_window_start t + count + length (lt_received t)]"
proof -
  let ?n = "length (lt_received t)" and ?s = "lt_window_start t"
  have w: "window_of t = map P [?s ..< ?s + ?n]" and far: "\<not> P q" if "q \<ge> ?s + ?n" for q
    using assms that unfolding window_shows_def by blast+
  have w: "window_of t = map P [?s ..< ?s + ?n]" using assms unfolding window_shows_def by blast
  show "take count (window_of t) @ replicate (count - ?n) False = map P [?s ..< ?s + count]"
    by (intro nth_equalityI) (auto simp: w nth_append min_def far)
  show "drop count (window_of t) @ replicate (min count ?n) False =
      map P [?s + count ..< ?s + count + ?n]"
    by (intro nth_equalityI) (auto simp: w nth_append min_def far add.assoc split: if_splits)
qed

lemma advance_props:
  assumes "window_shows P t" and "room count t" and "lt_window_start t + count \<le> u64_max"
  shows "count_slots (map P [lt_window_start t ..< lt_window_start t + count]) t (advance count t) \<and>
    same_but_counts t (advance count t) \<and> window_shows P (advance count t) \<and>
    lt_window_start (advance count t) = lt_window_start t + count"
proof -
  let ?n = "length (lt_received t)" and ?s = "lt_window_start t"
  have ok: "ring_ok t" and w: "window_of t = map P [?s ..< ?s + ?n]"
    and far: "\<forall>q \<ge> ?s + count + ?n. \<not> P q"
    using assms(1) unfolding window_shows_def by auto
  note sp = window_shows_split [OF assms(1), of count]
  have start: "wrap64 (?s + count) = ?s + count" using assms(3) by (simp add: wrap64_def)
  show ?thesis
  proof (cases "count \<ge> ?n")
    case True
    let ?u = "fold finalize_slot [0 ..< ?n] t"
    have "room (length [0 ..< ?n]) t" using assms(2) True by (simp add: room_def)
    from finalize_all [OF this] have u: "count_slots (lt_received t) t ?u" "same_but_counts t ?u"
      "lt_received ?u = lt_received t" "lt_window_start ?u = ?s"
      by (simp_all add: map_nth)
    have "room (count - ?n) ?u" by (rule room_count [OF _ u(1)]) (use assms(2) True in simp)
    then have lost: "sat_add (ls_confirmed_lost (lt_stats ?u)) (count - ?n) =
        ls_confirmed_lost (lt_stats ?u) + (count - ?n)"
      by (auto simp: room_def sat_add_def)
    have adv: "advance count t = ?u\<lparr>lt_stats := (lt_stats ?u)\<lparr>ls_confirmed_lost :=
        ls_confirmed_lost (lt_stats ?u) + (count - ?n)\<rparr>, lt_received := replicate ?n False, lt_head := 0,
        lt_window_start := ?s + count\<rparr>"
      using True start u(4) by (simp add: advance_def Let_def lost)
    have "length (filter Q (window_of t)) = length (filter Q (lt_received t))" for Q
      by (simp add: window_of_def filter_rotate_length)
    then have "count_slots (map P [?s ..< ?s + count]) t (advance count t)"
      using u(1) True unfolding sp(1) [symmetric] adv by (simp add: count_slots_def)
    moreover have "window_of (advance count t) = map P [?s + count ..< ?s + count + ?n]"
      using sp(2) True by (simp add: adv window_of_def)
    ultimately show ?thesis
      using u(2) far ring_pos [OF ok] by (simp add: adv same_but_counts_def window_shows_def ring_ok_def)
  next
    case False
    then have "count \<le> ?n" by simp
    note al = advance_loop_props [OF ok assms(2) this]
    have adv: "advance count t = (advance_loop count t)\<lparr>lt_window_start := ?s + count\<rparr>"
      using False al start by (simp add: advance_def Let_def)
    have "window_of (advance count t) = map P [?s + count ..< ?s + count + ?n]"
      using al sp(2) False by (simp add: adv window_of_def)
    moreover have "take count (window_of t) = map P [?s ..< ?s + count]" using sp(1) False by simp
    ultimately show ?thesis
      using al far by (simp add: adv same_but_counts_def window_shows_def ring_ok_def count_slots_def)
  qed
qed


section \<open>The counters are exact\<close>

datatype loss_op = Observe video_header | Finalize nat | Flush

fun accepted_by :: "loss_op \<Rightarrow> loss_tracker \<Rightarrow> nat list" where
  "accepted_by (Observe p) t =
     (if fst (observe p t) \<in> {In_order, Reordered} then [unat (vid_packet_sequence p)] else [])"
| "accepted_by _ t = []"

fun loss_step :: "loss_op \<Rightarrow> loss_tracker \<Rightarrow> loss_tracker" where
  "loss_step (Observe p) t = snd (observe p t)"
| "loss_step (Finalize q) t = snd (finalize_through q t)"
| "loss_step Flush t = flush t"

text \<open>A run, collecting the sequence numbers of the packets it accepted.\<close>

primrec loss_run :: "loss_op list \<Rightarrow> nat list \<times> loss_tracker \<Rightarrow> nat list \<times> loss_tracker" where
  "loss_run [] s = s"
| "loss_run (a # as) s = loss_run as (accepted_by a (snd s) @ fst s, loss_step a (snd s))"

definition op_in_range :: "loss_op \<Rightarrow> bool" where
  "op_in_range a = (case a of Observe p \<Rightarrow> unat (vid_packet_sequence p) < u64_max | _ \<Rightarrow> True)"

definition exact_counts :: "nat \<Rightarrow> nat list \<Rightarrow> loss_tracker \<Rightarrow> bool" where
  "exact_counts start acc t \<longleftrightarrow> distinct acc \<and> (\<forall>q \<in> set acc. start \<le> q) \<and>
     ls_unique_received (lt_stats t) = length acc \<and>
     ls_finalized_received (lt_stats t) = card (set acc \<inter> {start ..< lt_window_start t}) \<and>
     ls_confirmed_lost (lt_stats t) = card ({start ..< lt_window_start t} - set acc)"

definition tracks :: "u32 \<Rightarrow> nat \<Rightarrow> nat list \<Rightarrow> loss_tracker \<Rightarrow> bool" where
  "tracks stream start acc t \<longleftrightarrow> exact_counts start acc t \<and> window_shows (\<lambda>q. q \<in> set acc) t \<and>
     lt_stream_set t \<and> lt_sequence_set t \<and> lt_stream_id t = stream \<and>
     start \<le> lt_window_start t \<and> lt_window_start t \<le> u64_max \<and>
     (lt_packet_seen t \<longleftrightarrow> acc \<noteq> []) \<and>
     (if lt_packet_seen t then lt_highest t = Max (set acc) \<and> lt_highest t < u64_max \<and>
        lt_window_start t \<le> Suc (lt_highest t) else lt_window_start t = start)"

lemma filter_map_card:
  "length (filter id (map (\<lambda>q. q \<in> S) [a ..< b])) = card (S \<inter> {a ..< b})"
  "length (filter Not (map (\<lambda>q. q \<in> S) [a ..< b])) = card ({a ..< b} - S)"
proof -
  have "distinct (filter (\<lambda>q. q \<in> S) [a ..< b])" "distinct (filter (\<lambda>q. q \<notin> S) [a ..< b])" by simp_all
  note c = this [THEN distinct_card]
  have "set (filter (\<lambda>q. q \<in> S) [a ..< b]) = S \<inter> {a ..< b}"
    "set (filter (\<lambda>q. q \<notin> S) [a ..< b]) = {a ..< b} - S" by auto
  with c show "length (filter id (map (\<lambda>q. q \<in> S) [a ..< b])) = card (S \<inter> {a ..< b})"
    "length (filter Not (map (\<lambda>q. q \<in> S) [a ..< b])) = card ({a ..< b} - S)"
    by (simp_all add: filter_map comp_def)
qed

lemma card_range_split:
  assumes "a \<le> b" "b \<le> (c :: nat)"
  shows "card (S \<inter> {a ..< c}) = card (S \<inter> {a ..< b}) + card (S \<inter> {b ..< c})"
    and "card ({a ..< c} - S) = card ({a ..< b} - S) + card ({b ..< c} - S)"
proof -
  have "S \<inter> {a ..< c} = (S \<inter> {a ..< b}) \<union> (S \<inter> {b ..< c})"
    "{a ..< c} - S = ({a ..< b} - S) \<union> ({b ..< c} - S)" using assms by auto
  then show "card (S \<inter> {a ..< c}) = card (S \<inter> {a ..< b}) + card (S \<inter> {b ..< c})"
    "card ({a ..< c} - S) = card ({a ..< b} - S) + card ({b ..< c} - S)"
    by (simp_all, (subst card_Un_disjoint; fastforce)+)
qed

lemma exact_room:
  assumes "exact_counts start acc t" and "lt_window_start t + count \<le> u64_max"
  shows "room count t"
proof -
  have "card (set acc \<inter> {start ..< lt_window_start t}) \<le> card {start ..< lt_window_start t}"
    "card ({start ..< lt_window_start t} - set acc) \<le> card {start ..< lt_window_start t}"
    by (intro card_mono; auto)+
  then have "ls_finalized_received (lt_stats t) \<le> lt_window_start t"
    "ls_confirmed_lost (lt_stats t) \<le> lt_window_start t"
    using assms(1) unfolding exact_counts_def by auto
  then show ?thesis using assms(2) unfolding room_def by linarith
qed

text \<open>Advancing keeps the counts exact, whatever the target below the top of the range.\<close>

lemma advance_exact:
  assumes "exact_counts start acc t" and "window_shows (\<lambda>q. q \<in> set acc) t" and "start \<le> lt_window_start t"
    and "lt_window_start t + count \<le> u64_max"
  shows "exact_counts start acc (advance count t) \<and> window_shows (\<lambda>q. q \<in> set acc) (advance count t) \<and>
    same_but_counts t (advance count t) \<and> lt_window_start (advance count t) = lt_window_start t + count"
proof -
  note a = advance_props [OF assms(2) exact_room [OF assms(1,4)] assms(4)]
  note c = card_range_split [OF assms(3), of "lt_window_start t + count" "set acc"]
  show ?thesis using a c assms(1)
    unfolding exact_counts_def count_slots_def same_but_counts_def filter_map_card by simp
qed

lemma slot_shows:
  assumes "window_shows P t" and "lt_window_start t \<le> q" and "q < lt_window_start t + length (lt_received t)"
  shows "lt_received t ! ((lt_head t + (q - lt_window_start t)) mod length (lt_received t)) \<longleftrightarrow> P q"
proof -
  have "q - lt_window_start t < length (lt_received t)" using assms(2,3) by linarith
  then show ?thesis
    using window_nth [of "q - lt_window_start t" t] assms unfolding window_shows_def by simp
qed

lemma slot_set_shows:
  assumes "window_shows P t" and "lt_window_start t \<le> q" and "q < lt_window_start t + length (lt_received t)"
  shows "window_shows (P(q := True)) (t\<lparr>lt_received :=
    (lt_received t)[(lt_head t + (q - lt_window_start t)) mod length (lt_received t) := True]\<rparr>)"
proof -
  let ?i = "q - lt_window_start t"
  have i: "?i < length (lt_received t)" and ok: "ring_ok t"
    using assms unfolding window_shows_def by linarith+
  have w: "window_of t = map P [lt_window_start t ..< lt_window_start t + length (lt_received t)]"
    using assms(1) unfolding window_shows_def by blast
  have "(window_of t)[?i := True] =
      map (P(q := True)) [lt_window_start t ..< lt_window_start t + length (lt_received t)]"
    unfolding w using assms(2) by (intro nth_equalityI) (auto simp: nth_list_update)
  with window_set [OF ok i, of True] show ?thesis
    using assms by (auto simp: window_shows_def ring_ok_def)
qed

lemma distinct_below: "distinct xs \<Longrightarrow> \<forall>x \<in> set xs. x < n \<Longrightarrow> length xs \<le> (n :: nat)"
  using distinct_card [of xs] card_mono [of "{..<n}" "set xs"] by auto

text \<open>Recording a new sequence number in its slot.\<close>

lemma accept_exact:
  assumes "exact_counts start acc t" and "q \<notin> set acc" and "start \<le> q" and "lt_window_start t \<le> q"
    and "\<forall>x \<in> set acc. x < u64_max" and "q < u64_max"
  shows "exact_counts start (q # acc) (bump ls_unique_received_update (t\<lparr>lt_received := r\<rparr>))"
proof -
  have d: "distinct (q # acc)" and u: "ls_unique_received (lt_stats t) = length acc"
    using assms(1,2) unfolding exact_counts_def by auto
  have "length (q # acc) \<le> u64_max" by (rule distinct_below [OF d]) (use assms(5,6) in auto)
  then have "sat_add (ls_unique_received (lt_stats t)) 1 = length (q # acc)"
    unfolding sat_add_def u by auto
  moreover have "insert q (set acc) \<inter> {start ..< lt_window_start t} = set acc \<inter> {start ..< lt_window_start t}"
    "{start ..< lt_window_start t} - insert q (set acc) = {start ..< lt_window_start t} - set acc"
    using assms(4) by auto
  ultimately show ?thesis using assms(1-3) d by (simp add: exact_counts_def bump_def)
qed

lemma bump_other:
  "f \<in> {ls_wrong_stream_update, ls_too_late_update, ls_invalid_forward_jumps_update, ls_duplicates_update,
     ls_reordered_update} \<Longrightarrow> tracks stream start acc (bump f t) \<longleftrightarrow> tracks stream start acc t"
  by (auto simp: tracks_def exact_counts_def window_shows_def bump_def ring_ok_def window_of_def)

text \<open>The packet's slot is in the window once \<open>observe\<close> has moved it.\<close>

definition make_room :: "nat \<Rightarrow> loss_tracker \<Rightarrow> loss_tracker" where
  "make_room q t =
     (if q - lt_window_start t \<ge> length (lt_received t)
      then advance (q - lt_window_start t - length (lt_received t) + 1) t else t)"

lemma make_room_props:
  assumes "tracks stream start acc t" and "lt_window_start t \<le> q" and "q < u64_max"
  shows "exact_counts start acc (make_room q t) \<and> window_shows (\<lambda>q. q \<in> set acc) (make_room q t) \<and>
    same_but_counts t (make_room q t) \<and> lt_window_start t \<le> lt_window_start (make_room q t) \<and>
    lt_window_start (make_room q t) \<le> q \<and>
    q < lt_window_start (make_room q t) + length (lt_received (make_room q t))"
proof (cases "q - lt_window_start t \<ge> length (lt_received t)")
  case True
  let ?c = "q - lt_window_start t - length (lt_received t) + 1"
  have t: "exact_counts start acc t" "window_shows (\<lambda>q. q \<in> set acc) t" "start \<le> lt_window_start t"
    using assms(1) unfolding tracks_def by blast+
  have pos: "0 < length (lt_received t)" using t(2) ring_pos unfolding window_shows_def by blast
  have c: "lt_window_start t + ?c \<le> u64_max" "lt_window_start t + ?c \<le> q"
    "q < lt_window_start t + ?c + length (lt_received t)"
    using assms(2,3) pos True by linarith+
  have mr: "make_room q t = advance ?c t" using True by (simp only: make_room_def if_True)
  note a = advance_exact [OF t c(1)]
  then have "length (lt_received (advance ?c t)) = length (lt_received t)"
    unfolding same_but_counts_def by blast
  then show ?thesis unfolding mr using a c(2,3) by simp
next
  case False
  then show ?thesis using assms(1,2) by (auto simp: make_room_def tracks_def same_but_counts_def)
qed

definition slot_index :: "nat \<Rightarrow> loss_tracker \<Rightarrow> nat" where
  "slot_index q t = (lt_head t + (q - lt_window_start t)) mod length (lt_received t)"

definition take_packet :: "nat \<Rightarrow> loss_tracker \<Rightarrow> loss_tracker" where
  "take_packet q u =
     (let v = bump ls_unique_received_update (u\<lparr>lt_received := (lt_received u)[slot_index q u := True]\<rparr>)
      in (if \<not> lt_packet_seen v \<or> q > lt_highest v then v\<lparr>lt_highest := q\<rparr> else v)\<lparr>lt_packet_seen := True\<rparr>)"

definition jumps :: "nat \<Rightarrow> loss_tracker \<Rightarrow> bool" where
  "jumps q t \<longleftrightarrow> q > (if lt_packet_seen t then lt_highest t else lt_window_start t) \<and>
      q - (if lt_packet_seen t then lt_highest t else lt_window_start t) > lt_max_jump t"

lemma observe_sequenced:
  assumes "lt_stream_set t" and "lt_sequence_set t"
  shows "observe p t =
     (let q = unat (vid_packet_sequence p) in
      if vid_stream_id p \<noteq> lt_stream_id t then (Wrong_stream, bump ls_wrong_stream_update t)
      else if q < lt_window_start t then (Too_late, bump ls_too_late_update t)
      else if jumps q t then (Invalid_forward_jump, bump ls_invalid_forward_jumps_update t)
      else if lt_received (make_room q t) ! slot_index q (make_room q t)
      then (Duplicate, bump ls_duplicates_update (make_room q t))
      else if lt_packet_seen t \<and> q < lt_highest t
      then (Reordered, bump ls_reordered_update (take_packet q (make_room q t)))
      else (In_order, take_packet q (make_room q t)))"
  unfolding observe_def Let_def make_room_def take_packet_def slot_index_def jumps_def
  by (simp only: assms not_True_eq_False if_False)

lemma take_packet_tracks:
  assumes t: "tracks stream start acc t" and ge: "lt_window_start t \<le> q" and q: "q < u64_max"
    and new: "q \<notin> set acc"
  shows "tracks stream start (q # acc) (take_packet q (make_room q t))"
proof -
  let ?u = "make_room q t"
  let ?r = "(lt_received ?u)[slot_index q ?u := True]"
  let ?v = "bump ls_unique_received_update (?u\<lparr>lt_received := ?r\<rparr>)"
  note u = make_room_props [OF t ge q]
  have top: "\<forall>x \<in> set acc. x < u64_max"
    using t Max_ge [of "set acc"] unfolding tracks_def by (fastforce split: if_splits)
  have ex: "exact_counts start (q # acc) ?v"
    by (rule accept_exact) (use u new ge q t top in \<open>auto simp: tracks_def\<close>)
  have "(\<lambda>x. x \<in> set acc)(q := True) = (\<lambda>x. x \<in> set (q # acc))"
    by (simp add: fun_eq_iff)
  then have "window_shows (\<lambda>x. x \<in> set (q # acc)) (?u\<lparr>lt_received := ?r\<rparr>)"
    using slot_set_shows [of "\<lambda>x. x \<in> set acc" ?u q] u unfolding slot_index_def by metis
  then have win: "window_shows (\<lambda>x. x \<in> set (q # acc)) (?v\<lparr>lt_highest := h, lt_packet_seen := b\<rparr>)"
    "window_shows (\<lambda>x. x \<in> set (q # acc)) (?v\<lparr>lt_packet_seen := b\<rparr>)" for h b
    unfolding window_shows_def ring_ok_def window_of_def bump_def by simp_all
  have ex': "exact_counts start (q # acc) (?v\<lparr>lt_highest := h, lt_packet_seen := b\<rparr>)"
    "exact_counts start (q # acc) (?v\<lparr>lt_packet_seen := b\<rparr>)" for h b
    using ex unfolding exact_counts_def by simp_all
  have same: "lt_highest ?v = lt_highest t" "lt_packet_seen ?v = lt_packet_seen t"
    "lt_window_start ?v = lt_window_start ?u" "lt_stream_id ?v = lt_stream_id t"
    "lt_stream_set ?v" "lt_sequence_set ?v"
    using u t by (simp_all add: same_but_counts_def bump_def tracks_def)
  have mx: "Max (set (q # acc)) = (if acc = [] then q else max q (Max (set acc)))" by simp
  have hi: "lt_packet_seen t \<longleftrightarrow> acc \<noteq> []" "lt_packet_seen t \<Longrightarrow> lt_highest t = Max (set acc) \<and> lt_highest t < u64_max"
    "lt_stream_id t = stream" "start \<le> lt_window_start t"
    using t unfolding tracks_def by (auto split: if_splits)
  have le: "start \<le> lt_window_start ?u" "lt_window_start ?u \<le> q" using u hi(4) by linarith+
  show ?thesis
  proof (cases "\<not> lt_packet_seen t \<or> q > lt_highest t")
    case True
    then have tp: "take_packet q ?u = ?v\<lparr>lt_highest := q, lt_packet_seen := True\<rparr>"
      using same(1,2) by (auto simp: take_packet_def Let_def)
    have "q = Max (set (q # acc))" unfolding mx using hi True by (auto simp: max_def)
    then show ?thesis unfolding tracks_def tp using same hi(3) le q win ex' by simp
  next
    case False
    then have tp: "take_packet q ?u = ?v\<lparr>lt_packet_seen := True\<rparr>"
      using same(1,2) by (auto simp: take_packet_def Let_def)
    have "lt_highest t = Max (set (q # acc))" unfolding mx using hi False by (auto simp: max_def)
    moreover have "lt_highest t < u64_max" "lt_window_start ?u \<le> Suc (lt_highest t)"
      using hi(2) le False by auto
    ultimately show ?thesis unfolding tracks_def tp using same hi(3) le q win ex' by simp
  qed
qed

lemma make_room_tracks:
  assumes t: "tracks stream start acc t" and ge: "lt_window_start t \<le> q" and q: "q < u64_max"
    and old: "q \<in> set acc"
  shows "tracks stream start acc (make_room q t)"
proof -
  note u = make_room_props [OF t ge q]
  have "q \<le> lt_highest t" "lt_packet_seen t"
    using t old Max_ge [of "set acc" q] unfolding tracks_def by (auto split: if_splits)
  then show ?thesis using t u by (auto simp: tracks_def same_but_counts_def)
qed

lemma tracks_observe:
  assumes t: "tracks stream start acc t" and q: "unat (vid_packet_sequence p) < u64_max"
  shows "tracks stream start (accepted_by (Observe p) t @ acc) (snd (observe p t))"
proof -
  let ?q = "unat (vid_packet_sequence p)"
  have flags: "lt_stream_set t" "lt_sequence_set t" using t unfolding tracks_def by blast+
  have slot: "lt_received (make_room ?q t) ! slot_index ?q (make_room ?q t) \<longleftrightarrow> ?q \<in> set acc"
    if "lt_window_start t \<le> ?q"
    using slot_shows make_room_props [OF t that q] unfolding slot_index_def by blast
  show ?thesis
    using t slot make_room_tracks [OF t _ q] take_packet_tracks [OF t _ q]
    by (auto simp: observe_sequenced [OF flags] bump_other Let_def split: if_splits)
qed

lemma if_singleton_eq: "(if P then [x] else []) = (if Q then [x] else []) \<Longrightarrow> P \<longleftrightarrow> Q"
  by (cases P; cases Q) simp_all

text \<open>Which packets are accepted: those of the stream, not below the window, not accepted before, and not
  too far ahead of the highest one.\<close>

lemma tracks_accepts:
  assumes t: "tracks stream start acc t" and q: "unat (vid_packet_sequence p) < u64_max"
  shows "accepted_by (Observe p) t =
    (if vid_stream_id p = stream \<and> lt_window_start t \<le> unat (vid_packet_sequence p) \<and>
        unat (vid_packet_sequence p) \<notin> set acc \<and>
        unat (vid_packet_sequence p) \<le> (if acc = [] then start else Max (set acc)) + lt_max_jump t
     then [unat (vid_packet_sequence p)] else [])"
proof -
  let ?q = "unat (vid_packet_sequence p)"
  have flags: "lt_stream_set t" "lt_sequence_set t" using t unfolding tracks_def by blast+
  have slot: "lt_received (make_room ?q t) ! slot_index ?q (make_room ?q t) \<longleftrightarrow> ?q \<in> set acc"
    if "lt_window_start t \<le> ?q"
    using slot_shows make_room_props [OF t that q] unfolding slot_index_def by blast
  have jumps: "jumps ?q t \<longleftrightarrow> \<not> ?q \<le> (if acc = [] then start else Max (set acc)) + lt_max_jump t"
  proof -
    have "(if lt_packet_seen t then lt_highest t else lt_window_start t) = (if acc = [] then start else Max (set acc))"
      using t by (cases "lt_packet_seen t") (simp_all add: tracks_def)
    then show ?thesis unfolding jumps_def by (simp only:) linarith
  qed
  have stream: "lt_stream_id t = stream" using t by (simp add: tracks_def)
  show ?thesis
    unfolding accepted_by.simps observe_sequenced [OF flags] Let_def jumps stream using slot by auto
qed

lemma tracks_advance:
  assumes t: "tracks stream start acc t" and seen: "lt_packet_seen t"
    and q: "lt_window_start t \<le> q" "q \<le> lt_highest t"
  shows "tracks stream start acc (advance (q - lt_window_start t + 1) t) \<and>
    lt_window_start (advance (q - lt_window_start t + 1) t) = Suc q"
proof -
  have "lt_window_start t + (q - lt_window_start t + 1) \<le> u64_max"
    using t seen q unfolding tracks_def by auto
  then show ?thesis
    using advance_exact [of start acc t "q - lt_window_start t + 1"] t seen q
    by (auto simp: tracks_def same_but_counts_def)
qed

lemma tracks_step:
  assumes t: "tracks stream start acc t" and a: "op_in_range a"
  shows "tracks stream start (accepted_by a t @ acc) (loss_step a t)"
proof (cases a)
  case (Observe p)
  then show ?thesis using tracks_observe [OF t, of p] a by (simp add: op_in_range_def)
next
  case (Finalize q)
  then show ?thesis using t tracks_advance [OF t, of q] by (simp add: finalize_through_def)
next
  case Flush
  then show ?thesis using t tracks_advance [OF t, of "lt_highest t"] by (simp add: flush_def)
qed

lemma tracks_run:
  "tracks stream start acc t \<Longrightarrow> list_all op_in_range ops \<Longrightarrow>
   case loss_run ops (acc, t) of (acc', t') \<Rightarrow> tracks stream start acc' t'"
proof (induction ops arbitrary: acc t)
  case (Cons a ops)
  then show ?case using Cons.IH [OF tracks_step [OF Cons.prems(1), of a]] by simp
qed simp

lemma tracks_reset:
  assumes "start \<le> u64_max"
  shows "tracks stream start [] (tracker_reset stream (Some start) (make_tracker window jump))"
  using assms
  by (auto simp: tracks_def exact_counts_def window_shows_def ring_ok_def window_of_def tracker_reset_def
      make_tracker_def zero_stats_def Let_def clamp_def map_replicate_const)

text \<open>
  C32. The loss statistics are exact. Take a tracker reset for a stream with its first sequence
  number, and any run of packets (late, duplicated, reordered, jumping ahead, of other
  streams), partial finalisations and flushes, in which no packet has the largest sequence number
  2^64 - 1. No sequence number is accepted twice; \<open>unique_received\<close> counts the accepted ones;
  \<open>finalized_received\<close> counts those below the window and \<open>confirmed_lost\<close> exactly the numbers from the
  first up to the window that were not accepted. The next packet is accepted exactly when it is
  of the stream, its number was not accepted before, has not been finalised, and is not further
  ahead of the highest accepted one (of the first number, before any) than the limit: a packet
  that arrives after its number was finalised stays counted as lost.
\<close>

theorem loss_counters_exact:
  assumes "start \<le> u64_max" and "list_all op_in_range ops"
  shows "case loss_run ops ([], tracker_reset stream (Some start) (make_tracker window jump)) of (acc, t) \<Rightarrow>
    distinct acc \<and> ls_unique_received (lt_stats t) = length acc \<and>
    ls_finalized_received (lt_stats t) = card (set acc \<inter> {start ..< lt_window_start t}) \<and>
    ls_confirmed_lost (lt_stats t) = card ({start ..< lt_window_start t} - set acc) \<and>
    (\<forall>p. let q = unat (vid_packet_sequence p) in q < u64_max \<longrightarrow>
      (fst (observe p t) \<in> {In_order, Reordered} \<longleftrightarrow> vid_stream_id p = stream \<and> lt_window_start t \<le> q \<and>
         q \<notin> set acc \<and> q \<le> (if acc = [] then start else Max (set acc)) + lt_max_jump t))"
proof -
  obtain acc t where run: "loss_run ops ([], tracker_reset stream (Some start) (make_tracker window jump)) = (acc, t)"
    by fastforce
  have t: "tracks stream start acc t"
    using tracks_run [OF tracks_reset [OF assms(1), of stream window jump] assms(2)] run by simp
  have "fst (observe p t) \<in> {In_order, Reordered} \<longleftrightarrow> vid_stream_id p = stream \<and>
      lt_window_start t \<le> unat (vid_packet_sequence p) \<and> unat (vid_packet_sequence p) \<notin> set acc \<and>
      unat (vid_packet_sequence p) \<le> (if acc = [] then start else Max (set acc)) + lt_max_jump t"
    if "unat (vid_packet_sequence p) < u64_max" for p
    using tracks_accepts [OF t that] unfolding accepted_by.simps
    by (rule if_singleton_eq)
  moreover have "exact_counts start acc t" using t by (simp add: tracks_def)
  ultimately show ?thesis unfolding run prod.case Let_def exact_counts_def by blast
qed

definition demo_video :: "u32 \<Rightarrow> u64 \<Rightarrow> video_header" where
  "demo_video stream q = \<lparr>vid_version = 1, vid_flags = 0, vid_stream_id = stream,
     vid_packet_sequence = q, vid_frame_id = 0, vid_fragment_index = 0, vid_fragment_count = 1,
     vid_payload_bytes = 0, vid_capture_time = 0\<rparr>"

lemma replicate_numeral: "replicate (numeral n) x = x # replicate (pred_numeral n) x"
  by (simp add: numeral_eq_Suc)

lemma list_update_numeral: "(x # xs)[numeral n := v] = x # xs[pred_numeral n := v]"
  by (simp add: numeral_eq_Suc)

definition demo_run :: "nat list \<times> loss_tracker" where
  "demo_run = loss_run (map Observe (map (demo_video 7) [10, 12]))
     ([], tracker_reset 7 (Some 10) (make_tracker 8 100))"

lemma demo_run_accepts: "fst demo_run = [12, 10]"
proof -
  have start: "tracker_reset 7 (Some 10) (make_tracker 8 100) =
      \<lparr>lt_received = [False, False, False, False, False, False, False, False], lt_head = 0,
       lt_window_start = 10, lt_highest = 10, lt_max_jump = 100, lt_stream_id = 7, lt_generation = 1,
       lt_stream_set = True, lt_sequence_set = True, lt_packet_seen = False,
       lt_stats = zero_stats\<lparr>ls_stream_id := 7, ls_generation := 1\<rparr>\<rparr>"
    by (simp add: tracker_reset_def make_tracker_def clamp_def zero_stats_def wrap64_def replicate_numeral)
  show ?thesis
    by (simp add: demo_run_def demo_video_def start zero_stats_def observe_def bump_def sat_add_def
        list_update_numeral)
qed

lemma demo_run_in_range: "list_all op_in_range (map Observe (map (demo_video 7) [10, 12]))"
  by (simp add: op_in_range_def demo_video_def)

lemma demo_run_pair: "demo_run = ([12, 10], snd demo_run)"
  using demo_run_accepts by (simp add: prod_eq_iff)

theorem loss_counters_exact_witness: "ls_unique_received (lt_stats (snd demo_run)) = 2"
  using loss_counters_exact [OF _ demo_run_in_range, of 10 7 8 100] demo_run_accepts
  unfolding demo_run_def [symmetric] by (simp add: case_prod_beta)

text \<open>
  A flush settles everything: after it, each sequence number from the first to the highest
  one received is counted exactly once, as received or as lost, and nothing received is still
  pending.
\<close>

theorem flush_settles:
  assumes "start \<le> u64_max" and "list_all op_in_range ops"
    and "loss_run ops ([], tracker_reset stream (Some start) (make_tracker window jump)) = (acc, t)"
    and "acc \<noteq> []"
  shows "ls_finalized_received (lt_stats (flush t)) = ls_unique_received (lt_stats (flush t)) \<and>
    ls_finalized_received (lt_stats (flush t)) + ls_confirmed_lost (lt_stats (flush t)) =
      Suc (Max (set acc)) - start"
proof -
  have t: "tracks stream start acc t"
    using tracks_run [OF tracks_reset [OF assms(1), of stream window jump] assms(2)] assms(3) by simp
  have seen: "lt_packet_seen t" and hi: "lt_highest t = Max (set acc)"
    and le: "lt_window_start t \<le> Suc (lt_highest t)"
    using t assms(4) unfolding tracks_def by (auto split: if_splits)
  have "tracks stream start acc (flush t) \<and> lt_window_start (flush t) = Suc (lt_highest t)"
    using t seen le tracks_advance [OF t seen _ order_refl] by (auto simp: flush_def not_le)
  then have ex: "exact_counts start acc (flush t)" and ws: "lt_window_start (flush t) = Suc (Max (set acc))"
    unfolding tracks_def hi by auto
  let ?range = "{start ..< Suc (Max (set acc))}"
  have sub: "set acc \<inter> ?range = set acc"
    using ex Max_ge [of "set acc"] unfolding exact_counts_def by (auto simp: less_Suc_eq_le)
  have "card (set acc \<inter> ?range) + card (?range - set acc) = card ?range"
    by (metis Int_commute card_Int_Diff finite_atLeastLessThan)
  then show ?thesis
    using ex unfolding exact_counts_def ws by (simp add: sub distinct_card)
qed

theorem flush_settles_witness:
  "ls_finalized_received (lt_stats (flush (snd demo_run))) +
   ls_confirmed_lost (lt_stats (flush (snd demo_run))) = 3"
  using flush_settles [OF _ demo_run_in_range demo_run_pair [unfolded demo_run_def]]
  unfolding demo_run_def [symmetric] by simp

end
