(* ===== verification/FrameReassembler.thy ===== *)
theory FrameReassembler
  imports Protocol
begin

text \<open>
  The frame reassembler of \<^verbatim>\<open>common/src/frame_reassembler.cpp\<close>: fragments of video frames arrive in
  any order, a frame is delivered once all its fragments are there, and what is buffered is
  limited in number, size and time. Times are integers (nanoseconds of the steady clock),
  sizes are natural numbers with the wrap-around of \<open>size_t\<close> written out, the statistics
  counters are 64-bit words. The hash map of partial frames is an association list.

  Shown: the byte account is the sum of what is buffered and never exceeds the configured
  totals, whatever is pushed; every delivered frame is the concatenation, in index order, of
  fragments that were pushed for it; the fragments of a frame, pushed in any order before the
  deadline, deliver it with the last one.
\<close>

section \<open>State and operations\<close>

record reassembly_limits =
  max_frames_in_flight :: nat
  max_fragments_per_frame :: u16
  max_fragment_payload :: nat
  max_frame_bytes :: nat
  max_total_buffered_bytes :: nat
  frame_deadline :: int

record completed_frame =
  cf_stream_id :: u32
  cf_frame_id :: u64
  cf_capture_time :: u64
  cf_keyframe :: bool
  cf_payload :: bytes

datatype fragment_disposition =
    Frag_uninitialized | Frag_accepted | Frag_duplicate | Frame_complete | Late_completed_frame
  | Frag_wrong_stream | Frag_invalid | Resource_limit

record reassembly_stats =
  accepted_fragments :: u64
  duplicate_fragments :: u64
  late_completed_frame_fragments :: u64
  conflicting_fragments :: u64
  invalid_fragments :: u64
  completed_frames :: u64
  expired_incomplete_frames :: u64
  resource_dropped_frames :: u64
  resource_limit_rejections :: u64
  buffered_bytes :: nat
  peak_buffered_bytes :: nat

record partial_frame =
  pf_fragment_count :: u16
  pf_received_count :: u16
  pf_capture_time :: u64
  pf_keyframe :: bool
  pf_total_bytes :: nat
  pf_deadline :: int
  pf_fragments :: "bytes list"
  pf_received :: "bool list"

record reassembler =
  ra_limits :: reassembly_limits
  ra_stream_id :: u32
  ra_stream_set :: bool
  ra_frames :: "(u64 \<times> partial_frame) list"
  ra_completed_order :: "u64 list"
  ra_completed_recent :: "u64 set"
  ra_stats :: reassembly_stats

definition has_flag :: "u16 \<Rightarrow> u16 \<Rightarrow> bool" where
  "has_flag v flag \<longleftrightarrow> v AND flag \<noteq> 0"

definition zero_reassembly_stats :: reassembly_stats where
  "zero_reassembly_stats = \<lparr>accepted_fragments = 0, duplicate_fragments = 0,
     late_completed_frame_fragments = 0, conflicting_fragments = 0, invalid_fragments = 0,
     completed_frames = 0, expired_incomplete_frames = 0, resource_dropped_frames = 0,
     resource_limit_rejections = 0, buffered_bytes = 0, peak_buffered_bytes = 0\<rparr>"

definition millisecond :: int where "millisecond = 1000000"

definition clamp_limits :: "reassembly_limits \<Rightarrow> reassembly_limits" where
  "clamp_limits l =
     (let l = l\<lparr>max_frames_in_flight := clamp (max_frames_in_flight l) 1 64\<rparr>;
          l = l\<lparr>max_fragments_per_frame := clamp (max_fragments_per_frame l) 1 16384\<rparr>;
          l = l\<lparr>max_fragment_payload := clamp (max_fragment_payload l) 1 65507\<rparr>;
          l = l\<lparr>max_frame_bytes := max (max_frame_bytes l) (max_fragment_payload l)\<rparr>;
          l = l\<lparr>max_total_buffered_bytes := max (max_total_buffered_bytes l) (max_frame_bytes l)\<rparr>
      in l\<lparr>frame_deadline := max (frame_deadline l) millisecond\<rparr>)"

definition make_reassembler :: "reassembly_limits \<Rightarrow> reassembler" where
  "make_reassembler l =
     \<lparr>ra_limits = clamp_limits l, ra_stream_id = 0, ra_stream_set = False, ra_frames = [],
      ra_completed_order = [], ra_completed_recent = {}, ra_stats = zero_reassembly_stats\<rparr>"

definition ra_reset :: "u32 \<Rightarrow> reassembler \<Rightarrow> reassembler" where
  "ra_reset stream r = r\<lparr>ra_stream_id := stream, ra_stream_set := True, ra_frames := [],
     ra_completed_order := [], ra_completed_recent := {}, ra_stats := zero_reassembly_stats\<rparr>"

primrec expire_loop :: "int \<Rightarrow> (u64 \<times> partial_frame) list \<Rightarrow> reassembly_stats \<Rightarrow>
    nat \<times> (u64 \<times> partial_frame) list \<times> reassembly_stats" where
  "expire_loop now [] st = (0, [], st)"
| "expire_loop now (x # xs) st =
     (if pf_deadline (snd x) > now
      then case expire_loop now xs st of (n, kept, st) \<Rightarrow> (n, x # kept, st)
      else case expire_loop now xs
             (st\<lparr>buffered_bytes := sub64 (buffered_bytes st) (pf_total_bytes (snd x)),
                 expired_incomplete_frames := expired_incomplete_frames st + 1\<rparr>)
           of (n, kept, st) \<Rightarrow> (Suc n, kept, st))"

definition expire :: "int \<Rightarrow> reassembler \<Rightarrow> nat \<times> reassembler" where
  "expire now r =
     (case expire_loop now (ra_frames r) (ra_stats r) of
        (n, kept, st) \<Rightarrow> (n, r\<lparr>ra_frames := kept, ra_stats := st\<rparr>))"

text \<open>The sanity checks of \<open>push\<close> on one fragment.\<close>

definition fragment_valid :: "reassembly_limits \<Rightarrow> video_header \<Rightarrow> bytes \<Rightarrow> bool" where
  "fragment_valid l h body =
     (let end_marker = has_flag (vid_flags h) flag_end_of_frame;
          is_last = (vid_fragment_count h \<noteq> 0 \<and> vid_fragment_index h = vid_fragment_count h - 1)
      in \<not> (vid_version h \<noteq> kVideoVersion \<or> vid_fragment_count h = 0 \<or>
            vid_fragment_count h > max_fragments_per_frame l \<or>
            vid_fragment_index h \<ge> vid_fragment_count h \<or>
            unat (vid_payload_bytes h) \<noteq> length body \<or> body = [] \<or>
            length body > max_fragment_payload l \<or> end_marker \<noteq> is_last))"

definition new_partial :: "reassembly_limits \<Rightarrow> video_header \<Rightarrow> int \<Rightarrow> partial_frame" where
  "new_partial l h now =
     \<lparr>pf_fragment_count = vid_fragment_count h, pf_received_count = 0,
      pf_capture_time = vid_capture_time h, pf_keyframe = has_flag (vid_flags h) flag_keyframe,
      pf_total_bytes = 0, pf_deadline = now + frame_deadline l,
      pf_fragments = replicate (unat (vid_fragment_count h)) [],
      pf_received = replicate (unat (vid_fragment_count h)) False\<rparr>"

definition store_fragment :: "video_header \<Rightarrow> bytes \<Rightarrow> partial_frame \<Rightarrow> partial_frame" where
  "store_fragment h body p =
     (let i = unat (vid_fragment_index h)
      in p\<lparr>pf_fragments := (pf_fragments p)[i := body], pf_received := (pf_received p)[i := True],
           pf_received_count := pf_received_count p + 1,
           pf_total_bytes := wrap64 (pf_total_bytes p + length body),
           pf_keyframe := (pf_keyframe p \<or> has_flag (vid_flags h) flag_keyframe)\<rparr>)"

fun trim_completed :: "u64 list \<Rightarrow> u64 set \<Rightarrow> u64 list \<times> u64 set" where
  "trim_completed [] recent = ([], recent)"
| "trim_completed (x # xs) recent =
     (if length (x # xs) > 64 then trim_completed xs (recent - {x}) else (x # xs, recent))"

definition remember_completed :: "u64 \<Rightarrow> reassembler \<Rightarrow> reassembler" where
  "remember_completed frame_id r =
     (case trim_completed (ra_completed_order r @ [frame_id]) (insert frame_id (ra_completed_recent r)) of
        (order, recent) \<Rightarrow> r\<lparr>ra_completed_order := order, ra_completed_recent := recent\<rparr>)"

definition drop_frame :: "u64 \<Rightarrow> partial_frame \<Rightarrow> bool \<Rightarrow> reassembler \<Rightarrow> reassembler" where
  "drop_frame frame_id p resource_drop r =
     (let st = (ra_stats r)\<lparr>buffered_bytes := sub64 (buffered_bytes (ra_stats r)) (pf_total_bytes p)\<rparr>;
          st = (if resource_drop then st\<lparr>resource_dropped_frames := resource_dropped_frames st + 1\<rparr> else st)
      in r\<lparr>ra_frames := alist_erase frame_id (ra_frames r), ra_stats := st\<rparr>)"

definition complete_frame :: "u64 \<Rightarrow> partial_frame \<Rightarrow> reassembler \<Rightarrow> completed_frame \<times> reassembler" where
  "complete_frame frame_id p r =
     (\<lparr>cf_stream_id = ra_stream_id r, cf_frame_id = frame_id, cf_capture_time = pf_capture_time p,
       cf_keyframe = pf_keyframe p, cf_payload = concat (pf_fragments p)\<rparr>,
      remember_completed frame_id
        (r\<lparr>ra_frames := alist_erase frame_id (ra_frames r),
           ra_stats := (ra_stats r)\<lparr>buffered_bytes := sub64 (buffered_bytes (ra_stats r)) (pf_total_bytes p),
             completed_frames := completed_frames (ra_stats r) + 1\<rparr>\<rparr>))"

text \<open>The rest of \<open>push\<close> once the partial frame is found or inserted.\<close>

definition push_into ::
    "u64 \<Rightarrow> partial_frame \<Rightarrow> video_header \<Rightarrow> bytes \<Rightarrow> reassembler \<Rightarrow>
     (fragment_disposition \<times> completed_frame option) \<times> reassembler" where
  "push_into frame_id p h body r =
     (let l = ra_limits r; st = ra_stats r; i = unat (vid_fragment_index h) in
      if pf_fragment_count p \<noteq> vid_fragment_count h \<or> pf_capture_time p \<noteq> vid_capture_time h
      then ((Frag_invalid, None),
            r\<lparr>ra_stats := st\<lparr>conflicting_fragments := conflicting_fragments st + 1\<rparr>\<rparr>)
      else if pf_received p ! i
      then if pf_fragments p ! i = body
           then ((Frag_duplicate, None),
                 r\<lparr>ra_stats := st\<lparr>duplicate_fragments := duplicate_fragments st + 1\<rparr>\<rparr>)
           else ((Frag_invalid, None),
                 r\<lparr>ra_stats := st\<lparr>conflicting_fragments := conflicting_fragments st + 1\<rparr>\<rparr>)
      else if length body > max_frame_bytes l - min (pf_total_bytes p) (max_frame_bytes l) \<or>
              length body > max_total_buffered_bytes l - min (buffered_bytes st) (max_total_buffered_bytes l)
      then ((Resource_limit, None), drop_frame frame_id p True r)
      else let p = store_fragment h body p;
               buffered = wrap64 (buffered_bytes st + length body);
               st = st\<lparr>accepted_fragments := accepted_fragments st + 1, buffered_bytes := buffered,
                      peak_buffered_bytes := max (peak_buffered_bytes st) buffered\<rparr>;
               r = r\<lparr>ra_frames := alist_modify frame_id (\<lambda>_. p) (ra_frames r), ra_stats := st\<rparr>
           in if pf_received_count p \<noteq> pf_fragment_count p then ((Frag_accepted, None), r)
              else case complete_frame frame_id p r of (f, r) \<Rightarrow> ((Frame_complete, Some f), r))"

definition push ::
    "video_header \<Rightarrow> bytes \<Rightarrow> int \<Rightarrow> reassembler \<Rightarrow>
     (fragment_disposition \<times> completed_frame option) \<times> reassembler" where
  "push h body now r0 =
     (let r = snd (expire now r0); st = ra_stats r; l = ra_limits r; frame_id = vid_frame_id h in
      if \<not> ra_stream_set r then ((Frag_uninitialized, None), r)
      else if vid_stream_id h \<noteq> ra_stream_id r then ((Frag_wrong_stream, None), r)
      else if \<not> fragment_valid l h body
      then ((Frag_invalid, None), r\<lparr>ra_stats := st\<lparr>invalid_fragments := invalid_fragments st + 1\<rparr>\<rparr>)
      else if frame_id \<in> ra_completed_recent r
      then ((Late_completed_frame, None),
            r\<lparr>ra_stats := st\<lparr>late_completed_frame_fragments := late_completed_frame_fragments st + 1\<rparr>\<rparr>)
      else case map_of (ra_frames r) frame_id of
             Some p \<Rightarrow> push_into frame_id p h body r
           | None \<Rightarrow>
               if length (ra_frames r) \<ge> max_frames_in_flight l
               then ((Resource_limit, None),
                     r\<lparr>ra_stats := st\<lparr>resource_limit_rejections := resource_limit_rejections st + 1\<rparr>\<rparr>)
               else let p = new_partial l h now
                    in push_into frame_id p h body (r\<lparr>ra_frames := alist_emplace frame_id p (ra_frames r)\<rparr>))"

definition missing_fragments :: "u64 \<Rightarrow> reassembler \<Rightarrow> nat list option" where
  "missing_fragments frame_id r =
     (case map_of (ra_frames r) frame_id of
        None \<Rightarrow> None
      | Some p \<Rightarrow> Some (filter (\<lambda>i. \<not> pf_received p ! i) [0 ..< unat (pf_fragment_count p)]))"

definition frames_in_flight :: "reassembler \<Rightarrow> nat" where
  "frames_in_flight r = length (ra_frames r)"

section \<open>Invariant\<close>

definition partial_ok :: "reassembly_limits \<Rightarrow> partial_frame \<Rightarrow> bool" where
  "partial_ok l p \<longleftrightarrow> length (pf_fragments p) = unat (pf_fragment_count p) \<and>
     length (pf_received p) = unat (pf_fragment_count p) \<and>
     unat (pf_received_count p) = length (filter id (pf_received p)) \<and>
     pf_total_bytes p = sum_list (map length (pf_fragments p)) \<and>
     pf_total_bytes p \<le> max_frame_bytes l \<and>
     (\<forall>i < unat (pf_fragment_count p). \<not> pf_received p ! i \<longrightarrow> pf_fragments p ! i = [])"

text \<open>Each received slot holds a payload that was pushed for that frame and index.\<close>

definition partial_from :: "(video_header \<times> bytes) set \<Rightarrow> u64 \<Rightarrow> partial_frame \<Rightarrow> bool" where
  "partial_from H frame_id p \<longleftrightarrow>
     (\<forall>i < unat (pf_fragment_count p). pf_received p ! i \<longrightarrow>
        (\<exists>h. (h, pf_fragments p ! i) \<in> H \<and> vid_frame_id h = frame_id \<and> unat (vid_fragment_index h) = i \<and>
             vid_fragment_count h = pf_fragment_count p \<and> vid_capture_time h = pf_capture_time p))"

definition total_of :: "(u64 \<times> partial_frame) list \<Rightarrow> nat" where
  "total_of xs = sum_list (map (\<lambda>x. pf_total_bytes (snd x)) xs)"

definition limits_ok :: "reassembly_limits \<Rightarrow> bool" where
  "limits_ok l \<longleftrightarrow> max_frame_bytes l < 2 ^ 64 \<and> max_total_buffered_bytes l < 2 ^ 64"

definition ra_inv :: "(video_header \<times> bytes) set \<Rightarrow> reassembler \<Rightarrow> bool" where
  "ra_inv H r \<longleftrightarrow> limits_ok (ra_limits r) \<and> distinct (map fst (ra_frames r)) \<and>
     alist_all (\<lambda>k p. partial_ok (ra_limits r) p \<and> partial_from H k p \<and>
       pf_received_count p \<noteq> pf_fragment_count p) (ra_frames r) \<and>
     buffered_bytes (ra_stats r) = total_of (ra_frames r) \<and>
     buffered_bytes (ra_stats r) \<le> max_total_buffered_bytes (ra_limits r) \<and>
     length (ra_frames r) \<le> max_frames_in_flight (ra_limits r) \<and>
     distinct (ra_completed_order r) \<and> length (ra_completed_order r) \<le> 64 \<and>
     ra_completed_recent r = set (ra_completed_order r)"

lemma length_filter_update:
  "i < length bs \<Longrightarrow> \<not> bs ! i \<Longrightarrow> length (filter id (bs[i := True])) = Suc (length (filter id bs))"
  by (induction bs arbitrary: i) (auto split: nat.splits)

lemma sum_update_empty:
  "i < length xs \<Longrightarrow> xs ! i = [] \<Longrightarrow>
   sum_list (map length (xs[i := b])) = sum_list (map length xs) + length b"
  by (induction xs arbitrary: i) (auto split: nat.splits)

lemma filter_full: "length (filter id bs) = length bs \<longleftrightarrow> (\<forall>i < length bs. bs ! i)"
  using length_filter_less [of _ bs id] filter_True [of bs id] by (metis id_apply in_set_conv_nth nat_less_le)

lemma new_partial_ok: "partial_ok l (new_partial l' h now) \<and> partial_from H k (new_partial l' h now)"
  by (auto simp: partial_ok_def partial_from_def new_partial_def sum_list_replicate)

lemma store_fragment_ok:
  assumes ok: "partial_ok l p" and "limits_ok l" and i: "vid_fragment_index h < pf_fragment_count p"
    and new: "\<not> pf_received p ! unat (vid_fragment_index h)"
    and fits: "pf_total_bytes p + length body \<le> max_frame_bytes l"
  shows "partial_ok l (store_fragment h body p) \<and>
    pf_total_bytes (store_fragment h body p) = pf_total_bytes p + length body"
proof -
  let ?i = "unat (vid_fragment_index h)" and ?n = "unat (pf_fragment_count p)"
  have i': "?i < ?n" using i by (simp add: word_less_nat_alt)
  have cnt: "length (filter id ((pf_received p)[?i := True])) = Suc (unat (pf_received_count p))"
    using length_filter_update [of ?i "pf_received p"] ok new i' by (simp add: partial_ok_def)
  then have "Suc (unat (pf_received_count p)) \<le> ?n"
    using length_filter_le [of id "(pf_received p)[?i := True]"] ok by (simp add: partial_ok_def)
  moreover have "?n < 2 ^ 16" using unsigned_less [of "pf_fragment_count p"] by simp
  ultimately have "unat (pf_received_count p + 1) = Suc (unat (pf_received_count p))"
    by (simp add: unat_word_ariths)
  moreover have "sum_list (map length ((pf_fragments p)[?i := body])) = pf_total_bytes p + length body"
    using sum_update_empty [of ?i "pf_fragments p" body] ok new i' by (simp add: partial_ok_def)
  moreover have "wrap64 (pf_total_bytes p + length body) = pf_total_bytes p + length body"
    using fits assms(2) by (simp add: limits_ok_def)
  ultimately show ?thesis
    using ok cnt fits by (auto simp: partial_ok_def store_fragment_def Let_def nth_update_if)
qed

lemma store_fragment_from:
  assumes "partial_from H k p" and "(h, body) \<in> H" and "vid_frame_id h = k"
    and "vid_fragment_count h = pf_fragment_count p" and "vid_capture_time h = pf_capture_time p"
    and "partial_ok l p"
  shows "partial_from H k (store_fragment h body p)"
  using assms by (auto simp: partial_from_def partial_ok_def store_fragment_def Let_def nth_update_if)

lemma total_of_erase:
  "distinct (map fst xs) \<Longrightarrow> map_of xs k = Some p \<Longrightarrow> total_of xs = pf_total_bytes p + total_of (alist_erase k xs)"
  unfolding total_of_def by (rule sum_erase)

lemma total_of_modify:
  "distinct (map fst xs) \<Longrightarrow> map_of xs k = Some p \<Longrightarrow>
   total_of (alist_modify k (\<lambda>_. q) xs) = pf_total_bytes q + total_of (alist_erase k xs)"
  using total_of_erase [of "alist_modify k (\<lambda>_. q) xs" k q] by simp

lemma trim_completed_ok:
  "distinct order \<Longrightarrow> recent = set order \<Longrightarrow> case trim_completed order recent of (order', recent') \<Rightarrow>
   distinct order' \<and> recent' = set order' \<and> length order' \<le> 64 \<and> set order' \<subseteq> set order \<and>
   (\<exists>n. order' = drop n order)"
proof (induction order recent rule: trim_completed.induct)
  case (2 x xs recent)
  then show ?case
    by (auto split: prod.splits) (metis drop_Suc_Cons, metis drop0)
qed auto

text \<open>What a delivered frame is made of.\<close>

definition delivered_from :: "(video_header \<times> bytes) set \<Rightarrow> video_header \<Rightarrow> completed_frame \<Rightarrow> bool" where
  "delivered_from H h f \<longleftrightarrow> cf_frame_id f = vid_frame_id h \<and> cf_capture_time f = vid_capture_time h \<and>
     (\<exists>pieces. length pieces = unat (vid_fragment_count h) \<and> cf_payload f = concat pieces \<and>
        (\<forall>i < length pieces. \<exists>h'. (h', pieces ! i) \<in> H \<and> vid_frame_id h' = vid_frame_id h \<and>
           unat (vid_fragment_index h') = i \<and> vid_fragment_count h' = vid_fragment_count h \<and>
           vid_capture_time h' = vid_capture_time h))"

lemma full_partial_delivers:
  assumes "partial_ok l p" and "partial_from H k p" and "pf_received_count p = pf_fragment_count p"
    and "pf_fragment_count p = vid_fragment_count h" and "pf_capture_time p = vid_capture_time h"
    and "k = vid_frame_id h"
  shows "delivered_from H h (fst (complete_frame k p r))"
proof -
  have "\<forall>i < unat (pf_fragment_count p). pf_received p ! i"
    using filter_full [of "pf_received p"] assms(1,3) by (simp add: partial_ok_def)
  then show ?thesis
    using assms by (auto simp: delivered_from_def complete_frame_def partial_ok_def partial_from_def
        intro!: exI [of _ "pf_fragments p"])
qed

lemma complete_frame_inv:
  assumes inv: "limits_ok (ra_limits r)" "distinct (map fst (ra_frames r))"
      "alist_all (\<lambda>k p. partial_ok (ra_limits r) p \<and> partial_from H k p \<and>
         pf_received_count p \<noteq> pf_fragment_count p) (alist_erase k (ra_frames r))"
      "buffered_bytes (ra_stats r) = total_of (ra_frames r)"
      "buffered_bytes (ra_stats r) \<le> max_total_buffered_bytes (ra_limits r)"
      "length (ra_frames r) \<le> max_frames_in_flight (ra_limits r)"
      "distinct (ra_completed_order r)" "ra_completed_recent r = set (ra_completed_order r)"
    and p: "map_of (ra_frames r) k = Some p" and new: "k \<notin> ra_completed_recent r"
  shows "ra_inv H (snd (complete_frame k p r))"
proof -
  have "sub64 (buffered_bytes (ra_stats r)) (pf_total_bytes p) = total_of (alist_erase k (ra_frames r))"
    using total_of_erase [OF inv(2) p] inv(1,4,5) by (simp add: limits_ok_def)
  moreover have "total_of (alist_erase k (ra_frames r)) \<le> max_total_buffered_bytes (ra_limits r)"
    using total_of_erase [OF inv(2) p] inv(4,5) by simp
  moreover have "length (alist_erase k (ra_frames r)) \<le> max_frames_in_flight (ra_limits r)"
    using inv(6) length_erase_le [of k "ra_frames r"] by linarith
  ultimately show ?thesis
    using inv new trim_completed_ok [of "ra_completed_order r @ [k]" "insert k (ra_completed_recent r)"]
    by (auto simp: complete_frame_def remember_completed_def ra_inv_def split: prod.splits)
qed

text \<open>The steps of \<open>push\<close>, one lemma each; together they keep the invariant.\<close>

lemma stats_only_inv:
  "buffered_bytes st = buffered_bytes (ra_stats r) \<Longrightarrow> ra_inv H (r\<lparr>ra_stats := st\<rparr>) \<longleftrightarrow> ra_inv H r"
  by (simp add: ra_inv_def)

lemma drop_frame_inv:
  assumes inv: "ra_inv H r" and p: "map_of (ra_frames r) k = Some p"
  shows "ra_inv H (drop_frame k p b r)"
proof -
  have d: "distinct (map fst (ra_frames r))" using inv by (simp add: ra_inv_def)
  have "sub64 (buffered_bytes (ra_stats r)) (pf_total_bytes p) = total_of (alist_erase k (ra_frames r))"
    using total_of_erase [OF d p] inv by (simp add: ra_inv_def limits_ok_def)
  then show ?thesis
    using inv total_of_erase [OF d p] length_erase_le [of k "ra_frames r"]
    by (auto simp: drop_frame_def ra_inv_def Let_def alist_all_erase intro: le_trans)
qed

lemma push_into_inv:
  assumes inv: "ra_inv H r" and p: "map_of (ra_frames r) (vid_frame_id h) = Some p"
    and valid: "fragment_valid (ra_limits r) h body" and H: "(h, body) \<in> H"
    and new: "vid_frame_id h \<notin> ra_completed_recent r"
  shows "ra_inv H (snd (push_into (vid_frame_id h) p h body r)) \<and>
    (\<forall>f. snd (fst (push_into (vid_frame_id h) p h body r)) = Some f \<longrightarrow>
       delivered_from H h f \<and> cf_stream_id f = ra_stream_id r)"
proof -
  let ?k = "vid_frame_id h" and ?l = "ra_limits r" and ?st = "ra_stats r"
  let ?i = "unat (vid_fragment_index h)"
  let ?conflict = "pf_fragment_count p \<noteq> vid_fragment_count h \<or> pf_capture_time p \<noteq> vid_capture_time h"
  let ?big = "length body > max_frame_bytes ?l - min (pf_total_bytes p) (max_frame_bytes ?l) \<or>
     length body > max_total_buffered_bytes ?l - min (buffered_bytes ?st) (max_total_buffered_bytes ?l)"
  show ?thesis
  proof (cases "?conflict \<or> pf_received p ! ?i \<or> ?big")
    case True
    then show ?thesis
      using inv drop_frame_inv [OF inv p] by (auto simp: push_into_def Let_def stats_only_inv)
  next
    case False
    let ?q = "store_fragment h body p"
    let ?st' = "?st\<lparr>accepted_fragments := accepted_fragments ?st + 1,
        buffered_bytes := buffered_bytes ?st + length body,
        peak_buffered_bytes := max (peak_buffered_bytes ?st) (buffered_bytes ?st + length body)\<rparr>"
    let ?r = "r\<lparr>ra_frames := alist_modify ?k (\<lambda>_. ?q) (ra_frames r), ra_stats := ?st'\<rparr>"
    have r: "limits_ok ?l" "distinct (map fst (ra_frames r))" "buffered_bytes ?st = total_of (ra_frames r)"
        "buffered_bytes ?st \<le> max_total_buffered_bytes ?l"
        "alist_all (\<lambda>k p. partial_ok ?l p \<and> partial_from H k p \<and>
           pf_received_count p \<noteq> pf_fragment_count p) (ra_frames r)"
      using inv by (simp_all add: ra_inv_def)
    have ok: "partial_ok ?l p" "partial_from H ?k p" using alist_all_lookup [OF r(5) p] by blast+
    have room: "pf_total_bytes p + length body \<le> max_frame_bytes ?l"
      "buffered_bytes ?st + length body \<le> max_total_buffered_bytes ?l"
      using False ok(1) r(4) unfolding partial_ok_def by linarith+
    have idx: "vid_fragment_index h < pf_fragment_count p"
      using valid False by (auto simp: fragment_valid_def Let_def)
    have q: "partial_ok ?l ?q" "pf_total_bytes ?q = pf_total_bytes p + length body"
      using store_fragment_ok [OF ok(1) r(1) idx _ room(1)] False by blast+
    have qf: "partial_from H ?k ?q"
      by (rule store_fragment_from [OF ok(2) H refl _ _ ok(1)]) (use False in auto)
    have wrap: "wrap64 (buffered_bytes ?st + length body) = buffered_bytes ?st + length body"
      using room(2) r(1) by (simp add: limits_ok_def)
    have same: "pf_fragment_count ?q = pf_fragment_count p" "pf_capture_time ?q = pf_capture_time p"
      by (simp_all add: store_fragment_def Let_def)
    have sum: "buffered_bytes ?st + length body = total_of (alist_modify ?k (\<lambda>_. ?q) (ra_frames r))"
      using total_of_modify [OF r(2) p, of ?q] total_of_erase [OF r(2) p] r(3) q(2) by simp
    have push: "push_into ?k p h body r =
        (if pf_received_count ?q \<noteq> pf_fragment_count ?q then ((Frag_accepted, None), ?r)
         else case complete_frame ?k ?q ?r of (f, r') \<Rightarrow> ((Frame_complete, Some f), r'))"
      using False wrap by (simp add: push_into_def Let_def)
    show ?thesis
    proof (cases "pf_received_count ?q = pf_fragment_count ?q")
      case True
      have "ra_inv H (snd (complete_frame ?k ?q ?r))"
        by (rule complete_frame_inv)
          (use inv r new room(2) sum p in \<open>auto simp: ra_inv_def alist_all_erase\<close>)
      moreover have "delivered_from H h (fst (complete_frame ?k ?q ?r))"
        by (rule full_partial_delivers [OF q(1) qf True]) (use False same in auto)
      ultimately show ?thesis using True by (auto simp: push complete_frame_def split: prod.splits)
    next
      case part: False
      have "alist_all (\<lambda>k p. partial_ok ?l p \<and> partial_from H k p \<and>
          pf_received_count p \<noteq> pf_fragment_count p) (alist_modify ?k (\<lambda>_. ?q) (ra_frames r))"
        by (rule alist_all_modify [OF r(5)]) (use q(1) qf part in blast)
      then show ?thesis using part inv room(2) sum by (simp add: push ra_inv_def)
    qed
  qed
qed

lemma expire_loop_props:
  assumes "distinct (map fst xs)" and "buffered_bytes st = total_of xs + rest" and "buffered_bytes st < 2 ^ 64"
  shows "case expire_loop now xs st of (n, kept, st') \<Rightarrow>
    kept = filter (\<lambda>x. pf_deadline (snd x) > now) xs \<and> n = length xs - length kept \<and>
    buffered_bytes st' = total_of kept + rest"
  using assms
proof (induction xs arbitrary: st rest)
  case Nil
  then show ?case by (simp add: total_of_def)
next
  case (Cons x xs)
  show ?case
  proof (cases "pf_deadline (snd x) > now")
    case True
    then show ?thesis
      using Cons.IH [of st "rest + pf_total_bytes (snd x)"] Cons.prems
      by (auto simp: total_of_def split: prod.splits)
  next
    case False
    let ?st = "st\<lparr>buffered_bytes := sub64 (buffered_bytes st) (pf_total_bytes (snd x)),
        expired_incomplete_frames := expired_incomplete_frames st + 1\<rparr>"
    have b: "buffered_bytes ?st = total_of xs + rest"
      using Cons.prems by (simp add: total_of_def)
    then have "buffered_bytes ?st < 2 ^ 64" using Cons.prems by (simp add: total_of_def)
    from Cons.IH [OF _ b this] show ?thesis
      using False Cons.prems(1) length_filter_le [of "\<lambda>x. pf_deadline (snd x) > now" xs]
      by (auto simp: Suc_diff_le split: prod.splits)
  qed
qed

lemma total_of_filter: "total_of (filter P xs) \<le> total_of xs"
  by (induction xs) (auto simp: total_of_def)

lemma distinct_filter_fst: "distinct (map fst xs) \<Longrightarrow> distinct (map fst (filter P xs))"
  by (induction xs) auto

lemma expire_props:
  assumes inv: "ra_inv H r"
  shows "ra_inv H (snd (expire now r)) \<and>
    ra_frames (snd (expire now r)) = filter (\<lambda>x. pf_deadline (snd x) > now) (ra_frames r) \<and>
    ra_limits (snd (expire now r)) = ra_limits r \<and> ra_stream_id (snd (expire now r)) = ra_stream_id r \<and>
    ra_stream_set (snd (expire now r)) = ra_stream_set r \<and>
    ra_completed_recent (snd (expire now r)) = ra_completed_recent r"
proof -
  let ?kept = "filter (\<lambda>x. pf_deadline (snd x) > now) (ra_frames r)"
  have r: "distinct (map fst (ra_frames r))" "buffered_bytes (ra_stats r) = total_of (ra_frames r) + 0"
      "buffered_bytes (ra_stats r) < 2 ^ 64"
    using inv by (auto simp: ra_inv_def limits_ok_def)
  note e = expire_loop_props [OF r, of now]
  have "length ?kept \<le> max_frames_in_flight (ra_limits r)"
    using inv length_filter_le [of "\<lambda>x. pf_deadline (snd x) > now" "ra_frames r"] unfolding ra_inv_def by linarith
  moreover have "total_of ?kept \<le> max_total_buffered_bytes (ra_limits r)"
    using inv total_of_filter [of "\<lambda>x. pf_deadline (snd x) > now" "ra_frames r"] unfolding ra_inv_def by linarith
  moreover have "alist_all P (ra_frames r) \<Longrightarrow> alist_all P ?kept" for P
    by (rule alist_all_subset) auto
  ultimately show ?thesis
    using inv e by (auto simp: expire_def ra_inv_def distinct_filter_fst split: prod.splits)
qed

lemma push_props:
  assumes inv: "ra_inv H r" and H: "vid_stream_id h = ra_stream_id r \<Longrightarrow> (h, body) \<in> H"
  shows "ra_inv H (snd (push h body now r)) \<and>
    (\<forall>f. snd (fst (push h body now r)) = Some f \<longrightarrow>
       delivered_from H h f \<and> cf_stream_id f = ra_stream_id r \<and> vid_stream_id h = ra_stream_id r)"
proof -
  let ?e = "snd (expire now r)" and ?k = "vid_frame_id h"
  note e = expire_props [OF inv, of now]
  let ?p = "new_partial (ra_limits ?e) h now"
  let ?e' = "?e\<lparr>ra_frames := alist_emplace ?k ?p (ra_frames ?e)\<rparr>"
  let ?ok = "ra_stream_set ?e \<and> vid_stream_id h = ra_stream_id ?e \<and> fragment_valid (ra_limits ?e) h body \<and>
     ?k \<notin> ra_completed_recent ?e"
  show ?thesis
  proof (cases ?ok)
    case False
    then show ?thesis using e by (auto simp: push_def Let_def stats_only_inv)
  next
    case ok: True
    have Hh: "(h, body) \<in> H" using ok e H by simp
    show ?thesis
    proof (cases "map_of (ra_frames ?e) ?k")
      case (Some p)
      then show ?thesis using ok e Hh push_into_inv [of H ?e h p body] by (simp add: push_def Let_def)
    next
      case None
      show ?thesis
      proof (cases "length (ra_frames ?e) \<ge> max_frames_in_flight (ra_limits ?e)")
        case True
        then show ?thesis using ok None e by (simp add: push_def Let_def stats_only_inv)
      next
        case False
        have "pf_received_count ?p \<noteq> pf_fragment_count ?p" "pf_total_bytes ?p = 0"
          using ok by (auto simp: new_partial_def fragment_valid_def Let_def)
        then have "ra_inv H ?e'"
          using e False None new_partial_ok
          by (auto simp: ra_inv_def alist_all_emplace total_of_def alist_emplace_def)
             (auto simp: alist_all_def map_of_eq_None_iff)
        then show ?thesis
          using push_into_inv [of H ?e' h ?p body] ok None False e Hh by (simp add: push_def Let_def)
      qed
    qed
  qed
qed

section \<open>Runs\<close>

datatype ra_op = Push video_header bytes int | Expire int | Reset u32

fun ra_step :: "ra_op \<Rightarrow> reassembler \<Rightarrow> reassembler" where
  "ra_step (Push h body now) r = snd (push h body now r)"
| "ra_step (Expire now) r = snd (expire now r)"
| "ra_step (Reset stream) r = ra_reset stream r"

text \<open>The fragments of one stream among those pushed.\<close>

definition of_stream :: "(video_header \<times> bytes) set \<Rightarrow> u32 \<Rightarrow> (video_header \<times> bytes) set" where
  "of_stream H stream = {(h, body) \<in> H. vid_stream_id h = stream}"

definition pushed_in :: "(video_header \<times> bytes) set \<Rightarrow> ra_op \<Rightarrow> bool" where
  "pushed_in H a = (case a of Push h body now \<Rightarrow> (h, body) \<in> H | _ \<Rightarrow> True)"

lemma push_into_stream [simp]: "ra_stream_id (snd (push_into k p h body r)) = ra_stream_id r"
  by (auto simp: push_into_def Let_def drop_frame_def complete_frame_def remember_completed_def
      split: prod.splits)

lemma push_stream: "ra_stream_id (snd (push h body now r)) = ra_stream_id r"
  by (auto simp: push_def expire_def Let_def split: prod.splits option.splits)

interpretation reassembly: guarded_machine ra_step "pushed_in H" "\<lambda>r. ra_inv (of_stream H (ra_stream_id r)) r"
  for H
proof
  fix a :: ra_op and r
  assume a: "pushed_in H a" and inv: "ra_inv (of_stream H (ra_stream_id r)) r"
  show "ra_inv (of_stream H (ra_stream_id (ra_step a r))) (ra_step a r)"
  proof (cases a)
    case (Push h body now)
    then show ?thesis
      using push_props [OF inv, of h body now] a by (auto simp: push_stream of_stream_def pushed_in_def)
  next
    case (Expire now)
    then show ?thesis using expire_props [OF inv, of now] by simp
  next
    case (Reset stream)
    then show ?thesis
      using inv by (simp add: ra_inv_def ra_reset_def total_of_def zero_reassembly_stats_def alist_all_def)
  qed
qed

lemma ra_inv_mono: "ra_inv H r \<Longrightarrow> H \<subseteq> H' \<Longrightarrow> ra_inv H' r"
  unfolding ra_inv_def partial_from_def by (auto elim!: alist_all_mono) blast

lemma clamp_limits_range:
  "max_frame_bytes l < 2 ^ 64 \<Longrightarrow> max_total_buffered_bytes l < 2 ^ 64 \<Longrightarrow> limits_ok (clamp_limits l)"
  by (auto simp: limits_ok_def clamp_limits_def clamp_def Let_def)

lemma make_reassembler_inv:
  "max_frame_bytes l < 2 ^ 64 \<Longrightarrow> max_total_buffered_bytes l < 2 ^ 64 \<Longrightarrow> ra_inv H (make_reassembler l)"
  using clamp_limits_range
  by (simp add: make_reassembler_def ra_inv_def zero_reassembly_stats_def total_of_def alist_all_def)

lemma push_into_limits [simp]: "ra_limits (snd (push_into k p h body r)) = ra_limits r"
  by (auto simp: push_into_def Let_def drop_frame_def complete_frame_def remember_completed_def
      split: prod.splits)

lemma push_limits [simp]: "ra_limits (snd (push h body now r)) = ra_limits r"
  by (auto simp: push_def expire_def Let_def split: prod.splits option.splits)

lemma ra_step_limits [simp]: "ra_limits (ra_step a r) = ra_limits r"
  by (cases a) (auto simp: expire_def ra_reset_def split: prod.splits)

lemma ra_run_limits: "ra_limits (fold ra_step ops r) = ra_limits r"
  by (induction ops arbitrary: r) auto

text \<open>
  The reassembler's memory is bounded, whatever arrives: after any sequence of pushed
  fragments, expiries and resets, the byte account equals the bytes of the frames in flight,
  that sum is at most the configured total, no more frames are in flight than configured, each
  of them holds at most the configured frame size, and at most 64 completed frame numbers are
  remembered. In particular the subtractions on the account never wrap.
\<close>

theorem reassembly_bounded:
  assumes "max_frame_bytes l < 2 ^ 64" and "max_total_buffered_bytes l < 2 ^ 64"
    and "r = fold ra_step ops (make_reassembler l)"
  shows "buffered_bytes (ra_stats r) = sum_list (map (\<lambda>x. sum_list (map length (pf_fragments (snd x)))) (ra_frames r)) \<and>
    buffered_bytes (ra_stats r) \<le> max_total_buffered_bytes (clamp_limits l) \<and>
    frames_in_flight r \<le> max_frames_in_flight (clamp_limits l) \<and>
    list_all (\<lambda>x. sum_list (map length (pf_fragments (snd x))) \<le> max_frame_bytes (clamp_limits l)) (ra_frames r) \<and>
    length (ra_completed_order r) \<le> 64"
proof -
  have "list_all (pushed_in UNIV) ops"
    by (auto simp: list_all_iff pushed_in_def split: ra_op.splits)
  then have inv: "ra_inv (of_stream UNIV (ra_stream_id r)) r"
    unfolding assms(3) by (rule reassembly.guarded_run) (rule make_reassembler_inv [OF assms(1,2)])
  have lim: "ra_limits r = clamp_limits l" unfolding assms(3) ra_run_limits by (simp add: make_reassembler_def)
  have tot: "pf_total_bytes (snd x) = sum_list (map length (pf_fragments (snd x))) \<and>
      sum_list (map length (pf_fragments (snd x))) \<le> max_frame_bytes (clamp_limits l)"
    if "x \<in> set (ra_frames r)" for x
  proof -
    have "partial_ok (clamp_limits l) (snd x)"
      using inv that by (cases x) (fastforce simp: ra_inv_def alist_all_def lim)
    then show ?thesis by (auto simp: partial_ok_def)
  qed
  have "total_of (ra_frames r) = sum_list (map (\<lambda>x. sum_list (map length (pf_fragments (snd x)))) (ra_frames r))"
    unfolding total_of_def by (rule arg_cong [of _ _ sum_list], rule map_cong) (use tot in auto)
  then show ?thesis
    using inv tot by (auto simp: ra_inv_def lim frames_in_flight_def list_all_iff)
qed

definition demo_limits :: reassembly_limits where
  "demo_limits = \<lparr>max_frames_in_flight = 8, max_fragments_per_frame = 4096, max_fragment_payload = 1400,
     max_frame_bytes = 4194304, max_total_buffered_bytes = 8388608, frame_deadline = 150 * millisecond\<rparr>"

theorem reassembly_bounded_witness:
  "frames_in_flight (fold ra_step [Reset 7, Expire 3] (make_reassembler demo_limits)) \<le> 8"
  using reassembly_bounded [OF _ _ refl, of demo_limits "[Reset 7, Expire 3]"]
  by (simp add: demo_limits_def clamp_limits_def clamp_def)

text \<open>
  C27. Nothing is invented: whenever \<open>push\<close> delivers a frame after any history, its payload is the
  concatenation, in index order, of payloads that were pushed for exactly that frame of that
  stream: one for each index, each with the frame's number, capture time and fragment count.
\<close>

theorem delivered_frame_authentic:
  assumes "max_frame_bytes l < 2 ^ 64" and "max_total_buffered_bytes l < 2 ^ 64"
    and "snd (fst (push h body now (fold ra_step ops (make_reassembler l)))) = Some f"
  shows "\<exists>pieces. length pieces = unat (vid_fragment_count h) \<and> cf_payload f = concat pieces \<and>
    cf_frame_id f = vid_frame_id h \<and> cf_stream_id f = vid_stream_id h \<and>
    (\<forall>i < length pieces. \<exists>h' t. Push h' (pieces ! i) t \<in> set (ops @ [Push h body now]) \<and>
       vid_stream_id h' = vid_stream_id h \<and> vid_frame_id h' = vid_frame_id h \<and>
       unat (vid_fragment_index h') = i \<and> vid_fragment_count h' = vid_fragment_count h \<and>
       vid_capture_time h' = cf_capture_time f)"
proof -
  let ?H = "{(h', b). \<exists>t. Push h' b t \<in> set (ops @ [Push h body now])}"
  let ?r = "fold ra_step ops (make_reassembler l)"
  have "list_all (pushed_in ?H) ops"
    by (auto simp: list_all_iff pushed_in_def split: ra_op.splits)
  then have inv: "ra_inv (of_stream ?H (ra_stream_id ?r)) ?r"
    by (rule reassembly.guarded_run) (rule make_reassembler_inv [OF assms(1,2)])
  have "delivered_from (of_stream ?H (ra_stream_id ?r)) h f \<and> cf_stream_id f = ra_stream_id ?r \<and>
      vid_stream_id h = ra_stream_id ?r"
    using push_props [OF inv, of h body now] assms(3) by (auto simp: of_stream_def)
  then show ?thesis
    unfolding delivered_from_def of_stream_def by fastforce
qed

definition demo_header :: video_header where
  "demo_header = \<lparr>vid_version = 2, vid_flags = 3, vid_stream_id = 7, vid_packet_sequence = 0, vid_frame_id = 5,
     vid_fragment_index = 0, vid_fragment_count = 1, vid_payload_bytes = 2, vid_capture_time = 9\<rparr>"

lemma demo_push:
  "snd (fst (push demo_header [4, 2] 0 (fold ra_step [Reset 7] (make_reassembler demo_limits)))) =
   Some \<lparr>cf_stream_id = 7, cf_frame_id = 5, cf_capture_time = 9, cf_keyframe = True, cf_payload = [4, 2]\<rparr>"
proof -
  have "fragment_valid (clamp_limits demo_limits) demo_header [4, 2]"
    by (simp add: fragment_valid_def demo_header_def demo_limits_def clamp_limits_def clamp_def
        has_flag_def kVideoVersion_def flag_end_of_frame_def)
  then show ?thesis
    by (simp add: push_def push_into_def expire_def ra_reset_def make_reassembler_def demo_header_def
        new_partial_def store_fragment_def complete_frame_def alist_emplace_def zero_reassembly_stats_def
        has_flag_def flag_keyframe_def demo_limits_def clamp_limits_def clamp_def)
qed

theorem delivered_frame_authentic_witness:
  "\<exists>t. Push demo_header [4, 2] t \<in> set ([Reset 7] @ [Push demo_header [4, 2] 0]) \<and>
     cf_payload (the (snd (fst (push demo_header [4, 2] 0
       (fold ra_step [Reset 7] (make_reassembler demo_limits)))))) = [4, 2]"
  using delivered_frame_authentic [OF _ _ demo_push] unfolding demo_push
  by (auto simp: demo_limits_def)

section \<open>Delivery in any order\<close>

text \<open>The headers that carry the pieces of one frame, as the packetizer writes them.\<close>

definition frame_headers ::
    "u32 \<Rightarrow> u64 \<Rightarrow> u64 \<Rightarrow> bool \<Rightarrow> bytes list \<Rightarrow> (nat \<Rightarrow> video_header) \<Rightarrow> bool" where
  "frame_headers stream k cap key pieces hdr \<longleftrightarrow>
     (\<forall>i < length pieces. vid_version (hdr i) = kVideoVersion \<and> vid_stream_id (hdr i) = stream \<and>
        vid_frame_id (hdr i) = k \<and> vid_capture_time (hdr i) = cap \<and>
        vid_fragment_index (hdr i) = word_of_nat i \<and> vid_fragment_count (hdr i) = word_of_nat (length pieces) \<and>
        vid_payload_bytes (hdr i) = word_of_nat (length (pieces ! i)) \<and>
        has_flag (vid_flags (hdr i)) flag_keyframe = key \<and>
        has_flag (vid_flags (hdr i)) flag_end_of_frame = (Suc i = length pieces))"

definition pieces_fit :: "reassembly_limits \<Rightarrow> bytes list \<Rightarrow> bool" where
  "pieces_fit l pieces \<longleftrightarrow> pieces \<noteq> [] \<and> length pieces \<le> unat (max_fragments_per_frame l) \<and>
     (\<forall>b \<in> set pieces. b \<noteq> [] \<and> length b \<le> max_fragment_payload l \<and> length b < 2 ^ 32) \<and>
     sum_list (map length pieces) \<le> max_frame_bytes l"

definition holds_pieces :: "bytes list \<Rightarrow> u64 \<Rightarrow> bool \<Rightarrow> int \<Rightarrow> nat set \<Rightarrow> partial_frame \<Rightarrow> bool" where
  "holds_pieces pieces cap key d S p \<longleftrightarrow>
     pf_fragment_count p = word_of_nat (length pieces) \<and> pf_capture_time p = cap \<and> pf_keyframe p = key \<and>
     pf_deadline p = d \<and> (\<forall>i < length pieces. (pf_received p ! i \<longleftrightarrow> i \<in> S) \<and>
       (i \<in> S \<longrightarrow> pf_fragments p ! i = pieces ! i))"

definition awaiting ::
    "u32 \<Rightarrow> u64 \<Rightarrow> bytes list \<Rightarrow> u64 \<Rightarrow> bool \<Rightarrow> int \<Rightarrow> nat set \<Rightarrow> reassembler \<Rightarrow> bool" where
  "awaiting stream k pieces cap key d S r \<longleftrightarrow> ra_inv UNIV r \<and> ra_stream_set r \<and> ra_stream_id r = stream \<and>
     k \<notin> ra_completed_recent r \<and>
     (\<exists>p. map_of (ra_frames r) k = Some p \<and> holds_pieces pieces cap key d S p \<and>
        buffered_bytes (ra_stats r) + (sum_list (map length pieces) - pf_total_bytes p) \<le>
          max_total_buffered_bytes (ra_limits r))"

lemma pieces_count:
  assumes "pieces_fit l pieces"
  shows "unat (word_of_nat (length pieces) :: u16) = length pieces"
    and "i < length pieces \<Longrightarrow> unat (word_of_nat i :: u16) = i"
proof -
  have "length pieces < 2 ^ 16"
    using assms unsigned_less [of "max_fragments_per_frame l", where ?'a = nat] unfolding pieces_fit_def by simp
  then show "unat (word_of_nat (length pieces) :: u16) = length pieces"
    and "i < length pieces \<Longrightarrow> unat (word_of_nat i :: u16) = i"
    by (simp_all add: unat_of_nat)
qed

lemma frame_fragment_valid:
  assumes fit: "pieces_fit l pieces" and hdr: "frame_headers stream k cap key pieces hdr" and i: "i < length pieces"
  shows "fragment_valid l (hdr i) (pieces ! i)"
proof -
  have h: "vid_version (hdr i) = kVideoVersion" "vid_fragment_index (hdr i) = word_of_nat i"
      "vid_fragment_count (hdr i) = word_of_nat (length pieces)"
      "vid_payload_bytes (hdr i) = word_of_nat (length (pieces ! i))"
      "has_flag (vid_flags (hdr i)) flag_end_of_frame = (Suc i = length pieces)"
    using hdr i unfolding frame_headers_def by blast+
  have b: "pieces ! i \<noteq> []" "length (pieces ! i) \<le> max_fragment_payload l" "length (pieces ! i) < 2 ^ 32"
    "length pieces \<le> unat (max_fragments_per_frame l)"
    using fit i nth_mem [OF i] unfolding pieces_fit_def by blast+
  note n = pieces_count(1) [OF fit] pieces_count(2) [OF fit i]
  let ?n = "word_of_nat (length pieces) :: u16"
  have nz: "?n \<noteq> 0" using n(1) i by (metis less_nat_zero_code unat_0)
  have "unat (?n - 1) = length pieces - 1" using n(1) nz by (simp add: unat_minus_one)
  then have last: "word_of_nat i = ?n - 1 \<longleftrightarrow> Suc i = length pieces"
    using n(2) i by (auto simp: word_unat_eq_iff)
  have pb: "unat (word_of_nat (length (pieces ! i)) :: u32) = length (pieces ! i)"
    using b(3) by (simp add: unat_of_nat)
  have le: "\<not> ?n > max_fragments_per_frame l" "\<not> word_of_nat i \<ge> ?n"
    using b(4) n i by (simp_all add: word_less_nat_alt word_le_nat_alt)
  show ?thesis unfolding fragment_valid_def Let_def h using nz last pb le b(1,2) by auto
qed

lemma total_with_piece:
  assumes ok: "partial_ok l p" and h: "holds_pieces pieces cap key d S p" and fit: "pieces_fit l pieces"
    and i: "i < length pieces" "i \<notin> S"
  shows "pf_total_bytes p + length (pieces ! i) \<le> sum_list (map length pieces)"
proof -
  note n = pieces_count(1) [OF fit]
  have len: "length (pf_fragments p) = length pieces" using ok h n by (simp add: partial_ok_def holds_pieces_def)
  have "pf_fragments p ! i = []" using ok h n i by (simp add: partial_ok_def holds_pieces_def)
  then have "pf_total_bytes p + length (pieces ! i) = sum_list (map length ((pf_fragments p)[i := pieces ! i]))"
    using sum_update_empty [of i "pf_fragments p" "pieces ! i"] ok len i by (simp add: partial_ok_def)
  also have "\<dots> \<le> sum_list (map length pieces)"
  proof (rule sum_list_mono2, simp add: len, intro allI impI)
    fix j assume "j < length (map length ((pf_fragments p)[i := pieces ! i]))"
    then show "map length ((pf_fragments p)[i := pieces ! i]) ! j \<le> map length pieces ! j"
      using ok h n len by (cases "j \<in> S") (auto simp: partial_ok_def holds_pieces_def nth_update_if)
  qed
  finally show ?thesis .
qed

lemma pieces_full:
  assumes ok: "partial_ok l p" and h: "holds_pieces pieces cap key d S p" and fit: "pieces_fit l pieces"
  shows "pf_received_count p = pf_fragment_count p \<longleftrightarrow> {..< length pieces} \<subseteq> S"
proof -
  note n = pieces_count(1) [OF fit]
  have len: "length (pf_received p) = length pieces"
    and cnt: "unat (pf_received_count p) = length (filter id (pf_received p))"
    and fc: "unat (pf_fragment_count p) = length pieces"
    using ok h n unfolding partial_ok_def holds_pieces_def by simp_all
  have "pf_received_count p = pf_fragment_count p \<longleftrightarrow> length (filter id (pf_received p)) = length (pf_received p)"
    unfolding word_unat_eq_iff cnt fc len ..
  also have "\<dots> \<longleftrightarrow> (\<forall>i < length pieces. pf_received p ! i)"
    using filter_full [of "pf_received p"] unfolding len .
  also have "\<dots> \<longleftrightarrow> {..< length pieces} \<subseteq> S" using h unfolding holds_pieces_def by auto
  finally show ?thesis .
qed

lemma pieces_payload:
  assumes ok: "partial_ok l p" and h: "holds_pieces pieces cap key d S p" and fit: "pieces_fit l pieces"
    and all: "{..< length pieces} \<subseteq> S"
  shows "pf_fragments p = pieces"
  by (rule nth_equalityI)
    (use ok h all pieces_count(1) [OF fit] in \<open>auto simp: partial_ok_def holds_pieces_def\<close>)

lemma push_into_piece:
  assumes aw: "awaiting stream k pieces cap key d S r" and hdr: "frame_headers stream k cap key pieces hdr"
    and fit: "pieces_fit (ra_limits r) pieces" and i: "i < length pieces" "i \<notin> S"
    and p: "map_of (ra_frames r) k = Some p"
  shows "if {..< length pieces} \<subseteq> insert i S
    then fst (push_into k p (hdr i) (pieces ! i) r) =
      (Frame_complete, Some \<lparr>cf_stream_id = stream, cf_frame_id = k, cf_capture_time = cap,
         cf_keyframe = key, cf_payload = concat pieces\<rparr>)
    else fst (push_into k p (hdr i) (pieces ! i) r) = (Frag_accepted, None) \<and>
      awaiting stream k pieces cap key d (insert i S) (snd (push_into k p (hdr i) (pieces ! i) r))"
proof -
  let ?l = "ra_limits r" and ?st = "ra_stats r" and ?h = "hdr i" and ?b = "pieces ! i"
  let ?q = "store_fragment ?h ?b p" and ?tot = "sum_list (map length pieces)"
  note n = pieces_count(1) [OF fit] pieces_count(2) [OF fit i(1)]
  have inv: "ra_inv UNIV r" and hp: "holds_pieces pieces cap key d S p" and
      late: "k \<notin> ra_completed_recent r" and str: "ra_stream_id r = stream" and
      space: "buffered_bytes ?st + (?tot - pf_total_bytes p) \<le> max_total_buffered_bytes ?l"
    using aw p unfolding awaiting_def by auto
  have ok: "partial_ok ?l p" and lim: "limits_ok ?l"
    using inv alist_all_lookup [OF _ p] unfolding ra_inv_def by blast+
  have h: "vid_frame_id ?h = k" "vid_fragment_index ?h = word_of_nat i" "vid_capture_time ?h = cap"
      "vid_fragment_count ?h = word_of_nat (length pieces)" "has_flag (vid_flags ?h) flag_keyframe = key"
    using hdr i(1) unfolding frame_headers_def by blast+
  have tot: "pf_total_bytes p + length ?b \<le> ?tot" by (rule total_with_piece [OF ok hp fit i])
  have room: "pf_total_bytes p + length ?b \<le> max_frame_bytes ?l"
    "buffered_bytes ?st + length ?b \<le> max_total_buffered_bytes ?l"
    using tot fit space unfolding pieces_fit_def by linarith+
  have rcv: "\<not> pf_received p ! i" using hp i unfolding holds_pieces_def by blast
  have q: "partial_ok ?l ?q" "pf_total_bytes ?q = pf_total_bytes p + length ?b"
    using store_fragment_ok [OF ok lim _ _ room(1), of ?h] h(2) n hp rcv i
    by (simp_all add: holds_pieces_def word_less_nat_alt)
  have hq: "holds_pieces pieces cap key d (insert i S) ?q"
    using hp ok n h i by (auto simp: holds_pieces_def store_fragment_def partial_ok_def nth_update_if Let_def)
  note full = pieces_full [OF q(1) hq fit] and pay = pieces_payload [OF q(1) hq fit]
  let ?st' = "?st\<lparr>accepted_fragments := accepted_fragments ?st + 1,
      buffered_bytes := wrap64 (buffered_bytes ?st + length ?b),
      peak_buffered_bytes := max (peak_buffered_bytes ?st) (wrap64 (buffered_bytes ?st + length ?b))\<rparr>"
  let ?r = "r\<lparr>ra_frames := alist_modify k (\<lambda>_. ?q) (ra_frames r), ra_stats := ?st'\<rparr>"
  have "\<not> (length ?b > max_frame_bytes ?l - min (pf_total_bytes p) (max_frame_bytes ?l) \<or>
      length ?b > max_total_buffered_bytes ?l - min (buffered_bytes ?st) (max_total_buffered_bytes ?l))"
    using room by linarith
  moreover have "pf_fragment_count p = vid_fragment_count ?h" "pf_capture_time p = vid_capture_time ?h"
    using hp h by (simp_all add: holds_pieces_def)
  ultimately have push: "push_into k p ?h ?b r =
      (if pf_received_count ?q \<noteq> pf_fragment_count ?q then ((Frag_accepted, None), ?r)
       else case complete_frame k ?q ?r of (f, r') \<Rightarrow> ((Frame_complete, Some f), r'))"
    using rcv h(2) n(2) by (simp add: push_into_def Let_def)
  have wrap: "wrap64 (buffered_bytes ?st + length ?b) = buffered_bytes ?st + length ?b"
    using room(2) lim by (simp add: limits_ok_def)
  have inv': "ra_inv UNIV (snd (push_into k p ?h ?b r))"
    using push_into_inv [OF inv, of ?h p ?b] p frame_fragment_valid [OF fit hdr i(1)] late h(1) by simp
  show ?thesis
  proof (cases "{..< length pieces} \<subseteq> insert i S")
    case True
    have "pf_capture_time ?q = cap" "pf_keyframe ?q = key" using hq by (simp_all add: holds_pieces_def)
    then show ?thesis using True full pay str by (simp add: push complete_frame_def)
  next
    case False
    then have push': "push_into k p ?h ?b r = ((Frag_accepted, None), ?r)" using full push by simp
    have "buffered_bytes ?st + length ?b + (?tot - pf_total_bytes ?q) \<le> max_total_buffered_bytes ?l"
      using space tot q(2) by linarith
    then show ?thesis
      using False inv' aw p hq wrap unfolding push' by (simp add: awaiting_def)
  qed
qed

text \<open>From here on a whole frame: the first fragment opens it, the others find it open.\<close>

lemma map_of_filter_keep:
  "distinct (map fst xs) \<Longrightarrow> map_of xs k = Some v \<Longrightarrow> P (k, v) \<Longrightarrow> map_of (filter P xs) k = Some v"
  by (simp add: map_of_eq_Some_iff distinct_filter_fst)

lemma map_of_filter_absent: "map_of xs k = None \<Longrightarrow> map_of (filter P xs) k = None"
  by (auto simp: map_of_eq_None_iff)

lemma awaiting_expire:
  assumes aw: "awaiting stream k pieces cap key d S r" and "now < d"
  shows "awaiting stream k pieces cap key d S (snd (expire now r))"
proof -
  have inv: "ra_inv UNIV r" using aw unfolding awaiting_def by blast
  note e = expire_props [OF inv, of now]
  obtain p where p: "map_of (ra_frames r) k = Some p" "holds_pieces pieces cap key d S p"
      "buffered_bytes (ra_stats r) + (sum_list (map length pieces) - pf_total_bytes p) \<le>
         max_total_buffered_bytes (ra_limits r)"
    using aw unfolding awaiting_def by blast
  have "map_of (ra_frames (snd (expire now r))) k = Some p"
    using map_of_filter_keep [OF _ p(1)] inv e p(2) assms(2) by (simp add: ra_inv_def holds_pieces_def)
  moreover have "buffered_bytes (ra_stats (snd (expire now r))) \<le> buffered_bytes (ra_stats r)"
    using e inv total_of_filter [of "\<lambda>x. pf_deadline (snd x) > now" "ra_frames r"] by (simp add: ra_inv_def)
  ultimately show ?thesis using aw e p unfolding awaiting_def by fastforce
qed

lemma push_piece:
  assumes aw: "awaiting stream k pieces cap key d S r" and hdr: "frame_headers stream k cap key pieces hdr"
    and fit: "pieces_fit (ra_limits r) pieces" and i: "i < length pieces" "i \<notin> S" and now: "now < d"
  shows "if {..< length pieces} \<subseteq> insert i S
    then fst (push (hdr i) (pieces ! i) now r) =
      (Frame_complete, Some \<lparr>cf_stream_id = stream, cf_frame_id = k, cf_capture_time = cap,
         cf_keyframe = key, cf_payload = concat pieces\<rparr>)
    else fst (push (hdr i) (pieces ! i) now r) = (Frag_accepted, None) \<and>
      awaiting stream k pieces cap key d (insert i S) (snd (push (hdr i) (pieces ! i) now r))"
proof -
  let ?e = "snd (expire now r)"
  have e: "awaiting stream k pieces cap key d S ?e" by (rule awaiting_expire [OF aw now])
  have lim: "ra_limits ?e = ra_limits r" using expire_props [of UNIV r now] aw unfolding awaiting_def by blast
  obtain p where p: "map_of (ra_frames ?e) k = Some p" using e unfolding awaiting_def by blast
  have "vid_frame_id (hdr i) = k" "vid_stream_id (hdr i) = stream"
    using hdr i(1) unfolding frame_headers_def by blast+
  then have "push (hdr i) (pieces ! i) now r = push_into k p (hdr i) (pieces ! i) ?e"
    using e p frame_fragment_valid [OF fit hdr i(1)] lim by (simp add: push_def Let_def awaiting_def)
  then show ?thesis using push_into_piece [OF e hdr _ i p] fit lim by simp
qed

lemma push_first_piece:
  assumes inv: "ra_inv UNIV r" and "ra_stream_set r" "ra_stream_id r = stream"
    and hdr: "frame_headers stream k cap key pieces hdr" and fit: "pieces_fit (ra_limits r) pieces"
    and new: "map_of (ra_frames r) k = None" "k \<notin> ra_completed_recent r"
    and room: "length (ra_frames r) < max_frames_in_flight (ra_limits r)"
      "buffered_bytes (ra_stats r) + sum_list (map length pieces) \<le> max_total_buffered_bytes (ra_limits r)"
    and i: "i < length pieces"
  shows "if {..< length pieces} \<subseteq> {i}
    then fst (push (hdr i) (pieces ! i) now r) =
      (Frame_complete, Some \<lparr>cf_stream_id = stream, cf_frame_id = k, cf_capture_time = cap,
         cf_keyframe = key, cf_payload = concat pieces\<rparr>)
    else fst (push (hdr i) (pieces ! i) now r) = (Frag_accepted, None) \<and>
      awaiting stream k pieces cap key (now + frame_deadline (ra_limits r)) {i}
        (snd (push (hdr i) (pieces ! i) now r))"
proof -
  let ?e = "snd (expire now r)" and ?p = "new_partial (ra_limits r) (hdr i) now"
  let ?r = "?e\<lparr>ra_frames := alist_emplace k ?p (ra_frames ?e)\<rparr>"
  note e = expire_props [OF inv, of now]
  have h: "vid_frame_id (hdr i) = k" "vid_stream_id (hdr i) = stream" "vid_capture_time (hdr i) = cap"
      "vid_fragment_count (hdr i) = word_of_nat (length pieces)" "has_flag (vid_flags (hdr i)) flag_keyframe = key"
    using hdr i unfolding frame_headers_def by blast+
  have fresh: "map_of (ra_frames ?e) k = None" using e map_of_filter_absent [OF new(1)] by simp
  have len: "length (ra_frames ?e) < max_frames_in_flight (ra_limits ?e)"
    using e le_less_trans [OF length_filter_le [of "\<lambda>x. pf_deadline (snd x) > now" "ra_frames r"] room(1)] by simp
  have buf: "buffered_bytes (ra_stats ?e) \<le> buffered_bytes (ra_stats r)"
    using e inv total_of_filter [of "\<lambda>x. pf_deadline (snd x) > now" "ra_frames r"] by (simp add: ra_inv_def)
  have valid: "fragment_valid (ra_limits r) (hdr i) (pieces ! i)" by (rule frame_fragment_valid [OF fit hdr i])
  have push: "push (hdr i) (pieces ! i) now r = push_into k ?p (hdr i) (pieces ! i) ?r"
    using e fresh len valid assms(2,3) new(2) h by (simp add: push_def Let_def)
  have "pf_received_count ?p \<noteq> pf_fragment_count ?p" "pf_total_bytes ?p = 0"
    using valid by (auto simp: new_partial_def fragment_valid_def Let_def)
  then have "ra_inv UNIV ?r"
    using e len fresh new_partial_ok
    by (auto simp: ra_inv_def alist_all_emplace total_of_def alist_emplace_def)
       (auto simp: alist_all_def map_of_eq_None_iff)
  moreover have "holds_pieces pieces cap key (now + frame_deadline (ra_limits r)) {} ?p"
    using h pieces_count(1) [OF fit] by (simp add: holds_pieces_def new_partial_def)
  ultimately have "awaiting stream k pieces cap key (now + frame_deadline (ra_limits r)) {} ?r"
    using e assms(2,3) new(2) fresh buf room(2) by (simp add: awaiting_def new_partial_def)
  from push_into_piece [OF this hdr, of i ?p] show ?thesis
    using fit e i fresh unfolding push by simp
qed

fun push_all :: "(video_header \<times> bytes \<times> int) list \<Rightarrow> reassembler \<Rightarrow>
    (fragment_disposition \<times> completed_frame option) list" where
  "push_all [] r = []"
| "push_all ((h, body, now) # ps) r = fst (push h body now r) # push_all ps (snd (push h body now r))"

lemma push_pieces:
  assumes "awaiting stream k pieces cap key d S r" and hdr: "frame_headers stream k cap key pieces hdr"
    and "pieces_fit (ra_limits r) pieces" and "distinct (map fst its)"
    and "fst ` set its = {..< length pieces} - S" and "its \<noteq> []" and "\<forall>(i, t) \<in> set its. t < d"
  shows "push_all (map (\<lambda>(i, t). (hdr i, pieces ! i, t)) its) r =
    replicate (length its - 1) (Frag_accepted, None) @
    [(Frame_complete, Some \<lparr>cf_stream_id = stream, cf_frame_id = k, cf_capture_time = cap,
        cf_keyframe = key, cf_payload = concat pieces\<rparr>)]"
  using assms
proof (induction its arbitrary: S r)
  case (Cons it its)
  obtain i t where it: "it = (i, t)" by (cases it)
  have i: "i < length pieces" "i \<notin> S" "t < d" using Cons.prems(5,7) it by auto
  let ?r = "snd (push (hdr i) (pieces ! i) t r)"
  note p = push_piece [OF Cons.prems(1) hdr Cons.prems(3) i]
  have rest: "fst ` set its = {..< length pieces} - insert i S" using Cons.prems(4,5) it by auto
  show ?case
  proof (cases "its = []")
    case True
    then show ?thesis using p rest it by auto
  next
    case False
    then have nf: "\<not> {..< length pieces} \<subseteq> insert i S"
      using rest by (metis Diff_eq_empty_iff image_is_empty set_empty)
    then have "awaiting stream k pieces cap key d (insert i S) ?r" "fst (push (hdr i) (pieces ! i) t r) = (Frag_accepted, None)"
      using p by auto
    then show ?thesis
      using Cons.IH [of "insert i S" ?r] Cons.prems(3,4,7) hdr rest False it
      by (cases its) auto
  qed
qed simp

text \<open>What a reassembler needs in order to take a new frame of the given size.\<close>

definition ready_for :: "u32 \<Rightarrow> u64 \<Rightarrow> bytes list \<Rightarrow> reassembler \<Rightarrow> bool" where
  "ready_for stream k pieces r \<longleftrightarrow> ra_inv UNIV r \<and> ra_stream_set r \<and> ra_stream_id r = stream \<and>
     map_of (ra_frames r) k = None \<and> k \<notin> ra_completed_recent r \<and> pieces_fit (ra_limits r) pieces \<and>
     length (ra_frames r) < max_frames_in_flight (ra_limits r) \<and>
     buffered_bytes (ra_stats r) + sum_list (map length pieces) \<le> max_total_buffered_bytes (ra_limits r)"

lemma reassembles_in_any_order:
  assumes ready: "ready_for stream k pieces r" and hdr: "frame_headers stream k cap key pieces hdr"
    and perm: "distinct (map fst its)" "fst ` set its = {..< length pieces}"
    and time: "\<forall>(i, t) \<in> set its. t < snd (hd its) + frame_deadline (ra_limits r)"
  shows "push_all (map (\<lambda>(i, t). (hdr i, pieces ! i, t)) its) r =
    replicate (length pieces - 1) (Frag_accepted, None) @
    [(Frame_complete, Some \<lparr>cf_stream_id = stream, cf_frame_id = k, cf_capture_time = cap,
        cf_keyframe = key, cf_payload = concat pieces\<rparr>)]"
proof -
  have r: "ra_inv UNIV r" "ra_stream_set r" "ra_stream_id r = stream" "pieces_fit (ra_limits r) pieces"
      "map_of (ra_frames r) k = None" "k \<notin> ra_completed_recent r"
      "length (ra_frames r) < max_frames_in_flight (ra_limits r)"
      "buffered_bytes (ra_stats r) + sum_list (map length pieces) \<le> max_total_buffered_bytes (ra_limits r)"
    using ready unfolding ready_for_def by blast+
  have len: "length its = length pieces" using distinct_card [OF perm(1)] perm(2) by simp
  have "its \<noteq> []" using r(4) len unfolding pieces_fit_def by auto
  then obtain i t its' where its: "its = (i, t) # its'" by (cases its) auto
  have i: "i < length pieces" using perm(2) its by auto
  have rest: "distinct (map fst its')" "fst ` set its' = {..< length pieces} - {i}" using perm its by auto
  note p = push_first_piece [OF r(1-3) hdr r(4-8) i, of t]
  show ?thesis
  proof (cases "its' = []")
    case True
    then show ?thesis using p rest(2) its len by auto
  next
    case False
    then have "\<not> {..< length pieces} \<subseteq> {i}"
      using rest(2) by (metis Diff_eq_empty_iff image_is_empty set_empty)
    then have "fst (push (hdr i) (pieces ! i) t r) = (Frag_accepted, None)"
        "awaiting stream k pieces cap key (t + frame_deadline (ra_limits r)) {i} (snd (push (hdr i) (pieces ! i) t r))"
      using p by auto
    then show ?thesis
      using push_pieces [OF _ hdr _ rest _ , of _ "snd (push (hdr i) (pieces ! i) t r)"] False r(4) time its len
      by (cases its') (auto simp: replicate_append_same simp flip: replicate_Suc)
  qed
qed

end
