(* ===== verification/VideoTransport.thy ===== *)
theory VideoTransport
  imports Auth FrameReassembler
begin

text \<open>
  The video transport of \<^verbatim>\<open>common/src/video_transport.cpp\<close>: the packetizer that cuts an access
  unit into authenticated datagrams, the datagram decoder, the jitter buffer, the NACK policy
  with its wire format and the keyframe scheduler. The optional error string of the C++
  functions is the left component of a sum. The HMAC primitive is the parameter \<open>bcrypt\<close>.
  Times are integers in nanoseconds; \<open>std::map\<close> is an association list in key order.

  Shown: an access unit that is packetized, sent and received in any order is delivered
  unchanged; the jitter buffer releases frames in strictly increasing order and not before
  their time; a frame is asked for again a bounded number of times; the NACK message is a
  strict codec; keyframes keep their minimal distance and are due at the maximal one.
\<close>

section \<open>Datagrams and packetizer\<close>

record video_datagram =
  vd_header :: video_header
  vd_tag :: bytes
  vd_payload :: bytes

definition wire :: "video_datagram \<Rightarrow> bytes" where
  "wire d =
     (if unat (vid_payload_bytes (vd_header d)) \<noteq> length (vd_payload d) then []
      else encode_video_header (vd_header d) @ vd_tag d @ vd_payload d)"

record packetizer =
  pk_maximum_datagram_bytes :: nat
  pk_maximum_fragments :: u16
  pk_stream_id :: u32
  pk_next_packet_sequence :: u64
  pk_next_frame_id :: u64
  pk_initialized :: bool

definition make_packetizer :: "nat \<Rightarrow> u16 \<Rightarrow> packetizer" where
  "make_packetizer maximum_datagram_bytes maximum_fragments =
     (let minimum = kVideoHeaderBytes + kVideoAuthTagBytes + 1
      in \<lparr>pk_maximum_datagram_bytes = clamp maximum_datagram_bytes minimum 65507,
          pk_maximum_fragments = clamp maximum_fragments 1 16384, pk_stream_id = 0,
          pk_next_packet_sequence = 0, pk_next_frame_id = 0, pk_initialized = False\<rparr>)"

definition pk_reset :: "u32 \<Rightarrow> u64 \<Rightarrow> u64 \<Rightarrow> packetizer \<Rightarrow> packetizer" where
  "pk_reset stream_id first_sequence first_frame pk =
     pk\<lparr>pk_stream_id := stream_id, pk_next_packet_sequence := first_sequence,
        pk_next_frame_id := first_frame, pk_initialized := (stream_id \<noteq> 0)\<rparr>"

definition fragment_header :: "packetizer \<Rightarrow> u64 \<Rightarrow> bool \<Rightarrow> nat \<Rightarrow> nat \<Rightarrow> nat \<Rightarrow> video_header" where
  "fragment_header pk cap keyframe count index amount =
     \<lparr>vid_version = kVideoVersion,
      vid_flags = (let flags = (if keyframe then flag_keyframe else 0)
                   in if index + 1 = count then flags OR flag_end_of_frame else flags),
      vid_stream_id = pk_stream_id pk,
      vid_packet_sequence = pk_next_packet_sequence pk + word_of_nat index,
      vid_frame_id = pk_next_frame_id pk, vid_fragment_index = word_of_nat index,
      vid_fragment_count = word_of_nat count, vid_payload_bytes = word_of_nat amount,
      vid_capture_time = cap\<rparr>"

text \<open>The fragment loop: \<open>n\<close> fragments are left, the next one is \<open>index\<close> at \<open>offset\<close>.\<close>

primrec packetize_loop ::
    "(bytes \<Rightarrow> bytes \<Rightarrow> bytes option) \<Rightarrow> bytes \<Rightarrow> packetizer \<Rightarrow> bytes \<Rightarrow> u64 \<Rightarrow> bool \<Rightarrow> nat \<Rightarrow> nat \<Rightarrow>
     nat \<Rightarrow> nat \<Rightarrow> nat \<Rightarrow> string + video_datagram list" where
  "packetize_loop bcrypt key pk unit cap keyframe limit count 0 index offset = Inr []"
| "packetize_loop bcrypt key pk unit cap keyframe limit count (Suc n) index offset =
     (let amount = min limit (length unit - offset);
          h = fragment_header pk cap keyframe count index amount;
          body = take amount (drop offset unit)
      in case compute_video_auth_tag bcrypt key h body of
           None \<Rightarrow> Inl ''video authentication tag generation failed''
         | Some tag \<Rightarrow>
             (case packetize_loop bcrypt key pk unit cap keyframe limit count n (index + 1) (offset + amount) of
                Inl e \<Rightarrow> Inl e
              | Inr ds \<Rightarrow> Inr (\<lparr>vd_header = h, vd_tag = tag, vd_payload = body\<rparr> # ds)))"

definition packetize ::
    "(bytes \<Rightarrow> bytes \<Rightarrow> bytes option) \<Rightarrow> bytes \<Rightarrow> u64 \<Rightarrow> bool \<Rightarrow> bytes \<Rightarrow> packetizer \<Rightarrow>
     (string + video_datagram list) \<times> packetizer" where
  "packetize bcrypt access_unit cap keyframe authentication_key pk =
     (if \<not> pk_initialized pk \<or> access_unit = [] \<or> length authentication_key < kMinimumProtocolKeyBytes
      then (Inl ''invalid packetizer input'', pk)
      else let payload_limit = pk_maximum_datagram_bytes pk - kVideoHeaderBytes - kVideoAuthTagBytes;
               fragment_count = (length access_unit + payload_limit - 1) div payload_limit in
        if fragment_count = 0 \<or> fragment_count > unat (pk_maximum_fragments pk) \<or>
           fragment_count > 2 ^ 16 - 1 \<or>
           fragment_count - 1 > u64_max - unat (pk_next_packet_sequence pk)
        then (Inl ''access unit exceeds packetizer limits'', pk)
        else if pk_next_frame_id pk = -1 then (Inl ''frame ID space is exhausted'', pk)
        else case packetize_loop bcrypt authentication_key pk access_unit cap keyframe payload_limit
                    fragment_count fragment_count 0 0 of
               Inl e \<Rightarrow> (Inl e, pk)
             | Inr datagrams \<Rightarrow>
                 (Inr datagrams,
                  pk\<lparr>pk_next_packet_sequence := pk_next_packet_sequence pk + word_of_nat fragment_count,
                     pk_next_frame_id := pk_next_frame_id pk + 1\<rparr>))"

definition decode_video_datagram ::
    "(bytes \<Rightarrow> bytes \<Rightarrow> bytes option) \<Rightarrow> bytes \<Rightarrow> bytes \<Rightarrow> string + video_datagram" where
  "decode_video_datagram bcrypt authentication_key w =
     (let overhead = kVideoHeaderBytes + kVideoAuthTagBytes in
      if length w \<le> overhead \<or> length w > 65507 then Inl ''invalid video datagram length''
      else case decode_video_header (take kVideoHeaderBytes w) of
             None \<Rightarrow> Inl ''invalid video datagram header''
           | Some h \<Rightarrow>
               if unat (vid_payload_bytes h) \<noteq> length w - overhead then Inl ''invalid video datagram header''
               else let tag = take kVideoAuthTagBytes (drop kVideoHeaderBytes w);
                        body = drop overhead w
                    in if \<not> verify_video_auth_tag bcrypt authentication_key h body tag
                       then Inl ''video datagram authentication failed''
                       else Inr \<lparr>vd_header = h, vd_tag = tag, vd_payload = body\<rparr>)"

section \<open>Jitter buffer\<close>

record jitter_buffer =
  jb_target_delay :: int
  jb_maximum_frames :: nat
  jb_stream_id :: u32
  jb_stream_set :: bool
  jb_last_released :: "u64 option"
  jb_frames :: "(u64 \<times> (completed_frame \<times> int)) list"
  jb_accepted :: u64
  jb_duplicate :: u64
  jb_late :: u64
  jb_resource_dropped :: u64
  jb_released :: u64

definition make_jitter_buffer :: "int \<Rightarrow> nat \<Rightarrow> jitter_buffer" where
  "make_jitter_buffer target_delay maximum_frames =
     \<lparr>jb_target_delay = clamp target_delay millisecond (1000 * millisecond),
      jb_maximum_frames = clamp maximum_frames 2 256, jb_stream_id = 0, jb_stream_set = False,
      jb_last_released = None, jb_frames = [], jb_accepted = 0, jb_duplicate = 0, jb_late = 0,
      jb_resource_dropped = 0, jb_released = 0\<rparr>"

definition jb_reset :: "u32 \<Rightarrow> jitter_buffer \<Rightarrow> jitter_buffer" where
  "jb_reset stream_id j = j\<lparr>jb_stream_id := stream_id, jb_stream_set := (stream_id \<noteq> 0),
     jb_last_released := None, jb_frames := [], jb_accepted := 0, jb_duplicate := 0, jb_late := 0,
     jb_resource_dropped := 0, jb_released := 0\<rparr>"

definition jb_push :: "completed_frame \<Rightarrow> int \<Rightarrow> jitter_buffer \<Rightarrow> bool \<times> jitter_buffer" where
  "jb_push frame arrival_time j =
     (if \<not> jb_stream_set j \<or> cf_stream_id frame \<noteq> jb_stream_id j then (False, j)
      else if (case jb_last_released j of None \<Rightarrow> False | Some released \<Rightarrow> cf_frame_id frame \<le> released)
      then (False, j\<lparr>jb_late := jb_late j + 1\<rparr>)
      else if map_of (jb_frames j) (cf_frame_id frame) \<noteq> None
      then (False, j\<lparr>jb_duplicate := jb_duplicate j + 1\<rparr>)
      else let j = (if length (jb_frames j) \<ge> jb_maximum_frames j
                    then j\<lparr>jb_frames := tl (jb_frames j), jb_resource_dropped := jb_resource_dropped j + 1\<rparr>
                    else j)
           in (True, j\<lparr>jb_frames := insort_key fst (cf_frame_id frame, (frame, arrival_time + jb_target_delay j))
                         (jb_frames j), jb_accepted := jb_accepted j + 1\<rparr>))"

definition pop_ready :: "int \<Rightarrow> jitter_buffer \<Rightarrow> completed_frame option \<times> jitter_buffer" where
  "pop_ready now j =
     (case jb_frames j of
        [] \<Rightarrow> (None, j)
      | (k, (frame, ready_at)) # rest \<Rightarrow>
          if ready_at > now then (None, j)
          else (Some frame, j\<lparr>jb_frames := rest, jb_last_released := Some (cf_frame_id frame),
                              jb_released := jb_released j + 1\<rparr>))"

section \<open>NACK policy\<close>

record nack_state =
  ns_attempts :: u8
  ns_next_request :: int
  ns_deadline :: int

record video_nack =
  nk_stream_id :: u32
  nk_frame_id :: u64
  nk_attempt :: u8
  nk_missing :: "u16 list"

record nack_policy =
  np_initial_delay :: int
  np_retry_interval :: int
  np_maximum_attempts :: u8
  np_maximum_fragments :: nat
  np_stream_id :: u32
  np_stream_set :: bool
  np_states :: "(u64 \<times> nack_state) list"

definition make_nack_policy :: "int \<Rightarrow> int \<Rightarrow> u8 \<Rightarrow> nat \<Rightarrow> nack_policy" where
  "make_nack_policy initial_delay retry_interval maximum_attempts maximum_fragments =
     \<lparr>np_initial_delay = max initial_delay millisecond, np_retry_interval = max retry_interval millisecond,
      np_maximum_attempts = clamp maximum_attempts 1 8,
      np_maximum_fragments = clamp maximum_fragments 1 1024,
      np_stream_id = 0, np_stream_set = False, np_states = []\<rparr>"

definition np_reset :: "u32 \<Rightarrow> nack_policy \<Rightarrow> nack_policy" where
  "np_reset stream_id s = s\<lparr>np_stream_id := stream_id, np_stream_set := (stream_id \<noteq> 0), np_states := []\<rparr>"

definition consider_nack ::
    "u64 \<Rightarrow> u16 list \<Rightarrow> int \<Rightarrow> int \<Rightarrow> int \<Rightarrow> nack_policy \<Rightarrow> video_nack option \<times> nack_policy" where
  "consider_nack frame_id missing first_fragment_time deadline now s =
     (if \<not> np_stream_set s \<or> missing = [] \<or> now \<ge> deadline then (None, s)
      else let inserted = (map_of (np_states s) frame_id = None);
               fresh = \<lparr>ns_attempts = 0, ns_next_request = first_fragment_time + np_initial_delay s,
                        ns_deadline = deadline\<rparr>;
               s = s\<lparr>np_states := alist_emplace frame_id fresh (np_states s)\<rparr>;
               state = (case map_of (np_states s) frame_id of None \<Rightarrow> fresh | Some st \<Rightarrow> st)
           in if inserted \<and> ns_next_request state \<ge> ns_deadline state
              then (None, s\<lparr>np_states := alist_modify frame_id
                      (\<lambda>st. st\<lparr>ns_attempts := np_maximum_attempts s\<rparr>) (np_states s)\<rparr>)
              else if ns_attempts state \<ge> np_maximum_attempts s \<or> now < ns_next_request state \<or>
                      now \<ge> ns_deadline state
              then (None, s)
              else let state = state\<lparr>ns_attempts := ns_attempts state + 1,
                                     ns_next_request := now + np_retry_interval s\<rparr>;
                       count = min (length missing) (np_maximum_fragments s)
                   in (Some \<lparr>nk_stream_id = np_stream_id s, nk_frame_id = frame_id,
                             nk_attempt = ns_attempts state, nk_missing = take count missing\<rparr>,
                       s\<lparr>np_states := alist_modify frame_id (\<lambda>_. state) (np_states s)\<rparr>))"

definition nack_complete :: "u64 \<Rightarrow> nack_policy \<Rightarrow> nack_policy" where
  "nack_complete frame_id s = s\<lparr>np_states := alist_erase frame_id (np_states s)\<rparr>"

definition nack_exhausted :: "u64 \<Rightarrow> nack_policy \<Rightarrow> bool" where
  "nack_exhausted frame_id s =
     (case map_of (np_states s) frame_id of
        None \<Rightarrow> False | Some st \<Rightarrow> ns_attempts st \<ge> np_maximum_attempts s)"

primrec nack_expire_loop :: "int \<Rightarrow> (u64 \<times> nack_state) list \<Rightarrow> nat \<times> (u64 \<times> nack_state) list" where
  "nack_expire_loop now [] = (0, [])"
| "nack_expire_loop now (x # xs) =
     (case nack_expire_loop now xs of (n, kept) \<Rightarrow>
        if ns_deadline (snd x) \<le> now then (Suc n, kept) else (n, x # kept))"

definition nack_expire :: "int \<Rightarrow> nack_policy \<Rightarrow> nat \<times> nack_policy" where
  "nack_expire now s =
     (case nack_expire_loop now (np_states s) of (n, kept) \<Rightarrow> (n, s\<lparr>np_states := kept\<rparr>))"

definition encode_video_nack :: "video_nack \<Rightarrow> bytes" where
  "encode_video_nack nack =
     (if nk_stream_id nack = 0 \<or> nk_attempt nack = 0 \<or> nk_missing nack = [] \<or> length (nk_missing nack) > 1024
      then []
      else append_le (nk_stream_id nack) @ append_le (nk_frame_id nack) @ append_le (nk_attempt nack) @
           append_le (word_of_nat (length (nk_missing nack)) :: u16) @ concat (map append_le (nk_missing nack)))"

primrec read_u16s :: "nat \<Rightarrow> bytes \<Rightarrow> u16 list option" where
  "read_u16s 0 w = Some []"
| "read_u16s (Suc n) w = do { (v, w) \<leftarrow> read_le w; vs \<leftarrow> read_u16s n w; Some (v # vs) }"

definition decode_video_nack :: "bytes \<Rightarrow> video_nack option" where
  "decode_video_nack w = do {
     (stream, w) \<leftarrow> read_le w;
     (frame, w) \<leftarrow> read_le w;
     (attempt, w) \<leftarrow> read_le w;
     (count :: u16, w) \<leftarrow> read_le w;
     if stream = 0 \<or> attempt = 0 \<or> count = 0 \<or> count > 1024 \<or> length w \<noteq> unat count * 2 then None
     else do {
       missing \<leftarrow> read_u16s (unat count) w;
       Some \<lparr>nk_stream_id = stream, nk_frame_id = frame, nk_attempt = attempt, nk_missing = missing\<rparr>
     }
   }"

section \<open>Keyframe scheduler\<close>

datatype keyframe_reason = Stream_start | Periodic | Packet_loss | Nack_exhausted | Decoder_recovery

record keyframe_scheduler =
  ks_minimum_interval :: int
  ks_maximum_interval :: int
  ks_loss_threshold :: u32
  ks_last_keyframe :: int
  ks_pending :: "keyframe_reason option"
  ks_initialized :: bool

definition make_keyframe_scheduler :: "int \<Rightarrow> int \<Rightarrow> u32 \<Rightarrow> keyframe_scheduler" where
  "make_keyframe_scheduler minimum maximum threshold =
     (let minimum = max minimum millisecond
      in \<lparr>ks_minimum_interval = minimum, ks_maximum_interval = max maximum minimum,
          ks_loss_threshold = clamp threshold 1 1000, ks_last_keyframe = 0, ks_pending = None,
          ks_initialized = False\<rparr>)"

definition ks_reset :: "int \<Rightarrow> keyframe_scheduler \<Rightarrow> keyframe_scheduler" where
  "ks_reset now s = s\<lparr>ks_last_keyframe := now - ks_maximum_interval s, ks_pending := Some Stream_start,
     ks_initialized := True\<rparr>"

definition observe_loss :: "u32 \<Rightarrow> keyframe_scheduler \<Rightarrow> keyframe_scheduler" where
  "observe_loss loss_per_mille s =
     (if loss_per_mille \<ge> ks_loss_threshold s then s\<lparr>ks_pending := Some Packet_loss\<rparr> else s)"

definition notify_nack_exhausted :: "keyframe_scheduler \<Rightarrow> keyframe_scheduler" where
  "notify_nack_exhausted s = s\<lparr>ks_pending := Some Nack_exhausted\<rparr>"

definition notify_decoder_recovery :: "keyframe_scheduler \<Rightarrow> keyframe_scheduler" where
  "notify_decoder_recovery s = s\<lparr>ks_pending := Some Decoder_recovery\<rparr>"

definition keyframe_due :: "int \<Rightarrow> keyframe_scheduler \<Rightarrow> keyframe_reason option" where
  "keyframe_due now s =
     (if \<not> ks_initialized s \<or> now - ks_last_keyframe s < ks_minimum_interval s then None
      else if ks_pending s \<noteq> None then ks_pending s
      else if now - ks_last_keyframe s \<ge> ks_maximum_interval s then Some Periodic
      else None)"

definition mark_emitted :: "int \<Rightarrow> keyframe_scheduler \<Rightarrow> keyframe_scheduler" where
  "mark_emitted now s = s\<lparr>ks_last_keyframe := now, ks_pending := None\<rparr>"

section \<open>From access unit to access unit\<close>

lemma packetize_loop_Inr:
  assumes "packetize_loop bcrypt key pk unit cap kf limit count n index offset = Inr ds"
  shows "length ds = n \<and> concat (map vd_payload ds) = take (n * limit) (drop offset unit) \<and>
    (\<forall>j < n. vd_payload (ds ! j) = take limit (drop (offset + j * limit) unit) \<and>
       vd_header (ds ! j) = fragment_header pk cap kf count (index + j)
         (min limit (length unit - (offset + j * limit))) \<and>
       compute_video_auth_tag bcrypt key (vd_header (ds ! j)) (vd_payload (ds ! j)) = Some (vd_tag (ds ! j)))"
  using assms
proof (induction n arbitrary: index offset ds)
  case 0
  then show ?case by simp
next
  case (Suc n)
  let ?size = "min limit (length unit - offset)"
  obtain tag rest where ds: "ds = \<lparr>vd_header = fragment_header pk cap kf count index ?size, vd_tag = tag,
        vd_payload = take ?size (drop offset unit)\<rparr> # rest"
      and tag: "compute_video_auth_tag bcrypt key (fragment_header pk cap kf count index ?size)
        (take ?size (drop offset unit)) = Some tag"
      and rest: "packetize_loop bcrypt key pk unit cap kf limit count n (index + 1) (offset + ?size) = Inr rest"
    using Suc.prems by (auto simp: Let_def split: option.splits sum.splits)
  have body: "take ?size (drop offset unit) = take limit (drop offset unit)" by (simp add: min_def)
  have pos: "drop (offset + ?size + k) unit = drop (offset + limit + k) unit"
    "length unit - (offset + ?size + k) = length unit - (offset + limit + k)" for k
    by (auto simp: min_def)
  note IH = Suc.IH [OF rest, unfolded pos pos [where k = 0, simplified]]
  have "take (Suc n * limit) (drop offset unit) =
      take limit (drop offset unit) @ take (n * limit) (drop (offset + limit) unit)"
    by (simp add: take_add add.commute)
  then have all: "length ds = Suc n" "concat (map vd_payload ds) = take (Suc n * limit) (drop offset unit)"
    using IH unfolding ds body by simp_all
  have each: "vd_payload (ds ! j) = take limit (drop (offset + j * limit) unit) \<and>
       vd_header (ds ! j) = fragment_header pk cap kf count (index + j)
         (min limit (length unit - (offset + j * limit))) \<and>
       compute_video_auth_tag bcrypt key (vd_header (ds ! j)) (vd_payload (ds ! j)) = Some (vd_tag (ds ! j))"
    if "j < Suc n" for j
  proof (cases j)
    case 0
    then show ?thesis using tag unfolding ds body by simp
  next
    case (Suc i)
    then have eqs: "ds ! j = rest ! i" "offset + j * limit = offset + limit + i * limit" "index + j = index + 1 + i"
      using ds by simp_all
    have "i < n" using that Suc by simp
    with IH show ?thesis unfolding eqs by blast
  qed
  from all each show ?case by blast
qed

definition packetizer_ok :: "packetizer \<Rightarrow> bool" where
  "packetizer_ok pk \<longleftrightarrow> 61 \<le> pk_maximum_datagram_bytes pk \<and> pk_maximum_datagram_bytes pk \<le> 65507"

lemma make_packetizer_ok: "packetizer_ok (make_packetizer n f)"
  by (auto simp: packetizer_ok_def make_packetizer_def clamp_def Let_def)

lemma pk_reset_ok: "packetizer_ok pk \<Longrightarrow> packetizer_ok (pk_reset stream q f pk)"
  by (simp add: packetizer_ok_def pk_reset_def)

lemma ceil_div:
  assumes "0 < (L :: nat)" and "0 < l" and "n = (L + l - 1) div l"
  shows "0 < n" and "L \<le> n * l" and "j < n \<Longrightarrow> j * l < L"
proof -
  have "n * l + (L + l - 1) mod l = L + l - 1" "(L + l - 1) mod l < l"
    using assms by (simp_all add: mult.commute)
  then have lo: "L \<le> n * l" and hi: "n * l < L + l" using assms(1,2) by linarith+
  show "L \<le> n * l" by (rule lo)
  show "0 < n" using lo assms(1) by (cases n) auto
  assume "j < n"
  then have "(j + 1) * l \<le> n * l" by (intro mult_right_mono) auto
  then show "j * l < L" using hi by (simp add: algebra_simps)
qed

lemma fragment_flags:
  "has_flag (vid_flags (fragment_header pk cap kf count index m)) flag_keyframe = kf"
  "has_flag (vid_flags (fragment_header pk cap kf count index m)) flag_end_of_frame = (Suc index = count)"
  by (auto simp: fragment_header_def has_flag_def flag_keyframe_def flag_end_of_frame_def Let_def)

lemma packetize_InrD:
  assumes "packetize bcrypt unit cap kf key pk = (Inr ds, pk')"
    and "l = pk_maximum_datagram_bytes pk - kVideoHeaderBytes - kVideoAuthTagBytes"
    and "n = (length unit + l - 1) div l"
  shows "unit \<noteq> [] \<and> n \<le> 2 ^ 16 - 1 \<and> packetize_loop bcrypt key pk unit cap kf l n n 0 0 = Inr ds"
  using assms(1) unfolding packetize_def Let_def assms(2,3) [symmetric]
  by (simp split: if_split_asm sum.split_asm)

lemma packetize_Inr:
  assumes ok: "packetizer_ok pk" and p: "packetize bcrypt unit cap kf key pk = (Inr ds, pk')"
  shows "ds \<noteq> [] \<and> concat (map vd_payload ds) = unit \<and> length ds < 2 ^ 16 \<and>
    frame_headers (pk_stream_id pk) (pk_next_frame_id pk) cap kf (map vd_payload ds) (\<lambda>i. vd_header (ds ! i)) \<and>
    (\<forall>i < length ds. vd_payload (ds ! i) \<noteq> [] \<and>
       length (vd_payload (ds ! i)) \<le> pk_maximum_datagram_bytes pk - 60 \<and>
       compute_video_auth_tag bcrypt key (vd_header (ds ! i)) (vd_payload (ds ! i)) = Some (vd_tag (ds ! i)))"
proof -
  define l where "l = pk_maximum_datagram_bytes pk - kVideoHeaderBytes - kVideoAuthTagBytes"
  define n where "n = (length unit + l - 1) div l"
  have l: "0 < l" "l = pk_maximum_datagram_bytes pk - 60" using ok by (auto simp: packetizer_ok_def l_def)
  note d = packetize_InrD [OF p l_def n_def]
  then have ne: "0 < length unit" by blast
  note c = ceil_div [OF ne l(1) n_def]
  have loop: "packetize_loop bcrypt key pk unit cap kf l n n 0 0 = Inr ds" using d by blast
  note r = packetize_loop_Inr [OF loop, unfolded add_0]
  have each: "length (vd_payload (ds ! i)) = min l (length unit - i * l)" "vd_payload (ds ! i) \<noteq> []"
      "vd_header (ds ! i) = fragment_header pk cap kf n i (length (vd_payload (ds ! i)))"
    if "i < n" for i
    using r that c(3) [OF that] l(1) by (auto simp: min.commute)
  have "frame_headers (pk_stream_id pk) (pk_next_frame_id pk) cap kf (map vd_payload ds) (\<lambda>i. vd_header (ds ! i))"
    unfolding frame_headers_def using r each(3) fragment_flags
    by (auto simp: fragment_header_def)
  moreover have "concat (map vd_payload ds) = unit" using r c(2) by simp
  ultimately show ?thesis using r c(1) d each(1,2) l(2) by auto
qed

lemma verify_video_auth_tag_iff:
  "verify_video_auth_tag bcrypt key h body tag \<longleftrightarrow>
     length tag = 16 \<and> compute_video_auth_tag bcrypt key h body = Some tag"
  by (auto simp: verify_video_auth_tag_def constant_time_equal_iff split: option.splits)

lemma decode_wire:
  assumes "video_header_ok (vd_header d)" and "unat (vid_payload_bytes (vd_header d)) = length (vd_payload d)"
    and "vd_payload d \<noteq> []" and "length (vd_payload d) \<le> 65507 - 60" and "length (vd_tag d) = 16"
    and "compute_video_auth_tag bcrypt key (vd_header d) (vd_payload d) = Some (vd_tag d)"
  shows "decode_video_datagram bcrypt key (wire d) = Inr d"
proof -
  have w: "wire d = encode_video_header (vd_header d) @ vd_tag d @ vd_payload d"
    using assms(2) by (simp add: wire_def)
  have "decode_video_header (take 44 (wire d)) = Some (vd_header d)"
    using decode_encode_video_header [OF assms(1), of "[]"] by (simp add: w)
  moreover have "length (wire d) = 60 + length (vd_payload d)" using assms(5) by (simp add: w)
  moreover have "take 16 (drop 44 (wire d)) = vd_tag d" "drop 60 (wire d) = vd_payload d"
    using assms(5) by (simp_all add: w)
  moreover have "0 < length (vd_payload d)" using assms(3) by simp
  ultimately show ?thesis
    using assms(2,4,5,6) by (simp add: decode_video_datagram_def Let_def verify_video_auth_tag_iff)
qed

lemma decode_video_datagram_sound:
  assumes "decode_video_datagram bcrypt key w = Inr d"
  shows "w = wire d \<and> compute_video_auth_tag bcrypt key (vd_header d) (vd_payload d) = Some (vd_tag d)"
proof -
  let ?h = "vd_header d"
  have len: "60 < length w" and h: "decode_video_header (take 44 w) = Some ?h"
      and pb: "unat (vid_payload_bytes ?h) = length w - 60"
      and d: "vd_tag d = take 16 (drop 44 w)" "vd_payload d = drop 60 w"
      and v: "verify_video_auth_tag bcrypt key ?h (vd_payload d) (vd_tag d)"
    using assms by (auto simp: decode_video_datagram_def Let_def split: if_splits option.splits)
  obtain rest where "take 44 w = encode_video_header ?h @ rest" using decode_video_header_sound [OF h] by blast
  moreover have "length (take 44 w) = 44" using len by simp
  ultimately have "take 44 w = encode_video_header ?h" by simp
  moreover have "w = take 44 w @ take 16 (drop 44 w) @ drop 60 w"
  proof -
    have "drop 60 w = drop 16 (drop 44 w)" by simp
    then show ?thesis by (simp only: append_take_drop_id)
  qed
  ultimately show ?thesis using v pb d len by (simp add: wire_def verify_video_auth_tag_iff)
qed

lemma packetized_decodes:
  assumes ok: "packetizer_ok pk" and p: "packetize bcrypt unit cap kf key pk = (Inr ds, pk')"
    and mac: "\<And>m d. bcrypt key m = Some d \<Longrightarrow> 16 \<le> length d" and i: "i < length ds"
  shows "decode_video_datagram bcrypt key (wire (ds ! i)) = Inr (ds ! i)"
proof (rule decode_wire)
  let ?hdr = "\<lambda>i. vd_header (ds ! i)"
  note d = packetize_Inr [OF ok p]
  have hdr: "frame_headers (pk_stream_id pk) (pk_next_frame_id pk) cap kf (map vd_payload ds) ?hdr" using d by blast
  have n: "length ds < 2 ^ 16" using d by blast
  have each: "vd_payload (ds ! i) \<noteq> []" "length (vd_payload (ds ! i)) \<le> pk_maximum_datagram_bytes pk - 60"
      "compute_video_auth_tag bcrypt key (?hdr i) (vd_payload (ds ! i)) = Some (vd_tag (ds ! i))"
    using d i by blast+
  show small: "length (vd_payload (ds ! i)) \<le> 65507 - 60"
    using each(2) ok unfolding packetizer_ok_def by linarith
  show "video_header_ok (?hdr i)"
    using hdr i n by (simp add: frame_headers_def video_header_ok_def word_less_nat_alt unat_of_nat)
  show "unat (vid_payload_bytes (?hdr i)) = length (vd_payload (ds ! i))"
    using hdr i small by (simp add: frame_headers_def unat_of_nat)
  obtain m dg where "bcrypt key m = Some dg" "vd_tag (ds ! i) = take 16 dg"
    using each(3) by (auto simp: compute_video_auth_tag_def hmac_sha256_def split: if_splits)
  then show "length (vd_tag (ds ! i)) = 16" using mac by fastforce
  show "vd_payload (ds ! i) \<noteq> []" "compute_video_auth_tag bcrypt key (?hdr i) (vd_payload (ds ! i)) = Some (vd_tag (ds ! i))"
    using each by blast+
qed

lemma packetized_fits:
  assumes ok: "packetizer_ok pk" and p: "packetize bcrypt unit cap kf key pk = (Inr ds, pk')"
    and "length unit \<le> max_frame_bytes l" "pk_maximum_datagram_bytes pk - 60 \<le> max_fragment_payload l"
      "length ds \<le> unat (max_fragments_per_frame l)"
  shows "pieces_fit l (map vd_payload ds) \<and> sum_list (map length (map vd_payload ds)) = length unit"
proof -
  note d = packetize_Inr [OF ok p]
  have sum: "sum_list (map length (map vd_payload ds)) = length unit" using d by (metis length_concat)
  have "b \<noteq> [] \<and> length b \<le> max_fragment_payload l \<and> length b < 2 ^ 32" if b: "b \<in> set (map vd_payload ds)" for b
  proof -
    obtain e where "e \<in> set ds" and e: "b = vd_payload e" using b by auto
    then obtain i where i: "i < length ds" "b = vd_payload (ds ! i)"
      unfolding in_set_conv_nth by blast
    have "b \<noteq> []" "length b \<le> pk_maximum_datagram_bytes pk - 60" unfolding i(2) using d i(1) by blast+
    then show ?thesis using assms(4) ok by (auto simp: packetizer_ok_def)
  qed
  then show ?thesis using sum assms(3,5) d unfolding pieces_fit_def by simp
qed

text \<open>
  C22. The video path is lossless. An access unit that the packetizer accepts is cut into
  datagrams whose wire form the receiver decodes and authenticates unchanged, and pushing
  the received fragments into a reassembler in any order, before the deadline that the first
  of them starts, delivers exactly the access unit with the last one: same bytes, frame
  number, capture time and keyframe flag, whatever else the reassembler holds, as long as
  its limits leave room for the frame.
\<close>

theorem video_path_roundtrip:
  assumes ok: "packetizer_ok pk" and p: "packetize bcrypt access_unit cap kf key pk = (Inr ds, pk')"
    and mac: "\<And>m d. bcrypt key m = Some d \<Longrightarrow> 16 \<le> length d"
    and lim: "max_frame_bytes l < 2 ^ 64" "max_total_buffered_bytes l < 2 ^ 64"
    and r: "r = fold ra_step ops (make_reassembler l)"
    and open_stream: "ra_stream_set r" "ra_stream_id r = pk_stream_id pk"
    and new: "map_of (ra_frames r) (pk_next_frame_id pk) = None" "pk_next_frame_id pk \<notin> ra_completed_recent r"
    and room: "frames_in_flight r < max_frames_in_flight (ra_limits r)"
      "buffered_bytes (ra_stats r) + length access_unit \<le> max_total_buffered_bytes (ra_limits r)"
      "length access_unit \<le> max_frame_bytes (ra_limits r)"
      "pk_maximum_datagram_bytes pk - 60 \<le> max_fragment_payload (ra_limits r)"
      "length ds \<le> unat (max_fragments_per_frame (ra_limits r))"
    and order: "distinct (map fst arrivals)" "fst ` set arrivals = {..< length ds}"
    and time: "\<forall>(i, t) \<in> set arrivals. t < snd (hd arrivals) + frame_deadline (ra_limits r)"
  shows "map (\<lambda>d. decode_video_datagram bcrypt key (wire d)) ds = map Inr ds \<and>
    push_all (map (\<lambda>(i, t). (vd_header (ds ! i), vd_payload (ds ! i), t)) arrivals) r =
    replicate (length ds - 1) (Frag_accepted, None) @
    [(Frame_complete, Some \<lparr>cf_stream_id = pk_stream_id pk, cf_frame_id = pk_next_frame_id pk,
        cf_capture_time = cap, cf_keyframe = kf, cf_payload = access_unit\<rparr>)]"
proof
  let ?pieces = "map vd_payload ds" and ?hdr = "\<lambda>i. vd_header (ds ! i)"
  note d = packetize_Inr [OF ok p]
  have hdr: "frame_headers (pk_stream_id pk) (pk_next_frame_id pk) cap kf ?pieces ?hdr" using d by blast
  show "map (\<lambda>d. decode_video_datagram bcrypt key (wire d)) ds = map Inr ds"
    using packetized_decodes [OF ok p mac] by (intro nth_equalityI) auto
  have "list_all (pushed_in UNIV) ops" by (auto simp: list_all_iff pushed_in_def split: ra_op.splits)
  then have "ra_inv (of_stream UNIV (ra_stream_id r)) r"
    unfolding r by (rule reassembly.guarded_run) (rule make_reassembler_inv [OF lim])
  then have "ra_inv UNIV r" by (rule ra_inv_mono) simp
  moreover note packetized_fits [OF ok p room(3-5)]
  ultimately have ready: "ready_for (pk_stream_id pk) (pk_next_frame_id pk) ?pieces r"
    using open_stream new room(1,2) by (simp add: ready_for_def frames_in_flight_def)
  have "i < length ds" if "(i, t) \<in> set arrivals" for i t using order(2) that by force
  then have eq: "map (\<lambda>(i, t). (?hdr i, ?pieces ! i, t)) arrivals =
      map (\<lambda>(i, t). (vd_header (ds ! i), vd_payload (ds ! i), t)) arrivals"
    by (intro map_cong refl) (auto split: prod.splits)
  show "push_all (map (\<lambda>(i, t). (vd_header (ds ! i), vd_payload (ds ! i), t)) arrivals) r =
    replicate (length ds - 1) (Frag_accepted, None) @
    [(Frame_complete, Some \<lparr>cf_stream_id = pk_stream_id pk, cf_frame_id = pk_next_frame_id pk,
        cf_capture_time = cap, cf_keyframe = kf, cf_payload = access_unit\<rparr>)]"
    unfolding eq [symmetric] using reassembles_in_any_order [OF ready hdr order(1) _ time] order(2) d by simp
qed

definition demo_packetizer :: packetizer where
  "demo_packetizer = pk_reset 7 0 5 (make_packetizer 61 4096)"

definition demo_datagram :: "u16 \<Rightarrow> byte \<Rightarrow> video_datagram" where
  "demo_datagram i b = \<lparr>vd_header = \<lparr>vid_version = 2, vid_flags = (if i = 1 then 3 else 1), vid_stream_id = 7,
       vid_packet_sequence = ucast i, vid_frame_id = 5, vid_fragment_index = i, vid_fragment_count = 2,
       vid_payload_bytes = 1, vid_capture_time = 9\<rparr>, vd_tag = replicate 16 7, vd_payload = [b]\<rparr>"

lemma packetize_two:
  "packetize_loop bcrypt key pk unit cap kf l n 2 i j = packetize_loop bcrypt key pk unit cap kf l n (Suc (Suc 0)) i j"
  by (simp add: numeral_2_eq_2)

lemma demo_packetize:
  "packetize const_mac [4, 2] 9 True (replicate 32 1) demo_packetizer =
     (Inr [demo_datagram 0 4, demo_datagram 1 2],
      demo_packetizer\<lparr>pk_next_packet_sequence := 2, pk_next_frame_id := 6\<rparr>)"
  by (simp add: packetize_def demo_packetizer_def pk_reset_def make_packetizer_def clamp_def
      compute_video_auth_tag_def hmac_sha256_def const_mac_def video_message_def ascii_def fragment_header_def
      demo_datagram_def kVideoVersion_def flag_keyframe_def flag_end_of_frame_def packetize_two)

theorem video_path_roundtrip_witness:
  "map fst (push_all [(vd_header (demo_datagram 1 2), [2], 0), (vd_header (demo_datagram 0 4), [4], 5)]
     (fold ra_step [Reset 7] (make_reassembler demo_limits))) = [Frag_accepted, Frame_complete]"
proof -
  let ?r = "fold ra_step [Reset 7] (make_reassembler demo_limits)"
  have r: "ra_limits ?r = demo_limits" "ra_frames ?r = []" "ra_completed_recent ?r = {}" "ra_stream_set ?r"
      "ra_stream_id ?r = 7" "buffered_bytes (ra_stats ?r) = 0"
    by (simp_all add: ra_reset_def make_reassembler_def demo_limits_def clamp_limits_def clamp_def
        zero_reassembly_stats_def millisecond_def)
  have pk: "packetizer_ok demo_packetizer" "pk_stream_id demo_packetizer = 7"
      "pk_maximum_datagram_bytes demo_packetizer = 61"
    unfolding demo_packetizer_def by (rule pk_reset_ok [OF make_packetizer_ok])
      (simp_all add: pk_reset_def make_packetizer_def clamp_def Let_def)
  have "fst ` set [(1 :: nat, 0 :: int), (0, 5)] = {..< length [demo_datagram 0 4, demo_datagram 1 2]}" by auto
  then show ?thesis
    using video_path_roundtrip [OF pk(1) demo_packetize, of demo_limits ?r "[Reset 7]" "[(1, 0), (0, 5)]"] r pk
    by (simp add: const_mac_def demo_limits_def frames_in_flight_def demo_datagram_def millisecond_def)
qed

section \<open>Playout order\<close>

datatype jitter_op = Jitter_push completed_frame int | Jitter_pop int

fun jb_step :: "jitter_op \<Rightarrow> jitter_buffer \<Rightarrow> jitter_buffer" where
  "jb_step (Jitter_push f t) j = snd (jb_push f t j)"
| "jb_step (Jitter_pop now) j = snd (pop_ready now j)"

fun jb_output :: "jitter_op \<Rightarrow> jitter_buffer \<Rightarrow> completed_frame list" where
  "jb_output (Jitter_push f t) j = []"
| "jb_output (Jitter_pop now) j = (case fst (pop_ready now j) of None \<Rightarrow> [] | Some f \<Rightarrow> [f])"

primrec jb_run :: "jitter_op list \<Rightarrow> jitter_buffer \<Rightarrow> completed_frame list" where
  "jb_run [] j = []"
| "jb_run (a # as) j = jb_output a j @ jb_run as (jb_step a j)"

definition jb_inv :: "jitter_buffer \<Rightarrow> bool" where
  "jb_inv j \<longleftrightarrow> sorted_wrt (<) (map fst (jb_frames j)) \<and>
     (\<forall>(k, (f, t)) \<in> set (jb_frames j). k = cf_frame_id f \<and>
        (case jb_last_released j of None \<Rightarrow> True | Some r \<Rightarrow> r < k)) \<and>
     length (jb_frames j) \<le> jb_maximum_frames j \<and> 2 \<le> jb_maximum_frames j"

lemma sorted_insort_fst:
  "sorted_wrt (<) (map fst xs) \<Longrightarrow> fst x \<notin> fst ` set xs \<Longrightarrow>
   sorted_wrt (<) (map fst (insort_key fst (x :: 'a::linorder \<times> 'b) xs))"
  by (induction xs) (auto simp: set_insort_key)

lemma sorted_wrt_tl: "sorted_wrt P xs \<Longrightarrow> sorted_wrt P (tl xs)"
  by (cases xs) auto

lemma jb_step_inv:
  assumes inv: "jb_inv j"
  shows "jb_inv (jb_step a j)"
proof (cases a)
  case (Jitter_push f t)
  let ?k = "cf_frame_id f"
  let ?xs = "if length (jb_frames j) \<ge> jb_maximum_frames j then tl (jb_frames j) else jb_frames j"
  have sub: "set ?xs \<subseteq> set (jb_frames j)" by (cases "jb_frames j") auto
  have "sorted_wrt (<) (map fst ?xs)" using inv by (auto simp: jb_inv_def map_tl sorted_wrt_tl)
  moreover have "?k \<notin> fst ` set ?xs" if "map_of (jb_frames j) ?k = None"
    using that sub by (auto simp: map_of_eq_None_iff)
  ultimately have srt: "sorted_wrt (<) (map fst (insort_key fst (?k, (f, d)) ?xs))"
    if "map_of (jb_frames j) ?k = None" for d using that sorted_insort_fst [of ?xs "(?k, (f, d))"] by simp
  have len: "length (insort_key fst (?k, (f, d)) ?xs) \<le> jb_maximum_frames j" for d
    using inv by (auto simp: jb_inv_def)
  show ?thesis
    using inv sub srt len Jitter_push
    by (fastforce simp: jb_push_def jb_inv_def Let_def set_insort_key not_le split: if_splits option.splits)
next
  case (Jitter_pop now)
  then show ?thesis
    using inv by (fastforce simp: pop_ready_def jb_inv_def split: list.splits)
qed

interpretation jitter: machine jb_step jb_inv
  by unfold_locales (rule jb_step_inv)

lemma jb_output_props:
  assumes "jb_inv j"
  shows "case jb_output a j of [] \<Rightarrow> jb_last_released (jb_step a j) = jb_last_released j
    | f # fs \<Rightarrow> fs = [] \<and> jb_last_released (jb_step a j) = Some (cf_frame_id f) \<and>
       (case jb_last_released j of None \<Rightarrow> True | Some r \<Rightarrow> r < cf_frame_id f)"
  using assms
  by (cases a) (auto simp: jb_push_def pop_ready_def jb_inv_def Let_def split: list.splits option.splits)

lemma jb_run_increasing:
  "jb_inv j \<Longrightarrow> sorted_wrt (<) (map cf_frame_id (jb_run as j)) \<and>
   (case jb_last_released j of None \<Rightarrow> True | Some r \<Rightarrow> (\<forall>f \<in> set (jb_run as j). r < cf_frame_id f))"
proof (induction as arbitrary: j)
  case (Cons a as)
  note IH = Cons.IH [OF jb_step_inv [OF Cons.prems]]
  show ?case using jb_output_props [OF Cons.prems, of a] IH [of a]
    by (fastforce split: list.splits option.splits)
qed (simp split: option.splits)

lemma jb_reset_inv: "jb_inv (jb_reset stream (make_jitter_buffer delay n))"
  by (auto simp: jb_inv_def jb_reset_def make_jitter_buffer_def clamp_def)

text \<open>
  Frames are played in order: whatever arrives at the jitter buffer and whenever it is
  polled, the frame numbers it releases are strictly increasing (no frame twice, none after a
  later one), and it never holds more frames than configured.
\<close>

theorem jitter_releases_in_order:
  "sorted_wrt (<) (map cf_frame_id (jb_run as (jb_reset stream (make_jitter_buffer delay n)))) \<and>
   length (jb_frames (fold jb_step as (jb_reset stream (make_jitter_buffer delay n)))) \<le> clamp n 2 256"
proof -
  have max: "jb_maximum_frames (fold jb_step as j) = jb_maximum_frames j" for j
  proof (induction as arbitrary: j)
    case (Cons a as)
    then show ?case
      by (cases a) (auto simp: jb_push_def pop_ready_def Let_def split: list.splits option.splits)
  qed simp
  have "jb_inv (fold jb_step as (jb_reset stream (make_jitter_buffer delay n)))"
    by (rule jitter.run_inv [OF jb_reset_inv])
  then have "length (jb_frames (fold jb_step as (jb_reset stream (make_jitter_buffer delay n)))) \<le>
      jb_maximum_frames (jb_reset stream (make_jitter_buffer delay n))"
    unfolding jb_inv_def max by blast
  then show ?thesis
    using jb_run_increasing [OF jb_reset_inv] by (simp add: jb_reset_def make_jitter_buffer_def)
qed

section \<open>NACK message and policy\<close>

definition nack_ok :: "video_nack \<Rightarrow> bool" where
  "nack_ok n \<longleftrightarrow> nk_stream_id n \<noteq> 0 \<and> nk_attempt n \<noteq> 0 \<and> nk_missing n \<noteq> [] \<and> length (nk_missing n) \<le> 1024"

lemma read_u16s_concat: "read_u16s (length vs) (concat (map append_le vs)) = Some vs"
  by (induction vs) auto

lemma read_u16s_sound: "read_u16s n w = Some vs \<Longrightarrow> length w = 2 * n \<Longrightarrow> length vs = n \<and> w = concat (map append_le vs)"
  by (induction n arbitrary: w vs) (auto simp: bind_eq_Some_conv reader_iffs)

lemma length_concat_u16: "length (concat (map append_le (vs :: u16 list))) = 2 * length vs"
  by (induction vs) auto

interpretation nack_codec: strict_codec encode_video_nack decode_video_nack nack_ok
proof
  fix n assume n: "nack_ok n"
  have c: "unat (word_of_nat (length (nk_missing n)) :: u16) = length (nk_missing n)"
    using n by (simp add: nack_ok_def unat_of_nat)
  then have "word_of_nat (length (nk_missing n)) \<noteq> (0 :: u16)" "\<not> 1024 < (word_of_nat (length (nk_missing n)) :: u16)"
    using n by (auto simp: nack_ok_def word_less_nat_alt word_unat_eq_iff)
  then show "decode_video_nack (encode_video_nack n) = Some n"
    using n c by (auto simp: encode_video_nack_def decode_video_nack_def nack_ok_def read_u16s_concat
        length_concat_u16 mult.commute)
next
  fix w n assume "decode_video_nack w = Some n"
  then obtain count :: u16 and rest where
      w: "w = append_le (nk_stream_id n) @ append_le (nk_frame_id n) @ append_le (nk_attempt n) @
        append_le count @ rest"
      and ok: "nk_stream_id n \<noteq> 0" "nk_attempt n \<noteq> 0" "count \<noteq> 0" "count \<le> 1024" "length rest = 2 * unat count"
      and vs: "read_u16s (unat count) rest = Some (nk_missing n)"
    by (auto simp: decode_video_nack_def bind_eq_Some_conv reader_iffs not_less split: if_splits)
  have m: "length (nk_missing n) = unat count" "rest = concat (map append_le (nk_missing n))"
    using read_u16s_sound [OF vs ok(5)] by simp_all
  have "unat count \<le> 1024" "0 < unat count" using ok(3,4) by (simp_all add: word_le_nat_alt unat_gt_0)
  then show "nack_ok n \<and> encode_video_nack n = w"
    using ok m w by (auto simp: nack_ok_def encode_video_nack_def)
qed

text \<open>
  The NACK wire format is exact: the decoder accepts precisely the encodings of requests
  with a stream, an attempt number and 1 to 1024 fragment indices, and returns the request
  that was encoded; nothing may follow the last index.
\<close>

theorem nack_decode_exact:
  "decode_video_nack w = Some n \<longleftrightarrow>
     nk_stream_id n \<noteq> 0 \<and> nk_attempt n \<noteq> 0 \<and> nk_missing n \<noteq> [] \<and> length (nk_missing n) \<le> 1024 \<and>
     encode_video_nack n = w"
  using nack_codec.dec_iff by (auto simp: nack_ok_def)

record nack_call =
  nc_frame :: u64
  nc_missing :: "u16 list"
  nc_first :: int
  nc_deadline :: int
  nc_now :: int

definition nack_step :: "nack_call \<Rightarrow> nack_policy \<Rightarrow> video_nack option \<times> nack_policy" where
  "nack_step c s = consider_nack (nc_frame c) (nc_missing c) (nc_first c) (nc_deadline c) (nc_now c) s"

primrec nack_run :: "nack_call list \<Rightarrow> nack_policy \<Rightarrow> video_nack list" where
  "nack_run [] s = []"
| "nack_run (c # cs) s =
     (case nack_step c s of (r, s') \<Rightarrow> (case r of None \<Rightarrow> [] | Some n \<Rightarrow> [n]) @ nack_run cs s')"

definition attempts_of :: "u64 \<Rightarrow> nack_policy \<Rightarrow> nat" where
  "attempts_of k s = (case map_of (np_states s) k of None \<Rightarrow> 0 | Some st \<Rightarrow> unat (ns_attempts st))"

lemma nack_step_other:
  "nc_frame c \<noteq> k \<Longrightarrow> map_of (np_states (snd (nack_step c s))) k = map_of (np_states s) k"
  by (auto simp: nack_step_def consider_nack_def Let_def split: option.splits)

lemma nack_step_frame: "fst (nack_step c s) = Some n \<Longrightarrow> nk_frame_id n = nc_frame c"
  by (auto simp: nack_step_def consider_nack_def Let_def split: option.splits if_splits)

lemma nack_step_maximum [simp]: "np_maximum_attempts (snd (nack_step c s)) = np_maximum_attempts s"
  by (auto simp: nack_step_def consider_nack_def Let_def split: option.splits)

text \<open>One call either emits the next attempt, or emits nothing and does not lower the count.\<close>

lemma nack_step_attempts:
  assumes "attempts_of k s \<le> unat (np_maximum_attempts s)" and "nc_frame c = k"
  shows "case fst (nack_step c s) of
      Some n \<Rightarrow> unat (nk_attempt n) = Suc (attempts_of k s) \<and> attempts_of k (snd (nack_step c s)) = Suc (attempts_of k s) \<and>
        Suc (attempts_of k s) \<le> unat (np_maximum_attempts s)
    | None \<Rightarrow> attempts_of k s \<le> attempts_of k (snd (nack_step c s)) \<and>
        attempts_of k (snd (nack_step c s)) \<le> unat (np_maximum_attempts s)"
proof -
  have inc: "unat (a + 1) = Suc (unat a)" if "\<not> np_maximum_attempts s \<le> a" for a :: u8
  proof -
    have "unat a < unat (np_maximum_attempts s)" "unat (np_maximum_attempts s) < 256"
      using that unsigned_less [of "np_maximum_attempts s", where ?'a = nat]
      by (simp_all add: word_less_nat_alt not_le)
    then show ?thesis by (simp add: unat_word_ariths)
  qed
  show ?thesis
    using assms inc
    by (auto simp: nack_step_def consider_nack_def Let_def attempts_of_def word_le_nat_alt not_le
        split: option.splits)
qed

lemma nack_run_attempts:
  assumes "attempts_of k s \<le> unat (np_maximum_attempts s)"
  shows "sorted_wrt (<) (map (\<lambda>n. unat (nk_attempt n)) (filter (\<lambda>n. nk_frame_id n = k) (nack_run cs s))) \<and>
    (\<forall>n \<in> set (nack_run cs s). nk_frame_id n = k \<longrightarrow>
       attempts_of k s < unat (nk_attempt n) \<and> unat (nk_attempt n) \<le> unat (np_maximum_attempts s))"
  using assms
proof (induction cs arbitrary: s)
  case (Cons c cs)
  obtain r s' where st: "nack_step c s = (r, s')" by (cases "nack_step c s")
  have mx: "np_maximum_attempts s' = np_maximum_attempts s" using nack_step_maximum [of c s] st by simp
  show ?case
  proof (cases "nc_frame c = k")
    case True
    note a = nack_step_attempts [OF Cons.prems True, unfolded st]
    then have "attempts_of k s' \<le> unat (np_maximum_attempts s')" using mx by (auto split: option.splits)
    from Cons.IH [OF this] a show ?thesis using st mx by (fastforce split: option.splits)
  next
    case False
    then have same: "attempts_of k s' = attempts_of k s"
      using nack_step_other [of c k s] st by (simp add: attempts_of_def)
    have "nk_frame_id n \<noteq> k" if "r = Some n" for n using nack_step_frame [of c s n] st that False by simp
    then show ?thesis using Cons.IH [of s'] Cons.prems st mx same by (auto split: option.splits)
  qed
qed simp

text \<open>
  A missing frame is asked for a bounded number of times: over any sequence of calls for
  any frames at any times, the requests sent for one frame carry strictly increasing attempt
  numbers from 1, so there are at most as many of them as the policy's maximum, which is at
  most 8.
\<close>

theorem nack_attempts_bounded:
  "length (filter (\<lambda>n. nk_frame_id n = k) (nack_run cs (np_reset stream (make_nack_policy delay retry most n)))) \<le>
     unat (clamp most 1 8) \<and> unat (clamp most 1 8) \<le> 8"
proof -
  let ?s = "np_reset stream (make_nack_policy delay retry most n)"
  let ?xs = "map (\<lambda>n. unat (nk_attempt n)) (filter (\<lambda>n. nk_frame_id n = k) (nack_run cs ?s))"
  have s: "attempts_of k ?s = 0" "np_maximum_attempts ?s = clamp most 1 8"
    by (simp_all add: attempts_of_def np_reset_def make_nack_policy_def)
  note r = nack_run_attempts [of k ?s cs, unfolded s]
  have "distinct ?xs" using r strict_sorted_iff by blast
  then have "length ?xs = card (set ?xs)" by (rule distinct_card [symmetric])
  also have "\<dots> \<le> card {1 .. unat (clamp most 1 8)}" by (rule card_mono) (use r in auto)
  finally have "length ?xs \<le> unat (clamp most 1 8)" by simp
  moreover have "unat (clamp most 1 8) \<le> 8"
    using clamp_bounds [of 1 8 most] by (simp add: word_le_nat_alt)
  ultimately show ?thesis by simp
qed

section \<open>Keyframe pacing\<close>

datatype keyframe_report = Loss_report u32 | Nacks_exhausted_report | Decoder_failure_report

fun ks_report :: "keyframe_report \<Rightarrow> keyframe_scheduler \<Rightarrow> keyframe_scheduler" where
  "ks_report (Loss_report n) s = observe_loss n s"
| "ks_report Nacks_exhausted_report s = notify_nack_exhausted s"
| "ks_report Decoder_failure_report s = notify_decoder_recovery s"

lemma ks_report_frame:
  "ks_initialized (fold ks_report rs s) = ks_initialized s \<and>
   ks_last_keyframe (fold ks_report rs s) = ks_last_keyframe s \<and>
   ks_minimum_interval (fold ks_report rs s) = ks_minimum_interval s \<and>
   ks_maximum_interval (fold ks_report rs s) = ks_maximum_interval s"
proof (induction rs arbitrary: s)
  case (Cons r rs)
  then show ?case
    by (cases r) (simp_all add: observe_loss_def notify_nack_exhausted_def notify_decoder_recovery_def)
qed simp

text \<open>
  Keyframe pacing: after a keyframe is marked as emitted, whatever losses, exhausted NACKs
  or decoder failures are reported, none is due before the minimal interval has passed; a
  reported decoder failure makes one due right after it; and one is due whenever the maximal
  interval has passed.
\<close>

theorem keyframe_pacing:
  assumes "ks_initialized s" and "ks_minimum_interval s \<le> ks_maximum_interval s"
  shows "(now - t < ks_minimum_interval s \<longrightarrow> keyframe_due now (fold ks_report rs (mark_emitted t s)) = None) \<and>
    (now - t \<ge> ks_minimum_interval s \<longrightarrow>
       keyframe_due now (notify_decoder_recovery (fold ks_report rs (mark_emitted t s))) = Some Decoder_recovery) \<and>
    (now - t \<ge> ks_maximum_interval s \<longrightarrow> keyframe_due now (fold ks_report rs (mark_emitted t s)) \<noteq> None)"
  using assms ks_report_frame [of rs "mark_emitted t s"]
  by (simp add: keyframe_due_def mark_emitted_def notify_decoder_recovery_def)

theorem keyframe_pacing_witness:
  "keyframe_due 100 (fold ks_report [Loss_report 90, Nacks_exhausted_report]
     (mark_emitted 0 (ks_reset 0 (make_keyframe_scheduler 250000000 2000000000 50)))) = None"
  using keyframe_pacing [of "ks_reset 0 (make_keyframe_scheduler 250000000 2000000000 50)" 100 0
      "[Loss_report 90, Nacks_exhausted_report]"]
  by (simp add: ks_reset_def make_keyframe_scheduler_def millisecond_def)

end
