(* ===== verification/StartBarrier.thy ===== *)
theory StartBarrier
  imports Prelude
begin

text \<open>
  The pure coordination logic of the server's dashboard, three header-only classes:
  \<open>ExamStartBarrier\<close> (\<open>server/include/nstu/exam_start_barrier.hpp\<close>), which holds the reveal
  of an exam until the cohort may begin; \<open>SnapshotGenerationGate\<close>, which admits one
  processing attempt per snapshot generation; \<open>StreamRearmWatchdog\<close>, which re-asserts a
  stream that went dark. A \<open>std::set\<close> is a HOL set, iterated in the order of its keys
  (\<open>sorted_list_of_set\<close>); millisecond clocks are \<open>std::uint64_t\<close> and therefore words, a
  \<open>steady_clock\<close> time point is an integer.

  The lemmas: an inductive relation \<open>barrier_run\<close> of the reachable states with the history of
  events and the log of releases; its invariant; the refinement of a declarative
  specification that speaks of the history only; and that a full cohort is always released.
\<close>

section \<open>Synchronized start\<close>

record 'a barrier =
  cohort :: "'a set"
  ready :: "'a set"
  released :: "'a set"
  quorum :: nat
  grace_period_ms :: u64
  start_time_ms :: u64
  begun :: bool

definition make_barrier :: "'a list \<Rightarrow> nat \<Rightarrow> u64 \<Rightarrow> u64 \<Rightarrow> 'a barrier" where
  "make_barrier members q grace start =
     (let size = card (set members) in
      \<lparr> cohort = set members, ready = {}, released = {},
        quorum = (if size = 0 then 1 else if q < 1 then 1 else if q > size then size else q),
        grace_period_ms = grace, start_time_ms = start, begun = False \<rparr>)"

definition mark_ready :: "'a \<Rightarrow> 'a barrier \<Rightarrow> bool \<times> 'a barrier" where
  "mark_ready client b =
     (if client \<notin> cohort b then (False, b)
      else (client \<notin> ready b, b\<lparr>ready := insert client (ready b)\<rparr>))"

definition should_begin :: "u64 \<Rightarrow> 'a barrier \<Rightarrow> bool" where
  "should_begin now b =
     (if cohort b \<noteq> {} \<and> card (ready b) = card (cohort b) then True
      else card (ready b) \<ge> quorum b \<and> now \<ge> start_time_ms b + grace_period_ms b)"

fun release_loop :: "'a list \<Rightarrow> 'a set \<Rightarrow> 'a list \<times> 'a set" where
  "release_loop [] rel = ([], rel)"
| "release_loop (client # rest) rel =
     (if client \<notin> rel
      then let (releasable, rel') = release_loop rest (insert client rel) in (client # releasable, rel')
      else release_loop rest rel)"

definition poll :: "u64 \<Rightarrow> 'a::linorder barrier \<Rightarrow> 'a list \<times> 'a barrier" where
  "poll now b =
     (if \<not> begun b \<and> \<not> should_begin now b then ([], b)
      else let (releasable, rel) = release_loop (sorted_list_of_set (ready b)) (released b)
           in (releasable, b\<lparr>begun := True, released := rel\<rparr>))"

definition cohort_size :: "'a barrier \<Rightarrow> nat" where
  "cohort_size b = card (cohort b)"

definition ready_count :: "'a barrier \<Rightarrow> nat" where
  "ready_count b = card (ready b)"

section \<open>One attempt per snapshot generation\<close>

datatype gate_state = Unattempted | Attempting | Succeeded | Failed

record generation_gate =
  gate_generation :: u64
  gate_state :: gate_state

definition gate_reset :: "generation_gate \<Rightarrow> generation_gate" where
  "gate_reset g = g\<lparr>gate_generation := 0, gate_state := Unattempted\<rparr>"

definition make_gate :: generation_gate where
  "make_gate = \<lparr> gate_generation = 0, gate_state = Unattempted \<rparr>"

definition gate_begin :: "u64 \<Rightarrow> generation_gate \<Rightarrow> bool \<times> generation_gate" where
  "gate_begin generation g =
     (if generation = 0 then (False, g)
      else let g = (if generation \<noteq> gate_generation g
                    then g\<lparr>gate_generation := generation, gate_state := Unattempted\<rparr> else g)
           in if gate_state g \<noteq> Unattempted then (False, g)
              else (True, g\<lparr>gate_state := Attempting\<rparr>))"

definition mark_succeeded :: "u64 \<Rightarrow> generation_gate \<Rightarrow> generation_gate" where
  "mark_succeeded generation g =
     (if generation = gate_generation g \<and> gate_state g = Attempting
      then g\<lparr>gate_state := Succeeded\<rparr> else g)"

definition mark_failed :: "u64 \<Rightarrow> generation_gate \<Rightarrow> generation_gate" where
  "mark_failed generation g =
     (if generation = gate_generation g \<and> gate_state g = Attempting
      then g\<lparr>gate_state := Failed\<rparr> else g)"

definition gate_succeeded :: "u64 \<Rightarrow> generation_gate \<Rightarrow> bool" where
  "gate_succeeded generation g \<longleftrightarrow>
     generation \<noteq> 0 \<and> generation = gate_generation g \<and> gate_state g = Succeeded"

definition gate_failed :: "u64 \<Rightarrow> generation_gate \<Rightarrow> bool" where
  "gate_failed generation g \<longleftrightarrow>
     generation \<noteq> 0 \<and> generation = gate_generation g \<and> gate_state g = Failed"

section \<open>Re-arming a dark stream\<close>

datatype stream_rearm = RearmNone | RearmFirst | RearmRepeat

record watchdog =
  wd_client_id :: u64
  wd_generation :: u64
  stalled_since :: int
  armed_this_episode :: bool

definition make_watchdog :: watchdog where
  "make_watchdog =
     \<lparr> wd_client_id = 0, wd_generation = 0, stalled_since = 0, armed_this_episode = False \<rparr>"

definition wd_update :: "u64 \<Rightarrow> u64 \<Rightarrow> int \<Rightarrow> int \<Rightarrow> watchdog \<Rightarrow> stream_rearm \<times> watchdog" where
  "wd_update desired current now stall w =
     (if desired = 0
      then (RearmNone, w\<lparr>wd_client_id := 0, wd_generation := 0, armed_this_episode := False\<rparr>)
      else if desired \<noteq> wd_client_id w
      then (RearmNone, w\<lparr>wd_client_id := desired, wd_generation := current, stalled_since := now,
                         armed_this_episode := False\<rparr>)
      else if current \<noteq> wd_generation w
      then (RearmNone, w\<lparr>wd_generation := current, stalled_since := now,
                         armed_this_episode := False\<rparr>)
      else if now - stalled_since w \<ge> stall
      then let w = w\<lparr>stalled_since := now\<rparr> in
           if \<not> armed_this_episode w then (RearmFirst, w\<lparr>armed_this_episode := True\<rparr>)
           else (RearmRepeat, w)
      else (RearmNone, w))"

definition wd_reset :: "watchdog \<Rightarrow> watchdog" where
  "wd_reset w =
     w\<lparr>wd_client_id := 0, wd_generation := 0, stalled_since := 0, armed_this_episode := False\<rparr>"

definition watched_client_id :: "watchdog \<Rightarrow> u64" where
  "watched_client_id w = wd_client_id w"

section \<open>The barrier: reachable states\<close>

datatype 'a barrier_event = Report 'a | Poll u64

text \<open>
  \<open>barrier_run b0 es b log\<close>: from \<open>b0\<close>, the calls \<open>es\<close> lead to \<open>b\<close>, and \<open>log\<close> is the
  concatenation of what the polls returned, that is the sequence of \<open>exam_begin\<close> sends.
\<close>

inductive barrier_run :: "'a::linorder barrier \<Rightarrow> 'a barrier_event list \<Rightarrow> 'a barrier \<Rightarrow> 'a list \<Rightarrow> bool"
  for b0 where
  start: "barrier_run b0 [] b0 []"
| report: "barrier_run b0 es b log \<Longrightarrow> mark_ready c b = (r, b') \<Longrightarrow>
     barrier_run b0 (es @ [Report c]) b' log"
| polled: "barrier_run b0 es b log \<Longrightarrow> poll now b = (out, b') \<Longrightarrow>
     barrier_run b0 (es @ [Poll now]) b' (log @ out)"

lemma report_step:
  "barrier_run b0 es b log \<Longrightarrow> barrier_run b0 (es @ [Report c]) (snd (mark_ready c b)) log"
  by (rule report [of _ _ _ _ _ "fst (mark_ready c b)"]) auto

lemma poll_step:
  "barrier_run b0 es b log \<Longrightarrow>
   barrier_run b0 (es @ [Poll now]) (snd (poll now b)) (log @ fst (poll now b))"
  by (rule polled) auto

lemma release_loop_eq:
  "distinct xs \<Longrightarrow> release_loop xs rel = (filter (\<lambda>c. c \<notin> rel) xs, rel \<union> set xs)"
proof (induction xs arbitrary: rel)
  case (Cons c xs)
  have "filter (\<lambda>x. x \<notin> insert c rel) xs = filter (\<lambda>x. x \<notin> rel) xs"
    using Cons.prems by (intro filter_cong) auto
  then show ?case using Cons by auto
qed simp

definition fresh_ready :: "'a::linorder barrier \<Rightarrow> 'a list" where
  "fresh_ready b = filter (\<lambda>c. c \<notin> released b) (sorted_list_of_set (ready b))"

lemma poll_eq:
  "finite (ready b) \<Longrightarrow>
   poll now b = (if begun b \<or> should_begin now b
                 then (fresh_ready b, b\<lparr>begun := True, released := released b \<union> ready b\<rparr>) else ([], b))"
  by (simp add: poll_def release_loop_eq fresh_ready_def)

lemma set_fresh_ready [simp]: "finite (ready b) \<Longrightarrow> set (fresh_ready b) = ready b - released b"
  by (auto simp: fresh_ready_def)

lemma distinct_fresh_ready [simp]: "distinct (fresh_ready b)"
  by (simp add: fresh_ready_def)

definition barrier_inv :: "'a barrier \<Rightarrow> bool" where
  "barrier_inv b \<longleftrightarrow> finite (cohort b) \<and> ready b \<subseteq> cohort b \<and> released b \<subseteq> ready b \<and>
     (released b \<noteq> {} \<longrightarrow> begun b) \<and> 1 \<le> quorum b \<and> quorum b \<le> max 1 (card (cohort b))"

lemma barrier_inv_finite: "barrier_inv b \<Longrightarrow> finite (ready b)"
  by (auto simp: barrier_inv_def intro: finite_subset)

lemma make_barrier_inv: "barrier_inv (make_barrier members q grace start)"
  by (auto simp: barrier_inv_def make_barrier_def Let_def Suc_le_eq card_gt_0_iff)

lemma mark_ready_inv: "barrier_inv b \<Longrightarrow> barrier_inv (snd (mark_ready c b))"
  by (auto simp: barrier_inv_def mark_ready_def)

lemma poll_inv: "barrier_inv b \<Longrightarrow> barrier_inv (snd (poll now b))"
  by (auto simp: poll_eq [OF barrier_inv_finite]) (auto simp: barrier_inv_def)

lemma barrier_run_inv:
  assumes "barrier_run b0 es b log" and "barrier_inv b0"
  shows "barrier_inv b"
  using assms
proof induction
  case (report es b log c r b')
  then show ?case using mark_ready_inv [of b c] by simp
next
  case (polled es b log now out b')
  then show ?case using poll_inv [of b now] by simp
qed

text \<open>
  C28. Safety of the synchronized start. In every state a barrier can reach, whatever reports and
  polls arrive in whatever order, only cohort members count as ready, only ready clients have
  been released, the log of \<open>exam_begin\<close> sends names every released client exactly once, and
  nothing at all has been sent before the cohort began.
\<close>

theorem barrier_releases_once:
  assumes "barrier_run (make_barrier members q grace start) es b log"
  shows "ready b \<subseteq> set members \<and> released b \<subseteq> ready b \<and> distinct log \<and> set log = released b \<and>
    (log \<noteq> [] \<longrightarrow> begun b)"
proof -
  let ?b0 = "make_barrier members q grace start"
  have inv: "barrier_run ?b0 es b log \<Longrightarrow> barrier_inv b" for es b log
    by (rule barrier_run_inv [OF _ make_barrier_inv])
  have "cohort b = set members \<and> distinct log \<and> set log = released b"
    using assms
  proof induction
    case start
    then show ?case by (simp add: make_barrier_def Let_def)
  next
    case (report es b log c r b')
    then show ?case by (auto simp: mark_ready_def split: if_splits)
  next
    case (polled es b log now out b')
    then show ?case
      using inv [OF polled.hyps(1)] barrier_inv_finite [OF inv [OF polled.hyps(1)]]
      by (auto simp: poll_eq barrier_inv_def split: if_splits)
  qed
  then show ?thesis using inv [OF assms] by (auto simp: barrier_inv_def)
qed

section \<open>The barrier against its specification\<close>

text \<open>
  The specification speaks of the history of calls only: who has reported, whether some poll
  met the begin condition with the reports made before it, and what the last poll saw.
\<close>

definition reported :: "'a barrier_event list \<Rightarrow> 'a set" where
  "reported es = {c. Report c \<in> set es}"

definition effective_quorum :: "'a set \<Rightarrow> nat \<Rightarrow> nat" where
  "effective_quorum members q = max 1 (min q (card members))"

definition may_begin :: "'a set \<Rightarrow> nat \<Rightarrow> u64 \<Rightarrow> 'a set \<Rightarrow> u64 \<Rightarrow> bool" where
  "may_begin members q deadline present now \<longleftrightarrow>
     members \<noteq> {} \<and> members \<subseteq> present \<or>
     effective_quorum members q \<le> card (members \<inter> present) \<and> deadline \<le> now"

definition has_begun :: "'a set \<Rightarrow> nat \<Rightarrow> u64 \<Rightarrow> 'a barrier_event list \<Rightarrow> bool" where
  "has_begun members q deadline es \<longleftrightarrow>
     (\<exists>pre now post. es = pre @ Poll now # post \<and> may_begin members q deadline (reported pre) now)"

definition seen_by_last_poll :: "'a barrier_event list \<Rightarrow> 'a barrier_event list" where
  "seen_by_last_poll es = rev (dropWhile (\<lambda>e. case e of Report _ \<Rightarrow> True | Poll _ \<Rightarrow> False) (rev es))"

lemma reported_simps [simp]:
  "reported [] = {}"
  "reported (es @ [Report c]) = insert c (reported es)"
  "reported (es @ [Poll now]) = reported es"
  by (auto simp: reported_def)

lemma seen_by_last_poll_simps [simp]:
  "seen_by_last_poll [] = []"
  "seen_by_last_poll (es @ [Report c]) = seen_by_last_poll es"
  "seen_by_last_poll (es @ [Poll now]) = es @ [Poll now]"
  by (simp_all add: seen_by_last_poll_def)

lemma has_begun_simps [simp]:
  "\<not> has_begun M q d []"
  "has_begun M q d (es @ [Report c]) \<longleftrightarrow> has_begun M q d es"
  "has_begun M q d (es @ [Poll now]) \<longleftrightarrow> has_begun M q d es \<or> may_begin M q d (reported es) now"
proof -
  show "\<not> has_begun M q d []" by (simp add: has_begun_def)
  have snoc: "es @ [e] = pre @ Poll n # post \<longleftrightarrow>
      (post = [] \<and> pre = es \<and> e = Poll n) \<or> (\<exists>post'. post = post' @ [e] \<and> es = pre @ Poll n # post')" for e pre n post
    by (cases post rule: rev_cases) auto
  show "has_begun M q d (es @ [Report c]) \<longleftrightarrow> has_begun M q d es"
    unfolding has_begun_def snoc by auto
  show "has_begun M q d (es @ [Poll now]) \<longleftrightarrow> has_begun M q d es \<or> may_begin M q d (reported es) now"
    unfolding has_begun_def snoc by auto
qed

lemma should_begin_spec:
  assumes "finite (cohort b)" and "ready b = cohort b \<inter> R" and "quorum b = effective_quorum (cohort b) q"
  shows "should_begin now b \<longleftrightarrow> may_begin (cohort b) q (start_time_ms b + grace_period_ms b) R now"
proof -
  have "card (cohort b \<inter> R) = card (cohort b) \<longleftrightarrow> cohort b \<subseteq> R"
    using assms(1) by (metis Int_lower1 card_subset_eq inf.absorb_iff1)
  then show ?thesis using assms by (auto simp: should_begin_def may_begin_def)
qed

text \<open>
  C15. Refinement of the declarative start protocol. After any history of reports and polls the
  barrier's state is what the history alone determines: ready are the cohort members that
  reported; the exam has begun exactly when some poll found everyone present, or the quorum
  (clamped into 1 .. cohort size) present at or after the grace deadline; and released are
  exactly the cohort members that had reported when the last poll ran, once begun. The
  deadline is the 64-bit sum of start time and grace period, as computed by the code.
\<close>

theorem barrier_refines_history:
  assumes "barrier_run (make_barrier members q grace start) es b log"
  shows "ready b = set members \<inter> reported es \<and>
    begun b = has_begun (set members) q (start + grace) es \<and>
    set log = (if has_begun (set members) q (start + grace) es
               then set members \<inter> reported (seen_by_last_poll es) else {})"
proof -
  let ?b0 = "make_barrier members q grace start" and ?M = "set members"
  have inv: "barrier_run ?b0 es b log \<Longrightarrow> barrier_inv b" for es b log
    by (rule barrier_run_inv [OF _ make_barrier_inv])
  have "cohort b = ?M \<and> quorum b = effective_quorum ?M q \<and> start_time_ms b = start \<and> grace_period_ms b = grace \<and>
      ready b = ?M \<inter> reported es \<and> begun b = has_begun ?M q (start + grace) es \<and> set log = released b \<and>
      released b = (if has_begun ?M q (start + grace) es then ?M \<inter> reported (seen_by_last_poll es) else {})"
    using assms
  proof induction
    case start
    have "max (Suc 0) (card ?M) = card ?M" if "members \<noteq> []"
      using that by (simp add: max_def not_le Suc_le_eq card_gt_0_iff)
    then show ?case by (auto simp: make_barrier_def Let_def effective_quorum_def)
  next
    case (report es b log c r b')
    then show ?case by (auto simp: mark_ready_def split: if_splits)
  next
    case (polled es b log now out b')
    have fin: "finite (cohort b)" and sub: "released b \<subseteq> ready b"
      using inv [OF polled.hyps(1)] by (auto simp: barrier_inv_def)
    have "should_begin now b = may_begin ?M q (start + grace) (reported es) now"
      using should_begin_spec [OF fin, of "reported es" q now] polled.IH by auto
    then show ?case
      using polled sub poll_eq [OF barrier_inv_finite [OF inv [OF polled.hyps(1)]], of now]
      by (auto split: if_splits)
  qed
  then show ?thesis by simp
qed

text \<open>A run in which two of three members start after the grace period and the third joins late.\<close>

definition sample_events :: "nat barrier_event list" where
  "sample_events = [Report 9, Report 2, Poll 50, Report 1, Poll 160, Report 3, Poll 170]"

definition sample_final :: "nat barrier" where
  "sample_final = make_barrier [1, 2, 3] 2 50 100\<lparr>ready := {1, 2, 3}, released := {1, 2, 3}, begun := True\<rparr>"

lemma barrier_sample_run:
  "barrier_run (make_barrier [1, 2, 3] 2 50 100) sample_events sample_final [1, 2, 3]"
proof -
  let ?b = "make_barrier [1, 2, 3 :: nat] 2 50 100"
  note defs = mark_ready_def poll_def should_begin_def make_barrier_def Let_def
  have "barrier_run ?b [] ?b []" by (rule start)
  from report_step [OF this, of 9] have "barrier_run ?b [Report 9] ?b []"
    by (simp add: defs)
  from report_step [OF this, of 2] have "barrier_run ?b [Report 9, Report 2] (?b\<lparr>ready := {2}\<rparr>) []"
    by (simp add: defs)
  from poll_step [OF this, of 50] have
    "barrier_run ?b [Report 9, Report 2, Poll 50] (?b\<lparr>ready := {2}\<rparr>) []"
    by (simp add: defs)
  from report_step [OF this, of 1] have
    "barrier_run ?b [Report 9, Report 2, Poll 50, Report 1] (?b\<lparr>ready := {1, 2}\<rparr>) []"
    by (simp add: defs)
  from poll_step [OF this, of 160] have
    "barrier_run ?b [Report 9, Report 2, Poll 50, Report 1, Poll 160]
       (?b\<lparr>ready := {1, 2}, released := {1, 2}, begun := True\<rparr>) [1, 2]"
    by (simp add: defs insert_commute)
  from report_step [OF this, of 3] have
    "barrier_run ?b [Report 9, Report 2, Poll 50, Report 1, Poll 160, Report 3]
       (?b\<lparr>ready := {1, 2, 3}, released := {1, 2}, begun := True\<rparr>) [1, 2]"
    by (simp add: defs insert_commute)
  from poll_step [OF this, of 170] show ?thesis
    by (simp add: defs insert_commute sample_events_def sample_final_def)
qed

theorem barrier_releases_once_witness:
  "ready sample_final \<subseteq> {1, 2, 3} \<and> {1, 2, 3} = released sample_final \<and> begun sample_final"
  using barrier_releases_once [OF barrier_sample_run] by auto

theorem barrier_refines_history_witness:
  "ready sample_final = {1, 2, 3} \<inter> reported sample_events \<and> has_begun {1, 2, 3} 2 150 sample_events \<and>
   {1, 2, 3} \<subseteq> reported (seen_by_last_poll sample_events)"
proof -
  have "begun sample_final" by (simp add: sample_final_def)
  then show ?thesis using barrier_refines_history [OF barrier_sample_run] by auto
qed

section \<open>The gate\<close>

datatype gate_event = GBegin u64 | GSucceeded u64 | GFailed u64

fun gate_run :: "gate_event list \<Rightarrow> generation_gate \<Rightarrow> u64 list" where
  "gate_run [] g = []"
| "gate_run (GBegin n # es) g =
     (let (granted, g') = gate_begin n g in (if granted then [n] else []) @ gate_run es g')"
| "gate_run (GSucceeded n # es) g = gate_run es (mark_succeeded n g)"
| "gate_run (GFailed n # es) g = gate_run es (mark_failed n g)"

fun asked :: "gate_event list \<Rightarrow> u64 list" where
  "asked [] = []"
| "asked (GBegin n # es) = (if n = 0 then asked es else n # asked es)"
| "asked (_ # es) = asked es"

definition gate_inv :: "generation_gate \<Rightarrow> bool" where
  "gate_inv g \<longleftrightarrow> (gate_state g = Unattempted \<longleftrightarrow> gate_generation g = 0)"

lemma gate_marks [simp]:
  "gate_inv g \<Longrightarrow> gate_inv (mark_succeeded n g)" "gate_generation (mark_succeeded n g) = gate_generation g"
  "gate_inv g \<Longrightarrow> gate_inv (mark_failed n g)" "gate_generation (mark_failed n g) = gate_generation g"
  by (auto simp: gate_inv_def mark_succeeded_def mark_failed_def)

lemma gate_begin_eq:
  "gate_inv g \<Longrightarrow> n \<noteq> 0 \<Longrightarrow>
   gate_begin n g = (n \<noteq> gate_generation g,
     if n = gate_generation g then g else g\<lparr>gate_generation := n, gate_state := Attempting\<rparr>)"
  by (auto simp: gate_begin_def gate_inv_def Let_def)

lemma gate_run_from:
  "gate_inv g \<Longrightarrow>
   gate_run es g = (if gate_generation g = 0 then remdups_adj (asked es)
                    else tl (remdups_adj (gate_generation g # asked es)))"
proof (induction es arbitrary: g)
  case (Cons e es)
  show ?case
  proof (cases e)
    case (GBegin n)
    show ?thesis
    proof (cases "n = 0")
      case True
      then show ?thesis using Cons GBegin by (simp add: gate_begin_def)
    next
      case False
      let ?g = "g\<lparr>gate_generation := n, gate_state := Attempting\<rparr>"
      have "gate_inv ?g" using False by (simp add: gate_inv_def)
      then show ?thesis
        using Cons.IH [of ?g] Cons.IH [of g] Cons.prems GBegin False gate_begin_eq [OF \<open>gate_inv g\<close> False]
        by (cases "n = gate_generation g") (auto simp: remdups_adj_Cons split: list.splits)
    qed
  qed (use Cons in simp_all)
qed simp

text \<open>
  One attempt per snapshot generation. Whatever success and failure marks are interleaved,
  the attempts that a gate without resets grants are the non-zero generations asked for, with
  immediate repetitions removed; so, when the generations asked for never go back, every
  non-zero generation is granted exactly once.
\<close>

theorem gate_one_attempt:
  "gate_run es make_gate = remdups_adj (asked es) \<and>
   (sorted (asked es) \<longrightarrow> distinct (gate_run es make_gate) \<and> set (gate_run es make_gate) = set (asked es))"
proof -
  have "gate_run es make_gate = remdups_adj (asked es)"
    using gate_run_from [of make_gate es] by (simp add: gate_inv_def make_gate_def)
  moreover have "distinct (remdups_adj xs)" if "sorted xs" for xs :: "u64 list"
    using that by (induction xs rule: remdups_adj.induct) auto
  ultimately show ?thesis by simp
qed

theorem gate_one_attempt_witness:
  "gate_run [GBegin 1, GSucceeded 1, GBegin 1, GBegin 2, GFailed 2, GBegin 2] make_gate = [1, 2] \<and>
   distinct (gate_run [GBegin 1, GSucceeded 1, GBegin 1, GBegin 2, GFailed 2, GBegin 2] make_gate)"
  using gate_one_attempt [of "[GBegin 1, GSucceeded 1, GBegin 1, GBegin 2, GFailed 2, GBegin 2]"]
  by simp

section \<open>The watchdog\<close>

text \<open>A tick is what one call of \<open>update\<close> is told: the wanted client, its generation, the time.\<close>

type_synonym tick = "u64 \<times> u64 \<times> int"

fun wd_run :: "int \<Rightarrow> tick list \<Rightarrow> watchdog \<Rightarrow> (int \<times> stream_rearm) list" where
  "wd_run stall [] w = []"
| "wd_run stall ((desired, current, now) # ticks) w =
     (let (r, w') = wd_update desired current now stall w
      in (if r = RearmNone then [] else [(now, r)]) @ wd_run stall ticks w')"

definition tick_time :: "tick \<Rightarrow> int" where
  "tick_time t = snd (snd t)"

definition spaced :: "int \<Rightarrow> int list \<Rightarrow> bool" where
  "spaced stall ts \<longleftrightarrow> sorted_wrt (\<lambda>s t. s + stall \<le> t) ts"

lemma wd_update_cases:
  assumes "wd_update desired current now stall w = (r, w')"
  obtains (quiet) "r = RearmNone" "stalled_since w' = stalled_since w \<or> stalled_since w' = now"
    | (rearm) "r \<noteq> RearmNone" "stalled_since w + stall \<le> now" "stalled_since w' = now"
  using assms by (auto simp: wd_update_def Let_def split: if_splits)

lemma wd_run_spaced:
  assumes "0 \<le> stall" and "sorted (map tick_time ticks)" and "list_all (\<lambda>t. stalled_since w \<le> tick_time t) ticks"
  shows "spaced stall (map fst (wd_run stall ticks w)) \<and>
    list_all (\<lambda>t. stalled_since w + stall \<le> t) (map fst (wd_run stall ticks w))"
  using assms(2,3)
proof (induction ticks arbitrary: w)
  case (Cons t ticks)
  obtain desired current now where t: "t = (desired, current, now)" by (cases t)
  obtain r w' where u: "wd_update desired current now stall w = (r, w')" by fastforce
  have later: "list_all (\<lambda>x. stalled_since w' \<le> tick_time x) ticks"
    using u Cons.prems by (cases rule: wd_update_cases) (auto simp: t tick_time_def list_all_iff)
  have "sorted (map tick_time ticks)" using Cons.prems by simp
  note IH = Cons.IH [OF this later]
  show ?case
    using u
  proof (cases rule: wd_update_cases)
    case quiet
    have "stalled_since w \<le> stalled_since w'" using quiet Cons.prems by (auto simp: t tick_time_def)
    then show ?thesis using IH quiet u by (auto simp: t list_all_iff)
  next
    case rearm
    have w: "stalled_since w \<le> now" using Cons.prems by (simp add: t tick_time_def)
    have "wd_run stall (t # ticks) w = (now, r) # wd_run stall ticks w'" using u rearm by (simp add: t)
    then show ?thesis using IH rearm w by (auto simp: spaced_def list_all_iff)
  qed
qed (simp add: spaced_def)

lemma wd_run_dark:
  assumes "c \<noteq> 0" and "wd_client_id w = c" and "wd_generation w = g"
    and "list_all (\<lambda>(d, n, _). d = c \<and> n = g) ticks"
  shows "list_all (\<lambda>t. tick_time t < stalled_since w + stall) ticks \<or>
     (\<exists>at rest. wd_run stall ticks w = (at, if armed_this_episode w then RearmRepeat else RearmFirst) # rest \<and>
        list_all (\<lambda>x. snd x = RearmRepeat) rest)"
  using assms(2-4)
proof (induction ticks arbitrary: w)
  case (Cons t ticks)
  obtain now where t: "t = (c, g, now)" using Cons.prems(3) by (cases t) auto
  note dark = Cons.prems(1,2)
  let ?w = "w\<lparr>stalled_since := now, armed_this_episode := True\<rparr>"
  have "list_all (\<lambda>(d, n, _). d = c \<and> n = g) ticks" using Cons.prems(3) by simp
  note IH = Cons.IH [OF _ _ this]
  show ?case
  proof (cases "now - stalled_since w \<ge> stall")
    case True
    have "wd_run stall (t # ticks) w =
        (now, if armed_this_episode w then RearmRepeat else RearmFirst) # wd_run stall ticks ?w"
    proof (cases "armed_this_episode w")
      case armed: True
      then have "w\<lparr>stalled_since := now\<rparr> = ?w" by (cases w) simp
      then have same: "wd_run stall ticks (w\<lparr>stalled_since := now\<rparr>) = wd_run stall ticks ?w"
        by (rule arg_cong)
      have "wd_run stall (t # ticks) w = (now, RearmRepeat) # wd_run stall ticks (w\<lparr>stalled_since := now\<rparr>)"
        using armed True dark assms(1) by (simp add: t wd_update_def)
      then show ?thesis using armed same by simp
    next
      case False
      then show ?thesis using True dark assms(1) by (auto simp: t wd_update_def Let_def)
    qed
    moreover have "list_all (\<lambda>x. snd x = RearmRepeat) (wd_run stall ticks v)"
      if "wd_client_id v = c" "wd_generation v = g" "armed_this_episode v" for v
      using that \<open>list_all (\<lambda>(d, n, _). d = c \<and> n = g) ticks\<close>
    proof (induction ticks arbitrary: v)
      case (Cons t ticks)
      then show ?case using assms(1) by (cases t) (auto simp: wd_update_def Let_def)
    qed simp
    ultimately show ?thesis using dark by simp
  next
    case False
    then have "wd_run stall (t # ticks) w = wd_run stall ticks w"
      using dark assms(1) by (simp add: t wd_update_def)
    then show ?thesis using IH [of w] dark False by (auto simp: t tick_time_def)
  qed
qed simp

text \<open>
  C34. The watchdog heals a dark stream, at a bounded rate. Let client \<open>c\<close> be wanted and seeded
  at time \<open>now\<close> with generation \<open>g\<close>. While it stays wanted and delivers no frame, as soon as one
  later tick is at or past \<open>now + stall\<close> the stream command has been re-asserted, the first time
  marked \<open>first\<close> and every other time \<open>repeat\<close>; and any two re-assertions are at least
  the stall window apart.
\<close>

theorem watchdog_heals:
  assumes "c \<noteq> 0" and "c \<noteq> wd_client_id w0" and "0 \<le> stall"
    and "wd_update c g now stall w0 = (r, w)"
    and "list_all (\<lambda>(d, n, t). d = c \<and> n = g \<and> now \<le> t) ticks" and "sorted (map tick_time ticks)"
    and "\<exists>t \<in> set ticks. now + stall \<le> tick_time t"
  shows "r = RearmNone \<and> spaced stall (map fst (wd_run stall ticks w)) \<and>
    (\<exists>at rest. wd_run stall ticks w = (at, RearmFirst) # rest \<and> list_all (\<lambda>x. snd x = RearmRepeat) rest)"
proof -
  have w: "r = RearmNone" "wd_client_id w = c" "wd_generation w = g" "stalled_since w = now" "\<not> armed_this_episode w"
    using assms(1,2,4) by (auto simp: wd_update_def)
  have "list_all (\<lambda>t. stalled_since w \<le> tick_time t) ticks"
    using assms(5) w by (auto simp: list_all_iff tick_time_def)
  then have "spaced stall (map fst (wd_run stall ticks w))"
    using wd_run_spaced [OF assms(3,6)] by blast
  moreover have "list_all (\<lambda>(d, n, _). d = c \<and> n = g) ticks"
    using assms(5) by (auto simp: list_all_iff)
  moreover have "\<not> list_all (\<lambda>t. tick_time t < stalled_since w + stall) ticks"
    using assms(7) w by (auto simp: list_all_iff not_less)
  ultimately show ?thesis using wd_run_dark [OF assms(1) w(2,3), of ticks stall] w by auto
qed

theorem watchdog_heals_witness:
  "spaced 10 (map fst (wd_run 10 [(7, 3, 5), (7, 3, 12), (7, 3, 15), (7, 3, 30)] (snd (wd_update 7 3 0 10 make_watchdog)))) \<and>
   wd_run 10 [(7, 3, 5), (7, 3, 12), (7, 3, 15), (7, 3, 30)] (snd (wd_update 7 3 0 10 make_watchdog))
     = [(12, RearmFirst), (30, RearmRepeat)]"
  using watchdog_heals [of 7 make_watchdog 10 3 0 "fst (wd_update 7 3 0 10 make_watchdog)"
      "snd (wd_update 7 3 0 10 make_watchdog)" "[(7, 3, 5), (7, 3, 12), (7, 3, 15), (7, 3, 30)]"]
  by (simp add: make_watchdog_def wd_update_def tick_time_def)

end
