(* ===== verification/UrlValidation.thy ===== *)
theory UrlValidation
  imports Prelude
begin

text \<open>
  The launch-URL filter of \<open>common/src/url_validation.cpp\<close>, and the byte-level text helpers it
  shares with the other text filters: \<open>to_lower\<close> for \<open>std::tolower\<close>
  in the C locale and \<open>equals_ci\<close> for a comparison that ignores case. A \<open>std::string_view\<close> is
  its list of bytes. \<open>launch_url_error\<close> is the validator with its error message
  (\<open>None\<close>: accepted).

  The lemmas: an exact description of the accepted URLs, and what \<open>sanitize_launch_url\<close>
  returns.
\<close>

section \<open>Text helpers\<close>

definition to_lower :: "byte \<Rightarrow> byte" where
  "to_lower b = (if 65 \<le> b \<and> b \<le> 90 then b + 32 else b)"

definition equals_ci :: "bytes \<Rightarrow> bytes \<Rightarrow> bool" where
  "equals_ci a b \<longleftrightarrow> length a = length b \<and> list_all2 (\<lambda>x y. to_lower x = to_lower y) a b"

fun starts_with_ci :: "bytes \<Rightarrow> bytes \<Rightarrow> bool" where
  "starts_with_ci str [] = True"
| "starts_with_ci [] (p # prefix) = False"
| "starts_with_ci (c # str) (p # prefix) =
     (if to_lower c \<noteq> to_lower p then False else starts_with_ci str prefix)"

lemma equals_ci_iff: "equals_ci a b \<longleftrightarrow> map to_lower a = map to_lower b"
  by (auto simp: equals_ci_def list_all2_conv_all_nth list_eq_iff_nth_eq)

lemma starts_with_ci_iff: "starts_with_ci s p \<longleftrightarrow> map to_lower (take (length p) s) = map to_lower p"
  by (induction s p rule: starts_with_ci.induct) auto

section \<open>The validator\<close>

definition kMaximumUrlBytes :: nat where "kMaximumUrlBytes = 2048"

definition https_scheme :: bytes where "https_scheme = ascii ''https://''"
definition http_scheme :: bytes where "http_scheme = ascii ''http://''"

definition url_scheme_len :: "bytes \<Rightarrow> nat option" where
  "url_scheme_len url =
     (if starts_with_ci url https_scheme then Some 8
      else if starts_with_ci url http_scheme then Some 7 else None)"

definition host_delimiter :: "byte \<Rightarrow> bool" where
  "host_delimiter c \<longleftrightarrow> c \<in> set (ascii ''/?#'')"

definition url_byte_error :: "byte \<Rightarrow> string option" where
  "url_byte_error c =
     (if c < 32 \<or> c = 127 then Some ''URL contains invalid control characters or newlines.''
      else if c = 32 then Some ''URL contains unencoded whitespace; use %20 instead.''
      else if c = 34 \<or> c = 39 \<or> c = 96
      then Some ''URL contains disallowed quote or backtick characters.''
      else if c = 60 \<or> c = 62 then Some ''URL contains disallowed angle bracket characters.''
      else if c = 124 \<or> c = 94 \<or> c = 92
      then Some ''URL contains disallowed shell or separator characters.''
      else None)"

fun url_bytes_error :: "bytes \<Rightarrow> string option" where
  "url_bytes_error [] = None"
| "url_bytes_error (c # rest) =
     (case url_byte_error c of Some e \<Rightarrow> Some e | None \<Rightarrow> url_bytes_error rest)"

definition launch_url_error :: "bytes \<Rightarrow> string option" where
  "launch_url_error url =
     (if url = [] then Some ''URL cannot be empty.''
      else if length url > kMaximumUrlBytes
      then Some ''URL exceeds maximum allowed length of 2048 bytes.''
      else case url_scheme_len url of
             None \<Rightarrow> Some ''URL must use http:// or https:// protocol scheme.''
           | Some scheme_len \<Rightarrow>
               let remainder = drop scheme_len url in
               if remainder = [] then Some ''URL host component cannot be empty.''
               else if takeWhile (\<lambda>c. \<not> host_delimiter c) remainder = []
               then Some ''URL host component cannot be empty.''
               else url_bytes_error url)"

definition is_valid_launch_url :: "bytes \<Rightarrow> bool" where
  "is_valid_launch_url url \<longleftrightarrow> launch_url_error url = None"

definition url_blank :: "byte \<Rightarrow> bool" where
  "url_blank c \<longleftrightarrow> c = 32 \<or> c = 9 \<or> c = 13 \<or> c = 10"

definition sanitize_launch_url :: "bytes \<Rightarrow> bytes" where
  "sanitize_launch_url raw =
     (let raw = dropWhile url_blank raw;
          raw = rev (dropWhile url_blank (rev raw))
      in if raw = [] then []
         else if starts_with_ci raw http_scheme \<or> starts_with_ci raw https_scheme then raw
         else https_scheme @ raw)"

section \<open>What is accepted\<close>

text \<open>The specification: scheme, host and the rest, and a set of bytes that never occurs.\<close>

definition url_byte_ok :: "byte \<Rightarrow> bool" where
  "url_byte_ok c \<longleftrightarrow> 32 < c \<and> c \<noteq> 127 \<and> c \<notin> {34, 39, 96, 60, 62, 124, 94, 92}"

definition web_url :: "bytes \<Rightarrow> bool" where
  "web_url url \<longleftrightarrow> (\<exists>scheme host rest. url = scheme @ host @ rest \<and>
     map to_lower scheme \<in> {https_scheme, http_scheme} \<and>
     host \<noteq> [] \<and> list_all (\<lambda>c. \<not> host_delimiter c) host \<and> (rest = [] \<or> host_delimiter (hd rest)))"

lemma url_byte_error_iff: "url_byte_error c = None \<longleftrightarrow> url_byte_ok c"
  by (auto simp: url_byte_error_def url_byte_ok_def not_less order.order_iff_strict)

lemma url_bytes_error_iff: "url_bytes_error url = None \<longleftrightarrow> list_all url_byte_ok url"
  by (induction url) (auto simp: url_byte_error_iff [symmetric] split: option.splits)

lemma schemes [simp]:
  "length https_scheme = 8" "length http_scheme = 7"
  "map to_lower https_scheme = https_scheme" "map to_lower http_scheme = http_scheme"
  "https_scheme \<noteq> []" "http_scheme \<noteq> []" "[] \<noteq> https_scheme" "[] \<noteq> http_scheme"
  by (simp_all add: https_scheme_def http_scheme_def ascii_def to_lower_def)

lemma scheme_not_both: "map to_lower (take 8 url) = https_scheme \<Longrightarrow> map to_lower (take 7 url) \<noteq> http_scheme"
proof
  assume "map to_lower (take 8 url) = https_scheme" "map to_lower (take 7 url) = http_scheme"
  moreover have "take 7 (map to_lower (take 8 url)) = map to_lower (take 7 url)"
    by (simp add: take_map)
  ultimately have "take 7 https_scheme = http_scheme" by simp
  then show False by (simp add: https_scheme_def http_scheme_def ascii_def)
qed

lemma url_scheme_len_Some:
  "url_scheme_len url = Some n \<longleftrightarrow> n \<le> length url \<and> map to_lower (take n url) \<in> {https_scheme, http_scheme}"
proof -
  have len: "min n (length url) = length t" if "map to_lower (take n url) = t" for n t
    using that by (metis length_map length_take min.commute)
  have "n = 8" if "n \<le> length url" "map to_lower (take n url) = https_scheme" for n
    using len [OF that(2)] that(1) by simp
  moreover have "n = 7" if "n \<le> length url" "map to_lower (take n url) = http_scheme" for n
    using len [OF that(2)] that(1) by simp
  ultimately show ?thesis
    using len [of 8 https_scheme] len [of 7 http_scheme] scheme_not_both [of url]
    by (auto simp: url_scheme_len_def starts_with_ci_iff)
qed

lemma host_split:
  "takeWhile (\<lambda>c. \<not> host_delimiter c) r \<noteq> [] \<longleftrightarrow>
     (\<exists>host rest. r = host @ rest \<and> host \<noteq> [] \<and> list_all (\<lambda>c. \<not> host_delimiter c) host \<and>
        (rest = [] \<or> host_delimiter (hd rest)))"
proof
  let ?p = "\<lambda>c. \<not> host_delimiter c"
  assume "takeWhile ?p r \<noteq> []"
  moreover have "r = takeWhile ?p r @ dropWhile ?p r" by simp
  moreover have "list_all ?p (takeWhile ?p r)" by (auto simp: list_all_iff dest: set_takeWhileD)
  moreover have "dropWhile ?p r = [] \<or> host_delimiter (hd (dropWhile ?p r))"
    using hd_dropWhile [of ?p r] by blast
  ultimately show "\<exists>host rest. r = host @ rest \<and> host \<noteq> [] \<and> list_all ?p host \<and>
      (rest = [] \<or> host_delimiter (hd rest))" by blast
next
  assume "\<exists>host rest. r = host @ rest \<and> host \<noteq> [] \<and> list_all (\<lambda>c. \<not> host_delimiter c) host \<and>
      (rest = [] \<or> host_delimiter (hd rest))"
  then show "takeWhile (\<lambda>c. \<not> host_delimiter c) r \<noteq> []"
    by (auto simp: neq_Nil_conv)
qed

lemma web_url_iff:
  "web_url url \<longleftrightarrow> (\<exists>n. url_scheme_len url = Some n \<and> takeWhile (\<lambda>c. \<not> host_delimiter c) (drop n url) \<noteq> [])"
proof
  assume "web_url url"
  then obtain s h r where u: "url = s @ h @ r" and s: "map to_lower s \<in> {https_scheme, http_scheme}"
    and h: "h \<noteq> []" "list_all (\<lambda>c. \<not> host_delimiter c) h" "r = [] \<or> host_delimiter (hd r)"
    unfolding web_url_def by blast
  have "takeWhile (\<lambda>c. \<not> host_delimiter c) (h @ r) \<noteq> []" using h host_split by blast
  then show "\<exists>n. url_scheme_len url = Some n \<and> takeWhile (\<lambda>c. \<not> host_delimiter c) (drop n url) \<noteq> []"
    using u s by (intro exI [of _ "length s"]) (simp add: url_scheme_len_Some)
next
  assume "\<exists>n. url_scheme_len url = Some n \<and> takeWhile (\<lambda>c. \<not> host_delimiter c) (drop n url) \<noteq> []"
  then obtain n h r where "map to_lower (take n url) \<in> {https_scheme, http_scheme}" and "drop n url = h @ r"
    and h: "h \<noteq> []" "list_all (\<lambda>c. \<not> host_delimiter c) h" "r = [] \<or> host_delimiter (hd r)"
    unfolding url_scheme_len_Some host_split by blast
  moreover from this have "url = take n url @ h @ r" by (metis append_take_drop_id)
  ultimately show "web_url url" unfolding web_url_def by blast
qed

lemma launch_url_exact_aux:
  "is_valid_launch_url url \<longleftrightarrow> length url \<le> 2048 \<and> web_url url \<and> list_all url_byte_ok url"
proof (cases "url_scheme_len url")
  case None
  then show ?thesis by (simp add: is_valid_launch_url_def launch_url_error_def web_url_iff)
next
  case (Some n)
  then have "url \<noteq> []" by (auto simp: url_scheme_len_def starts_with_ci_iff split: if_splits)
  then show ?thesis
    using Some by (auto simp: is_valid_launch_url_def launch_url_error_def web_url_iff Let_def
        kMaximumUrlBytes_def url_bytes_error_iff)
qed

lemma blank_not_ok: "url_blank c \<Longrightarrow> \<not> url_byte_ok c"
  by (auto simp: url_blank_def url_byte_ok_def)

lemma trim_unblank:
  "list_all (\<lambda>c. \<not> url_blank c) xs \<Longrightarrow> rev (dropWhile url_blank (rev (dropWhile url_blank xs))) = xs"
proof -
  assume "list_all (\<lambda>c. \<not> url_blank c) xs"
  then have keep: "dropWhile url_blank ys = ys" if "set ys = set xs" for ys
    using that by (cases ys) (auto simp: list_all_iff)
  show ?thesis by (simp add: keep)
qed

lemma web_url_schemed: "web_url url \<Longrightarrow> starts_with_ci url http_scheme \<or> starts_with_ci url https_scheme"
  by (auto simp: web_url_iff url_scheme_len_def split: if_splits)

lemma web_url_append: "web_url url \<Longrightarrow> web_url (url @ extra)"
proof -
  assume "web_url url"
  then obtain n where n: "url_scheme_len url = Some n" "takeWhile (\<lambda>c. \<not> host_delimiter c) (drop n url) \<noteq> []"
    by (auto simp: web_url_iff)
  then have "url_scheme_len (url @ extra) = Some n" by (simp add: url_scheme_len_Some)
  moreover have "takeWhile (\<lambda>c. \<not> host_delimiter c) (drop n (url @ extra)) \<noteq> []"
    using n(2) by (cases "drop n url") (auto split: if_splits)
  ultimately show ?thesis by (auto simp: web_url_iff)
qed

lemma separators_ok: "c \<in> set (ascii '';&$%'') \<Longrightarrow> url_byte_ok c"
  by (auto simp: ascii_def url_byte_ok_def)

text \<open>
  C35. The launch-URL filter is exact. The validator accepts a URL exactly when it has at most 2048
  bytes, is an http or https scheme in any case followed by a non-empty host that ends at the
  first slash, question mark or hash, and holds no control byte, blank, quote, backtick, angle
  bracket, bar, caret or backslash; in particular no other scheme is ever launched. Contrary to
  rule 6 in the comment of the header (and in the status document), which lists semicolon,
  ampersand, dollar and percent among the rejected bytes, these four are accepted: an accepted
  URL stays accepted when any such bytes are appended within the length limit. The sanitizer
  leaves every accepted URL as it is.
\<close>

theorem launch_url_exact:
  "is_valid_launch_url url = (length url \<le> 2048 \<and> web_url url \<and> list_all url_byte_ok url) \<and>
   (is_valid_launch_url url \<and> set extra \<subseteq> set (ascii '';&$%'') \<and> length (url @ extra) \<le> 2048 \<longrightarrow>
      is_valid_launch_url (url @ extra)) \<and>
   (is_valid_launch_url url \<longrightarrow> sanitize_launch_url url = url)"
proof -
  have "sanitize_launch_url url = url" if "is_valid_launch_url url"
  proof -
    have "list_all (\<lambda>c. \<not> url_blank c) url"
      using that blank_not_ok by (auto simp: launch_url_exact_aux list_all_iff)
    then show ?thesis
      using that web_url_schemed [of url]
      by (auto simp: sanitize_launch_url_def trim_unblank launch_url_exact_aux simp del: rev_is_Nil_conv)
  qed
  moreover have "is_valid_launch_url (url @ extra)"
    if "is_valid_launch_url url" "set extra \<subseteq> set (ascii '';&$%'')" "length (url @ extra) \<le> 2048"
  proof -
    have "web_url (url @ extra)" using that(1,2) web_url_append [of url extra] by (simp add: launch_url_exact_aux)
    moreover have "list_all url_byte_ok extra" using that(2) separators_ok by (auto simp: list_all_iff)
    ultimately show ?thesis using that by (simp add: launch_url_exact_aux)
  qed
  ultimately show ?thesis by (simp add: launch_url_exact_aux)
qed

theorem launch_url_exact_witness:
  "is_valid_launch_url (ascii ''HTTPS://a.b/c'') \<and> is_valid_launch_url (ascii ''HTTPS://a.b/c&$'') \<and>
   sanitize_launch_url (ascii ''HTTPS://a.b/c'') = ascii ''HTTPS://a.b/c''"
proof -
  have v: "is_valid_launch_url (ascii ''HTTPS://a.b/c'')" by code_simp
  have "ascii ''HTTPS://a.b/c&$'' = ascii ''HTTPS://a.b/c'' @ ascii ''&$''" by (simp add: ascii_def)
  then show ?thesis
    using v launch_url_exact [of "ascii ''HTTPS://a.b/c''" "ascii ''&$''"] by (simp add: ascii_def)
qed

end
