(* ===== verification/FileDistribution.thy ===== *)
theory FileDistribution
  imports UrlValidation
begin

text \<open>
  File distribution to the classroom, \<open>common/src/file_distribution.cpp\<close>: the filename filter
  and sanitizer that keep a received file inside its staging directory, the staging path, and
  the five messages of the transfer. A path is the list of its components, as
  \<open>std::filesystem::path\<close> iterates over it.

  The lemmas: every sanitized name is safe and a safe name is left alone; the staging path of a
  safe name is the base directory plus exactly that component; the message codecs are
  strict where they check every byte and lossless where they ignore padding.
\<close>

section \<open>Filenames\<close>

definition kMaxFileSize :: u64 where "kMaxFileSize = 64 * 1024 * 1024"
definition kMaxChunkSize :: u32 where "kMaxChunkSize = 64 * 1024"
definition kMaxFilenameLength :: nat where "kMaxFilenameLength = 255"

definition reserved_devices :: "bytes list" where
  "reserved_devices =
     map ascii [''CON'', ''PRN'', ''AUX'', ''NUL'',
       ''COM1'', ''COM2'', ''COM3'', ''COM4'', ''COM5'', ''COM6'', ''COM7'', ''COM8'', ''COM9'',
       ''LPT1'', ''LPT2'', ''LPT3'', ''LPT4'', ''LPT5'', ''LPT6'', ''LPT7'', ''LPT8'', ''LPT9'']"

definition is_reserved_dos_device :: "bytes \<Rightarrow> bool" where
  "is_reserved_dos_device stem \<longleftrightarrow> list_ex (equals_ci stem) reserved_devices"

definition filename_byte_bad :: "byte \<Rightarrow> bool" where
  "filename_byte_bad c \<longleftrightarrow> c < 0x20 \<or> c = 0x7F \<or>
     c \<in> set (ascii ''/:*?<>|'') \<or> c = 0x5C \<or> c = 0x22"

definition blank_or_dot :: "byte \<Rightarrow> bool" where
  "blank_or_dot c \<longleftrightarrow> c = 0x20 \<or> c = 0x2E"

definition filename_stem :: "bytes \<Rightarrow> bytes" where
  "filename_stem f = takeWhile (\<lambda>c. c \<noteq> 0x2E) f"

definition is_safe_filename :: "bytes \<Rightarrow> bool" where
  "is_safe_filename f =
     (if f = [] \<or> length f > kMaxFilenameLength then False
      else if blank_or_dot (hd f) \<or> blank_or_dot (last f) then False
      else if list_ex filename_byte_bad f then False
      else if f = ascii ''.'' \<or> f = ascii ''..'' then False
      else if is_reserved_dos_device (filename_stem f) then False
      else True)"

definition default_filename :: bytes where
  "default_filename = ascii ''received_file.bin''"

definition path_separator :: "byte \<Rightarrow> bool" where
  "path_separator c \<longleftrightarrow> c = 0x2F \<or> c = 0x5C"

text \<open>\<open>find_last_not_of(" .")\<close> followed by \<open>substr\<close>: cut the trailing blanks and dots.\<close>

definition trim_end :: "bytes \<Rightarrow> bytes" where
  "trim_end f = rev (dropWhile blank_or_dot (rev f))"

definition sanitize_filename :: "bytes \<Rightarrow> bytes" where
  "sanitize_filename filename =
     (let filename = rev (takeWhile (\<lambda>c. \<not> path_separator c) (rev filename)) in
      if filename = [] then default_filename
      else
        let sanitized = map (\<lambda>c. if filename_byte_bad c then 0x5F else c) filename in
        if list_all blank_or_dot sanitized then default_filename
        else
          let sanitized = trim_end (dropWhile blank_or_dot sanitized);
              over = length sanitized > kMaxFilenameLength;
              cut = take kMaxFilenameLength sanitized in
          if over \<and> list_all blank_or_dot cut then default_filename
          else
            let sanitized = (if over then trim_end cut else sanitized);
                sanitized = (if is_reserved_dos_device (filename_stem sanitized)
                             then take kMaxFilenameLength (ascii ''safe_'' @ sanitized) else sanitized)
            in if is_safe_filename sanitized then sanitized else default_filename)"

section \<open>Staging path\<close>

type_synonym fs_path = "bytes list"

fun strip_common :: "fs_path \<Rightarrow> fs_path \<Rightarrow> fs_path \<times> fs_path" where
  "strip_common (a # as) (b # bs) = (if a = b then strip_common as bs else (a # as, b # bs))"
| "strip_common as bs = (as, bs)"

definition lexically_relative :: "fs_path \<Rightarrow> fs_path \<Rightarrow> fs_path" where
  "lexically_relative p base =
     (let (a, b) = strip_common p base;
          up = length (filter (\<lambda>c. c \<notin> {[], ascii ''.'', ascii ''..''}) b);
          down = length (filter (\<lambda>c. c = ascii ''..'') b)
      in if a = [] \<and> b = [] then [ascii ''.'']
         else if up < down then []
         else if up = down \<and> (a = [] \<or> hd a = []) then [ascii ''.'']
         else replicate (up - down) (ascii ''..'') @ a)"

definition path_string :: "fs_path \<Rightarrow> bytes" where
  "path_string p = concat (case p of [] \<Rightarrow> [] | c # cs \<Rightarrow> c # map (\<lambda>c. 0x5C # c) cs)"

definition compute_staging_path :: "fs_path \<Rightarrow> bytes \<Rightarrow> fs_path option" where
  "compute_staging_path base_dir filename =
     (if \<not> is_safe_filename filename then None
      else let target_path = base_dir @ [filename];
               rel_str = path_string (lexically_relative target_path base_dir)
           in if rel_str = [] \<or> take 2 rel_str = ascii ''..'' then None else Some target_path)"

section \<open>Messages\<close>

datatype file_dist_status =
  In_progress | Completed | Hash_mismatch | Write_error | Cancelled
| Rejected_exam_active | Rejected_unsafe_path | Rejected_quota_exceeded

fun status_code :: "file_dist_status \<Rightarrow> byte" where
  "status_code In_progress = 0"
| "status_code Completed = 1"
| "status_code Hash_mismatch = 2"
| "status_code Write_error = 3"
| "status_code Cancelled = 4"
| "status_code Rejected_exam_active = 5"
| "status_code Rejected_unsafe_path = 6"
| "status_code Rejected_quota_exceeded = 7"

definition all_statuses :: "file_dist_status list" where
  "all_statuses = [In_progress, Completed, Hash_mismatch, Write_error, Cancelled,
     Rejected_exam_active, Rejected_unsafe_path, Rejected_quota_exceeded]"

record file_dist_start =
  fs_session_id :: u64
  fs_file_size :: u64
  fs_sha256 :: bytes
  fs_filename :: bytes

record file_dist_chunk =
  fc_session_id :: u64
  fc_offset :: u64
  fc_data :: bytes

record file_dist_status_msg =
  fm_session_id :: u64
  fm_bytes_received :: u64
  fm_status :: file_dist_status

record file_dist_cancel =
  fx_session_id :: u64
  fx_reason_code :: u32

text \<open>\<open>FileDistFinishMessage\<close> has one field; it is represented by that field.\<close>

definition encode_file_dist_start :: "file_dist_start \<Rightarrow> bytes" where
  "encode_file_dist_start msg =
     (if fs_filename msg = [] \<or> length (fs_filename msg) > kMaxFilenameLength \<or>
         \<not> is_safe_filename (fs_filename msg) \<or> fs_file_size msg > kMaxFileSize then []
      else append_le (fs_session_id msg) @ append_le (fs_file_size msg) @ fs_sha256 msg @
           append_le (of_nat (length (fs_filename msg)) :: u16) @ fs_filename msg)"

definition decode_file_dist_start :: "bytes \<Rightarrow> file_dist_start option" where
  "decode_file_dist_start payload =
     (if length payload < 51 then None
      else do {
        (session_id, rest) \<leftarrow> read_le payload;
        (file_size, rest) \<leftarrow> read_le rest;
        if file_size > kMaxFileSize then None
        else do {
          (digest, rest) \<leftarrow> read_array 32 rest;
          (filename_len :: u16, rest) \<leftarrow> read_le rest;
          if filename_len = 0 \<or> unat filename_len > kMaxFilenameLength then None
          else if length payload \<noteq> 50 + unat filename_len then None
          else if \<not> is_safe_filename rest then None
          else Some \<lparr> fs_session_id = session_id, fs_file_size = file_size,
                      fs_sha256 = digest, fs_filename = rest \<rparr>
        }
      })"

definition encode_file_dist_chunk :: "file_dist_chunk \<Rightarrow> bytes" where
  "encode_file_dist_chunk msg =
     (if fc_data msg = [] \<or> length (fc_data msg) > unat kMaxChunkSize then []
      else append_le (fc_session_id msg) @ append_le (fc_offset msg) @
           append_le (of_nat (length (fc_data msg)) :: u32) @ fc_data msg)"

definition decode_file_dist_chunk :: "bytes \<Rightarrow> file_dist_chunk option" where
  "decode_file_dist_chunk payload =
     (if length payload < 21 then None
      else do {
        (session_id, rest) \<leftarrow> read_le payload;
        (offset, rest) \<leftarrow> read_le rest;
        (data_len :: u32, rest) \<leftarrow> read_le rest;
        if data_len = 0 \<or> data_len > kMaxChunkSize then None
        else if length payload \<noteq> 20 + unat data_len then None
        else Some \<lparr> fc_session_id = session_id, fc_offset = offset, fc_data = rest \<rparr>
      })"

definition encode_file_dist_finish :: "u64 \<Rightarrow> bytes" where
  "encode_file_dist_finish session_id = append_le session_id"

definition decode_file_dist_finish :: "bytes \<Rightarrow> u64 option" where
  "decode_file_dist_finish payload =
     (if length payload \<noteq> 8 then None else map_option fst (read_le payload))"

definition encode_file_dist_status :: "file_dist_status_msg \<Rightarrow> bytes" where
  "encode_file_dist_status msg =
     append_le (fm_session_id msg) @ append_le (fm_bytes_received msg) @
     status_code (fm_status msg) # replicate 7 0"

definition decode_file_dist_status :: "bytes \<Rightarrow> file_dist_status_msg option" where
  "decode_file_dist_status payload =
     (if length payload \<noteq> 24 then None
      else do {
        (session_id, rest) \<leftarrow> read_le payload;
        (bytes_received, rest) \<leftarrow> read_le rest;
        (status_byte, rest) \<leftarrow> read_byte rest;
        if status_byte > status_code Rejected_quota_exceeded then None
        else Some \<lparr> fm_session_id = session_id, fm_bytes_received = bytes_received,
                    fm_status = all_statuses ! unat status_byte \<rparr>
      })"

definition encode_file_dist_cancel :: "file_dist_cancel \<Rightarrow> bytes" where
  "encode_file_dist_cancel msg =
     append_le (fx_session_id msg) @ append_le (fx_reason_code msg) @ replicate 4 0"

definition decode_file_dist_cancel :: "bytes \<Rightarrow> file_dist_cancel option" where
  "decode_file_dist_cancel payload =
     (if length payload \<noteq> 16 then None
      else do {
        (session_id, rest) \<leftarrow> read_le payload;
        (reason_code, rest) \<leftarrow> read_le rest;
        Some \<lparr> fx_session_id = session_id, fx_reason_code = reason_code \<rparr>
      })"

section \<open>Filename safety\<close>

lemma default_filename_safe: "is_safe_filename default_filename"
  by code_simp

lemma sanitize_safe: "is_safe_filename (sanitize_filename f)"
  by (simp add: sanitize_filename_def Let_def default_filename_safe)

lemma safe_filename_iff:
  "is_safe_filename f \<longleftrightarrow> f \<noteq> [] \<and> length f \<le> 255 \<and> \<not> blank_or_dot (hd f) \<and> \<not> blank_or_dot (last f) \<and>
     list_all (\<lambda>c. \<not> filename_byte_bad c) f \<and> \<not> is_reserved_dos_device (filename_stem f)"
proof -
  have "blank_or_dot (hd (ascii ''.''))" "blank_or_dot (hd (ascii ''..''))"
    by (simp_all add: blank_or_dot_def ascii_def)
  then show ?thesis
    by (auto simp: is_safe_filename_def kMaxFilenameLength_def list_ex_iff list_all_iff)
qed

lemma separator_bad: "path_separator c \<Longrightarrow> filename_byte_bad c"
  by (auto simp: path_separator_def filename_byte_bad_def ascii_def)

lemma trim_end_id: "f \<noteq> [] \<Longrightarrow> \<not> blank_or_dot (last f) \<Longrightarrow> trim_end f = f"
  by (cases f rule: rev_cases) (simp_all add: trim_end_def)

lemma sanitize_safe_id:
  assumes "is_safe_filename f"
  shows "sanitize_filename f = f"
proof -
  note f = assms [unfolded safe_filename_iff]
  have clean: "\<not> filename_byte_bad c" "\<not> path_separator c" if "c \<in> set f" for c
    using f that separator_bad by (auto simp: list_all_iff)
  have "takeWhile (\<lambda>c. \<not> path_separator c) (rev f) = rev f" using clean by (simp add: takeWhile_eq_all_conv)
  then have base: "rev (takeWhile (\<lambda>c. \<not> path_separator c) (rev f)) = f" by (metis rev_rev_ident)
  have kept: "map (\<lambda>c. if filename_byte_bad c then 0x5F else c) f = f"
    using clean by (simp add: map_idI)
  have front: "dropWhile blank_or_dot f = f" and some: "\<not> list_all blank_or_dot f"
    using f by (cases f; auto)+
  show ?thesis
    unfolding sanitize_filename_def base Let_def kept front
    using f assms some by (simp add: trim_end_id kMaxFilenameLength_def)
qed

lemma strip_common_append: "strip_common (base @ xs) base = (xs, [])"
  by (induction base) (cases xs, auto)

lemma staging_path_safe:
  assumes "is_safe_filename f"
  shows "compute_staging_path base f = Some (base @ [f])"
proof -
  have "f \<noteq> []" and "\<not> blank_or_dot (hd f)" using assms by (simp_all add: safe_filename_iff)
  then have "take 2 f \<noteq> ascii ''..''" by (cases f) (auto simp: ascii_def blank_or_dot_def)
  then show ?thesis
    using assms \<open>f \<noteq> []\<close>
    by (simp add: compute_staging_path_def lexically_relative_def strip_common_append path_string_def)
qed

text \<open>
  C26. No received name escapes its directory. For any byte string whatever, the sanitizer returns a
  safe filename: 1 to 255 bytes, no separator, drive or stream colon, wildcard, quote or control
  byte, no leading or trailing blank or dot, no DOS device before the first dot; a name that is
  already safe is left alone; and the staging path of the result is the base directory
  followed by that single component.
\<close>

theorem sanitized_name_confined:
  "is_safe_filename (sanitize_filename f) \<and>
   (is_safe_filename f \<longleftrightarrow> sanitize_filename f = f) \<and>
   compute_staging_path base (sanitize_filename f) = Some (base @ [sanitize_filename f]) \<and>
   list_all (\<lambda>c. \<not> path_separator c) (sanitize_filename f)"
proof -
  have "list_all (\<lambda>c. \<not> path_separator c) (sanitize_filename f)"
    using sanitize_safe [of f] separator_bad by (auto simp: safe_filename_iff list_all_iff)
  then show ?thesis
    using sanitize_safe [of f] sanitize_safe_id [of f] staging_path_safe [OF sanitize_safe, of base f]
    by metis
qed

section \<open>The messages\<close>

definition file_start_ok :: "file_dist_start \<Rightarrow> bool" where
  "file_start_ok m \<longleftrightarrow> is_safe_filename (fs_filename m) \<and> fs_file_size m \<le> kMaxFileSize \<and> length (fs_sha256 m) = 32"

definition file_chunk_ok :: "file_dist_chunk \<Rightarrow> bool" where
  "file_chunk_ok m \<longleftrightarrow> fc_data m \<noteq> [] \<and> length (fc_data m) \<le> 65536"

lemma kMaxChunkSize_unat: "unat kMaxChunkSize = 65536"
  by (simp add: kMaxChunkSize_def)

lemma u16_len: "n \<le> 255 \<Longrightarrow> unat (of_nat n :: u16) = n"
  and u32_len: "n \<le> 65536 \<Longrightarrow> unat (of_nat n :: u32) = n"
  by (simp_all add: unat_of_nat)

lemma start_enc:
  assumes "file_start_ok m"
  shows "decode_file_dist_start (encode_file_dist_start m) = Some m"
proof -
  let ?f = "fs_filename m"
  have f: "is_safe_filename ?f" "?f \<noteq> []" "length ?f \<le> 255"
    using assms by (simp_all add: file_start_ok_def safe_filename_iff)
  have "of_nat (length ?f) \<noteq> (0 :: u16)"
    using u16_len [of "length ?f"] f by (metis le_zero_eq length_0_conv unsigned_0)
  then show ?thesis
    using assms f u16_len [of "length ?f"]
    by (simp add: encode_file_dist_start_def decode_file_dist_start_def file_start_ok_def kMaxFilenameLength_def
        not_less Suc_le_eq)
qed

lemma start_dec:
  assumes "decode_file_dist_start w = Some m"
  shows "file_start_ok m \<and> encode_file_dist_start m = w"
proof -
  obtain sid size digest n f where w: "w = append_le sid @ append_le size @ digest @ append_le (n :: u16) @ f"
    and m: "m = \<lparr> fs_session_id = sid, fs_file_size = size, fs_sha256 = digest, fs_filename = f \<rparr>"
    and c: "length digest = 32" "\<not> size > kMaxFileSize" "length w = 50 + unat n" "is_safe_filename f"
    using assms by (auto simp: decode_file_dist_start_def bind_eq_Some_conv reader_iffs split: if_splits)
  have "length f = unat n" using w c by simp
  then show ?thesis
    using m w c safe_filename_iff [of f]
    by (auto simp: file_start_ok_def encode_file_dist_start_def kMaxFilenameLength_def)
qed

lemma chunk_enc:
  assumes "file_chunk_ok m"
  shows "decode_file_dist_chunk (encode_file_dist_chunk m) = Some m"
proof -
  let ?d = "fc_data m" and ?n = "of_nat (length (fc_data m)) :: u32"
  have d: "?d \<noteq> []" "length ?d \<le> 65536" using assms by (simp_all add: file_chunk_ok_def)
  have n: "unat ?n = length ?d" using d by (simp add: u32_len)
  then have "?n \<noteq> 0" using d by (metis length_0_conv unsigned_0)
  moreover have "\<not> ?n > kMaxChunkSize" using n d kMaxChunkSize_unat by (simp add: word_less_nat_alt)
  ultimately show ?thesis
    using d n by (simp add: encode_file_dist_chunk_def decode_file_dist_chunk_def kMaxChunkSize_unat not_less Suc_le_eq)
qed

lemma chunk_dec:
  assumes "decode_file_dist_chunk w = Some m"
  shows "file_chunk_ok m \<and> encode_file_dist_chunk m = w"
proof -
  obtain sid off n d where w: "w = append_le sid @ append_le off @ append_le (n :: u32) @ d"
    and m: "m = \<lparr> fc_session_id = sid, fc_offset = off, fc_data = d \<rparr>"
    and c: "n \<noteq> 0" "\<not> n > kMaxChunkSize" "length w = 20 + unat n"
    using assms by (auto simp: decode_file_dist_chunk_def bind_eq_Some_conv reader_iffs split: if_splits)
  have d: "length d = unat n" using w c by simp
  moreover have "unat n \<le> 65536" using c(2) kMaxChunkSize_unat by (simp add: word_less_nat_alt)
  moreover have "d \<noteq> []" using d c(1) by (auto simp: unat_eq_0)
  ultimately show ?thesis
    using m w by (auto simp: file_chunk_ok_def encode_file_dist_chunk_def kMaxChunkSize_unat)
qed

interpretation file_start_codec: strict_codec encode_file_dist_start decode_file_dist_start file_start_ok
  by unfold_locales (simp_all add: start_enc start_dec)

interpretation file_chunk_codec: strict_codec encode_file_dist_chunk decode_file_dist_chunk file_chunk_ok
  by unfold_locales (simp_all add: chunk_enc chunk_dec)

lemma read_le_u64_whole: "read_le w = Some (y :: u64, []) \<longleftrightarrow> w = append_le y"
  by (simp add: reader_iffs)

interpretation file_finish_codec: strict_codec encode_file_dist_finish decode_file_dist_finish "\<lambda>_. True"
proof
  fix x :: u64
  show "decode_file_dist_finish (encode_file_dist_finish x) = Some x"
    using read_le_u64 [of x "[]"] by (simp add: decode_file_dist_finish_def encode_file_dist_finish_def)
next
  fix w and x :: u64
  assume "decode_file_dist_finish w = Some x"
  then obtain r where "length w = 8" "w = append_le x @ r"
    by (auto simp: decode_file_dist_finish_def reader_iffs split: if_splits)
  then show "True \<and> encode_file_dist_finish x = w" by (simp add: encode_file_dist_finish_def)
qed

lemma all_statuses_nth: "all_statuses ! unat (status_code st) = st" and status_code_le: "status_code st \<le> 7"
  by (cases st; simp add: all_statuses_def)+

interpretation file_status_codec: codec encode_file_dist_status decode_file_dist_status "\<lambda>_. True"
proof
  fix m :: file_dist_status_msg
  show "decode_file_dist_status (encode_file_dist_status m) = Some m"
    using status_code_le [of "fm_status m"]
    by (simp add: encode_file_dist_status_def decode_file_dist_status_def all_statuses_nth not_less)
qed

interpretation file_cancel_codec: codec encode_file_dist_cancel decode_file_dist_cancel "\<lambda>_. True"
  by unfold_locales (simp add: encode_file_dist_cancel_def decode_file_dist_cancel_def)

text \<open>
  The file transfer messages survive the wire. The start, chunk and finish decoders accept a
  payload exactly when it is the encoding of a valid message (safe name and size within 64 MiB;
  1 to 64 KiB of data), and return that message; status and cancel messages, whose padding the
  decoder does not look at, are read back unchanged.
\<close>

theorem file_messages_exact:
  "(decode_file_dist_start w = Some s \<longleftrightarrow> file_start_ok s \<and> encode_file_dist_start s = w) \<and>
   (decode_file_dist_chunk w = Some c \<longleftrightarrow> file_chunk_ok c \<and> encode_file_dist_chunk c = w) \<and>
   (decode_file_dist_finish w = Some n \<longleftrightarrow> encode_file_dist_finish n = w) \<and>
   decode_file_dist_status (encode_file_dist_status st) = Some st \<and>
   decode_file_dist_cancel (encode_file_dist_cancel x) = Some x"
  using file_start_codec.dec_iff file_chunk_codec.dec_iff file_finish_codec.dec_iff
    file_status_codec.dec_enc file_cancel_codec.dec_enc by simp

end
