(* ===== verification/ExamSync.thy ===== *)
theory ExamSync
  imports Protocol
begin

text \<open>
  The answer synchronisation messages of \<open>common/src/exam_sync.cpp\<close>: the answer event that a
  client sends for every change of an answer, its acknowledgement, the state request and the
  state response, which is split into chunks that fit an authenticated command. Identifiers
  and digests are byte lists; the sizes that \<open>std::array\<close> fixes in the code (32 bytes for a
  digest, 16 for a client or session id) are the predicates \<open>event_wf\<close>, \<open>ack_wf\<close>, \<open>request_wf\<close>
  and \<open>response_wf\<close>. SHA-256 is the parameter \<open>sha\<close> of the definitions that hash.

  The lemmas: event, acknowledgement and request are strict codecs; a response chunk is read
  back unchanged; the chunks of a snapshot fit the channel and together carry exactly its
  answers.
\<close>

section \<open>Limits and magic numbers\<close>

definition kMaximumPackageIdBytes :: nat where "kMaximumPackageIdBytes = 128"
definition kMaximumCandidateIdBytes :: nat where "kMaximumCandidateIdBytes = 128"
definition kMaximumQuestionIdBytes :: nat where "kMaximumQuestionIdBytes = 128"
definition kMaximumAnswerBytes :: nat where "kMaximumAnswerBytes = 16 * 1024"
definition kMaximumExamPayloadBytes :: nat where "kMaximumExamPayloadBytes = kMaxCommandPayload - 8 - 16"
definition kMaximumStateEntries :: nat where "kMaximumStateEntries = 512"
definition kMaximumStateChunks :: nat where "kMaximumStateChunks = 64"
definition kEventMagic :: u32 where "kEventMagic = 0x3156454e"
definition kAckMagic :: u32 where "kAckMagic = 0x314b414e"
definition kRequestMagic :: u32 where "kRequestMagic = 0x3151524e"
definition kResponseMagic :: u32 where "kResponseMagic = 0x3152534e"
definition kWireVersion :: u16 where "kWireVersion = 1"
definition kStateResponseWireVersion :: u16 where "kStateResponseWireVersion = 3"
definition kStateResponsePreviousWireVersion :: u16 where "kStateResponsePreviousWireVersion = 2"
definition kMaximumWireBytes :: nat where "kMaximumWireBytes = kMaximumExamPayloadBytes"
definition kAnswerEventFixedBytes :: nat where
  "kAnswerEventFixedBytes = 4 + 2 + 1 * 2 + 8 * 2 + 4 + 2 * 3 + 4 + 32 + 16 + 16 + 32"
definition kAnswerAckBytes :: nat where "kAnswerAckBytes = 4 + 2 + 1 * 2 + 16 + 8 * 3 + 32 * 2"
definition kStateRequestFixedBytes :: nat where "kStateRequestFixedBytes = 4 + 2 + 2 * 2 + 32 + 16 + 16"
definition kStateResponseV1FixedBytes :: nat where
  "kStateResponseV1FixedBytes = 4 + 2 + 1 * 2 + 8 + 2 * 3 + 32 + 16 + 16 + 32"
definition kStateResponseFixedBytes :: nat where
  "kStateResponseFixedBytes = kStateResponseV1FixedBytes + 2 * 2"
definition kStateResponseV3FixedBytes :: nat where
  "kStateResponseV3FixedBytes = kStateResponseFixedBytes + 32"

lemmas sync_limits = kMaximumPackageIdBytes_def kMaximumCandidateIdBytes_def kMaximumQuestionIdBytes_def
  kMaximumAnswerBytes_def kMaximumExamPayloadBytes_def kMaximumStateEntries_def kMaximumStateChunks_def
  kMaximumWireBytes_def kAnswerEventFixedBytes_def kAnswerAckBytes_def kStateRequestFixedBytes_def
  kStateResponseV1FixedBytes_def kStateResponseFixedBytes_def kStateResponseV3FixedBytes_def

lemmas sync_magics = kEventMagic_def kAckMagic_def kRequestMagic_def kResponseMagic_def kWireVersion_def
  kStateResponseWireVersion_def kStateResponsePreviousWireVersion_def

section \<open>Data\<close>

datatype answer_kind = Upsert | Clear | FinalizeSession

fun kind_code :: "answer_kind \<Rightarrow> byte" where
  "kind_code Upsert = 1"
| "kind_code Clear = 2"
| "kind_code FinalizeSession = 3"

definition kind_of :: "byte \<Rightarrow> answer_kind option" where
  "kind_of b = (if b = 1 then Some Upsert else if b = 2 then Some Clear
                else if b = 3 then Some FinalizeSession else None)"

datatype ack_status =
  AckAccepted | AckDuplicate | AckRejected | AckConflict | AckGap | AckUnavailable

fun ack_code :: "ack_status \<Rightarrow> byte" where
  "ack_code AckAccepted = 1"
| "ack_code AckDuplicate = 2"
| "ack_code AckRejected = 3"
| "ack_code AckConflict = 4"
| "ack_code AckGap = 5"
| "ack_code AckUnavailable = 6"

definition ack_of :: "byte \<Rightarrow> ack_status option" where
  "ack_of b = (if b = 1 then Some AckAccepted else if b = 2 then Some AckDuplicate
               else if b = 3 then Some AckRejected else if b = 4 then Some AckConflict
               else if b = 5 then Some AckGap else if b = 6 then Some AckUnavailable else None)"

record answer_event =
  ev_package_id :: bytes
  ev_package_digest :: bytes
  ev_client_id :: bytes
  ev_session_id :: bytes
  ev_candidate_id :: bytes
  ev_question_id :: bytes
  ev_question_revision :: u32
  ev_sequence :: u64
  ev_time :: u64
  ev_kind :: answer_kind
  ev_answer :: bytes
  ev_previous_hash :: bytes

record answer_ack =
  ack_status :: ack_status
  ack_session_id :: bytes
  ack_sequence :: u64
  ack_highest :: u64
  ack_server_time :: u64
  ack_event_hash :: bytes
  ack_state_hash :: bytes

record state_request =
  rq_package_id :: bytes
  rq_package_digest :: bytes
  rq_client_id :: bytes
  rq_session_id :: bytes
  rq_candidate_id :: bytes

record answer_state =
  as_question_id :: bytes
  as_question_revision :: u32
  as_sequence :: u64
  as_kind :: answer_kind
  as_answer :: bytes
  as_event_hash :: bytes

record state_response =
  sr_package_id :: bytes
  sr_package_digest :: bytes
  sr_client_id :: bytes
  sr_session_id :: bytes
  sr_candidate_id :: bytes
  sr_highest :: u64
  sr_finalized :: bool
  sr_state_hash :: bytes
  sr_last_event_hash :: bytes
  sr_chunk_index :: u16
  sr_chunk_count :: u16
  sr_answers :: "answer_state list"

section \<open>Validation\<close>

definition all_zero :: "bytes \<Rightarrow> bool" where
  "all_zero bs \<longleftrightarrow> list_all (\<lambda>b. b = 0) bs"

definition valid_text :: "bytes \<Rightarrow> nat \<Rightarrow> bool \<Rightarrow> bool" where
  "valid_text v maximum allow_empty =
     (if \<not> allow_empty \<and> v = [] \<or> length v > maximum then False
      else list_all (\<lambda>c. c \<noteq> 0) v)"

definition valid_identity :: "bytes \<Rightarrow> bytes \<Rightarrow> bool" where
  "valid_identity client_id session_id \<longleftrightarrow> \<not> all_zero client_id \<and> \<not> all_zero session_id"

definition valid_ack_shape :: "answer_ack \<Rightarrow> bool" where
  "valid_ack_shape ack =
     (if all_zero (ack_session_id ack) \<or> ack_server_time ack = 0 then False
      else case ack_status ack of
             AckAccepted \<Rightarrow> ack_sequence ack \<noteq> 0 \<and> ack_highest ack \<ge> ack_sequence ack \<and>
               \<not> all_zero (ack_event_hash ack) \<and> \<not> all_zero (ack_state_hash ack)
           | AckDuplicate \<Rightarrow> ack_sequence ack \<noteq> 0 \<and> ack_highest ack \<ge> ack_sequence ack \<and>
               \<not> all_zero (ack_event_hash ack) \<and> \<not> all_zero (ack_state_hash ack)
           | AckGap \<Rightarrow> ack_sequence ack \<noteq> 0 \<and> ack_highest ack < ack_sequence ack
           | AckConflict \<Rightarrow> ack_sequence ack \<noteq> 0
           | AckRejected \<Rightarrow> True
           | AckUnavailable \<Rightarrow> True)"

definition valid_answer_state :: "answer_state \<Rightarrow> bool" where
  "valid_answer_state a \<longleftrightarrow>
     valid_text (as_question_id a) kMaximumQuestionIdBytes False \<and>
     (as_kind a = Upsert \<or> as_kind a = Clear) \<and>
     as_sequence a \<noteq> 0 \<and> length (as_answer a) \<le> kMaximumAnswerBytes \<and>
     as_question_revision a \<noteq> 0 \<and> \<not> all_zero (as_event_hash a) \<and>
     (as_kind a \<noteq> Clear \<or> as_answer a = [])"

definition validate_answer_event :: "answer_event \<Rightarrow> bool" where
  "validate_answer_event e \<longleftrightarrow>
     \<not> (\<not> valid_text (ev_package_id e) kMaximumPackageIdBytes False \<or>
        all_zero (ev_package_digest e) \<or> \<not> valid_identity (ev_client_id e) (ev_session_id e) \<or>
        \<not> valid_text (ev_candidate_id e) kMaximumCandidateIdBytes False \<or>
        ev_question_revision e = 0 \<or> ev_sequence e = 0 \<or> ev_time e = 0 \<or>
        length (ev_answer e) > kMaximumAnswerBytes \<or>
        (ev_kind e \<noteq> FinalizeSession \<and> \<not> valid_text (ev_question_id e) kMaximumQuestionIdBytes False) \<or>
        (ev_kind e = FinalizeSession \<and> (ev_question_id e \<noteq> [] \<or> ev_answer e \<noteq> [])) \<or>
        (ev_kind e = Clear \<and> ev_answer e \<noteq> []) \<or>
        (ev_sequence e = 1 \<and> \<not> all_zero (ev_previous_hash e)))"

section \<open>Answer events\<close>

abbreviation len16 :: "bytes \<Rightarrow> u16" where "len16 t \<equiv> word_of_nat (length t)"
abbreviation len32 :: "bytes \<Rightarrow> u32" where "len32 t \<equiv> word_of_nat (length t)"

definition read_string :: "u16 \<Rightarrow> nat \<Rightarrow> bool \<Rightarrow> bytes \<Rightarrow> (bytes \<times> bytes) option" where
  "read_string len maximum allow_empty w =
     (if unat len > maximum \<or> length w < unat len then None
      else let t = take (unat len) w
           in if valid_text t maximum allow_empty then Some (t, drop (unat len) w) else None)"

definition encode_answer_event :: "answer_event \<Rightarrow> bytes" where
  "encode_answer_event e =
     (if \<not> validate_answer_event e \<or> length (ev_answer e) > 2 ^ 32 - 1 then []
      else let wire =
             append_le kEventMagic @ append_le kWireVersion @ append_le (kind_code (ev_kind e)) @
             append_le (0 :: u8) @ append_le (ev_sequence e) @ append_le (ev_time e) @
             append_le (ev_question_revision e) @ append_le (len16 (ev_package_id e)) @
             append_le (len16 (ev_candidate_id e)) @ append_le (len16 (ev_question_id e)) @
             append_le (len32 (ev_answer e)) @
             ev_package_digest e @ ev_client_id e @ ev_session_id e @ ev_previous_hash e @
             ev_package_id e @ ev_candidate_id e @ ev_question_id e @ ev_answer e
           in if length wire \<le> kMaximumWireBytes then wire else [])"

definition decode_answer_event :: "bytes \<Rightarrow> answer_event option" where
  "decode_answer_event w =
     (if length w < kAnswerEventFixedBytes \<or> length w > kMaximumWireBytes then None
      else do {
        (magic, w) \<leftarrow> read_le w;
        if magic \<noteq> kEventMagic then None else do {
        (version, w) \<leftarrow> read_le w;
        if version \<noteq> kWireVersion then None else do {
        (raw_kind, w) \<leftarrow> read_le w;
        (reserved :: u8, w) \<leftarrow> read_le w;
        if reserved \<noteq> 0 then None else do {
        (sequence, w) \<leftarrow> read_le w;
        (time, w) \<leftarrow> read_le w;
        (revision, w) \<leftarrow> read_le w;
        (package_bytes, w) \<leftarrow> read_le w;
        (candidate_bytes, w) \<leftarrow> read_le w;
        (question_bytes, w) \<leftarrow> read_le w;
        (answer_bytes :: u32, w) \<leftarrow> read_le w;
        (digest, w) \<leftarrow> read_array 32 w;
        (client, w) \<leftarrow> read_array 16 w;
        (session, w) \<leftarrow> read_array 16 w;
        (previous, w) \<leftarrow> read_array 32 w;
        if unat package_bytes > kMaximumPackageIdBytes \<or> unat candidate_bytes > kMaximumCandidateIdBytes \<or>
           unat question_bytes > kMaximumQuestionIdBytes \<or> unat answer_bytes > kMaximumAnswerBytes \<or>
           length w \<noteq> unat package_bytes + unat candidate_bytes + unat question_bytes + unat answer_bytes
        then None else do {
        (package_id, w) \<leftarrow> read_string package_bytes kMaximumPackageIdBytes False w;
        (candidate_id, w) \<leftarrow> read_string candidate_bytes kMaximumCandidateIdBytes False w;
        (question_id, w) \<leftarrow> read_string question_bytes kMaximumQuestionIdBytes True w;
        kind \<leftarrow> kind_of raw_kind;
        let e = \<lparr>ev_package_id = package_id, ev_package_digest = digest, ev_client_id = client,
                 ev_session_id = session, ev_candidate_id = candidate_id, ev_question_id = question_id,
                 ev_question_revision = revision, ev_sequence = sequence, ev_time = time,
                 ev_kind = kind, ev_answer = w, ev_previous_hash = previous\<rparr>
        in if \<not> validate_answer_event e then None else Some e
      }}}}})"

definition hash_answer_event :: "(bytes \<Rightarrow> bytes option) \<Rightarrow> answer_event \<Rightarrow> bytes option" where
  "hash_answer_event sha e =
     (let wire = encode_answer_event e in if wire = [] then None else sha wire)"

section \<open>Acknowledgements and requests\<close>

definition encode_answer_ack :: "answer_ack \<Rightarrow> bytes" where
  "encode_answer_ack ack =
     (if \<not> valid_ack_shape ack then []
      else append_le kAckMagic @ append_le kWireVersion @ append_le (ack_code (ack_status ack)) @
           append_le (0 :: u8) @ ack_session_id ack @ append_le (ack_sequence ack) @
           append_le (ack_highest ack) @ append_le (ack_server_time ack) @
           ack_event_hash ack @ ack_state_hash ack)"

definition decode_answer_ack :: "bytes \<Rightarrow> answer_ack option" where
  "decode_answer_ack w =
     (if length w \<noteq> kAnswerAckBytes then None
      else do {
        (magic, w) \<leftarrow> read_le w;
        if magic \<noteq> kAckMagic then None else do {
        (version, w) \<leftarrow> read_le w;
        if version \<noteq> kWireVersion then None else do {
        (raw_status, w) \<leftarrow> read_le w;
        (reserved :: u8, w) \<leftarrow> read_le w;
        if reserved \<noteq> 0 then None else do {
        (session, w) \<leftarrow> read_array 16 w;
        (sequence, w) \<leftarrow> read_le w;
        (highest, w) \<leftarrow> read_le w;
        (time, w) \<leftarrow> read_le w;
        (event_hash, w) \<leftarrow> read_array 32 w;
        (state_hash, w) \<leftarrow> read_array 32 w;
        status \<leftarrow> ack_of raw_status;
        let ack = \<lparr>ack_status = status, ack_session_id = session, ack_sequence = sequence,
                   ack_highest = highest, ack_server_time = time, ack_event_hash = event_hash,
                   ack_state_hash = state_hash\<rparr>
        in if \<not> valid_ack_shape ack then None else Some ack
      }}}})"

definition encode_state_request :: "state_request \<Rightarrow> bytes" where
  "encode_state_request r =
     (if \<not> valid_text (rq_package_id r) kMaximumPackageIdBytes False \<or>
         all_zero (rq_package_digest r) \<or> \<not> valid_identity (rq_client_id r) (rq_session_id r) \<or>
         \<not> valid_text (rq_candidate_id r) kMaximumCandidateIdBytes False
      then []
      else append_le kRequestMagic @ append_le kWireVersion @ append_le (len16 (rq_package_id r)) @
           append_le (len16 (rq_candidate_id r)) @
           rq_package_digest r @ rq_client_id r @ rq_session_id r @ rq_package_id r @ rq_candidate_id r)"

definition decode_state_request :: "bytes \<Rightarrow> state_request option" where
  "decode_state_request w =
     (if length w < kStateRequestFixedBytes \<or>
         length w > kStateRequestFixedBytes + kMaximumPackageIdBytes + kMaximumCandidateIdBytes then None
      else do {
        (magic, w) \<leftarrow> read_le w;
        if magic \<noteq> kRequestMagic then None else do {
        (version, w) \<leftarrow> read_le w;
        if version \<noteq> kWireVersion then None else do {
        (package_bytes, w) \<leftarrow> read_le w;
        (candidate_bytes, w) \<leftarrow> read_le w;
        (digest, w) \<leftarrow> read_array 32 w;
        (client, w) \<leftarrow> read_array 16 w;
        (session, w) \<leftarrow> read_array 16 w;
        (package_id, w) \<leftarrow> read_string package_bytes kMaximumPackageIdBytes False w;
        (candidate_id, w) \<leftarrow> read_string candidate_bytes kMaximumCandidateIdBytes False w;
        if w \<noteq> [] \<or> \<not> valid_identity client session \<or> all_zero digest then None
        else Some \<lparr>rq_package_id = package_id, rq_package_digest = digest, rq_client_id = client,
                   rq_session_id = session, rq_candidate_id = candidate_id\<rparr>
      }}})"

section \<open>State responses\<close>

definition valid_state_response_identity :: "state_response \<Rightarrow> bool" where
  "valid_state_response_identity r \<longleftrightarrow>
     valid_text (sr_package_id r) kMaximumPackageIdBytes False \<and> \<not> all_zero (sr_package_digest r) \<and>
     valid_identity (sr_client_id r) (sr_session_id r) \<and>
     valid_text (sr_candidate_id r) kMaximumCandidateIdBytes False \<and>
     sr_chunk_count r \<noteq> 0 \<and> unat (sr_chunk_count r) \<le> kMaximumStateChunks \<and>
     sr_chunk_index r < sr_chunk_count r \<and> length (sr_answers r) \<le> kMaximumStateEntries"

definition valid_state_response_metadata :: "state_response \<Rightarrow> bool" where
  "valid_state_response_metadata r =
     (if \<not> valid_state_response_identity r then False
      else if sr_highest r = 0 then all_zero (sr_last_event_hash r)
      else \<not> all_zero (sr_state_hash r) \<and> \<not> all_zero (sr_last_event_hash r))"

definition answer_wire_bytes :: "answer_state \<Rightarrow> nat" where
  "answer_wire_bytes a = 2 + 4 + 8 + 1 * 2 + 4 + 32 + length (as_question_id a) + length (as_answer a)"

definition encode_answer_state :: "answer_state \<Rightarrow> bytes" where
  "encode_answer_state a =
     append_le (len16 (as_question_id a)) @ append_le (as_question_revision a) @ append_le (as_sequence a) @
     append_le (kind_code (as_kind a)) @ append_le (0 :: u8) @ append_le (len32 (as_answer a)) @
     as_event_hash a @ as_question_id a @ as_answer a"

text \<open>The validation loop of the encoder: the running total of bytes, or \<open>None\<close> for an early return.\<close>

fun sum_answers :: "u64 \<Rightarrow> answer_state list \<Rightarrow> bytes set \<Rightarrow> u64 set \<Rightarrow> nat \<Rightarrow> nat option" where
  "sum_answers highest [] question_ids sequences answer_bytes = Some answer_bytes"
| "sum_answers highest (a # as) question_ids sequences answer_bytes =
     (if \<not> valid_answer_state a \<or> as_sequence a > highest \<or> length (as_question_id a) > 2 ^ 16 - 1 \<or>
         as_question_id a \<in> question_ids \<or> as_sequence a \<in> sequences then None
      else let n = answer_wire_bytes a in
           if answer_bytes > kMaximumWireBytes - n then None
           else sum_answers highest as (insert (as_question_id a) question_ids)
                  (insert (as_sequence a) sequences) (answer_bytes + n))"

definition response_base_bytes :: "state_response \<Rightarrow> nat" where
  "response_base_bytes r =
     kStateResponseV3FixedBytes + length (sr_package_id r) + length (sr_candidate_id r)"

definition encode_state_response_chunk :: "state_response \<Rightarrow> bytes" where
  "encode_state_response_chunk r =
     (if \<not> valid_state_response_metadata r \<or> length (sr_answers r) > kMaximumStateEntries then []
      else let base_bytes = response_base_bytes r in
           case sum_answers (sr_highest r) (sr_answers r) {} {} 0 of
             None \<Rightarrow> []
           | Some answer_bytes \<Rightarrow>
               if base_bytes > kMaximumWireBytes \<or> answer_bytes > kMaximumWireBytes - base_bytes then []
               else let wire =
                 append_le kResponseMagic @ append_le kStateResponseWireVersion @
                 append_le (if sr_finalized r then 1 else 0 :: u8) @ append_le (0 :: u8) @
                 append_le (sr_highest r) @ append_le (word_of_nat (length (sr_answers r)) :: u16) @
                 append_le (sr_chunk_index r) @ append_le (sr_chunk_count r) @
                 append_le (len16 (sr_package_id r)) @ append_le (len16 (sr_candidate_id r)) @
                 sr_package_digest r @ sr_client_id r @ sr_session_id r @ sr_state_hash r @
                 sr_last_event_hash r @ sr_package_id r @ sr_candidate_id r @
                 concat (map encode_answer_state (sr_answers r))
               in if length wire \<le> kMaximumWireBytes then wire else [])"

definition encode_state_response :: "state_response \<Rightarrow> bytes" where
  "encode_state_response r = encode_state_response_chunk r"

text \<open>The greedy split: the answers still to place, the chunk being filled and its size.\<close>

fun chunk_answers :: "nat \<Rightarrow> answer_state list \<Rightarrow> answer_state list \<Rightarrow> nat \<Rightarrow> answer_state list list" where
  "chunk_answers base [] current current_bytes = [current]"
| "chunk_answers base (a # as) current current_bytes =
     (let n = answer_wire_bytes a in
      if current \<noteq> [] \<and> current_bytes > kMaximumWireBytes - n
      then current # chunk_answers base as [a] (base + n)
      else chunk_answers base as (current @ [a]) (current_bytes + n))"

fun encode_chunks :: "state_response \<Rightarrow> u16 \<Rightarrow> nat \<Rightarrow> answer_state list list \<Rightarrow> bytes list option" where
  "encode_chunks r count index [] = Some []"
| "encode_chunks r count index (as # rest) =
     (let wire = encode_state_response_chunk
            (r\<lparr>sr_chunk_index := word_of_nat index, sr_chunk_count := count, sr_answers := as\<rparr>)
      in if wire = [] then None
         else map_option (\<lambda>ws. wire # ws) (encode_chunks r count (Suc index) rest))"

definition encode_state_response_chunks :: "state_response \<Rightarrow> bytes list" where
  "encode_state_response_chunks r =
     (if \<not> valid_state_response_metadata r \<or> length (sr_answers r) > kMaximumStateEntries then []
      else let base_bytes = response_base_bytes r in
        if base_bytes > kMaximumWireBytes then []
        else if list_ex (\<lambda>a. \<not> valid_answer_state a \<or> as_sequence a > sr_highest r \<or>
            length (as_question_id a) > 2 ^ 16 - 1 \<or>
            answer_wire_bytes a > kMaximumWireBytes - base_bytes) (sr_answers r) then []
        else if \<not> distinct (map as_question_id (sr_answers r)) \<or>
            \<not> distinct (map as_sequence (sr_answers r)) then []
        else let chunks = chunk_answers base_bytes (sr_answers r) [] base_bytes in
          if length chunks > kMaximumStateChunks \<or> length chunks > 2 ^ 16 - 1 then []
          else case encode_chunks r (word_of_nat (length chunks)) 0 chunks of
                 None \<Rightarrow> [] | Some wires \<Rightarrow> wires)"

text \<open>The read loop of the decoder: the number of answers still expected, and what was seen.\<close>

fun read_answers :: "u64 \<Rightarrow> nat \<Rightarrow> bytes set \<Rightarrow> u64 set \<Rightarrow> bytes \<Rightarrow> (answer_state list \<times> bytes) option" where
  "read_answers highest 0 question_ids sequences w = Some ([], w)"
| "read_answers highest (Suc n) question_ids sequences w = do {
     (question_bytes, w) \<leftarrow> read_le w;
     (revision, w) \<leftarrow> read_le w;
     (sequence, w) \<leftarrow> read_le w;
     (raw_kind, w) \<leftarrow> read_le w;
     (reserved :: u8, w) \<leftarrow> read_le w;
     (answer_bytes :: u32, w) \<leftarrow> read_le w;
     (event_hash, w) \<leftarrow> read_array 32 w;
     if question_bytes = 0 \<or> unat question_bytes > kMaximumQuestionIdBytes \<or>
        unat answer_bytes > kMaximumAnswerBytes then None else do {
     (question_id, w) \<leftarrow> read_string question_bytes kMaximumQuestionIdBytes False w;
     if unat answer_bytes > length w then None else do {
     kind \<leftarrow> kind_of raw_kind;
     let a = \<lparr>as_question_id = question_id, as_question_revision = revision, as_sequence = sequence,
              as_kind = kind, as_answer = [], as_event_hash = event_hash\<rparr>
     in if reserved \<noteq> 0 \<or> \<not> valid_answer_state a \<or> question_id \<in> question_ids \<or>
           sequence \<in> sequences \<or> sequence > highest then None
        else let a = a\<lparr>as_answer := take (unat answer_bytes) w\<rparr>
             in if \<not> valid_answer_state a then None
                else do {
                  (rest, w) \<leftarrow> read_answers highest n (insert question_id question_ids)
                                 (insert sequence sequences) (drop (unat answer_bytes) w);
                  Some (a # rest, w)
                }
     }}}"

definition decode_state_response :: "bytes \<Rightarrow> state_response option" where
  "decode_state_response w =
     (if length w < kStateResponseV1FixedBytes \<or> length w > kMaximumWireBytes then None
      else do {
        (magic, w) \<leftarrow> read_le w;
        if magic \<noteq> kResponseMagic then None else do {
        (version, w) \<leftarrow> read_le w;
        if version \<noteq> kWireVersion \<and> version \<noteq> kStateResponsePreviousWireVersion \<and>
           version \<noteq> kStateResponseWireVersion then None else do {
        (flags :: u8, w) \<leftarrow> read_le w;
        if flags > 1 then None else do {
        (reserved :: u8, w) \<leftarrow> read_le w;
        if reserved \<noteq> 0 then None else do {
        (highest, w) \<leftarrow> read_le w;
        (answer_count, w) \<leftarrow> read_le w;
        ((chunk_index, chunk_count), w) \<leftarrow>
          (if version = kStateResponsePreviousWireVersion \<or> version = kStateResponseWireVersion
           then do { (i, w) \<leftarrow> read_le w; (c, w) \<leftarrow> read_le w; Some ((i, c), w) }
           else Some ((0, 1), w));
        (package_bytes, w) \<leftarrow> read_le w;
        (candidate_bytes, w) \<leftarrow> read_le w;
        if unat (answer_count :: u16) > kMaximumStateEntries \<or> unat package_bytes > kMaximumPackageIdBytes \<or>
           unat candidate_bytes > kMaximumCandidateIdBytes then None else do {
        (digest, w) \<leftarrow> read_array 32 w;
        (client, w) \<leftarrow> read_array 16 w;
        (session, w) \<leftarrow> read_array 16 w;
        (state_hash, w) \<leftarrow> read_array 32 w;
        (last_hash, w) \<leftarrow> (if version = kStateResponseWireVersion then read_array 32 w
                          else Some (replicate 32 0, w));
        (package_id, w) \<leftarrow> read_string package_bytes kMaximumPackageIdBytes False w;
        (candidate_id, w) \<leftarrow> read_string candidate_bytes kMaximumCandidateIdBytes False w;
        let r = \<lparr>sr_package_id = package_id, sr_package_digest = digest, sr_client_id = client,
                 sr_session_id = session, sr_candidate_id = candidate_id, sr_highest = highest,
                 sr_finalized = (flags \<noteq> 0), sr_state_hash = state_hash, sr_last_event_hash = last_hash,
                 sr_chunk_index = chunk_index, sr_chunk_count = chunk_count, sr_answers = []\<rparr>
        in if all_zero digest \<or> \<not> valid_identity client session \<or> chunk_count = 0 \<or>
              unat chunk_count > kMaximumStateChunks \<or> chunk_index \<ge> chunk_count then None
           else if version = kStateResponseWireVersion \<and> \<not> valid_state_response_metadata r \<or>
                   version \<noteq> kStateResponseWireVersion \<and> \<not> valid_state_response_identity r then None
           else do {
             (answers, w) \<leftarrow> read_answers highest (unat answer_count) {} {} w;
             if w = [] then Some (r\<lparr>sr_answers := answers\<rparr>) else None
           }
      }}}}}})"

section \<open>Events, acknowledgements and requests are strict codecs\<close>

definition event_wf :: "answer_event \<Rightarrow> bool" where
  "event_wf e \<longleftrightarrow> length (ev_package_digest e) = 32 \<and> length (ev_client_id e) = 16 \<and>
     length (ev_session_id e) = 16 \<and> length (ev_previous_hash e) = 32"

definition ack_wf :: "answer_ack \<Rightarrow> bool" where
  "ack_wf a \<longleftrightarrow> length (ack_session_id a) = 16 \<and> length (ack_event_hash a) = 32 \<and>
     length (ack_state_hash a) = 32"

definition request_wf :: "state_request \<Rightarrow> bool" where
  "request_wf r \<longleftrightarrow> length (rq_package_digest r) = 32 \<and> length (rq_client_id r) = 16 \<and>
     length (rq_session_id r) = 16"

definition event_ok :: "answer_event \<Rightarrow> bool" where
  "event_ok e \<longleftrightarrow> event_wf e \<and> validate_answer_event e"

definition ack_ok :: "answer_ack \<Rightarrow> bool" where
  "ack_ok a \<longleftrightarrow> ack_wf a \<and> valid_ack_shape a"

definition request_ok :: "state_request \<Rightarrow> bool" where
  "request_ok r \<longleftrightarrow> request_wf r \<and> valid_text (rq_package_id r) 128 False \<and> \<not> all_zero (rq_package_digest r) \<and>
     valid_identity (rq_client_id r) (rq_session_id r) \<and> valid_text (rq_candidate_id r) 128 False"

lemma all_zero_replicate [simp]: "all_zero (replicate n b) \<longleftrightarrow> n = 0 \<or> b = 0"
  by (auto simp: all_zero_def list_all_iff)

lemma valid_text_length: "valid_text t m al \<Longrightarrow> length t \<le> m"
  by (auto simp: valid_text_def split: if_splits)

lemma valid_text_empty: "valid_text t m False \<Longrightarrow> valid_text t m True"
  by (auto simp: valid_text_def split: if_splits)

lemma valid_text_nil [simp]: "valid_text [] m True"
  by (simp add: valid_text_def)

lemma unat_len16: "length t < 2 ^ 16 \<Longrightarrow> unat (len16 t) = length t"
  and unat_len32: "length t < 2 ^ 32 \<Longrightarrow> unat (len32 t) = length t"
  by (simp_all add: unat_of_nat)

lemma len16_unat: "unat n = length t \<Longrightarrow> n = len16 t"
  and len32_unat: "unat k = length t \<Longrightarrow> k = len32 t"
  by (drule sym, simp)+

lemma read_string_iff:
  assumes "m < 2 ^ 16"
  shows "read_string len m al w = Some (t, rest) \<longleftrightarrow> w = t @ rest \<and> len = len16 t \<and> valid_text t m al"
proof
  assume "read_string len m al w = Some (t, rest)"
  then have "w = t @ rest" "unat len = length t" "valid_text t m al"
    by (auto simp: read_string_def Let_def split: if_splits)
  then show "w = t @ rest \<and> len = len16 t \<and> valid_text t m al" using len16_unat by simp
next
  assume t: "w = t @ rest \<and> len = len16 t \<and> valid_text t m al"
  then show "read_string len m al w = Some (t, rest)"
    using valid_text_length [of t m al] assms by (simp add: read_string_def unat_len16)
qed

lemma read_string_write:
  assumes "valid_text t m al" and "m < 2 ^ 16"
  shows "read_string (len16 t) m al (t @ rest) = Some (t, rest)" "read_string (len16 t) m al t = Some (t, [])"
  using assms read_string_iff [of m "len16 t" al "t @ rest" t rest] read_string_iff [of m "len16 t" al t t "[]"]
  by simp_all

lemma kind_of_code [simp]: "kind_of (kind_code k) = Some k"
  by (cases k) (simp_all add: kind_of_def)

lemma kind_of_Some: "kind_of b = Some k \<longleftrightarrow> b = kind_code k"
  by (cases k) (auto simp: kind_of_def split: if_splits)

lemma ack_of_code [simp]: "ack_of (ack_code k) = Some k"
  by (cases k) (simp_all add: ack_of_def)

lemma ack_of_Some: "ack_of b = Some k \<longleftrightarrow> b = ack_code k"
  by (cases k) (auto simp: ack_of_def split: if_splits)

lemma event_fields:
  assumes "validate_answer_event e"
  shows "valid_text (ev_package_id e) 128 False" "valid_text (ev_candidate_id e) 128 False"
    "valid_text (ev_question_id e) 128 True" "length (ev_answer e) \<le> 16384"
    "length (ev_package_id e) \<le> 128" "length (ev_candidate_id e) \<le> 128" "length (ev_question_id e) \<le> 128"
proof -
  show p: "valid_text (ev_package_id e) 128 False" and c: "valid_text (ev_candidate_id e) 128 False"
    and "length (ev_answer e) \<le> 16384"
    using assms by (simp_all add: validate_answer_event_def sync_limits)
  show q: "valid_text (ev_question_id e) 128 True"
    using assms valid_text_empty [of "ev_question_id e" 128]
    by (cases "ev_kind e = FinalizeSession") (simp_all add: validate_answer_event_def sync_limits)
  show "length (ev_package_id e) \<le> 128" "length (ev_candidate_id e) \<le> 128" "length (ev_question_id e) \<le> 128"
    using p c q by (auto dest: valid_text_length)
qed

text \<open>The guards of the encoder never bite on a valid event: this is its wire form.\<close>

lemma encode_event_eq:
  assumes "event_ok e"
  shows "encode_answer_event e =
    append_le kEventMagic @ append_le kWireVersion @ append_le (kind_code (ev_kind e)) @
    append_le (0 :: u8) @ append_le (ev_sequence e) @ append_le (ev_time e) @
    append_le (ev_question_revision e) @ append_le (len16 (ev_package_id e)) @
    append_le (len16 (ev_candidate_id e)) @ append_le (len16 (ev_question_id e)) @
    append_le (len32 (ev_answer e)) @
    ev_package_digest e @ ev_client_id e @ ev_session_id e @ ev_previous_hash e @
    ev_package_id e @ ev_candidate_id e @ ev_question_id e @ ev_answer e"
  using assms event_fields [of e]
  by (simp add: encode_answer_event_def event_ok_def event_wf_def sync_limits)

lemma length_encode_event:
  "event_ok e \<Longrightarrow> length (encode_answer_event e) =
     134 + length (ev_package_id e) + length (ev_candidate_id e) + length (ev_question_id e) + length (ev_answer e)"
  by (simp add: encode_event_eq event_ok_def event_wf_def)

lemma event_enc:
  assumes "event_ok e"
  shows "decode_answer_event (encode_answer_event e) = Some e"
proof -
  note f = event_fields [of e]
  have v: "validate_answer_event e" using assms by (simp add: event_ok_def)
  have bounds: "134 \<le> length (encode_answer_event e)" "length (encode_answer_event e) \<le> 65512"
    using length_encode_event [OF assms] f [OF v] by simp_all
  show ?thesis
    using bounds assms v f [OF v]
    by (cases e) (simp add: decode_answer_event_def encode_event_eq sync_limits read_string_write unat_len16
        unat_len32 event_ok_def event_wf_def Let_def)
qed

lemma event_dec:
  assumes "decode_answer_event w = Some e"
  shows "event_ok e \<and> encode_answer_event e = w"
proof -
  obtain kind sequence time revision digest client session previous package candidate question answer
      and n :: u32
    where w: "w = append_le kEventMagic @ append_le kWireVersion @ append_le (kind_code kind) @
        append_le (0 :: u8) @ append_le sequence @ append_le time @ append_le revision @
        append_le (len16 package) @ append_le (len16 candidate) @ append_le (len16 question) @
        append_le n @ digest @ client @ session @ previous @ package @ candidate @ question @ answer"
      and e: "e = \<lparr>ev_package_id = package, ev_package_digest = digest, ev_client_id = client,
                 ev_session_id = session, ev_candidate_id = candidate, ev_question_id = question,
                 ev_question_revision = revision, ev_sequence = sequence, ev_time = time,
                 ev_kind = kind, ev_answer = answer, ev_previous_hash = previous\<rparr>"
      and len: "length digest = 32" "length client = 16" "length session = 16" "length previous = 32"
      and n: "length (package @ candidate @ question @ answer) =
        unat (len16 package) + unat (len16 candidate) + unat (len16 question) + unat n"
      and v: "validate_answer_event e"
    using assms
    by (auto simp: decode_answer_event_def Let_def bind_eq_Some_conv reader_iffs read_string_iff kind_of_Some
        sync_limits split: if_splits)
  have ok: "event_ok e" using v len by (simp add: event_ok_def event_wf_def e)
  have "length package < 2 ^ 16" "length candidate < 2 ^ 16" "length question < 2 ^ 16"
    using event_fields(5-7) [OF v] by (simp_all add: e)
  then have "unat n = length answer" using n by (simp add: unat_len16)
  then have "n = len32 answer" by (rule len32_unat)
  then show ?thesis using ok w by (simp add: encode_event_eq e)
qed

lemma ack_enc:
  assumes "ack_ok a"
  shows "decode_answer_ack (encode_answer_ack a) = Some a"
  using assms
  by (cases a) (simp add: ack_ok_def ack_wf_def encode_answer_ack_def decode_answer_ack_def sync_limits Let_def)

lemma ack_dec:
  assumes "decode_answer_ack w = Some a"
  shows "ack_ok a \<and> encode_answer_ack a = w"
  using assms
  by (auto simp: ack_ok_def ack_wf_def encode_answer_ack_def decode_answer_ack_def Let_def bind_eq_Some_conv
      reader_iffs ack_of_Some sync_limits split: if_splits)

lemma request_enc:
  assumes "request_ok r"
  shows "decode_state_request (encode_state_request r) = Some r"
proof -
  have "length (rq_package_id r) \<le> 128" "length (rq_candidate_id r) \<le> 128"
    using assms by (auto simp: request_ok_def dest: valid_text_length)
  then show ?thesis
    using assms by (simp add: request_ok_def request_wf_def encode_state_request_def decode_state_request_def
        sync_limits read_string_write)
qed

lemma request_dec:
  assumes "decode_state_request w = Some r"
  shows "request_ok r \<and> encode_state_request r = w"
  using assms
  by (auto simp: request_ok_def request_wf_def encode_state_request_def decode_state_request_def
      bind_eq_Some_conv reader_iffs read_string_iff sync_limits split: if_splits)

interpretation event_codec: strict_codec encode_answer_event decode_answer_event event_ok
  by unfold_locales (simp_all add: event_enc event_dec)

interpretation ack_codec: strict_codec encode_answer_ack decode_answer_ack ack_ok
  by unfold_locales (simp_all add: ack_enc ack_dec)

interpretation request_codec: strict_codec encode_state_request decode_state_request request_ok
  by unfold_locales (simp_all add: request_enc request_dec)

section \<open>State responses survive the split\<close>

definition response_wf :: "state_response \<Rightarrow> bool" where
  "response_wf r \<longleftrightarrow> length (sr_package_digest r) = 32 \<and> length (sr_client_id r) = 16 \<and>
     length (sr_session_id r) = 16 \<and> length (sr_state_hash r) = 32 \<and> length (sr_last_event_hash r) = 32 \<and>
     list_all (\<lambda>a. length (as_event_hash a) = 32) (sr_answers r)"

text \<open>What the validation loops demand of the answers, given what was seen before.\<close>

definition answers_fresh :: "u64 \<Rightarrow> bytes set \<Rightarrow> u64 set \<Rightarrow> answer_state list \<Rightarrow> bool" where
  "answers_fresh highest Q S as \<longleftrightarrow>
     list_all (\<lambda>a. valid_answer_state a \<and> as_sequence a \<le> highest \<and> as_question_id a \<notin> Q \<and> as_sequence a \<notin> S) as \<and>
     distinct (map as_question_id as) \<and> distinct (map as_sequence as)"

lemma answers_fresh_Cons:
  "answers_fresh h Q S (a # as) \<longleftrightarrow>
     valid_answer_state a \<and> as_sequence a \<le> h \<and> as_question_id a \<notin> Q \<and> as_sequence a \<notin> S \<and>
     answers_fresh h (insert (as_question_id a) Q) (insert (as_sequence a) S) as"
  by (auto simp: answers_fresh_def list_all_iff image_iff; metis)

lemma answers_fresh_Nil [simp]: "answers_fresh h Q S []"
  by (simp add: answers_fresh_def)

lemma answers_fresh_sub: "answers_fresh h Q S (xs @ ys @ zs) \<Longrightarrow> answers_fresh h Q S ys"
  by (auto simp: answers_fresh_def)

lemma valid_answer_bounds:
  assumes "valid_answer_state a"
  shows "length (as_question_id a) \<le> 128" "length (as_answer a) \<le> 16384" "as_question_id a \<noteq> []"
    "answer_wire_bytes a \<le> 16564"
proof -
  show q: "length (as_question_id a) \<le> 128" and w: "length (as_answer a) \<le> 16384"
    using assms by (auto simp: valid_answer_state_def sync_limits dest: valid_text_length)
  show "as_question_id a \<noteq> []" using assms by (auto simp: valid_answer_state_def valid_text_def)
  show "answer_wire_bytes a \<le> 16564" using q w by (simp add: answer_wire_bytes_def)
qed

lemma sum_answers_SomeD:
  "sum_answers h as Q S n = Some m \<Longrightarrow>
   answers_fresh h Q S as \<and> m = n + sum_list (map answer_wire_bytes as)"
proof (induction as arbitrary: Q S n)
  case (Cons a as)
  show ?case
    using Cons.prems Cons.IH [of "insert (as_question_id a) Q" "insert (as_sequence a) S" "n + answer_wire_bytes a"]
    by (auto simp: answers_fresh_Cons Let_def split: if_splits)
qed simp

lemma sum_answers_total:
  "answers_fresh h Q S as \<Longrightarrow> n + sum_list (map answer_wire_bytes as) \<le> kMaximumWireBytes \<Longrightarrow>
   sum_answers h as Q S n = Some (n + sum_list (map answer_wire_bytes as))"
proof (induction as arbitrary: Q S n)
  case (Cons a as)
  have "valid_answer_state a" using Cons.prems by (simp add: answers_fresh_Cons)
  then show ?case
    using Cons valid_answer_bounds [of a] by (simp add: answers_fresh_Cons not_less Let_def)
qed simp

lemma length_encode_answer_state [simp]:
  "length (as_event_hash a) = 32 \<Longrightarrow> length (encode_answer_state a) = answer_wire_bytes a"
  by (simp add: encode_answer_state_def answer_wire_bytes_def)

lemma length_encode_answers:
  "list_all (\<lambda>a. length (as_event_hash a) = 32) as \<Longrightarrow>
   length (concat (map encode_answer_state as)) = sum_list (map answer_wire_bytes as)"
  by (induction as) simp_all

lemma valid_answer_header:
  "valid_answer_state a \<Longrightarrow> valid_answer_state (a\<lparr>as_answer := []\<rparr>)"
  by (simp add: valid_answer_state_def)

lemma read_answers_encode:
  "answers_fresh h Q S as \<Longrightarrow> list_all (\<lambda>a. length (as_event_hash a) = 32) as \<Longrightarrow>
   read_answers h (length as) Q S (concat (map encode_answer_state as) @ rest) = Some (as, rest)"
proof (induction as arbitrary: Q S)
  case (Cons a as)
  have v: "valid_answer_state a" using Cons.prems by (simp add: answers_fresh_Cons)
  note b = valid_answer_bounds [OF v]
  let ?tail = "concat (map encode_answer_state as) @ rest"
  have IH: "read_answers h (length as) (insert (as_question_id a) Q) (insert (as_sequence a) S) ?tail = Some (as, rest)"
    using Cons by (simp add: answers_fresh_Cons)
  have q: "valid_text (as_question_id a) 128 False"
    using v by (simp add: valid_answer_state_def sync_limits)
  have "unat (len16 (as_question_id a)) \<noteq> 0" using b unat_len16 [of "as_question_id a"] by simp
  then have "len16 (as_question_id a) \<noteq> 0" by (metis unsigned_0)
  then show ?case
    using Cons.prems v [unfolded valid_answer_state_def] b q IH
    by (simp add: encode_answer_state_def [of a] read_string_write unat_len16 unat_len32 sync_limits
        answers_fresh_Cons valid_answer_state_def Let_def not_less)
qed simp

text \<open>A chunk that meets the demands is encoded, and what is encoded meets them.\<close>

definition chunk_ok :: "state_response \<Rightarrow> bool" where
  "chunk_ok r \<longleftrightarrow> valid_state_response_metadata r \<and> answers_fresh (sr_highest r) {} {} (sr_answers r) \<and>
     response_base_bytes r + sum_list (map answer_wire_bytes (sr_answers r)) \<le> kMaximumWireBytes"

lemma valid_metadata_iff:
  "valid_state_response_metadata r \<longleftrightarrow>
     valid_text (sr_package_id r) 128 False \<and> \<not> all_zero (sr_package_digest r) \<and>
     valid_identity (sr_client_id r) (sr_session_id r) \<and> valid_text (sr_candidate_id r) 128 False \<and>
     sr_chunk_count r \<noteq> 0 \<and> unat (sr_chunk_count r) \<le> 64 \<and> sr_chunk_index r < sr_chunk_count r \<and>
     length (sr_answers r) \<le> 512 \<and> (sr_highest r = 0 \<longleftrightarrow> all_zero (sr_last_event_hash r)) \<and>
     (sr_highest r \<noteq> 0 \<longrightarrow> \<not> all_zero (sr_state_hash r))"
  by (auto simp: valid_state_response_metadata_def valid_state_response_identity_def sync_limits)

lemma metadata_bounds:
  assumes "valid_state_response_metadata r"
  shows "length (sr_package_id r) \<le> 128" "length (sr_candidate_id r) \<le> 128" "length (sr_answers r) \<le> 512"
    "valid_text (sr_package_id r) 128 False" "valid_text (sr_candidate_id r) 128 False"
  using assms valid_text_length [of "sr_package_id r" 128 False] valid_text_length [of "sr_candidate_id r" 128 False]
  by (simp_all add: valid_metadata_iff)

lemma encode_chunk_eq:
  assumes "chunk_ok r" and "response_wf r"
  shows "encode_state_response_chunk r =
     append_le kResponseMagic @ append_le kStateResponseWireVersion @
     append_le (if sr_finalized r then 1 else 0 :: u8) @ append_le (0 :: u8) @
     append_le (sr_highest r) @ append_le (word_of_nat (length (sr_answers r)) :: u16) @
     append_le (sr_chunk_index r) @ append_le (sr_chunk_count r) @
     append_le (len16 (sr_package_id r)) @ append_le (len16 (sr_candidate_id r)) @
     sr_package_digest r @ sr_client_id r @ sr_session_id r @ sr_state_hash r @
     sr_last_event_hash r @ sr_package_id r @ sr_candidate_id r @
     concat (map encode_answer_state (sr_answers r))" (is "_ = ?wire")
    and "length (encode_state_response_chunk r) =
      response_base_bytes r + sum_list (map answer_wire_bytes (sr_answers r))"
proof -
  have m: "valid_state_response_metadata r" and f: "answers_fresh (sr_highest r) {} {} (sr_answers r)"
    and total: "response_base_bytes r + sum_list (map answer_wire_bytes (sr_answers r)) \<le> kMaximumWireBytes"
    using assms(1) by (simp_all add: chunk_ok_def)
  have len: "length ?wire = response_base_bytes r + sum_list (map answer_wire_bytes (sr_answers r))"
    using assms(2) length_encode_answers [of "sr_answers r"]
    by (simp add: response_wf_def response_base_bytes_def sync_limits)
  have sum: "sum_answers (sr_highest r) (sr_answers r) {} {} 0 = Some (sum_list (map answer_wire_bytes (sr_answers r)))"
    using sum_answers_total [OF f, of 0] total by simp
  have guard: "(\<not> valid_state_response_metadata r \<or> length (sr_answers r) > kMaximumStateEntries) = False"
    using m metadata_bounds [OF m] by (simp add: sync_limits)
  have fits: "(response_base_bytes r > kMaximumWireBytes \<or>
      sum_list (map answer_wire_bytes (sr_answers r)) > kMaximumWireBytes - response_base_bytes r) = False"
    using total by auto
  have "(length ?wire \<le> kMaximumWireBytes) = True" using total unfolding len by simp
  then show wire: "encode_state_response_chunk r = ?wire"
    unfolding encode_state_response_chunk_def Let_def guard sum option.case fits by (simp only: if_True if_False)
  show "length (encode_state_response_chunk r) =
      response_base_bytes r + sum_list (map answer_wire_bytes (sr_answers r))"
    unfolding wire by (rule len)
qed

lemma chunk_roundtrip:
  assumes "chunk_ok r" and "response_wf r"
  shows "decode_state_response (encode_state_response_chunk r) = Some r"
proof -
  note enc = encode_chunk_eq [OF assms]
  have m: "valid_state_response_metadata r" and f: "answers_fresh (sr_highest r) {} {} (sr_answers r)"
    using assms(1) by (simp_all add: chunk_ok_def)
  note b = metadata_bounds [OF m]
  have size: "\<not> length (encode_state_response_chunk r) < kStateResponseV1FixedBytes"
      "\<not> length (encode_state_response_chunk r) > kMaximumWireBytes"
    using assms(1) unfolding enc(2) by (simp_all add: chunk_ok_def response_base_bytes_def sync_limits)
  have count: "unat (word_of_nat (length (sr_answers r)) :: u16) = length (sr_answers r)"
    using b by (simp add: unat_of_nat)
  have "read_answers (sr_highest r) (length (sr_answers r)) {} {} (concat (map encode_answer_state (sr_answers r)))
      = Some (sr_answers r, [])"
    using read_answers_encode [OF f, of "[]"] assms(2) by (simp add: response_wf_def)
  moreover have "valid_state_response_metadata (r\<lparr>sr_answers := []\<rparr>)"
    using m by (simp add: valid_metadata_iff)
  ultimately show ?thesis
    using size count b assms(2) m
    by (simp add: decode_state_response_def enc(1) response_wf_def read_string_write unat_len16
        sync_limits sync_magics Let_def valid_metadata_iff not_le)
qed

lemma chunk_answers_split:
  assumes "list_all (\<lambda>a. base + answer_wire_bytes a \<le> kMaximumWireBytes) as"
    and "n = base + sum_list (map answer_wire_bytes current)" and "n \<le> kMaximumWireBytes"
  shows "concat (chunk_answers base as current n) = current @ as"
    and "list_all (\<lambda>c. base + sum_list (map answer_wire_bytes c) \<le> kMaximumWireBytes) (chunk_answers base as current n)"
  using assms
  by (induction base as current n rule: chunk_answers.induct) (auto simp: Let_def not_less)

lemma encode_chunks_total:
  assumes "\<And>i. i < length cs \<Longrightarrow>
      encode_state_response_chunk (r\<lparr>sr_chunk_index := word_of_nat (k + i), sr_chunk_count := n, sr_answers := cs ! i\<rparr>) \<noteq> []"
  shows "encode_chunks r n k cs = Some (map (\<lambda>i. encode_state_response_chunk
      (r\<lparr>sr_chunk_index := word_of_nat (k + i), sr_chunk_count := n, sr_answers := cs ! i\<rparr>)) [0..<length cs])"
  using assms
proof (induction cs arbitrary: k)
  case (Cons c cs)
  have "encode_chunks r n (Suc k) cs = Some (map (\<lambda>i. encode_state_response_chunk
      (r\<lparr>sr_chunk_index := word_of_nat (Suc k + i), sr_chunk_count := n, sr_answers := cs ! i\<rparr>)) [0..<length cs])"
    by (rule Cons.IH) (use Cons.prems [of "Suc i" for i] in auto)
  moreover have "encode_state_response_chunk (r\<lparr>sr_chunk_index := word_of_nat k, sr_chunk_count := n, sr_answers := c\<rparr>) \<noteq> []"
    using Cons.prems [of 0] by simp
  ultimately show ?case by (simp add: upt_conv_Cons map_Suc_upt [symmetric] comp_def add.left_commute del: upt_Suc)
qed simp

text \<open>The conditions under which a snapshot is sent at all, besides the number of chunks.\<close>

definition snapshot_ok :: "state_response \<Rightarrow> bool" where
  "snapshot_ok r \<longleftrightarrow> response_wf r \<and> valid_state_response_metadata r \<and>
     answers_fresh (sr_highest r) {} {} (sr_answers r)"

definition snapshot_chunks :: "state_response \<Rightarrow> answer_state list list" where
  "snapshot_chunks r = chunk_answers (response_base_bytes r) (sr_answers r) [] (response_base_bytes r)"

definition nth_chunk :: "state_response \<Rightarrow> nat \<Rightarrow> state_response" where
  "nth_chunk r i = r\<lparr>sr_chunk_index := word_of_nat i, sr_chunk_count := word_of_nat (length (snapshot_chunks r)),
     sr_answers := snapshot_chunks r ! i\<rparr>"

lemma snapshot_chunks_facts:
  assumes "snapshot_ok r"
  shows "concat (snapshot_chunks r) = sr_answers r" "response_base_bytes r \<le> 438"
    "list_all (\<lambda>c. response_base_bytes r + sum_list (map answer_wire_bytes c) \<le> kMaximumWireBytes) (snapshot_chunks r)"
    "list_all (\<lambda>a. answer_wire_bytes a \<le> 16564) (sr_answers r)"
proof -
  have m: "valid_state_response_metadata r" and f: "answers_fresh (sr_highest r) {} {} (sr_answers r)"
    using assms by (simp_all add: snapshot_ok_def)
  show base: "response_base_bytes r \<le> 438"
    using metadata_bounds [OF m] by (simp add: response_base_bytes_def sync_limits)
  show small: "list_all (\<lambda>a. answer_wire_bytes a \<le> 16564) (sr_answers r)"
    using f valid_answer_bounds(4) by (auto simp: answers_fresh_def list_all_iff)
  then have "list_all (\<lambda>a. response_base_bytes r + answer_wire_bytes a \<le> kMaximumWireBytes) (sr_answers r)"
    using base by (fastforce simp: list_all_iff sync_limits)
  note split = chunk_answers_split [OF this, of "response_base_bytes r" "[]"]
  show "concat (snapshot_chunks r) = sr_answers r"
    "list_all (\<lambda>c. response_base_bytes r + sum_list (map answer_wire_bytes c) \<le> kMaximumWireBytes) (snapshot_chunks r)"
    using split base by (simp_all add: snapshot_chunks_def sync_limits)
qed

lemma nth_chunk_ok:
  assumes "snapshot_ok r" and "length (snapshot_chunks r) \<le> 64" and "i < length (snapshot_chunks r)"
  shows "chunk_ok (nth_chunk r i)" "response_wf (nth_chunk r i)"
proof -
  let ?cs = "snapshot_chunks r"
  have m: "valid_state_response_metadata r" and f: "answers_fresh (sr_highest r) {} {} (sr_answers r)"
    and wf: "response_wf r"
    using assms(1) by (simp_all add: snapshot_ok_def)
  note facts = snapshot_chunks_facts [OF assms(1)]
  have split: "sr_answers r = concat (take i ?cs) @ ?cs ! i @ concat (drop (Suc i) ?cs)"
    using facts(1) id_take_nth_drop [OF assms(3)] by (metis concat.simps(2) concat_append)
  have "unat (word_of_nat (length ?cs) :: u16) = length ?cs" "unat (word_of_nat i :: u16) = i"
    using assms(2,3) by (simp_all add: unat_of_nat)
  then have idx: "(word_of_nat i :: u16) < word_of_nat (length ?cs)" "unat (word_of_nat (length ?cs) :: u16) \<le> 64"
      "(word_of_nat (length ?cs) :: u16) \<noteq> 0"
    using assms(2,3) by (auto simp: word_less_nat_alt unat_eq_0 [symmetric])
  have "length (sr_answers r) \<le> 512" using metadata_bounds [OF m] by simp
  then have "length (?cs ! i) \<le> 512" by (subst (asm) split) simp
  moreover have "answers_fresh (sr_highest r) {} {} (?cs ! i)"
    using f by (subst (asm) split) (rule answers_fresh_sub)
  moreover have "response_base_bytes r + sum_list (map answer_wire_bytes (?cs ! i)) \<le> kMaximumWireBytes"
    using facts(3) assms(3) by (simp add: list_all_length)
  ultimately show "chunk_ok (nth_chunk r i)"
    using m idx by (simp add: chunk_ok_def nth_chunk_def valid_metadata_iff response_base_bytes_def)
  have "set (?cs ! i) \<subseteq> set (sr_answers r)" by (subst split) auto
  then show "response_wf (nth_chunk r i)"
    using wf by (auto simp: response_wf_def nth_chunk_def list_all_iff)
qed

lemma encode_chunks_eq:
  assumes "snapshot_ok r"
  shows "encode_state_response_chunks r =
    (if length (snapshot_chunks r) > 64 then []
     else map (\<lambda>i. encode_state_response_chunk (nth_chunk r i)) [0..<length (snapshot_chunks r)])"
proof -
  let ?cs = "snapshot_chunks r" and ?n = "word_of_nat (length (snapshot_chunks r)) :: u16"
  have m: "valid_state_response_metadata r" and f: "answers_fresh (sr_highest r) {} {} (sr_answers r)"
    using assms by (simp_all add: snapshot_ok_def)
  note facts = snapshot_chunks_facts [OF assms]
  have "encode_state_response_chunk (nth_chunk r i) \<noteq> []" if "length ?cs \<le> 64" "i < length ?cs" for i
    using encode_chunk_eq(2) [OF nth_chunk_ok [OF assms that]] by (auto simp: response_base_bytes_def sync_limits)
  then have enc: "encode_chunks r ?n 0 ?cs =
      Some (map (\<lambda>i. encode_state_response_chunk (nth_chunk r i)) [0..<length ?cs])" if "length ?cs \<le> 64"
    using that encode_chunks_total [where cs = ?cs and r = r and k = 0 and n = ?n] by (simp add: nth_chunk_def)
  have "\<not> list_ex (\<lambda>a. \<not> valid_answer_state a \<or> as_sequence a > sr_highest r \<or>
      length (as_question_id a) > 2 ^ 16 - 1 \<or>
      answer_wire_bytes a > kMaximumWireBytes - response_base_bytes r) (sr_answers r)"
    using f facts(2) valid_answer_bounds
    by (fastforce simp: list_ex_iff answers_fresh_def list_all_iff sync_limits)
  moreover have "length (sr_answers r) \<le> 512" using metadata_bounds [OF m] by simp
  ultimately show ?thesis
    using m f facts(2) enc
    by (simp add: encode_state_response_chunks_def answers_fresh_def sync_limits snapshot_chunks_def Let_def)
qed

text \<open>
  C25. A snapshot of the answers survives the split into commands. For a valid snapshot that needs at
  most 64 chunks, the encoder always delivers; every wire chunk fits into an authenticated
  command; the decoder returns, for each, the snapshot's own metadata with its index and
  the common count; and the answers of the chunks, in order, are exactly the answers of the
  snapshot. A larger snapshot is refused as a whole and never sent in part.
\<close>

theorem state_chunks_roundtrip:
  assumes "snapshot_ok r"
  shows "concat (snapshot_chunks r) = sr_answers r \<and>
    (let ws = encode_state_response_chunks r in
     (if length (snapshot_chunks r) \<le> 64 then length ws = length (snapshot_chunks r) else ws = []) \<and>
     list_all (\<lambda>w. length w \<le> 65512) ws \<and>
     map decode_state_response ws = map (\<lambda>i. Some (nth_chunk r i)) [0..<length ws])"
proof (cases "length (snapshot_chunks r) \<le> 64")
  case True
  have "length (encode_state_response_chunk (nth_chunk r i)) \<le> 65512" "decode_state_response (encode_state_response_chunk (nth_chunk r i)) = Some (nth_chunk r i)"
    if "i < length (snapshot_chunks r)" for i
    using encode_chunk_eq(2) [OF nth_chunk_ok [OF assms True that]] chunk_roundtrip [OF nth_chunk_ok [OF assms True that]]
      nth_chunk_ok(1) [OF assms True that]
    by (simp_all add: chunk_ok_def sync_limits)
  then show ?thesis
    using True snapshot_chunks_facts(1) [OF assms]
    by (simp add: encode_chunks_eq [OF assms] list_all_iff)
next
  case False
  then show ?thesis using snapshot_chunks_facts(1) [OF assms] by (simp add: encode_chunks_eq [OF assms])
qed

definition sample_answer :: "byte \<Rightarrow> u64 \<Rightarrow> answer_state" where
  "sample_answer q n = \<lparr>as_question_id = [q], as_question_revision = 1, as_sequence = n, as_kind = Upsert,
     as_answer = [65], as_event_hash = replicate 32 7\<rparr>"

definition sample_snapshot :: state_response where
  "sample_snapshot = \<lparr>sr_package_id = [112], sr_package_digest = replicate 32 1, sr_client_id = replicate 16 2,
     sr_session_id = replicate 16 3, sr_candidate_id = [99], sr_highest = 2, sr_finalized = False,
     sr_state_hash = replicate 32 4, sr_last_event_hash = replicate 32 5, sr_chunk_index = 0,
     sr_chunk_count = 1, sr_answers = [sample_answer 49 1, sample_answer 50 2]\<rparr>"

lemma sample_snapshot_ok: "snapshot_ok sample_snapshot"
  by (simp add: snapshot_ok_def sample_snapshot_def sample_answer_def response_wf_def valid_metadata_iff
      answers_fresh_def valid_answer_state_def valid_text_def valid_identity_def sync_limits)

theorem state_chunks_roundtrip_witness:
  "concat (snapshot_chunks sample_snapshot) = [sample_answer 49 1, sample_answer 50 2] \<and>
   map decode_state_response (encode_state_response_chunks sample_snapshot) = [Some (nth_chunk sample_snapshot 0)]"
proof -
  have "length (snapshot_chunks sample_snapshot) = 1"
    by (simp add: snapshot_chunks_def sample_snapshot_def sample_answer_def answer_wire_bytes_def
        response_base_bytes_def sync_limits)
  then show ?thesis
    using state_chunks_roundtrip [OF sample_snapshot_ok] by (simp add: Let_def sample_snapshot_def)
qed

text \<open>
  One wire form per answer message. The decoders of answer events, acknowledgements and state
  requests accept a payload exactly when it is the encoding of a valid message and return that
  message: nothing is lost, no two payloads mean the same message, and in particular the
  hash of an event, taken over its encoding, determines the event up to collisions.
\<close>

theorem answer_messages_exact:
  "(decode_answer_event w = Some e \<longleftrightarrow> event_ok e \<and> encode_answer_event e = w) \<and>
   (decode_answer_ack w = Some a \<longleftrightarrow> ack_ok a \<and> encode_answer_ack a = w) \<and>
   (decode_state_request w = Some r \<longleftrightarrow> request_ok r \<and> encode_state_request r = w)"
  using event_codec.dec_iff ack_codec.dec_iff request_codec.dec_iff by simp

end
