(* ===== verification/OrderedMap.thy ===== *)
theory OrderedMap
  imports Prelude "HOL-Library.List_Lexorder"
begin

text \<open>
  \<open>std::map\<close>: an association list that is kept sorted by key, so that iterating over it is
  iterating over the list. Keys that are \<open>std::string\<close>s are byte lists under the
  lexicographic order of unsigned bytes, which is what \<open>std::char_traits<char>\<close> compares by.
  \<open>map_of\<close> is \<open>find\<close>, \<open>omap_insert\<close> is \<open>insert_or_assign\<close>, \<open>alist_erase\<close> (Prelude) is \<open>erase\<close>.
\<close>

fun omap_insert :: "'k::linorder \<Rightarrow> 'v \<Rightarrow> ('k \<times> 'v) list \<Rightarrow> ('k \<times> 'v) list" where
  "omap_insert k v [] = [(k, v)]"
| "omap_insert k v ((k', v') # xs) =
     (if k < k' then (k, v) # (k', v') # xs
      else if k = k' then (k, v) # xs
      else (k', v') # omap_insert k v xs)"

definition omap :: "('k::linorder \<times> 'v) list \<Rightarrow> bool" where
  "omap xs \<longleftrightarrow> sorted_wrt (<) (map fst xs)"

lemma omap_Nil [simp]: "omap []"
  by (simp add: omap_def)

lemma omap_Cons: "omap ((k, v) # xs) \<longleftrightarrow> (\<forall>x \<in> set xs. k < fst x) \<and> omap xs"
  by (auto simp: omap_def)

lemma omap_distinct: "omap xs \<Longrightarrow> distinct (map fst xs)"
  unfolding omap_def by (induction xs) auto

lemma set_omap_insert: "set (omap_insert k v xs) \<subseteq> insert (k, v) (set xs)"
  by (induction k v xs rule: omap_insert.induct) auto

lemma omap_omap_insert [simp]: "omap xs \<Longrightarrow> omap (omap_insert k v xs)"
proof (induction k v xs rule: omap_insert.induct)
  case (2 k v k' v' xs)
  then show ?case
    using set_omap_insert [of k v xs] by (auto simp: omap_Cons)
qed (simp add: omap_Cons)

lemma map_of_omap_insert [simp]:
  "omap xs \<Longrightarrow> map_of (omap_insert k v xs) x = (if x = k then Some v else map_of xs x)"
proof (induction k v xs rule: omap_insert.induct)
  case (2 k v k' v' xs)
  have "map_of xs k = None" if "k \<le> k'"
    using 2 that by (force simp: omap_Cons map_of_eq_None_iff)
  then show ?case using 2 by (auto simp: omap_Cons)
qed simp

lemma omap_erase [simp]: "omap xs \<Longrightarrow> omap (alist_erase k xs)"
  by (induction xs) (auto simp: alist_erase_def omap_Cons)

lemma length_omap_insert:
  "omap xs \<Longrightarrow> length (omap_insert k v xs) = (if map_of xs k = None then Suc (length xs) else length xs)"
proof (induction k v xs rule: omap_insert.induct)
  case (2 k v k' v' xs)
  have "map_of xs k = None" if "k < k'"
    using 2 that by (force simp: omap_Cons map_of_eq_None_iff)
  then show ?case using 2 by (auto simp: omap_Cons)
qed simp

lemma omap_insert_same: "omap xs \<Longrightarrow> map_of xs k = Some v \<Longrightarrow> omap_insert k v xs = xs"
proof (induction k v xs rule: omap_insert.induct)
  case (2 k v k' v' xs)
  have "map_of xs k = None" if "k < k'"
    using 2 that by (force simp: omap_Cons map_of_eq_None_iff)
  then show ?case using 2 by (auto simp: omap_Cons)
qed simp

text \<open>A sorted table is determined by its lookups.\<close>

lemma omap_ext:
  assumes "omap xs" and "omap ys" and "\<And>k. map_of xs k = map_of ys k"
  shows "xs = ys"
proof (rule map_sorted_distinct_set_unique [of fst])
  have set: "set zs = {(k, v). map_of zs k = Some v}" if "omap zs" for zs :: "('a \<times> 'b) list"
    using omap_distinct [OF that] by auto
  show eq: "set xs = set ys" using set [OF assms(1)] set [OF assms(2)] assms(3) by simp
  show "inj_on fst (set xs \<union> set ys)"
    using omap_distinct [OF assms(1)] eq by (simp add: distinct_map)
  show "sorted (map fst xs)" "sorted (map fst ys)"
    using assms(1,2) by (simp_all add: omap_def strict_sorted_imp_sorted)
  show "distinct (map fst xs)" "distinct (map fst ys)"
    using assms(1,2) by (simp_all add: omap_distinct)
qed

end
