(* ===== verification/AnswerJournal.thy ===== *)
theory AnswerJournal
  imports ExamSync OrderedMap "HOL-Library.Sublist"
begin

text \<open>
  The server's append-only answer journal, class \<open>AnswerJournal\<close> of
  \<open>common/src/answer_journal.cpp\<close>: the in-memory index of sessions, the record format, recovery
  of a file when it is opened, appending an event with its acknowledgement, and the state
  query. The file is its list of bytes. What the operating system does is an argument of
  the operation: \<open>append_io\<close> says whether the write was durable or failed and left a part of
  the record behind. SHA-256 is the parameter \<open>sha\<close>, the clock the argument \<open>now\<close>.

  The lemmas: recovery of a sequence of records followed by an incomplete one is the replay
  of the events (\<open>recover_records\<close>); every run of appends, storage failures, crashes and
  reopenings keeps the file in that form; no accepted event is ever lost and none is
  accepted twice; a state query returns the latest answers.
\<close>

section \<open>Sessions\<close>

definition kMaximumJournalBytes :: nat where "kMaximumJournalBytes = 256 * 1024 * 1024"
definition kMaximumJournalSessions :: nat where "kMaximumJournalSessions = 4096"
definition kJournalMagic :: u32 where "kJournalMagic = 0x314a5845"
definition kJournalVersion :: u16 where "kJournalVersion = 1"
definition kJournalHeaderBytes :: nat where "kJournalHeaderBytes = 12"
definition kJournalRecordOverhead :: nat where "kJournalRecordOverhead = kJournalHeaderBytes + 32"

record session_data =
  sd_package_id :: bytes
  sd_package_digest :: bytes
  sd_client_id :: bytes
  sd_session_id :: bytes
  sd_candidate_id :: bytes
  sd_highest_sequence :: u64
  sd_last_hash :: bytes
  sd_finalized :: bool
  sd_event_hashes :: "(u64 \<times> bytes) list"
  sd_answers :: "(bytes \<times> answer_state) list"

type_synonym sessions = "(bytes \<times> session_data) list"

record journal =
  j_open :: bool
  j_recovered_tail :: bool
  j_event_count :: nat
  j_sessions :: sessions
  j_file :: bytes

definition session_key :: "bytes \<Rightarrow> bytes \<Rightarrow> bytes \<Rightarrow> bytes \<Rightarrow> bytes" where
  "session_key package_id package_digest client_id session_id =
     package_id @ [0] @ package_digest @ client_id @ session_id"

definition event_key :: "answer_event \<Rightarrow> bytes" where
  "event_key e = session_key (ev_package_id e) (ev_package_digest e) (ev_client_id e) (ev_session_id e)"

definition request_key :: "state_request \<Rightarrow> bytes" where
  "request_key r = session_key (rq_package_id r) (rq_package_digest r) (rq_client_id r) (rq_session_id r)"

definition fresh_session :: "answer_event \<Rightarrow> session_data" where
  "fresh_session e =
     \<lparr>sd_package_id = ev_package_id e, sd_package_digest = ev_package_digest e, sd_client_id = ev_client_id e,
      sd_session_id = ev_session_id e, sd_candidate_id = ev_candidate_id e, sd_highest_sequence = 0,
      sd_last_hash = replicate 32 0, sd_finalized = False, sd_event_hashes = [], sd_answers = []\<rparr>"

definition event_answer :: "answer_event \<Rightarrow> bytes \<Rightarrow> answer_state" where
  "event_answer e h = \<lparr>as_question_id = ev_question_id e, as_question_revision = ev_question_revision e,
     as_sequence = ev_sequence e, as_kind = ev_kind e, as_answer = ev_answer e, as_event_hash = h\<rparr>"

definition apply_recovered :: "session_data \<Rightarrow> answer_event \<Rightarrow> bytes \<Rightarrow> session_data option" where
  "apply_recovered s e h =
     (if sd_highest_sequence s = -1 \<or> ev_sequence e \<noteq> sd_highest_sequence s + 1 \<or>
         ev_previous_hash e \<noteq> sd_last_hash s \<or>
         (sd_candidate_id s \<noteq> [] \<and> sd_candidate_id s \<noteq> ev_candidate_id e) \<or> sd_finalized s then None
      else
        let s = (if sd_candidate_id s = [] then s\<lparr>sd_candidate_id := ev_candidate_id e\<rparr> else s);
            s = s\<lparr>sd_event_hashes := omap_insert (ev_sequence e) h (sd_event_hashes s),
                  sd_highest_sequence := ev_sequence e, sd_last_hash := h\<rparr>
        in Some (case ev_kind e of
                   Upsert \<Rightarrow> s\<lparr>sd_answers := omap_insert (ev_question_id e) (event_answer e h) (sd_answers s)\<rparr>
                 | Clear \<Rightarrow> s\<lparr>sd_answers := alist_erase (ev_question_id e) (sd_answers s)\<rparr>
                 | FinalizeSession \<Rightarrow> s\<lparr>sd_finalized := True\<rparr>))"

definition canonical_answer :: "bytes \<times> answer_state \<Rightarrow> bytes" where
  "canonical_answer qa = (case qa of (question_id, a) \<Rightarrow>
     append_le (len16 question_id) @ question_id @ append_le (as_question_revision a) @
     append_le (as_sequence a) @ append_le (kind_code (as_kind a)) @ append_le (len32 (as_answer a)) @
     as_answer a @ as_event_hash a)"

definition state_hash :: "(bytes \<Rightarrow> bytes option) \<Rightarrow> session_data \<Rightarrow> bytes" where
  "state_hash sha s =
     (let canonical = append_le (sd_highest_sequence s) @ append_le (if sd_finalized s then 1 else 0 :: u8) @
            concat (map canonical_answer (sd_answers s))
      in case sha canonical of Some digest \<Rightarrow> digest | None \<Rightarrow> replicate 32 0)"

definition make_ack ::
  "(bytes \<Rightarrow> bytes option) \<Rightarrow> u64 \<Rightarrow> session_data \<Rightarrow> ack_status \<Rightarrow> u64 \<Rightarrow> bytes \<Rightarrow> answer_ack" where
  "make_ack sha now s status sequence h =
     \<lparr>ack_status = status, ack_session_id = sd_session_id s, ack_sequence = sequence,
      ack_highest = sd_highest_sequence s, ack_server_time = now, ack_event_hash = h,
      ack_state_hash = state_hash sha s\<rparr>"

section \<open>Records and recovery\<close>

definition encode_journal_record :: "answer_event \<Rightarrow> bytes \<Rightarrow> bytes" where
  "encode_journal_record e h =
     (let payload = encode_answer_event e in
      if payload = [] then []
      else append_le kJournalMagic @ append_le kJournalVersion @ append_le (0 :: u16) @
           append_le (len32 payload) @ payload @ h)"

datatype journal_error =
  Corrupt_header | Corrupt_event | Too_many_sessions | Candidate_changed | Answer_quota
| Chain_invalid | File_quota | Truncate_failed | Storage_unavailable

definition lookup_session :: "sessions \<Rightarrow> answer_event \<Rightarrow> session_data" where
  "lookup_session ss e = (case map_of ss (event_key e) of Some s \<Rightarrow> s | None \<Rightarrow> fresh_session e)"

text \<open>The part of the recovery loop after a record has been decoded and its hash checked.\<close>

definition load_event :: "sessions \<Rightarrow> answer_event \<Rightarrow> bytes \<Rightarrow> journal_error + sessions" where
  "load_event ss e h =
     (if map_of ss (event_key e) = None \<and> length ss \<ge> kMaximumJournalSessions then Inl Too_many_sessions
      else let s = lookup_session ss e in
        if sd_candidate_id s \<noteq> ev_candidate_id e then Inl Candidate_changed
        else if ev_kind e = Upsert \<and> map_of (sd_answers s) (ev_question_id e) = None \<and>
                length (sd_answers s) \<ge> kMaximumStateEntries then Inl Answer_quota
        else case apply_recovered s e h of
               None \<Rightarrow> Inl Chain_invalid
             | Some s' \<Rightarrow> Inr (omap_insert (event_key e) s' ss))"

text \<open>
  The recovery loop on the bytes not yet consumed: the index, the number of events, the bytes
  consumed by complete records, and whether an incomplete tail was found.
\<close>

function recover ::
  "(bytes \<Rightarrow> bytes option) \<Rightarrow> bytes \<Rightarrow> sessions \<Rightarrow> nat \<Rightarrow> nat \<Rightarrow> journal_error + (sessions \<times> nat \<times> nat \<times> bool)" where
  "recover sha bs ss count valid_offset =
     (if bs = [] then Inr (ss, count, valid_offset, False)
      else if length bs < kJournalHeaderBytes then Inr (ss, count, valid_offset, True)
      else case do { (magic, w) \<leftarrow> read_le bs; (version, w) \<leftarrow> read_le w;
                     (reserved, w) \<leftarrow> read_le w; (payload_bytes, w) \<leftarrow> read_le w;
                     if magic \<noteq> kJournalMagic \<or> version \<noteq> kJournalVersion \<or> reserved \<noteq> (0 :: u16) \<or>
                        payload_bytes = 0 \<or> payload_bytes > (64 * 1024 :: u32)
                     then None else Some (unat payload_bytes) } of
             None \<Rightarrow> Inl Corrupt_header
           | Some payload_bytes \<Rightarrow>
               let record_bytes = kJournalRecordOverhead + payload_bytes in
               if length bs < record_bytes then Inr (ss, count, valid_offset, True)
               else
                 let payload = take payload_bytes (drop kJournalHeaderBytes bs);
                     stored_hash = take 32 (drop (kJournalHeaderBytes + payload_bytes) bs) in
                 case decode_answer_event payload of
                   None \<Rightarrow> Inl Corrupt_event
                 | Some e \<Rightarrow>
                     (case hash_answer_event sha e of
                        None \<Rightarrow> Inl Corrupt_event
                      | Some h \<Rightarrow>
                          if h \<noteq> stored_hash then Inl Corrupt_event
                          else case load_event ss e h of
                                 Inl err \<Rightarrow> Inl err
                               | Inr ss' \<Rightarrow> recover sha (drop record_bytes bs) ss' (Suc count)
                                             (valid_offset + record_bytes)))"
  by pat_completeness auto
termination
  by (relation "measure (\<lambda>(sha, bs, ss, count, off). length bs)")
     (auto simp: kJournalRecordOverhead_def kJournalHeaderBytes_def)

declare recover.simps [simp del]

text \<open>
  \<open>open\<close>: what precedes the loop can fail for reasons of the operating system
  (\<open>storage_ok\<close> false: directory, lease, status query or read), and so can the truncation of
  an incomplete tail (\<open>truncate_ok\<close>). The second component is the file afterwards.
\<close>

definition journal_open ::
  "(bytes \<Rightarrow> bytes option) \<Rightarrow> bool \<Rightarrow> bool \<Rightarrow> bytes \<Rightarrow> journal_error + journal" where
  "journal_open sha storage_ok truncate_ok file =
     (if \<not> storage_ok then Inl Storage_unavailable
      else if length file > kMaximumJournalBytes then Inl File_quota
      else case recover sha file [] 0 0 of
             Inl err \<Rightarrow> Inl err
           | Inr (ss, count, valid_offset, tail) \<Rightarrow>
               if tail \<and> valid_offset < length file \<and> \<not> truncate_ok then Inl Truncate_failed
               else Inr \<lparr>j_open = True, j_recovered_tail = tail, j_event_count = count, j_sessions = ss,
                         j_file = (if tail \<and> valid_offset < length file then take valid_offset file else file)\<rparr>)"

definition journal_close :: "journal \<Rightarrow> journal" where
  "journal_close j = j\<lparr>j_open := False\<rparr>"

section \<open>Appending\<close>

datatype append_status =
  Accepted | Duplicate | Conflict | Gap | Rejected | Unavailable

text \<open>A durable write, or a failed one that leaves the first \<open>n\<close> bytes of the record behind.\<close>

datatype append_io = Written | Failed nat

definition append_file :: "append_io \<Rightarrow> bytes \<Rightarrow> bytes \<Rightarrow> bool \<times> bytes" where
  "append_file io file rec = (case io of Written \<Rightarrow> (True, file @ rec) | Failed n \<Rightarrow> (False, file @ take n rec))"

definition default_ack :: answer_ack where
  "default_ack = \<lparr>ack_status = AckRejected, ack_session_id = replicate 16 0, ack_sequence = 0, ack_highest = 0,
     ack_server_time = 0, ack_event_hash = replicate 32 0, ack_state_hash = replicate 32 0\<rparr>"

definition journal_append ::
  "(bytes \<Rightarrow> bytes option) \<Rightarrow> u64 \<Rightarrow> append_io \<Rightarrow> answer_event \<Rightarrow> journal \<Rightarrow> (append_status \<times> answer_ack) \<times> journal" where
  "journal_append sha now io e j =
     (if \<not> j_open j then ((Unavailable, default_ack), j)
      else if \<not> validate_answer_event e then ((Rejected, default_ack), j)
      else case hash_answer_event sha e of
        None \<Rightarrow> ((Unavailable, default_ack), j)
      | Some h \<Rightarrow>
          if map_of (j_sessions j) (event_key e) = None \<and> length (j_sessions j) \<ge> kMaximumJournalSessions
          then ((Unavailable, default_ack), j)
          else
            let s = lookup_session (j_sessions j) e;
                ack = (\<lambda>status. make_ack sha now s status (ev_sequence e)) in
            if sd_candidate_id s \<noteq> ev_candidate_id e then ((Conflict, ack AckConflict h), j)
            else case map_of (sd_event_hashes s) (ev_sequence e) of
              Some existing \<Rightarrow>
                if existing \<noteq> h then ((Conflict, ack AckConflict existing), j)
                else ((Duplicate, ack AckDuplicate existing), j)
            | None \<Rightarrow>
                if ev_kind e = Upsert \<and> map_of (sd_answers s) (ev_question_id e) = None \<and>
                   length (sd_answers s) \<ge> kMaximumStateEntries then ((Rejected, ack AckRejected h), j)
                else if sd_finalized s then ((Rejected, ack AckRejected h), j)
                else if sd_highest_sequence s = -1 \<or> ev_sequence e \<noteq> sd_highest_sequence s + 1
                then ((Gap, ack AckGap h), j)
                else if ev_previous_hash e \<noteq> sd_last_hash s then ((Conflict, ack AckConflict h), j)
                else
                  let rec = encode_journal_record e h in
                  if rec = [] \<or> length rec > kMaximumJournalBytes \<or>
                     length (j_file j) > kMaximumJournalBytes - length rec
                  then ((Unavailable, ack AckUnavailable h), j\<lparr>j_open := False\<rparr>)
                  else
                    let (written, file) = append_file io (j_file j) rec in
                    if \<not> written
                    then ((Unavailable, ack AckUnavailable h), j\<lparr>j_open := False, j_file := file\<rparr>)
                    else case apply_recovered s e h of
                           None \<Rightarrow> ((Unavailable, default_ack), j\<lparr>j_file := file\<rparr>)
                         | Some s' \<Rightarrow>
                             ((Accepted, make_ack sha now s' AckAccepted (ev_sequence e) h),
                              j\<lparr>j_sessions := omap_insert (event_key e) s' (j_sessions j),
                                j_event_count := Suc (j_event_count j), j_file := file\<rparr>))"

section \<open>State queries\<close>

definition journal_state :: "(bytes \<Rightarrow> bytes option) \<Rightarrow> state_request \<Rightarrow> journal \<Rightarrow> state_response option" where
  "journal_state sha r j =
     (if \<not> j_open j then None
      else if encode_state_request r = [] then None
      else case map_of (j_sessions j) (request_key r) of
        None \<Rightarrow> Some \<lparr>sr_package_id = rq_package_id r, sr_package_digest = rq_package_digest r,
                  sr_client_id = rq_client_id r, sr_session_id = rq_session_id r,
                  sr_candidate_id = rq_candidate_id r, sr_highest = 0, sr_finalized = False,
                  sr_state_hash = replicate 32 0, sr_last_event_hash = replicate 32 0,
                  sr_chunk_index = 0, sr_chunk_count = 1, sr_answers = []\<rparr>
      | Some s \<Rightarrow>
          if sd_candidate_id s \<noteq> rq_candidate_id r then None
          else Some \<lparr>sr_package_id = sd_package_id s, sr_package_digest = sd_package_digest s,
                  sr_client_id = sd_client_id s, sr_session_id = sd_session_id s,
                  sr_candidate_id = sd_candidate_id s, sr_highest = sd_highest_sequence s,
                  sr_finalized = sd_finalized s, sr_state_hash = state_hash sha s,
                  sr_last_event_hash = sd_last_hash s, sr_chunk_index = 0, sr_chunk_count = 1,
                  sr_answers = map snd (sd_answers s)\<rparr>)"

definition event_count :: "journal \<Rightarrow> nat" where
  "event_count j = j_event_count j"

section \<open>Recovery of well-formed files\<close>

lemmas journal_consts = kMaximumJournalBytes_def kMaximumJournalSessions_def kJournalHeaderBytes_def
  kJournalRecordOverhead_def kJournalMagic_def kJournalVersion_def

lemma event_wire_length:
  assumes "event_ok e"
  shows "134 \<le> length (encode_answer_event e)" "length (encode_answer_event e) \<le> 65512"
proof -
  have v: "validate_answer_event e" using assms by (simp add: event_ok_def)
  show "134 \<le> length (encode_answer_event e)" "length (encode_answer_event e) \<le> 65512"
    using length_encode_event [OF assms] event_fields(4-7) [OF v] by simp_all
qed

lemma hash_length: "digest_ok sha \<Longrightarrow> hash_answer_event sha e = Some h \<Longrightarrow> length h = 32"
  by (auto simp: digest_ok_def hash_answer_event_def Let_def split: if_splits)

definition rec_header :: "answer_event \<Rightarrow> bytes" where
  "rec_header e = append_le kJournalMagic @ append_le kJournalVersion @ append_le (0 :: u16) @
     append_le (len32 (encode_answer_event e))"

lemma length_rec_header [simp]: "length (rec_header e) = 12"
  by (simp add: rec_header_def)

lemma encode_record_eq:
  "event_ok e \<Longrightarrow> encode_journal_record e h = rec_header e @ encode_answer_event e @ h"
  using event_wire_length [of e] by (auto simp: encode_journal_record_def rec_header_def Let_def)

lemma header_parse:
  assumes "event_ok e"
  shows "do { (magic, w) \<leftarrow> read_le (rec_header e @ rest); (version, w) \<leftarrow> read_le w;
              (reserved, w) \<leftarrow> read_le w; (payload_bytes, w) \<leftarrow> read_le w;
              if magic \<noteq> kJournalMagic \<or> version \<noteq> kJournalVersion \<or> reserved \<noteq> (0 :: u16) \<or>
                 payload_bytes = 0 \<or> payload_bytes > (64 * 1024 :: u32)
              then None else Some (unat payload_bytes) } = Some (length (encode_answer_event e))"
proof -
  let ?n = "len32 (encode_answer_event e)"
  have n: "unat ?n = length (encode_answer_event e)"
    using event_wire_length [OF assms] by (simp add: unat_len32)
  then have "?n \<noteq> 0" using event_wire_length(1) [OF assms] by (metis not_numeral_le_zero unsigned_0)
  moreover have "\<not> ?n > 65536" using n event_wire_length(2) [OF assms] by (simp add: word_less_nat_alt)
  ultimately show ?thesis using n by (simp add: rec_header_def)
qed

lemma recover_record:
  assumes "event_ok e" and "hash_answer_event sha e = Some h" and "length h = 32" and "load_event ss e h = Inr ss'"
  shows "recover sha (encode_journal_record e h @ rest) ss n off =
     recover sha rest ss' (Suc n) (off + length (encode_journal_record e h))"
proof -
  let ?p = "encode_answer_event e" and ?bs = "encode_journal_record e h @ rest"
  have bs: "?bs = rec_header e @ ?p @ h @ rest" and len: "length (encode_journal_record e h) = 44 + length ?p"
    using assms(1,3) by (simp_all add: encode_record_eq)
  have ne: "?bs \<noteq> []" "\<not> length ?bs < kJournalHeaderBytes" "\<not> length ?bs < kJournalRecordOverhead + length ?p"
    using len by (auto simp: journal_consts)
  have payload: "take (length ?p) (drop kJournalHeaderBytes ?bs) = ?p"
      "take 32 (drop (kJournalHeaderBytes + length ?p) ?bs) = h" "drop (kJournalRecordOverhead + length ?p) ?bs = rest"
    using assms(3) by (simp_all add: bs journal_consts)
  have parse: "do { (magic, w) \<leftarrow> read_le ?bs; (version, w) \<leftarrow> read_le w;
              (reserved, w) \<leftarrow> read_le w; (payload_bytes, w) \<leftarrow> read_le w;
              if magic \<noteq> kJournalMagic \<or> version \<noteq> kJournalVersion \<or> reserved \<noteq> (0 :: u16) \<or>
                 payload_bytes = 0 \<or> payload_bytes > (64 * 1024 :: u32)
              then None else Some (unat payload_bytes) } = Some (length ?p)"
    unfolding bs by (rule header_parse [OF assms(1)])
  show ?thesis
    by (subst recover.simps, unfold parse payload Let_def option.case)
       (use ne event_enc [OF assms(1)] assms(2,4) len in \<open>auto simp: journal_consts\<close>)
qed

text \<open>An incomplete record, cut anywhere, is recognised as an incomplete tail.\<close>

lemma recover_partial:
  assumes "event_ok e" and "length h = 32" and "n < length (encode_journal_record e h)"
  shows "recover sha (take n (encode_journal_record e h)) ss c off = Inr (ss, c, off, n \<noteq> 0)"
proof -
  let ?p = "encode_answer_event e" and ?bs = "take n (encode_journal_record e h)"
  have len: "length (encode_journal_record e h) = 44 + length ?p"
    using assms(1,2) by (simp add: encode_record_eq)
  consider "n = 0" | "0 < n" "n < 12" | "12 \<le> n" by linarith
  then show ?thesis
  proof cases
    case 3
    have bs: "?bs = rec_header e @ take (n - 12) (?p @ h)"
      using 3 by (simp add: encode_record_eq [OF assms(1)])
    have size: "length ?bs = n" using assms(3) by simp
    have ne: "?bs \<noteq> []" "\<not> length ?bs < kJournalHeaderBytes" "length ?bs < kJournalRecordOverhead + length ?p"
      using 3 len assms(3) size by (auto simp: journal_consts)
    have parse: "do { (magic, w) \<leftarrow> read_le ?bs; (version, w) \<leftarrow> read_le w;
              (reserved, w) \<leftarrow> read_le w; (payload_bytes, w) \<leftarrow> read_le w;
              if magic \<noteq> kJournalMagic \<or> version \<noteq> kJournalVersion \<or> reserved \<noteq> (0 :: u16) \<or>
                 payload_bytes = 0 \<or> payload_bytes > (64 * 1024 :: u32)
              then None else Some (unat payload_bytes) } = Some (length ?p)"
      unfolding bs by (rule header_parse [OF assms(1)])
    show ?thesis
      by (subst recover.simps, unfold parse Let_def option.case) (use ne 3 in simp)
  qed (use len in \<open>auto simp: recover.simps journal_consts\<close>)
qed

section \<open>Replaying a log\<close>

primrec replay :: "(bytes \<Rightarrow> bytes option) \<Rightarrow> answer_event list \<Rightarrow> sessions \<Rightarrow> sessions option" where
  "replay sha [] ss = Some ss"
| "replay sha (e # es) ss =
     (case hash_answer_event sha e of
        None \<Rightarrow> None
      | Some h \<Rightarrow> (case load_event ss e h of Inl err \<Rightarrow> None | Inr ss' \<Rightarrow> replay sha es ss'))"

definition journal_record :: "(bytes \<Rightarrow> bytes option) \<Rightarrow> answer_event \<Rightarrow> bytes" where
  "journal_record sha e = encode_journal_record e (the (hash_answer_event sha e))"

definition log_bytes :: "(bytes \<Rightarrow> bytes option) \<Rightarrow> answer_event list \<Rightarrow> bytes" where
  "log_bytes sha es = concat (map (journal_record sha) es)"

lemma log_bytes_append [simp]:
  "log_bytes sha [] = []" "log_bytes sha (es @ [e]) = log_bytes sha es @ journal_record sha e"
  by (simp_all add: log_bytes_def)

lemma replay_append: "replay sha (es @ es') ss = Option.bind (replay sha es ss) (replay sha es')"
  by (induction es arbitrary: ss) (auto split: option.splits sum.splits)

lemma recover_records:
  "digest_ok sha \<Longrightarrow> list_all event_ok es \<Longrightarrow> replay sha es ss = Some ss' \<Longrightarrow>
   recover sha (log_bytes sha es @ rest) ss n off =
     recover sha rest ss' (n + length es) (off + length (log_bytes sha es))"
proof (induction es arbitrary: ss n off)
  case (Cons e es)
  obtain h ss1 where h: "hash_answer_event sha e = Some h" "load_event ss e h = Inr ss1" "replay sha es ss1 = Some ss'"
    using Cons.prems(3) by (auto split: option.splits sum.splits)
  have "length h = 32" using Cons.prems(1) h(1) by (rule hash_length)
  then have "recover sha (encode_journal_record e h @ log_bytes sha es @ rest) ss n off =
      recover sha (log_bytes sha es @ rest) ss1 (Suc n) (off + length (encode_journal_record e h))"
    using recover_record [of e sha h ss ss1 "log_bytes sha es @ rest"] Cons.prems h by simp
  then show ?case
    using Cons.IH [of ss1] Cons.prems h by (simp add: log_bytes_def journal_record_def add.assoc)
qed simp

section \<open>A session is a function of its log\<close>

definition events_of :: "bytes \<Rightarrow> answer_event list \<Rightarrow> answer_event list" where
  "events_of k es = filter (\<lambda>e. event_key e = k) es"

definition current_answer :: "(bytes \<Rightarrow> bytes option) \<Rightarrow> answer_event list \<Rightarrow> bytes \<Rightarrow> answer_state option" where
  "current_answer sha fs q =
     (let touching = filter (\<lambda>e. ev_kind e \<noteq> FinalizeSession \<and> ev_question_id e = q) fs in
      if touching = [] \<or> ev_kind (last touching) = Clear then None
      else Some (event_answer (last touching) (the (hash_answer_event sha (last touching)))))"

lemma events_of_simps [simp]:
  "events_of k [] = []"
  "events_of k (es @ [e]) = (if event_key e = k then events_of k es @ [e] else events_of k es)"
  by (simp_all add: events_of_def)

lemma current_answer_snoc:
  "current_answer sha (fs @ [e]) q =
     (if ev_kind e = FinalizeSession \<or> ev_question_id e \<noteq> q then current_answer sha fs q
      else if ev_kind e = Clear then None
      else Some (event_answer e (the (hash_answer_event sha e))))"
  by (simp add: current_answer_def)

lemma current_answer_Nil [simp]: "current_answer sha [] q = None"
  by (simp add: current_answer_def)

definition session_spec :: "(bytes \<Rightarrow> bytes option) \<Rightarrow> answer_event list \<Rightarrow> session_data \<Rightarrow> bool" where
  "session_spec sha fs s \<longleftrightarrow>
     fs \<noteq> [] \<and> length fs = unat (sd_highest_sequence s) \<and>
     (\<forall>i < length fs. unat (ev_sequence (fs ! i)) = Suc i) \<and>
     list_all (\<lambda>e. ev_candidate_id e = sd_candidate_id s \<and> ev_package_id e = sd_package_id s \<and>
       ev_package_digest e = sd_package_digest s \<and> ev_client_id e = sd_client_id s \<and>
       ev_session_id e = sd_session_id s) fs \<and>
     sd_finalized s = list_ex (\<lambda>e. ev_kind e = FinalizeSession) fs \<and>
     Some (sd_last_hash s) = hash_answer_event sha (last fs) \<and>
     omap (sd_event_hashes s) \<and> omap (sd_answers s) \<and>
     (\<forall>n. map_of (sd_event_hashes s) n =
        (if 1 \<le> unat n \<and> unat n \<le> length fs then hash_answer_event sha (fs ! (unat n - 1)) else None)) \<and>
     (\<forall>q. map_of (sd_answers s) q = current_answer sha fs q)"

lemma unat_plus_one: "(x :: u64) \<noteq> -1 \<Longrightarrow> unat (x + 1) = Suc (unat x)"
  by (metis add.commute add_eq_0_iff unatSuc)

text \<open>The default of a session that does not exist yet meets the same description, of an empty log.\<close>

definition session_spec0 :: "(bytes \<Rightarrow> bytes option) \<Rightarrow> answer_event list \<Rightarrow> session_data \<Rightarrow> bool" where
  "session_spec0 sha fs s \<longleftrightarrow> fs = [] \<and> sd_highest_sequence s = 0 \<and> \<not> sd_finalized s \<and>
     sd_event_hashes s = [] \<and> sd_answers s = [] \<or> session_spec sha fs s"

lemma apply_recovered_spec:
  assumes "session_spec0 sha fs s" and "hash_answer_event sha e = Some h" and "apply_recovered s e h = Some s'"
    and "ev_candidate_id e = sd_candidate_id s" "ev_package_id e = sd_package_id s"
      "ev_package_digest e = sd_package_digest s" "ev_client_id e = sd_client_id s" "ev_session_id e = sd_session_id s"
  shows "session_spec sha (fs @ [e]) s'"
proof -
  have high: "sd_highest_sequence s \<noteq> -1" "ev_sequence e = sd_highest_sequence s + 1" "\<not> sd_finalized s"
    using assms(3) by (auto simp: apply_recovered_def split: if_splits)
  define s1 where "s1 = s\<lparr>sd_event_hashes := omap_insert (ev_sequence e) h (sd_event_hashes s),
                  sd_highest_sequence := ev_sequence e, sd_last_hash := h\<rparr>"
  have same: "(if sd_candidate_id s = [] then s\<lparr>sd_candidate_id := ev_candidate_id e\<rparr> else s) = s"
    using assms(4) by (cases s) simp
  have s': "s' = (case ev_kind e of
                   Upsert \<Rightarrow> s1\<lparr>sd_answers := omap_insert (ev_question_id e) (event_answer e h) (sd_answers s1)\<rparr>
                 | Clear \<Rightarrow> s1\<lparr>sd_answers := alist_erase (ev_question_id e) (sd_answers s1)\<rparr>
                 | FinalizeSession \<Rightarrow> s1\<lparr>sd_finalized := True\<rparr>)"
    using assms(3) unfolding apply_recovered_def same Let_def s1_def by (simp split: if_splits)
  have len: "unat (sd_highest_sequence s) = length fs"
    using assms(1) by (auto simp: session_spec0_def session_spec_def)
  then have seq: "unat (ev_sequence e) = Suc (length fs)"
    using unat_plus_one [OF high(1)] high(2) by simp
  have old: "omap (sd_event_hashes s)" "omap (sd_answers s)"
      "\<And>n. map_of (sd_event_hashes s) n =
        (if 1 \<le> unat n \<and> unat n \<le> length fs then hash_answer_event sha (fs ! (unat n - 1)) else None)"
      "\<And>q. map_of (sd_answers s) q = current_answer sha fs q"
      "\<not> list_ex (\<lambda>e. ev_kind e = FinalizeSession) fs"
      "\<forall>i < length fs. unat (ev_sequence (fs ! i)) = Suc i"
      "list_all (\<lambda>e. ev_candidate_id e = sd_candidate_id s \<and> ev_package_id e = sd_package_id s \<and>
       ev_package_digest e = sd_package_digest s \<and> ev_client_id e = sd_client_id s \<and>
       ev_session_id e = sd_session_id s) fs"
    using assms(1) high(3) by (auto simp: session_spec0_def session_spec_def)
  have hashes: "map_of (sd_event_hashes s1) n =
      (if 1 \<le> unat n \<and> unat n \<le> Suc (length fs) then hash_answer_event sha ((fs @ [e]) ! (unat n - 1)) else None)" for n
  proof (cases "n = ev_sequence e")
    case True
    then show ?thesis using old(1) seq assms(2) by (simp add: s1_def)
  next
    case False
    then have "unat n \<noteq> Suc (length fs)" using seq by (metis word_unat_eq_iff)
    then show ?thesis using old(1,3) False by (auto simp: s1_def nth_append)
  qed
  have answers: "omap (sd_answers s')" "map_of (sd_answers s') q = current_answer sha (fs @ [e]) q" for q
    using old(2,4) assms(2) by (auto simp: s' s1_def current_answer_snoc split: answer_kind.splits)
  have rest: "sd_event_hashes s' = sd_event_hashes s1" "sd_highest_sequence s' = ev_sequence e" "sd_last_hash s' = h"
      "sd_finalized s' = (ev_kind e = FinalizeSession)" "sd_candidate_id s' = sd_candidate_id s"
      "sd_package_id s' = sd_package_id s" "sd_package_digest s' = sd_package_digest s"
      "sd_client_id s' = sd_client_id s" "sd_session_id s' = sd_session_id s"
    using high(3) by (simp_all add: s' s1_def split: answer_kind.splits)
  show ?thesis
    unfolding session_spec_def rest
    using answers hashes old(1,5,6,7) seq assms(2,4-8)
    by (auto simp: s1_def nth_append less_Suc_eq)
qed

text \<open>The key identifies package, client and session: the package id holds no zero byte.\<close>

lemma zero_split_unique:
  "list_all (\<lambda>c. c \<noteq> 0) p \<Longrightarrow> list_all (\<lambda>c. c \<noteq> 0) p' \<Longrightarrow> p @ (0 :: byte) # r = p' @ 0 # r' \<Longrightarrow> p = p' \<and> r = r'"
proof (induction p arbitrary: p')
  case Nil
  then show ?case by (cases p') auto
next
  case (Cons c p)
  then show ?case by (cases p') auto
qed

lemma session_key_inj:
  assumes "session_key p d c s = session_key p' d' c' s'"
    and "valid_text p 128 False" "valid_text p' 128 False" "length d = length d'" "length c = length c'"
  shows "p = p' \<and> d = d' \<and> c = c' \<and> s = s'"
proof -
  have "list_all (\<lambda>c. c \<noteq> 0) p" "list_all (\<lambda>c. c \<noteq> 0) p'"
    using assms(2,3) by (auto simp: valid_text_def split: if_splits)
  then have "p = p' \<and> d @ c @ s = d' @ c' @ s'"
    using zero_split_unique [of p p' "d @ c @ s" "d' @ c' @ s'"] assms(1) unfolding session_key_def append_Cons append_Nil
    by blast
  then show ?thesis using assms(4,5) by simp
qed

lemma event_key_inj:
  assumes "event_ok e" and "event_ok e'" and "event_key e = event_key e'"
  shows "ev_package_id e = ev_package_id e'" "ev_package_digest e = ev_package_digest e'"
    "ev_client_id e = ev_client_id e'" "ev_session_id e = ev_session_id e'"
proof -
  have "valid_text (ev_package_id e) 128 False" "valid_text (ev_package_id e') 128 False"
    using assms(1,2) event_fields(1) by (simp_all add: event_ok_def)
  then have *: "ev_package_id e = ev_package_id e' \<and> ev_package_digest e = ev_package_digest e' \<and>
      ev_client_id e = ev_client_id e' \<and> ev_session_id e = ev_session_id e'"
    using session_key_inj [OF assms(3) [unfolded event_key_def]] assms(1,2)
    by (simp add: event_ok_def event_wf_def)
  show "ev_package_id e = ev_package_id e'" "ev_package_digest e = ev_package_digest e'"
    "ev_client_id e = ev_client_id e'" "ev_session_id e = ev_session_id e'"
    using * by simp_all
qed

definition sessions_spec :: "(bytes \<Rightarrow> bytes option) \<Rightarrow> answer_event list \<Rightarrow> sessions \<Rightarrow> bool" where
  "sessions_spec sha es ss \<longleftrightarrow> omap ss \<and>
     (\<forall>k. case map_of ss k of
            None \<Rightarrow> events_of k es = []
          | Some s \<Rightarrow> session_spec sha (events_of k es) s)"

lemma sessions_spec_None: "sessions_spec sha es ss \<Longrightarrow> map_of ss k = None \<Longrightarrow> events_of k es = []"
  and sessions_spec_Some: "sessions_spec sha es ss \<Longrightarrow> map_of ss k = Some s \<Longrightarrow> session_spec sha (events_of k es) s"
  unfolding sessions_spec_def by (elim conjE allE [of _ k], simp)+

lemma lookup_session_spec:
  assumes "sessions_spec sha es ss" and "list_all event_ok es" and "event_ok e"
    and "sd_candidate_id (lookup_session ss e) = ev_candidate_id e"
  defines "s \<equiv> lookup_session ss e"
  shows "session_spec0 sha (events_of (event_key e) es) s" "ev_candidate_id e = sd_candidate_id s"
    "ev_package_id e = sd_package_id s" "ev_package_digest e = sd_package_digest s"
    "ev_client_id e = sd_client_id s" "ev_session_id e = sd_session_id s"
proof -
  let ?fs = "events_of (event_key e) es"
  show cand: "ev_candidate_id e = sd_candidate_id s" using assms(4) by (simp add: s_def)
  have "session_spec0 sha ?fs s \<and> ev_package_id e = sd_package_id s \<and> ev_package_digest e = sd_package_digest s \<and>
      ev_client_id e = sd_client_id s \<and> ev_session_id e = sd_session_id s"
  proof (cases "map_of ss (event_key e)")
    case None
    then have "?fs = []" using sessions_spec_None [OF assms(1)] by simp
    then show ?thesis using None by (simp add: s_def lookup_session_def fresh_session_def session_spec0_def)
  next
    case (Some s')
    then have spec: "session_spec sha ?fs s'" using sessions_spec_Some [OF assms(1)] by simp
    then obtain e' where e': "e' \<in> set ?fs" by (cases ?fs) (auto simp: session_spec_def)
    then have "event_ok e'" "event_key e' = event_key e" using assms(2) by (auto simp: events_of_def list_all_iff)
    note same = event_key_inj [OF assms(3) this(1) this(2) [symmetric]]
    have "ev_package_id e' = sd_package_id s' \<and> ev_package_digest e' = sd_package_digest s' \<and>
        ev_client_id e' = sd_client_id s' \<and> ev_session_id e' = sd_session_id s'"
      using spec e' by (auto simp: session_spec_def list_all_iff)
    then show ?thesis using Some spec same by (simp add: s_def lookup_session_def session_spec0_def)
  qed
  then show "session_spec0 sha ?fs s" "ev_package_id e = sd_package_id s" "ev_package_digest e = sd_package_digest s"
    "ev_client_id e = sd_client_id s" "ev_session_id e = sd_session_id s" by simp_all
qed

lemma load_event_spec:
  assumes "sessions_spec sha es ss" and "list_all event_ok es" and "event_ok e"
    and "hash_answer_event sha e = Some h" and "load_event ss e h = Inr ss'"
  shows "sessions_spec sha (es @ [e]) ss'"
proof -
  let ?s = "lookup_session ss e"
  obtain s' where cand: "sd_candidate_id ?s = ev_candidate_id e" and ap: "apply_recovered ?s e h = Some s'"
      and ss': "ss' = omap_insert (event_key e) s' ss"
    using assms(5) by (auto simp: load_event_def Let_def split: if_splits option.splits)
  have "session_spec sha (events_of (event_key e) es @ [e]) s'"
    using apply_recovered_spec [OF _ assms(4) ap] lookup_session_spec [OF assms(1-3) cand] by simp
  then show ?thesis
    using assms(1) sessions_spec_None [OF assms(1)] sessions_spec_Some [OF assms(1)]
    by (auto simp: sessions_spec_def ss' split: option.split)
qed

lemma replay_spec:
  "list_all event_ok es \<Longrightarrow> replay sha es [] = Some ss \<Longrightarrow> sessions_spec sha es ss"
proof (induction es arbitrary: ss rule: rev_induct)
  case (snoc e es)
  obtain ss1 where "replay sha es [] = Some ss1" "replay sha [e] ss1 = Some ss"
    using snoc.prems(2) by (auto simp: replay_append bind_eq_Some_conv)
  then obtain h where r: "replay sha es [] = Some ss1" "hash_answer_event sha e = Some h" "load_event ss1 e h = Inr ss"
    by (cases "hash_answer_event sha e"; cases "load_event ss1 e (the (hash_answer_event sha e))") auto
  then have "sessions_spec sha es ss1" using snoc by simp
  then show ?case using load_event_spec snoc.prems(1) r by simp
qed (simp add: sessions_spec_def)

section \<open>Runs of the journal\<close>

text \<open>
  A run starts with a new file; every event that is appended is any record of the code's type
  (its arrays have their fixed sizes) and need not be valid; every write may fail and leave any
  part of its record behind; the journal is reopened at any moment, in particular after a crash.
  \<open>accepted\<close> is the sequence of events that were acknowledged as accepted.
\<close>

inductive journal_run :: "(bytes \<Rightarrow> bytes option) \<Rightarrow> journal \<Rightarrow> answer_event list \<Rightarrow> bool" for sha where
  created: "journal_open sha True t [] = Inr j \<Longrightarrow> journal_run sha j []"
| appended: "journal_run sha j acc \<Longrightarrow> event_wf e \<Longrightarrow> journal_append sha now io e j = ((status, ack), j') \<Longrightarrow>
     journal_run sha j' (if status = Accepted then acc @ [e] else acc)"
| reopened: "journal_run sha j acc \<Longrightarrow> journal_open sha True True (j_file j) = Inr j' \<Longrightarrow> journal_run sha j' acc"
| closed: "journal_run sha j acc \<Longrightarrow> journal_run sha (journal_close j) acc"

lemma append_step:
  assumes "journal_run sha j acc" and "event_wf e"
  shows "journal_run sha (snd (journal_append sha now io e j))
    (if fst (fst (journal_append sha now io e j)) = Accepted then acc @ [e] else acc)"
proof -
  obtain status ack j' where "journal_append sha now io e j = ((status, ack), j')" by (metis prod.exhaust)
  then show ?thesis using appended [OF assms] by simp
qed

definition partial_record :: "(bytes \<Rightarrow> bytes option) \<Rightarrow> bytes \<Rightarrow> bool" where
  "partial_record sha tail \<longleftrightarrow> tail = [] \<or>
     (\<exists>e h n. event_ok e \<and> hash_answer_event sha e = Some h \<and> n < length (encode_journal_record e h) \<and>
        tail = take n (encode_journal_record e h))"

text \<open>
  The invariant: the file is a replayable log \<open>es\<close>, plus at most a part of one record while closed;
  the log contains the accepted events.
\<close>

definition journal_log :: "(bytes \<Rightarrow> bytes option) \<Rightarrow> journal \<Rightarrow> answer_event list \<Rightarrow> bool" where
  "journal_log sha j es \<longleftrightarrow>
     (\<exists>ss tail. j_file j = log_bytes sha es @ tail \<and> length (j_file j) \<le> kMaximumJournalBytes \<and>
        list_all event_ok es \<and> replay sha es [] = Some ss \<and> partial_record sha tail \<and>
        (j_open j \<longrightarrow> tail = [] \<and> j_sessions j = ss \<and> j_event_count j = length es))"

definition journal_inv :: "(bytes \<Rightarrow> bytes option) \<Rightarrow> journal \<Rightarrow> answer_event list \<Rightarrow> bool" where
  "journal_inv sha j acc \<longleftrightarrow> (\<exists>es. journal_log sha j es \<and> subseq acc es)"

lemma open_log:
  assumes "digest_ok sha" and "list_all event_ok es" and "replay sha es [] = Some ss" and "partial_record sha tail"
    and "length (log_bytes sha es @ tail) \<le> kMaximumJournalBytes"
  shows "journal_open sha True True (log_bytes sha es @ tail) =
    Inr \<lparr>j_open = True, j_recovered_tail = (tail \<noteq> []), j_event_count = length es, j_sessions = ss,
         j_file = log_bytes sha es\<rparr>"
proof -
  have "recover sha tail ss n off = Inr (ss, n, off, tail \<noteq> [])" for n off
    using assms(1,4) recover_partial hash_length
    by (fastforce simp: partial_record_def recover.simps [of sha "[]"])
  then show ?thesis
    using assms(5) recover_records [OF assms(1-3), of tail 0 0] by (simp add: journal_open_def)
qed

text \<open>
  What one append does: nothing, or close the journal, or write the record of an event that the
  recovery loop would load as well. The branch in which the event cannot be indexed after it was
  written is never taken.
\<close>

lemma journal_append_cases:
  assumes "journal_append sha now io e j = ((status, ack), j')" and "event_wf e"
  obtains (refused) "status \<noteq> Accepted" "j' = j \<or> j' = j\<lparr>j_open := False\<rparr>"
  | (written) h ss' where "j_open j" "event_ok e" "hash_answer_event sha e = Some h"
      "load_event (j_sessions j) e h = Inr ss'" "status = Accepted"
      "length (j_file j @ encode_journal_record e h) \<le> kMaximumJournalBytes"
      "j' = j\<lparr>j_sessions := ss', j_event_count := Suc (j_event_count j), j_file := j_file j @ encode_journal_record e h\<rparr>"
  | (failed) h ss' n where "j_open j" "event_ok e" "hash_answer_event sha e = Some h"
      "load_event (j_sessions j) e h = Inr ss'" "status = Unavailable"
      "length (j_file j @ encode_journal_record e h) \<le> kMaximumJournalBytes"
      "j' = j\<lparr>j_open := False, j_file := j_file j @ take n (encode_journal_record e h)\<rparr>"
proof -
  let ?s = "lookup_session (j_sessions j) e"
  show thesis
  proof (cases "j_open j \<and> validate_answer_event e \<and> hash_answer_event sha e \<noteq> None \<and>
      \<not> (map_of (j_sessions j) (event_key e) = None \<and> length (j_sessions j) \<ge> kMaximumJournalSessions) \<and>
      sd_candidate_id ?s = ev_candidate_id e \<and> map_of (sd_event_hashes ?s) (ev_sequence e) = None \<and>
      \<not> (ev_kind e = Upsert \<and> map_of (sd_answers ?s) (ev_question_id e) = None \<and>
         length (sd_answers ?s) \<ge> kMaximumStateEntries) \<and> \<not> sd_finalized ?s \<and>
      sd_highest_sequence ?s \<noteq> -1 \<and> ev_sequence e = sd_highest_sequence ?s + 1 \<and>
      ev_previous_hash e = sd_last_hash ?s")
    case False
    then have "status \<noteq> Accepted \<and> j' = j"
      using assms(1) by (auto simp: journal_append_def Let_def split: option.splits if_splits)
    then show ?thesis using refused by simp
  next
    case True
    then obtain h where h: "hash_answer_event sha e = Some h" by auto
    obtain s' where s': "apply_recovered ?s e h = Some s'"
      using True by (auto simp: apply_recovered_def Let_def)
    let ?ss = "omap_insert (event_key e) s' (j_sessions j)" and ?rec = "encode_journal_record e h"
    have load: "load_event (j_sessions j) e h = Inr ?ss"
      using True s' by (auto simp: load_event_def Let_def)
    have ok: "event_ok e" using True assms(2) by (simp add: event_ok_def)
    show ?thesis
    proof (cases "?rec = [] \<or> length ?rec > kMaximumJournalBytes \<or> length (j_file j) > kMaximumJournalBytes - length ?rec")
      case full: True
      then have "status \<noteq> Accepted \<and> j' = j\<lparr>j_open := False\<rparr>"
        using True h assms(1) by (auto simp: journal_append_def Let_def)
      then show ?thesis using refused by simp
    next
      case room: False
      then have fits: "length (j_file j @ ?rec) \<le> kMaximumJournalBytes" by auto
      show ?thesis
      proof (cases io)
        case Written
        then have "status = Accepted \<and> j' = j\<lparr>j_sessions := ?ss, j_event_count := Suc (j_event_count j), j_file := j_file j @ ?rec\<rparr>"
          using True h room s' assms(1) by (auto simp: journal_append_def Let_def append_file_def)
        then show ?thesis using written True ok h load fits by simp
      next
        case (Failed n)
        then have "status = Unavailable \<and> j' = j\<lparr>j_open := False, j_file := j_file j @ take n ?rec\<rparr>"
          using True h room s' assms(1) by (auto simp: journal_append_def Let_def append_file_def)
        then show ?thesis using failed True ok h load fits by simp
      qed
    qed
  qed
qed

lemma journal_log_refused:
  "journal_log sha j es \<Longrightarrow> j' = j \<or> j' = j\<lparr>j_open := False\<rparr> \<Longrightarrow> journal_log sha j' es"
  unfolding journal_log_def by (elim disjE) auto

lemma journal_created_log:
  assumes "journal_open sha True t [] = Inr j"
  shows "journal_log sha j []"
proof -
  have "j = \<lparr>j_open = True, j_recovered_tail = False, j_event_count = 0, j_sessions = [], j_file = []\<rparr>"
    using assms by (simp add: journal_open_def recover.simps [of sha "[]"])
  then show ?thesis by (simp add: journal_log_def partial_record_def)
qed

lemma journal_append_log:
  assumes log: "journal_log sha j es" and ap: "journal_append sha now io e j = ((status, ack), j')" and "event_wf e"
  shows "journal_log sha j' (es @ [e]) \<or> status \<noteq> Accepted \<and> journal_log sha j' es"
proof -
  obtain ss tail where inv: "j_file j = log_bytes sha es @ tail" "length (j_file j) \<le> kMaximumJournalBytes"
      "list_all event_ok es" "replay sha es [] = Some ss"
      "j_open j \<longrightarrow> tail = [] \<and> j_sessions j = ss \<and> j_event_count j = length es"
    using log unfolding journal_log_def by blast
  from ap assms(3) show ?thesis
  proof (cases rule: journal_append_cases)
    case refused
    then show ?thesis using journal_log_refused [OF log] by auto
  next
    case (written h ss')
    then have "journal_record sha e = encode_journal_record e h" by (simp add: journal_record_def)
    then show ?thesis
      unfolding journal_log_def using written inv
      by (intro disjI1 exI [of _ ss'] exI [of _ "[]"]) (auto simp: replay_append partial_record_def)
  next
    case (failed h ss' n)
    let ?rec = "encode_journal_record e h"
    have rec: "journal_record sha e = ?rec" using failed by (simp add: journal_record_def)
    show ?thesis
    proof (cases "n < length ?rec")
      case True
      then have "partial_record sha (take n ?rec)" using failed by (auto simp: partial_record_def)
      then have "journal_log sha j' es"
        unfolding journal_log_def using failed inv
        by (intro exI [of _ ss] exI [of _ "take n ?rec"]) auto
      then show ?thesis using failed by simp
    next
      case False
      then show ?thesis
        unfolding journal_log_def using failed inv rec
        by (intro disjI1 exI [of _ ss'] exI [of _ "[]"]) (auto simp: replay_append partial_record_def)
    qed
  qed
qed

lemma journal_reopen_log:
  assumes "digest_ok sha" and "journal_log sha j es" and "journal_open sha True True (j_file j) = Inr j'"
  shows "journal_log sha j' es"
proof -
  obtain ss tail where inv: "j_file j = log_bytes sha es @ tail" "length (j_file j) \<le> kMaximumJournalBytes"
      "list_all event_ok es" "replay sha es [] = Some ss" "partial_record sha tail"
    using assms(2) unfolding journal_log_def by blast
  have "j' = \<lparr>j_open = True, j_recovered_tail = (tail \<noteq> []), j_event_count = length es, j_sessions = ss,
         j_file = log_bytes sha es\<rparr>"
    using open_log [OF assms(1) inv(3,4,5)] inv(1,2) assms(3) by simp
  then show ?thesis unfolding journal_log_def using inv by (auto simp: partial_record_def)
qed

lemma journal_close_log: "journal_log sha j es \<Longrightarrow> journal_log sha (journal_close j) es"
  using journal_log_refused by (auto simp: journal_close_def)

lemma journal_run_inv:
  assumes "journal_run sha j acc" and "digest_ok sha"
  shows "journal_inv sha j acc"
  using assms(1)
proof induction
  case (created t j)
  then show ?case using journal_created_log by (auto simp: journal_inv_def)
next
  case (appended j acc e now io status ack j')
  obtain es where es: "journal_log sha j es" "subseq acc es" using appended.IH by (auto simp: journal_inv_def)
  have "subseq (acc @ [e]) (es @ [e])" "subseq acc (es @ [e])"
    using es(2) by (auto intro: subseq_append_iff [THEN iffD2] list_emb_append_mono)
  then show ?case
    using journal_append_log [OF es(1) appended.hyps(3,2)] es(2) by (auto simp: journal_inv_def)
next
  case (reopened j acc j')
  then show ?case using journal_reopen_log [OF assms(2)] by (auto simp: journal_inv_def)
next
  case (closed j acc)
  then show ?case using journal_close_log by (auto simp: journal_inv_def)
qed

text \<open>
  C3. No acknowledged answer is lost. Whatever events are offered, whichever writes fail or are cut
  short anywhere, and however often the process crashes or the journal is closed: reopening the
  file succeeds, and the reopened journal is the replay of a log of valid events that contains
  every accepted event in the order of acceptance; an incomplete last record is the only
  thing that is discarded.
\<close>

theorem journal_durable:
  assumes "digest_ok sha" and "journal_run sha j acc"
  shows "\<exists>es j'. journal_open sha True True (j_file j) = Inr j' \<and> subseq acc es \<and> list_all event_ok es \<and>
    replay sha es [] = Some (j_sessions j') \<and> j_event_count j' = length es \<and> j_file j' = log_bytes sha es \<and>
    (j_open j \<longrightarrow> j_file j = log_bytes sha es \<and> j_sessions j' = j_sessions j)"
proof -
  obtain es ss tail where inv: "j_file j = log_bytes sha es @ tail" "length (j_file j) \<le> kMaximumJournalBytes"
      "list_all event_ok es" "replay sha es [] = Some ss" "subseq acc es" "partial_record sha tail"
      "j_open j \<longrightarrow> tail = [] \<and> j_sessions j = ss"
    using journal_run_inv [OF assms(2,1)] unfolding journal_inv_def journal_log_def by blast
  have "journal_open sha True True (j_file j) =
    Inr \<lparr>j_open = True, j_recovered_tail = (tail \<noteq> []), j_event_count = length es, j_sessions = ss,
         j_file = log_bytes sha es\<rparr>"
    using open_log [OF assms(1) inv(3,4,6)] inv(1,2) by simp
  then show ?thesis using inv by (intro exI [of _ es]) auto
qed

section \<open>Exactly once\<close>

lemma replay_prefix: "replay sha (es @ es') [] = Some ss \<Longrightarrow> \<exists>ss1. replay sha es [] = Some ss1"
  by (auto simp: replay_append bind_eq_Some_conv)

lemma log_event_indexed:
  assumes "list_all event_ok es" and "replay sha es [] = Some ss" and "e \<in> set es"
  obtains s i where "map_of ss (event_key e) = Some s" "session_spec sha (events_of (event_key e) es) s"
    "i < length (events_of (event_key e) es)" "events_of (event_key e) es ! i = e" "unat (ev_sequence e) = Suc i"
proof -
  let ?fs = "events_of (event_key e) es"
  note spec = replay_spec [OF assms(1,2)]
  have e: "e \<in> set ?fs" using assms(3) by (simp add: events_of_def)
  then obtain s where s: "map_of ss (event_key e) = Some s"
    using sessions_spec_None [OF spec, of "event_key e"] by fastforce
  note ss = sessions_spec_Some [OF spec s]
  obtain i where "i < length ?fs" "?fs ! i = e" using e by (auto simp: in_set_conv_nth)
  then show thesis using that [OF s ss] ss by (auto simp: session_spec_def)
qed

lemma log_distinct:
  "list_all event_ok es \<Longrightarrow> replay sha es [] = Some ss \<Longrightarrow> distinct (map (\<lambda>e. (event_key e, ev_sequence e)) es)"
proof (induction es arbitrary: ss rule: rev_induct)
  case (snoc e es)
  let ?fs = "events_of (event_key e) es"
  obtain ss1 where "replay sha es [] = Some ss1" using snoc.prems(2) replay_prefix by blast
  then have IH: "distinct (map (\<lambda>e. (event_key e, ev_sequence e)) es)" using snoc by simp
  obtain s where "session_spec sha (?fs @ [e]) s"
    using log_event_indexed [OF snoc.prems, of e] by auto
  then have seqs: "unat (ev_sequence ((?fs @ [e]) ! i)) = Suc i" if "i \<le> length ?fs" for i
    using that by (auto simp: session_spec_def less_Suc_eq_le)
  have "ev_sequence e' \<noteq> ev_sequence e" if "e' \<in> set es" "event_key e' = event_key e" for e'
  proof -
    have "e' \<in> set ?fs" using that by (simp add: events_of_def)
    then obtain i where "i < length ?fs" "?fs ! i = e'" by (auto simp: in_set_conv_nth)
    then have "unat (ev_sequence e') = Suc i" "unat (ev_sequence e) = Suc (length ?fs)" "i < length ?fs"
      using seqs [of i] seqs [of "length ?fs"] by (auto simp: nth_append)
    then show ?thesis by auto
  qed
  then have "(event_key e, ev_sequence e) \<notin> (\<lambda>e. (event_key e, ev_sequence e)) ` set es" by force
  then show ?case using IH by simp
qed simp

lemma subseq_set: "subseq xs ys \<Longrightarrow> set xs \<subseteq> set ys"
  by (auto dest: list_emb_set)

lemma subseq_distinct: "subseq xs ys \<Longrightarrow> distinct ys \<Longrightarrow> distinct xs"
  by (induction rule: list_emb.induct) (auto dest: subseq_set)

text \<open>
  C4. Every answer event is taken exactly once, however often it is sent. No two accepted events
  carry the same sequence number of the same session; and when an event that was accepted in
  the past, before any number of crashes and reopenings, is sent again to the open journal, the
  reply is \<open>duplicate\<close> with the hash of the event and a contiguous boundary at or past it, and
  neither index nor file changes.
\<close>

theorem accepted_exactly_once:
  assumes "digest_ok sha" and "journal_run sha j acc"
  shows "distinct (map (\<lambda>e. (event_key e, ev_sequence e)) acc) \<and>
    (j_open j \<longrightarrow> (\<forall>e \<in> set acc. \<exists>ack. journal_append sha now io e j = ((Duplicate, ack), j) \<and>
       hash_answer_event sha e = Some (ack_event_hash ack) \<and> ack_sequence ack = ev_sequence e \<and>
       ack_status ack = AckDuplicate \<and> ev_sequence e \<le> ack_highest ack))"
proof -
  obtain es ss tail where inv: "list_all event_ok es" "replay sha es [] = Some ss" "subseq acc es"
      "j_open j \<longrightarrow> j_sessions j = ss"
    using journal_run_inv [OF assms(2,1)] unfolding journal_inv_def journal_log_def by blast
  have "distinct (map (\<lambda>e. (event_key e, ev_sequence e)) acc)"
    using log_distinct [OF inv(1,2)] inv(3) by (meson subseq_distinct subseq_map)
  moreover have "\<exists>ack. journal_append sha now io e j = ((Duplicate, ack), j) \<and>
       hash_answer_event sha e = Some (ack_event_hash ack) \<and> ack_sequence ack = ev_sequence e \<and>
       ack_status ack = AckDuplicate \<and> ev_sequence e \<le> ack_highest ack"
    if e: "e \<in> set acc" and op: "j_open j" for e
  proof -
    have es: "e \<in> set es" using e subseq_set [OF inv(3)] by auto
    then have valid: "validate_answer_event e" using inv(1) by (simp add: list_all_iff event_ok_def)
    obtain s i where s: "map_of ss (event_key e) = Some s" "session_spec sha (events_of (event_key e) es) s"
      "i < length (events_of (event_key e) es)" "events_of (event_key e) es ! i = e" "unat (ev_sequence e) = Suc i"
      using log_event_indexed [OF inv(1,2) es] by blast
    have look: "lookup_session (j_sessions j) e = s" using s(1) inv(4) op by (simp add: lookup_session_def)
    have hash: "map_of (sd_event_hashes s) (ev_sequence e) = hash_answer_event sha e"
      using s(2-5) by (simp add: session_spec_def)
    obtain h where h: "hash_answer_event sha e = Some h"
    proof -
      have "hash_answer_event sha e' \<noteq> None" if "e' \<in> set es" for e'
        using inv(2) that
      proof (induction es arbitrary: ss rule: rev_induct)
        case (snoc x xs)
        then show ?case by (auto simp: replay_append bind_eq_Some_conv split: option.splits)
      qed simp
      then show thesis using that es by fastforce
    qed
    have "e \<in> set (events_of (event_key e) es)" using s(3,4) nth_mem by fastforce
    then have cand: "sd_candidate_id s = ev_candidate_id e"
      using s(2) by (auto simp: session_spec_def list_all_iff)
    have "unat (ev_sequence e) \<le> unat (sd_highest_sequence s)" using s(2,3,5) by (simp add: session_spec_def)
    then have "ev_sequence e \<le> sd_highest_sequence s" by (simp add: word_le_nat_alt)
    then show ?thesis
      using op valid h hash cand look s(1) inv(4)
      by (simp add: journal_append_def Let_def make_ack_def)
  qed
  ultimately show ?thesis by blast
qed

section \<open>State queries\<close>

lemma current_answer_question: "current_answer sha fs q = Some a \<Longrightarrow> as_question_id a = q"
proof -
  let ?t = "filter (\<lambda>e. ev_kind e \<noteq> FinalizeSession \<and> ev_question_id e = q) fs"
  assume a: "current_answer sha fs q = Some a"
  then have "?t \<noteq> []" by (auto simp: current_answer_def Let_def split: if_splits)
  then have "last ?t \<in> set ?t" by (rule last_in_set)
  then show ?thesis using a by (auto simp: current_answer_def Let_def event_answer_def split: if_splits)
qed

lemma session_answers:
  assumes "session_spec sha fs s"
  shows "sorted_wrt (<) (map as_question_id (map snd (sd_answers s)))"
    and "set (map snd (sd_answers s)) = {a. \<exists>q. current_answer sha fs q = Some a}"
proof -
  have om: "omap (sd_answers s)" and look: "map_of (sd_answers s) q = current_answer sha fs q" for q
    using assms by (auto simp: session_spec_def)
  have entry: "(q, a) \<in> set (sd_answers s) \<longleftrightarrow> current_answer sha fs q = Some a" for q a
    using look [of q] omap_distinct [OF om] by (metis map_of_eq_Some_iff)
  then have "as_question_id a = q" if "(q, a) \<in> set (sd_answers s)" for q a
    using that current_answer_question by blast
  then have eq: "map as_question_id (map snd (sd_answers s)) = map fst (sd_answers s)" by auto
  show "sorted_wrt (<) (map as_question_id (map snd (sd_answers s)))" using om unfolding eq omap_def .
  show "set (map snd (sd_answers s)) = {a. \<exists>q. current_answer sha fs q = Some a}"
    using entry by force
qed

lemma request_key_event:
  assumes "request_ok r" and "event_ok e" and "event_key e = request_key r"
  shows "ev_package_id e = rq_package_id r \<and> ev_package_digest e = rq_package_digest r \<and>
    ev_client_id e = rq_client_id r \<and> ev_session_id e = rq_session_id r"
proof -
  have "valid_text (ev_package_id e) 128 False" using assms(2) event_fields(1) by (simp add: event_ok_def)
  then show ?thesis
    using session_key_inj [OF assms(3) [unfolded event_key_def request_key_def]] assms(1,2)
    by (simp add: event_ok_def event_wf_def request_ok_def request_wf_def)
qed

lemma journal_state_log:
  assumes "journal_log sha j es" and "j_open j" and "request_ok r"
  defines "fs \<equiv> events_of (request_key r) es"
  shows "if fs \<noteq> [] \<and> ev_candidate_id (hd fs) \<noteq> rq_candidate_id r then journal_state sha r j = None
     else \<exists>resp. journal_state sha r j = Some resp \<and>
       sr_package_id resp = rq_package_id r \<and> sr_package_digest resp = rq_package_digest r \<and>
       sr_client_id resp = rq_client_id r \<and> sr_session_id resp = rq_session_id r \<and>
       sr_candidate_id resp = rq_candidate_id r \<and> unat (sr_highest resp) = length fs \<and>
       sr_finalized resp = list_ex (\<lambda>e. ev_kind e = FinalizeSession) fs \<and>
       sorted_wrt (<) (map as_question_id (sr_answers resp)) \<and>
       set (sr_answers resp) = {a. \<exists>q. current_answer sha fs q = Some a}"
proof -
  obtain ss where inv: "list_all event_ok es" "replay sha es [] = Some ss" "j_sessions j = ss"
    using assms(1,2) unfolding journal_log_def by auto
  note spec = replay_spec [OF inv(1,2)]
  have req: "encode_state_request r \<noteq> []"
    using request_enc [OF assms(3)] by (auto simp: decode_state_request_def sync_limits)
  show ?thesis
  proof (cases "map_of ss (request_key r)")
    case None
    then show ?thesis
      using sessions_spec_None [OF spec None] assms(2) req inv(3) by (simp add: journal_state_def fs_def)
  next
    case (Some s)
    note s = sessions_spec_Some [OF spec Some, folded fs_def]
    then have ne: "fs \<noteq> []" by (simp add: session_spec_def)
    then have "hd fs \<in> set fs" by simp
    then have hd: "event_ok (hd fs)" "event_key (hd fs) = request_key r"
      using inv(1) by (auto simp: fs_def events_of_def list_all_iff)
    have "ev_candidate_id (hd fs) = sd_candidate_id s \<and> ev_package_id (hd fs) = sd_package_id s \<and>
        ev_package_digest (hd fs) = sd_package_digest s \<and> ev_client_id (hd fs) = sd_client_id s \<and>
        ev_session_id (hd fs) = sd_session_id s"
      using s \<open>hd fs \<in> set fs\<close> by (simp add: session_spec_def list_all_iff)
    then show ?thesis
      using Some s ne req assms(2) inv(3) request_key_event [OF assms(3) hd] session_answers [OF s]
      by (simp add: journal_state_def session_spec_def)
  qed
qed

text \<open>
  C12. A state query returns the student's answers as the log has them. In every reachable open
  journal the reply to a valid request is determined by the events of that package, client and
  session: it is refused when they belong to another candidate; otherwise it carries the
  requester's own identity, the number of events as the contiguous boundary, whether the
  session was finalized, and, in the order of the question ids, exactly the answers whose
  latest event is an upsert that no later event cleared.
\<close>

theorem state_is_latest:
  assumes "digest_ok sha" and "journal_run sha j acc" and "j_open j" and "request_ok r"
  shows "\<exists>es. j_file j = log_bytes sha es \<and> subseq acc es \<and>
    (let fs = events_of (request_key r) es in
     if fs \<noteq> [] \<and> ev_candidate_id (hd fs) \<noteq> rq_candidate_id r then journal_state sha r j = None
     else \<exists>resp. journal_state sha r j = Some resp \<and>
       sr_package_id resp = rq_package_id r \<and> sr_package_digest resp = rq_package_digest r \<and>
       sr_client_id resp = rq_client_id r \<and> sr_session_id resp = rq_session_id r \<and>
       sr_candidate_id resp = rq_candidate_id r \<and> unat (sr_highest resp) = length fs \<and>
       sr_finalized resp = list_ex (\<lambda>e. ev_kind e = FinalizeSession) fs \<and>
       sorted_wrt (<) (map as_question_id (sr_answers resp)) \<and>
       set (sr_answers resp) = {a. \<exists>q. current_answer sha fs q = Some a})"
proof -
  obtain es where log: "journal_log sha j es" "subseq acc es"
    using journal_run_inv [OF assms(2,1)] unfolding journal_inv_def by blast
  then have "j_file j = log_bytes sha es" using assms(3) by (auto simp: journal_log_def)
  then show ?thesis
    using log(2) journal_state_log [OF log(1) assms(3,4)] by (intro exI [of _ es]) (simp add: Let_def)
qed

section \<open>A concrete run\<close>

definition sample_sha :: "bytes \<Rightarrow> bytes option" where
  "sample_sha m = Some (replicate 32 9)"

definition sample_event :: answer_event where
  "sample_event = \<lparr>ev_package_id = [112], ev_package_digest = replicate 32 1, ev_client_id = replicate 16 2,
     ev_session_id = replicate 16 3, ev_candidate_id = [99], ev_question_id = [49], ev_question_revision = 1,
     ev_sequence = 1, ev_time = 1, ev_kind = Upsert, ev_answer = [65], ev_previous_hash = replicate 32 0\<rparr>"

definition sample_journal :: journal where
  "sample_journal = snd (journal_append sample_sha 5 Written sample_event
     \<lparr>j_open = True, j_recovered_tail = False, j_event_count = 0, j_sessions = [], j_file = []\<rparr>)"

lemma sample_sha_ok: "digest_ok sample_sha"
  by (simp add: digest_ok_def sample_sha_def)

lemma sample_event_ok: "event_ok sample_event" "event_wf sample_event"
  by (simp_all add: event_ok_def event_wf_def sample_event_def validate_answer_event_def valid_text_def
      valid_identity_def sync_limits)

lemma sample_append:
  "fst (fst (journal_append sample_sha 5 Written sample_event
     \<lparr>j_open = True, j_recovered_tail = False, j_event_count = 0, j_sessions = [], j_file = []\<rparr>)) = Accepted"
  "j_open sample_journal"
proof -
  let ?h = "replicate 32 9 :: bytes"
  have h: "hash_answer_event sample_sha sample_event = Some ?h"
    using event_wire_length(1) [OF sample_event_ok(1)] by (auto simp: hash_answer_event_def sample_sha_def Let_def)
  have rec: "encode_journal_record sample_event ?h \<noteq> []" "length (encode_journal_record sample_event ?h) \<le> 65556"
    using event_wire_length [OF sample_event_ok(1)] by (auto simp: encode_record_eq [OF sample_event_ok(1)])
  note defs = journal_append_def h Let_def lookup_session_def append_file_def apply_recovered_def
    journal_consts sync_limits
  have fields: "ev_sequence sample_event = 1" "ev_kind sample_event = Upsert"
      "ev_previous_hash sample_event = replicate 32 0"
    by (simp_all add: sample_event_def)
  have v: "validate_answer_event sample_event" using sample_event_ok by (simp add: event_ok_def)
  show "fst (fst (journal_append sample_sha 5 Written sample_event
     \<lparr>j_open = True, j_recovered_tail = False, j_event_count = 0, j_sessions = [], j_file = []\<rparr>)) = Accepted"
    "j_open sample_journal"
    using rec v fields by (simp_all add: sample_journal_def defs fresh_session_def)
qed

lemma journal_sample_run: "journal_run sample_sha sample_journal [sample_event]"
proof -
  let ?j = "\<lparr>j_open = True, j_recovered_tail = False, j_event_count = 0, j_sessions = [], j_file = []\<rparr>"
  have "journal_open sample_sha True True [] = Inr ?j"
    by (simp add: journal_open_def recover.simps [of sample_sha "[]"])
  then have "journal_run sample_sha ?j []" by (rule created)
  from append_step [OF this sample_event_ok(2), of 5 Written]
  show ?thesis using sample_append(1) by (simp add: sample_journal_def)
qed

theorem journal_durable_witness:
  "\<exists>es j'. journal_open sample_sha True True (j_file sample_journal) = Inr j' \<and> subseq [sample_event] es \<and>
     replay sample_sha es [] = Some (j_sessions j') \<and> j_sessions j' = j_sessions sample_journal"
  using journal_durable [OF sample_sha_ok journal_sample_run] sample_append(2) by blast

theorem accepted_exactly_once_witness:
  "\<exists>ack. journal_append sample_sha 6 (Failed 3) sample_event sample_journal = ((Duplicate, ack), sample_journal)"
  using accepted_exactly_once [OF sample_sha_ok journal_sample_run, of 6 "Failed 3"] sample_append(2) by auto

definition sample_request :: state_request where
  "sample_request = \<lparr>rq_package_id = [112], rq_package_digest = replicate 32 1, rq_client_id = replicate 16 2,
     rq_session_id = replicate 16 3, rq_candidate_id = [99]\<rparr>"

theorem state_is_latest_witness:
  "\<exists>es. j_file sample_journal = log_bytes sample_sha es \<and> subseq [sample_event] es"
proof -
  have "request_ok sample_request"
    by (simp add: request_ok_def request_wf_def sample_request_def valid_text_def valid_identity_def)
  then show ?thesis using state_is_latest [OF sample_sha_ok journal_sample_run sample_append(2)] by blast
qed

end
