(* ===== verification/TextScan.thy ===== *)
theory TextScan
  imports Prelude
begin

text \<open>
  Byte-level text operations of the C++ library that several readers use: classification of
  characters in the C locale, trimming, and \<open>string_view::find\<close> from a position on, where \<open>None\<close>
  is \<open>npos\<close>.
\<close>

definition is_space :: "byte \<Rightarrow> bool" where
  "is_space b \<longleftrightarrow> b = 32 \<or> 9 \<le> b \<and> b \<le> 13"

definition is_digit :: "byte \<Rightarrow> bool" where
  "is_digit b \<longleftrightarrow> 48 \<le> b \<and> b \<le> 57"

definition trim_space :: "bytes \<Rightarrow> bytes" where
  "trim_space s = rev (dropWhile is_space (rev (dropWhile is_space s)))"

definition decimal :: "bytes \<Rightarrow> int" where
  "decimal s = foldl (\<lambda>acc b. 10 * acc + uint (b - 48)) 0 s"

fun find_sub :: "bytes \<Rightarrow> bytes \<Rightarrow> nat option" where
  "find_sub n [] = (if n = [] then Some 0 else None)"
| "find_sub n (x # xs) = (if take (length n) (x # xs) = n then Some 0 else map_option Suc (find_sub n xs))"

definition find_from :: "bytes \<Rightarrow> nat \<Rightarrow> bytes \<Rightarrow> nat option" where
  "find_from n pos s = (if pos > length s then None else map_option ((+) pos) (find_sub n (drop pos s)))"

lemma find_from_ge: "find_from n pos s = Some i \<Longrightarrow> pos \<le> i"
  by (auto simp: find_from_def split: if_splits)

definition substr :: "bytes \<Rightarrow> nat \<Rightarrow> nat \<Rightarrow> bytes" where
  "substr s pos len = take len (drop pos s)"

end
