(* ===== verification/ExamGrader.thy ===== *)
theory ExamGrader
  imports AnswerJournal UrlValidation TextScan
begin

text \<open>
  Grading, \<^verbatim>\<open>server/src/exam_grader.cpp\<close>: the reader of the answer key, automatic grading of a
  candidate's answers, grading from the journal and manual review. Strings are byte lists.
  Double-precision numbers are an abstract type \<open>'d\<close>; what the code does with them (\<open>strtod\<close>, the
  tolerance test, the percentage) is the record \<open>doubles\<close>, a parameter of the definitions.

  Shown: the totals, the number of pending reviews and the flag \<open>fully_graded\<close> always agree with
  the graded items, whatever is reviewed and corrected; no item gets more than its points; an
  essay gets points only through a manual review; grading from the journal grades the latest
  answers.
\<close>

section \<open>Reading JSON\<close>

definition json_quote :: bytes where "json_quote = [34]"

definition json_value_start :: "bytes \<Rightarrow> string \<Rightarrow> nat option" where
  "json_value_start json key =
     (let search = json_quote @ ascii key @ json_quote in
      case find_from search 0 json of
        None \<Rightarrow> None
      | Some pos \<Rightarrow> find_from [58] (pos + length search) json)"

definition extract_json_string :: "bytes \<Rightarrow> string \<Rightarrow> bytes" where
  "extract_json_string json key =
     (case json_value_start json key of
        None \<Rightarrow> []
      | Some colon \<Rightarrow>
          (case find_from json_quote (colon + 1) json of
             None \<Rightarrow> []
           | Some quote1 \<Rightarrow>
               (case find_from json_quote (quote1 + 1) json of
                  None \<Rightarrow> []
                | Some quote2 \<Rightarrow> substr json (quote1 + 1) (quote2 - quote1 - 1))))"

text \<open>
  \<open>strtoll\<close> in base 10 on a text that does not start with a blank or \<open>+\<close>: an optional minus, then
  digits; clamped to 64 bits.
\<close>

definition strtoll :: "bytes \<Rightarrow> int" where
  "strtoll s =
     (let (neg, s) = (if s \<noteq> [] \<and> hd s = 45 then (True, tl s) else (False, s));
          n = decimal (takeWhile is_digit s);
          v = (if neg then - n else n)
      in max (- (2 ^ 63)) (min (2 ^ 63 - 1) v))"

definition extract_json_int :: "bytes \<Rightarrow> string \<Rightarrow> int \<Rightarrow> int" where
  "extract_json_int json key default_val =
     (case json_value_start json key of
        None \<Rightarrow> default_val
      | Some colon \<Rightarrow>
          let rest = dropWhile (\<lambda>b. is_space b \<or> b = 34) (drop (colon + 1) json) in
          if takeWhile (\<lambda>b. is_digit b \<or> b = 45) rest = [] then default_val else strtoll rest)"

record 'd doubles =
  dbl_strtod :: "bytes \<Rightarrow> 'd \<times> nat"
  dbl_within :: "'d \<Rightarrow> 'd \<Rightarrow> 'd \<Rightarrow> bool"
  dbl_percentage :: "u32 \<Rightarrow> u32 \<Rightarrow> 'd"
  dbl_zero :: 'd
  dbl_epsilon :: 'd

definition extract_json_double :: "'d doubles \<Rightarrow> bytes \<Rightarrow> string \<Rightarrow> 'd \<Rightarrow> 'd" where
  "extract_json_double D json key default_val =
     (case json_value_start json key of
        None \<Rightarrow> default_val
      | Some colon \<Rightarrow>
          let rest = dropWhile (\<lambda>b. is_space b \<or> b = 34) (drop (colon + 1) json) in
          if takeWhile (\<lambda>b. is_digit b \<or> b \<in> {46, 45, 101, 69, 43}) rest = [] then default_val
          else fst (dbl_strtod D rest))"

text \<open>Whichever of the two literals comes first after the colon; \<open>npos\<close> is larger than any position.\<close>

definition extract_json_bool :: "bytes \<Rightarrow> string \<Rightarrow> bool \<Rightarrow> bool" where
  "extract_json_bool json key default_val =
     (case json_value_start json key of
        None \<Rightarrow> default_val
      | Some colon \<Rightarrow>
          let rest = drop (colon + 1) json in
          case (find_from (ascii ''true'') 0 rest, find_from (ascii ''false'') 0 rest) of
            (None, None) \<Rightarrow> default_val
          | (Some t, None) \<Rightarrow> True
          | (None, Some f) \<Rightarrow> False
          | (Some t, Some f) \<Rightarrow> t < f)"

text \<open>The strings of an array: the contents of successive pairs of quotes.\<close>

function string_array_loop :: "bytes \<Rightarrow> nat \<Rightarrow> bytes list" where
  "string_array_loop s offset =
     (if offset \<ge> length s then []
      else case find_from json_quote offset s of
             None \<Rightarrow> []
           | Some q1 \<Rightarrow>
               (case find_from json_quote (q1 + 1) s of
                  None \<Rightarrow> []
                | Some q2 \<Rightarrow> substr s (q1 + 1) (q2 - q1 - 1) # string_array_loop s (q2 + 1)))"
  by pat_completeness auto

termination
  by (relation "measure (\<lambda>(s, offset). length s - offset)") (auto dest!: find_from_ge)

declare string_array_loop.simps [simp del]

definition extract_json_string_array :: "bytes \<Rightarrow> string \<Rightarrow> bytes list" where
  "extract_json_string_array json key =
     (let search = json_quote @ ascii key @ json_quote in
      case find_from search 0 json of
        None \<Rightarrow> []
      | Some pos \<Rightarrow>
          (case find_from [91] (pos + length search) json of
             None \<Rightarrow> []
           | Some bracket1 \<Rightarrow>
               (case find_from [93] bracket1 json of
                  None \<Rightarrow> []
                | Some bracket2 \<Rightarrow> string_array_loop (substr json (bracket1 + 1) (bracket2 - bracket1 - 1)) 0)))"

section \<open>The answer key\<close>

record 'd answer_key_item =
  ki_question_id :: bytes
  ki_question_type :: bytes
  ki_points :: u32
  ki_accepted_answers :: "bytes list"
  ki_case_sensitive :: bool
  ki_trim_whitespace :: bool
  ki_numeric_tolerance :: bool
  ki_numeric_value :: 'd
  ki_numeric_epsilon :: 'd
  ki_requires_manual_review :: bool

record 'd answer_key =
  ak_package_id :: bytes
  ak_package_digest :: bytes
  ak_items :: "'d answer_key_item list"

datatype answer_key_error = Missing_items | Invalid_items | Unbalanced_braces

text \<open>The search for the brace that closes an object: the position after it and the depth reached.\<close>

fun object_end :: "bytes \<Rightarrow> nat \<Rightarrow> nat \<Rightarrow> nat \<times> nat" where
  "object_end rest pos 0 = (pos, 0)"
| "object_end [] pos depth = (pos, depth)"
| "object_end (b # rest) pos (Suc depth) =
     object_end rest (pos + 1) (if b = 123 then Suc (Suc depth) else if b = 125 then depth else Suc depth)"

lemma object_end_ge: "object_end rest pos depth = (e, d) \<Longrightarrow> pos \<le> e"
  by (induction rest pos depth rule: object_end.induct) (auto split: if_splits dest: Suc_leD)

definition read_key_item :: "'d doubles \<Rightarrow> bytes \<Rightarrow> 'd answer_key_item" where
  "read_key_item D j =
     (let qid = extract_json_string j ''id'';
          qid = (if qid = [] then extract_json_string j ''question_id'' else qid);
          type = extract_json_string j ''type'';
          qtype = (if type \<noteq> [] then type else ascii ''multiple_choice'');
          accepted = extract_json_string_array j ''accepted'';
          accepted = (if accepted = [] then extract_json_string_array j ''accepted_answers'' else accepted);
          single = extract_json_string j ''accepted_answer'';
          accepted = (if accepted = [] \<and> single \<noteq> [] then [single] else accepted);
          numeric = (find_from (json_quote @ ascii ''numeric'' @ json_quote) 0 j \<noteq> None)
      in \<lparr>ki_question_id = qid, ki_question_type = qtype,
          ki_points = word_of_int (extract_json_int j ''points'' 1),
          ki_accepted_answers = accepted,
          ki_case_sensitive = extract_json_bool j ''case_sensitive'' False,
          ki_trim_whitespace = extract_json_bool j ''trim_whitespace'' True,
          ki_numeric_tolerance = numeric,
          ki_numeric_value = (if numeric then extract_json_double D j ''numeric'' (dbl_zero D) else dbl_zero D),
          ki_numeric_epsilon = (if numeric then extract_json_double D j ''epsilon'' (dbl_epsilon D) else dbl_epsilon D),
          ki_requires_manual_review = (qtype = ascii ''essay'' \<or> extract_json_bool j ''manual_review'' False)\<rparr>)"

function items_loop :: "'d doubles \<Rightarrow> bytes \<Rightarrow> nat \<Rightarrow> 'd answer_key_item list \<Rightarrow> answer_key_error + 'd answer_key_item list" where
  "items_loop D json cur items =
     (if cur \<ge> length json then Inr items
      else case find_from [123] cur json of
        None \<Rightarrow> Inr items
      | Some obj_start \<Rightarrow>
          if (case find_from [93] cur json of None \<Rightarrow> False | Some close \<Rightarrow> close < obj_start) then Inr items
          else
            let (obj_end, depth) = object_end (drop (obj_start + 1) json) (obj_start + 1) 1 in
            if depth \<noteq> 0 then Inl Unbalanced_braces
            else
              let item = read_key_item D (substr json obj_start (obj_end - obj_start));
                  items = (if ki_question_id item \<noteq> [] then items @ [item] else items)
              in items_loop D json obj_end items)"
  by pat_completeness auto

termination
  by (relation "measure (\<lambda>(D, json, cur, items). length json - cur)")
     (auto dest!: find_from_ge dest: object_end_ge [OF sym])

declare items_loop.simps [simp del]

definition parse_answer_key_json :: "'d doubles \<Rightarrow> bytes \<Rightarrow> answer_key_error + 'd answer_key" where
  "parse_answer_key_json D json =
     (case find_from (json_quote @ ascii ''items'' @ json_quote) 0 json of
        None \<Rightarrow> Inl Missing_items
      | Some items_pos \<Rightarrow>
          (case find_from [91] items_pos json of
             None \<Rightarrow> Inl Invalid_items
           | Some start_bracket \<Rightarrow>
               (case items_loop D json (start_bracket + 1) [] of
                  Inl err \<Rightarrow> Inl err
                | Inr items \<Rightarrow> Inr \<lparr>ak_package_id = extract_json_string json ''package_id'',
                                 ak_package_digest = replicate 32 0, ak_items = items\<rparr>)))"

section \<open>Grades\<close>

record item_grade_result =
  ir_question_id :: bytes
  ir_question_type :: bytes
  ir_max_points :: u32
  ir_awarded_points :: u32
  ir_answered :: bool
  ir_correct :: bool
  ir_requires_manual_review :: bool
  ir_manual_review_completed :: bool
  ir_student_answer_text :: bytes
  ir_feedback_notes :: bytes

record 'd candidate_exam_grade =
  cg_package_id :: bytes
  cg_package_digest :: bytes
  cg_candidate_id :: bytes
  cg_session_id :: bytes
  cg_total_points :: u32
  cg_max_points :: u32
  cg_score_percentage :: 'd
  cg_fully_graded :: bool
  cg_pending_manual_reviews :: nat
  cg_item_results :: "item_grade_result list"

definition answer_accepted :: "'d answer_key_item \<Rightarrow> bytes \<Rightarrow> bytes \<Rightarrow> bool" where
  "answer_accepted item student_ans acc =
     (let target = (if ki_trim_whitespace item then trim_space acc else acc) in
      if ki_case_sensitive item then student_ans = target
      else map to_lower student_ans = map to_lower target)"

text \<open>\<open>c_str()\<close> ends at the first zero byte.\<close>

definition is_correct :: "'d doubles \<Rightarrow> 'd answer_key_item \<Rightarrow> bytes \<Rightarrow> bool" where
  "is_correct D item text =
     (let student_ans = (if ki_trim_whitespace item then trim_space text else text) in
      if ki_numeric_tolerance item
      then let (val, consumed) = dbl_strtod D (takeWhile (\<lambda>b. b \<noteq> 0) student_ans)
           in consumed \<noteq> 0 \<and> dbl_within D val (ki_numeric_value item) (ki_numeric_epsilon item)
      else list_ex (answer_accepted item student_ans) (ki_accepted_answers item))"

definition find_answer :: "'d answer_key_item \<Rightarrow> answer_state list \<Rightarrow> answer_state option" where
  "find_answer item answers = find (\<lambda>a. as_question_id a = ki_question_id item \<and> as_kind a = Upsert) answers"

definition grade_item :: "'d doubles \<Rightarrow> 'd answer_key_item \<Rightarrow> answer_state list \<Rightarrow> item_grade_result" where
  "grade_item D item answers =
     (let review = ki_requires_manual_review item;
          res = \<lparr>ir_question_id = ki_question_id item, ir_question_type = ki_question_type item,
                 ir_max_points = ki_points item, ir_awarded_points = 0, ir_answered = False, ir_correct = False,
                 ir_requires_manual_review = review, ir_manual_review_completed = False,
                 ir_student_answer_text = [], ir_feedback_notes = []\<rparr> in
      case find_answer item answers of
        Some a \<Rightarrow>
          if as_answer a = []
          then if review then res\<lparr>ir_manual_review_completed := True,
                                   ir_feedback_notes := ascii ''Not answered by candidate''\<rparr> else res
          else
            let res = res\<lparr>ir_answered := True, ir_student_answer_text := as_answer a\<rparr> in
            if review then res
            else let correct = is_correct D item (as_answer a)
                 in res\<lparr>ir_correct := correct, ir_awarded_points := (if correct then ki_points item else 0)\<rparr>
      | None \<Rightarrow>
          if review then res\<lparr>ir_manual_review_completed := True,
                              ir_feedback_notes := ascii ''Not answered by candidate''\<rparr> else res)"

text \<open>The loop over the key: one step adds the item and its share of the totals.\<close>

definition grade_step ::
  "'d doubles \<Rightarrow> answer_state list \<Rightarrow> 'd answer_key_item \<Rightarrow> 'd candidate_exam_grade \<Rightarrow> 'd candidate_exam_grade" where
  "grade_step D answers item g =
     (let res = grade_item D item answers in
      g\<lparr>cg_max_points := cg_max_points g + ki_points item,
        cg_total_points := cg_total_points g + ir_awarded_points res,
        cg_pending_manual_reviews := (if ir_answered res \<and> ki_requires_manual_review item
                                      then Suc (cg_pending_manual_reviews g) else cg_pending_manual_reviews g),
        cg_item_results := cg_item_results g @ [res]\<rparr>)"

definition finish_grade :: "'d doubles \<Rightarrow> 'd candidate_exam_grade \<Rightarrow> 'd candidate_exam_grade" where
  "finish_grade D g =
     g\<lparr>cg_fully_graded := (cg_pending_manual_reviews g = 0),
       cg_score_percentage := (if cg_max_points g > 0 then dbl_percentage D (cg_total_points g) (cg_max_points g)
                               else dbl_zero D)\<rparr>"

definition grade_student_answers ::
  "'d doubles \<Rightarrow> 'd answer_key \<Rightarrow> answer_state list \<Rightarrow> bytes \<Rightarrow> bytes \<Rightarrow> 'd candidate_exam_grade" where
  "grade_student_answers D key answers candidate_id session_id =
     finish_grade D (fold (grade_step D answers) (ak_items key)
       \<lparr>cg_package_id = ak_package_id key, cg_package_digest = ak_package_digest key, cg_candidate_id = candidate_id,
        cg_session_id = session_id, cg_total_points = 0, cg_max_points = 0, cg_score_percentage = dbl_zero D,
        cg_fully_graded = False, cg_pending_manual_reviews = 0, cg_item_results = []\<rparr>)"

definition grade_from_journal ::
  "'d doubles \<Rightarrow> (bytes \<Rightarrow> bytes option) \<Rightarrow> 'd answer_key \<Rightarrow> journal \<Rightarrow> state_request \<Rightarrow> 'd candidate_exam_grade option" where
  "grade_from_journal D sha key j r =
     (case journal_state sha r j of
        None \<Rightarrow> None
      | Some response \<Rightarrow> Some (grade_student_answers D key (sr_answers response) (rq_candidate_id r) (rq_session_id r)))"

datatype review_error = Question_not_found | Too_many_points

fun update_first :: "('a \<Rightarrow> bool) \<Rightarrow> ('a \<Rightarrow> 'a) \<Rightarrow> 'a list \<Rightarrow> 'a list" where
  "update_first P f [] = []"
| "update_first P f (x # xs) = (if P x then f x # xs else x # update_first P f xs)"

definition apply_manual_review ::
  "'d doubles \<Rightarrow> bytes \<Rightarrow> u32 \<Rightarrow> bytes \<Rightarrow> 'd candidate_exam_grade \<Rightarrow> review_error + 'd candidate_exam_grade" where
  "apply_manual_review D question_id awarded notes g =
     (case find (\<lambda>i. ir_question_id i = question_id) (cg_item_results g) of
        None \<Rightarrow> Inl Question_not_found
      | Some it \<Rightarrow>
          if awarded > ir_max_points it then Inl Too_many_points
          else
            let was_pending = ir_requires_manual_review it \<and> \<not> ir_manual_review_completed it;
                update = (\<lambda>i. i\<lparr>ir_awarded_points := awarded, ir_correct := (awarded = ir_max_points i),
                  ir_manual_review_completed := True,
                  ir_feedback_notes := (if notes \<noteq> [] then notes else ir_feedback_notes i)\<rparr>)
            in Inr (finish_grade D (g\<lparr>
                 cg_item_results := update_first (\<lambda>i. ir_question_id i = question_id) update (cg_item_results g),
                 cg_total_points := (cg_total_points g - ir_awarded_points it) + awarded,
                 cg_pending_manual_reviews := (if was_pending \<and> cg_pending_manual_reviews g > 0
                   then cg_pending_manual_reviews g - 1 else cg_pending_manual_reviews g)\<rparr>)))"

section \<open>The totals agree with the items\<close>

definition pending_item :: "item_grade_result \<Rightarrow> bool" where
  "pending_item i \<longleftrightarrow> ir_requires_manual_review i \<and> \<not> ir_manual_review_completed i"

text \<open>\<open>finished\<close> is false inside the grading loop, where the flag is not computed yet.\<close>

definition totals_ok :: "'d candidate_exam_grade \<Rightarrow> bool" where
  "totals_ok g \<longleftrightarrow>
     cg_total_points g = sum_list (map ir_awarded_points (cg_item_results g)) \<and>
     cg_max_points g = sum_list (map ir_max_points (cg_item_results g)) \<and>
     cg_pending_manual_reviews g = length (filter pending_item (cg_item_results g)) \<and>
     (\<forall>i \<in> set (cg_item_results g). ir_awarded_points i \<le> ir_max_points i)"

definition grade_ok :: "'d candidate_exam_grade \<Rightarrow> bool" where
  "grade_ok g \<longleftrightarrow> totals_ok g \<and> (cg_fully_graded g \<longleftrightarrow> (\<forall>i \<in> set (cg_item_results g). \<not> pending_item i))"

lemma finish_grade_ok: "totals_ok g \<Longrightarrow> grade_ok (finish_grade D g)"
  by (auto simp: grade_ok_def totals_ok_def finish_grade_def filter_empty_conv)

lemma grade_item_ok:
  "ir_awarded_points (grade_item D item answers) \<le> ki_points item"
  "ir_max_points (grade_item D item answers) = ki_points item"
  "pending_item (grade_item D item answers) \<longleftrightarrow> ir_answered (grade_item D item answers) \<and> ki_requires_manual_review item"
  by (auto simp: grade_item_def pending_item_def Let_def split: option.split)

lemma grade_step_ok: "totals_ok g \<Longrightarrow> totals_ok (grade_step D answers item g)"
  by (auto simp: totals_ok_def grade_step_def grade_item_ok Let_def)

lemma fold_grade_ok: "totals_ok g \<Longrightarrow> totals_ok (fold (grade_step D answers) items g)"
  by (induction items arbitrary: g) (simp_all add: grade_step_ok)

lemma find_split:
  assumes "find P xs = Some x"
  obtains ys zs where "xs = ys @ x # zs" "P x" "\<And>f. update_first P f xs = ys @ f x # zs"
  using assms
proof (induction xs arbitrary: thesis)
  case (Cons a xs)
  show ?case
  proof (cases "P a")
    case True
    then show ?thesis using Cons.prems(1) [of "[]" xs] Cons.prems(2) by simp
  next
    case False
    then obtain ys zs where "xs = ys @ x # zs" "P x" "\<And>f. update_first P f xs = ys @ f x # zs"
      using Cons.IH Cons.prems(2) by auto
    then show ?thesis using Cons.prems(1) [of "a # ys" zs] False by simp
  qed
qed simp

lemma apply_manual_review_ok:
  assumes "totals_ok g" and "apply_manual_review D q awarded notes g = Inr g'"
  shows "grade_ok g'"
proof -
  obtain it where it: "find (\<lambda>i. ir_question_id i = q) (cg_item_results g) = Some it" "awarded \<le> ir_max_points it"
    using assms(2) by (auto simp: apply_manual_review_def not_less split: option.splits if_splits)
  obtain ys zs where split: "cg_item_results g = ys @ it # zs"
      "\<And>f. update_first (\<lambda>i. ir_question_id i = q) f (cg_item_results g) = ys @ f it # zs"
    using find_split [OF it(1)] by metis
  let ?it = "it\<lparr>ir_awarded_points := awarded, ir_correct := (awarded = ir_max_points it),
      ir_manual_review_completed := True, ir_feedback_notes := (if notes \<noteq> [] then notes else ir_feedback_notes it)\<rparr>"
  define g1 where "g1 = g\<lparr>cg_item_results := ys @ ?it # zs,
      cg_total_points := (cg_total_points g - ir_awarded_points it) + awarded,
      cg_pending_manual_reviews := (if pending_item it \<and> cg_pending_manual_reviews g > 0
        then cg_pending_manual_reviews g - 1 else cg_pending_manual_reviews g)\<rparr>"
  have g': "g' = finish_grade D g1"
    using assms(2) it(1) leD [OF it(2)] by (simp add: apply_manual_review_def Let_def split(2) g1_def pending_item_def)
  have "cg_total_points g1 = sum_list (map ir_awarded_points (cg_item_results g1))"
    using assms(1) split(1) by (simp add: totals_ok_def g1_def)
  moreover have "cg_max_points g1 = sum_list (map ir_max_points (cg_item_results g1))"
    using assms(1) split(1) by (simp add: totals_ok_def g1_def)
  moreover have "cg_pending_manual_reviews g1 = length (filter pending_item (cg_item_results g1))"
    using assms(1) split(1) by (simp add: totals_ok_def g1_def) (simp add: pending_item_def)
  moreover have "\<forall>i \<in> set (cg_item_results g1). ir_awarded_points i \<le> ir_max_points i"
    using assms(1) split(1) it(2) by (simp add: totals_ok_def g1_def)
  ultimately show ?thesis unfolding g' by (intro finish_grade_ok) (simp add: totals_ok_def)
qed

text \<open>A review that is refused leaves the grade alone.\<close>

definition review_step :: "'d doubles \<Rightarrow> bytes \<times> u32 \<times> bytes \<Rightarrow> 'd candidate_exam_grade \<Rightarrow> 'd candidate_exam_grade" where
  "review_step D r g = (case r of (q, awarded, notes) \<Rightarrow>
     (case apply_manual_review D q awarded notes g of Inl _ \<Rightarrow> g | Inr g' \<Rightarrow> g'))"

lemma review_step_ok: "grade_ok g \<Longrightarrow> grade_ok (review_step D r g)"
  using apply_manual_review_ok [of g] by (auto simp: review_step_def grade_ok_def split: sum.split prod.split)

interpretation review_machine: machine "review_step D" grade_ok for D
  by unfold_locales (rule review_step_ok)

text \<open>The columns of the result that come from the key are never changed.\<close>

definition columns :: "item_grade_result list \<Rightarrow> (bytes \<times> bytes \<times> u32 \<times> bool) list" where
  "columns = map (\<lambda>i. (ir_question_id i, ir_question_type i, ir_max_points i, ir_requires_manual_review i))"

lemma update_first_map: "(\<And>x. f (u x) = f x) \<Longrightarrow> map f (update_first P u xs) = map f xs"
  by (induction xs) auto

lemma review_step_columns: "columns (cg_item_results (review_step D r g)) = columns (cg_item_results g)"
  by (auto simp: review_step_def apply_manual_review_def Let_def finish_grade_def columns_def
      intro!: update_first_map split: prod.split option.split)

lemma reviews_columns: "columns (cg_item_results (fold (review_step D) rs g)) = columns (cg_item_results g)"
  by (induction rs arbitrary: g) (simp_all add: review_step_columns)

lemma fold_grade_results:
  "cg_item_results (fold (grade_step D answers) items g) = cg_item_results g @ map (\<lambda>i. grade_item D i answers) items"
  by (induction items arbitrary: g) (simp_all add: grade_step_def Let_def)

lemma graded_results:
  "cg_item_results (grade_student_answers D key answers c s) = map (\<lambda>i. grade_item D i answers) (ak_items key)"
  by (simp add: grade_student_answers_def finish_grade_def fold_grade_results)

lemma graded_ok: "grade_ok (grade_student_answers D key answers c s)"
  unfolding grade_student_answers_def by (intro finish_grade_ok fold_grade_ok) (simp add: totals_ok_def)

lemma grade_item_columns:
  "columns (map (\<lambda>i. grade_item D i answers) items) =
     map (\<lambda>i. (ki_question_id i, ki_question_type i, ki_points i, ki_requires_manual_review i)) items"
  by (auto simp: columns_def grade_item_def Let_def split: option.split)

lemma unat_sum_le:
  fixes xs :: "'a list" and f g :: "'a \<Rightarrow> 'b::len word"
  assumes "(\<Sum>x\<leftarrow>xs. unat (g x)) < 2 ^ LENGTH('b)" and "\<forall>x \<in> set xs. f x \<le> g x"
  shows "unat (\<Sum>x\<leftarrow>xs. f x) = (\<Sum>x\<leftarrow>xs. unat (f x)) \<and> (\<Sum>x\<leftarrow>xs. unat (f x)) \<le> (\<Sum>x\<leftarrow>xs. unat (g x))"
  using assms
proof (induction xs)
  case (Cons a xs)
  then have IH: "unat (\<Sum>x\<leftarrow>xs. f x) = (\<Sum>x\<leftarrow>xs. unat (f x))" "(\<Sum>x\<leftarrow>xs. unat (f x)) \<le> (\<Sum>x\<leftarrow>xs. unat (g x))" by auto
  have "unat (f a) \<le> unat (g a)" using Cons.prems(2) by (simp add: word_le_nat_alt)
  then have "unat (f a) + unat (\<Sum>x\<leftarrow>xs. f x) < 2 ^ LENGTH('b)" using IH Cons.prems(1) by simp
  then have "unat (f a + (\<Sum>x\<leftarrow>xs. f x)) = unat (f a) + unat (\<Sum>x\<leftarrow>xs. f x)" by (simp add: unat_word_ariths)
  then show ?case using IH \<open>unat (f a) \<le> unat (g a)\<close> by simp
qed simp

definition reviewed_grade ::
  "'d doubles \<Rightarrow> (bytes \<times> u32 \<times> bytes) list \<Rightarrow> 'd answer_key \<Rightarrow> answer_state list \<Rightarrow> bytes \<Rightarrow> bytes \<Rightarrow> 'd candidate_exam_grade" where
  "reviewed_grade D reviews key answers c s = fold (review_step D) reviews (grade_student_answers D key answers c s)"

text \<open>
  The totals of a grade are those of its items, through any number of reviews and corrections,
  accepted or refused: the points are the sum of the awarded points, the maximum is the sum of
  the key's points, no item has more than its maximum, and the grade counts as complete exactly
  when no answered item still waits for its review. When the points of the key add up to less
  than 2^32, the sum does not wrap around and the total is at most the maximum.
\<close>

theorem grade_totals:
  "let g = reviewed_grade D reviews key answers c s in
     cg_total_points g = (\<Sum>i\<leftarrow>cg_item_results g. ir_awarded_points i) \<and>
     cg_max_points g = (\<Sum>i\<leftarrow>ak_items key. ki_points i) \<and>
     list_all (\<lambda>i. ir_awarded_points i \<le> ir_max_points i) (cg_item_results g) \<and>
     cg_fully_graded g = (\<not> list_ex pending_item (cg_item_results g)) \<and>
     ((\<Sum>i\<leftarrow>ak_items key. unat (ki_points i)) < 2 ^ 32 \<longrightarrow>
        unat (cg_total_points g) = (\<Sum>i\<leftarrow>cg_item_results g. unat (ir_awarded_points i)) \<and>
        cg_total_points g \<le> cg_max_points g)"
proof -
  define g where "g = reviewed_grade D reviews key answers c s"
  let ?rs = "cg_item_results g"
  have ok: "grade_ok g" unfolding g_def reviewed_grade_def by (rule review_machine.run_inv [OF graded_ok])
  have "columns ?rs = map (\<lambda>i. (ki_question_id i, ki_question_type i, ki_points i, ki_requires_manual_review i)) (ak_items key)"
    by (simp add: g_def reviewed_grade_def reviews_columns graded_results grade_item_columns)
  from arg_cong [OF this, of "map (fst \<circ> snd \<circ> snd)"]
  have pts: "map ir_max_points ?rs = map ki_points (ak_items key)" by (simp add: columns_def comp_def)
  have max: "cg_max_points g = (\<Sum>i\<leftarrow>ak_items key. ki_points i)"
    using ok pts by (simp add: grade_ok_def totals_ok_def)
  have unat_max: "(\<Sum>i\<leftarrow>?rs. unat (ir_max_points i)) = (\<Sum>i\<leftarrow>ak_items key. unat (ki_points i))"
    using arg_cong [OF pts, of "\<lambda>xs. sum_list (map unat xs)"] by (simp add: comp_def)
  have le: "\<forall>i \<in> set ?rs. ir_awarded_points i \<le> ir_max_points i" using ok by (simp add: grade_ok_def totals_ok_def)
  have "unat (cg_total_points g) = (\<Sum>i\<leftarrow>?rs. unat (ir_awarded_points i)) \<and> cg_total_points g \<le> cg_max_points g"
    if "(\<Sum>i\<leftarrow>ak_items key. unat (ki_points i)) < 2 ^ 32"
    using unat_sum_le [of ir_max_points ?rs ir_awarded_points] unat_sum_le [of ir_max_points ?rs ir_max_points]
      that unat_max le ok by (simp add: grade_ok_def totals_ok_def word_le_nat_alt)
  then show ?thesis
    unfolding g_def [symmetric] Let_def using ok max
    by (auto simp: grade_ok_def totals_ok_def list_all_iff list_ex_iff)
qed

section \<open>Essays\<close>

lemma read_key_item_essay: "ki_question_type (read_key_item D j) = ascii ''essay'' \<Longrightarrow> ki_requires_manual_review (read_key_item D j)"
  by (simp add: read_key_item_def Let_def)

lemma items_loop_read:
  "items_loop D json cur items = Inr items' \<Longrightarrow> set items' \<subseteq> set items \<union> {i. ki_question_id i \<noteq> [] \<and> (\<exists>j. i = read_key_item D j)}"
proof (induction D json cur items arbitrary: items' rule: items_loop.induct)
  case (1 D json cur items)
  show ?case
    using 1(2) 1(1)
    by (subst (asm) items_loop.simps) (fastforce simp: Let_def split: if_splits option.splits prod.splits)
qed

text \<open>What the candidate wrote: the first answer of that question that is not a clearing.\<close>

definition written_text :: "bytes \<Rightarrow> answer_state list \<Rightarrow> bytes" where
  "written_text q answers =
     (case filter (\<lambda>a. as_question_id a = q \<and> as_kind a = Upsert) answers of [] \<Rightarrow> [] | a # _ \<Rightarrow> as_answer a)"

lemma find_answer_written:
  "written_text (ki_question_id i) answers = (case find_answer i answers of None \<Rightarrow> [] | Some a \<Rightarrow> as_answer a)"
  by (induction answers) (auto simp: written_text_def find_answer_def)

lemma grade_item_review:
  assumes "ki_requires_manual_review i"
  shows "ir_awarded_points (grade_item D i answers) = 0 \<and> \<not> ir_correct (grade_item D i answers) \<and>
    ir_student_answer_text (grade_item D i answers) = written_text (ki_question_id i) answers \<and>
    (pending_item (grade_item D i answers) \<longleftrightarrow> written_text (ki_question_id i) answers \<noteq> [])"
  using assms by (auto simp: grade_item_def pending_item_def find_answer_written Let_def split: option.splits)

lemma grade_item_id [simp]: "ir_question_id (grade_item D i answers) = ki_question_id i"
  by (simp add: grade_item_def Let_def split: option.split)

lemma update_first_other: "n < length xs \<Longrightarrow> \<not> P (xs ! n) \<Longrightarrow> update_first P f xs ! n = xs ! n"
proof (induction xs arbitrary: n)
  case (Cons x xs)
  then show ?case by (cases n) auto
qed simp

lemma reviews_of_others:
  assumes "n < length (cg_item_results g)" "\<forall>r \<in> set reviews. fst r \<noteq> ir_question_id (cg_item_results g ! n)"
  shows "n < length (cg_item_results (fold (review_step D) reviews g)) \<and>
    cg_item_results (fold (review_step D) reviews g) ! n = cg_item_results g ! n"
  using assms
proof (induction reviews arbitrary: g)
  case (Cons r reviews)
  have "length (columns (cg_item_results (review_step D r g))) = length (columns (cg_item_results g))"
    by (simp only: review_step_columns)
  then have len: "length (cg_item_results (review_step D r g)) = length (cg_item_results g)" by (simp add: columns_def)
  have "cg_item_results (review_step D r g) ! n = cg_item_results g ! n"
    using Cons.prems update_first_other [of n "cg_item_results g" "\<lambda>i. ir_question_id i = fst r"]
    by (auto simp: review_step_def apply_manual_review_def Let_def finish_grade_def split: prod.split option.split)
  with Cons.IH [of "review_step D r g"] Cons.prems len show ?case by simp
qed simp

lemma read_essay_reviewed:
  assumes "parse_answer_key_json D json = Inr key" "i \<in> set (ak_items key)"
  shows "ki_question_id i \<noteq> []" "ki_question_type i = ascii ''essay'' \<Longrightarrow> ki_requires_manual_review i"
proof -
  have "\<exists>cur. items_loop D json cur [] = Inr (ak_items key)"
    using assms(1) by (auto simp: parse_answer_key_json_def split: option.splits sum.splits)
  then obtain j where "ki_question_id i \<noteq> []" "i = read_key_item D j"
    using items_loop_read [of D json _ "[]" "ak_items key"] assms(2) by auto
  then show "ki_question_id i \<noteq> []" "ki_question_type i = ascii ''essay'' \<Longrightarrow> ki_requires_manual_review i"
    using read_key_item_essay by auto
qed

text \<open>
  C21. An essay is never graded automatically. Take the \<open>n\<close>-th item of a key that was read, an essay, and
  what the candidate wrote for its question: the text of the first answer for it that is not a
  clearing. The result has no points and is not correct, it carries that text, and it is pending
  exactly when the text is not empty. After any reviews of other questions, accepted or refused,
  it still is as it was, so as long as nobody reviews a written essay it has no points and the
  grade does not count as complete.
\<close>

theorem essays_need_review:
  assumes "parse_answer_key_json D json = Inr key" and "n < length (ak_items key)"
    and "ki_question_type (ak_items key ! n) = ascii ''essay''"
    and "\<forall>r \<in> set reviews. fst r \<noteq> ki_question_id (ak_items key ! n)"
  shows "let g = reviewed_grade D reviews key answers c s; r = cg_item_results g ! n;
             text = written_text (ki_question_id (ak_items key ! n)) answers in
    r = cg_item_results (grade_student_answers D key answers c s) ! n \<and>
    ir_question_id r = ki_question_id (ak_items key ! n) \<and> ir_question_id r \<noteq> [] \<and>
    ir_awarded_points r = 0 \<and> \<not> ir_correct r \<and> ir_student_answer_text r = text \<and>
    (pending_item r \<longleftrightarrow> text \<noteq> []) \<and> (text \<noteq> [] \<longrightarrow> \<not> cg_fully_graded g)"
proof -
  let ?i = "ak_items key ! n" and ?first = "grade_student_answers D key answers c s"
  let ?g = "reviewed_grade D reviews key answers c s"
  have i: "?i \<in> set (ak_items key)" using assms(2) by simp
  have r0: "n < length (cg_item_results ?first)" "cg_item_results ?first ! n = grade_item D ?i answers"
    using assms(2) by (simp_all add: graded_results)
  have "\<forall>r \<in> set reviews. fst r \<noteq> ir_question_id (cg_item_results ?first ! n)" using assms(4) r0(2) by simp
  from reviews_of_others [OF r0(1) this]
  have r: "n < length (cg_item_results ?g)" "cg_item_results ?g ! n = grade_item D ?i answers"
    using r0(2) unfolding reviewed_grade_def by auto
  have "grade_ok ?g" unfolding reviewed_grade_def using graded_ok by (rule review_machine.run_inv)
  then have "pending_item (cg_item_results ?g ! n) \<Longrightarrow> \<not> cg_fully_graded ?g"
    using nth_mem [OF r(1)] by (auto simp: grade_ok_def)
  then show ?thesis
    using grade_item_review [OF read_essay_reviewed(2) [OF assms(1) i assms(3)], of D answers]
      read_essay_reviewed(1) [OF assms(1) i] r r0(2) by (simp add: Let_def)
qed

section \<open>Grading from the journal\<close>

lemma find_current:
  assumes "sorted_wrt (<) (map as_question_id as)" and "set as = {a. \<exists>q. current_answer sha fs q = Some a}"
  shows "find (\<lambda>a. as_question_id a = q \<and> as_kind a = Upsert) as = current_answer sha fs q"
proof -
  have kind: "as_kind a = Upsert" if "current_answer sha fs p = Some a" for p a
  proof -
    let ?t = "filter (\<lambda>e. ev_kind e \<noteq> FinalizeSession \<and> ev_question_id e = p) fs"
    have t: "?t \<noteq> []" "ev_kind (last ?t) \<noteq> Clear" "as_kind a = ev_kind (last ?t)"
      using that by (auto simp: current_answer_def Let_def event_answer_def split: if_splits)
    have "ev_kind (last ?t) \<noteq> FinalizeSession" using last_in_set [OF t(1)] by auto
    then show ?thesis using t by (cases "ev_kind (last ?t)") auto
  qed
  show ?thesis
  proof (cases "find (\<lambda>a. as_question_id a = q \<and> as_kind a = Upsert) as")
    case None
    then have "\<forall>a \<in> set as. as_question_id a \<noteq> q \<or> as_kind a \<noteq> Upsert" by (auto simp: find_None_iff)
    then have "current_answer sha fs q \<noteq> Some a" for a using assms(2) kind current_answer_question by blast
    then show ?thesis using None by (cases "current_answer sha fs q") auto
  next
    case (Some a)
    then have "a \<in> set as" "as_question_id a = q" by (auto simp: find_Some_iff)
    then obtain p where "current_answer sha fs p = Some a" using assms(2) by auto
    then show ?thesis using Some current_answer_question \<open>as_question_id a = q\<close> by metis
  qed
qed

text \<open>
  C20. Grading from the journal grades the latest answers. In every reachable open journal a grade
  that is returned for a valid request is the grade of the events of that session: each item is
  graded on the answer of the latest event for its question, and as unanswered when that event
  cleared it or when there is none; the session belongs to the candidate of the request.
\<close>

theorem grade_latest_answers:
  assumes "digest_ok sha" and "journal_run sha j acc" and "j_open j" and "request_ok r"
    and "grade_from_journal D sha key j r = Some g"
  shows "\<exists>es. j_file j = log_bytes sha es \<and> subseq acc es \<and>
    cg_item_results g = map (\<lambda>i. grade_item D i
      (case current_answer sha (events_of (request_key r) es) (ki_question_id i) of None \<Rightarrow> [] | Some a \<Rightarrow> [a])) (ak_items key) \<and>
    cg_candidate_id g = rq_candidate_id r \<and>
    list_all (\<lambda>e. ev_candidate_id e = rq_candidate_id r) (take 1 (events_of (request_key r) es))"
proof -
  obtain es where log: "journal_log sha j es" "subseq acc es"
    using journal_run_inv [OF assms(2,1)] unfolding journal_inv_def by blast
  let ?fs = "events_of (request_key r) es"
  obtain resp where resp: "journal_state sha r j = Some resp"
      and g: "g = grade_student_answers D key (sr_answers resp) (rq_candidate_id r) (rq_session_id r)"
    using assms(5) by (auto simp: grade_from_journal_def split: option.splits)
  note st = journal_state_log [OF log(1) assms(3,4)]
  have cand: "?fs = [] \<or> ev_candidate_id (hd ?fs) = rq_candidate_id r" using st resp by (auto split: if_splits)
  then have answers: "sorted_wrt (<) (map as_question_id (sr_answers resp))"
      "set (sr_answers resp) = {a. \<exists>q. current_answer sha ?fs q = Some a}"
    using st resp by auto
  have find: "find_answer i (sr_answers resp) =
      find_answer i (case current_answer sha ?fs (ki_question_id i) of None \<Rightarrow> [] | Some a \<Rightarrow> [a])" for i :: "'a answer_key_item"
  proof (cases "current_answer sha ?fs (ki_question_id i)")
    case None
    then show ?thesis using find_current [OF answers, of "ki_question_id i"] by (simp add: find_answer_def)
  next
    case (Some a)
    have "find (\<lambda>a. as_question_id a = ki_question_id i \<and> as_kind a = Upsert) (sr_answers resp) = Some a"
      using find_current [OF answers, of "ki_question_id i"] Some by simp
    then show ?thesis using Some by (auto simp: find_answer_def find_Some_iff)
  qed
  have "grade_item D i (sr_answers resp) =
      grade_item D i (case current_answer sha ?fs (ki_question_id i) of None \<Rightarrow> [] | Some a \<Rightarrow> [a])" for i
    by (simp only: grade_item_def find)
  then have "cg_item_results g = map (\<lambda>i. grade_item D i
      (case current_answer sha ?fs (ki_question_id i) of None \<Rightarrow> [] | Some a \<Rightarrow> [a])) (ak_items key)"
    by (simp add: g graded_results)
  moreover have "cg_candidate_id (fold (grade_step D as) items x) = cg_candidate_id x" for as items and x :: "'a candidate_exam_grade"
    by (induction items arbitrary: x) (simp_all add: grade_step_def Let_def)
  then have "cg_candidate_id g = rq_candidate_id r"
    by (simp add: g grade_student_answers_def finish_grade_def)
  moreover have "j_file j = log_bytes sha es" using log(1) assms(3) by (auto simp: journal_log_def)
  moreover have "list_all (\<lambda>e. ev_candidate_id e = rq_candidate_id r) (take 1 ?fs)" using cand by (cases ?fs) auto
  ultimately show ?thesis using log(2) by blast
qed

section \<open>A concrete grade\<close>

definition sample_doubles :: "nat doubles" where
  "sample_doubles = \<lparr>dbl_strtod = (\<lambda>s. (0, 0)), dbl_within = (\<lambda>v x e. v = x), dbl_percentage = (\<lambda>t m. unat t),
     dbl_zero = 0, dbl_epsilon = 0\<rparr>"

text \<open>A key with one essay; \<^verbatim>\<open>~\<close> stands for the quote.\<close>

definition sample_key_json :: bytes where
  "sample_key_json = map (\<lambda>b. if b = 126 then 34 else b) (ascii ''{~items~:[{~id~:~q1~,~type~:~essay~}]}'')"

definition sample_item :: "nat answer_key_item" where
  "sample_item = \<lparr>ki_question_id = [49], ki_question_type = ascii ''text'', ki_points = 5, ki_accepted_answers = [[65]],
     ki_case_sensitive = True, ki_trim_whitespace = False, ki_numeric_tolerance = False, ki_numeric_value = 0,
     ki_numeric_epsilon = 0, ki_requires_manual_review = False\<rparr>"

definition sample_answer_key :: "nat answer_key" where
  "sample_answer_key = \<lparr>ak_package_id = [112], ak_package_digest = replicate 32 0, ak_items = [sample_item]\<rparr>"

lemma sample_key_parses:
  "(case parse_answer_key_json sample_doubles sample_key_json of
      Inl _ \<Rightarrow> False | Inr key \<Rightarrow> map (\<lambda>i. (ki_question_id i, ki_question_type i)) (ak_items key) = [(ascii ''q1'', ascii ''essay'')])"
  by code_simp

definition sample_essay :: answer_state where
  "sample_essay = \<lparr>as_question_id = ascii ''q1'', as_question_revision = 1, as_sequence = 1, as_kind = Upsert,
     as_answer = [72, 105], as_event_hash = []\<rparr>"

theorem essays_need_review_witness:
  "\<exists>key. parse_answer_key_json sample_doubles sample_key_json = Inr key \<and>
     ir_student_answer_text (cg_item_results (reviewed_grade sample_doubles [([49], 3, [])] key [sample_essay] [] []) ! 0) = [72, 105] \<and>
     pending_item (cg_item_results (reviewed_grade sample_doubles [([49], 3, [])] key [sample_essay] [] []) ! 0) \<and>
     \<not> cg_fully_graded (reviewed_grade sample_doubles [([49], 3, [])] key [sample_essay] [] [])"
proof -
  obtain key where key: "parse_answer_key_json sample_doubles sample_key_json = Inr key"
    "map (\<lambda>i. (ki_question_id i, ki_question_type i)) (ak_items key) = [(ascii ''q1'', ascii ''essay'')]"
    using sample_key_parses by (auto split: sum.splits)
  from key(2) obtain i where i: "ak_items key = [i]" "ki_question_id i = ascii ''q1''" "ki_question_type i = ascii ''essay''"
    by auto
  have "written_text (ascii ''q1'') [sample_essay] = [72, 105]" by (simp add: written_text_def sample_essay_def)
  moreover have "[49] \<noteq> ascii ''q1''" by (simp add: ascii_def)
  ultimately show ?thesis
    using essays_need_review [OF key(1), of 0 "[([49], 3, [])]" "[sample_essay]" "[]" "[]"] key(1) i
    by (auto simp: Let_def)
qed

theorem grade_totals_witness:
  "(\<Sum>i\<leftarrow>ak_items sample_answer_key. unat (ki_points i)) < 2 ^ 32 \<and>
   cg_total_points (reviewed_grade sample_doubles [([49], 3, [])] sample_answer_key [] [] [])
     \<le> cg_max_points (reviewed_grade sample_doubles [([49], 3, [])] sample_answer_key [] [] [])"
proof -
  have small: "(\<Sum>i\<leftarrow>ak_items sample_answer_key. unat (ki_points i)) < 2 ^ 32"
    by (simp add: sample_answer_key_def sample_item_def)
  then show ?thesis
    using grade_totals [of sample_doubles "[([49], 3, [])]" sample_answer_key "[]" "[]" "[]", unfolded Let_def] by blast
qed

lemma sample_request_ok: "request_ok sample_request"
  by (simp add: request_ok_def request_wf_def sample_request_def valid_text_def valid_identity_def)

lemma sample_grade:
  "\<exists>g. grade_from_journal sample_doubles sample_sha sample_answer_key sample_journal sample_request = Some g"
proof -
  obtain es where log: "journal_log sample_sha sample_journal es" "subseq [sample_event] es"
    using journal_run_inv [OF journal_sample_run sample_sha_ok] unfolding journal_inv_def by blast
  let ?fs = "events_of (request_key sample_request) es"
  obtain ss where es: "list_all event_ok es" "replay sample_sha es [] = Some ss"
    using log(1) by (auto simp: journal_log_def)
  have key: "event_key sample_event = request_key sample_request"
    by (simp add: event_key_def request_key_def sample_event_def sample_request_def)
  have e: "sample_event \<in> set es" using subseq_set [OF log(2)] by simp
  obtain s where s: "session_spec sample_sha ?fs s" using log_event_indexed [OF es e] key by metis
  have "sample_event \<in> set ?fs" using e key by (simp add: events_of_def)
  then have "ev_candidate_id (hd ?fs) = ev_candidate_id sample_event"
    using s by (cases ?fs) (auto simp: session_spec_def list_all_iff)
  then have "ev_candidate_id (hd ?fs) = rq_candidate_id sample_request"
    by (simp add: sample_event_def sample_request_def)
  then obtain resp where "journal_state sample_sha sample_request sample_journal = Some resp"
    using journal_state_log [OF log(1) sample_append(2) sample_request_ok] by (auto split: if_splits)
  then show ?thesis by (simp add: grade_from_journal_def)
qed

theorem grade_latest_answers_witness:
  "\<exists>g es. grade_from_journal sample_doubles sample_sha sample_answer_key sample_journal sample_request = Some g \<and>
     j_file sample_journal = log_bytes sample_sha es \<and> subseq [sample_event] es"
proof -
  obtain g where g: "grade_from_journal sample_doubles sample_sha sample_answer_key sample_journal sample_request = Some g"
    using sample_grade by blast
  then show ?thesis
    using grade_latest_answers [OF sample_sha_ok journal_sample_run sample_append(2) sample_request_ok g] by blast
qed

end
