(* ===== verification/ExamLockdown.thy ===== *)
theory ExamLockdown
  imports ExamSync UrlValidation TextScan
begin

text \<open>
  The lockdown of the candidate's machine during an exam: the origin filter and the controller of
  \<^verbatim>\<open>client/src/exam_lockdown_controller.cpp\<close>, the network block's decision object of
  \<^verbatim>\<open>client/include/nstu/exam_network_lockdown.hpp\<close>, and the application suppression of
  \<^verbatim>\<open>client/src/exam_app_suppression.cpp\<close> with its header. The firewall is reached through two
  callbacks; their outcome is an argument, and every operation returns the calls it makes.
  Resolving a host name and enumerating and ending processes are parameters. Each operation
  holds the mutex, so it is one step, except \<open>disarm\<close>, which lets the mutex go while it clears the
  filters: its two locked parts are steps of their own. IPv6 addresses are lists of 16 bytes.

  Shown: only valid DNS names are resolved and no loopback, link-local or multicast address is
  ever allowed; the block cannot outlive its cap or the heartbeats; a worker whose attempt was
  overtaken cannot arm; arming while the block is up leaves the old filters in force; no
  protected process is ever ended.
\<close>

section \<open>Origins\<close>

definition is_label_char :: "byte \<Rightarrow> bool" where
  "is_label_char c \<longleftrightarrow> 97 \<le> c \<and> c \<le> 122 \<or> 65 \<le> c \<and> c \<le> 90 \<or> is_digit c \<or> c = 45"

definition label_ok :: "bytes \<Rightarrow> bool" where
  "label_ok l =
     (if l = [] \<or> length l > 63 then False
      else if hd l = 45 \<or> last l = 45 then False
      else list_all is_label_char l)"

function labels_loop :: "bytes \<Rightarrow> bool" where
  "labels_loop s =
     (if s = [] then True
      else if \<not> label_ok (takeWhile (\<lambda>c. c \<noteq> 46) s) then False
      else case dropWhile (\<lambda>c. c \<noteq> 46) s of [] \<Rightarrow> True | _ # rest \<Rightarrow> labels_loop rest)"
  by pat_completeness auto
termination
proof (relation "measure length")
  fix s x21 and rest :: bytes
  assume "dropWhile (\<lambda>c. c \<noteq> 46) s = x21 # rest"
  then have "length (x21 # rest) \<le> length s" by (metis length_dropWhile_le)
  then show "(rest, s) \<in> measure length" by simp
qed simp

declare labels_loop.simps [simp del]

definition port_ok :: "bytes \<Rightarrow> bool" where
  "port_ok p =
     (if p = [] \<or> length p > 5 then False
      else if \<not> list_all is_digit p then False
      else 1 \<le> decimal p \<and> decimal p \<le> 65535)"

definition parse_origin_hostname :: "bytes \<Rightarrow> bytes option" where
  "parse_origin_hostname origin =
     (if origin = [] \<or> length origin > 253 then None
      else if list_ex (\<lambda>c. c \<le> 0x20 \<or> c \<ge> 0x7f) origin then None
      else if 64 \<in> set origin then None
      else
        let scheme = (if starts_with_ci origin (ascii ''https://'') then Some (drop 8 origin)
                      else if starts_with_ci origin (ascii ''http://'') then Some (drop 7 origin)
                      else if take 2 origin = [47, 47] then Some (drop 2 origin)
                      else if find_from (ascii ''://'') 0 origin \<noteq> None then None
                      else Some origin) in
        case scheme of
          None \<Rightarrow> None
        | Some host \<Rightarrow>
            let host = takeWhile (\<lambda>c. c \<notin> {47, 63, 35}) host;
                port = rev (takeWhile (\<lambda>c. c \<noteq> 58) (rev host)) in
            if 58 \<in> set host \<and> \<not> port_ok port then None
            else
              let host = (if 58 \<in> set host then take (length host - length port - 1) host else host) in
              if host = [] \<or> length host > 253 then None
              else if hd host = 46 \<or> last host = 46 then None
              else if labels_loop host then Some host else None)"

definition is_disallowed_ipv4 :: "u32 \<Rightarrow> bool" where
  "is_disallowed_ipv4 ip =
     (if ip = 0 then True
      else
        let first_octet = drop_bit 24 ip AND 0xff in
        if first_octet = 127 then True
        else if ip AND 0xffff0000 = 0xa9fe0000 then True
        else first_octet \<ge> 224)"

definition is_disallowed_ipv6 :: "bytes \<Rightarrow> bool" where
  "is_disallowed_ipv6 b =
     (if list_all (\<lambda>x. x = 0) b then True
      else if list_all (\<lambda>x. x = 0) (butlast b) \<and> last b = 1 then True
      else if list_all (\<lambda>x. x = 0) (take 10 b) \<and> b ! 10 = 0xff \<and> b ! 11 = 0xff
      then is_disallowed_ipv4 (push_bit 24 (ucast (b ! 12)) OR push_bit 16 (ucast (b ! 13)) OR
             push_bit 8 (ucast (b ! 14)) OR ucast (b ! 15))
      else if b ! 0 = 0xff then True
      else if b ! 0 = 0xfe \<and> b ! 1 AND 0xc0 = 0x80 then True
      else if b ! 0 = 0xfe \<and> b ! 1 AND 0xc0 = 0xc0 then True
      else if b ! 0 = 0x01 \<and> b ! 1 = 0x00 \<and> list_all (\<lambda>x. x = 0) (take 6 (drop 2 b)) then True
      else b ! 0 = 0x20 \<and> b ! 1 = 0x01 \<and> b ! 2 = 0x0d \<and> b ! 3 = 0xb8)"

text \<open>\<open>resolve\<close> is the DNS lookup, the injected one or \<open>getaddrinfo\<close>.\<close>

definition resolve_allowed_origins :: "(bytes \<Rightarrow> u32 list) \<Rightarrow> bytes list \<Rightarrow> u32 list" where
  "resolve_allowed_origins resolve origins =
     (if length origins > 32 then []
      else
        let resolved = concat (map (\<lambda>origin. case parse_origin_hostname origin of
                                   None \<Rightarrow> []
                                 | Some hostname \<Rightarrow> filter (\<lambda>ip. \<not> is_disallowed_ipv4 ip) (resolve hostname)) origins)
        in remdups_adj (sort resolved))"

section \<open>When to block\<close>

datatype lockdown_action = ActNone | ActApply | ActClear

record wfp_config =
  wf_allowed_ipv4 :: "u32 list"
  wf_allowed_ipv6 :: "bytes list"
  wf_server_ipv4 :: u32
  wf_server_ipv6 :: bytes
  wf_server_port :: u16
  wf_default_deny :: bool
  wf_permit_loopback :: bool
  wf_permit_dns_dhcp :: bool
  wf_block_http :: bool
  wf_block_https :: bool

record lockdown =
  ld_config :: wfp_config
  ld_max_active_ms :: u64
  ld_stale_after_ms :: u64
  ld_start_ms :: u64
  ld_last_heartbeat_ms :: u64
  ld_desired :: bool
  ld_applied :: bool

definition default_config :: wfp_config where
  "default_config = \<lparr>wf_allowed_ipv4 = [], wf_allowed_ipv6 = [], wf_server_ipv4 = 0, wf_server_ipv6 = replicate 16 0,
     wf_server_port = 0, wf_default_deny = True, wf_permit_loopback = True, wf_permit_dns_dhcp = True,
     wf_block_http = True, wf_block_https = True\<rparr>"

definition make_lockdown :: "u64 \<Rightarrow> u64 \<Rightarrow> lockdown" where
  "make_lockdown max_active_ms stale_after_ms =
     \<lparr>ld_config = default_config, ld_max_active_ms = max_active_ms, ld_stale_after_ms = stale_after_ms,
      ld_start_ms = 0, ld_last_heartbeat_ms = 0, ld_desired = False, ld_applied = False\<rparr>"

definition ld_arm :: "wfp_config \<Rightarrow> u64 \<Rightarrow> lockdown \<Rightarrow> lockdown" where
  "ld_arm config now_ms l =
     l\<lparr>ld_config := config, ld_desired := True, ld_start_ms := now_ms, ld_last_heartbeat_ms := now_ms\<rparr>"

definition ld_heartbeat :: "u64 \<Rightarrow> lockdown \<Rightarrow> lockdown" where
  "ld_heartbeat now_ms l = l\<lparr>ld_last_heartbeat_ms := now_ms\<rparr>"

definition ld_disarm :: "lockdown \<Rightarrow> lockdown" where
  "ld_disarm l = l\<lparr>ld_desired := False\<rparr>"

definition should_block :: "u64 \<Rightarrow> lockdown \<Rightarrow> bool" where
  "should_block now_ms l =
     (if \<not> ld_desired l then False
      else
        let active_for = (if now_ms \<ge> ld_start_ms l then now_ms - ld_start_ms l else 0);
            since_heartbeat = (if now_ms \<ge> ld_last_heartbeat_ms l then now_ms - ld_last_heartbeat_ms l else 0)
        in active_for \<le> ld_max_active_ms l \<and> since_heartbeat \<le> ld_stale_after_ms l)"

definition ld_poll :: "u64 \<Rightarrow> lockdown \<Rightarrow> lockdown_action \<times> lockdown" where
  "ld_poll now_ms l =
     (let want = should_block now_ms l in
      if want \<and> \<not> ld_applied l then (ActApply, l\<lparr>ld_applied := True\<rparr>)
      else if \<not> want \<and> ld_applied l then (ActClear, l\<lparr>ld_applied := False\<rparr>)
      else (ActNone, l))"

section \<open>The controller\<close>

definition kMaxActiveCapMs :: u64 where "kMaxActiveCapMs = 25 * 3600 * 1000"
definition kDefaultStaleAfterMs :: u64 where "kDefaultStaleAfterMs = 90000"
definition kMaxApplyRetries :: nat where "kMaxApplyRetries = 5"

record arm_params =
  ap_session_id :: bytes
  ap_client_id :: bytes
  ap_package_verified :: bool
  ap_duration_seconds :: u32
  ap_allowed_ipv4 :: "u32 list"
  ap_allowed_ipv6 :: "bytes list"
  ap_server_ipv4 :: u32
  ap_server_ipv6 :: bytes
  ap_server_port :: u16
  ap_default_deny :: bool
  ap_permit_loopback :: bool
  ap_permit_dns_dhcp :: bool

record controller =
  lc_epoch :: u64
  lc_armed :: bool
  lc_blocked :: bool
  lc_apply_retries :: nat
  lc_last_apply_failed :: bool
  lc_start_ms :: u64
  lc_last_heartbeat_ms :: u64
  lc_duration_seconds :: u32
  lc_lockdown :: lockdown

definition make_controller :: controller where
  "make_controller = \<lparr>lc_epoch = 0, lc_armed = False, lc_blocked = False, lc_apply_retries = 0,
     lc_last_apply_failed = False, lc_start_ms = 0, lc_last_heartbeat_ms = 0, lc_duration_seconds = 0,
     lc_lockdown = make_lockdown kMaxActiveCapMs kDefaultStaleAfterMs\<rparr>"

datatype arm_error = Stale_token | Zero_session | Wrong_client | Package_not_verified | Empty_ip_set

definition begin_attempt :: "controller \<Rightarrow> u64 \<times> controller" where
  "begin_attempt c = (lc_epoch c + 1, c\<lparr>lc_epoch := lc_epoch c + 1\<rparr>)"

definition max_active_for :: "u32 \<Rightarrow> u64" where
  "max_active_for duration_seconds =
     (let max_active_ms = (ucast duration_seconds + 30 * 60) * 1000
      in if max_active_ms > kMaxActiveCapMs then kMaxActiveCapMs else max_active_ms)"

definition config_of :: "arm_params \<Rightarrow> wfp_config" where
  "config_of p = \<lparr>wf_allowed_ipv4 = ap_allowed_ipv4 p, wf_allowed_ipv6 = ap_allowed_ipv6 p,
     wf_server_ipv4 = ap_server_ipv4 p, wf_server_ipv6 = ap_server_ipv6 p, wf_server_port = ap_server_port p,
     wf_default_deny = ap_default_deny p, wf_permit_loopback = ap_permit_loopback p,
     wf_permit_dns_dhcp = ap_permit_dns_dhcp p, wf_block_http = True, wf_block_https = True\<rparr>"

definition arm :: "u64 \<Rightarrow> arm_params \<Rightarrow> bytes \<Rightarrow> u64 \<Rightarrow> controller \<Rightarrow> arm_error option \<times> controller" where
  "arm token p configured_client_id now_ms c =
     (if token \<noteq> lc_epoch c then (Some Stale_token, c)
      else if all_zero (ap_session_id p) then (Some Zero_session, c)
      else if ap_client_id p \<noteq> configured_client_id then (Some Wrong_client, c)
      else if \<not> ap_package_verified p then (Some Package_not_verified, c)
      else if ap_allowed_ipv4 p = [] \<and> ap_allowed_ipv6 p = [] \<and> ap_server_ipv4 p = 0 \<and>
              ap_server_ipv6 p = replicate 16 0 then (Some Empty_ip_set, c)
      else (None, c\<lparr>lc_duration_seconds := ap_duration_seconds p,
             lc_lockdown := ld_arm (config_of p) now_ms
               (make_lockdown (max_active_for (ap_duration_seconds p)) kDefaultStaleAfterMs),
             lc_armed := True, lc_start_ms := now_ms, lc_last_heartbeat_ms := now_ms,
             lc_apply_retries := 0, lc_last_apply_failed := False\<rparr>))"

definition update_duration :: "u32 \<Rightarrow> controller \<Rightarrow> controller" where
  "update_duration duration_seconds c =
     (if \<not> lc_armed c \<or> duration_seconds = 0 then c
      else
        let l = ld_arm (ld_config (lc_lockdown c)) (lc_start_ms c)
                  (make_lockdown (max_active_for duration_seconds) kDefaultStaleAfterMs);
            l = (if lc_last_heartbeat_ms c > lc_start_ms c then ld_heartbeat (lc_last_heartbeat_ms c) l else l)
        in c\<lparr>lc_duration_seconds := duration_seconds, lc_lockdown := l\<rparr>)"

definition heartbeat :: "u64 \<Rightarrow> controller \<Rightarrow> controller" where
  "heartbeat now_ms c =
     (if \<not> lc_armed c then c
      else c\<lparr>lc_last_heartbeat_ms := now_ms, lc_lockdown := ld_heartbeat now_ms (lc_lockdown c)\<rparr>)"

datatype firewall_call = Apply wfp_config | Clear_filters

text \<open>\<open>clear_ok\<close>, \<open>apply_ok\<close>: the callback is set and succeeds.\<close>

definition disarm_request :: "controller \<Rightarrow> bool \<times> controller" where
  "disarm_request c =
     (lc_blocked c, c\<lparr>lc_epoch := lc_epoch c + 1, lc_armed := False, lc_lockdown := ld_disarm (lc_lockdown c)\<rparr>)"

definition disarm_finish :: "bool \<Rightarrow> controller \<Rightarrow> controller" where
  "disarm_finish clear_ok c = (if clear_ok then c\<lparr>lc_blocked := False, lc_apply_retries := 0\<rparr> else c)"

definition disarm :: "bool \<Rightarrow> controller \<Rightarrow> firewall_call list \<times> controller" where
  "disarm clear_ok c =
     (let (call_clear, c) = disarm_request c in
      if call_clear then ([Clear_filters], disarm_finish clear_ok c) else ([], c))"

definition tick ::
  "bool \<Rightarrow> bool \<Rightarrow> u64 \<Rightarrow> controller \<Rightarrow> lockdown_action \<times> firewall_call list \<times> controller" where
  "tick apply_ok clear_ok now_ms c =
     (let c = c\<lparr>lc_lockdown := snd (ld_poll now_ms (lc_lockdown c))\<rparr>; l = lc_lockdown c in
      if ld_applied l \<and> \<not> lc_blocked c
      then if \<not> lc_last_apply_failed c \<and> lc_apply_retries c < kMaxApplyRetries
           then let c = c\<lparr>lc_apply_retries := Suc (lc_apply_retries c)\<rparr> in
             if apply_ok then (ActApply, [Apply (ld_config l)], c\<lparr>lc_blocked := True\<rparr>)
             else (ActNone, [Apply (ld_config l)],
                   c\<lparr>lc_last_apply_failed := (if lc_apply_retries c \<ge> kMaxApplyRetries then True
                                              else lc_last_apply_failed c)\<rparr>)
           else (ActNone, [], c)
      else if \<not> ld_applied l \<and> lc_blocked c
      then if clear_ok then (ActClear, [Clear_filters], c\<lparr>lc_blocked := False, lc_apply_retries := 0\<rparr>)
           else (ActNone, [Clear_filters], c)
      else (ActNone, [], c))"

definition startup_sweep :: "bool option \<Rightarrow> bool \<times> firewall_call list" where
  "startup_sweep clear_fn = (case clear_fn of Some ok \<Rightarrow> (ok, [Clear_filters]) | None \<Rightarrow> (True, []))"

section \<open>Application suppression\<close>

definition protected_images :: "bytes list" where
  "protected_images = map ascii
     [''System'', ''Registry'', ''smss.exe'', ''csrss.exe'', ''wininit.exe'', ''winlogon.exe'', ''services.exe'',
      ''lsass.exe'', ''lsaiso.exe'', ''svchost.exe'', ''fontdrvhost.exe'', ''dwm.exe'', ''LogonUI.exe'', ''WUDFHost.exe'',
      ''explorer.exe'', ''ctfmon.exe'', ''sihost.exe'', ''taskhostw.exe'', ''RuntimeBroker.exe'',
      ''ApplicationFrameHost.exe'', ''ShellExperienceHost.exe'', ''StartMenuExperienceHost.exe'', ''TextInputHost.exe'',
      ''SearchHost.exe'', ''nstu-agent.exe'', ''nstu-service.exe'', ''nstu-server.exe'', ''msedgewebview2.exe'']"

record suppression =
  su_allowed_images :: "bytes list"
  su_active :: bool
  su_total_suppressions :: nat

definition is_protected :: "bytes \<Rightarrow> bool" where
  "is_protected img = list_ex (\<lambda>p. equals_ci p img) protected_images"

definition should_suppress :: "suppression \<Rightarrow> bytes \<Rightarrow> bool" where
  "should_suppress s img =
     (if \<not> su_active s \<or> img = [] \<or> is_protected img then False
      else \<not> list_ex (\<lambda>a. equals_ci a img) (su_allowed_images s))"

record process_entry =
  pe_pid :: u32
  pe_session_id :: u32
  pe_image_name :: bytes

definition suppression_arm :: "bytes list \<Rightarrow> suppression \<Rightarrow> suppression" where
  "suppression_arm allowed s = s\<lparr>su_allowed_images := allowed, su_active := True\<rparr>"

definition suppression_disarm :: "suppression \<Rightarrow> suppression" where
  "suppression_disarm s = s\<lparr>su_active := False\<rparr>"

text \<open>
  The scan over the processes; \<open>terminate\<close> is the call that ends a process. The result: the
  processes it was called on, how many of them ended, and the state.
\<close>

fun scan_loop ::
  "(u32 \<Rightarrow> bytes \<Rightarrow> bool) \<Rightarrow> u32 \<Rightarrow> process_entry list \<Rightarrow> nat \<Rightarrow> suppression \<Rightarrow> process_entry list \<times> nat \<times> suppression" where
  "scan_loop terminate session [] n s = ([], n, s)"
| "scan_loop terminate session (p # ps) n s =
     (if pe_session_id p = 0 \<or> pe_session_id p \<noteq> session then scan_loop terminate session ps n s
      else if should_suppress s (pe_image_name p)
      then let (n, s) = (if terminate (pe_pid p) (pe_image_name p)
                         then (Suc n, s\<lparr>su_total_suppressions := Suc (su_total_suppressions s)\<rparr>) else (n, s));
               (called, n, s) = scan_loop terminate session ps n s
           in (p # called, n, s)
      else scan_loop terminate session ps n s)"

definition scan ::
  "(u32 \<Rightarrow> bytes \<Rightarrow> bool) \<Rightarrow> u32 \<Rightarrow> process_entry list \<Rightarrow> suppression \<Rightarrow> process_entry list \<times> nat \<times> suppression" where
  "scan terminate session processes s =
     (if \<not> su_active s \<or> session = 0 then ([], 0, s) else scan_loop terminate session processes 0 s)"

section \<open>Runs of the controller\<close>

text \<open>
  The calls the service's threads make, one after the other: the command thread, the worker of an
  exam start, the supervisor's ticks, and the two locked parts of a \<open>disarm\<close>.
\<close>

datatype lockdown_op =
    Op_begin
  | Op_arm u64 arm_params bytes u64
  | Op_update u32
  | Op_heartbeat u64
  | Op_disarm_request
  | Op_disarm_finish bool
  | Op_tick bool bool u64

fun lockdown_step :: "lockdown_op \<Rightarrow> controller \<Rightarrow> controller" where
  "lockdown_step Op_begin c = snd (begin_attempt c)"
| "lockdown_step (Op_arm token p cid now) c = snd (arm token p cid now c)"
| "lockdown_step (Op_update d) c = update_duration d c"
| "lockdown_step (Op_heartbeat now) c = heartbeat now c"
| "lockdown_step Op_disarm_request c = snd (disarm_request c)"
| "lockdown_step (Op_disarm_finish ok) c = disarm_finish ok c"
| "lockdown_step (Op_tick apply_ok clear_ok now) c = snd (snd (tick apply_ok clear_ok now c))"

definition lockdown_run :: "lockdown_op list \<Rightarrow> controller \<Rightarrow> controller" where
  "lockdown_run ops c = fold lockdown_step ops c"

text \<open>The latest arming, the longest duration and the latest sign of life in a run.\<close>

fun armed_by :: "nat \<Rightarrow> lockdown_op \<Rightarrow> bool" where
  "armed_by a (Op_arm token p cid now) = (unat now \<le> a)"
| "armed_by a _ = True"

fun lasting_at_most :: "nat \<Rightarrow> lockdown_op \<Rightarrow> bool" where
  "lasting_at_most d (Op_arm token p cid now) = (unat (ap_duration_seconds p) \<le> d)"
| "lasting_at_most d (Op_update s) = (unat s \<le> d)"
| "lasting_at_most d _ = True"

fun alive_by :: "nat \<Rightarrow> lockdown_op \<Rightarrow> bool" where
  "alive_by h (Op_arm token p cid now) = (unat now \<le> h)"
| "alive_by h (Op_heartbeat now) = (unat now \<le> h)"
| "alive_by h _ = True"

fun bumps :: "lockdown_op \<Rightarrow> bool" where
  "bumps Op_begin = True"
| "bumps Op_disarm_request = True"
| "bumps _ = False"

lemma max_active_for_value: "unat (max_active_for d) = min ((unat d + 1800) * 1000) 90000000"
proof -
  have d: "unat d < 2 ^ 32" using unsigned_less[of d] by simp
  have u: "unat ((ucast d + 30 * 60) * 1000 :: u64) = (unat d + 1800) * 1000"
    using d by (simp add: unat_word_ariths unsigned_ucast_eq take_bit_nat_eq_self)
  have cap: "unat kMaxActiveCapMs = 90000000" by (simp add: kMaxActiveCapMs_def)
  show ?thesis unfolding max_active_for_def Let_def using u cap by (auto simp: word_less_nat_alt)
qed

lemma poll_simps [simp]:
  "ld_applied (snd (ld_poll now l)) = should_block now l"
  "ld_config (snd (ld_poll now l)) = ld_config l"
  "ld_desired (snd (ld_poll now l)) = ld_desired l"
  "ld_start_ms (snd (ld_poll now l)) = ld_start_ms l"
  "ld_last_heartbeat_ms (snd (ld_poll now l)) = ld_last_heartbeat_ms l"
  "ld_max_active_ms (snd (ld_poll now l)) = ld_max_active_ms l"
  "ld_stale_after_ms (snd (ld_poll now l)) = ld_stale_after_ms l"
  by (auto simp: ld_poll_def Let_def)

lemma tick_frame [simp]:
  "lc_lockdown (snd (snd (tick ao co now c))) = snd (ld_poll now (lc_lockdown c))"
  "lc_start_ms (snd (snd (tick ao co now c))) = lc_start_ms c"
  "lc_last_heartbeat_ms (snd (snd (tick ao co now c))) = lc_last_heartbeat_ms c"
  "lc_armed (snd (snd (tick ao co now c))) = lc_armed c"
  "lc_epoch (snd (snd (tick ao co now c))) = lc_epoch c"
  by (simp_all add: tick_def Let_def)

lemma tick_blocked:
  "lc_blocked (snd (snd (tick ao co now c))) \<Longrightarrow> co \<Longrightarrow> should_block now (lc_lockdown c)"
  by (auto simp: tick_def Let_def split: if_splits)

lemma tick_calls:
  "fst (snd (tick ao co now c)) =
     (if should_block now (lc_lockdown c)
      then if \<not> lc_blocked c \<and> \<not> lc_last_apply_failed c \<and> lc_apply_retries c < kMaxApplyRetries
           then [Apply (ld_config (lc_lockdown c))] else []
      else if lc_blocked c then [Clear_filters] else [])"
  by (auto simp: tick_def Let_def)

lemma should_block_bounds:
  assumes "should_block now l"
  shows "ld_desired l" "unat now \<le> unat (ld_start_ms l) + unat (ld_max_active_ms l)"
    "unat now \<le> unat (ld_last_heartbeat_ms l) + unat (ld_stale_after_ms l)"
  using assms
  by (auto simp: should_block_def Let_def word_le_nat_alt unat_sub_if_size split: if_splits)

section \<open>The block ends\<close>

text \<open>An exam of \<open>d\<close> seconds blocks for half an hour more, and never longer than 25 hours.\<close>

definition longest_block :: "nat \<Rightarrow> nat" where
  "longest_block d = min ((d + 1800) * 1000) 90000000"

definition armed_bound :: "nat \<Rightarrow> nat \<Rightarrow> controller \<Rightarrow> bool" where
  "armed_bound a d c \<longleftrightarrow> unat (lc_start_ms c) \<le> a \<and>
     (ld_desired (lc_lockdown c) \<longrightarrow> unat (ld_start_ms (lc_lockdown c)) \<le> a \<and>
        unat (ld_max_active_ms (lc_lockdown c)) \<le> longest_block d)"

definition alive_bound :: "nat \<Rightarrow> controller \<Rightarrow> bool" where
  "alive_bound h c \<longleftrightarrow> unat (lc_start_ms c) \<le> h \<and> unat (lc_last_heartbeat_ms c) \<le> h \<and>
     unat (ld_last_heartbeat_ms (lc_lockdown c)) \<le> h \<and> ld_stale_after_ms (lc_lockdown c) = kDefaultStaleAfterMs"

lemma max_active_bound:
  "unat dur \<le> d \<Longrightarrow> unat (max_active_for dur) \<le> longest_block d"
  by (auto simp: longest_block_def max_active_for_value)

lemma armed_bound_step:
  assumes "armed_bound a d c" "armed_by a op" "lasting_at_most d op"
  shows "armed_bound a d (lockdown_step op c)"
  using assms
  by (cases op) (auto simp: armed_bound_def begin_attempt_def arm_def update_duration_def heartbeat_def Let_def
    disarm_request_def disarm_finish_def ld_arm_def ld_heartbeat_def ld_disarm_def make_lockdown_def
    intro: max_active_bound)

lemma alive_bound_step:
  assumes "alive_bound h c" "alive_by h op"
  shows "alive_bound h (lockdown_step op c)"
  using assms
  by (cases op) (auto simp: alive_bound_def begin_attempt_def arm_def update_duration_def heartbeat_def Let_def
    disarm_request_def disarm_finish_def ld_arm_def ld_heartbeat_def ld_disarm_def make_lockdown_def)

lemma armed_bound_run:
  "armed_bound a d c \<Longrightarrow> list_all (armed_by a) ops \<Longrightarrow> list_all (lasting_at_most d) ops \<Longrightarrow>
   armed_bound a d (lockdown_run ops c)"
  unfolding lockdown_run_def by (induction ops arbitrary: c) (auto intro: armed_bound_step)

lemma alive_bound_run:
  "alive_bound h c \<Longrightarrow> list_all (alive_by h) ops \<Longrightarrow> alive_bound h (lockdown_run ops c)"
  unfolding lockdown_run_def by (induction ops arbitrary: c) (auto intro: alive_bound_step)

lemma bounds_initial: "armed_bound a d make_controller" "alive_bound h make_controller"
  by (simp_all add: armed_bound_def alive_bound_def make_controller_def make_lockdown_def)

text \<open>C19. The network block is fail-safe. Take any run of the controller whose last arming is
  at \<open>a\<close> at the latest, whose exams last \<open>d\<close> seconds at most, and whose last arming or heartbeat is
  at \<open>h\<close> at the latest. A tick more than the longest block (the duration and half an hour, never more than 25 hours)
  after \<open>a\<close>, or more than 90 s after \<open>h\<close>, never asks for filters; it asks to clear them, again at every tick, as
  long as they are up, and once that works they are down.\<close>

theorem lockdown_fail_safe:
  assumes "list_all (armed_by a) ops" "list_all (lasting_at_most d) ops" "list_all (alive_by h) ops"
    and "a + longest_block d < unat now \<or> h + 90000 < unat now"
  shows "fst (snd (tick apply_ok clear_ok now (lockdown_run ops make_controller))) =
           (if lc_blocked (lockdown_run ops make_controller) then [Clear_filters] else []) \<and>
         \<not> lc_blocked (snd (snd (tick apply_ok True now (lockdown_run ops make_controller))))"
proof -
  let ?c = "lockdown_run ops make_controller"
  have a: "armed_bound a d ?c" and h: "alive_bound h ?c"
    using assms(1-3) bounds_initial by (simp_all add: armed_bound_run alive_bound_run)
  have "\<not> should_block now (lc_lockdown ?c)"
  proof
    assume "should_block now (lc_lockdown ?c)"
    note b = should_block_bounds[OF this]
    have "unat now \<le> a + longest_block d"
      using a b(1,2) unfolding armed_bound_def by linarith
    moreover have "unat now \<le> h + 90000"
      using h b(3) by (simp add: alive_bound_def kDefaultStaleAfterMs_def)
    ultimately show False using assms(4) by linarith
  qed
  then show ?thesis using tick_blocked by (auto simp: tick_calls)
qed

text \<open>An exam of 600 s armed at 1000 ms, whose last sign of life is the heartbeat at 50000 ms.\<close>

definition sample_params :: arm_params where
  "sample_params = \<lparr>ap_session_id = [1], ap_client_id = [7], ap_package_verified = True,
     ap_duration_seconds = 600, ap_allowed_ipv4 = [0x08080808], ap_allowed_ipv6 = [], ap_server_ipv4 = 0,
     ap_server_ipv6 = replicate 16 0, ap_server_port = 0, ap_default_deny = True, ap_permit_loopback = True,
     ap_permit_dns_dhcp = True\<rparr>"

definition sample_ops :: "lockdown_op list" where
  "sample_ops = [Op_begin, Op_arm 1 sample_params [7] 1000, Op_tick True True 2000, Op_heartbeat 50000]"

lemmas lockdown_eval = lockdown_run_def sample_ops_def sample_params_def begin_attempt_def arm_def config_of_def
  update_duration_def heartbeat_def disarm_request_def disarm_finish_def ld_arm_def ld_heartbeat_def
  ld_disarm_def make_lockdown_def make_controller_def tick_def ld_poll_def should_block_def Let_def
  max_active_for_def kMaxActiveCapMs_def kDefaultStaleAfterMs_def kMaxApplyRetries_def all_zero_def

theorem lockdown_fail_safe_witness:
  "lc_blocked (lockdown_run sample_ops make_controller) \<and>
   fst (snd (tick True False 140001 (lockdown_run sample_ops make_controller))) = [Clear_filters] \<and>
   \<not> lc_blocked (snd (snd (tick True True 140001 (lockdown_run sample_ops make_controller))))"
proof -
  have blocked: "lc_blocked (lockdown_run sample_ops make_controller)" by (simp add: lockdown_eval)
  have "list_all (armed_by 1000) sample_ops" "list_all (lasting_at_most 600) sample_ops"
    "list_all (alive_by 50000) sample_ops"
    by (simp_all add: sample_ops_def sample_params_def)
  from lockdown_fail_safe[OF this, of 140001 True False] blocked show ?thesis by simp
qed

section \<open>A worker that was overtaken, and a stop\<close>

lemma epoch_step: "lc_epoch (lockdown_step op c) = lc_epoch c + of_bool (bumps op)"
  by (cases op) (auto simp: begin_attempt_def arm_def update_duration_def heartbeat_def Let_def
    disarm_request_def disarm_finish_def)

lemma epoch_run: "lc_epoch (lockdown_run ops c) = lc_epoch c + of_nat (length (filter bumps ops))"
  unfolding lockdown_run_def by (induction ops arbitrary: c) (auto simp: epoch_step)

lemma add_of_nat_eq_self: "(w :: u64) = w + of_nat n \<Longrightarrow> n < 2 ^ 64 \<Longrightarrow> n = 0"
  by (simp add: of_nat_eq_0_iff word_of_nat_eq_0_iff) (metis dvd_imp_le not_less gr_zeroI)

text \<open>The worker that resolves an exam's origins runs beside the command thread. It arms with the
  token it was given if nothing overtook it: the token is good as long as there was neither a newer
  attempt nor a stop, and after any other sequence of calls with at least one of them (and fewer
  than 2^64) arming is refused as stale and changes nothing.\<close>

theorem overtaken_worker_refused:
  assumes "begin_attempt c = (token, c')" "length (filter bumps ops) < 2 ^ 64"
  shows "(list_ex bumps ops \<longrightarrow>
            arm token p cid now (lockdown_run ops c') = (Some Stale_token, lockdown_run ops c')) \<and>
         (\<not> list_ex bumps ops \<longrightarrow> fst (arm token p cid now (lockdown_run ops c')) \<noteq> Some Stale_token)"
proof -
  have t: "token = lc_epoch c'" using assms(1) by (auto simp: begin_attempt_def)
  have "token = lc_epoch (lockdown_run ops c') \<longleftrightarrow> filter bumps ops = []"
  proof
    assume "token = lc_epoch (lockdown_run ops c')"
    then show "filter bumps ops = []" using add_of_nat_eq_self[OF _ assms(2)] by (simp only: t epoch_run length_0_conv)
  next
    assume "filter bumps ops = []"
    then show "token = lc_epoch (lockdown_run ops c')" by (simp add: t epoch_run)
  qed
  then show ?thesis by (auto simp: arm_def filter_empty_conv list_ex_iff)
qed

theorem overtaken_worker_refused_witness:
  "begin_attempt make_controller = (1, lockdown_run [Op_begin] make_controller) \<and>
   fst (arm 1 sample_params [7] 9 (lockdown_run [Op_disarm_request] (lockdown_run [Op_begin] make_controller)))
     = Some Stale_token"
proof -
  have b: "begin_attempt make_controller = (1, lockdown_run [Op_begin] make_controller)"
    by (simp add: lockdown_run_def begin_attempt_def make_controller_def)
  show ?thesis
    using overtaken_worker_refused[OF b, of "[Op_disarm_request]" sample_params "[7]" 9] b by simp
qed

definition stopped :: "controller \<Rightarrow> bool" where
  "stopped c \<longleftrightarrow> \<not> lc_armed c \<and> \<not> ld_desired (lc_lockdown c)"

text \<open>The calls that can follow a stop while no new attempt begins: the workers still running hold
  tokens that were handed out before.\<close>

fun leftover :: "u64 \<Rightarrow> lockdown_op \<Rightarrow> bool" where
  "leftover e Op_begin = False"
| "leftover e (Op_arm token p cid now) = (token \<le> e)"
| "leftover e _ = True"

lemma stopped_step:
  assumes "stopped c" "leftover e op" "e < lc_epoch c"
  shows "stopped (lockdown_step op c)"
  using assms
  by (cases op) (auto simp: stopped_def arm_def update_duration_def heartbeat_def Let_def
    disarm_request_def disarm_finish_def ld_disarm_def)

lemma stopped_run:
  assumes "stopped c" "list_all (leftover e) ops" "e < lc_epoch c"
    "unat (lc_epoch c) + length (filter bumps ops) < 2 ^ 64"
  shows "stopped (lockdown_run ops c)"
  using assms
proof (induction ops arbitrary: c)
  case (Cons op ops)
  have e: "unat (lc_epoch (lockdown_step op c)) = unat (lc_epoch c) + of_bool (bumps op)"
    using Cons.prems(4) by (auto simp: epoch_step unat_word_ariths)
  have "stopped (lockdown_run ops (lockdown_step op c))"
    using Cons.prems e by (intro Cons.IH stopped_step[of _ e]) (auto simp: word_less_nat_alt split: if_splits)
  then show ?case by (simp add: lockdown_run_def)
qed (simp add: lockdown_run_def)

lemma stopped_tick:
  assumes "stopped c"
  shows "fst (snd (tick ao co now c)) = (if lc_blocked c then [Clear_filters] else [])"
    "\<not> lc_blocked (snd (snd (tick ao True now c)))"
proof -
  have "\<not> should_block now (lc_lockdown c)" using assms by (simp add: stopped_def should_block_def)
  then show "fst (snd (tick ao co now c)) = (if lc_blocked c then [Clear_filters] else [])"
    "\<not> lc_blocked (snd (snd (tick ao True now c)))"
    using tick_blocked by (auto simp: tick_calls)
qed

text \<open>A stop is final. After \<open>disarm\<close> has taken effect, whatever the threads still do without a new
  exam start (workers arming with tokens handed out before, heartbeats, new durations, ticks, further
  stops), the controller stays disarmed, no tick asks for filters again, and every tick asks to clear
  them until that has worked.\<close>

theorem stop_is_final:
  assumes "list_all (leftover (lc_epoch c)) ops" "unat (lc_epoch c) + 1 + length (filter bumps ops) < 2 ^ 64"
  shows "\<not> lc_armed (lockdown_run ops (snd (disarm_request c))) \<and>
         fst (snd (tick apply_ok clear_ok now (lockdown_run ops (snd (disarm_request c))))) =
           (if lc_blocked (lockdown_run ops (snd (disarm_request c))) then [Clear_filters] else []) \<and>
         \<not> lc_blocked (snd (snd (tick apply_ok True now (lockdown_run ops (snd (disarm_request c))))))"
proof -
  let ?d = "snd (disarm_request c)"
  have e: "unat (lc_epoch ?d) = unat (lc_epoch c) + 1"
    using assms(2) by (simp add: disarm_request_def unat_word_ariths)
  have "stopped (lockdown_run ops ?d)"
  proof (rule stopped_run[OF _ assms(1)])
    show "stopped ?d" by (simp add: stopped_def disarm_request_def ld_disarm_def)
    show "lc_epoch c < lc_epoch ?d" using e by (simp add: word_less_nat_alt)
    show "unat (lc_epoch ?d) + length (filter bumps ops) < 2 ^ 64" using e assms(2) by simp
  qed
  then show ?thesis using stopped_tick by (auto simp: stopped_def)
qed

theorem stop_is_final_witness:
  "lc_blocked (lockdown_run [Op_arm 1 sample_params [7] 60000, Op_heartbeat 60001]
     (snd (disarm_request (lockdown_run sample_ops make_controller)))) \<and>
   fst (snd (tick True True 60002 (lockdown_run [Op_arm 1 sample_params [7] 60000, Op_heartbeat 60001]
     (snd (disarm_request (lockdown_run sample_ops make_controller)))))) = [Clear_filters]"
proof -
  have e: "lc_epoch (lockdown_run sample_ops make_controller) = 1" by (simp add: lockdown_eval)
  have b: "lc_blocked (lockdown_run [Op_arm 1 sample_params [7] 60000, Op_heartbeat 60001]
     (snd (disarm_request (lockdown_run sample_ops make_controller))))" by (simp add: lockdown_eval)
  show ?thesis
    using stop_is_final[of "lockdown_run sample_ops make_controller"
      "[Op_arm 1 sample_params [7] 60000, Op_heartbeat 60001]" True True 60002] e b by simp
qed

section \<open>Arming over a block that is up\<close>

text \<open>The firewall calls of a run, and the runs in which the block stays due: no stop and no other arming,
  and at every tick the decision object asks for the block.\<close>

fun lockdown_calls :: "lockdown_op list \<Rightarrow> controller \<Rightarrow> firewall_call list" where
  "lockdown_calls [] c = []"
| "lockdown_calls (Op_tick apply_ok clear_ok now # ops) c =
     fst (snd (tick apply_ok clear_ok now c)) @ lockdown_calls ops (snd (snd (tick apply_ok clear_ok now c)))"
| "lockdown_calls (op # ops) c = lockdown_calls ops (lockdown_step op c)"

fun stays_due :: "lockdown_op list \<Rightarrow> controller \<Rightarrow> bool" where
  "stays_due [] c = True"
| "stays_due (Op_tick apply_ok clear_ok now # ops) c =
     (should_block now (lc_lockdown c) \<and> stays_due ops (snd (snd (tick apply_ok clear_ok now c))))"
| "stays_due (Op_begin # ops) c = stays_due ops (lockdown_step Op_begin c)"
| "stays_due (Op_update d # ops) c = stays_due ops (lockdown_step (Op_update d) c)"
| "stays_due (Op_heartbeat now # ops) c = stays_due ops (lockdown_step (Op_heartbeat now) c)"
| "stays_due (_ # ops) c = False"

lemma blocked_tick:
  assumes "lc_blocked c" "should_block t (lc_lockdown c)"
  shows "fst (snd (tick ao co t c)) = []" "lc_blocked (snd (snd (tick ao co t c)))"
  using assms by (auto simp: tick_calls) (simp add: tick_def Let_def)

lemma quiet_step:
  "lc_blocked (snd (begin_attempt c)) = lc_blocked c" "ld_config (lc_lockdown (snd (begin_attempt c))) = ld_config (lc_lockdown c)"
  "lc_blocked (update_duration d c) = lc_blocked c" "ld_config (lc_lockdown (update_duration d c)) = ld_config (lc_lockdown c)"
  "lc_blocked (heartbeat t c) = lc_blocked c" "ld_config (lc_lockdown (heartbeat t c)) = ld_config (lc_lockdown c)"
  by (simp_all add: begin_attempt_def update_duration_def heartbeat_def ld_arm_def ld_heartbeat_def Let_def)

lemma due_run_quiet:
  "stays_due ops c \<Longrightarrow> lc_blocked c \<Longrightarrow>
   lockdown_calls ops c = [] \<and> lc_blocked (lockdown_run ops c) \<and>
   ld_config (lc_lockdown (lockdown_run ops c)) = ld_config (lc_lockdown c)"
  by (induction ops c rule: stays_due.induct) (simp_all add: lockdown_run_def quiet_step blocked_tick)

text \<open>C36. An exam start that arrives while the block of the previous one is up arms the controller with
  the new allowlist, but the filters stay the old ones. Whatever ticks, heartbeats, changes of the duration and
  new attempts follow, as long as the new block is due at every tick and there is neither a stop nor another
  arming, the firewall is never called: the controller holds the new allowlist, the block counts as up, and the
  new allowlist is not installed.\<close>

theorem rearm_keeps_old_filters:
  assumes "lc_blocked c" "arm token p cid now c = (None, c')" "stays_due ops c'"
  shows "lockdown_calls ops c' = [] \<and> lc_blocked (lockdown_run ops c') \<and>
         ld_config (lc_lockdown (lockdown_run ops c')) = config_of p"
proof -
  have "lc_blocked c'" "ld_config (lc_lockdown c') = config_of p"
    using assms(1,2) by (auto simp: arm_def ld_arm_def split: if_splits)
  then show ?thesis using due_run_quiet[OF assms(3)] by simp
qed

text \<open>An exam kept due by heartbeats for four minutes after the second arming.\<close>

definition sample_second :: arm_params where
  "sample_second = sample_params\<lparr>ap_allowed_ipv4 := [9]\<rparr>"

definition sample_follow :: "lockdown_op list" where
  "sample_follow = [Op_tick True True 61000, Op_update 1200, Op_heartbeat 140000, Op_tick True True 150000,
     Op_begin, Op_heartbeat 220000, Op_tick True True 300000]"

theorem rearm_keeps_old_filters_witness:
  "\<exists>c'. arm 1 sample_second [7] 60000 (lockdown_run sample_ops make_controller) = (None, c') \<and>
     lockdown_calls sample_follow c' = [] \<and> lc_blocked (lockdown_run sample_follow c') \<and>
     ld_config (lc_lockdown (lockdown_run sample_follow c')) = config_of sample_second \<and>
     config_of sample_second \<noteq> config_of sample_params"
proof -
  let ?c = "lockdown_run sample_ops make_controller"
  have b: "lc_blocked ?c" by (simp add: lockdown_eval)
  have "fst (arm 1 sample_second [7] 60000 ?c) = None" by (simp add: lockdown_eval sample_second_def)
  then obtain c' where a: "arm 1 sample_second [7] 60000 ?c = (None, c')" by (metis prod.collapse)
  have "stays_due sample_follow (snd (arm 1 sample_second [7] 60000 ?c))" by code_simp
  then have "stays_due sample_follow c'" using a by simp
  moreover have "config_of sample_second \<noteq> config_of sample_params"
    by (simp add: config_of_def sample_second_def sample_params_def)
  ultimately show ?thesis using a rearm_keeps_old_filters[OF b a] by blast
qed

section \<open>The names that are resolved\<close>

text \<open>A DNS name: labels of 1 to 63 letters, digits and inner hyphens with dots between them.\<close>

fun join_dots :: "bytes list \<Rightarrow> bytes" where
  "join_dots [] = []"
| "join_dots [l] = l"
| "join_dots (l # ls) = l @ 46 # join_dots ls"

definition dns_name :: "bytes \<Rightarrow> bool" where
  "dns_name h \<longleftrightarrow> length h \<le> 253 \<and> (\<exists>ls. ls \<noteq> [] \<and> list_all label_ok ls \<and> h = join_dots ls)"

lemma join_dots_Cons: "ls \<noteq> [] \<Longrightarrow> join_dots (l # ls) = l @ 46 # join_dots ls"
  by (cases ls) auto

lemma labels_loop_join:
  "labels_loop s \<Longrightarrow> s \<noteq> [] \<Longrightarrow> last s \<noteq> 46 \<Longrightarrow> \<exists>ls. ls \<noteq> [] \<and> list_all label_ok ls \<and> s = join_dots ls"
proof (induction s rule: labels_loop.induct)
  case (1 s)
  let ?l = "takeWhile (\<lambda>c. c \<noteq> 46) s"
  have l: "label_ok ?l" using "1.prems" by (auto simp: labels_loop.simps[of s] split: if_splits)
  show ?case
  proof (cases "dropWhile (\<lambda>c. c \<noteq> 46) s")
    case Nil
    then have "?l = s" by (metis append_Nil2 takeWhile_dropWhile_id)
    then have "label_ok s" using l by (rule subst)
    then show ?thesis by (intro exI[of _ "[s]"]) simp
  next
    case (Cons x rest)
    have x: "x = 46" using Cons by (metis (mono_tags) hd_dropWhile list.distinct(1) list.sel(1))
    have s: "s = ?l @ 46 # rest" using Cons x by (metis takeWhile_dropWhile_id)
    have rest: "rest \<noteq> []" "last rest \<noteq> 46" using "1.prems"(3) s by (metis last_ConsL last_ConsR last_append list.distinct(1))+
    have "labels_loop rest" using "1.prems"(1,2) l Cons by (simp add: labels_loop.simps[of s])
    from "1.IH"[OF "1.prems"(2) _ Cons this rest] l obtain ls
      where "ls \<noteq> []" "list_all label_ok ls" "rest = join_dots ls" by auto
    then show ?thesis using l s by (intro exI[of _ "?l # ls"]) (simp add: join_dots_Cons)
  qed
qed

lemma labels_loop_of_join: "list_all label_ok ls \<Longrightarrow> ls \<noteq> [] \<Longrightarrow> labels_loop (join_dots ls)"
proof (induction ls rule: join_dots.induct)
  case (2 l)
  then have "46 \<notin> set l" by (auto simp: label_ok_def list_all_iff is_label_char_def is_digit_def split: if_splits)
  then have "takeWhile (\<lambda>c. c \<noteq> 46) l = l" "dropWhile (\<lambda>c. c \<noteq> 46) l = []" by (auto simp: takeWhile_eq_all_conv)
  then have "labels_loop l = (l = [] \<or> label_ok l)" by (simp only: labels_loop.simps[of l]) simp
  then show ?case using 2 by simp
next
  case (3 l l' ls)
  then have "46 \<notin> set l" by (auto simp: label_ok_def list_all_iff is_label_char_def is_digit_def split: if_splits)
  then have "takeWhile (\<lambda>c. c \<noteq> 46) (l @ 46 # t) = l" "dropWhile (\<lambda>c. c \<noteq> 46) (l @ 46 # t) = 46 # t" for t
    by (auto simp: takeWhile_tail dropWhile_append3 intro: takeWhile_append2)
  then show ?case using 3 by (simp add: labels_loop.simps[of "l @ 46 # _"])
qed simp

lemma parse_origin_dns:
  assumes "parse_origin_hostname origin = Some h"
  shows "dns_name h"
proof -
  have "h \<noteq> []" "length h \<le> 253" "last h \<noteq> 46" "labels_loop h"
    using assms by (auto simp: parse_origin_hostname_def Let_def split: if_splits option.splits)
  then show ?thesis using labels_loop_join by (auto simp: dns_name_def)
qed

lemma sorted_unique: "sorted xs \<Longrightarrow> sorted_wrt (<) (remdups_adj xs)" for xs :: "'a::linorder list"
  by (induction xs rule: remdups_adj.induct) (auto simp: order.strict_iff_order)

text \<open>Of at most 32 declared origins the client allows exactly the addresses the lookup gives for
  the ones whose host is a DNS name, less 0.0.0.0, loopback, link-local, multicast and reserved
  addresses, each once and in ascending order; with more origins, none.\<close>

theorem allowed_origins_exact:
  "sorted_wrt (<) (resolve_allowed_origins resolve origins) \<and>
   (ip \<in> set (resolve_allowed_origins resolve origins) \<longleftrightarrow>
      length origins \<le> 32 \<and> \<not> is_disallowed_ipv4 ip \<and>
      (\<exists>origin h. origin \<in> set origins \<and> parse_origin_hostname origin = Some h \<and> dns_name h \<and> ip \<in> set (resolve h)))"
proof -
  have "sorted_wrt (<) (remdups_adj (sort xs))" for xs :: "u32 list" by (simp add: sorted_unique)
  moreover have "ip \<in> set (case parse_origin_hostname origin of None \<Rightarrow> []
      | Some h \<Rightarrow> filter (\<lambda>ip. \<not> is_disallowed_ipv4 ip) (resolve h)) \<longleftrightarrow> \<not> is_disallowed_ipv4 ip \<and>
      (\<exists>h. parse_origin_hostname origin = Some h \<and> dns_name h \<and> ip \<in> set (resolve h))" for origin
    by (cases "parse_origin_hostname origin") (auto dest: parse_origin_dns)
  ultimately show ?thesis
    by (simp add: resolve_allowed_origins_def Let_def) blast
qed

section \<open>The processes that are ended\<close>

definition victim :: "suppression \<Rightarrow> u32 \<Rightarrow> process_entry \<Rightarrow> bool" where
  "victim s session p \<longleftrightarrow> su_active s \<and> session \<noteq> 0 \<and> pe_session_id p = session \<and> pe_image_name p \<noteq> [] \<and>
     (\<forall>q \<in> set (protected_images @ su_allowed_images s).
        map to_lower q \<noteq> map to_lower (pe_image_name p))"

lemma should_suppress_total [simp]:
  "should_suppress (s\<lparr>su_total_suppressions := n\<rparr>) img = should_suppress s img"
  by (simp add: should_suppress_def)

lemma victim_total [simp]: "victim (s\<lparr>su_total_suppressions := n\<rparr>) session = victim s session"
  by (simp add: victim_def fun_eq_iff)

lemma victim_iff:
  "victim s session p \<longleftrightarrow> session \<noteq> 0 \<and> pe_session_id p = session \<and> should_suppress s (pe_image_name p)"
  by (auto simp: victim_def should_suppress_def is_protected_def list_ex_iff equals_ci_iff)

lemma scan_loop_exact:
  assumes "session \<noteq> 0"
  shows "scan_loop terminate session ps n s =
     (let vs = filter (victim s session) ps;
          k = length (filter (\<lambda>p. terminate (pe_pid p) (pe_image_name p)) vs)
      in (vs, n + k, s\<lparr>su_total_suppressions := su_total_suppressions s + k\<rparr>))"
  using assms by (induction ps arbitrary: n s) (auto simp: victim_iff Let_def)

text \<open>A scan asks to end exactly the processes of the session it is for whose image is neither
  protected nor allowed by the exam, ignoring case, in the order of the snapshot; when it is off or for session 0,
  none. It counts the ones that were really ended, and nothing else of its state changes.\<close>

theorem scan_exact:
  "scan terminate session ps s =
     (let vs = filter (victim s session) ps;
          k = length (filter (\<lambda>p. terminate (pe_pid p) (pe_image_name p)) vs)
      in (vs, k, s\<lparr>su_total_suppressions := su_total_suppressions s + k\<rparr>))"
proof (cases "su_active s \<and> session \<noteq> 0")
  case True
  then show ?thesis by (simp add: scan_def scan_loop_exact)
next
  case False
  then have "filter (victim s session) ps = []" by (auto simp: filter_empty_conv victim_def)
  then show ?thesis using False by (simp add: scan_def)
qed

end
