(* ===== verification/AnswerOutbox.thy ===== *)
theory AnswerOutbox
  imports AnswerJournal
begin

text \<open>
  The client's write-ahead outbox, class \<open>AnswerOutbox\<close> of \<open>common/src/answer_journal.cpp\<close>: the
  pending answer events, one watermark per session (the highest sequence queued, the
  acknowledged boundary and their hashes), the serialized form in its four versions, opening
  with all its consistency checks, enqueueing with the rebase of a pending chain, the pending
  queries and acknowledgement.

  The machine-bound encryption of \<open>secret_store\<close> (DPAPI) is the pair of parameters \<open>protect\<close> and
  \<open>unprotect\<close>; the salt it draws is left out, and the proofs use only that opening inverts
  protecting; whether an atomic replacement of the file succeeds is the argument \<open>write_ok\<close>
  of an operation, and a replacement that fails leaves the old file in place.

  The lemmas: the invariant that every reachable outbox keeps (each session's pending events are
  a contiguous hash chain from the acknowledged boundary to the watermark); the serialized form
  is read back; reopening after any history restores exactly the same outbox; an event only
  leaves it through an acknowledgement that carries the right hash.
\<close>

section \<open>Watermarks and the serialized form\<close>

definition kMaximumOutboxEvents :: nat where "kMaximumOutboxEvents = 512"
definition kMaximumOutboxBytes :: nat where "kMaximumOutboxBytes = 8 * 1024 * 1024"
definition kMaximumOutboxWatermarks :: nat where "kMaximumOutboxWatermarks = 4096"
definition kMaximumStoredOutboxBytes :: nat where
  "kMaximumStoredOutboxBytes = kMaximumOutboxBytes + 64 * 1024"
definition kOutboxMagic :: u32 where "kOutboxMagic = 0x3158424f"
definition kEncryptedOutboxMagic :: u32 where "kEncryptedOutboxMagic = 0x31424f45"
definition kOutboxVersion :: u16 where "kOutboxVersion = 4"
definition kOutboxWatermarkVersion :: u16 where "kOutboxWatermarkVersion = 2"
definition kOutboxAcknowledgementVersion :: u16 where "kOutboxAcknowledgementVersion = 3"
definition kOutboxFinalizationVersion :: u16 where "kOutboxFinalizationVersion = 4"
definition kOutboxLegacyVersion :: u16 where "kOutboxLegacyVersion = 1"

record watermark =
  wm_package_id :: bytes
  wm_package_digest :: bytes
  wm_client_id :: bytes
  wm_session_id :: bytes
  wm_candidate_id :: bytes
  wm_highest :: u64
  wm_last_hash :: bytes
  wm_acked :: u64
  wm_acked_hash :: bytes
  wm_finalized :: bool

type_synonym watermarks = "(bytes \<times> watermark) list"

definition valid_watermark :: "watermark \<Rightarrow> bool" where
  "valid_watermark w \<longleftrightarrow>
     wm_package_id w \<noteq> [] \<and> length (wm_package_id w) \<le> kMaximumPackageIdBytes \<and>
     wm_candidate_id w \<noteq> [] \<and> length (wm_candidate_id w) \<le> kMaximumCandidateIdBytes \<and>
     \<not> all_zero (wm_package_digest w) \<and> \<not> all_zero (wm_client_id w) \<and> \<not> all_zero (wm_session_id w) \<and>
     wm_highest w \<noteq> 0 \<and> \<not> all_zero (wm_last_hash w) \<and> wm_acked w \<le> wm_highest w \<and>
     (if wm_acked w = 0 then all_zero (wm_acked_hash w) else \<not> all_zero (wm_acked_hash w))"

definition append_bounded_string :: "bytes \<Rightarrow> nat \<Rightarrow> bytes option" where
  "append_bounded_string v maximum =
     (if v = [] \<or> length v > maximum \<or> length v > 2 ^ 16 - 1 then None
      else Some (append_le (len16 v) @ v))"

definition read_bounded_string :: "nat \<Rightarrow> bytes \<Rightarrow> (bytes \<times> bytes) option" where
  "read_bounded_string maximum w = do {
     (len :: u16, w) \<leftarrow> read_le w;
     if len = 0 \<or> unat len > maximum \<or> unat len > length w then None
     else let v = take (unat len) w
          in if 0 \<in> set v then None else Some (v, drop (unat len) w)
   }"

definition encode_watermark :: "watermark \<Rightarrow> bytes option" where
  "encode_watermark w =
     (if \<not> valid_watermark w then None
      else do {
        p \<leftarrow> append_bounded_string (wm_package_id w) kMaximumPackageIdBytes;
        c \<leftarrow> append_bounded_string (wm_candidate_id w) kMaximumCandidateIdBytes;
        Some (p @ c @ wm_package_digest w @ wm_client_id w @ wm_session_id w @ append_le (wm_highest w) @
              wm_last_hash w @ append_le (wm_acked w) @ wm_acked_hash w @
              append_le (if wm_finalized w then 1 else 0 :: u8))
      })"

fun encode_watermarks :: "watermarks \<Rightarrow> bytes option" where
  "encode_watermarks [] = Some []"
| "encode_watermarks ((k, w) # ws) = do {
     b \<leftarrow> encode_watermark w;
     bs \<leftarrow> encode_watermarks ws;
     Some (b @ bs)
   }"

fun encode_events :: "answer_event list \<Rightarrow> bytes option" where
  "encode_events [] = Some []"
| "encode_events (e # es) =
     (let payload = encode_answer_event e in
      if payload = [] \<or> length payload > kMaximumWireBytes then None
      else map_option (\<lambda>bs. append_le (len32 payload) @ payload @ bs) (encode_events es))"

definition encode_outbox :: "answer_event list \<Rightarrow> watermarks \<Rightarrow> bytes" where
  "encode_outbox events watermarks =
     (if length events > kMaximumOutboxEvents \<or> length watermarks > kMaximumOutboxWatermarks then []
      else case encode_watermarks watermarks of
             None \<Rightarrow> []
           | Some ws \<Rightarrow>
               (case encode_events events of
                  None \<Rightarrow> []
                | Some es \<Rightarrow>
                    let wire = append_le kOutboxMagic @ append_le kOutboxVersion @ append_le (0 :: u16) @
                          append_le (word_of_nat (length events) :: u32) @
                          append_le (word_of_nat (length watermarks) :: u32) @ ws @ es
                    in if length wire \<le> kMaximumOutboxBytes then wire else []))"

definition protect_outbox_wire :: "(bytes \<Rightarrow> bytes option) \<Rightarrow> bytes \<Rightarrow> bytes option" where
  "protect_outbox_wire protect plaintext =
     (if plaintext = [] \<or> length plaintext > kMaximumOutboxBytes \<or> length plaintext > 2 ^ 32 - 1 then None
      else do {
        blob \<leftarrow> protect plaintext;
        if blob = [] then None
        else if length blob > kMaximumStoredOutboxBytes - 12 then None
        else let wire = append_le kEncryptedOutboxMagic @ append_le (1 :: u16) @ append_le (0 :: u16) @
                   append_le (len32 plaintext) @ blob
             in if length wire > kMaximumStoredOutboxBytes then None else Some wire
      })"

definition unprotect_outbox_wire :: "(bytes \<Rightarrow> bytes option) \<Rightarrow> bytes \<Rightarrow> bytes option" where
  "unprotect_outbox_wire unprotect stored =
     (if length stored < 12 \<or> length stored > kMaximumStoredOutboxBytes then None
      else do {
        (magic, w) \<leftarrow> read_le stored;
        if magic \<noteq> kEncryptedOutboxMagic then None else do {
        (version :: u16, w) \<leftarrow> read_le w;
        if version \<noteq> 1 then None else do {
        (reserved :: u16, w) \<leftarrow> read_le w;
        if reserved \<noteq> 0 then None else do {
        (plaintext_size :: u32, w) \<leftarrow> read_le w;
        if plaintext_size = 0 \<or> unat plaintext_size > kMaximumOutboxBytes \<or> w = [] then None
        else do {
          plaintext \<leftarrow> unprotect w;
          if length plaintext \<noteq> unat plaintext_size then None else Some plaintext
        } }}}})"

section \<open>State\<close>

text \<open>\<open>ob_file\<close> is the file on disk, \<open>None\<close> when there is none yet.\<close>

record outbox =
  ob_open :: bool
  ob_events :: "answer_event list"
  ob_watermarks :: watermarks
  ob_file :: "bytes option"

definition watermark_for :: "answer_event \<Rightarrow> bytes \<Rightarrow> u64 \<Rightarrow> watermark" where
  "watermark_for e h highest =
     \<lparr>wm_package_id = ev_package_id e, wm_package_digest = ev_package_digest e, wm_client_id = ev_client_id e,
      wm_session_id = ev_session_id e, wm_candidate_id = ev_candidate_id e, wm_highest = highest,
      wm_last_hash = h, wm_acked = 0, wm_acked_hash = replicate 32 0,
      wm_finalized = (ev_kind e = FinalizeSession)\<rparr>"

definition same_watermark_context :: "watermark \<Rightarrow> answer_event \<Rightarrow> bool" where
  "same_watermark_context w e \<longleftrightarrow>
     wm_package_id w = ev_package_id e \<and> wm_package_digest w = ev_package_digest e \<and>
     wm_client_id w = ev_client_id e \<and> wm_session_id w = ev_session_id e \<and>
     wm_candidate_id w = ev_candidate_id e"

definition same_event_body_except_predecessor :: "answer_event \<Rightarrow> answer_event \<Rightarrow> bool" where
  "same_event_body_except_predecessor l r \<longleftrightarrow>
     ev_package_id l = ev_package_id r \<and> ev_package_digest l = ev_package_digest r \<and>
     ev_client_id l = ev_client_id r \<and> ev_session_id l = ev_session_id r \<and>
     ev_candidate_id l = ev_candidate_id r \<and> ev_question_id l = ev_question_id r \<and>
     ev_question_revision l = ev_question_revision r \<and> ev_sequence l = ev_sequence r \<and>
     ev_time l = ev_time r \<and> ev_kind l = ev_kind r \<and> ev_answer l = ev_answer r"

definition watermark_key :: "watermark \<Rightarrow> bytes" where
  "watermark_key w = session_key (wm_package_id w) (wm_package_digest w) (wm_client_id w) (wm_session_id w)"

text \<open>
  Every change goes through the file first: serialize, encrypt, replace the file; only then is
  the new state installed.
\<close>

definition commit ::
  "(bytes \<Rightarrow> bytes option) \<Rightarrow> bool \<Rightarrow> answer_event list \<Rightarrow> watermarks \<Rightarrow> outbox \<Rightarrow> bool \<times> outbox" where
  "commit protect write_ok events watermarks ob =
     (let wire = encode_outbox events watermarks in
      if wire = [] then (False, ob)
      else case protect_outbox_wire protect wire of
             None \<Rightarrow> (False, ob)
           | Some stored \<Rightarrow>
               if \<not> write_ok then (False, ob)
               else (True, ob\<lparr>ob_events := events, ob_watermarks := watermarks, ob_file := Some stored\<rparr>))"

section \<open>Opening\<close>

definition read_watermark :: "u16 \<Rightarrow> bytes \<Rightarrow> (watermark \<times> bytes) option" where
  "read_watermark version w = do {
     (package_id, w) \<leftarrow> read_bounded_string kMaximumPackageIdBytes w;
     (candidate_id, w) \<leftarrow> read_bounded_string kMaximumCandidateIdBytes w;
     (digest, w) \<leftarrow> read_array 32 w;
     (client, w) \<leftarrow> read_array 16 w;
     (session, w) \<leftarrow> read_array 16 w;
     (highest, w) \<leftarrow> read_le w;
     (last_hash, w) \<leftarrow> read_array 32 w;
     ((acked, acked_hash), w) \<leftarrow>
       (if version \<ge> kOutboxAcknowledgementVersion
        then do { (a, w) \<leftarrow> read_le w; (h, w) \<leftarrow> read_array 32 w; Some ((a, h), w) }
        else Some ((0, replicate 32 0), w));
     (finalized :: u8, w) \<leftarrow> (if version \<ge> kOutboxFinalizationVersion then read_le w else Some (0, w));
     if finalized > 1 then None
     else let wm = \<lparr>wm_package_id = package_id, wm_package_digest = digest, wm_client_id = client,
            wm_session_id = session, wm_candidate_id = candidate_id, wm_highest = highest,
            wm_last_hash = last_hash, wm_acked = acked, wm_acked_hash = acked_hash,
            wm_finalized = (finalized \<noteq> 0)\<rparr>
          in if \<not> valid_watermark wm then None else Some (wm, w)
   }"

fun read_watermarks :: "u16 \<Rightarrow> nat \<Rightarrow> watermarks \<Rightarrow> bytes \<Rightarrow> (watermarks \<times> bytes) option" where
  "read_watermarks version 0 wms w = Some (wms, w)"
| "read_watermarks version (Suc n) wms w = do {
     (wm, w) \<leftarrow> read_watermark version w;
     if map_of wms (watermark_key wm) \<noteq> None then None
     else read_watermarks version n (omap_insert (watermark_key wm) wm wms) w
   }"

fun read_events ::
  "(bytes \<Rightarrow> bytes option) \<Rightarrow> u16 \<Rightarrow> nat \<Rightarrow> answer_event list \<Rightarrow> watermarks \<Rightarrow> bytes \<Rightarrow>
   (answer_event list \<times> watermarks \<times> bytes) option" where
  "read_events sha version 0 evs wms w = Some (evs, wms, w)"
| "read_events sha version (Suc n) evs wms w = do {
     (event_bytes :: u32, w) \<leftarrow> read_le w;
     if event_bytes = 0 \<or> unat event_bytes > kMaximumWireBytes \<or> unat event_bytes > length w then None
     else do {
       e \<leftarrow> decode_answer_event (take (unat event_bytes) w);
       h \<leftarrow> hash_answer_event sha e;
       if list_ex (\<lambda>x. event_key x = event_key e \<and> ev_sequence x = ev_sequence e) evs then None
       else
         let w = drop (unat event_bytes) w in
         case map_of wms (event_key e) of
           None \<Rightarrow> read_events sha version n (evs @ [e])
                     (omap_insert (event_key e) (watermark_for e h (ev_sequence e)) wms) w
         | Some wm \<Rightarrow>
             if \<not> same_watermark_context wm e \<or>
                (version \<noteq> kOutboxLegacyVersion \<and> ev_sequence e > wm_highest wm) then None
             else
               let wm = (if version = kOutboxLegacyVersion \<and> wm_highest wm < ev_sequence e
                         then wm\<lparr>wm_highest := ev_sequence e, wm_last_hash := h\<rparr> else wm);
                   wm = (if \<not> version \<ge> kOutboxFinalizationVersion \<and> ev_kind e = FinalizeSession
                         then wm\<lparr>wm_finalized := True\<rparr> else wm)
               in read_events sha version n (evs @ [e]) (omap_insert (event_key e) wm wms) w
     }
   }"

text \<open>The chain of the pending events of one session: each follows its predecessor.\<close>

fun chain_ok :: "(bytes \<Rightarrow> bytes option) \<Rightarrow> answer_event list \<Rightarrow> bool" where
  "chain_ok sha (previous # current # rest) =
     (if ev_sequence previous = -1 \<or> ev_sequence current \<noteq> ev_sequence previous + 1 then False
      else if hash_answer_event sha previous = None \<or>
              ev_previous_hash current \<noteq> the (hash_answer_event sha previous) then False
      else chain_ok sha (current # rest))"
| "chain_ok sha _ = True"

fun finalize_last :: "answer_event list \<Rightarrow> bool" where
  "finalize_last (e # e' # rest) = (if ev_kind e = FinalizeSession then False else finalize_last (e' # rest))"
| "finalize_last _ = True"

text \<open>The checks of one session with pending events, which may complete a legacy watermark.\<close>

definition check_session :: "(bytes \<Rightarrow> bytes option) \<Rightarrow> u16 \<Rightarrow> answer_event list \<Rightarrow> watermark \<Rightarrow> watermark option" where
  "check_session sha version pending saved =
     (let pending_finalized = list_ex (\<lambda>e. ev_kind e = FinalizeSession) pending in
      if \<not> finalize_last pending then None
      else
        let has_marker = version \<ge> kOutboxFinalizationVersion;
            has_boundary = version \<ge> kOutboxAcknowledgementVersion in
        if has_marker \<and> pending_finalized \<and> \<not> wm_finalized saved then None
        else if has_marker \<and> wm_finalized saved \<and> \<not> pending_finalized \<and> pending \<noteq> [] then None
        else
          let saved = (if has_marker then saved else saved\<lparr>wm_finalized := pending_finalized\<rparr>);
              front = hd pending;
              saved = (if has_boundary then saved
                       else if ev_sequence front = 1
                       then saved\<lparr>wm_acked := 0, wm_acked_hash := replicate 32 0\<rparr>
                       else saved\<lparr>wm_acked := ev_sequence front - 1, wm_acked_hash := ev_previous_hash front\<rparr>) in
          if \<not> valid_watermark saved then None
          else if wm_acked saved = -1 \<or> wm_acked saved + 1 \<noteq> ev_sequence front then None
          else if wm_acked saved = 0 \<and> \<not> all_zero (ev_previous_hash front) then None
          else if wm_acked saved \<noteq> 0 \<and> ev_previous_hash front \<noteq> wm_acked_hash saved then None
          else if \<not> chain_ok sha pending then None
          else if hash_answer_event sha (last pending) = None \<or>
                  ev_sequence (last pending) \<noteq> wm_highest saved \<or>
                  wm_last_hash saved \<noteq> the (hash_answer_event sha (last pending)) then None
          else Some saved)"

fun check_sessions ::
  "(bytes \<Rightarrow> bytes option) \<Rightarrow> u16 \<Rightarrow> answer_event list \<Rightarrow> bytes list \<Rightarrow> watermarks \<Rightarrow> watermarks option" where
  "check_sessions sha version evs [] wms = Some wms"
| "check_sessions sha version evs (k # ks) wms =
     (case map_of wms k of
        None \<Rightarrow> None
      | Some saved \<Rightarrow>
          (case check_session sha version (sort_key ev_sequence (events_of k evs)) saved of
             None \<Rightarrow> None
           | Some saved' \<Rightarrow> check_sessions sha version evs ks (omap_insert k saved' wms)))"

text \<open>The watermarks of sessions without pending events.\<close>

definition settle_watermark :: "u16 \<Rightarrow> answer_event list \<Rightarrow> bytes \<Rightarrow> watermark \<Rightarrow> watermark option" where
  "settle_watermark version evs k w =
     (if events_of k evs = [] \<and> (wm_acked w \<noteq> wm_highest w \<or> wm_acked_hash w \<noteq> wm_last_hash w)
      then if \<not> version \<ge> kOutboxAcknowledgementVersion
           then Some (w\<lparr>wm_acked := wm_highest w, wm_acked_hash := wm_last_hash w\<rparr>) else None
      else Some w)"

fun settle_watermarks :: "u16 \<Rightarrow> answer_event list \<Rightarrow> watermarks \<Rightarrow> watermarks option" where
  "settle_watermarks version evs [] = Some []"
| "settle_watermarks version evs ((k, w) # wms) =
     (case settle_watermark version evs k w of
        None \<Rightarrow> None
      | Some w' \<Rightarrow> map_option (\<lambda>r. (k, w') # r) (settle_watermarks version evs wms))"

definition parse_outbox ::
  "(bytes \<Rightarrow> bytes option) \<Rightarrow> bytes \<Rightarrow> (u16 \<times> answer_event list \<times> watermarks) option" where
  "parse_outbox sha w = do {
     (magic, w) \<leftarrow> read_le w;
     if magic \<noteq> kOutboxMagic then None else do {
     (version, w) \<leftarrow> read_le w;
     if version < kOutboxLegacyVersion \<or> version > kOutboxVersion then None else do {
     (reserved :: u16, w) \<leftarrow> (if version \<ge> kOutboxWatermarkVersion then read_le w else Some (0, w));
     if reserved \<noteq> 0 then None else do {
     (count :: u32, w) \<leftarrow> read_le w;
     if unat count > kMaximumOutboxEvents then None else do {
     (watermark_count :: u32, w) \<leftarrow> (if version \<ge> kOutboxWatermarkVersion then read_le w else Some (0, w));
     if unat watermark_count > kMaximumOutboxWatermarks then None else do {
     (wms, w) \<leftarrow> read_watermarks version (unat watermark_count) [] w;
     (evs, wms, w) \<leftarrow> read_events sha version (unat count) [] wms w;
     wms \<leftarrow> check_sessions sha version evs (sort (remdups (map event_key evs))) wms;
     wms \<leftarrow> settle_watermarks version evs wms;
     if w \<noteq> [] then None else Some (version, evs, wms)
   }}}}}}"

definition closed_outbox :: "bytes option \<Rightarrow> outbox" where
  "closed_outbox file = \<lparr>ob_open = False, ob_events = [], ob_watermarks = [], ob_file = file\<rparr>"

text \<open>
  \<open>open\<close>. \<open>io_ok\<close>: directory, lease, status query and read succeed; \<open>write_ok\<close>: a replacement of the
  file succeeds. A new file is written when there is none; a plaintext or older file is
  rewritten, encrypted and in the current version, before the outbox is usable.
\<close>

definition outbox_open ::
  "(bytes \<Rightarrow> bytes option) \<Rightarrow> (bytes \<Rightarrow> bytes option) \<Rightarrow> (bytes \<Rightarrow> bytes option) \<Rightarrow> bool \<Rightarrow> bool \<Rightarrow>
   bytes option \<Rightarrow> bool \<times> outbox" where
  "outbox_open sha protect unprotect io_ok write_ok file =
     (if \<not> io_ok then (False, closed_outbox file)
      else
        let (created, ob) = (case file of
              Some _ \<Rightarrow> (True, closed_outbox file)
            | None \<Rightarrow> commit protect write_ok [] [] (closed_outbox None)) in
        case ob_file ob of
          None \<Rightarrow> (False, ob)
        | Some stored \<Rightarrow>
            if \<not> created \<or> length stored > kMaximumStoredOutboxBytes then (False, closed_outbox (Some stored))
            else
              let encrypted = (case read_le stored of None \<Rightarrow> False
                                 | Some (magic, _) \<Rightarrow> magic = kEncryptedOutboxMagic);
                  plain = (if encrypted then unprotect_outbox_wire unprotect stored else Some stored) in
              case plain of
                None \<Rightarrow> (False, closed_outbox (Some stored))
              | Some bytes \<Rightarrow>
                  if encrypted \<and> bytes = [] then (False, closed_outbox (Some stored))
                  else (case parse_outbox sha bytes of
                    None \<Rightarrow> (False, closed_outbox (Some stored))
                  | Some (version, evs, wms) \<Rightarrow>
                      let loaded = \<lparr>ob_open = True, ob_events = evs, ob_watermarks = wms, ob_file = Some stored\<rparr> in
                      if encrypted \<and> version = kOutboxVersion then (True, loaded)
                      else let (written, migrated) = commit protect write_ok evs wms loaded
                           in if written then (True, migrated) else (False, closed_outbox (Some stored))))"

definition outbox_close :: "outbox \<Rightarrow> outbox" where
  "outbox_close ob = ob\<lparr>ob_open := False\<rparr>"

section \<open>Enqueueing\<close>

fun first_index :: "('a \<Rightarrow> bool) \<Rightarrow> 'a list \<Rightarrow> nat option" where
  "first_index P [] = None"
| "first_index P (x # xs) = (if P x then Some 0 else map_option Suc (first_index P xs))"

text \<open>The indices of the pending events of a session, in the order of their sequence numbers.\<close>

definition session_indices :: "bytes \<Rightarrow> answer_event list \<Rightarrow> nat list" where
  "session_indices key evs =
     sort_key (\<lambda>i. ev_sequence (evs ! i)) (filter (\<lambda>i. event_key (evs ! i) = key) [0..<length evs])"

text \<open>
  The rebase loop: every later pending event is given the hash of its predecessor. \<open>p\<close> is the
  index of the predecessor, \<open>h\<close> its hash; the result is the events and the last hash.
\<close>

fun rebase_loop ::
  "(bytes \<Rightarrow> bytes option) \<Rightarrow> nat \<Rightarrow> nat list \<Rightarrow> answer_event list \<Rightarrow> bytes \<Rightarrow> (answer_event list \<times> bytes) option" where
  "rebase_loop sha p [] evs h = Some (evs, h)"
| "rebase_loop sha p (i # is) evs h =
     (let previous = evs ! p; current = evs ! i in
      if ev_sequence previous = -1 \<or> ev_sequence current \<noteq> ev_sequence previous + 1 then None
      else let current = current\<lparr>ev_previous_hash := h\<rparr> in
           case hash_answer_event sha current of
             None \<Rightarrow> None
           | Some h' \<Rightarrow> rebase_loop sha i is (evs[i := current]) h')"

definition rebase ::
  "(bytes \<Rightarrow> bytes option) \<Rightarrow> (bytes \<Rightarrow> bytes option) \<Rightarrow> bool \<Rightarrow> answer_event \<Rightarrow> nat \<Rightarrow> watermark \<Rightarrow> outbox \<Rightarrow> bool \<times> outbox" where
  "rebase sha protect write_ok e index wm ob =
     (let indices = session_indices (event_key e) (ob_events ob) in
      case first_index (\<lambda>i. i = index) indices of
        None \<Rightarrow> (False, ob)
      | Some target_offset \<Rightarrow>
          let predecessor_ok =
                (if target_offset = 0
                 then \<not> (wm_acked wm = -1 \<or> ev_sequence e \<noteq> wm_acked wm + 1 \<or>
                         (if ev_sequence e = 1 then \<not> all_zero (ev_previous_hash e)
                          else all_zero (ev_previous_hash e)))
                 else hash_answer_event sha (ob_events ob ! (indices ! (target_offset - 1)))
                        = Some (ev_previous_hash e)) in
          if \<not> predecessor_ok then (False, ob)
          else
            let wm = (if target_offset = 0 then wm\<lparr>wm_acked_hash := ev_previous_hash e\<rparr> else wm);
                evs = (ob_events ob)[index := e] in
            case hash_answer_event sha e of
              None \<Rightarrow> (False, ob)
            | Some h \<Rightarrow>
                (case rebase_loop sha index (drop (Suc target_offset) indices) evs h of
                   None \<Rightarrow> (False, ob)
                 | Some (evs, h) \<Rightarrow>
                     commit protect write_ok evs
                       (omap_insert (event_key e) (wm\<lparr>wm_last_hash := h\<rparr>) (ob_watermarks ob)) ob))"

definition enqueue ::
  "(bytes \<Rightarrow> bytes option) \<Rightarrow> (bytes \<Rightarrow> bytes option) \<Rightarrow> bool \<Rightarrow> answer_event \<Rightarrow> outbox \<Rightarrow> bool \<times> outbox" where
  "enqueue sha protect write_ok e ob =
     (if \<not> ob_open ob \<or> \<not> validate_answer_event e then (False, ob)
      else case hash_answer_event sha e of
        None \<Rightarrow> (False, ob)
      | Some h \<Rightarrow>
          let key = event_key e; watermark = map_of (ob_watermarks ob) key in
          case first_index (\<lambda>x. event_key x = key \<and> ev_sequence x = ev_sequence e) (ob_events ob) of
            Some index \<Rightarrow>
              let existing = ob_events ob ! index in
              if hash_answer_event sha existing = Some h then (True, ob)
              else (case watermark of
                      None \<Rightarrow> (False, ob)
                    | Some wm \<Rightarrow>
                        if \<not> same_event_body_except_predecessor existing e then (False, ob)
                        else if wm_finalized wm \<or> ev_sequence e \<le> wm_acked wm then (False, ob)
                        else rebase sha protect write_ok e index wm ob)
          | None \<Rightarrow>
              let admitted = (case watermark of
                    Some saved \<Rightarrow>
                      if \<not> same_watermark_context saved e then Inl False
                      else if wm_finalized saved
                      then Inl (ev_sequence e = wm_highest saved \<and> h = wm_last_hash saved)
                      else if ev_sequence e \<le> wm_highest saved
                      then Inl (ev_sequence e = wm_highest saved \<and> h = wm_last_hash saved)
                      else if wm_highest saved = -1 \<or> ev_sequence e \<noteq> wm_highest saved + 1 then Inl False
                      else if ev_previous_hash e \<noteq> wm_last_hash saved then Inl False
                      else Inr (saved\<lparr>wm_highest := ev_sequence e, wm_last_hash := h,
                                      wm_finalized := (if ev_kind e = FinalizeSession then True
                                                       else wm_finalized saved)\<rparr>)
                  | None \<Rightarrow>
                      if ev_sequence e \<noteq> 1 \<or> \<not> all_zero (ev_previous_hash e) then Inl False
                      else Inr (watermark_for e h (ev_sequence e))) in
              (case admitted of
                 Inl answer \<Rightarrow> (answer, ob)
               | Inr wm \<Rightarrow>
                   if length (ob_events ob) \<ge> kMaximumOutboxEvents then (False, ob)
                   else commit protect write_ok (ob_events ob @ [e])
                          (omap_insert key wm (ob_watermarks ob)) ob))"

section \<open>Pending events and acknowledgement\<close>

definition pending :: "nat \<Rightarrow> outbox \<Rightarrow> answer_event list" where
  "pending maximum ob =
     (if maximum = 0 \<or> \<not> ob_open ob then []
      else take maximum (sort_key event_key (sort_key ev_sequence (ob_events ob))))"

definition pending_for_client :: "bytes \<Rightarrow> nat \<Rightarrow> outbox \<Rightarrow> answer_event list" where
  "pending_for_client client_id maximum ob =
     (if maximum = 0 \<or> all_zero client_id \<or> \<not> ob_open ob then []
      else take maximum (sort_key event_key (sort_key ev_sequence
             (filter (\<lambda>e. ev_client_id e = client_id) (ob_events ob)))))"

text \<open>The sessions an acknowledgement may mean, and those it names by an exact hash.\<close>

definition matching_keys :: "bytes \<Rightarrow> outbox \<Rightarrow> bytes list" where
  "matching_keys session_id ob =
     remdups (map event_key (filter (\<lambda>e. ev_session_id e = session_id) (ob_events ob)) @
              map fst (filter (\<lambda>(k, w). wm_session_id w = session_id) (ob_watermarks ob)))"

definition exact_keys :: "(bytes \<Rightarrow> bytes option) \<Rightarrow> bytes \<Rightarrow> u64 \<Rightarrow> bytes \<Rightarrow> outbox \<Rightarrow> bytes list" where
  "exact_keys sha session_id sequence h ob =
     remdups (map event_key (filter (\<lambda>e. ev_session_id e = session_id \<and> ev_sequence e = sequence \<and>
                hash_answer_event sha e = Some h) (ob_events ob)) @
              map fst (filter (\<lambda>(k, w). wm_session_id w = session_id \<and>
                ((sequence = wm_acked w \<and> h = wm_acked_hash w) \<or>
                 (sequence = wm_highest w \<and> h = wm_last_hash w))) (ob_watermarks ob)))"

definition acknowledge_key ::
  "(bytes \<Rightarrow> bytes option) \<Rightarrow> (bytes \<Rightarrow> bytes option) \<Rightarrow> bool \<Rightarrow> bytes \<Rightarrow> u64 \<Rightarrow> bytes \<Rightarrow> outbox \<Rightarrow> bool \<times> outbox" where
  "acknowledge_key sha protect write_ok key sequence h ob =
     (case first_index (\<lambda>e. event_key e = key \<and> ev_sequence e = sequence) (ob_events ob) of
        None \<Rightarrow>
          (case map_of (ob_watermarks ob) key of
             None \<Rightarrow> (False, ob)
           | Some saved \<Rightarrow>
               if sequence > wm_highest saved then (False, ob)
               else if sequence = wm_acked saved then (h = wm_acked_hash saved, ob)
               else if sequence < wm_acked saved \<or> sequence \<noteq> wm_highest saved then (False, ob)
               else if h \<noteq> wm_last_hash saved then (False, ob)
               else if sequence > wm_acked saved
               then commit protect write_ok (ob_events ob)
                      (omap_insert key (saved\<lparr>wm_acked := sequence, wm_acked_hash := wm_last_hash saved\<rparr>)
                        (ob_watermarks ob)) ob
               else (True, ob))
      | Some index \<Rightarrow>
          let target = ob_events ob ! index in
          if hash_answer_event sha target \<noteq> Some h then (False, ob)
          else (case map_of (ob_watermarks ob) key of
             None \<Rightarrow> (False, ob)
           | Some saved \<Rightarrow>
               if sequence > wm_highest saved then (False, ob)
               else if sequence \<le> wm_acked saved then (False, ob)
               else commit protect write_ok
                      (filter (\<lambda>e. \<not> (event_key e = key \<and> ev_sequence e \<le> sequence)) (ob_events ob))
                      (omap_insert key (saved\<lparr>wm_acked := sequence, wm_acked_hash := h\<rparr>)
                        (ob_watermarks ob)) ob))"

definition acknowledge ::
  "(bytes \<Rightarrow> bytes option) \<Rightarrow> (bytes \<Rightarrow> bytes option) \<Rightarrow> bool \<Rightarrow> bytes \<Rightarrow> u64 \<Rightarrow> bytes \<Rightarrow> outbox \<Rightarrow> bool \<times> outbox" where
  "acknowledge sha protect write_ok session_id sequence h ob =
     (if \<not> ob_open ob \<or> length h \<noteq> 32 \<or> sequence = 0 then (False, ob)
      else
        let matching = matching_keys session_id ob; exact = exact_keys sha session_id sequence h ob in
        if matching = [] then (False, ob)
        else if length exact > 1 then (False, ob)
        else if length exact = 1 then acknowledge_key sha protect write_ok (hd exact) sequence h ob
        else if length matching = 1 then acknowledge_key sha protect write_ok (hd matching) sequence h ob
        else (False, ob))"

definition outbox_size :: "outbox \<Rightarrow> nat" where
  "outbox_size ob = length (ob_events ob)"

section \<open>Hash chains\<close>

text \<open>
  \<open>chained sha a h fs b g\<close>: from the boundary with sequence \<open>a\<close> and hash \<open>h\<close>, the events \<open>fs\<close> lead
  to the boundary \<open>b\<close>, \<open>g\<close>, each being the successor of the one before.
\<close>

fun chained :: "(bytes \<Rightarrow> bytes option) \<Rightarrow> u64 \<Rightarrow> bytes \<Rightarrow> answer_event list \<Rightarrow> u64 \<Rightarrow> bytes \<Rightarrow> bool" where
  "chained sha a h [] b g \<longleftrightarrow> a = b \<and> h = g"
| "chained sha a h (e # es) b g \<longleftrightarrow> a \<noteq> -1 \<and> ev_sequence e = a + 1 \<and> ev_previous_hash e = h \<and>
     (\<exists>h'. hash_answer_event sha e = Some h' \<and> chained sha (a + 1) h' es b g)"

lemma chained_append:
  "chained sha a h (xs @ ys) b g \<longleftrightarrow> (\<exists>c k. chained sha a h xs c k \<and> chained sha c k ys b g)"
  by (induction xs arbitrary: a h) auto

lemma chained_seqs:
  "chained sha a h fs b g \<Longrightarrow> map (\<lambda>e. unat (ev_sequence e)) fs = [Suc (unat a)..<Suc (unat b)] \<and> unat a \<le> unat b"
proof (induction fs arbitrary: a h)
  case (Cons e es)
  have u: "unat (a + 1) = Suc (unat a)" using Cons.prems unat_plus_one [of a] by simp
  obtain h' where "chained sha (a + 1) h' es b g" using Cons.prems by auto
  from Cons.IH [OF this] show ?case using Cons.prems u by (simp add: upt_conv_Cons)
qed simp

lemma chained_bounds:
  assumes "chained sha a h fs b g"
  shows "unat b = unat a + length fs" "i < length fs \<Longrightarrow> unat (ev_sequence (fs ! i)) = unat a + Suc i"
    "e \<in> set fs \<Longrightarrow> a < ev_sequence e \<and> ev_sequence e \<le> b" "sorted (map ev_sequence fs)"
    "distinct (map ev_sequence fs)"
proof -
  note seqs = chained_seqs [OF assms]
  show len: "unat b = unat a + length fs"
    using arg_cong [OF conjunct1 [OF seqs], of length] conjunct2 [OF seqs] by simp
  show nth: "unat (ev_sequence (fs ! i)) = unat a + Suc i" if "i < length fs" for i
  proof -
    have "unat (ev_sequence (fs ! i)) = map (\<lambda>e. unat (ev_sequence e)) fs ! i" using that by simp
    also have "\<dots> = [Suc (unat a)..<Suc (unat b)] ! i" using seqs by simp
    also have "\<dots> = unat a + Suc i" using that len by (simp del: upt_Suc)
    finally show ?thesis .
  qed
  show "a < ev_sequence e \<and> ev_sequence e \<le> b" if "e \<in> set fs"
  proof -
    have "unat (ev_sequence e) \<in> set [Suc (unat a)..<Suc (unat b)]"
      using that seqs by (metis (no_types, lifting) image_eqI list.set_map)
    then show ?thesis by (auto simp: word_less_nat_alt word_le_nat_alt)
  qed
  have "sorted_wrt (<) (map ev_sequence fs)"
    using nth by (auto simp: sorted_wrt_iff_nth_less word_less_nat_alt)
  then show "sorted (map ev_sequence fs)" "distinct (map ev_sequence fs)"
    by (simp_all add: strict_sorted_iff)
qed

section \<open>The invariant\<close>

definition watermark_wf :: "watermark \<Rightarrow> bool" where
  "watermark_wf w \<longleftrightarrow> length (wm_package_digest w) = 32 \<and> length (wm_client_id w) = 16 \<and>
     length (wm_session_id w) = 16 \<and> length (wm_last_hash w) = 32 \<and> length (wm_acked_hash w) = 32 \<and>
     valid_text (wm_package_id w) 128 False \<and> valid_text (wm_candidate_id w) 128 False"

text \<open>
  One session: its pending events are the chain from the acknowledged boundary to the watermark;
  a finalizing event is the last one, and is recorded as long as it is pending.
\<close>

definition session_inv :: "(bytes \<Rightarrow> bytes option) \<Rightarrow> answer_event list \<Rightarrow> watermark \<Rightarrow> bool" where
  "session_inv sha fs w \<longleftrightarrow>
     chained sha (wm_acked w) (wm_acked_hash w) fs (wm_highest w) (wm_last_hash w) \<and>
     (wm_acked w = 0 \<longrightarrow> wm_acked_hash w = replicate 32 0) \<and>
     finalize_last fs \<and> (fs \<noteq> [] \<longrightarrow> wm_finalized w = list_ex (\<lambda>e. ev_kind e = FinalizeSession) fs)"

lemma session_inv_chained:
  "session_inv sha fs w \<Longrightarrow> chained sha (wm_acked w) (wm_acked_hash w) fs (wm_highest w) (wm_last_hash w)"
  by (simp add: session_inv_def)

definition store_inv :: "(bytes \<Rightarrow> bytes option) \<Rightarrow> answer_event list \<Rightarrow> watermarks \<Rightarrow> bool" where
  "store_inv sha evs wms \<longleftrightarrow> omap wms \<and> list_all event_ok evs \<and>
     (\<forall>k w. map_of wms k = Some w \<longrightarrow> watermark_wf w \<and> k = watermark_key w \<and> session_inv sha (events_of k evs) w) \<and>
     (\<forall>e \<in> set evs. \<exists>w. map_of wms (event_key e) = Some w \<and> same_watermark_context w e)"

lemma store_invD:
  assumes "store_inv sha evs wms"
  shows "omap wms" "e \<in> set evs \<Longrightarrow> event_ok e"
    "map_of wms k = Some w \<Longrightarrow> watermark_wf w" "map_of wms k = Some w \<Longrightarrow> k = watermark_key w"
    "map_of wms k = Some w \<Longrightarrow> session_inv sha (events_of k evs) w"
    "e \<in> set evs \<Longrightarrow> \<exists>w. map_of wms (event_key e) = Some w \<and> same_watermark_context w e"
    "map_of wms k = None \<Longrightarrow> events_of k evs = []"
proof -
  show ctx: "e \<in> set evs \<Longrightarrow> \<exists>w. map_of wms (event_key e) = Some w \<and> same_watermark_context w e" for e
    using assms by (simp add: store_inv_def)
  show "map_of wms k = None \<Longrightarrow> events_of k evs = []"
    using ctx by (fastforce simp: events_of_def filter_empty_conv)
qed (use assms in \<open>auto simp: store_inv_def list_all_iff\<close>)

lemma store_inv_distinct:
  assumes "store_inv sha evs wms"
  shows "distinct (map (\<lambda>e. (event_key e, ev_sequence e)) evs)"
proof -
  have "distinct (map ev_sequence (events_of k evs))" for k
  proof (cases "map_of wms k")
    case None
    then show ?thesis using store_invD(7) [OF assms] by simp
  next
    case (Some w)
    then show ?thesis using chained_bounds(5) [OF session_inv_chained] store_invD(5) [OF assms] by blast
  qed
  then show ?thesis
  proof (induction evs)
    case (Cons e es)
    have "distinct (map ev_sequence (events_of k es))" for k
      using Cons.prems [of k] by (simp add: events_of_def split: if_splits)
    moreover have "ev_sequence e \<notin> ev_sequence ` set (events_of (event_key e) es)"
      using Cons.prems [of "event_key e"] by (simp add: events_of_def)
    ultimately show ?case using Cons.IH by (auto simp: events_of_def)
  qed simp
qed

section \<open>The serialized form is read back\<close>

lemmas outbox_consts = kMaximumOutboxEvents_def kMaximumOutboxBytes_def kMaximumOutboxWatermarks_def
  kMaximumStoredOutboxBytes_def
lemmas outbox_versions = kOutboxMagic_def kEncryptedOutboxMagic_def kOutboxVersion_def kOutboxWatermarkVersion_def
  kOutboxAcknowledgementVersion_def kOutboxFinalizationVersion_def kOutboxLegacyVersion_def

lemma read_bounded_write:
  assumes "valid_text v 128 False"
  shows "append_bounded_string v 128 = Some (append_le (len16 v) @ v)"
    "read_bounded_string 128 (append_le (len16 v) @ v @ rest) = Some (v, rest)"
proof -
  have len: "length v \<le> 128" "v \<noteq> []" "0 \<notin> set v"
    using assms by (auto simp: valid_text_def list_all_iff split: if_splits)
  then have u: "unat (len16 v) = length v" by (simp add: unat_len16)
  then have "len16 v \<noteq> 0" using len by (metis length_0_conv unsigned_0)
  then show "read_bounded_string 128 (append_le (len16 v) @ v @ rest) = Some (v, rest)"
    using len u by (simp add: read_bounded_string_def)
  show "append_bounded_string v 128 = Some (append_le (len16 v) @ v)"
    using len by (simp add: append_bounded_string_def)
qed

lemma read_watermark_encode:
  assumes "watermark_wf w" and "encode_watermark w = Some b"
  shows "read_watermark kOutboxVersion (b @ rest) = Some (w, rest)" "valid_watermark w"
proof -
  show v: "valid_watermark w" using assms(2) by (auto simp: encode_watermark_def split: if_splits)
  have t: "valid_text (wm_package_id w) 128 False" "valid_text (wm_candidate_id w) 128 False"
    using assms(1) by (simp_all add: watermark_wf_def)
  have b: "b = append_le (len16 (wm_package_id w)) @ wm_package_id w @ append_le (len16 (wm_candidate_id w)) @
      wm_candidate_id w @ wm_package_digest w @ wm_client_id w @ wm_session_id w @ append_le (wm_highest w) @
      wm_last_hash w @ append_le (wm_acked w) @ wm_acked_hash w @ append_le (if wm_finalized w then 1 else 0 :: u8)"
    using assms(2) v t by (simp add: encode_watermark_def read_bounded_write sync_limits)
  show "read_watermark kOutboxVersion (b @ rest) = Some (w, rest)"
    using assms(1) v [unfolded valid_watermark_def]
    by (simp add: valid_watermark_def b read_watermark_def read_bounded_write [OF t(1)] read_bounded_write [OF t(2)] sync_limits
        watermark_wf_def outbox_versions Let_def)
qed

lemma omap_insert_end: "\<forall>x \<in> set xs. fst x < k \<Longrightarrow> omap_insert k v xs = xs @ [(k, v)]"
proof (induction xs)
  case (Cons x xs)
  then show ?case by (cases x) auto
qed simp

lemma omap_append_lt: "omap (xs @ (k, v) # ys) \<Longrightarrow> \<forall>x \<in> set xs. fst x < k"
  by (auto simp: omap_def sorted_wrt_append)

lemma read_watermarks_encode:
  "omap (acc @ wms) \<Longrightarrow> \<forall>(k, w) \<in> set wms. watermark_wf w \<and> k = watermark_key w \<Longrightarrow> encode_watermarks wms = Some b \<Longrightarrow>
   read_watermarks kOutboxVersion (length wms) acc (b @ rest) = Some (acc @ wms, rest) \<and>
     (\<forall>(k, w) \<in> set wms. valid_watermark w)"
proof (induction wms arbitrary: acc b)
  case (Cons kw wms)
  obtain k w where kw: "kw = (k, w)" by (cases kw)
  obtain b1 b2 where b: "encode_watermark w = Some b1" "encode_watermarks wms = Some b2" "b = b1 @ b2"
    using Cons.prems(3) by (auto simp: kw bind_eq_Some_conv)
  have wf: "watermark_wf w" "k = watermark_key w" using Cons.prems(2) by (auto simp: kw)
  have lt: "\<forall>x \<in> set acc. fst x < k" using omap_append_lt Cons.prems(1) by (simp add: kw)
  then have "map_of acc k = None" by (force simp: map_of_eq_None_iff)
  then have "read_watermarks kOutboxVersion (length (kw # wms)) acc (b @ rest) =
      read_watermarks kOutboxVersion (length wms) (acc @ [(k, w)]) (b2 @ rest)"
    using read_watermark_encode [OF wf(1) b(1)] wf(2) omap_insert_end [OF lt, of w] by (simp add: b(3))
  then show ?case
    using Cons.IH [of "acc @ [(k, w)]" b2] Cons.prems b(2) read_watermark_encode(2) [OF wf(1) b(1)] by (simp add: kw)
qed simp

lemma read_events_encode:
  assumes "store_inv sha all wms"
  shows "\<exists>pre. all = pre @ acc @ evs \<Longrightarrow> distinct (map (\<lambda>e. (event_key e, ev_sequence e)) (acc @ evs)) \<Longrightarrow>
    encode_events evs = Some b \<Longrightarrow>
    read_events sha kOutboxVersion (length evs) acc wms (b @ rest) = Some (acc @ evs, wms, rest)"
proof (induction evs arbitrary: acc b)
  case (Cons e evs)
  let ?p = "encode_answer_event e"
  have e: "e \<in> set all" using Cons.prems(1) by auto
  have ok: "event_ok e" using store_invD(2) [OF assms] e by blast
  obtain w where w: "map_of wms (event_key e) = Some w" "same_watermark_context w e"
    using store_invD(6) [OF assms e] by blast
  note ch = session_inv_chained [OF store_invD(5) [OF assms w(1)]]
  have "e \<in> set (events_of (event_key e) all)" using e by (simp add: events_of_def)
  then have le: "ev_sequence e \<le> wm_highest w" and hash: "\<exists>h. hash_answer_event sha e = Some h"
  proof -
    show "ev_sequence e \<le> wm_highest w"
      using chained_bounds(3) [OF ch \<open>e \<in> set (events_of (event_key e) all)\<close>] by simp
    obtain xs ys where "events_of (event_key e) all = xs @ e # ys"
      using \<open>e \<in> set (events_of (event_key e) all)\<close> by (meson split_list)
    then show "\<exists>h. hash_answer_event sha e = Some h" using ch by (auto simp: chained_append)
  qed
  obtain b2 where b: "encode_events evs = Some b2" "b = append_le (len32 ?p) @ ?p @ b2"
    using Cons.prems(3) by (auto simp: Let_def split: if_splits)
  have n: "unat (len32 ?p) = length ?p" using event_wire_length [OF ok] by (simp add: unat_len32)
  then have n0: "len32 ?p \<noteq> 0" using event_wire_length(1) [OF ok] by (metis not_numeral_le_zero unsigned_0)
  have fresh: "\<not> list_ex (\<lambda>x. event_key x = event_key e \<and> ev_sequence x = ev_sequence e) acc"
  proof -
    have "(event_key e, ev_sequence e) \<noteq> (event_key x, ev_sequence x)" if "x \<in> set acc" for x
      using Cons.prems(2) that by auto
    then show ?thesis unfolding list_ex_iff by (metis (no_types))
  qed
  have same: "omap_insert (event_key e) w wms = wms"
    by (rule omap_insert_same [OF store_invD(1) [OF assms] w(1)])
  have "read_events sha kOutboxVersion (length (e # evs)) acc wms (b @ rest) =
      read_events sha kOutboxVersion (length evs) (acc @ [e]) wms (b2 @ rest)"
    using hash n n0 fresh w le same event_enc [OF ok] event_wire_length(2) [OF ok]
    by (auto simp: b(2) sync_limits outbox_versions not_less)
  then show ?case using Cons.IH [of "acc @ [e]" b2] Cons.prems(1,2) b(1) by simp
qed simp

lemma chain_ok_chained: "chained sha a h fs b g \<Longrightarrow> chain_ok sha fs"
proof (induction fs arbitrary: a h rule: list.induct)
  case (Cons e es)
  then show ?case by (cases es) auto
qed simp

lemma chained_last:
  "chained sha a h fs b g \<Longrightarrow> fs \<noteq> [] \<Longrightarrow> hash_answer_event sha (last fs) = Some g \<and> ev_sequence (last fs) = b"
  by (induction fs arbitrary: a h rule: list.induct) (auto split: if_splits)

lemma chained_hd:
  "chained sha a h fs b g \<Longrightarrow> fs \<noteq> [] \<Longrightarrow> a \<noteq> -1 \<and> ev_sequence (hd fs) = a + 1 \<and> ev_previous_hash (hd fs) = h"
  by (cases fs) auto

lemma check_session_ok:
  assumes "session_inv sha fs w" and "valid_watermark w" and "fs \<noteq> []"
  shows "check_session sha kOutboxVersion (sort_key ev_sequence fs) w = Some w"
proof -
  note ch = session_inv_chained [OF assms(1)]
  have "sort_key ev_sequence fs = fs" using chained_bounds(4) [OF ch] by (rule sort_key_id_if_sorted)
  then show ?thesis
    using assms chain_ok_chained [OF ch] chained_last [OF ch assms(3)] chained_hd [OF ch assms(3)]
    by (auto simp: check_session_def outbox_versions session_inv_def Let_def)
qed

lemma check_sessions_ok:
  assumes "store_inv sha evs wms" and "\<forall>(k, w) \<in> set wms. valid_watermark w"
  shows "\<forall>k \<in> set ks. events_of k evs \<noteq> [] \<Longrightarrow> check_sessions sha kOutboxVersion evs ks wms = Some wms"
proof (induction ks)
  case (Cons k ks)
  then have ne: "events_of k evs \<noteq> []" by simp
  obtain w where w: "map_of wms k = Some w" using store_invD(7) [OF assms(1)] ne by fastforce
  have "valid_watermark w" using assms(2) map_of_SomeD [OF w] by auto
  then have "check_session sha kOutboxVersion (sort_key ev_sequence (events_of k evs)) w = Some w"
    using check_session_ok [OF store_invD(5) [OF assms(1) w]] ne by simp
  then show ?case
    using Cons w omap_insert_same [OF store_invD(1) [OF assms(1)] w] by simp
qed simp

lemma settle_watermarks_ok:
  assumes "store_inv sha evs all"
  shows "\<forall>(k, w) \<in> set wms. map_of all k = Some w \<Longrightarrow> settle_watermarks version evs wms = Some wms"
proof (induction wms)
  case (Cons kw wms)
  obtain k w where kw: "kw = (k, w)" by (cases kw)
  then have "chained sha (wm_acked w) (wm_acked_hash w) (events_of k evs) (wm_highest w) (wm_last_hash w)"
    using session_inv_chained [OF store_invD(5) [OF assms]] Cons.prems by auto
  then have "settle_watermark version evs k w = Some w" by (auto simp: settle_watermark_def)
  then show ?case using Cons by (simp add: kw)
qed simp

lemma encode_outbox_parts:
  assumes "encode_outbox evs wms \<noteq> []"
  obtains ws es where "encode_watermarks wms = Some ws" "encode_events evs = Some es"
    "length evs \<le> 512" "length wms \<le> 4096" "length (encode_outbox evs wms) \<le> kMaximumOutboxBytes"
    "encode_outbox evs wms = append_le kOutboxMagic @ append_le kOutboxVersion @ append_le (0 :: u16) @
       append_le (word_of_nat (length evs) :: u32) @ append_le (word_of_nat (length wms) :: u32) @ ws @ es"
  using assms by (auto simp: encode_outbox_def Let_def outbox_consts split: if_splits option.splits)

lemma parse_encode:
  assumes "store_inv sha evs wms" and "encode_outbox evs wms \<noteq> []"
  shows "parse_outbox sha (encode_outbox evs wms) = Some (kOutboxVersion, evs, wms)"
proof -
  obtain ws es where enc: "encode_watermarks wms = Some ws" "encode_events evs = Some es"
      "length evs \<le> 512" "length wms \<le> 4096"
      "encode_outbox evs wms = append_le kOutboxMagic @ append_le kOutboxVersion @ append_le (0 :: u16) @
       append_le (word_of_nat (length evs) :: u32) @ append_le (word_of_nat (length wms) :: u32) @ ws @ es"
    using encode_outbox_parts [OF assms(2)] by metis
  have om: "omap wms" by (rule store_invD(1) [OF assms(1)])
  have entry: "map_of wms k = Some w" if "(k, w) \<in> set wms" for k w
    using that omap_distinct [OF om] by simp
  have u: "unat (word_of_nat (length evs) :: u32) = length evs" "unat (word_of_nat (length wms) :: u32) = length wms"
    using enc(3,4) by (simp_all add: unat_of_nat)
  have wf: "\<forall>(k, w) \<in> set wms. watermark_wf w \<and> k = watermark_key w"
    using entry store_invD(3,4) [OF assms(1)] by blast
  have w: "read_watermarks kOutboxVersion (length wms) [] (ws @ es) = Some (wms, es)"
      "\<forall>(k, w) \<in> set wms. valid_watermark w"
    using read_watermarks_encode [of "[]" wms ws es] om wf enc(1) by simp_all
  have e: "read_events sha kOutboxVersion (length evs) [] wms es = Some (evs, wms, [])"
    using read_events_encode [OF assms(1), of "[]" evs es "[]"] store_inv_distinct [OF assms(1)] enc(2) by simp
  have "\<forall>k \<in> set (sort (remdups (map event_key evs))). events_of k evs \<noteq> []"
    by (auto simp: events_of_def filter_empty_conv)
  then have c: "check_sessions sha kOutboxVersion evs (sort (remdups (map event_key evs))) wms = Some wms"
    by (rule check_sessions_ok [OF assms(1) w(2)])
  have s: "settle_watermarks kOutboxVersion evs wms = Some wms"
    by (rule settle_watermarks_ok [OF assms(1)]) (use entry in auto)
  have versions: "\<not> kOutboxVersion < kOutboxLegacyVersion" "kOutboxWatermarkVersion \<le> kOutboxVersion"
    by (simp_all add: outbox_versions)
  show ?thesis
    using enc(3,4) versions by (simp add: parse_outbox_def enc(5) u w(1) e c s outbox_consts)
qed

lemma unprotect_protect:
  assumes "secret_ok protect unprotect" and "protect_outbox_wire protect m = Some stored"
  shows "unprotect_outbox_wire unprotect stored = Some m" "m \<noteq> []" "length stored \<le> kMaximumStoredOutboxBytes"
    "\<exists>rest. read_le stored = Some (kEncryptedOutboxMagic, rest)"
proof -
  obtain blob where b: "protect m = Some blob" "blob \<noteq> []" and m: "m \<noteq> []" "length m \<le> kMaximumOutboxBytes"
      and stored: "stored = append_le kEncryptedOutboxMagic @ append_le (1 :: u16) @ append_le (0 :: u16) @
        append_le (len32 m) @ blob" and len: "length stored \<le> kMaximumStoredOutboxBytes"
    using assms(2) by (auto simp: protect_outbox_wire_def Let_def bind_eq_Some_conv not_less split: if_splits)
  have un: "unprotect blob = Some m" using assms(1) b(1) by (simp add: secret_ok_def)
  have n: "unat (len32 m) = length m" using m(2) by (intro unat_len32) (simp add: outbox_consts)
  then have "len32 m \<noteq> 0" using m(1) by (metis length_0_conv unsigned_0)
  then show "unprotect_outbox_wire unprotect stored = Some m"
    using un b(2) m(2) n len by (simp add: unprotect_outbox_wire_def stored)
  show "\<exists>rest. read_le stored = Some (kEncryptedOutboxMagic, rest)" by (simp add: stored)
  show "m \<noteq> []" "length stored \<le> kMaximumStoredOutboxBytes" by fact+
qed

definition persisted ::
  "(bytes \<Rightarrow> bytes option) \<Rightarrow> (bytes \<Rightarrow> bytes option) \<Rightarrow> answer_event list \<Rightarrow> watermarks \<Rightarrow> bytes \<Rightarrow> bool" where
  "persisted sha protect evs wms stored \<longleftrightarrow>
     store_inv sha evs wms \<and> encode_outbox evs wms \<noteq> [] \<and>
     protect_outbox_wire protect (encode_outbox evs wms) = Some stored"

lemma open_persisted:
  assumes "secret_ok protect unprotect" and "persisted sha protect evs wms stored"
  shows "outbox_open sha protect unprotect True write_ok (Some stored) =
    (True, \<lparr>ob_open = True, ob_events = evs, ob_watermarks = wms, ob_file = Some stored\<rparr>)"
proof -
  have inv: "store_inv sha evs wms" "encode_outbox evs wms \<noteq> []"
      "protect_outbox_wire protect (encode_outbox evs wms) = Some stored"
    using assms(2) by (simp_all add: persisted_def)
  note u = unprotect_protect [OF assms(1) inv(3)]
  then show ?thesis
    using parse_encode [OF inv(1,2)] by (auto simp: outbox_open_def closed_outbox_def Let_def not_less)
qed

section \<open>Every operation keeps the invariant\<close>

lemma commit_cases:
  assumes "commit protect write_ok evs wms ob = (r, ob')"
  obtains "\<not> r" "ob' = ob"
  | stored where "r" "ob' = ob\<lparr>ob_events := evs, ob_watermarks := wms, ob_file := Some stored\<rparr>"
      "encode_outbox evs wms \<noteq> []" "protect_outbox_wire protect (encode_outbox evs wms) = Some stored"
  using assms by (auto simp: commit_def Let_def split: if_splits option.splits)

text \<open>A change of one session that keeps its part of the invariant keeps the whole.\<close>

lemma store_inv_update:
  assumes inv: "store_inv sha evs wms" and "list_all event_ok evs'"
    and others: "\<And>k. k \<noteq> watermark_key w' \<Longrightarrow> events_of k evs' = events_of k evs"
    and "\<And>e. e \<in> set evs' \<Longrightarrow> event_key e = watermark_key w' \<Longrightarrow> same_watermark_context w' e"
    and "watermark_wf w'" and "session_inv sha (events_of (watermark_key w') evs') w'"
  shows "store_inv sha evs' (omap_insert (watermark_key w') w' wms)"
  unfolding store_inv_def
proof (intro conjI allI impI ballI)
  show "omap (omap_insert (watermark_key w') w' wms)" using store_invD(1) [OF inv] by simp
  show "list_all event_ok evs'" by fact
  fix k w assume "map_of (omap_insert (watermark_key w') w' wms) k = Some w"
  then have kw: "if k = watermark_key w' then w = w' else map_of wms k = Some w"
    using store_invD(1) [OF inv] by (auto split: if_splits)
  then show "watermark_wf w" "k = watermark_key w" "session_inv sha (events_of k evs') w"
    using store_invD(3-5) [OF inv] assms(5,6) others by (auto split: if_splits)
next
  fix e assume e: "e \<in> set evs'"
  show "\<exists>w. map_of (omap_insert (watermark_key w') w' wms) (event_key e) = Some w \<and> same_watermark_context w e"
  proof (cases "event_key e = watermark_key w'")
    case True
    then show ?thesis using assms(4) [OF e] store_invD(1) [OF inv] by simp
  next
    case False
    have "e \<in> set (events_of (event_key e) evs')" using e by (simp add: events_of_def)
    then have "e \<in> set (events_of (event_key e) evs)" unfolding others [OF False] .
    then have "e \<in> set evs" by (simp add: events_of_def)
    then show ?thesis using store_invD(1,6) [OF inv] False by simp
  qed
qed

lemma context_key: "same_watermark_context w e \<Longrightarrow> watermark_key w = event_key e"
  by (simp add: same_watermark_context_def watermark_key_def event_key_def)

lemma finalize_last_snoc: "\<not> list_ex (\<lambda>e. ev_kind e = FinalizeSession) fs \<Longrightarrow> finalize_last (fs @ [e])"
proof (induction fs)
  case (Cons a fs)
  then show ?case by (cases fs) auto
qed simp

lemma all_zero_32: "length h = 32 \<Longrightarrow> all_zero h \<Longrightarrow> h = replicate 32 0"
  by (rule replicate_eqI) (auto simp: all_zero_def list_all_iff)

lemma session_inv_snoc:
  assumes "session_inv sha fs w" and "\<not> wm_finalized w" and "hash_answer_event sha e = Some h"
    and "wm_highest w \<noteq> -1" and "ev_sequence e = wm_highest w + 1" and "ev_previous_hash e = wm_last_hash w"
  shows "session_inv sha (fs @ [e]) (w\<lparr>wm_highest := ev_sequence e, wm_last_hash := h,
     wm_finalized := (if ev_kind e = FinalizeSession then True else wm_finalized w)\<rparr>)"
proof -
  have "\<not> list_ex (\<lambda>e. ev_kind e = FinalizeSession) fs"
    using assms(1,2) by (cases "fs = []") (auto simp: session_inv_def)
  then show ?thesis
    using assms finalize_last_snoc [of fs e] by (auto simp: session_inv_def chained_append)
qed

lemma enqueue_existing_inv:
  assumes "store_inv sha evs wms" and "event_ok e" and "hash_answer_event sha e = Some h" and "length h = 32"
    and "map_of wms (event_key e) = Some w" and "same_watermark_context w e" and "\<not> wm_finalized w"
    and "wm_highest w \<noteq> -1" and "ev_sequence e = wm_highest w + 1" and "ev_previous_hash e = wm_last_hash w"
  defines "w' \<equiv> w\<lparr>wm_highest := ev_sequence e, wm_last_hash := h,
     wm_finalized := (if ev_kind e = FinalizeSession then True else wm_finalized w)\<rparr>"
  shows "store_inv sha (evs @ [e]) (omap_insert (event_key e) w' wms)"
proof -
  have key: "watermark_key w' = event_key e"
    using context_key [OF assms(6)] by (simp add: w'_def watermark_key_def)
  have "session_inv sha (events_of (event_key e) evs @ [e]) w'"
    unfolding w'_def using store_invD(5) [OF assms(1,5)] assms(3,7-10) by (intro session_inv_snoc)
  moreover have "same_watermark_context w' x" if "x \<in> set (evs @ [e])" "event_key x = event_key e" for x
    using that assms(5,6) store_invD(6) [OF assms(1), of x]
    by (auto simp: w'_def same_watermark_context_def)
  moreover have "watermark_wf w'"
    using store_invD(3) [OF assms(1,5)] assms(4) by (simp add: w'_def watermark_wf_def)
  ultimately show ?thesis
    using store_inv_update [OF assms(1), of "evs @ [e]" w'] assms(2) store_invD(2) [OF assms(1)]
    by (simp add: key list_all_iff)
qed

lemma enqueue_first_inv:
  assumes "store_inv sha evs wms" and "event_ok e" and "hash_answer_event sha e = Some h" and "length h = 32"
    and "map_of wms (event_key e) = None" and "ev_sequence e = 1" and "all_zero (ev_previous_hash e)"
  shows "store_inv sha (evs @ [e]) (omap_insert (event_key e) (watermark_for e h (ev_sequence e)) wms)"
proof -
  let ?w = "watermark_for e h (ev_sequence e)"
  have ctx: "same_watermark_context ?w e" by (simp add: watermark_for_def same_watermark_context_def)
  note key = context_key [OF ctx]
  have v: "validate_answer_event e" and wf: "event_wf e" using assms(2) by (simp_all add: event_ok_def)
  have none: "events_of (event_key e) evs = []" using store_invD(7) [OF assms(1,5)] .
  have "ev_previous_hash e = replicate 32 0"
    using all_zero_32 assms(7) wf by (simp add: event_wf_def)
  then have "session_inv sha [e] ?w" using assms(3,6) by (simp add: session_inv_def watermark_for_def)
  moreover have "watermark_wf ?w"
    using wf assms(4) event_fields(1,2) [OF v] by (simp add: watermark_wf_def watermark_for_def event_wf_def)
  moreover have "x = e" if "x \<in> set (evs @ [e])" "event_key x = event_key e" for x
    using that none by (auto simp: events_of_def filter_empty_conv)
  ultimately show ?thesis
    using store_inv_update [OF assms(1), of "evs @ [e]" ?w] assms(2) store_invD(2) [OF assms(1)] none ctx
    by (auto simp: key list_all_iff)
qed

text \<open>Acknowledging a pending event moves the boundary past it.\<close>

lemma finalize_last_suffix: "finalize_last (xs @ ys) \<Longrightarrow> finalize_last ys"
proof (induction xs)
  case (Cons x xs)
  then show ?case by (cases "xs @ ys") (auto split: if_splits)
qed simp

lemma finalize_last_prefix: "finalize_last (xs @ y # ys) \<Longrightarrow> \<not> list_ex (\<lambda>e. ev_kind e = FinalizeSession) xs"
proof (induction xs)
  case (Cons x xs)
  then show ?case by (cases xs) (auto split: if_splits)
qed simp

lemma session_inv_ack:
  assumes "session_inv sha (xs @ e # ys) w" and "hash_answer_event sha e = Some h"
  shows "session_inv sha ys (w\<lparr>wm_acked := ev_sequence e, wm_acked_hash := h\<rparr>)"
    and "filter (\<lambda>x. \<not> ev_sequence x \<le> ev_sequence e) (xs @ e # ys) = ys"
proof -
  note ch = session_inv_chained [OF assms(1)]
  obtain c k where c: "chained sha (wm_acked w) (wm_acked_hash w) xs c k" "c \<noteq> -1" "ev_sequence e = c + 1"
      "chained sha (c + 1) h ys (wm_highest w) (wm_last_hash w)"
    using ch assms(2) by (auto simp: chained_append)
  have lt: "c < ev_sequence e" using c(2,3) unat_plus_one [of c] by (simp add: word_less_nat_alt)
  then have "ev_sequence e \<noteq> 0" by auto
  moreover have "finalize_last (xs @ [e] @ ys)" using assms(1) by (simp add: session_inv_def)
  then have "finalize_last ys" using finalize_last_suffix [of "xs @ [e]" ys] by simp
  moreover have "\<not> list_ex (\<lambda>e. ev_kind e = FinalizeSession) (xs @ [e])" if "ys \<noteq> []"
    using that \<open>finalize_last (xs @ [e] @ ys)\<close> finalize_last_prefix [of "xs @ [e]" "hd ys" "tl ys"] by simp
  ultimately show "session_inv sha ys (w\<lparr>wm_acked := ev_sequence e, wm_acked_hash := h\<rparr>)"
    using assms(1) c(3,4) by (auto simp: session_inv_def)
  have "\<forall>x \<in> set xs. ev_sequence x \<le> ev_sequence e"
    using chained_bounds(3) [OF c(1)] lt by (meson order.trans order_less_imp_le)
  moreover have "\<forall>y \<in> set ys. ev_sequence e < ev_sequence y"
    using chained_bounds(3) [OF c(4)] c(3) by simp
  ultimately show "filter (\<lambda>x. \<not> ev_sequence x \<le> ev_sequence e) (xs @ e # ys) = ys"
    by (auto simp: filter_empty_conv filter_id_conv not_le)
qed

lemma acknowledge_inv:
  assumes "store_inv sha evs wms" and "map_of wms key = Some w" and "e \<in> set evs" and "event_key e = key"
    and "hash_answer_event sha e = Some h" and "length h = 32"
  shows "store_inv sha (filter (\<lambda>x. \<not> (event_key x = key \<and> ev_sequence x \<le> ev_sequence e)) evs)
    (omap_insert key (w\<lparr>wm_acked := ev_sequence e, wm_acked_hash := h\<rparr>) wms)"
proof -
  let ?w = "w\<lparr>wm_acked := ev_sequence e, wm_acked_hash := h\<rparr>"
    and ?evs = "filter (\<lambda>x. \<not> (event_key x = key \<and> ev_sequence x \<le> ev_sequence e)) evs"
  have key: "watermark_key ?w = key"
    using store_invD(4) [OF assms(1,2)] by (simp add: watermark_key_def)
  obtain xs ys where fs: "events_of key evs = xs @ e # ys"
    using split_list [of e "events_of key evs"] assms(3,4) by (auto simp: events_of_def)
  have sess: "session_inv sha (xs @ e # ys) w" using store_invD(5) [OF assms(1,2)] fs by simp
  have "events_of key ?evs = filter (\<lambda>x. \<not> ev_sequence x \<le> ev_sequence e) (events_of key evs)"
    unfolding events_of_def filter_filter by (rule filter_cong) auto
  then have "events_of key ?evs = ys" unfolding fs session_inv_ack(2) [OF sess assms(5)] .
  moreover have "events_of k ?evs = events_of k evs" if "k \<noteq> key" for k
    unfolding events_of_def filter_filter by (rule filter_cong) (use that in auto)
  moreover have "same_watermark_context ?w x" if "x \<in> set ?evs" "event_key x = key" for x
    using that store_invD(6) [OF assms(1), of x] assms(2) by (auto simp: same_watermark_context_def)
  moreover have "watermark_wf ?w" using store_invD(3) [OF assms(1,2)] assms(6) by (simp add: watermark_wf_def)
  ultimately show ?thesis
    using store_inv_update [OF assms(1), of ?evs ?w] session_inv_ack(1) [OF sess assms(5)] store_invD(2) [OF assms(1)]
    by (auto simp: key list_all_iff)
qed

section \<open>Rebasing a pending chain\<close>

definition key_indices :: "bytes \<Rightarrow> answer_event list \<Rightarrow> nat list" where
  "key_indices key evs = filter (\<lambda>i. event_key (evs ! i) = key) [0..<length evs]"

lemma events_of_indices: "events_of key evs = map ((!) evs) (key_indices key evs)"
proof -
  have "filter (\<lambda>e. event_key e = key) (map ((!) evs) [0..<length evs]) =
      map ((!) evs) (filter ((\<lambda>e. event_key e = key) \<circ> (!) evs) [0..<length evs])"
    by (rule filter_map)
  then show ?thesis by (simp add: events_of_def key_indices_def map_nth comp_def)
qed

lemma session_indices_eq:
  assumes "sorted (map ev_sequence (events_of key evs))"
  shows "session_indices key evs = key_indices key evs"
  using assms by (simp add: events_of_indices session_indices_def key_indices_def sort_key_id_if_sorted comp_def)

lemma hash_valid: "hash_answer_event sha e = Some h \<Longrightarrow> validate_answer_event e"
  by (auto simp: hash_answer_event_def encode_answer_event_def Let_def split: if_splits)

lemma same_body_refl: "same_event_body_except_predecessor e (e\<lparr>ev_previous_hash := h\<rparr>)"
  by (simp add: same_event_body_except_predecessor_def)

lemma rebase_loop_spec:
  assumes "digest_ok sha"
  shows "rebase_loop sha p is evs h = Some (evs', h') \<Longrightarrow> distinct (p # is) \<Longrightarrow>
    \<forall>i \<in> set (p # is). i < length evs \<Longrightarrow> \<forall>i \<in> set is. event_wf (evs ! i) \<Longrightarrow> length h = 32 \<Longrightarrow>
    length evs' = length evs \<and> (\<forall>j. j \<notin> set is \<longrightarrow> evs' ! j = evs ! j) \<and>
    (\<forall>j \<in> set is. event_ok (evs' ! j) \<and> same_event_body_except_predecessor (evs ! j) (evs' ! j)) \<and>
    (\<exists>b. chained sha (ev_sequence (evs ! p)) h (map ((!) evs') is) b h') \<and> length h' = 32"
proof (induction "is" arbitrary: p evs h)
  case (Cons i "is")
  let ?c = "(evs ! i)\<lparr>ev_previous_hash := h\<rparr>"
  obtain h1 where step: "ev_sequence (evs ! p) \<noteq> -1" "ev_sequence (evs ! i) = ev_sequence (evs ! p) + 1"
      "hash_answer_event sha ?c = Some h1" "rebase_loop sha i is (evs[i := ?c]) h1 = Some (evs', h')"
    using Cons.prems(1) by (auto simp: Let_def split: if_splits option.splits)
  have h1: "length h1 = 32" by (rule hash_length [OF assms step(3)])
  have i: "i \<notin> set is" "i < length evs" using Cons.prems(2,3) by auto
  have IH: "length evs' = length evs" "\<forall>j. j \<notin> set is \<longrightarrow> evs' ! j = evs[i := ?c] ! j"
      "\<forall>j \<in> set is. event_ok (evs' ! j) \<and> same_event_body_except_predecessor (evs[i := ?c] ! j) (evs' ! j)"
      "\<exists>b. chained sha (ev_sequence (evs[i := ?c] ! i)) h1 (map ((!) evs') is) b h'" "length h' = 32"
    using Cons.IH [OF step(4)] Cons.prems(2-4) h1 i by (auto simp: nth_list_update)
  have ok: "event_ok ?c"
    using hash_valid [OF step(3)] Cons.prems(4,5) by (simp add: event_ok_def event_wf_def)
  have at_i: "evs' ! i = ?c" using IH(2) i by simp
  have "evs' ! j = evs ! j" if "j \<notin> set (i # is)" for j using IH(2) that by simp
  moreover have "event_ok (evs' ! j) \<and> same_event_body_except_predecessor (evs ! j) (evs' ! j)" if "j \<in> set (i # is)" for j
    using that IH(3) i ok at_i same_body_refl by (cases "j = i") auto
  moreover have "\<exists>b. chained sha (ev_sequence (evs ! p)) h (map ((!) evs') (i # is)) b h'"
    using IH(4) i step(1-3) at_i by simp
  ultimately show ?case using IH(1,5) by blast
qed simp

lemma finalize_last_cong: "map ev_kind fs = map ev_kind fs' \<Longrightarrow> finalize_last fs = finalize_last fs'"
proof (induction fs arbitrary: fs')
  case (Cons e fs)
  then obtain e' gs where "fs' = e' # gs" "ev_kind e' = ev_kind e" "map ev_kind fs = map ev_kind gs" by (cases fs') auto
  then show ?case using Cons.IH [of gs] by (cases fs; cases gs) auto
qed simp

lemma list_ex_kind_cong:
  "map ev_kind fs = map ev_kind fs' \<Longrightarrow>
   list_ex (\<lambda>e. ev_kind e = FinalizeSession) fs = list_ex (\<lambda>e. ev_kind e = FinalizeSession) fs'"
proof -
  assume kinds: "map ev_kind fs = map ev_kind fs'"
  have ex: "list_ex (\<lambda>e. ev_kind e = FinalizeSession) xs \<longleftrightarrow> FinalizeSession \<in> set (map ev_kind xs)" for xs
    by (induction xs) auto
  show ?thesis unfolding ex kinds ..
qed

lemma rebase_inv:
  assumes "digest_ok sha" and inv: "store_inv sha evs wms" and "event_ok e" and h: "hash_answer_event sha e = Some h"
    and wm: "map_of wms (event_key e) = Some w"
    and split: "key_indices (event_key e) evs = pre @ i # post"
    and body: "same_event_body_except_predecessor (evs ! i) e"
    and loop: "rebase_loop sha i post (evs[i := e]) h = Some (evs', h')"
    and first: "pre = [] \<Longrightarrow> ev_sequence e = wm_acked w + 1 \<and> (ev_sequence e = 1 \<longrightarrow> all_zero (ev_previous_hash e))"
    and later: "pre \<noteq> [] \<Longrightarrow> hash_answer_event sha (evs ! last pre) = Some (ev_previous_hash e)"
  defines "w' \<equiv> (if pre = [] then w\<lparr>wm_acked_hash := ev_previous_hash e\<rparr> else w)\<lparr>wm_last_hash := h'\<rparr>"
  shows "store_inv sha evs' (omap_insert (event_key e) w' wms)"
proof -
  let ?k = "event_key e"
  have idx: "distinct (pre @ i # post)" "\<forall>j \<in> set (pre @ i # post). j < length evs \<and> event_key (evs ! j) = ?k"
    using split [symmetric] by (auto simp: key_indices_def)
  have evs_ok: "event_ok (evs ! j)" if "j < length evs" for j using store_invD(2) [OF inv] that by simp
  have e_len: "length h = 32" by (rule hash_length [OF assms(1) h])
  have seq_e: "ev_sequence (evs ! i) = ev_sequence e" "event_key (evs ! i) = ?k"
    using body idx by (auto simp: same_event_body_except_predecessor_def)
  have "\<forall>j \<in> set post. event_wf (evs[i := e] ! j)"
    using idx evs_ok by (auto simp: event_ok_def nth_list_update)
  then have spec: "length evs' = length evs" "\<And>j. j \<notin> set post \<Longrightarrow> evs' ! j = evs[i := e] ! j"
      "\<And>j. j \<in> set post \<Longrightarrow> event_ok (evs' ! j) \<and> same_event_body_except_predecessor (evs[i := e] ! j) (evs' ! j)"
      "\<exists>b. chained sha (ev_sequence (evs[i := e] ! i)) h (map ((!) evs') post) b h'" "length h' = 32"
    using rebase_loop_spec [OF assms(1) loop] idx e_len by auto
  have cases_j: "evs' ! j = evs ! j" if "j < length evs" "j \<notin> set (i # post)" for j
    using spec(2) [of j] that by auto
  have at_i: "evs' ! i = e" using spec(2) [of i] idx by auto
  have same: "same_event_body_except_predecessor (evs ! j) (evs' ! j) \<and> event_ok (evs' ! j)" if "j < length evs" for j
  proof (cases "j \<in> set (i # post)")
    case False
    then show ?thesis using cases_j [OF that] evs_ok [OF that] by (simp add: same_event_body_except_predecessor_def)
  next
    case True
    then show ?thesis using at_i body assms(3) spec(3) [of j] idx(1) by (cases "j = i") (auto simp: nth_list_update)
  qed
  have keys: "event_key (evs' ! j) = event_key (evs ! j)" if "j < length evs" for j
    using same [OF that] by (simp add: same_event_body_except_predecessor_def event_key_def)
  have indices: "key_indices k evs' = key_indices k evs" for k
    unfolding key_indices_def spec(1) by (rule filter_cong) (use keys in auto)
  have fs': "events_of ?k evs' = map ((!) evs) pre @ e # map ((!) evs') post"
    unfolding events_of_indices [of _ evs'] indices split
    using at_i cases_j idx by auto
  have fs: "events_of ?k evs = map ((!) evs) pre @ evs ! i # map ((!) evs) post"
    unfolding events_of_indices [of _ evs] split by simp
  note sess = store_invD(5) [OF inv wm]
  obtain c k where c: "chained sha (wm_acked w) (wm_acked_hash w) (map ((!) evs) pre) c k" "c \<noteq> -1" "ev_sequence e = c + 1"
    using session_inv_chained [OF sess] seq_e(1) unfolding fs chained_append by auto
  have "\<exists>b. chained sha c (ev_previous_hash e) (e # map ((!) evs') post) b h'"
    using spec(4) c(2,3) h idx by auto
  moreover have "chained sha (wm_acked w') (wm_acked_hash w') (map ((!) evs) pre) c (ev_previous_hash e)"
    using c(1) later chained_last [OF c(1)] by (auto simp: w'_def last_map)
  ultimately obtain b where b: "chained sha (wm_acked w') (wm_acked_hash w') (events_of ?k evs') b h'"
    unfolding fs' chained_append by blast
  have "unat b = unat (wm_highest w)"
    using chained_bounds(1) [OF b] chained_bounds(1) [OF session_inv_chained [OF sess]]
    unfolding fs fs' by (simp add: w'_def)
  then have b_eq: "b = wm_highest w'" by (simp add: w'_def word_unat_eq_iff)
  have kinds: "map ev_kind (events_of ?k evs') = map ev_kind (events_of ?k evs)"
    unfolding events_of_indices [of _ evs'] events_of_indices [of _ evs] indices split
    using same idx by (auto simp: same_event_body_except_predecessor_def)
  have zero: "wm_acked_hash w' = replicate 32 0" if "wm_acked w' = 0"
  proof (cases "pre = []")
    case True
    then have "all_zero (ev_previous_hash e)" using first that by (simp add: w'_def)
    then show ?thesis using all_zero_32 assms(3) True by (simp add: w'_def event_ok_def event_wf_def)
  next
    case False
    then show ?thesis using sess that by (simp add: w'_def session_inv_def)
  qed
  have "session_inv sha (events_of ?k evs') w'"
    using b sess zero finalize_last_cong [OF kinds] list_ex_kind_cong [OF kinds] fs fs'
    by (simp add: session_inv_def b_eq) (simp add: w'_def)
  moreover have key: "watermark_key w' = ?k" using store_invD(4) [OF inv wm] by (simp add: w'_def watermark_key_def)
  moreover have "events_of k evs' = events_of k evs" if "k \<noteq> ?k" for k
    unfolding events_of_indices [of _ evs'] events_of_indices [of _ evs] indices
    by (rule map_cong [OF refl], rule cases_j) (use that idx in \<open>auto simp: key_indices_def\<close>)
  moreover have "same_watermark_context w' x" if x: "x \<in> set evs'" "event_key x = ?k" for x
  proof -
    obtain j where j: "j < length evs" "x = evs' ! j" using x(1) spec(1) by (auto simp: in_set_conv_nth)
    have "event_key (evs ! j) = ?k" using keys [OF j(1)] x(2) j(2) by simp
    then have "same_watermark_context w (evs ! j)" using store_invD(6) [OF inv, of "evs ! j"] j(1) wm by auto
    then show ?thesis
      using same [OF j(1)] j(2) by (simp add: same_watermark_context_def same_event_body_except_predecessor_def w'_def)
  qed
  moreover have "list_all event_ok evs'" using same spec(1) by (auto simp: list_all_length)
  moreover have "watermark_wf w'"
    using store_invD(3) [OF inv wm] spec(5) assms(3) by (auto simp: watermark_wf_def w'_def event_ok_def event_wf_def)
  ultimately show ?thesis using store_inv_update [OF inv, of evs' w'] by simp
qed

section \<open>Reachable outboxes\<close>

lemma first_index_Some: "first_index P xs = Some i \<Longrightarrow> i < length xs \<and> P (xs ! i)"
  by (induction xs arbitrary: i) (auto split: if_splits)

lemma first_index_None: "first_index P xs = None \<longleftrightarrow> (\<forall>x \<in> set xs. \<not> P x)"
  by (induction xs) auto

text \<open>An operation either leaves the outbox alone or commits a state that meets the invariant.\<close>

definition commits ::
  "(bytes \<Rightarrow> bytes option) \<Rightarrow> (bytes \<Rightarrow> bytes option) \<Rightarrow> bool \<Rightarrow> outbox \<Rightarrow> bool \<times> outbox \<Rightarrow> bool" where
  "commits sha protect write_ok ob result \<longleftrightarrow> snd result = ob \<or>
     (\<exists>evs wms. store_inv sha evs wms \<and> result = commit protect write_ok evs wms ob)"

lemma commits_stay [simp]: "commits sha protect write_ok ob (r, ob)"
  by (simp add: commits_def)

lemma commits_commit: "store_inv sha evs wms \<Longrightarrow> commits sha protect write_ok ob (commit protect write_ok evs wms ob)"
  by (auto simp: commits_def)

lemma rebase_commits:
  assumes "digest_ok sha" and inv: "store_inv sha (ob_events ob) (ob_watermarks ob)" and "event_ok e"
    and wm: "map_of (ob_watermarks ob) (event_key e) = Some w" and "i < length (ob_events ob)"
    and "same_event_body_except_predecessor (ob_events ob ! i) e"
  shows "commits sha protect write_ok ob (rebase sha protect write_ok e i w ob)"
proof -
  let ?evs = "ob_events ob" and ?k = "event_key e"
  have "sorted (map ev_sequence (events_of ?k ?evs))"
    using chained_bounds(4) [OF session_inv_chained [OF store_invD(5) [OF inv wm]]] .
  note ind = session_indices_eq [OF this]
  have key: "event_key (?evs ! i) = ?k"
    using assms(6) by (simp add: same_event_body_except_predecessor_def event_key_def)
  then have "i \<in> set (key_indices ?k ?evs)" using assms(5) by (simp add: key_indices_def)
  then obtain t where t: "first_index (\<lambda>j. j = i) (key_indices ?k ?evs) = Some t"
    using first_index_None [of "\<lambda>j. j = i"] by fastforce
  let ?is = "key_indices ?k ?evs"
  have t_i: "t < length ?is" "?is ! t = i" using first_index_Some [OF t] by auto
  have split: "?is = take t ?is @ i # drop (Suc t) ?is" using id_take_nth_drop [OF t_i(1)] t_i(2) by simp
  define ok where "ok = (if t = 0
      then \<not> (wm_acked w = -1 \<or> ev_sequence e \<noteq> wm_acked w + 1 \<or>
              (if ev_sequence e = 1 then \<not> all_zero (ev_previous_hash e) else all_zero (ev_previous_hash e)))
      else hash_answer_event sha (?evs ! (?is ! (t - 1))) = Some (ev_previous_hash e))"
  have pre: "take t ?is = [] \<longleftrightarrow> t = 0" using t_i(1) by auto
  have last: "last (take t ?is) = ?is ! (t - 1)" if "t \<noteq> 0"
    using that t_i(1) pre last_conv_nth [of "take t ?is"] by (simp add: min_def)
  show ?thesis
  proof (cases "ok \<and> hash_answer_event sha e \<noteq> None \<and>
      rebase_loop sha i (drop (Suc t) ?is) (?evs[i := e]) (the (hash_answer_event sha e)) \<noteq> None")
    case False
    then have "snd (rebase sha protect write_ok e i w ob) = ob"
      by (auto simp: rebase_def ind t ok_def Let_def split: option.splits)
    then show ?thesis by (simp add: commits_def)
  next
    case True
    then obtain h evs' h' where h: "hash_answer_event sha e = Some h"
        and loop: "rebase_loop sha i (drop (Suc t) ?is) (?evs[i := e]) h = Some (evs', h')" by auto
    let ?w = "(if t = 0 then w\<lparr>wm_acked_hash := ev_previous_hash e\<rparr> else w)\<lparr>wm_last_hash := h'\<rparr>"
    have "store_inv sha evs' (omap_insert ?k ?w (ob_watermarks ob))"
      unfolding pre [symmetric]
      by (rule rebase_inv [OF assms(1) inv assms(3) h wm split assms(6) loop])
         (use True last pre in \<open>auto simp: ok_def simp del: take_eq_Nil take_eq_Nil2 split: if_splits\<close>)
    moreover have "rebase sha protect write_ok e i w ob =
        commit protect write_ok evs' (omap_insert ?k ?w (ob_watermarks ob)) ob"
      using True h loop unfolding rebase_def ind t Let_def option.case ok_def [symmetric] by simp
    ultimately show ?thesis unfolding commits_def by blast
  qed
qed

lemma enqueue_commits:
  assumes "digest_ok sha" and inv: "store_inv sha (ob_events ob) (ob_watermarks ob)" and "event_wf e"
  shows "commits sha protect write_ok ob (enqueue sha protect write_ok e ob)"
proof (cases "ob_open ob \<and> validate_answer_event e \<and> hash_answer_event sha e \<noteq> None")
  case False
  then show ?thesis by (auto simp: enqueue_def)
next
  case True
  then obtain h where h: "hash_answer_event sha e = Some h" by auto
  have ok: "event_ok e" using True assms(3) by (simp add: event_ok_def)
  have len: "length h = 32" by (rule hash_length [OF assms(1) h])
  show ?thesis
  proof (cases "first_index (\<lambda>x. event_key x = event_key e \<and> ev_sequence x = ev_sequence e) (ob_events ob)")
    case (Some i)
    then show ?thesis
      using True h first_index_Some [OF Some] rebase_commits [OF assms(1) inv ok]
      by (auto simp: enqueue_def Let_def split: option.split)
  next
    case None
    show ?thesis
    proof (cases "map_of (ob_watermarks ob) (event_key e)")
      case none: None
      then show ?thesis
        using True h None enqueue_first_inv [OF inv ok h len none]
        by (auto simp: enqueue_def Let_def intro: commits_commit)
    next
      case (Some w)
      then show ?thesis
        using True h None enqueue_existing_inv [OF inv ok h len Some]
        by (auto simp: enqueue_def Let_def intro: commits_commit)
    qed
  qed
qed

lemma acknowledge_key_commits:
  assumes inv: "store_inv sha (ob_events ob) (ob_watermarks ob)" and "length h = 32"
  shows "commits sha protect write_ok ob (acknowledge_key sha protect write_ok key sequence h ob)"
proof (cases "first_index (\<lambda>e. event_key e = key \<and> ev_sequence e = sequence) (ob_events ob)")
  case (Some i)
  let ?e = "ob_events ob ! i"
  have e: "?e \<in> set (ob_events ob)" "event_key ?e = key" "ev_sequence ?e = sequence"
    using first_index_Some [OF Some] by auto
  then show ?thesis
    using Some acknowledge_inv [OF inv _ e(1,2) _ assms(2)]
    by (auto simp: acknowledge_key_def Let_def intro: commits_commit split: option.split)
next
  case None
  then have absent: "\<forall>x \<in> set (events_of key (ob_events ob)). ev_sequence x \<noteq> sequence"
    by (auto simp: first_index_None events_of_def)
  show ?thesis
  proof (cases "map_of (ob_watermarks ob) key")
    case none: None
    then show ?thesis using None by (simp add: acknowledge_key_def)
  next
    case (Some w)
    note ch = session_inv_chained [OF store_invD(5) [OF inv Some]]
    have "wm_acked w = wm_highest w \<or> sequence \<noteq> wm_highest w"
    proof (cases "events_of key (ob_events ob) = []")
      case True
      then show ?thesis using ch by simp
    next
      case False
      then show ?thesis using chained_last [OF ch] absent last_in_set by blast
    qed
    then show ?thesis using None Some by (auto simp: acknowledge_key_def)
  qed
qed

lemma acknowledge_commits:
  assumes "store_inv sha (ob_events ob) (ob_watermarks ob)"
  shows "commits sha protect write_ok ob (acknowledge sha protect write_ok session_id sequence h ob)"
  using acknowledge_key_commits [OF assms] by (auto simp: acknowledge_def Let_def)

text \<open>
  A run of the outbox: it is opened without a file, then events are enqueued, acknowledgements
  arrive, it is closed and opened again; every write may fail.
\<close>

inductive outbox_run ::
  "(bytes \<Rightarrow> bytes option) \<Rightarrow> (bytes \<Rightarrow> bytes option) \<Rightarrow> (bytes \<Rightarrow> bytes option) \<Rightarrow> outbox \<Rightarrow> bool"
  for sha protect unprotect where
  installed: "outbox_open sha protect unprotect io wok None = (r, ob) \<Longrightarrow> outbox_run sha protect unprotect ob"
| enqueued: "outbox_run sha protect unprotect ob \<Longrightarrow> event_wf e \<Longrightarrow> enqueue sha protect wok e ob = (r, ob') \<Longrightarrow>
     outbox_run sha protect unprotect ob'"
| acknowledged: "outbox_run sha protect unprotect ob \<Longrightarrow> acknowledge sha protect wok sid n h ob = (r, ob') \<Longrightarrow>
     outbox_run sha protect unprotect ob'"
| shut: "outbox_run sha protect unprotect ob \<Longrightarrow> outbox_run sha protect unprotect (outbox_close ob)"
| restarted: "outbox_run sha protect unprotect ob \<Longrightarrow>
     outbox_open sha protect unprotect io wok (ob_file ob) = (r, ob') \<Longrightarrow> outbox_run sha protect unprotect ob'"

text \<open>\<open>evs\<close> and \<open>wms\<close> are what the file holds, and what an open outbox works on.\<close>

definition outbox_repr ::
  "(bytes \<Rightarrow> bytes option) \<Rightarrow> (bytes \<Rightarrow> bytes option) \<Rightarrow> outbox \<Rightarrow> answer_event list \<Rightarrow> watermarks \<Rightarrow> bool" where
  "outbox_repr sha protect ob evs wms \<longleftrightarrow>
     (case ob_file ob of
        None \<Rightarrow> \<not> ob_open ob \<and> evs = [] \<and> wms = []
      | Some stored \<Rightarrow> persisted sha protect evs wms stored \<and>
          (ob_open ob \<longrightarrow> ob_events ob = evs \<and> ob_watermarks ob = wms))"

definition outbox_inv :: "(bytes \<Rightarrow> bytes option) \<Rightarrow> (bytes \<Rightarrow> bytes option) \<Rightarrow> outbox \<Rightarrow> bool" where
  "outbox_inv sha protect ob \<longleftrightarrow> (\<exists>evs wms. outbox_repr sha protect ob evs wms)"

lemma outbox_repr_open:
  assumes "outbox_repr sha protect ob evs wms" and "ob_open ob"
  obtains stored where "ob_file ob = Some stored" "persisted sha protect (ob_events ob) (ob_watermarks ob) stored"
    "evs = ob_events ob" "wms = ob_watermarks ob"
proof (cases "ob_file ob")
  case None
  then show thesis using assms by (simp add: outbox_repr_def)
next
  case (Some stored)
  then have "persisted sha protect evs wms stored" "ob_events ob = evs" "ob_watermarks ob = wms"
    using assms by (simp_all add: outbox_repr_def)
  then show thesis by (intro that [OF Some]) simp_all
qed

lemma outbox_inv_open:
  assumes "outbox_inv sha protect ob" and "ob_open ob"
  obtains stored where "ob_file ob = Some stored" "persisted sha protect (ob_events ob) (ob_watermarks ob) stored"
proof -
  obtain evs wms where "outbox_repr sha protect ob evs wms" using assms(1) by (auto simp: outbox_inv_def)
  from outbox_repr_open [OF this assms(2)] that show thesis .
qed

lemma commits_repr:
  assumes "outbox_repr sha protect ob evs wms" and "ob_open ob" and "commits sha protect wok ob (r, ob')"
  shows "outbox_repr sha protect ob' (ob_events ob') (ob_watermarks ob')" "ob_open ob'"
proof -
  consider "ob' = ob" | evs wms where "store_inv sha evs wms" "commit protect wok evs wms ob = (r, ob')"
    using assms(3) by (auto simp: commits_def)
  then have "outbox_repr sha protect ob' (ob_events ob') (ob_watermarks ob') \<and> ob_open ob'"
  proof cases
    case 1
    then show ?thesis using outbox_repr_open [OF assms(1,2)] assms(1,2) by metis
  next
    case 2
    show ?thesis
      using 2(2) by (cases rule: commit_cases)
        (use 2(1) assms(1,2) in \<open>auto simp: outbox_repr_def persisted_def split: option.splits\<close>)
  qed
  then show "outbox_repr sha protect ob' (ob_events ob') (ob_watermarks ob')" "ob_open ob'" by simp_all
qed

lemma commits_inv:
  "outbox_inv sha protect ob \<Longrightarrow> ob_open ob \<Longrightarrow> commits sha protect wok ob (r, ob') \<Longrightarrow> outbox_inv sha protect ob'"
  unfolding outbox_inv_def by (blast dest: commits_repr(1))

lemma store_inv_empty: "store_inv sha [] []"
  by (simp add: store_inv_def)

lemma open_repr:
  assumes "secret_ok protect unprotect" and "outbox_repr sha protect ob evs wms"
    and "outbox_open sha protect unprotect io wok (ob_file ob) = (r, ob')"
  shows "outbox_repr sha protect ob' evs wms"
proof (cases "io")
  case False
  then show ?thesis using assms(2,3) by (auto simp: outbox_open_def outbox_repr_def closed_outbox_def split: option.splits)
next
  case True
  show ?thesis
  proof (cases "ob_file ob")
    case (Some stored)
    then have "persisted sha protect evs wms stored" using assms(2) by (simp add: outbox_repr_def)
    then show ?thesis using open_persisted [OF assms(1), of sha evs wms stored wok] assms(3) Some True
      by (auto simp: outbox_repr_def)
  next
    case None
    then have empty: "evs = []" "wms = []" using assms(2) by (simp_all add: outbox_repr_def)
    obtain r1 ob1 where c: "commit protect wok [] [] (closed_outbox None) = (r1, ob1)" by fastforce
    show ?thesis
      using c
    proof (cases rule: commit_cases)
      case 1
      then show ?thesis using assms(3) None True c empty
        by (auto simp: outbox_open_def outbox_repr_def closed_outbox_def)
    next
      case (2 stored)
      then have p: "persisted sha protect [] [] stored" by (simp add: persisted_def store_inv_empty)
      have "outbox_open sha protect unprotect True wok None = outbox_open sha protect unprotect True wok (Some stored)"
        using c 2 by (simp add: outbox_open_def closed_outbox_def)
      then show ?thesis using open_persisted [OF assms(1) p, of wok] assms(3) None True p empty
        by (auto simp: outbox_repr_def)
    qed
  qed
qed

lemma close_repr: "outbox_repr sha protect ob evs wms \<Longrightarrow> outbox_repr sha protect (outbox_close ob) evs wms"
  by (auto simp: outbox_repr_def outbox_close_def split: option.splits)

lemma fresh_repr: "outbox_repr sha protect (closed_outbox None) [] []"
  by (simp add: outbox_repr_def closed_outbox_def)

lemma outbox_run_inv:
  assumes "outbox_run sha protect unprotect ob" and "digest_ok sha" and "secret_ok protect unprotect"
  shows "outbox_inv sha protect ob"
  using assms(1)
proof induction
  case (installed io wok r ob)
  then have "outbox_repr sha protect ob [] []"
    by (intro open_repr [OF assms(3) fresh_repr]) (simp add: closed_outbox_def)
  then show ?case by (auto simp: outbox_inv_def)
next
  case (enqueued ob e wok r ob')
  show ?case
  proof (cases "ob_open ob")
    case True
    then show ?thesis
      using commits_inv [OF enqueued.IH True] enqueue_commits [OF assms(2) _ enqueued.hyps(2)] enqueued.hyps(3)
        outbox_inv_open [OF enqueued.IH True] by (metis persisted_def)
  next
    case False
    then show ?thesis using enqueued by (simp add: enqueue_def)
  qed
next
  case (acknowledged ob wok sid n h r ob')
  show ?case
  proof (cases "ob_open ob")
    case True
    then show ?thesis
      using commits_inv [OF acknowledged.IH True] acknowledge_commits acknowledged.hyps(2)
        outbox_inv_open [OF acknowledged.IH True] by (metis persisted_def)
  next
    case False
    then show ?thesis using acknowledged by (simp add: acknowledge_def)
  qed
next
  case (shut ob)
  then show ?case unfolding outbox_inv_def by (blast intro: close_repr)
next
  case (restarted ob io wok r ob')
  then show ?case unfolding outbox_inv_def by (blast dest: open_repr [OF assms(3)])
qed

text \<open>
  C14. The outbox survives every restart. Whatever events were enqueued, pending chains rebased and
  acknowledgements received, and whichever writes failed: opening the file of a running outbox
  again passes all consistency checks and restores exactly that outbox, with the same pending
  events and the same watermarks.
\<close>

theorem outbox_restart_exact:
  assumes "digest_ok sha" and "secret_ok protect unprotect" and "outbox_run sha protect unprotect ob" and "ob_open ob"
  shows "outbox_open sha protect unprotect True wok (ob_file ob) = (True, ob)"
proof -
  obtain stored where "ob_file ob = Some stored" "persisted sha protect (ob_events ob) (ob_watermarks ob) stored"
    using outbox_inv_open [OF outbox_run_inv [OF assms(3,1,2)] assms(4)] .
  then show ?thesis using open_persisted [OF assms(2)] assms(4) by simp
qed

text \<open>
  C13. The chain invariant of the outbox. In every reachable open outbox there are at most 512 pending
  events, no two with the same session and sequence number; each session's pending events are a
  contiguous hash chain that starts at the acknowledged boundary of the session's watermark and
  ends at its highest sequence and last hash; and a finalizing event can only be the last.
\<close>

theorem outbox_chain_invariant:
  assumes "digest_ok sha" and "secret_ok protect unprotect" and "outbox_run sha protect unprotect ob" and "ob_open ob"
  shows "length (ob_events ob) \<le> 512 \<and> distinct (map (\<lambda>e. (event_key e, ev_sequence e)) (ob_events ob)) \<and>
    (\<forall>e \<in> set (ob_events ob). \<exists>w. map_of (ob_watermarks ob) (event_key e) = Some w) \<and>
    (\<forall>k w. map_of (ob_watermarks ob) k = Some w \<longrightarrow>
       chained sha (wm_acked w) (wm_acked_hash w) (events_of k (ob_events ob)) (wm_highest w) (wm_last_hash w) \<and>
       finalize_last (events_of k (ob_events ob)) \<and> valid_watermark w)"
proof -
  obtain stored where p: "persisted sha protect (ob_events ob) (ob_watermarks ob) stored"
    using outbox_inv_open [OF outbox_run_inv [OF assms(3,1,2)] assms(4)] by blast
  then have inv: "store_inv sha (ob_events ob) (ob_watermarks ob)"
    and enc: "encode_outbox (ob_events ob) (ob_watermarks ob) \<noteq> []" by (simp_all add: persisted_def)
  obtain ws where ws: "encode_watermarks (ob_watermarks ob) = Some ws" "length (ob_events ob) \<le> 512"
    using encode_outbox_parts [OF enc] by metis
  have wf: "\<forall>(k, w) \<in> set (ob_watermarks ob). watermark_wf w \<and> k = watermark_key w"
    using store_invD(3,4) [OF inv] omap_distinct [OF store_invD(1) [OF inv]] by auto
  have "\<forall>(k, w) \<in> set (ob_watermarks ob). valid_watermark w"
    using read_watermarks_encode [of "[]" "ob_watermarks ob" ws "[]"] store_invD(1) [OF inv] wf ws(1) by simp
  then have "valid_watermark w" if "map_of (ob_watermarks ob) k = Some w" for k w
    using map_of_SomeD [OF that] by auto
  then show ?thesis
    using ws(2) store_inv_distinct [OF inv] store_invD(5,6) [OF inv]
    by (fastforce simp: session_inv_def)
qed

section \<open>A concrete run\<close>

definition sample_store :: "bytes \<Rightarrow> outbox" where
  "sample_store stored = \<lparr>ob_open = True, ob_events = [], ob_watermarks = [], ob_file = Some stored\<rparr>"

definition sample_outbox :: outbox where
  "sample_outbox = snd (enqueue sample_sha Some True sample_event (snd (outbox_open sample_sha Some Some True True None)))"

lemma sample_secret: "secret_ok Some Some"
  by (simp add: secret_ok_def)

lemma sample_installed: "\<exists>stored. outbox_open sample_sha Some Some True True None = (True, sample_store stored)"
proof -
  have ne: "encode_outbox [] [] \<noteq> []" by (simp add: encode_outbox_def outbox_consts flip: length_0_conv)
  have "\<exists>stored. protect_outbox_wire Some (encode_outbox [] []) = Some stored"
    by (simp add: protect_outbox_wire_def encode_outbox_def outbox_consts flip: length_0_conv)
  then obtain stored where st: "protect_outbox_wire Some (encode_outbox [] []) = Some stored" by blast
  then have p: "persisted sample_sha Some [] [] stored" using ne by (simp add: persisted_def store_inv_empty)
  have "commit Some True [] [] (closed_outbox None) = (True, closed_outbox (Some stored))"
    using ne st by (simp add: commit_def Let_def closed_outbox_def)
  then have "outbox_open sample_sha Some Some True True None = outbox_open sample_sha Some Some True True (Some stored)"
    by (simp add: outbox_open_def closed_outbox_def)
  then show ?thesis using open_persisted [OF sample_secret p] by (auto simp: sample_store_def)
qed

lemma sample_hash: "hash_answer_event sample_sha sample_event = Some (replicate 32 9)"
  using event_wire_length(1) [OF sample_event_ok(1)] by (auto simp: hash_answer_event_def sample_sha_def Let_def)

lemma sample_wire:
  "\<exists>stored. encode_outbox [sample_event] [(event_key sample_event, watermark_for sample_event (replicate 32 9) 1)] \<noteq> [] \<and>
     protect_outbox_wire Some (encode_outbox [sample_event]
       [(event_key sample_event, watermark_for sample_event (replicate 32 9) 1)]) = Some stored"
  using event_wire_length [OF sample_event_ok(1)]
  by (auto simp: protect_outbox_wire_def encode_outbox_def encode_watermark_def watermark_for_def valid_watermark_def
      append_bounded_string_def sample_event_def outbox_consts sync_limits Let_def simp flip: length_0_conv)

lemma sample_enqueued:
  "\<exists>st. enqueue sample_sha Some True sample_event (sample_store stored) =
      (True, (sample_store stored)\<lparr>ob_events := [sample_event],
         ob_watermarks := [(event_key sample_event, watermark_for sample_event (replicate 32 9) 1)], ob_file := Some st\<rparr>)"
proof -
  have "validate_answer_event sample_event" "ev_sequence sample_event = 1" "all_zero (ev_previous_hash sample_event)"
    using sample_event_ok(1) by (simp_all add: event_ok_def sample_event_def)
  then show ?thesis
    using sample_wire by (auto simp: enqueue_def sample_store_def sample_hash commit_def Let_def outbox_consts)
qed

lemma sample_outbox_run:
  "outbox_run sample_sha Some Some sample_outbox" "ob_open sample_outbox" "ob_events sample_outbox = [sample_event]"
proof -
  obtain stored where o: "outbox_open sample_sha Some Some True True None = (True, sample_store stored)"
    using sample_installed by blast
  obtain st where "enqueue sample_sha Some True sample_event (sample_store stored) =
      (True, (sample_store stored)\<lparr>ob_events := [sample_event],
         ob_watermarks := [(event_key sample_event, watermark_for sample_event (replicate 32 9) 1)], ob_file := Some st\<rparr>)"
    using sample_enqueued by blast
  then show "outbox_run sample_sha Some Some sample_outbox" "ob_open sample_outbox"
      "ob_events sample_outbox = [sample_event]"
    using outbox_run.enqueued [OF outbox_run.installed [OF o] sample_event_ok(2)] o
    by (auto simp: sample_outbox_def sample_store_def)
qed

theorem outbox_restart_exact_witness:
  "outbox_open sample_sha Some Some True False (ob_file sample_outbox) = (True, sample_outbox) \<and>
   ob_events sample_outbox = [sample_event]"
  using outbox_restart_exact [OF sample_sha_ok sample_secret sample_outbox_run(1,2)] sample_outbox_run(3) by blast

theorem outbox_chain_invariant_witness:
  "\<exists>w. map_of (ob_watermarks sample_outbox) (event_key sample_event) = Some w \<and>
     chained sample_sha (wm_acked w) (wm_acked_hash w) (events_of (event_key sample_event) [sample_event])
       (wm_highest w) (wm_last_hash w)"
proof -
  have "ob_events sample_outbox = [sample_event]" by (rule sample_outbox_run(3))
  then show ?thesis
    using outbox_chain_invariant [OF sample_sha_ok sample_secret sample_outbox_run(1,2)] by auto
qed

end
