(* ===== verification/AnswerDelivery.thy ===== *)
theory AnswerDelivery
  imports AnswerOutbox Auth
begin

text \<open>
  The path of an answer from the candidate's machine into the server's journal: the part of the
  client service (\<^verbatim>\<open>client/service/main.cpp\<close>) that takes answer events from the exam page,
  schedules pending events of the outbox for sending and handles acknowledgements, and the
  handler of the server's control plane (\<^verbatim>\<open>server/src/control_plane.cpp\<close>) that appends a received
  event to the journal and answers. Steady-clock times are integers in nanoseconds.

  Shown: whatever is sent twice, delayed, reordered or lost, and whichever process is stopped or
  restarted, an answer the client has taken is pending in its outbox or recorded in the journal;
  at most one event per exam context is in flight.
\<close>

section \<open>The client service\<close>

definition kMaximumQueuedExamIngress :: nat where "kMaximumQueuedExamIngress = 64"
definition kExamTransientRetryDelay :: int where "kExamTransientRetryDelay = 2 * 10 ^ 9"
definition kExamRejectedRetryDelay :: int where "kExamRejectedRetryDelay = 30 * 10 ^ 9"
definition kExamAckTimeout :: int where "kExamAckTimeout = 5 * 10 ^ 9"

record exam_service =
  sv_client_id :: "bytes option"
  sv_ready :: bool
  sv_outbox :: outbox
  sv_ingress :: "answer_event list"
  sv_inflight :: "(bytes \<times> bytes) list"
  sv_retry_after :: "(bytes \<times> int) list"

definition exam_inflight_key :: "(bytes \<Rightarrow> bytes option) \<Rightarrow> answer_event \<Rightarrow> bytes" where
  "exam_inflight_key sha e =
     ev_session_id e @ append_le (ev_sequence e) @
     (case hash_answer_event sha e of Some h \<Rightarrow> h | None \<Rightarrow> replicate 32 0) @
     ev_package_id e @ [0] @ ev_package_digest e @ ev_client_id e @ ev_candidate_id e"

definition exam_context_key :: "answer_event \<Rightarrow> bytes" where
  "exam_context_key e =
     append_le (len32 (ev_package_id e)) @ ev_package_id e @ ev_package_digest e @ ev_client_id e @
     ev_session_id e @ append_le (len32 (ev_candidate_id e)) @ ev_candidate_id e"

definition inflight_matches_boundary :: "bytes \<Rightarrow> bytes \<Rightarrow> u64 \<Rightarrow> bool" where
  "inflight_matches_boundary key session_id sequence =
     (if length key < 24 then False
      else if \<not> constant_time_equal (take 16 key) session_id then False
      else take 8 (drop 16 key) = append_le sequence)"

definition inflight_matches_ack :: "bytes \<Rightarrow> bytes \<Rightarrow> u64 \<Rightarrow> bytes \<Rightarrow> bool" where
  "inflight_matches_ack key session_id sequence event_hash =
     (if length key < 56 then False
      else if \<not> inflight_matches_boundary key session_id sequence \<or> length event_hash \<noteq> 32 then False
      else constant_time_equal (take 32 (drop 24 key)) event_hash)"

definition clear_exam_inflight :: "exam_service \<Rightarrow> exam_service" where
  "clear_exam_inflight sv = sv\<lparr>sv_inflight := [], sv_retry_after := []\<rparr>"

definition set_configured_client_id :: "bytes \<Rightarrow> exam_service \<Rightarrow> exam_service" where
  "set_configured_client_id client_id sv =
     (let changed = (sv_client_id sv \<noteq> Some client_id); sv = sv\<lparr>sv_client_id := Some client_id\<rparr>
      in if changed then (clear_exam_inflight sv)\<lparr>sv_ingress := []\<rparr> else sv)"

definition clear_configured_client_id :: "exam_service \<Rightarrow> exam_service" where
  "clear_configured_client_id sv =
     (let was_ready = (sv_client_id sv \<noteq> None); sv = sv\<lparr>sv_client_id := None\<rparr>
      in if was_ready then (clear_exam_inflight sv)\<lparr>sv_ingress := []\<rparr> else sv)"

definition exam_retry_delay :: "ack_status \<Rightarrow> int" where
  "exam_retry_delay status =
     (case status of
        AckRejected \<Rightarrow> kExamRejectedRetryDelay
      | AckConflict \<Rightarrow> kExamRejectedRetryDelay
      | _ \<Rightarrow> kExamTransientRetryDelay)"

text \<open>A full queue drops its oldest event; the browser still owns it.\<close>

definition push_ingress :: "answer_event \<Rightarrow> answer_event list \<Rightarrow> answer_event list" where
  "push_ingress e q = (if length q \<ge> kMaximumQueuedExamIngress then tl q else q) @ [e]"

definition queue_exam_event_payload ::
  "(bytes \<Rightarrow> bytes option) \<Rightarrow> (bytes \<Rightarrow> bytes option) \<Rightarrow> bool \<Rightarrow> bytes \<Rightarrow> exam_service \<Rightarrow> bool \<times> exam_service" where
  "queue_exam_event_payload sha protect write_ok message sv =
     (case decode_answer_event message of
        None \<Rightarrow> (False, sv)
      | Some e \<Rightarrow>
          if (case sv_client_id sv of Some c \<Rightarrow> ev_client_id e \<noteq> c | None \<Rightarrow> False) then (False, sv)
          else
            let (queued, ob) = (if sv_ready sv \<and> sv_client_id sv \<noteq> None
                                then enqueue sha protect write_ok e (sv_outbox sv) else (False, sv_outbox sv));
                sv = sv\<lparr>sv_outbox := ob\<rparr> in
            if queued then (True, sv)
            else (False, sv\<lparr>sv_ingress := push_ingress e (sv_ingress sv)\<rparr>))"

fun drain_loop ::
  "(bytes \<Rightarrow> bytes option) \<Rightarrow> (bytes \<Rightarrow> bytes option) \<Rightarrow> (nat \<Rightarrow> bool) \<Rightarrow> bytes \<Rightarrow> bool \<Rightarrow> answer_event list \<Rightarrow>
   answer_event list \<Rightarrow> outbox \<Rightarrow> answer_event list \<times> outbox" where
  "drain_loop sha protect write_ok client_id ready [] retry ob = (retry, ob)"
| "drain_loop sha protect write_ok client_id ready (e # batch) retry ob =
     (if ev_client_id e \<noteq> client_id then drain_loop sha protect write_ok client_id ready batch retry ob
      else
        let (queued, ob) = (if ready then enqueue sha protect (write_ok (length batch)) e ob else (False, ob)) in
        if queued then drain_loop sha protect write_ok client_id ready batch retry ob
        else drain_loop sha protect write_ok client_id ready batch (retry @ [e]) ob)"

definition drain_exam_ingress ::
  "(bytes \<Rightarrow> bytes option) \<Rightarrow> (bytes \<Rightarrow> bytes option) \<Rightarrow> (nat \<Rightarrow> bool) \<Rightarrow> exam_service \<Rightarrow> exam_service" where
  "drain_exam_ingress sha protect write_ok sv =
     (case sv_client_id sv of
        None \<Rightarrow> sv
      | Some client_id \<Rightarrow>
          let (retry, ob) = drain_loop sha protect write_ok client_id (sv_ready sv) (sv_ingress sv) [] (sv_outbox sv)
          in sv\<lparr>sv_outbox := ob, sv_ingress := fold push_ingress retry []\<rparr>)"

text \<open>
  The search for an event in flight in the same context: entries whose retry time has passed are
  removed on the way, the first one that has not stops the search. The list is the part of the
  table still to be visited.
\<close>

fun context_loop ::
  "bytes \<Rightarrow> int \<Rightarrow> (bytes \<times> bytes) list \<Rightarrow> (bytes \<times> bytes) list \<Rightarrow> (bytes \<times> int) list \<Rightarrow>
   bool \<times> (bytes \<times> bytes) list \<times> (bytes \<times> int) list" where
  "context_loop ck now [] inflight retry = (False, inflight, retry)"
| "context_loop ck now ((k, c) # rest) inflight retry =
     (if c \<noteq> ck then context_loop ck now rest inflight retry
      else case map_of retry k of
             Some t \<Rightarrow> if t \<le> now
                       then context_loop ck now rest (alist_erase k inflight) (alist_erase k retry)
                       else (True, inflight, retry)
           | None \<Rightarrow> (True, inflight, retry))"

text \<open>
  The loop of \<open>pop_outbound_message\<close> over the pending events: the payload to send, if any.
\<close>

fun send_loop ::
  "(bytes \<Rightarrow> bytes option) \<Rightarrow> int \<Rightarrow> answer_event list \<Rightarrow> (bytes \<times> bytes) list \<Rightarrow> (bytes \<times> int) list \<Rightarrow>
   bytes option \<times> (bytes \<times> bytes) list \<times> (bytes \<times> int) list" where
  "send_loop sha now [] inflight retry = (None, inflight, retry)"
| "send_loop sha now (e # es) inflight retry =
     (let key = exam_inflight_key sha e; ck = exam_context_key e;
          (context_inflight, inflight, retry) = context_loop ck now inflight inflight retry in
      if context_inflight then send_loop sha now es inflight retry
      else if (case map_of retry key of Some t \<Rightarrow> t > now | None \<Rightarrow> False)
      then send_loop sha now es inflight retry
      else
        let retry = alist_erase key retry in
        if map_of inflight key \<noteq> None then send_loop sha now es inflight retry
        else
          let inflight = omap_insert key ck inflight; retry = omap_insert key (now + kExamAckTimeout) retry;
              message = encode_answer_event e in
          if message = [] then send_loop sha now es (alist_erase key inflight) retry
          else (Some message, inflight, retry))"

definition next_answer_event :: "(bytes \<Rightarrow> bytes option) \<Rightarrow> int \<Rightarrow> exam_service \<Rightarrow> bytes option \<times> exam_service" where
  "next_answer_event sha now sv =
     (case sv_client_id sv of
        None \<Rightarrow> (None, sv)
      | Some client_id \<Rightarrow>
          if \<not> sv_ready sv then (None, sv)
          else let (message, inflight, retry) =
                 send_loop sha now (pending_for_client client_id 8 (sv_outbox sv)) (sv_inflight sv) (sv_retry_after sv)
               in (message, sv\<lparr>sv_inflight := inflight, sv_retry_after := retry\<rparr>))"

text \<open>
  The \<open>exam_answer_ack\<close> branch of \<open>handle_server_command\<close>. The result says whether the
  acknowledgement is passed on to the exam page.
\<close>

definition handle_answer_ack ::
  "(bytes \<Rightarrow> bytes option) \<Rightarrow> (bytes \<Rightarrow> bytes option) \<Rightarrow> bool \<Rightarrow> int \<Rightarrow> bytes \<Rightarrow> exam_service \<Rightarrow> bool \<times> exam_service" where
  "handle_answer_ack sha protect write_ok now message sv =
     (case decode_answer_ack message of
        None \<Rightarrow> (False, sv)
      | Some a \<Rightarrow>
          let durable_ack = (ack_status a = AckAccepted \<or> ack_status a = AckDuplicate);
              (outbox_acknowledged, ob) =
                (if durable_ack \<and> sv_ready sv
                 then acknowledge sha protect write_ok (ack_session_id a) (ack_sequence a) (ack_event_hash a) (sv_outbox sv)
                 else (False, sv_outbox sv));
              matching = filter (\<lambda>k. inflight_matches_ack k (ack_session_id a) (ack_sequence a) (ack_event_hash a))
                           (map fst (sv_inflight sv));
              inflight = filter (\<lambda>(k, _). k \<notin> set matching) (sv_inflight sv);
              retry =
                (if outbox_acknowledged then filter (\<lambda>(k, _). k \<notin> set matching) (sv_retry_after sv)
                 else fold (\<lambda>k r. omap_insert k
                        (now + (if durable_ack then kExamRejectedRetryDelay else exam_retry_delay (ack_status a))) r)
                        matching (sv_retry_after sv));
              boundary = filter (\<lambda>k. inflight_matches_boundary k (ack_session_id a) (ack_sequence a)) (map fst inflight);
              retry = (if matching = [] \<and> length boundary = 1
                       then omap_insert (hd boundary) (now + exam_retry_delay (ack_status a)) retry else retry);
              sv' = sv\<lparr>sv_outbox := ob, sv_inflight := inflight, sv_retry_after := retry\<rparr> in
          if matching = [] then (False, sv')
          else if durable_ack \<and> (\<not> sv_ready sv \<or> \<not> outbox_acknowledged) then (False, sv')
          else (True, sv'))"

text \<open>Starting the service opens the outbox, or the service does not start; stopping closes it.\<close>

definition service_start ::
  "(bytes \<Rightarrow> bytes option) \<Rightarrow> (bytes \<Rightarrow> bytes option) \<Rightarrow> (bytes \<Rightarrow> bytes option) \<Rightarrow> bool \<Rightarrow> bool \<Rightarrow> bytes option \<Rightarrow>
   bool \<times> exam_service" where
  "service_start sha protect unprotect io_ok write_ok file =
     (let (opened, ob) = outbox_open sha protect unprotect io_ok write_ok file
      in (opened, \<lparr>sv_client_id = None, sv_ready = opened, sv_outbox = (if opened then ob else outbox_close ob),
            sv_ingress = [], sv_inflight = [], sv_retry_after = []\<rparr>))"

definition service_stop :: "exam_service \<Rightarrow> exam_service" where
  "service_stop sv = sv\<lparr>sv_outbox := outbox_close (sv_outbox sv), sv_ready := False\<rparr>"

section \<open>The server\<close>

record exam_context =
  cx_client_id :: bytes
  cx_package_digest :: bytes
  cx_session_id :: bytes
  cx_package_id :: bytes
  cx_candidate_id :: bytes

definition matches_exam_context :: "exam_context \<Rightarrow> answer_event \<Rightarrow> bool" where
  "matches_exam_context c e \<longleftrightarrow>
     cx_client_id c = ev_client_id e \<and> cx_package_digest c = ev_package_digest e \<and>
     cx_session_id c = ev_session_id e \<and> cx_package_id c = ev_package_id e \<and>
     cx_candidate_id c = ev_candidate_id e"

text \<open>
  The handler of an answer event: the reply to send, or \<open>None\<close> when the connection is closed.
  \<open>context\<close> is the exam the server has started for the connection, \<open>hello_client\<close> the identity
  of the handshake.
\<close>

definition process_exam_answer_event ::
  "(bytes \<Rightarrow> bytes option) \<Rightarrow> u64 \<Rightarrow> append_io \<Rightarrow> exam_context option \<Rightarrow> bytes \<Rightarrow> bytes \<Rightarrow> journal \<Rightarrow> bytes option \<times> journal" where
  "process_exam_answer_event sha now io context hello_client message j =
     (case (decode_answer_event message, context) of
        (Some e, Some c) \<Rightarrow>
          if ev_client_id e \<noteq> hello_client \<or> \<not> matches_exam_context c e then (None, j)
          else
            let ((status, a), j') =
                  (if j_open j then journal_append sha now io e j
                   else ((Unavailable, default_ack\<lparr>ack_status := AckUnavailable, ack_session_id := ev_session_id e,
                            ack_sequence := ev_sequence e, ack_server_time := now\<rparr>), j));
                wire = encode_answer_ack a
            in (if wire = [] then None else Some wire, j')
      | _ \<Rightarrow> (None, j))"

section \<open>What the outbox keeps\<close>

abbreviation same_body :: "answer_event \<Rightarrow> answer_event \<Rightarrow> bool" where
  "same_body \<equiv> same_event_body_except_predecessor"

text \<open>
  A successful \<open>enqueue\<close> of \<open>e\<close>: it is pending, up to a rebase or as an event with the same hash, or
  it is the last event of a session that is settled.
\<close>

definition queued :: "(bytes \<Rightarrow> bytes option) \<Rightarrow> answer_event \<Rightarrow> outbox \<Rightarrow> bool" where
  "queued sha e ob \<longleftrightarrow>
     (\<exists>x \<in> set (ob_events ob). same_body e x \<or>
        hash_answer_event sha x = hash_answer_event sha e \<and> hash_answer_event sha e \<noteq> None) \<or>
     (\<exists>w. map_of (ob_watermarks ob) (event_key e) = Some w \<and> events_of (event_key e) (ob_events ob) = [] \<and>
        ev_sequence e = wm_highest w \<and> hash_answer_event sha e = Some (wm_last_hash w))"

definition kept :: "answer_event list \<Rightarrow> answer_event list \<Rightarrow> bool" where
  "kept xs ys \<longleftrightarrow> (\<forall>x \<in> set xs. \<exists>y \<in> set ys. same_body x y)"

lemma same_body_same [simp]: "same_body x x"
  by (simp add: same_event_body_except_predecessor_def)

lemma same_body_trans: "same_body x y \<Longrightarrow> same_body y z \<Longrightarrow> same_body x z"
  by (simp add: same_event_body_except_predecessor_def)

lemma same_body_key: "same_body x y \<Longrightarrow> event_key x = event_key y \<and> ev_sequence x = ev_sequence y"
  by (simp add: same_event_body_except_predecessor_def event_key_def)

lemma kept_same [simp]: "kept xs xs"
  unfolding kept_def using same_body_same by blast

lemma kept_snoc [simp]: "kept xs (xs @ [e])"
  unfolding kept_def using same_body_same by fastforce

lemma rebase_loop_bodies:
  "rebase_loop sha p is evs h = Some (evs', h') \<Longrightarrow> length evs' = length evs \<and> (\<forall>j. same_body (evs ! j) (evs' ! j))"
proof (induction "is" arbitrary: p evs h)
  case (Cons i "is")
  let ?c = "(evs ! i)\<lparr>ev_previous_hash := h\<rparr>"
  obtain h1 where "rebase_loop sha i is (evs[i := ?c]) h1 = Some (evs', h')"
    using Cons.prems by (auto simp: Let_def split: if_splits option.splits)
  from Cons.IH [OF this] have IH: "length evs' = length evs" "same_body (evs[i := ?c] ! j) (evs' ! j)" for j by auto
  have "same_body (evs ! j) (evs[i := ?c] ! j)" for j
    by (cases "i < length evs") (auto simp: nth_list_update same_body_refl list_update_beyond)
  then show ?case using IH same_body_trans by blast
qed simp

text \<open>The effect of an operation that changes only the session \<open>key\<close>.\<close>

definition effect :: "bytes \<Rightarrow> outbox \<Rightarrow> outbox \<Rightarrow> bool" where
  "effect key ob ob' \<longleftrightarrow> kept (ob_events ob) (ob_events ob') \<and>
     (ob' = ob \<or> events_of key (ob_events ob') \<noteq> [] \<and>
       (\<forall>k. k \<noteq> key \<longrightarrow> map_of (ob_watermarks ob') k = map_of (ob_watermarks ob) k))"

lemma effect_same [simp]: "effect key ob ob"
  by (simp add: effect_def)

lemma effect_commit:
  assumes "commit protect wok evs (omap_insert key w (ob_watermarks ob)) ob = (r, ob')" and "omap (ob_watermarks ob)"
    and "kept (ob_events ob) evs" and "e \<in> set evs" and "event_key e = key"
  shows "effect key ob ob'" "r \<Longrightarrow> e \<in> set (ob_events ob')"
  using assms(1)
  by (cases rule: commit_cases; use assms in \<open>auto simp: effect_def events_of_def filter_empty_conv\<close>)+

lemma rebase_effect:
  assumes "rebase sha protect wok e i w ob = (r, ob')" and "omap (ob_watermarks ob)" and "i < length (ob_events ob)"
    and "same_body (ob_events ob ! i) e"
  shows "effect (event_key e) ob ob' \<and> (r \<longrightarrow> (\<exists>x \<in> set (ob_events ob'). same_body e x))"
proof -
  have step: ?thesis
    if "rebase_loop sha i is ((ob_events ob)[i := e]) h = Some (evs, h')"
      and c: "commit protect wok evs (omap_insert (event_key e) w' (ob_watermarks ob)) ob = (r, ob')" for "is" h evs h' w'
  proof -
    have b: "length evs = length (ob_events ob)" "\<And>j. same_body ((ob_events ob)[i := e] ! j) (evs ! j)"
      using rebase_loop_bodies [OF that(1)] by auto
    have "same_body (ob_events ob ! j) (evs ! j)" if "j < length evs" for j
      using b(2) [of j] assms(3,4) that same_body_trans by (cases "j = i") auto
    then have k: "kept (ob_events ob) evs" using b(1) by (force simp: kept_def in_set_conv_nth)
    have ei: "same_body e (evs ! i)" using b(2) [of i] assms(3) by simp
    have "evs ! i \<in> set evs" "event_key (evs ! i) = event_key e"
      using assms(3) b(1) same_body_key [OF ei] by auto
    from effect_commit [OF c assms(2) k this] show ?thesis using ei by blast
  qed
  from assms(1) show ?thesis
    unfolding rebase_def Let_def by (auto split: option.splits if_splits intro!: step)
qed

lemma enqueue_effect:
  assumes "enqueue sha protect wok e ob = (r, ob')" and inv: "store_inv sha (ob_events ob) (ob_watermarks ob)"
  shows "effect (event_key e) ob ob' \<and> (r \<longrightarrow> queued sha e ob')"
proof (cases "ob_open ob \<and> validate_answer_event e \<and> hash_answer_event sha e \<noteq> None")
  case False
  then show ?thesis using assms(1) by (auto simp: enqueue_def split: if_splits)
next
  case True
  let ?P = "\<lambda>x. event_key x = event_key e \<and> ev_sequence x = ev_sequence e"
  note omap = store_invD(1) [OF inv]
  obtain h where h: "hash_answer_event sha e = Some h" using True by auto
  show ?thesis
  proof (cases "first_index ?P (ob_events ob)")
    case (Some i)
    have i: "i < length (ob_events ob)" "?P (ob_events ob ! i)" using first_index_Some [OF Some] by auto
    have stay: ?thesis if "hash_answer_event sha (ob_events ob ! i) = Some h" "ob' = ob"
      using that i(1) h nth_mem by (force simp: queued_def)
    have moved: ?thesis if "rebase sha protect wok e i w ob = (r, ob')" "same_body (ob_events ob ! i) e" for w
      using rebase_effect [OF that(1) omap i(1) that(2)] by (auto simp: queued_def)
    show ?thesis
      using assms(1) True h Some stay moved
      by (auto simp: enqueue_def Let_def split: option.splits if_splits)
  next
    case None
    then have absent: "\<not> ?P x" if "x \<in> set (ob_events ob)" for x using that by (auto simp: first_index_None)
    have settled: "events_of (event_key e) (ob_events ob) = []"
      if "map_of (ob_watermarks ob) (event_key e) = Some w" "ev_sequence e = wm_highest w" for w
      using chained_last [OF session_inv_chained [OF store_invD(5) [OF inv that(1)]]] that(2)
        absent last_in_set [of "events_of (event_key e) (ob_events ob)"]
      by (force simp: events_of_def)
    have new: ?thesis
      if "commit protect wok (ob_events ob @ [e]) (omap_insert (event_key e) w (ob_watermarks ob)) ob = (r, ob')" for w
      using effect_commit [OF that omap, of e] same_body_same by (auto simp: queued_def)
    have old: "queued sha e ob" if "map_of (ob_watermarks ob) (event_key e) = Some w" "ev_sequence e = wm_highest w"
        "h = wm_last_hash w" for w
      using settled [OF that(1,2)] that h by (auto simp: queued_def)
    show ?thesis
      using assms(1) True h None old new
      by (auto simp: enqueue_def Let_def split: option.splits if_splits)
  qed
qed

text \<open>An acknowledgement removes the events up to a pending event with exactly that hash, or nothing.\<close>

lemma acknowledge_effect:
  assumes ack: "acknowledge sha protect wok sid n h ob = (r, ob')"
    and inv: "store_inv sha (ob_events ob) (ob_watermarks ob)"
  obtains "ob' = ob"
  | x w where "x \<in> set (ob_events ob)" "ev_sequence x = n" "hash_answer_event sha x = Some h"
      "map_of (ob_watermarks ob) (event_key x) = Some w"
      "ob_events ob' = filter (\<lambda>e. \<not> (event_key e = event_key x \<and> ev_sequence e \<le> n)) (ob_events ob)"
      "ob_watermarks ob' = omap_insert (event_key x) (w\<lparr>wm_acked := n, wm_acked_hash := h\<rparr>) (ob_watermarks ob)"
proof -
  consider "ob' = ob" | key where "acknowledge_key sha protect wok key n h ob = (r, ob')"
    using ack by (auto simp: acknowledge_def Let_def split: if_splits)
  then show thesis
  proof cases
    case 1
    then show thesis by (rule that(1))
  next
    case (2 key)
    let ?P = "\<lambda>e. event_key e = key \<and> ev_sequence e = n"
    show thesis
    proof (cases "first_index ?P (ob_events ob)")
      case None
      have "ob' = ob"
      proof (cases "map_of (ob_watermarks ob) key")
        case (Some w)
        have "wm_acked w = wm_highest w \<or> n \<noteq> wm_highest w"
          using chained_last [OF session_inv_chained [OF store_invD(5) [OF inv Some]]] None
            last_in_set [of "events_of key (ob_events ob)"] session_inv_chained [OF store_invD(5) [OF inv Some]]
          by (cases "events_of key (ob_events ob) = []") (auto simp: first_index_None events_of_def)
        then show ?thesis using 2 None Some by (auto simp: acknowledge_key_def split: if_splits)
      qed (use 2 None in \<open>simp add: acknowledge_key_def\<close>)
      then show thesis by (rule that(1))
    next
      case (Some i)
      let ?x = "ob_events ob ! i"
      have x: "?x \<in> set (ob_events ob)" "event_key ?x = key" "ev_sequence ?x = n"
        using first_index_Some [OF Some] by auto
      obtain w where w: "map_of (ob_watermarks ob) key = Some w" using store_invD(6) [OF inv x(1)] x(2) by auto
      consider "ob' = ob" | "hash_answer_event sha ?x = Some h"
          "commit protect wok (filter (\<lambda>e. \<not> (event_key e = key \<and> ev_sequence e \<le> n)) (ob_events ob))
             (omap_insert key (w\<lparr>wm_acked := n, wm_acked_hash := h\<rparr>) (ob_watermarks ob)) ob = (r, ob')"
        using 2 Some w by (auto simp: acknowledge_key_def Let_def split: if_splits)
      then show thesis
      proof cases
        case 1
        then show thesis by (rule that(1))
      next
        case step: 2
        from step(2) show thesis
        proof (cases rule: commit_cases)
          case 1
          then show thesis by (intro that(1))
        next
          case (2 stored)
          show thesis
            by (rule that(2) [OF x(1,3) step(1)]) (use w x(2) in \<open>simp_all add: 2\<close>)
        qed
      qed
    qed
  qed
qed

section \<open>The two chains\<close>

lemma load_event_follows:
  assumes "load_event ss e h = Inr ss'"
  shows "sd_highest_sequence (lookup_session ss e) \<noteq> -1"
    "ev_sequence e = sd_highest_sequence (lookup_session ss e) + 1"
    "ev_previous_hash e = sd_last_hash (lookup_session ss e)"
  using assms by (auto simp: load_event_def apply_recovered_def Let_def split: if_splits option.splits)

lemma session_spec_last:
  assumes "session_spec sha fs s"
  shows "fs \<noteq> []" "ev_sequence (last fs) = sd_highest_sequence s" "hash_answer_event sha (last fs) = Some (sd_last_hash s)"
proof -
  show ne: "fs \<noteq> []" using assms by (simp add: session_spec_def)
  then have "length fs - 1 < length fs" by (cases fs) auto
  then have "unat (ev_sequence (fs ! (length fs - 1))) = length fs"
    using assms ne unfolding session_spec_def by (metis Suc_diff_1 length_greater_0_conv)
  then show "ev_sequence (last fs) = sd_highest_sequence s"
    using assms ne by (simp add: session_spec_def last_conv_nth word_unat_eq_iff)
  show "hash_answer_event sha (last fs) = Some (sd_last_hash s)" using assms by (simp add: session_spec_def)
qed

lemma log_chained:
  "list_all event_ok es \<Longrightarrow> replay sha es [] = Some ss \<Longrightarrow> \<exists>b g. chained sha 0 (replicate 32 0) (events_of k es) b g"
proof (induction es arbitrary: ss rule: rev_induct)
  case (snoc e es)
  obtain ss1 where "replay sha es [] = Some ss1" "replay sha [e] ss1 = Some ss"
    using snoc.prems(2) by (auto simp: replay_append bind_eq_Some_conv)
  then obtain h where r: "replay sha es [] = Some ss1" "hash_answer_event sha e = Some h" "load_event ss1 e h = Inr ss"
    by (cases "hash_answer_event sha e"; cases "load_event ss1 e (the (hash_answer_event sha e))") auto
  let ?s = "lookup_session ss1 e" and ?fs = "events_of (event_key e) es"
  obtain b g where c: "chained sha 0 (replicate 32 0) (events_of k es) b g" using snoc r(1) by fastforce
  show ?case
  proof (cases "event_key e = k")
    case True
    note spec = replay_spec [OF _ r(1)]
    have "b = sd_highest_sequence ?s \<and> g = sd_last_hash ?s"
    proof (cases "map_of ss1 k")
      case None
      then have "?fs = []" using sessions_spec_None [OF spec] snoc.prems(1) True by simp
      then show ?thesis using c True None by (simp add: lookup_session_def fresh_session_def)
    next
      case (Some s)
      then have s: "session_spec sha ?fs s" "?s = s" using sessions_spec_Some [OF spec] snoc.prems(1) True
        by (auto simp: lookup_session_def)
      then show ?thesis using chained_last [OF c] session_spec_last [OF s(1)] True by simp
    qed
    then have "chained sha b g [e] (b + 1) h" using load_event_follows [OF r(3)] r(2) by simp
    then show ?thesis using c True by (auto simp: chained_append)
  next
    case False
    then show ?thesis using c by auto
  qed
next
  case Nil
  have "chained sha 0 (replicate 32 0) [] 0 (replicate 32 0)" by simp
  then show ?case unfolding events_of_simps by blast
qed

text \<open>Different events of \<open>E\<close> have different hashes.\<close>

definition no_collision :: "(bytes \<Rightarrow> bytes option) \<Rightarrow> answer_event set \<Rightarrow> bool" where
  "no_collision sha E \<longleftrightarrow>
     (\<forall>x \<in> E. \<forall>y \<in> E. hash_answer_event sha x = hash_answer_event sha y \<and> hash_answer_event sha x \<noteq> None \<longrightarrow> x = y)"

lemma no_collisionD:
  "no_collision sha E \<Longrightarrow> hash_answer_event sha x = Some h \<Longrightarrow> hash_answer_event sha y = Some h \<Longrightarrow>
   x \<in> E \<Longrightarrow> y \<in> E \<Longrightarrow> x = y"
  unfolding no_collision_def by force

lemma chained_snoc:
  "chained sha a h (xs @ [x]) b g \<longleftrightarrow>
     (\<exists>c. chained sha a h xs c (ev_previous_hash x) \<and> c \<noteq> -1 \<and> b = c + 1 \<and> ev_sequence x = b \<and> hash_answer_event sha x = Some g)"
  by (auto simp: chained_append)

text \<open>Two chains that meet are the same from the later of their starts on.\<close>

lemma chains_meet:
  assumes "no_collision sha E"
  shows "chained sha a h xs c k \<Longrightarrow> chained sha 0 z ys c k \<Longrightarrow> set xs \<subseteq> E \<Longrightarrow> set ys \<subseteq> E \<Longrightarrow> set xs \<subseteq> set ys"
proof (induction xs arbitrary: ys c k rule: rev_induct)
  case (snoc x xs)
  then obtain c' where x: "chained sha a h xs c' (ev_previous_hash x)" "c' \<noteq> -1" "c = c' + 1" "hash_answer_event sha x = Some k"
    by (auto simp: chained_snoc)
  have "c \<noteq> 0" using x(2,3) by (metis add_eq_0_iff2)
  then obtain y ys' where ys: "ys = ys' @ [y]" using snoc.prems(2) by (cases ys rule: rev_cases) auto
  then obtain c'' where y: "chained sha 0 z ys' c'' (ev_previous_hash y)" "c = c'' + 1" "hash_answer_event sha y = Some k"
    using snoc.prems(2) by (auto simp: chained_snoc)
  have xy: "x = y" using no_collisionD [OF assms x(4) y(3)] snoc.prems(3,4) ys by simp
  have "c'' = c'" using x(3) y(2) by simp
  then show ?case using snoc.IH [OF x(1)] y(1) snoc.prems(3,4) xy ys by auto
qed simp

lemma chains_agree:
  assumes "no_collision sha E" and c: "chained sha a h fs b g" "chained sha 0 z ls b' g'" and "set fs \<subseteq> E" "set ls \<subseteq> E"
    and x: "x \<in> set fs" "x \<in> set ls" and y: "y \<in> set fs" "ev_sequence y \<le> ev_sequence x"
  shows "y \<in> set ls"
proof -
  obtain fs1 fs2 where fs: "fs = fs1 @ x # fs2" using x(1) by (meson split_list)
  obtain ls1 ls2 where ls: "ls = ls1 @ x # ls2" using x(2) by (meson split_list)
  obtain c1 where c1: "chained sha a h fs1 c1 (ev_previous_hash x)" "c1 \<noteq> -1" "ev_sequence x = c1 + 1"
    and rest: "\<exists>h'. chained sha (ev_sequence x) h' fs2 b g"
    using c(1) by (auto simp: fs chained_append)
  obtain c2 where c2: "chained sha 0 z ls1 c2 (ev_previous_hash x)" "ev_sequence x = c2 + 1"
    using c(2) by (auto simp: ls chained_append)
  have "c2 = c1" using c1(3) c2(2) by simp
  then have "set fs1 \<subseteq> set ls1" using chains_meet [OF assms(1) c1(1)] c2(1) assms(4,5) fs ls by auto
  moreover have "y \<notin> set fs2" using rest chained_bounds(3) y(2) by (metis leD)
  ultimately show ?thesis using y(1) fs ls by auto
qed

section \<open>The server's replies\<close>

lemma lookup_session_id:
  assumes "sessions_spec sha es ss" and "list_all event_ok es" and "event_wf e"
  shows "length (sd_session_id (lookup_session ss e)) = 16"
proof (cases "map_of ss (event_key e)")
  case None
  then show ?thesis using assms(3) by (simp add: lookup_session_def fresh_session_def event_wf_def)
next
  case (Some s)
  note spec = sessions_spec_Some [OF assms(1) Some]
  then obtain x where "x \<in> set (events_of (event_key e) es)" "ev_session_id x = sd_session_id s"
    using session_spec_last(1) [OF spec] by (cases "events_of (event_key e) es") (auto simp: session_spec_def)
  then show ?thesis using assms(2) Some by (auto simp: lookup_session_def events_of_def list_all_iff event_ok_def event_wf_def)
qed

lemma state_hash_length: "digest_ok sha \<Longrightarrow> length (state_hash sha s) = 32"
  by (auto simp: state_hash_def digest_ok_def Let_def split: option.splits)

lemma make_ack_wf:
  "digest_ok sha \<Longrightarrow> length (sd_session_id s) = 16 \<Longrightarrow> length h = 32 \<Longrightarrow> ack_wf (make_ack sha now s status n h)"
  by (simp add: ack_wf_def make_ack_def state_hash_length)

lemma apply_recovered_id: "apply_recovered s e h = Some s' \<Longrightarrow> sd_session_id s' = sd_session_id s"
  by (auto simp: apply_recovered_def Let_def split: if_splits answer_kind.splits)

text \<open>Every acknowledgement is well formed, and an affirmative one names the hash of an event of the log.\<close>

lemma append_ack:
  assumes "digest_ok sha" and log: "journal_log sha j es" and op: "j_open j" and "event_wf e"
    and ap: "journal_append sha now io e j = ((status, a), j')"
  shows "ack_wf a"
    "ack_status a = AckAccepted \<Longrightarrow> status = Accepted \<and> hash_answer_event sha e = Some (ack_event_hash a)"
    "ack_status a = AckDuplicate \<Longrightarrow> \<exists>y \<in> set es. hash_answer_event sha y = Some (ack_event_hash a)"
proof -
  obtain ss where ss: "list_all event_ok es" "replay sha es [] = Some ss" "j_sessions j = ss"
    using log op by (auto simp: journal_log_def)
  note spec = replay_spec [OF ss(1,2)]
  let ?s = "lookup_session ss e"
  have id: "length (sd_session_id ?s) = 16" by (rule lookup_session_id [OF spec ss(1) assms(4)])
  have ex: "\<exists>y \<in> set es. hash_answer_event sha y = Some g" if "map_of (sd_event_hashes ?s) n = Some g" for n g
  proof (cases "map_of ss (event_key e)")
    case None
    then show ?thesis using that by (simp add: lookup_session_def fresh_session_def)
  next
    case (Some s)
    have "map_of (sd_event_hashes s) n = Some g" using that Some by (simp add: lookup_session_def)
    then obtain i where "i < length (events_of (event_key e) es)" "hash_answer_event sha (events_of (event_key e) es ! i) = Some g"
      using sessions_spec_Some [OF spec Some] unfolding session_spec_def
      by (metis (no_types, lifting) One_nat_def Suc_le_eq Suc_pred less_eq_Suc_le option.distinct(1) zero_less_one_class.zero_le_one)
    then show ?thesis using nth_mem [of i "events_of (event_key e) es"] by (auto simp: events_of_def)
  qed
  have wf: "ack_wf (make_ack sha now s' st n h)" if "sd_session_id s' = sd_session_id ?s" "length h = 32" for s' st n h
    using make_ack_wf [OF assms(1)] that id by simp
  have len: "length g = 32" if "map_of (sd_event_hashes ?s) n = Some g" for n g
    using ex [OF that] hash_length [OF assms(1)] by blast
  have default: "ack_wf default_ack" by (simp add: ack_wf_def default_ack_def)
  have status: "ack_status (make_ack sha now s st n h) = st" "ack_event_hash (make_ack sha now s st n h) = h" for s st n h
    by (simp_all add: make_ack_def)
  show "ack_wf a"
    using ap op wf len default hash_length [OF assms(1)] apply_recovered_id
    unfolding journal_append_def ss(3) Let_def by (auto split: option.splits if_splits prod.splits)
  show "ack_status a = AckAccepted \<Longrightarrow> status = Accepted \<and> hash_answer_event sha e = Some (ack_event_hash a)"
    using ap op unfolding journal_append_def ss(3) Let_def
    by (auto simp: status default_ack_def split: option.splits if_splits prod.splits)
  show "ack_status a = AckDuplicate \<Longrightarrow> \<exists>y \<in> set es. hash_answer_event sha y = Some (ack_event_hash a)"
    using ap op ex unfolding journal_append_def ss(3) Let_def
    by (auto simp: status default_ack_def split: option.splits if_splits prod.splits)
qed

lemma encoded_ack:
  assumes "ack_wf a" and "decode_answer_ack (encode_answer_ack a) = Some b"
  shows "b = a"
proof -
  have "encode_answer_ack a \<noteq> []" using assms(2) by (auto simp: decode_answer_ack_def sync_limits)
  then have "ack_ok a" using assms(1) by (auto simp: encode_answer_ack_def ack_ok_def split: if_splits)
  then show ?thesis using ack_enc assms(2) by simp
qed

lemma process_event_log:
  assumes "digest_ok sha" and log: "journal_log sha j es"
    and pr: "process_exam_answer_event sha now io c client m j = (reply, j')"
  shows "\<exists>es'. journal_log sha j' es' \<and> set es \<subseteq> set es' \<and> set es' \<subseteq> set es \<union> set_option (decode_answer_event m) \<and>
    (\<forall>a. reply \<noteq> None \<and> decode_answer_ack (the reply) = Some a \<and> (ack_status a = AckAccepted \<or> ack_status a = AckDuplicate) \<longrightarrow>
       (\<exists>y \<in> set es'. hash_answer_event sha y = Some (ack_event_hash a)))"
proof -
  consider (refused) "reply = None" "j' = j"
    | (down) e a where "decode_answer_event m = Some e" "j' = j" "reply = None \<or> reply = Some (encode_answer_ack a)"
        "\<not> j_open j" "a = default_ack\<lparr>ack_status := AckUnavailable, ack_session_id := ev_session_id e,
           ack_sequence := ev_sequence e, ack_server_time := now\<rparr>"
    | (appended) e status a where "decode_answer_event m = Some e" "j_open j" "reply = None \<or> reply = Some (encode_answer_ack a)"
        "journal_append sha now io e j = ((status, a), j')"
    using pr by (auto simp: process_exam_answer_event_def Let_def split: option.splits if_splits prod.splits)
  then show ?thesis
  proof cases
    case refused
    then show ?thesis using log by (intro exI [of _ es]) auto
  next
    case down
    have "event_ok e" using event_dec [OF down(1)] by simp
    then have wf: "ack_wf a" using down(5) by (simp add: ack_wf_def default_ack_def event_ok_def event_wf_def)
    have "ack_status b = AckUnavailable" if "decode_answer_ack (encode_answer_ack a) = Some b" for b
      using encoded_ack [OF wf that] down(5) by simp
    then show ?thesis using down log by (intro exI [of _ es]) auto
  next
    case appended
    have e: "event_wf e" using event_dec [OF appended(1)] by (simp add: event_ok_def)
    note ack = append_ack [OF assms(1) log appended(2) e appended(4)]
    have same: "b = a" if "decode_answer_ack (encode_answer_ack a) = Some b" for b
      by (rule encoded_ack [OF ack(1) that])
    from journal_append_log [OF log appended(4) e] show ?thesis
    proof (elim disjE conjE)
      assume "journal_log sha j' (es @ [e])"
      then show ?thesis using appended(1,3) ack(2,3) same by (intro exI [of _ "es @ [e]"]) auto
    next
      assume "status \<noteq> Accepted" "journal_log sha j' es"
      then show ?thesis using appended(1,3) ack(2,3) same by (intro exI [of _ es]) auto
    qed
  qed
qed

section \<open>Runs of client and server\<close>

definition held :: "outbox \<Rightarrow> answer_event set" where
  "held ob = (if ob_open ob then set (ob_events ob) else {})"

text \<open>
  A run of one client service and the server. \<open>acks\<close> are the replies the server has sent so far:
  each may reach the client any number of times, at any time or never. What the server receives
  is arbitrary: any message of this client, in any order and multiplicity, or of another one.
  The events in play are those of \<open>E\<close>. \<open>taken\<close> collects the events the outbox ever held and those it
  reported as queued.
\<close>

inductive delivery_run ::
  "(bytes \<Rightarrow> bytes option) \<Rightarrow> (bytes \<Rightarrow> bytes option) \<Rightarrow> (bytes \<Rightarrow> bytes option) \<Rightarrow> answer_event set \<Rightarrow>
   exam_service \<Rightarrow> journal \<Rightarrow> bytes set \<Rightarrow> answer_event set \<Rightarrow> bool"
  for sha protect unprotect E where
  start: "service_start sha protect unprotect io wok None = (r, sv) \<Longrightarrow> journal_open sha True t [] = Inr j \<Longrightarrow>
     delivery_run sha protect unprotect E sv j {} {}"
| page: "delivery_run sha protect unprotect E sv j acks taken \<Longrightarrow>
     queue_exam_event_payload sha protect wok m sv = (r, sv') \<Longrightarrow> set_option (decode_answer_event m) \<subseteq> E \<Longrightarrow>
     held (sv_outbox sv') \<subseteq> E \<Longrightarrow>
     delivery_run sha protect unprotect E sv' j acks
       (taken \<union> held (sv_outbox sv') \<union> (if r then set_option (decode_answer_event m) else {}))"
| drain: "delivery_run sha protect unprotect E sv j acks taken \<Longrightarrow> sv' = drain_exam_ingress sha protect woks sv \<Longrightarrow>
     held (sv_outbox sv') \<subseteq> E \<Longrightarrow> delivery_run sha protect unprotect E sv' j acks (taken \<union> held (sv_outbox sv'))"
| send: "delivery_run sha protect unprotect E sv j acks taken \<Longrightarrow> next_answer_event sha now sv = (m, sv') \<Longrightarrow>
     delivery_run sha protect unprotect E sv' j acks taken"
| reply: "delivery_run sha protect unprotect E sv j acks taken \<Longrightarrow> m \<in> acks \<Longrightarrow>
     handle_answer_ack sha protect wok now m sv = (r, sv') \<Longrightarrow> delivery_run sha protect unprotect E sv' j acks taken"
| disconnect: "delivery_run sha protect unprotect E sv j acks taken \<Longrightarrow>
     delivery_run sha protect unprotect E (clear_exam_inflight sv) j acks taken"
| identity: "delivery_run sha protect unprotect E sv j acks taken \<Longrightarrow>
     sv' = set_configured_client_id client sv \<or> sv' = clear_configured_client_id sv \<Longrightarrow>
     delivery_run sha protect unprotect E sv' j acks taken"
| stop: "delivery_run sha protect unprotect E sv j acks taken \<Longrightarrow>
     delivery_run sha protect unprotect E (service_stop sv) j acks taken"
| restart: "delivery_run sha protect unprotect E sv j acks taken \<Longrightarrow>
     service_start sha protect unprotect io wok (ob_file (sv_outbox sv)) = (r, sv') \<Longrightarrow>
     delivery_run sha protect unprotect E sv' j acks taken"
| receive: "delivery_run sha protect unprotect E sv j acks taken \<Longrightarrow>
     process_exam_answer_event sha now_ms io c client m j = (answer, j') \<Longrightarrow> set_option (decode_answer_event m) \<subseteq> E \<Longrightarrow>
     delivery_run sha protect unprotect E sv j' (acks \<union> set_option answer) taken"
| reopen: "delivery_run sha protect unprotect E sv j acks taken \<Longrightarrow>
     journal_open sha True True (j_file j) = Inr j' \<Longrightarrow> delivery_run sha protect unprotect E sv j' acks taken"
| close: "delivery_run sha protect unprotect E sv j acks taken \<Longrightarrow>
     delivery_run sha protect unprotect E sv (journal_close j) acks taken"

text \<open>
  The invariant: what is affirmed, or settled in the outbox, is in the log; what was taken is in
  the outbox file or in the log.
\<close>

definition covered ::
  "(bytes \<Rightarrow> bytes option) \<Rightarrow> answer_event set \<Rightarrow> answer_event list \<Rightarrow> watermarks \<Rightarrow> answer_event list \<Rightarrow>
   bytes set \<Rightarrow> answer_event set \<Rightarrow> bool" where
  "covered sha E evs wms es acks taken \<longleftrightarrow> set evs \<subseteq> E \<and> set es \<subseteq> E \<and>
     (\<forall>m \<in> acks. \<forall>a. decode_answer_ack m = Some a \<and> (ack_status a = AckAccepted \<or> ack_status a = AckDuplicate) \<longrightarrow>
        (\<exists>y \<in> set es. hash_answer_event sha y = Some (ack_event_hash a))) \<and>
     (\<forall>t \<in> taken. \<exists>y \<in> set evs \<union> set es. same_body t y) \<and>
     (\<forall>k w. map_of wms k = Some w \<and> events_of k evs = [] \<longrightarrow>
        (\<exists>y \<in> set es. hash_answer_event sha y = Some (wm_last_hash w)))"

definition delivery_inv ::
  "(bytes \<Rightarrow> bytes option) \<Rightarrow> (bytes \<Rightarrow> bytes option) \<Rightarrow> answer_event set \<Rightarrow> exam_service \<Rightarrow> journal \<Rightarrow> bytes set \<Rightarrow>
   answer_event set \<Rightarrow> bool" where
  "delivery_inv sha protect E sv j acks taken \<longleftrightarrow> (\<forall>e \<in> set (sv_ingress sv). event_wf e) \<and>
     (\<exists>evs wms es. outbox_repr sha protect (sv_outbox sv) evs wms \<and> journal_log sha j es \<and>
        covered sha E evs wms es acks taken)"

lemma coveredD:
  assumes "covered sha E evs wms es acks taken"
  shows "set evs \<subseteq> E" "set es \<subseteq> E" "t \<in> taken \<Longrightarrow> \<exists>y \<in> set evs \<union> set es. same_body t y"
    "m \<in> acks \<Longrightarrow> decode_answer_ack m = Some a \<Longrightarrow> ack_status a = AckAccepted \<or> ack_status a = AckDuplicate \<Longrightarrow>
       \<exists>y \<in> set es. hash_answer_event sha y = Some (ack_event_hash a)"
    "map_of wms k = Some w \<Longrightarrow> events_of k evs = [] \<Longrightarrow> \<exists>y \<in> set es. hash_answer_event sha y = Some (wm_last_hash w)"
  using assms unfolding covered_def by simp_all

lemma coveredI:
  assumes "set evs \<subseteq> E" "set es \<subseteq> E" "\<And>t. t \<in> taken \<Longrightarrow> \<exists>y \<in> set evs \<union> set es. same_body t y"
    "\<And>m a. m \<in> acks \<Longrightarrow> decode_answer_ack m = Some a \<Longrightarrow> ack_status a = AckAccepted \<or> ack_status a = AckDuplicate \<Longrightarrow>
       \<exists>y \<in> set es. hash_answer_event sha y = Some (ack_event_hash a)"
    "\<And>k w. map_of wms k = Some w \<Longrightarrow> events_of k evs = [] \<Longrightarrow> \<exists>y \<in> set es. hash_answer_event sha y = Some (wm_last_hash w)"
  shows "covered sha E evs wms es acks taken"
  unfolding covered_def by (intro conjI allI ballI impI; (elim conjE)?) (fact assms | rule assms, assumption+)+

text \<open>Operations that only add to the outbox.\<close>

definition grows :: "outbox \<Rightarrow> outbox \<Rightarrow> bool" where
  "grows ob ob' \<longleftrightarrow> kept (ob_events ob) (ob_events ob') \<and>
     (\<forall>k. events_of k (ob_events ob') = [] \<longrightarrow> map_of (ob_watermarks ob') k = map_of (ob_watermarks ob) k)"

lemma kept_empty: "kept xs ys \<Longrightarrow> events_of k ys = [] \<Longrightarrow> events_of k xs = []"
  unfolding kept_def events_of_def filter_empty_conv by (metis same_body_key)

lemma kept_trans: "kept xs ys \<Longrightarrow> kept ys zs \<Longrightarrow> kept xs zs"
  unfolding kept_def by (meson same_body_trans)

lemma grows_same [simp]: "grows ob ob"
  by (simp add: grows_def)

lemma grows_trans: "grows a b \<Longrightarrow> grows b c \<Longrightarrow> grows a c"
  unfolding grows_def by (metis kept_trans kept_empty)

lemma effect_grows: "effect k ob ob' \<Longrightarrow> grows ob ob'"
  by (auto simp: effect_def grows_def)

lemma enqueue_repr:
  assumes "digest_ok sha" and "outbox_repr sha protect ob evs wms" and "ob_open ob" and "event_wf e"
    and "enqueue sha protect wok e ob = (r, ob')"
  shows "outbox_repr sha protect ob' (ob_events ob') (ob_watermarks ob')" "ob_open ob'" "grows ob ob'"
    "r \<Longrightarrow> queued sha e ob'"
proof -
  have inv: "store_inv sha (ob_events ob) (ob_watermarks ob)"
    using outbox_repr_open [OF assms(2,3)] by (metis persisted_def)
  show "outbox_repr sha protect ob' (ob_events ob') (ob_watermarks ob')" "ob_open ob'"
    using commits_repr [OF assms(2,3)] enqueue_commits [OF assms(1) inv assms(4)] assms(5) by metis+
  show "grows ob ob'" "r \<Longrightarrow> queued sha e ob'"
    using enqueue_effect [OF assms(5) inv] effect_grows by blast+
qed

lemma drain_repr:
  assumes "digest_ok sha"
  shows "drain_loop sha protect woks client ready batch retry ob = (retry', ob') \<Longrightarrow>
    outbox_repr sha protect ob (ob_events ob) (ob_watermarks ob) \<Longrightarrow> ob_open ob \<Longrightarrow>
    \<forall>e \<in> set batch \<union> set retry. event_wf e \<Longrightarrow>
    outbox_repr sha protect ob' (ob_events ob') (ob_watermarks ob') \<and> ob_open ob' \<and> grows ob ob' \<and>
    (\<forall>e \<in> set retry'. event_wf e)"
proof (induction batch arbitrary: retry ob)
  case (Cons e batch)
  consider "drain_loop sha protect woks client ready batch retry ob = (retry', ob')"
    | "drain_loop sha protect woks client ready batch (retry @ [e]) ob = (retry', ob')"
    | r ob1 where "enqueue sha protect (woks (length batch)) e ob = (r, ob1)"
        "drain_loop sha protect woks client ready batch (if r then retry else retry @ [e]) ob1 = (retry', ob')"
    using Cons.prems(1) by (auto simp: Let_def split: if_splits prod.splits)
  then show ?case
  proof cases
    case 1
    then show ?thesis using Cons.IH [OF 1 Cons.prems(2,3)] Cons.prems(4) by simp
  next
    case 2
    then show ?thesis using Cons.IH [OF 2 Cons.prems(2,3)] Cons.prems(4) by simp
  next
    case (3 r ob1)
    have "event_wf e" using Cons.prems(4) by simp
    note step = enqueue_repr [OF assms Cons.prems(2,3) this 3(1)]
    have "\<forall>x \<in> set batch \<union> set (if r then retry else retry @ [e]). event_wf x" using Cons.prems(4) by auto
    from Cons.IH [OF 3(2) step(1,2) this] show ?thesis using grows_trans [OF step(3)] by blast
  qed
qed auto

lemma drain_closed:
  "drain_loop sha protect woks client ready batch retry ob = (retry', ob') \<Longrightarrow> \<not> ob_open ob \<Longrightarrow>
   ob' = ob \<and> set retry' \<subseteq> set batch \<union> set retry"
proof (induction batch arbitrary: retry)
  case (Cons e batch)
  then have "drain_loop sha protect woks client ready batch retry ob = (retry', ob') \<or>
      drain_loop sha protect woks client ready batch (retry @ [e]) ob = (retry', ob')"
    by (auto simp: enqueue_def Let_def split: if_splits)
  then show ?case using Cons.IH Cons.prems(2) by fastforce
qed simp

lemma push_ingress_set: "set (push_ingress e q) \<subseteq> insert e (set q)"
  by (cases q) (auto simp: push_ingress_def)

lemma push_ingress_fold: "set (fold push_ingress es q) \<subseteq> set es \<union> set q"
  using push_ingress_set by (induction es arbitrary: q) fastforce+

lemma grows_covered:
  assumes "covered sha E (ob_events ob) (ob_watermarks ob) es acks taken" and "grows ob ob'" and "set (ob_events ob') \<subseteq> E"
  shows "covered sha E (ob_events ob') (ob_watermarks ob') es acks (taken \<union> set (ob_events ob'))"
proof -
  have kept: "kept (ob_events ob) (ob_events ob')" using assms(2) by (simp add: grows_def)
  have "\<exists>y \<in> set (ob_events ob') \<union> set es. same_body t y" if "t \<in> taken" for t
    using coveredD(3) [OF assms(1) that] kept same_body_trans unfolding kept_def by (metis Un_iff)
  moreover have "\<exists>y \<in> set (ob_events ob') \<union> set es. same_body t y" if "t \<in> set (ob_events ob')" for t
    using that same_body_same by blast
  moreover have "\<exists>y \<in> set es. hash_answer_event sha y = Some (wm_last_hash w)"
    if "map_of (ob_watermarks ob') k = Some w" "events_of k (ob_events ob') = []" for k w
    using coveredD(5) [OF assms(1) _ kept_empty [OF kept that(2)]] assms(2) that unfolding grows_def by simp
  ultimately show ?thesis
    by (intro coveredI) (use assms(3) coveredD(2,4) [OF assms(1)] in auto)
qed

lemma queued_covered:
  assumes "no_collision sha E" and "covered sha E (ob_events ob) (ob_watermarks ob) es acks taken"
    and "queued sha e ob" and "e \<in> E"
  shows "covered sha E (ob_events ob) (ob_watermarks ob) es acks (insert e taken)"
proof -
  note sub = coveredD(1,2) [OF assms(2)]
  have "\<exists>y \<in> set (ob_events ob) \<union> set es. same_body e y"
  proof (rule disjE [OF assms(3) [unfolded queued_def]])
    assume "\<exists>x \<in> set (ob_events ob). same_body e x \<or>
        hash_answer_event sha x = hash_answer_event sha e \<and> hash_answer_event sha e \<noteq> None"
    then obtain x where x: "x \<in> set (ob_events ob)" "same_body e x \<or>
        hash_answer_event sha x = hash_answer_event sha e \<and> hash_answer_event sha e \<noteq> None" by blast
    have "same_body e x"
      using x(2)
    proof
      assume "hash_answer_event sha x = hash_answer_event sha e \<and> hash_answer_event sha e \<noteq> None"
      then obtain h where "hash_answer_event sha x = Some h" "hash_answer_event sha e = Some h" by auto
      then have "x = e" using no_collisionD [OF assms(1)] assms(4) sub(1) x(1) by blast
      then show ?thesis by (simp only: same_body_same)
    qed
    then show ?thesis using x(1) by blast
  next
    assume "\<exists>w. map_of (ob_watermarks ob) (event_key e) = Some w \<and> events_of (event_key e) (ob_events ob) = [] \<and>
        ev_sequence e = wm_highest w \<and> hash_answer_event sha e = Some (wm_last_hash w)"
    then obtain w where w: "map_of (ob_watermarks ob) (event_key e) = Some w" "events_of (event_key e) (ob_events ob) = []"
        "hash_answer_event sha e = Some (wm_last_hash w)" by blast
    obtain y where y: "y \<in> set es" "hash_answer_event sha y = Some (wm_last_hash w)"
      using coveredD(5) [OF assms(2) w(1,2)] by blast
    have "y = e" using no_collisionD [OF assms(1) y(2) w(3)] sub(2) assms(4) y(1) by blast
    then show ?thesis using y(1) same_body_same [of e] by blast
  qed
  then show ?thesis
    by (intro coveredI) (use coveredD [OF assms(2)] in auto)
qed

lemma acknowledge_covered:
  assumes nc: "no_collision sha E" and log: "journal_log sha j es"
    and inv: "store_inv sha (ob_events ob) (ob_watermarks ob)"
    and cov: "covered sha E (ob_events ob) (ob_watermarks ob) es acks taken"
    and y: "y \<in> set es" "hash_answer_event sha y = Some h" and ack: "acknowledge sha protect wok sid n h ob = (r, ob')"
  shows "covered sha E (ob_events ob') (ob_watermarks ob') es acks taken"
  using ack inv
proof (cases rule: acknowledge_effect)
  case 1
  then show ?thesis using cov by simp
next
  case (2 x w)
  note sub = coveredD(1,2) [OF cov]
  let ?k = "event_key x"
  have xy: "x = y" using no_collisionD [OF nc 2(3) y(2)] 2(1) y(1) sub by blast
  obtain ss where es: "list_all event_ok es" "replay sha es [] = Some ss" using log by (auto simp: journal_log_def)
  obtain b g where ls: "chained sha 0 (replicate 32 0) (events_of ?k es) b g" using log_chained [OF es] by blast
  note fs = session_inv_chained [OF store_invD(5) [OF inv 2(4)]]
  have removed: "z \<in> set es" if "z \<in> set (ob_events ob)" "event_key z = ?k" "ev_sequence z \<le> n" for z
  proof -
    have "set (events_of ?k (ob_events ob)) \<subseteq> E" "set (events_of ?k es) \<subseteq> E" using sub by (auto simp: events_of_def)
    moreover have "x \<in> set (events_of ?k (ob_events ob))" "x \<in> set (events_of ?k es)" "z \<in> set (events_of ?k (ob_events ob))"
      using 2(1) y(1) xy that(1,2) by (auto simp: events_of_def)
    ultimately have "z \<in> set (events_of ?k es)" using chains_agree [OF nc fs ls] that(3) 2(2) by blast
    then show ?thesis by (simp add: events_of_def)
  qed
  have taken: "\<exists>z \<in> set (ob_events ob') \<union> set es. same_body t z" if "t \<in> taken" for t
  proof -
    note old = coveredD(3) [OF cov that]
    obtain z where z: "z \<in> set (ob_events ob) \<union> set es" "same_body t z" using old by blast
    have "z \<in> set (ob_events ob') \<union> set es" using z(1) removed 2(5) by auto
    then show ?thesis using z(2) by blast
  qed
  have settled: "\<exists>z \<in> set es. hash_answer_event sha z = Some (wm_last_hash v)"
    if v: "map_of (ob_watermarks ob') k = Some v" and none: "events_of k (ob_events ob') = []" for k v
  proof (cases "k = ?k")
    case True
    have v_eq: "v = w\<lparr>wm_acked := n, wm_acked_hash := h\<rparr>" using v True 2(6) store_invD(1) [OF inv] by simp
    have ne: "events_of ?k (ob_events ob) \<noteq> []" using 2(1) by (auto simp: events_of_def filter_empty_conv)
    let ?l = "last (events_of ?k (ob_events ob))"
    have l: "?l \<in> set (ob_events ob)" "event_key ?l = ?k" using last_in_set [OF ne] by (auto simp: events_of_def)
    have "hash_answer_event sha ?l = Some (wm_last_hash w)" using chained_last [OF fs ne] by simp
    moreover have "?l \<in> set es"
      using removed [OF l] l none True 2(5) by (auto simp: events_of_def filter_empty_conv)
    ultimately show ?thesis using v_eq by auto
  next
    case False
    have "events_of k (ob_events ob') = events_of k (ob_events ob)"
      unfolding 2(5) events_of_def filter_filter by (rule filter_cong) (use False in auto)
    moreover have "map_of (ob_watermarks ob') k = map_of (ob_watermarks ob) k"
      using False 2(6) store_invD(1) [OF inv] by simp
    ultimately show ?thesis using coveredD(5) [OF cov] v none by simp
  qed
  have "set (ob_events ob') \<subseteq> E" using sub(1) 2(5) by auto
  then show ?thesis by (rule coveredI [OF _ sub(2) taken coveredD(4) [OF cov] settled])
qed

lemma held_covered:
  assumes "outbox_repr sha protect ob evs wms" and "covered sha E evs wms es acks taken"
  shows "covered sha E evs wms es acks (taken \<union> held ob)"
proof (cases "ob_open ob")
  case False
  then show ?thesis using assms(2) by (simp add: held_def)
next
  case True
  then have eq: "evs = ob_events ob" "wms = ob_watermarks ob" using outbox_repr_open [OF assms(1)] by metis+
  show ?thesis using grows_covered [OF _ grows_same, of sha E ob es acks taken] assms(2) coveredD(1) [OF assms(2)] True
    by (simp add: eq held_def)
qed

lemma covered_log:
  "covered sha E evs wms es acks taken \<Longrightarrow> set es \<subseteq> set es' \<Longrightarrow> set es' \<subseteq> E \<Longrightarrow> covered sha E evs wms es' acks taken"
  unfolding covered_def by (intro conjI) blast+

lemma delivery_page:
  assumes sha: "digest_ok sha" and nc: "no_collision sha E" and inv: "delivery_inv sha protect E sv j acks taken"
    and q: "queue_exam_event_payload sha protect wok m sv = (r, sv')"
    and E: "set_option (decode_answer_event m) \<subseteq> E" "held (sv_outbox sv') \<subseteq> E"
  shows "delivery_inv sha protect E sv' j acks
    (taken \<union> held (sv_outbox sv') \<union> (if r then set_option (decode_answer_event m) else {}))"
proof -
  let ?ob = "sv_outbox sv" and ?ob' = "sv_outbox sv'"
  obtain evs wms es where repr: "outbox_repr sha protect ?ob evs wms" and log: "journal_log sha j es"
      and cov: "covered sha E evs wms es acks taken" and ing: "\<forall>e \<in> set (sv_ingress sv). event_wf e"
    using inv unfolding delivery_inv_def by blast
  consider (stay) "?ob' = ?ob" "\<not> r"
    | (enq) e where "decode_answer_event m = Some e" "enqueue sha protect wok e ?ob = (r, ?ob')"
    using q by (auto simp: queue_exam_event_payload_def Let_def split: option.splits if_splits prod.splits)
  then have step: "\<exists>evs' wms'. outbox_repr sha protect ?ob' evs' wms' \<and>
      covered sha E evs' wms' es acks (taken \<union> held ?ob' \<union> (if r then set_option (decode_answer_event m) else {}))"
  proof cases
    case stay
    then show ?thesis using held_covered [OF repr cov] repr by auto
  next
    case (enq e)
    show ?thesis
    proof (cases "ob_open ?ob")
      case False
      then show ?thesis using enq cov repr by (auto simp: enqueue_def held_def)
    next
      case True
      have cov': "covered sha E (ob_events ?ob) (ob_watermarks ?ob) es acks taken"
        using cov by (metis outbox_repr_open [OF repr True])
      have "event_wf e" using event_dec [OF enq(1)] by (simp add: event_ok_def)
      note en = enqueue_repr [OF sha repr True this enq(2)]
      have held: "held ?ob' = set (ob_events ?ob')" using en(2) by (simp add: held_def)
      note g = grows_covered [OF cov' en(3)] 
      have "covered sha E (ob_events ?ob') (ob_watermarks ?ob') es acks
          (taken \<union> held ?ob' \<union> (if r then set_option (decode_answer_event m) else {}))"
        using queued_covered [OF nc g en(4)] g E enq(1) held by auto
      then show ?thesis using en(1) by blast
    qed
  qed
  have "\<forall>e \<in> set (sv_ingress sv'). event_wf e"
    using q ing event_dec push_ingress_set
    by (auto simp: queue_exam_event_payload_def Let_def event_ok_def split: option.splits if_splits prod.splits) blast+
  then show ?thesis using step log unfolding delivery_inv_def by blast
qed

lemma delivery_drain:
  assumes sha: "digest_ok sha" and inv: "delivery_inv sha protect E sv j acks taken"
    and sv': "sv' = drain_exam_ingress sha protect woks sv" and E: "held (sv_outbox sv') \<subseteq> E"
  shows "delivery_inv sha protect E sv' j acks (taken \<union> held (sv_outbox sv'))"
proof -
  let ?ob = "sv_outbox sv" and ?ob' = "sv_outbox sv'"
  obtain evs wms es where repr: "outbox_repr sha protect ?ob evs wms" and log: "journal_log sha j es"
      and cov: "covered sha E evs wms es acks taken" and ing: "\<forall>e \<in> set (sv_ingress sv). event_wf e"
    using inv unfolding delivery_inv_def by blast
  show ?thesis
  proof (cases "sv_client_id sv")
    case None
    then have "sv' = sv" using sv' by (simp add: drain_exam_ingress_def)
    then show ?thesis using held_covered [OF repr cov] repr log ing unfolding delivery_inv_def by blast
  next
    case (Some client)
    obtain retry where loop: "drain_loop sha protect woks client (sv_ready sv) (sv_ingress sv) [] ?ob = (retry, ?ob')"
        and ingress: "sv_ingress sv' = fold push_ingress retry []"
      using sv' Some by (auto simp: drain_exam_ingress_def split: prod.splits)
    have ret: "set (sv_ingress sv') \<subseteq> set retry" using push_ingress_fold [of retry "[]"] ingress by simp
    show ?thesis
    proof (cases "ob_open ?ob")
      case False
      then have "?ob' = ?ob" "set retry \<subseteq> set (sv_ingress sv)" using drain_closed [OF loop] by auto
      then show ?thesis using held_covered [OF repr cov] repr log ing ret unfolding delivery_inv_def by auto
    next
      case True
      have eq: "evs = ob_events ?ob" "wms = ob_watermarks ?ob" using outbox_repr_open [OF repr True] by metis+
      have d: "outbox_repr sha protect ?ob' (ob_events ?ob') (ob_watermarks ?ob')" "ob_open ?ob'" "grows ?ob ?ob'"
          "\<forall>e \<in> set retry. event_wf e"
        using drain_repr [OF sha loop] repr True ing unfolding eq by auto
      have "covered sha E (ob_events ?ob') (ob_watermarks ?ob') es acks (taken \<union> held ?ob')"
        using grows_covered [OF cov [unfolded eq] d(3)] E d(2) by (simp add: held_def)
      then show ?thesis using d(1,4) log ret unfolding delivery_inv_def by blast
    qed
  qed
qed

lemma delivery_reply:
  assumes sha: "digest_ok sha" and nc: "no_collision sha E" and inv: "delivery_inv sha protect E sv j acks taken"
    and m: "m \<in> acks" and h: "handle_answer_ack sha protect wok now m sv = (r, sv')"
  shows "delivery_inv sha protect E sv' j acks taken"
proof -
  let ?ob = "sv_outbox sv" and ?ob' = "sv_outbox sv'"
  obtain evs wms es where repr: "outbox_repr sha protect ?ob evs wms" and log: "journal_log sha j es"
      and cov: "covered sha E evs wms es acks taken" and ing: "\<forall>e \<in> set (sv_ingress sv). event_wf e"
    using inv unfolding delivery_inv_def by blast
  have ing': "sv_ingress sv' = sv_ingress sv"
    using h by (auto simp: handle_answer_ack_def Let_def split: option.splits if_splits prod.splits)
  consider "?ob' = ?ob" | a q where "decode_answer_ack m = Some a" "ack_status a = AckAccepted \<or> ack_status a = AckDuplicate"
      "acknowledge sha protect wok (ack_session_id a) (ack_sequence a) (ack_event_hash a) ?ob = (q, ?ob')"
    using h by (auto simp: handle_answer_ack_def Let_def split: option.splits if_splits prod.splits)
  then show ?thesis
  proof cases
    case 1
    then show ?thesis using inv ing' unfolding delivery_inv_def by simp
  next
    case (2 a q)
    show ?thesis
    proof (cases "ob_open ?ob")
      case False
      then have "?ob' = ?ob" using 2(3) by (simp add: acknowledge_def)
      then show ?thesis using inv ing' unfolding delivery_inv_def by simp
    next
      case True
      have eq: "evs = ob_events ?ob" "wms = ob_watermarks ?ob" using outbox_repr_open [OF repr True] by metis+
      have store: "store_inv sha (ob_events ?ob) (ob_watermarks ?ob)"
        using outbox_repr_open [OF repr True] by (metis persisted_def)
      obtain y where y: "y \<in> set es" "hash_answer_event sha y = Some (ack_event_hash a)"
        using coveredD(4) [OF cov m 2(1,2)] by blast
      have "covered sha E (ob_events ?ob') (ob_watermarks ?ob') es acks taken"
        by (rule acknowledge_covered [OF nc log store cov [unfolded eq] y 2(3)])
      moreover have "outbox_repr sha protect ?ob' (ob_events ?ob') (ob_watermarks ?ob')"
        using commits_repr(1) [OF repr True] acknowledge_commits [OF store] 2(3) by metis
      ultimately show ?thesis using log ing ing' unfolding delivery_inv_def by auto
    qed
  qed
qed

lemma delivery_inv_mono:
  "delivery_inv sha protect E sv j acks taken \<Longrightarrow> sv_outbox sv' = sv_outbox sv \<Longrightarrow>
   set (sv_ingress sv') \<subseteq> set (sv_ingress sv) \<Longrightarrow> delivery_inv sha protect E sv' j acks taken"
  unfolding delivery_inv_def by auto

lemma delivery_start:
  assumes "secret_ok protect unprotect" and "outbox_repr sha protect ob evs wms"
    and "service_start sha protect unprotect io wok (ob_file ob) = (r, sv)"
  shows "outbox_repr sha protect (sv_outbox sv) evs wms" "sv_ingress sv = []"
  using assms(3) open_repr [OF assms(1,2)] close_repr
  by (auto simp: service_start_def Let_def split: prod.splits)

lemma delivery_run_inv:
  assumes run: "delivery_run sha protect unprotect E sv j acks taken"
    and sha: "digest_ok sha" and sec: "secret_ok protect unprotect" and nc: "no_collision sha E"
  shows "delivery_inv sha protect E sv j acks taken"
  using run
proof induction
  case (start io wok r sv t j)
  have "outbox_repr sha protect (sv_outbox sv) [] [] \<and> sv_ingress sv = []"
    using delivery_start [OF sec fresh_repr] start(1) by (simp add: closed_outbox_def)
  moreover have "covered sha E [] [] [] {} {}" by (simp add: covered_def)
  ultimately show ?case using journal_created_log [OF start(2)] unfolding delivery_inv_def by auto
next
  case (page sv j acks taken wok m r sv')
  show ?case by (rule delivery_page [OF sha nc page.IH page.hyps(2-4)])
next
  case (drain sv j acks taken sv' woks)
  show ?case by (rule delivery_drain [OF sha drain.IH drain.hyps(2,3)])
next
  case (send sv j acks taken now m sv')
  then show ?case
    by (intro delivery_inv_mono [OF send.IH])
       (auto simp: next_answer_event_def split: option.splits if_splits prod.splits)
next
  case (reply sv j acks taken m wok now r sv')
  show ?case by (rule delivery_reply [OF sha nc reply.IH reply.hyps(2,3)])
next
  case (disconnect sv j acks taken)
  show ?case by (rule delivery_inv_mono [OF disconnect.IH]) (simp_all add: clear_exam_inflight_def)
next
  case (identity sv j acks taken sv' client)
  then show ?case
    by (intro delivery_inv_mono [OF identity.IH])
       (auto simp: set_configured_client_id_def clear_configured_client_id_def clear_exam_inflight_def Let_def split: if_splits)
next
  case (stop sv j acks taken)
  then show ?case unfolding delivery_inv_def service_stop_def by (auto dest: close_repr)
next
  case (restart sv j acks taken io wok r sv')
  then show ?case using delivery_start [OF sec] unfolding delivery_inv_def by fastforce
next
  case (receive sv j acks taken now_ms io c client m answer j')
  obtain evs wms es where a: "outbox_repr sha protect (sv_outbox sv) evs wms" "journal_log sha j es"
      "covered sha E evs wms es acks taken" "\<forall>e \<in> set (sv_ingress sv). event_wf e"
    using receive.IH unfolding delivery_inv_def by blast
  obtain es' where es': "journal_log sha j' es'" "set es \<subseteq> set es'" "set es' \<subseteq> set es \<union> set_option (decode_answer_event m)"
      "\<And>b. answer \<noteq> None \<and> decode_answer_ack (the answer) = Some b \<and> (ack_status b = AckAccepted \<or> ack_status b = AckDuplicate) \<longrightarrow>
         (\<exists>y \<in> set es'. hash_answer_event sha y = Some (ack_event_hash b))"
    using process_event_log [OF sha a(2) receive.hyps(2)] by blast
  have c: "covered sha E evs wms es' acks taken"
    using covered_log [OF a(3) es'(2)] es'(3) coveredD(2) [OF a(3)] receive.hyps(3) by blast
  have "covered sha E evs wms es' (acks \<union> set_option answer) taken"
    using c es'(4) unfolding covered_def by (cases answer) auto
  then show ?case using a(1,4) es'(1) unfolding delivery_inv_def by blast
next
  case reopen
  then show ?case unfolding delivery_inv_def by (blast intro: journal_reopen_log [OF sha])
next
  case close
  then show ?case unfolding delivery_inv_def by (blast intro: journal_close_log)
qed

text \<open>An event with its hash in the index of the journal.\<close>

definition recorded :: "(bytes \<Rightarrow> bytes option) \<Rightarrow> journal \<Rightarrow> answer_event \<Rightarrow> bool" where
  "recorded sha j e \<longleftrightarrow> hash_answer_event sha e \<noteq> None \<and>
     (\<exists>s. map_of (j_sessions j) (event_key e) = Some s \<and>
        map_of (sd_event_hashes s) (ev_sequence e) = hash_answer_event sha e)"

lemma log_recorded:
  assumes "list_all event_ok es" and "replay sha es [] = Some (j_sessions j)" and "e \<in> set es"
  shows "recorded sha j e"
proof -
  obtain s i where s: "map_of (j_sessions j) (event_key e) = Some s" "session_spec sha (events_of (event_key e) es) s"
    "i < length (events_of (event_key e) es)" "events_of (event_key e) es ! i = e" "unat (ev_sequence e) = Suc i"
    using log_event_indexed [OF assms] by blast
  then have "map_of (sd_event_hashes s) (ev_sequence e) = hash_answer_event sha e" by (simp add: session_spec_def)
  moreover obtain b g where "chained sha 0 (replicate 32 0) (events_of (event_key e) es) b g"
    using log_chained [OF assms(1,2)] by blast
  then have "hash_answer_event sha e \<noteq> None"
    using s(3,4) by (metis chained.simps(2) chained_append id_take_nth_drop option.distinct(1))
  ultimately show ?thesis using s(1) by (auto simp: recorded_def)
qed

text \<open>
  C1. No answer is lost between the candidate's machine and the journal. Messages in both directions
  may be lost, duplicated, delayed and reordered, every write may fail, both processes may stop
  and restart at any point. An event the outbox ever held or reported as queued is, up to a
  rebase of its predecessor hash, found again when both sides restart: it is pending in the
  reopened outbox, or it is recorded in the reopened journal. SHA-256 has no collision among the
  events in play.
\<close>

theorem no_answer_lost:
  assumes "digest_ok sha" and "secret_ok protect unprotect" and "no_collision sha E"
    and "delivery_run sha protect unprotect E sv j acks taken" and "e \<in> taken"
  shows "\<exists>j' y. journal_open sha True True (j_file j) = Inr j' \<and> same_event_body_except_predecessor e y \<and>
    (recorded sha j' y \<or> (\<exists>ob. outbox_open sha protect unprotect True wok (ob_file (sv_outbox sv)) = (True, ob) \<and>
       y \<in> set (ob_events ob)))"
proof -
  obtain evs wms es where inv: "outbox_repr sha protect (sv_outbox sv) evs wms" "journal_log sha j es"
      "covered sha E evs wms es acks taken"
    using delivery_run_inv [OF assms(4,1-3)] unfolding delivery_inv_def by blast
  obtain y where y: "y \<in> set evs \<or> y \<in> set es" "same_body e y" using coveredD(3) [OF inv(3) assms(5)] by blast
  obtain ss tail where log: "j_file j = log_bytes sha es @ tail" "length (j_file j) \<le> kMaximumJournalBytes"
      "list_all event_ok es" "replay sha es [] = Some ss" "partial_record sha tail"
    using inv(2) unfolding journal_log_def by blast
  define j' where "j' = \<lparr>j_open = True, j_recovered_tail = (tail \<noteq> []), j_event_count = length es, j_sessions = ss,
         j_file = log_bytes sha es\<rparr>"
  have j': "journal_open sha True True (j_file j) = Inr j'"
    using open_log [OF assms(1) log(3-5)] log(1,2) by (simp add: j'_def)
  from y(1) have "recorded sha j' y \<or> (\<exists>ob. outbox_open sha protect unprotect True wok (ob_file (sv_outbox sv)) = (True, ob) \<and>
       y \<in> set (ob_events ob))"
  proof
    assume "y \<in> set evs"
    then obtain stored where "ob_file (sv_outbox sv) = Some stored" "persisted sha protect evs wms stored"
      using inv(1) by (auto simp: outbox_repr_def split: option.splits)
    then show ?thesis using open_persisted [OF assms(2)] \<open>y \<in> set evs\<close> by simp
  next
    assume "y \<in> set es"
    then show ?thesis using log_recorded [OF log(3), of sha j'] log(4) by (simp add: j'_def)
  qed
  then show ?thesis using j' y(2) by blast
qed

section \<open>Events in flight\<close>

definition tables_inv :: "(bytes \<times> bytes) list \<Rightarrow> (bytes \<times> int) list \<Rightarrow> bool" where
  "tables_inv inflight retry \<longleftrightarrow> omap inflight \<and> omap retry \<and> distinct (map snd inflight)"

lemma omap_filter: "omap xs \<Longrightarrow> omap (filter P xs)"
  unfolding omap_def by (induction xs) auto

lemma distinct_snd_filter: "distinct (map snd xs) \<Longrightarrow> distinct (map snd (filter P xs))"
  by (induction xs) auto

lemma distinct_snd_insert:
  "distinct (map snd xs) \<Longrightarrow> v \<notin> snd ` set xs \<Longrightarrow> distinct (map snd (omap_insert k v xs))"
proof (induction k v xs rule: omap_insert.induct)
  case (2 k v k' v' xs)
  then show ?case using set_omap_insert [of k v xs] by force
qed simp

lemma tables_inv_filter: "tables_inv inflight retry \<Longrightarrow> tables_inv (filter P inflight) (filter Q retry)"
  by (simp add: tables_inv_def omap_filter distinct_snd_filter)

lemma context_loop_filter:
  "context_loop ck now rest inflight retry = (b, inflight', retry') \<Longrightarrow> tables_inv inflight retry \<Longrightarrow>
   tables_inv inflight' retry' \<and> set inflight' \<subseteq> set inflight \<and> (\<not> b \<longrightarrow> (\<forall>k. (k, ck) \<in> set rest \<longrightarrow> k \<notin> fst ` set inflight'))"
proof (induction ck now rest inflight retry rule: context_loop.induct)
  case (2 ck now k c rest inflight retry)
  show ?case
  proof (cases "c = ck \<and> (\<exists>t. map_of retry k = Some t \<and> t \<le> now)")
    case True
    then have loop: "context_loop ck now rest (alist_erase k inflight) (alist_erase k retry) = (b, inflight', retry')"
      using 2(3) by auto
    have "tables_inv (alist_erase k inflight) (alist_erase k retry)"
      using tables_inv_filter [OF 2(4)] by (simp add: alist_erase_def)
    then show ?thesis using 2(2) [OF _ _ _ loop] True by (auto simp: alist_erase_def)
  next
    case False
    then show ?thesis using 2(1,3,4) by (auto split: if_splits option.splits)
  qed
qed simp

lemma send_loop_tables:
  "send_loop sha now es inflight retry = (m, inflight', retry') \<Longrightarrow> tables_inv inflight retry \<Longrightarrow>
   tables_inv inflight' retry' \<and>
   (\<forall>w. m = Some w \<longrightarrow> (\<exists>e \<in> set es. w = encode_answer_event e \<and> w \<noteq> [] \<and>
      map_of inflight' (exam_inflight_key sha e) = Some (exam_context_key e) \<and>
      map_of retry' (exam_inflight_key sha e) = Some (now + kExamAckTimeout)))"
proof (induction es arbitrary: inflight retry)
  case (Cons e es)
  let ?key = "exam_inflight_key sha e" and ?ck = "exam_context_key e"
  obtain b inf ret where loop: "context_loop ?ck now inflight inflight retry = (b, inf, ret)" by (metis prod.exhaust)
  note cl = context_loop_filter [OF loop Cons.prems(2)]
  have erased: "tables_inv inf (alist_erase ?key ret)"
    using tables_inv_filter [of inf ret "\<lambda>_. True"] cl by (simp add: alist_erase_def)
  consider (skip) "send_loop sha now es inf ret = (m, inflight', retry')"
    | (flying) "send_loop sha now es inf (alist_erase ?key ret) = (m, inflight', retry')"
    | (go) "\<not> b" "map_of inf ?key = None"
        "(if encode_answer_event e = []
          then send_loop sha now es (alist_erase ?key (omap_insert ?key ?ck inf))
                 (omap_insert ?key (now + kExamAckTimeout) (alist_erase ?key ret))
          else (Some (encode_answer_event e), omap_insert ?key ?ck inf,
                omap_insert ?key (now + kExamAckTimeout) (alist_erase ?key ret))) = (m, inflight', retry')"
    using Cons.prems(1) by (auto simp: Let_def loop split: if_splits option.splits)
  then show ?case
  proof cases
    case skip
    then show ?thesis using Cons.IH [OF skip] cl by auto
  next
    case flying
    then show ?thesis using Cons.IH [OF flying erased] by auto
  next
    case go
    have "?ck \<notin> snd ` set inf"
    proof
      assume "?ck \<in> snd ` set inf"
      then obtain k where "(k, ?ck) \<in> set inf" by auto
      then show False using cl go(1) by (metis fst_conv image_eqI subsetD)
    qed
    then have new: "tables_inv (omap_insert ?key ?ck inf) (omap_insert ?key (now + kExamAckTimeout) (alist_erase ?key ret))"
      using erased distinct_snd_insert [of inf ?ck ?key] by (simp add: tables_inv_def)
    show ?thesis
    proof (cases "encode_answer_event e = []")
      case True
      have t: "tables_inv (alist_erase ?key (omap_insert ?key ?ck inf)) (omap_insert ?key (now + kExamAckTimeout) (alist_erase ?key ret))"
        using tables_inv_filter [OF new, of _ "\<lambda>_. True"] by (simp add: alist_erase_def)
      show ?thesis using Cons.IH [OF _ t] go(3) True by auto
    next
      case False
      then show ?thesis using go(3) new erased by (auto simp: tables_inv_def)
    qed
  qed
qed simp

lemma fold_insert_omap: "omap r \<Longrightarrow> omap (fold (\<lambda>k. omap_insert k t) ks r)"
  by (induction ks arbitrary: r) auto

lemma ack_tables:
  assumes "handle_answer_ack sha protect wok now m sv = (r, sv')" and "tables_inv (sv_inflight sv) (sv_retry_after sv)"
  shows "tables_inv (sv_inflight sv') (sv_retry_after sv')"
proof -
  have "omap (sv_retry_after sv') \<and> (sv_inflight sv' = sv_inflight sv \<or> (\<exists>P. sv_inflight sv' = filter P (sv_inflight sv)))"
    using assms
    by (auto simp: handle_answer_ack_def Let_def tables_inv_def omap_filter fold_insert_omap
        split: option.splits if_splits prod.splits)
  then show ?thesis using assms(2) by (auto simp: tables_inv_def omap_filter distinct_snd_filter)
qed

lemma delivery_tables:
  "delivery_run sha protect unprotect E sv j acks taken \<Longrightarrow> tables_inv (sv_inflight sv) (sv_retry_after sv)"
proof (induction rule: delivery_run.induct)
  case (send sv j acks taken now m sv')
  then show ?case using send_loop_tables
    by (fastforce simp: next_answer_event_def split: option.splits if_splits prod.splits)
next
  case (reply sv j acks taken m wok now r sv')
  then show ?case using ack_tables by blast
qed (auto simp: service_start_def queue_exam_event_payload_def drain_exam_ingress_def clear_exam_inflight_def
    set_configured_client_id_def clear_configured_client_id_def service_stop_def tables_inv_def Let_def
    split: option.splits if_splits prod.splits)

text \<open>
  C16. Events of one exam context are never pipelined. At every moment of a run, at most one event
  per exam context is in flight; and what the scheduler hands out is the encoding of a pending
  event of this client, which it marks as the one in flight of its context, to be retried after
  five seconds.
\<close>

theorem one_in_flight:
  assumes "delivery_run sha protect unprotect E sv j acks taken" and "next_answer_event sha now sv = (Some m, sv')"
  shows "distinct (map snd (sv_inflight sv)) \<and> distinct (map snd (sv_inflight sv')) \<and>
    (\<exists>e \<in> set (ob_events (sv_outbox sv)). m = encode_answer_event e \<and> sv_client_id sv = Some (ev_client_id e) \<and>
       map_of (sv_inflight sv') (exam_inflight_key sha e) = Some (exam_context_key e) \<and>
       map_of (sv_retry_after sv') (exam_inflight_key sha e) = Some (now + 5 * 10 ^ 9))"
proof -
  note t = delivery_tables [OF assms(1)]
  obtain client where c: "sv_client_id sv = Some client"
      and loop: "send_loop sha now (pending_for_client client 8 (sv_outbox sv)) (sv_inflight sv) (sv_retry_after sv) =
        (Some m, sv_inflight sv', sv_retry_after sv')"
    using assms(2) by (auto simp: next_answer_event_def split: option.splits if_splits prod.splits)
  have "set (pending_for_client client 8 (sv_outbox sv)) \<subseteq> {e \<in> set (ob_events (sv_outbox sv)). ev_client_id e = client}"
    by (auto simp: pending_for_client_def dest!: in_set_takeD)
  then show ?thesis
    using send_loop_tables [OF loop t] t c by (fastforce simp: tables_inv_def kExamAckTimeout_def)
qed

section \<open>A concrete run\<close>

definition sample_service :: exam_service where
  "sample_service = snd (queue_exam_event_payload sample_sha Some True (encode_answer_event sample_event)
     (set_configured_client_id (replicate 16 2) (snd (service_start sample_sha Some Some True True None))))"

definition empty_journal :: journal where
  "empty_journal = \<lparr>j_open = True, j_recovered_tail = False, j_event_count = 0, j_sessions = [], j_file = []\<rparr>"

lemma sample_service_outbox:
  "queue_exam_event_payload sample_sha Some True (encode_answer_event sample_event)
     (set_configured_client_id (replicate 16 2) (snd (service_start sample_sha Some Some True True None))) =
   (True, sample_service)"
  "sv_outbox sample_service = sample_outbox" "sv_client_id sample_service = Some (replicate 16 2)"
  "sv_ready sample_service" "sv_inflight sample_service = []" "sv_retry_after sample_service = []"
proof -
  obtain stored where o: "outbox_open sample_sha Some Some True True None = (True, sample_store stored)"
    using sample_installed by blast
  have d: "decode_answer_event (encode_answer_event sample_event) = Some sample_event"
    by (rule event_enc [OF sample_event_ok(1)])
  have e: "enqueue sample_sha Some True sample_event (sample_store stored) = (True, sample_outbox)"
    using sample_enqueued o by (simp add: sample_outbox_def prod_eq_iff)
  have c: "ev_client_id sample_event = replicate 16 2" by (simp add: sample_event_def)
  show "queue_exam_event_payload sample_sha Some True (encode_answer_event sample_event)
     (set_configured_client_id (replicate 16 2) (snd (service_start sample_sha Some Some True True None))) =
   (True, sample_service)"
  "sv_outbox sample_service = sample_outbox" "sv_client_id sample_service = Some (replicate 16 2)"
  "sv_ready sample_service" "sv_inflight sample_service = []" "sv_retry_after sample_service = []"
    by (simp_all add: sample_service_def service_start_def set_configured_client_id_def clear_exam_inflight_def
        queue_exam_event_payload_def o d e c)
qed

lemma sample_delivery:
  "delivery_run sample_sha Some Some {sample_event} sample_service empty_journal {} {sample_event}"
proof -
  have d: "decode_answer_event (encode_answer_event sample_event) = Some sample_event"
    by (rule event_enc [OF sample_event_ok(1)])
  have j: "journal_open sample_sha True True [] = Inr empty_journal"
    by (simp add: journal_open_def recover.simps [of sample_sha "[]"] empty_journal_def)
  have h: "held (sv_outbox sample_service) = {sample_event}"
    using sample_outbox_run(2,3) by (simp add: sample_service_outbox held_def)
  obtain sv where sv: "service_start sample_sha Some Some True True None = (True, sv)"
    using sample_installed by (auto simp: service_start_def)
  have "delivery_run sample_sha Some Some {sample_event} (set_configured_client_id (replicate 16 2) sv) empty_journal {} {}"
    by (rule identity [OF start [OF sv j], where client = "replicate 16 2"]) simp
  from page [OF this, of True "encode_answer_event sample_event" True sample_service] show ?thesis
    using sample_service_outbox(1) sv d h by simp
qed

lemma sample_no_collision: "no_collision sample_sha {sample_event}"
  by (simp add: no_collision_def)

theorem no_answer_lost_witness:
  "\<exists>j' y. journal_open sample_sha True True (j_file empty_journal) = Inr j' \<and>
     same_event_body_except_predecessor sample_event y \<and>
     (recorded sample_sha j' y \<or>
      (\<exists>ob. outbox_open sample_sha Some Some True False (ob_file (sv_outbox sample_service)) = (True, ob) \<and>
         y \<in> set (ob_events ob)))"
  using no_answer_lost [OF sample_sha_ok sample_secret sample_no_collision sample_delivery] by blast

lemma sample_send:
  "\<exists>sv'. next_answer_event sample_sha 7 sample_service = (Some (encode_answer_event sample_event), sv')"
proof -
  have "encode_answer_event sample_event \<noteq> []" using event_wire_length(1) [OF sample_event_ok(1)] by auto
  moreover have "pending_for_client (replicate 16 2) 8 sample_outbox = [sample_event]"
    using sample_outbox_run(2,3) by (simp add: pending_for_client_def sample_event_def)
  ultimately show ?thesis
    by (simp add: next_answer_event_def sample_service_outbox Let_def alist_erase_def)
qed

theorem one_in_flight_witness:
  "\<exists>sv'. next_answer_event sample_sha 7 sample_service = (Some (encode_answer_event sample_event), sv') \<and>
     distinct (map snd (sv_inflight sv'))"
proof -
  obtain sv' where sv': "next_answer_event sample_sha 7 sample_service = (Some (encode_answer_event sample_event), sv')"
    using sample_send by blast
  then show ?thesis using one_in_flight [OF sample_delivery sv'] by blast
qed

end
