(* ===== verification/ExamControl.thy ===== *)
theory ExamControl
  imports Auth
begin

text \<open>
  The exam control payloads of \<^verbatim>\<open>common/src/exam_control.cpp\<close>: the start request, the ready report
  and the begin command, with the UTF-8 validator all of them use. A \<open>std::string\<close> is the list
  of its bytes.

  Shown: the validator accepts exactly the UTF-8 encodings of non-empty sequences of Unicode
  scalar values without ASCII control characters, within the length limit; each of the three
  messages is a strict codec, so that one value has one wire form and nothing else decodes.
\<close>

section \<open>UTF-8 validation\<close>

text \<open>The classification of a lead byte: the width of the sequence and the payload bits.\<close>

definition utf8_lead :: "byte \<Rightarrow> (nat \<times> u32) option" where
  "utf8_lead lead =
     (if lead \<le> 0x7f then if lead < 0x20 \<or> lead = 0x7f then None else Some (1, ucast lead)
      else if lead \<ge> 0xc2 \<and> lead \<le> 0xdf then Some (2, ucast lead AND 0x1f)
      else if lead \<ge> 0xe0 \<and> lead \<le> 0xef then Some (3, ucast lead AND 0x0f)
      else if lead \<ge> 0xf0 \<and> lead \<le> 0xf4 then Some (4, ucast lead AND 0x07)
      else None)"

primrec utf8_continue :: "u32 \<Rightarrow> bytes \<Rightarrow> u32 option" where
  "utf8_continue codepoint [] = Some codepoint"
| "utf8_continue codepoint (b # bs) =
     (if b AND 0xc0 \<noteq> 0x80 then None
      else utf8_continue (push_bit 6 codepoint OR (ucast b AND 0x3f)) bs)"

definition utf8_range_ok :: "nat \<Rightarrow> u32 \<Rightarrow> bool" where
  "utf8_range_ok width codepoint \<longleftrightarrow>
     \<not> (width = 3 \<and> codepoint < 0x800 \<or> width = 4 \<and> codepoint < 0x10000 \<or> codepoint > 0x10ffff \<or>
        codepoint \<ge> 0xd800 \<and> codepoint \<le> 0xdfff)"

function utf8_loop :: "bytes \<Rightarrow> bool" where
  "utf8_loop [] = True"
| "utf8_loop (lead # rest) =
     (case utf8_lead lead of
        None \<Rightarrow> False
      | Some (width, codepoint) \<Rightarrow>
          if width > length (lead # rest) then False
          else case utf8_continue codepoint (take (width - 1) rest) of
                 None \<Rightarrow> False
               | Some codepoint \<Rightarrow>
                   if \<not> utf8_range_ok width codepoint then False
                   else utf8_loop (drop (width - 1) rest))"
  by pat_completeness auto
termination by (relation "measure length") auto

definition valid_utf8 :: "bytes \<Rightarrow> nat \<Rightarrow> bool" where
  "valid_utf8 v maximum =
     (if v = [] \<or> length v > maximum \<or> 0 \<in> set v then False else utf8_loop v)"

section \<open>Messages\<close>

definition kExamStartMagic :: u32 where "kExamStartMagic = 0x31535845"
definition kExamStartVersion :: u16 where "kExamStartVersion = 2"
definition kExamStartFlags :: u16 where "kExamStartFlags = 0"
definition kExamReadyMagic :: u32 where "kExamReadyMagic = 0x59444552"
definition kExamBeginMagic :: u32 where "kExamBeginMagic = 0x4e474245"
definition kExamBarrierVersion :: u16 where "kExamBarrierVersion = 1"
definition kExamBarrierFlags :: u16 where "kExamBarrierFlags = 0"
definition kMaximumExamControlPathBytes :: nat where "kMaximumExamControlPathBytes = 2048"
definition kMaximumExamControlPackageIdBytes :: nat where "kMaximumExamControlPackageIdBytes = 128"
definition kMaximumExamControlCandidateBytes :: nat where "kMaximumExamControlCandidateBytes = 128"
definition kMaximumExamControlPayloadBytes :: nat where "kMaximumExamControlPayloadBytes = 16 * 1024"
definition kMinimumExamDurationSeconds :: u32 where "kMinimumExamDurationSeconds = 60"
definition kMaximumExamDurationSeconds :: u32 where "kMaximumExamDurationSeconds = 86400"
definition kFixedHeaderBytes :: nat where "kFixedHeaderBytes = 4 + 2 * 7 + 32 + 16 + 16"
definition kExamReadyFixedBytes :: nat where "kExamReadyFixedBytes = 4 + 2 * 4 + 32 + 16 + 16"
definition kExamBeginFixedBytes :: nat where "kExamBeginFixedBytes = kExamReadyFixedBytes + 8 + 4"

lemmas exam_consts = kExamStartMagic_def kExamStartVersion_def kExamStartFlags_def kExamReadyMagic_def
  kExamBeginMagic_def kExamBarrierVersion_def kExamBarrierFlags_def kMaximumExamControlPathBytes_def
  kMaximumExamControlPackageIdBytes_def kMaximumExamControlCandidateBytes_def
  kMaximumExamControlPayloadBytes_def kMinimumExamDurationSeconds_def kMaximumExamDurationSeconds_def
  kFixedHeaderBytes_def kExamReadyFixedBytes_def kExamBeginFixedBytes_def

record exam_start_request =
  es_package_root :: bytes
  es_web_root :: bytes
  es_user_data_root :: bytes
  es_package_id :: bytes
  es_candidate_id :: bytes
  es_package_digest :: bytes
  es_client_id :: bytes
  es_session_id :: bytes

record exam_ready_report =
  er_package_id :: bytes
  er_candidate_id :: bytes
  er_package_digest :: bytes
  er_client_id :: bytes
  er_session_id :: bytes

record exam_begin_command =
  eb_package_id :: bytes
  eb_candidate_id :: bytes
  eb_package_digest :: bytes
  eb_client_id :: bytes
  eb_session_id :: bytes
  eb_start :: u64
  eb_duration :: u32

definition validate_exam_start_request :: "exam_start_request \<Rightarrow> bool" where
  "validate_exam_start_request r \<longleftrightarrow>
     valid_utf8 (es_package_root r) kMaximumExamControlPathBytes \<and>
     (es_web_root r = [] \<or> valid_utf8 (es_web_root r) kMaximumExamControlPathBytes) \<and>
     (es_user_data_root r = [] \<or> valid_utf8 (es_user_data_root r) kMaximumExamControlPathBytes) \<and>
     valid_utf8 (es_package_id r) kMaximumExamControlPackageIdBytes \<and>
     valid_utf8 (es_candidate_id r) kMaximumExamControlCandidateBytes \<and>
     non_zero (es_package_digest r) \<and> non_zero (es_client_id r) \<and> non_zero (es_session_id r)"

definition validate_exam_ready_report :: "exam_ready_report \<Rightarrow> bool" where
  "validate_exam_ready_report r \<longleftrightarrow>
     valid_utf8 (er_package_id r) kMaximumExamControlPackageIdBytes \<and>
     valid_utf8 (er_candidate_id r) kMaximumExamControlCandidateBytes \<and>
     non_zero (er_package_digest r) \<and> non_zero (er_client_id r) \<and> non_zero (er_session_id r)"

definition validate_exam_begin_command :: "exam_begin_command \<Rightarrow> bool" where
  "validate_exam_begin_command c \<longleftrightarrow>
     valid_utf8 (eb_package_id c) kMaximumExamControlPackageIdBytes \<and>
     valid_utf8 (eb_candidate_id c) kMaximumExamControlCandidateBytes \<and>
     non_zero (eb_package_digest c) \<and> non_zero (eb_client_id c) \<and> non_zero (eb_session_id c) \<and>
     eb_start c \<noteq> 0 \<and>
     (eb_duration c = 0 \<or>
      eb_duration c \<ge> kMinimumExamDurationSeconds \<and> eb_duration c \<le> kMaximumExamDurationSeconds)"

abbreviation u16_len :: "bytes \<Rightarrow> u16" where
  "u16_len t \<equiv> word_of_nat (length t)"

definition read_text :: "u16 \<Rightarrow> nat \<Rightarrow> bytes \<Rightarrow> (bytes \<times> bytes) option" where
  "read_text len maximum w =
     (if len = 0 \<or> unat len > maximum \<or> length w < unat len then None
      else let text = take (unat len) w
           in if valid_utf8 text maximum then Some (text, drop (unat len) w) else None)"

definition encode_exam_start_request :: "exam_start_request \<Rightarrow> bytes" where
  "encode_exam_start_request r =
     (if \<not> validate_exam_start_request r \<or> length (es_package_root r) > 2 ^ 16 - 1 \<or>
         length (es_web_root r) > 2 ^ 16 - 1 \<or> length (es_user_data_root r) > 2 ^ 16 - 1 \<or>
         length (es_package_id r) > 2 ^ 16 - 1 \<or> length (es_candidate_id r) > 2 ^ 16 - 1
      then []
      else let total = kFixedHeaderBytes + length (es_package_root r) + length (es_web_root r) +
                 length (es_user_data_root r) + length (es_package_id r) + length (es_candidate_id r)
           in if total > kMaximumExamControlPayloadBytes then []
              else append_le kExamStartMagic @ append_le kExamStartVersion @ append_le kExamStartFlags @
                   append_le (u16_len (es_package_root r)) @ append_le (u16_len (es_web_root r)) @
                   append_le (u16_len (es_user_data_root r)) @ append_le (u16_len (es_package_id r)) @
                   append_le (u16_len (es_candidate_id r)) @
                   es_package_digest r @ es_client_id r @ es_session_id r @
                   es_package_root r @ es_web_root r @ es_user_data_root r @
                   es_package_id r @ es_candidate_id r)"

definition decode_exam_start_request :: "bytes \<Rightarrow> exam_start_request option" where
  "decode_exam_start_request w =
     (if length w < kFixedHeaderBytes \<or> length w > kMaximumExamControlPayloadBytes then None
      else do {
        (magic, w) \<leftarrow> read_le w;
        if magic \<noteq> kExamStartMagic then None else do {
        (version, w) \<leftarrow> read_le w;
        if version \<noteq> kExamStartVersion then None else do {
        (flags, w) \<leftarrow> read_le w;
        if flags \<noteq> kExamStartFlags then None else do {
        (package_bytes, w) \<leftarrow> read_le w;
        (web_bytes, w) \<leftarrow> read_le w;
        (user_data_bytes, w) \<leftarrow> read_le w;
        (package_id_bytes, w) \<leftarrow> read_le w;
        (candidate_bytes, w) \<leftarrow> read_le w;
        (digest, w) \<leftarrow> read_array 32 w;
        (client, w) \<leftarrow> read_array 16 w;
        (session, w) \<leftarrow> read_array 16 w;
        (package_root, w) \<leftarrow> read_text package_bytes kMaximumExamControlPathBytes w;
        (web_root, w) \<leftarrow> (if web_bytes = 0 then Some ([], w)
                         else read_text web_bytes kMaximumExamControlPathBytes w);
        (user_data_root, w) \<leftarrow> (if user_data_bytes = 0 then Some ([], w)
                         else read_text user_data_bytes kMaximumExamControlPathBytes w);
        (package_id, w) \<leftarrow> read_text package_id_bytes kMaximumExamControlPackageIdBytes w;
        (candidate_id, w) \<leftarrow> read_text candidate_bytes kMaximumExamControlCandidateBytes w;
        let r = \<lparr>es_package_root = package_root, es_web_root = web_root, es_user_data_root = user_data_root,
                 es_package_id = package_id, es_candidate_id = candidate_id, es_package_digest = digest,
                 es_client_id = client, es_session_id = session\<rparr>
        in if w \<noteq> [] \<or> \<not> validate_exam_start_request r then None else Some r
      }}}})"

definition read_identity :: "bytes \<Rightarrow> ((bytes \<times> bytes \<times> bytes) \<times> bytes) option" where
  "read_identity w =
     (if 32 + 16 + 16 > length w then None
      else Some ((take 32 w, take 16 (drop 32 w), take 16 (drop 48 w)), drop 64 w))"

definition encode_exam_ready_report :: "exam_ready_report \<Rightarrow> bytes" where
  "encode_exam_ready_report r =
     (if \<not> validate_exam_ready_report r \<or> length (er_package_id r) > 2 ^ 16 - 1 \<or>
         length (er_candidate_id r) > 2 ^ 16 - 1
      then []
      else let total = kExamReadyFixedBytes + length (er_package_id r) + length (er_candidate_id r)
           in if total > kMaximumExamControlPayloadBytes then []
              else append_le kExamReadyMagic @ append_le kExamBarrierVersion @ append_le kExamBarrierFlags @
                   append_le (u16_len (er_package_id r)) @ append_le (u16_len (er_candidate_id r)) @
                   er_package_digest r @ er_client_id r @ er_session_id r @
                   er_package_id r @ er_candidate_id r)"

definition decode_exam_ready_report :: "bytes \<Rightarrow> exam_ready_report option" where
  "decode_exam_ready_report w =
     (if length w < kExamReadyFixedBytes \<or> length w > kMaximumExamControlPayloadBytes then None
      else do {
        (magic, w) \<leftarrow> read_le w;
        if magic \<noteq> kExamReadyMagic then None else do {
        (version, w) \<leftarrow> read_le w;
        if version \<noteq> kExamBarrierVersion then None else do {
        (flags, w) \<leftarrow> read_le w;
        if flags \<noteq> kExamBarrierFlags then None else do {
        (package_id_bytes, w) \<leftarrow> read_le w;
        (candidate_bytes, w) \<leftarrow> read_le w;
        ((digest, client, session), w) \<leftarrow> read_identity w;
        (package_id, w) \<leftarrow> read_text package_id_bytes kMaximumExamControlPackageIdBytes w;
        (candidate_id, w) \<leftarrow> read_text candidate_bytes kMaximumExamControlCandidateBytes w;
        let r = \<lparr>er_package_id = package_id, er_candidate_id = candidate_id, er_package_digest = digest,
                 er_client_id = client, er_session_id = session\<rparr>
        in if w \<noteq> [] \<or> \<not> validate_exam_ready_report r then None else Some r
      }}}})"

definition encode_exam_begin_command :: "exam_begin_command \<Rightarrow> bytes" where
  "encode_exam_begin_command c =
     (if \<not> validate_exam_begin_command c \<or> length (eb_package_id c) > 2 ^ 16 - 1 \<or>
         length (eb_candidate_id c) > 2 ^ 16 - 1
      then []
      else let total = kExamBeginFixedBytes + length (eb_package_id c) + length (eb_candidate_id c)
           in if total > kMaximumExamControlPayloadBytes then []
              else append_le kExamBeginMagic @ append_le kExamBarrierVersion @ append_le kExamBarrierFlags @
                   append_le (u16_len (eb_package_id c)) @ append_le (u16_len (eb_candidate_id c)) @
                   append_le (eb_start c) @ append_le (eb_duration c) @
                   eb_package_digest c @ eb_client_id c @ eb_session_id c @
                   eb_package_id c @ eb_candidate_id c)"

definition decode_exam_begin_command :: "bytes \<Rightarrow> exam_begin_command option" where
  "decode_exam_begin_command w =
     (if length w < kExamBeginFixedBytes \<or> length w > kMaximumExamControlPayloadBytes then None
      else do {
        (magic, w) \<leftarrow> read_le w;
        if magic \<noteq> kExamBeginMagic then None else do {
        (version, w) \<leftarrow> read_le w;
        if version \<noteq> kExamBarrierVersion then None else do {
        (flags, w) \<leftarrow> read_le w;
        if flags \<noteq> kExamBarrierFlags then None else do {
        (package_id_bytes, w) \<leftarrow> read_le w;
        (candidate_bytes, w) \<leftarrow> read_le w;
        (start, w) \<leftarrow> read_le w;
        (duration, w) \<leftarrow> read_le w;
        ((digest, client, session), w) \<leftarrow> read_identity w;
        (package_id, w) \<leftarrow> read_text package_id_bytes kMaximumExamControlPackageIdBytes w;
        (candidate_id, w) \<leftarrow> read_text candidate_bytes kMaximumExamControlCandidateBytes w;
        let c = \<lparr>eb_package_id = package_id, eb_candidate_id = candidate_id, eb_package_digest = digest,
                 eb_client_id = client, eb_session_id = session, eb_start = start, eb_duration = duration\<rparr>
        in if w \<noteq> [] \<or> \<not> validate_exam_begin_command c then None else Some c
      }}}})"

section \<open>The messages are strict codecs\<close>

lemma valid_utf8_length: "valid_utf8 t m \<Longrightarrow> 0 < length t \<and> length t \<le> m"
  by (auto simp: valid_utf8_def split: if_splits)

lemma u16_len_unat: "unat len = length t \<longleftrightarrow> len = u16_len t \<and> length t < 2 ^ 16"
proof
  assume "unat len = length t"
  moreover have "word_of_nat (unat len) = len" by simp
  moreover have "unat len < 2 ^ 16" using unsigned_less [of len, where ?'a = nat] by simp
  ultimately show "len = u16_len t \<and> length t < 2 ^ 16" by simp
qed (simp add: unat_of_nat)

lemma read_text_iff:
  assumes "m < 2 ^ 16"
  shows "read_text len m w = Some (t, rest) \<longleftrightarrow> w = t @ rest \<and> len = u16_len t \<and> valid_utf8 t m"
proof -
  have "read_text len m w = Some (t, rest) \<longleftrightarrow> w = t @ rest \<and> unat len = length t \<and> valid_utf8 t m"
    using valid_utf8_length [of t m] by (auto simp: read_text_def Let_def unat_eq_zero)
  then show ?thesis using valid_utf8_length [of t m] assms by (auto simp: u16_len_unat)
qed

lemma read_identity_iff:
  "read_identity w = Some ((d, c, s), rest) \<longleftrightarrow>
     w = d @ c @ s @ rest \<and> length d = 32 \<and> length c = 16 \<and> length s = 16"
proof
  assume r: "read_identity w = Some ((d, c, s), rest)"
  then have w: "d = take 32 w" "c = take 16 (drop 32 w)" "s = take 16 (drop 48 w)" "rest = drop 64 w"
      "64 \<le> length w"
    by (auto simp: read_identity_def split: if_splits)
  have "drop 64 w = drop 16 (drop 48 w)" "drop 48 w = drop 16 (drop 32 w)" by simp_all
  then have "w = d @ c @ s @ rest" unfolding w by (simp only: append_take_drop_id)
  then show "w = d @ c @ s @ rest \<and> length d = 32 \<and> length c = 16 \<and> length s = 16" using w by simp
qed (auto simp: read_identity_def)

lemma read_optional_text_iff:
  assumes "m < 2 ^ 16"
  shows "(if len = 0 then Some ([], w) else read_text len m w) = Some (t, rest) \<longleftrightarrow>
    w = t @ rest \<and> len = u16_len t \<and> (t = [] \<or> valid_utf8 t m)"
proof (cases "t = []")
  case True
  then show ?thesis using read_text_iff [OF assms, of len w t rest] valid_utf8_length [of t m] by auto
next
  case False
  have "u16_len t \<noteq> 0" if "valid_utf8 t m"
    using valid_utf8_length [OF that] assms by (simp add: word_unat_eq_iff unat_of_nat)
  then show ?thesis using False read_text_iff [OF assms, of len w t rest] by auto
qed

lemma read_text_write:
  assumes "valid_utf8 t m" and "m < 2 ^ 16"
  shows "read_text (u16_len t) m (t @ rest) = Some (t, rest)" "read_text (u16_len t) m t = Some (t, [])"
  using assms read_text_iff [of m "u16_len t" "t @ rest" t rest] read_text_iff [of m "u16_len t" t t "[]"]
  by simp_all

definition start_request_ok :: "exam_start_request \<Rightarrow> bool" where
  "start_request_ok r \<longleftrightarrow> length (es_package_digest r) = 32 \<and> length (es_client_id r) = 16 \<and>
     length (es_session_id r) = 16 \<and> validate_exam_start_request r"

definition ready_report_ok :: "exam_ready_report \<Rightarrow> bool" where
  "ready_report_ok r \<longleftrightarrow> length (er_package_digest r) = 32 \<and> length (er_client_id r) = 16 \<and>
     length (er_session_id r) = 16 \<and> validate_exam_ready_report r"

definition begin_command_ok :: "exam_begin_command \<Rightarrow> bool" where
  "begin_command_ok c \<longleftrightarrow> length (eb_package_digest c) = 32 \<and> length (eb_client_id c) = 16 \<and>
     length (eb_session_id c) = 16 \<and> validate_exam_begin_command c"

lemmas exam_limits = kMaximumExamControlPathBytes_def kMaximumExamControlPackageIdBytes_def
  kMaximumExamControlCandidateBytes_def kMaximumExamControlPayloadBytes_def
  kFixedHeaderBytes_def kExamReadyFixedBytes_def kExamBeginFixedBytes_def

lemma start_request_lengths:
  assumes "validate_exam_start_request r"
  shows "length (es_package_root r) \<le> 2048" "length (es_web_root r) \<le> 2048"
    "length (es_user_data_root r) \<le> 2048" "length (es_package_id r) \<le> 128" "length (es_candidate_id r) \<le> 128"
  using assms by (auto simp: validate_exam_start_request_def exam_limits dest!: valid_utf8_length)

lemma encode_start_request_eq:
  assumes "start_request_ok r"
  shows "encode_exam_start_request r =
    append_le kExamStartMagic @ append_le kExamStartVersion @ append_le kExamStartFlags @
    append_le (u16_len (es_package_root r)) @ append_le (u16_len (es_web_root r)) @
    append_le (u16_len (es_user_data_root r)) @ append_le (u16_len (es_package_id r)) @
    append_le (u16_len (es_candidate_id r)) @ es_package_digest r @ es_client_id r @ es_session_id r @
    es_package_root r @ es_web_root r @ es_user_data_root r @ es_package_id r @ es_candidate_id r"
  using assms start_request_lengths [of r]
  by (auto simp: encode_exam_start_request_def start_request_ok_def Let_def exam_limits)

interpretation start_codec: strict_codec encode_exam_start_request decode_exam_start_request start_request_ok
proof
  fix r assume ok: "start_request_ok r"
  have v: "validate_exam_start_request r" using ok by (simp add: start_request_ok_def)
  have len: "kFixedHeaderBytes \<le> length (encode_exam_start_request r)"
      "length (encode_exam_start_request r) \<le> kMaximumExamControlPayloadBytes"
    using ok start_request_lengths [OF v]
    by (simp_all add: encode_start_request_eq [OF ok] start_request_ok_def exam_limits)
  have t: "valid_utf8 (es_package_root r) 2048" "es_web_root r = [] \<or> valid_utf8 (es_web_root r) 2048"
      "es_user_data_root r = [] \<or> valid_utf8 (es_user_data_root r) 2048"
      "valid_utf8 (es_package_id r) 128" "valid_utf8 (es_candidate_id r) 128"
    using v by (simp_all add: validate_exam_start_request_def exam_limits)
  have arr: "length (es_package_digest r) = 32" "length (es_client_id r) = 16" "length (es_session_id r) = 16"
    using ok by (simp_all add: start_request_ok_def)
  note ro = read_optional_text_iff [THEN iffD2]
  have eta: "\<lparr>es_package_root = es_package_root r, es_web_root = es_web_root r,
      es_user_data_root = es_user_data_root r, es_package_id = es_package_id r,
      es_candidate_id = es_candidate_id r, es_package_digest = es_package_digest r,
      es_client_id = es_client_id r, es_session_id = es_session_id r\<rparr> = r" by simp
  show "decode_exam_start_request (encode_exam_start_request r) = Some r"
    using len t arr v
    by (simp add: eta decode_exam_start_request_def encode_start_request_eq [OF ok] read_text_write ro Let_def
        kMaximumExamControlPathBytes_def kMaximumExamControlPackageIdBytes_def
        kMaximumExamControlCandidateBytes_def)
next
  fix w r assume d: "decode_exam_start_request w = Some r"
  then have ok: "start_request_ok r"
    by (auto simp: decode_exam_start_request_def bind_eq_Some_conv read_array_iff start_request_ok_def Let_def
        split: if_splits)
  then show "start_request_ok r \<and> encode_exam_start_request r = w"
    using d
    by (auto simp: decode_exam_start_request_def encode_start_request_eq bind_eq_Some_conv reader_iffs Let_def
        read_text_iff read_optional_text_iff kMaximumExamControlPathBytes_def
        kMaximumExamControlPackageIdBytes_def kMaximumExamControlCandidateBytes_def split: if_splits)
qed

lemma encode_ready_report_eq:
  assumes "ready_report_ok r"
  shows "encode_exam_ready_report r =
    append_le kExamReadyMagic @ append_le kExamBarrierVersion @ append_le kExamBarrierFlags @
    append_le (u16_len (er_package_id r)) @ append_le (u16_len (er_candidate_id r)) @
    er_package_digest r @ er_client_id r @ er_session_id r @ er_package_id r @ er_candidate_id r"
    and "length (er_package_id r) \<le> 128" "length (er_candidate_id r) \<le> 128"
proof -
  show len: "length (er_package_id r) \<le> 128" "length (er_candidate_id r) \<le> 128"
    using assms by (auto simp: ready_report_ok_def validate_exam_ready_report_def exam_limits
        dest!: valid_utf8_length)
  show "encode_exam_ready_report r =
    append_le kExamReadyMagic @ append_le kExamBarrierVersion @ append_le kExamBarrierFlags @
    append_le (u16_len (er_package_id r)) @ append_le (u16_len (er_candidate_id r)) @
    er_package_digest r @ er_client_id r @ er_session_id r @ er_package_id r @ er_candidate_id r"
    using assms len by (auto simp: encode_exam_ready_report_def ready_report_ok_def Let_def exam_limits)
qed

interpretation ready_codec: strict_codec encode_exam_ready_report decode_exam_ready_report ready_report_ok
proof
  fix r assume ok: "ready_report_ok r"
  note eq = encode_ready_report_eq [OF ok]
  have v: "validate_exam_ready_report r" "length (er_package_digest r) = 32" "length (er_client_id r) = 16"
      "length (er_session_id r) = 16"
    using ok by (simp_all add: ready_report_ok_def)
  have t: "valid_utf8 (er_package_id r) 128" "valid_utf8 (er_candidate_id r) 128"
    using v by (simp_all add: validate_exam_ready_report_def exam_limits)
  have len: "kExamReadyFixedBytes \<le> length (encode_exam_ready_report r)"
      "length (encode_exam_ready_report r) \<le> kMaximumExamControlPayloadBytes"
    using v eq by (simp_all add: exam_limits)
  have eta: "\<lparr>er_package_id = er_package_id r, er_candidate_id = er_candidate_id r,
      er_package_digest = er_package_digest r, er_client_id = er_client_id r,
      er_session_id = er_session_id r\<rparr> = r" by simp
  have "read_identity (er_package_digest r @ er_client_id r @ er_session_id r @ rest) =
      Some ((er_package_digest r, er_client_id r, er_session_id r), rest)" for rest
    using v by (simp add: read_identity_iff)
  with len t v show "decode_exam_ready_report (encode_exam_ready_report r) = Some r"
    by (simp add: eta decode_exam_ready_report_def eq(1) read_text_write Let_def
        kMaximumExamControlPackageIdBytes_def kMaximumExamControlCandidateBytes_def)
next
  fix w r assume d: "decode_exam_ready_report w = Some r"
  then have ok: "ready_report_ok r"
    by (auto simp: decode_exam_ready_report_def bind_eq_Some_conv read_identity_iff ready_report_ok_def Let_def
        split: if_splits)
  then show "ready_report_ok r \<and> encode_exam_ready_report r = w"
    using d
    by (auto simp: decode_exam_ready_report_def encode_ready_report_eq(1) bind_eq_Some_conv reader_iffs Let_def
        read_text_iff read_identity_iff kMaximumExamControlPackageIdBytes_def
        kMaximumExamControlCandidateBytes_def split: if_splits)
qed

lemma encode_begin_command_eq:
  assumes "begin_command_ok c"
  shows "encode_exam_begin_command c =
    append_le kExamBeginMagic @ append_le kExamBarrierVersion @ append_le kExamBarrierFlags @
    append_le (u16_len (eb_package_id c)) @ append_le (u16_len (eb_candidate_id c)) @
    append_le (eb_start c) @ append_le (eb_duration c) @
    eb_package_digest c @ eb_client_id c @ eb_session_id c @ eb_package_id c @ eb_candidate_id c"
    and "length (eb_package_id c) \<le> 128" "length (eb_candidate_id c) \<le> 128"
proof -
  show len: "length (eb_package_id c) \<le> 128" "length (eb_candidate_id c) \<le> 128"
    using assms by (auto simp: begin_command_ok_def validate_exam_begin_command_def exam_limits
        dest!: valid_utf8_length)
  show "encode_exam_begin_command c =
    append_le kExamBeginMagic @ append_le kExamBarrierVersion @ append_le kExamBarrierFlags @
    append_le (u16_len (eb_package_id c)) @ append_le (u16_len (eb_candidate_id c)) @
    append_le (eb_start c) @ append_le (eb_duration c) @
    eb_package_digest c @ eb_client_id c @ eb_session_id c @ eb_package_id c @ eb_candidate_id c"
    using assms len by (auto simp: encode_exam_begin_command_def begin_command_ok_def Let_def exam_limits)
qed

interpretation begin_codec: strict_codec encode_exam_begin_command decode_exam_begin_command begin_command_ok
proof
  fix c assume ok: "begin_command_ok c"
  note eq = encode_begin_command_eq [OF ok]
  have v: "validate_exam_begin_command c" "length (eb_package_digest c) = 32" "length (eb_client_id c) = 16"
      "length (eb_session_id c) = 16"
    using ok by (simp_all add: begin_command_ok_def)
  have t: "valid_utf8 (eb_package_id c) 128" "valid_utf8 (eb_candidate_id c) 128"
    using v by (simp_all add: validate_exam_begin_command_def exam_limits)
  have len: "kExamBeginFixedBytes \<le> length (encode_exam_begin_command c)"
      "length (encode_exam_begin_command c) \<le> kMaximumExamControlPayloadBytes"
    using v eq by (simp_all add: exam_limits)
  have eta: "\<lparr>eb_package_id = eb_package_id c, eb_candidate_id = eb_candidate_id c,
      eb_package_digest = eb_package_digest c, eb_client_id = eb_client_id c,
      eb_session_id = eb_session_id c, eb_start = eb_start c, eb_duration = eb_duration c\<rparr> = c" by simp
  have "read_identity (eb_package_digest c @ eb_client_id c @ eb_session_id c @ rest) =
      Some ((eb_package_digest c, eb_client_id c, eb_session_id c), rest)" for rest
    using v by (simp add: read_identity_iff)
  with len t v show "decode_exam_begin_command (encode_exam_begin_command c) = Some c"
    by (simp add: eta decode_exam_begin_command_def eq(1) read_text_write Let_def
        kMaximumExamControlPackageIdBytes_def kMaximumExamControlCandidateBytes_def)
next
  fix w c assume d: "decode_exam_begin_command w = Some c"
  then have ok: "begin_command_ok c"
    by (auto simp: decode_exam_begin_command_def bind_eq_Some_conv read_identity_iff begin_command_ok_def Let_def
        split: if_splits)
  then show "begin_command_ok c \<and> encode_exam_begin_command c = w"
    using d
    by (auto simp: decode_exam_begin_command_def encode_begin_command_eq(1) bind_eq_Some_conv reader_iffs Let_def
        read_text_iff read_identity_iff kMaximumExamControlPackageIdBytes_def
        kMaximumExamControlCandidateBytes_def split: if_splits)
qed

section \<open>The UTF-8 validator against the encoding\<close>

text \<open>The encoding of one code point (RFC 3629), and the code points the validator admits.\<close>

definition utf8_encode :: "int \<Rightarrow> bytes" where
  "utf8_encode c =
     (if c < 0x80 then [word_of_int c]
      else if c < 0x800 then [word_of_int (0xc0 + c div 64), word_of_int (0x80 + c mod 64)]
      else if c < 0x10000
      then [word_of_int (0xe0 + c div 4096), word_of_int (0x80 + c div 64 mod 64), word_of_int (0x80 + c mod 64)]
      else [word_of_int (0xf0 + c div 262144), word_of_int (0x80 + c div 4096 mod 64),
            word_of_int (0x80 + c div 64 mod 64), word_of_int (0x80 + c mod 64)])"

definition plain_scalar :: "int \<Rightarrow> bool" where
  "plain_scalar c \<longleftrightarrow> 0x20 \<le> c \<and> c \<noteq> 0x7f \<and> c \<le> 0x10ffff \<and> \<not> (0xd800 \<le> c \<and> c \<le> 0xdfff)"

lemma all_bytes: "list_all (\<lambda>n. P (word_of_int n :: byte)) [0..255] \<Longrightarrow> P b"
proof -
  assume a: "list_all (\<lambda>n. P (word_of_int n :: byte)) [0..255]"
  have "uint b \<in> set [0..255]" using unsigned_less [of b, where ?'a = int] by auto
  with a have "P (word_of_int (uint b))" unfolding list_all_iff by blast
  then show ?thesis by simp
qed

lemma continuation_byte: "(b :: byte) AND 0xc0 = 0x80 \<longleftrightarrow> 128 \<le> uint b \<and> uint b < 192"
  by (rule all_bytes [of "\<lambda>b. (b AND 0xc0 = 0x80) = (128 \<le> uint b \<and> uint b < 192)"]) code_simp

lemma utf8_lead_eq:
  "utf8_lead b =
     (let n = uint b in
      if 32 \<le> n \<and> n \<le> 126 then Some (1, word_of_int n)
      else if 194 \<le> n \<and> n \<le> 223 then Some (2, word_of_int (n - 192))
      else if 224 \<le> n \<and> n \<le> 239 then Some (3, word_of_int (n - 224))
      else if 240 \<le> n \<and> n \<le> 244 then Some (4, word_of_int (n - 240))
      else None)"
  by (rule all_bytes [of "\<lambda>b. utf8_lead b = (let n = uint b in
      if 32 \<le> n \<and> n \<le> 126 then Some (1, word_of_int n)
      else if 194 \<le> n \<and> n \<le> 223 then Some (2, word_of_int (n - 192))
      else if 224 \<le> n \<and> n \<le> 239 then Some (3, word_of_int (n - 224))
      else if 240 \<le> n \<and> n \<le> 244 then Some (4, word_of_int (n - 240))
      else None)"]) code_simp

lemma low_bits: "(ucast (b :: byte) :: u32) AND 0x3f = word_of_int (uint b mod 64)"
  by (rule all_bytes [of "\<lambda>b. (ucast b :: u32) AND 0x3f = word_of_int (uint b mod 64)"]) code_simp

lemma shift_or:
  assumes "0 \<le> c" "c < 2 ^ 20"
  shows "push_bit 6 (word_of_int c :: u32) OR (ucast (b :: byte) AND 0x3f) = word_of_int (c * 64 + uint b mod 64)"
proof -
  have m: "(ucast b AND 0x3f :: u32) = take_bit 6 (ucast b)"
    by (simp add: take_bit_eq_mask mask_eq_exp_minus_1)
  have "push_bit 6 (word_of_int c :: u32) OR take_bit 6 (ucast b) =
      push_bit 6 (word_of_int c) + take_bit 6 (ucast b)"
    by (rule disjunctive_add [symmetric]) (auto simp: bit_simps)
  also have "\<dots> = word_of_int (c * 64) + word_of_int (uint b mod 64)"
    unfolding m [symmetric] low_bits by (simp add: push_bit_eq_mult)
  finally show ?thesis unfolding m by simp
qed

abbreviation cont :: "byte \<Rightarrow> bool" where "cont b \<equiv> 128 \<le> uint b \<and> uint b < 192"

lemma utf8_continue_int:
  assumes "0 \<le> c" "c < 2 ^ 20"
  shows "utf8_continue (word_of_int c) (b # bs) =
    (if cont b then utf8_continue (word_of_int (c * 64 + (uint b - 128))) bs else None)"
proof -
  have "uint b mod 64 = uint b - 128" if "cont b" using that by presburger
  then show ?thesis using shift_or [OF assms, of b] by (simp add: continuation_byte)
qed

lemma utf8_range_int:
  assumes "0 \<le> c" "c < 2 ^ 32"
  shows "utf8_range_ok w (word_of_int c) \<longleftrightarrow>
    \<not> (w = 3 \<and> c < 0x800 \<or> w = 4 \<and> c < 0x10000 \<or> c > 0x10ffff \<or> 0xd800 \<le> c \<and> c \<le> 0xdfff)"
proof -
  have "uint (word_of_int c :: u32) = c" using assms by (simp add: uint_word_of_int)
  then show ?thesis by (simp add: utf8_range_ok_def word_less_def word_le_def)
qed

text \<open>The code point that a lead value and its continuation bytes spell.\<close>

definition spell :: "int \<Rightarrow> bytes \<Rightarrow> int" where
  "spell = foldl (\<lambda>v b. v * 64 + (uint b - 128))"

lemma spell_Cons: "spell c (b # bs) = spell (c * 64 + (uint b - 128)) bs"
  by (simp add: spell_def)

lemma spell_bounds:
  "0 \<le> c \<Longrightarrow> list_all cont bs \<Longrightarrow> 0 \<le> spell c bs \<and> spell c bs < (c + 1) * 64 ^ length bs"
proof (induction bs arbitrary: c)
  case (Cons b bs)
  let ?c = "c * 64 + (uint b - 128)"
  have IH: "0 \<le> spell ?c bs \<and> spell ?c bs < (?c + 1) * 64 ^ length bs"
    by (rule Cons.IH) (use Cons.prems in auto)
  have "(?c + 1) * 64 ^ length bs \<le> (c * 64 + 64) * 64 ^ length bs"
    using Cons.prems by (intro mult_right_mono) auto
  also have "\<dots> = (c + 1) * 64 ^ length (b # bs)" by (simp add: algebra_simps)
  finally show ?case using IH unfolding spell_Cons by linarith
qed (simp add: spell_def)

lemma spell_digits:
  "spell x [b, c] = x * 4096 + (uint b - 128) * 64 + (uint c - 128)"
  "spell x [b, c, d] = x * 262144 + (uint b - 128) * 4096 + (uint c - 128) * 64 + (uint d - 128)"
  by (simp_all add: spell_def)

lemma base_64:
  fixes a b c x y z w :: int
  shows "y * 64 + b = x \<Longrightarrow> x * 64 + a = c \<Longrightarrow> y * 4096 + b * 64 + a = c"
    and "z * 64 + w = y \<Longrightarrow> y * 64 + b = x \<Longrightarrow> x * 64 + a = c \<Longrightarrow> z * 262144 + w * 4096 + b * 64 + a = c"
  by auto

lemma digits_64:
  "c div 4096 * 4096 + c div 64 mod 64 * 64 + c mod 64 = (c :: int)"
  "c div 262144 * 262144 + c div 4096 mod 64 * 4096 + c div 64 mod 64 * 64 + c mod 64 = c"
proof -
  have d: "c div 4096 = c div 64 div 64" "c div 262144 = c div 64 div 64 div 64"
    by (simp_all add: zdiv_zmult2_eq [symmetric])
  note m = div_mult_mod_eq [of "c div 64" 64] div_mult_mod_eq [of c 64]
  show "c div 4096 * 4096 + c div 64 mod 64 * 64 + c mod 64 = c"
    unfolding d by (rule base_64(1) [OF m])
  show "c div 262144 * 262144 + c div 4096 mod 64 * 4096 + c div 64 mod 64 * 64 + c mod 64 = c"
    unfolding d by (rule base_64(2) [OF div_mult_mod_eq m])
qed

lemma utf8_continue_spell:
  "0 \<le> c \<Longrightarrow> (c + 1) * 64 ^ length bs \<le> 2 ^ 26 \<Longrightarrow>
   utf8_continue (word_of_int c) bs = (if list_all cont bs then Some (word_of_int (spell c bs)) else None)"
proof (induction bs arbitrary: c)
  case (Cons b bs)
  have pow: "(1 :: int) \<le> 64 ^ length bs" by simp
  have "(c + 1) * 1 \<le> (c + 1) * 64 ^ length bs" using Cons.prems(1) pow by (intro mult_left_mono) auto
  also have "\<dots> \<le> 2 ^ 20" using Cons.prems(2) by simp
  finally have c: "c < 2 ^ 20" by simp
  show ?case
  proof (cases "cont b")
    case True
    have "(c * 64 + (uint b - 128) + 1) * 64 ^ length bs \<le> (c * 64 + 64) * 64 ^ length bs"
      using True pow by (intro mult_right_mono) auto
    also have "\<dots> = (c + 1) * 64 ^ length (b # bs)" by (simp add: algebra_simps)
    finally have "(c * 64 + (uint b - 128) + 1) * 64 ^ length bs \<le> 2 ^ 26" using Cons.prems(2) by (rule order_trans)
    from Cons.IH [OF _ this] show ?thesis
      using True Cons.prems(1) c by (simp add: utf8_continue_int spell_Cons
          del: utf8_continue.simps(2) of_int_add of_int_mult of_int_diff)
  next
    case False
    then show ?thesis using utf8_continue_int [OF Cons.prems(1) c, of b bs] by auto
  qed
qed (simp add: spell_def)

text \<open>One turn of the loop per width, in integer arithmetic.\<close>

lemma utf8_loop_turn:
  assumes "utf8_lead a = Some (Suc n, cp)"
  shows "utf8_loop (a # rest) =
    (length rest \<ge> n \<and> (case utf8_continue cp (take n rest) of None \<Rightarrow> False
       | Some v \<Rightarrow> utf8_range_ok (Suc n) v \<and> utf8_loop (drop n rest)))"
  using assms by (auto split: option.splits)

declare utf8_loop.simps(2) [simp del]

lemma utf8_loop_1:
  assumes "32 \<le> uint a" "uint a \<le> 126"
  shows "utf8_loop (a # r) = utf8_loop r"
proof -
  have "utf8_lead a = Some (Suc 0, word_of_int (uint a))"
    unfolding utf8_lead_eq Let_def using assms by simp
  moreover have "utf8_range_ok (Suc 0) (word_of_int (uint a))" using assms by (subst utf8_range_int) auto
  ultimately show ?thesis by (subst utf8_loop_turn) auto
qed

lemma utf8_loop_spell:
  assumes lead: "utf8_lead a = Some (Suc n, word_of_int x)" and x: "0 \<le> x" "(x + 1) * 64 ^ n \<le> 2 ^ 26"
  shows "utf8_loop (a # rest) \<longleftrightarrow> n \<le> length rest \<and> list_all cont (take n rest) \<and>
    (let v = spell x (take n rest) in
     \<not> (n = 2 \<and> v < 0x800 \<or> n = 3 \<and> v < 0x10000 \<or> v > 0x10ffff \<or> 0xd800 \<le> v \<and> v \<le> 0xdfff)) \<and>
    utf8_loop (drop n rest)"
proof (cases "n \<le> length rest \<and> list_all cont (take n rest)")
  case True
  then have len: "length (take n rest) = n" by simp
  have "utf8_continue (word_of_int x) (take n rest) = Some (word_of_int (spell x (take n rest)))"
    using utf8_continue_spell [OF x(1), of "take n rest"] x(2) True unfolding len by simp
  moreover have "utf8_range_ok (Suc n) (word_of_int (spell x (take n rest))) \<longleftrightarrow>
      (let v = spell x (take n rest) in
       \<not> (n = 2 \<and> v < 0x800 \<or> n = 3 \<and> v < 0x10000 \<or> v > 0x10ffff \<or> 0xd800 \<le> v \<and> v \<le> 0xdfff))"
    using spell_bounds [OF x(1), of "take n rest"] True x(2) unfolding Let_def len
    by (subst utf8_range_int) auto
  ultimately show ?thesis using True by (simp add: utf8_loop_turn [OF lead])
next
  case False
  have "utf8_continue (word_of_int x) (take n rest) = None" if "n \<le> length rest"
    using utf8_continue_spell [OF x(1), of "take n rest"] x(2) False that by (simp add: min_absorb2)
  then show ?thesis using False by (auto simp: utf8_loop_turn [OF lead])
qed

lemma utf8_loop_0:
  assumes "\<not> (32 \<le> uint a \<and> uint a \<le> 126)" "\<not> (194 \<le> uint a \<and> uint a \<le> 244)"
  shows "\<not> utf8_loop (a # rest)"
proof -
  have "utf8_lead a = None" unfolding utf8_lead_eq Let_def using assms by auto
  then show ?thesis by (simp add: utf8_loop.simps(2))
qed

text \<open>The encoding is what the loop reads.\<close>

definition spelled :: "int \<Rightarrow> bytes \<Rightarrow> bool" where
  "spelled c w \<longleftrightarrow> (\<exists>a bs n x. w = a # bs \<and> length bs = n \<and> list_all cont bs \<and>
     utf8_lead a = Some (Suc n, word_of_int x) \<and> 0 \<le> x \<and> (x + 1) * 64 ^ n \<le> 2 ^ 26 \<and> spell x bs = c \<and>
     (n = 2 \<longrightarrow> 0x800 \<le> c) \<and> (n = 3 \<longrightarrow> 0x10000 \<le> c))"

lemma byte_uint: "0 \<le> n \<Longrightarrow> n < 256 \<Longrightarrow> uint (word_of_int n :: byte) = n"
  by (simp add: uint_word_of_int)

lemma cont_digit: "0 \<le> y \<Longrightarrow> y < 64 \<Longrightarrow> uint (word_of_int (0x80 + y) :: byte) = 0x80 + y"
  by (rule byte_uint) auto

lemma spelled_1: "32 \<le> x \<Longrightarrow> x \<le> 126 \<Longrightarrow> spelled x [word_of_int x]"
  unfolding spelled_def
  by (intro exI [of _ "word_of_int x"] exI [of _ "[]"] exI [of _ 0] exI [of _ x])
    (simp add: utf8_lead_eq byte_uint spell_def)

lemma spelled_2:
  assumes "2 \<le> x" "x \<le> 31" "0 \<le> y" "y < 64"
  shows "spelled (x * 64 + y) [word_of_int (0xc0 + x), word_of_int (0x80 + y)]"
proof -
  have a: "uint (word_of_int (0xc0 + x) :: byte) = 0xc0 + x" using assms by (intro byte_uint) auto
  have "utf8_lead (word_of_int (0xc0 + x)) = Some (Suc 1, word_of_int x)"
    unfolding utf8_lead_eq a using assms by (simp add: Let_def)
  then show ?thesis
    using assms cont_digit [OF assms(3,4)] unfolding spelled_def
    by (intro exI [of _ "word_of_int (0xc0 + x)"] exI [of _ "[word_of_int (0x80 + y)]"] exI [of _ 1] exI [of _ x])
      (simp add: spell_def del: of_int_add of_int_numeral)
qed

lemma spelled_3:
  assumes "0 \<le> x" "x \<le> 15" "0 \<le> y" "y < 64" "0 \<le> z" "z < 64" "0x800 \<le> x * 4096 + y * 64 + z"
  shows "spelled (x * 4096 + y * 64 + z) [word_of_int (0xe0 + x), word_of_int (0x80 + y), word_of_int (0x80 + z)]"
proof -
  have a: "uint (word_of_int (0xe0 + x) :: byte) = 0xe0 + x" using assms by (intro byte_uint) auto
  have "utf8_lead (word_of_int (0xe0 + x)) = Some (Suc 2, word_of_int x)"
    unfolding utf8_lead_eq a using assms by (simp add: Let_def)
  then show ?thesis
    using assms cont_digit [OF assms(3,4)] cont_digit [OF assms(5,6)] unfolding spelled_def
    by (intro exI [of _ "word_of_int (0xe0 + x)"] exI [of _ "[word_of_int (0x80 + y), word_of_int (0x80 + z)]"]
        exI [of _ 2] exI [of _ x]) (simp add: spell_digits del: of_int_add of_int_numeral)
qed

lemma spelled_4:
  assumes "0 \<le> u" "u \<le> 4" "0 \<le> x" "x < 64" "0 \<le> y" "y < 64" "0 \<le> z" "z < 64"
    "0x10000 \<le> u * 262144 + x * 4096 + y * 64 + z"
  shows "spelled (u * 262144 + x * 4096 + y * 64 + z)
    [word_of_int (0xf0 + u), word_of_int (0x80 + x), word_of_int (0x80 + y), word_of_int (0x80 + z)]"
proof -
  have a: "uint (word_of_int (0xf0 + u) :: byte) = 0xf0 + u" using assms by (intro byte_uint) auto
  have "utf8_lead (word_of_int (0xf0 + u)) = Some (Suc 3, word_of_int u)"
    unfolding utf8_lead_eq a using assms by (simp add: Let_def)
  then show ?thesis
    using assms cont_digit [OF assms(3,4)] cont_digit [OF assms(5,6)] cont_digit [OF assms(7,8)]
    unfolding spelled_def
    by (intro exI [of _ "word_of_int (0xf0 + u)"]
        exI [of _ "[word_of_int (0x80 + x), word_of_int (0x80 + y), word_of_int (0x80 + z)]"]
        exI [of _ 3] exI [of _ u]) (simp add: spell_digits del: of_int_add of_int_numeral)
qed

lemma utf8_encode_spelled:
  assumes c: "plain_scalar c"
  shows "spelled c (utf8_encode c)"
proof -
  have dig: "0 \<le> k mod 64 \<and> k mod 64 < 64" for k :: int by simp
  have top: "32 \<le> c" "c \<noteq> 127" "c \<le> 0x10ffff" using c by (simp_all add: plain_scalar_def)
  consider "c < 0x80" | "0x80 \<le> c" "c < 0x800" | "0x800 \<le> c" "c < 0x10000" | "0x10000 \<le> c" by linarith
  then show ?thesis
  proof cases
    case 1
    then show ?thesis using spelled_1 [of c] top by (simp add: utf8_encode_def)
  next
    case 2
    have "2 \<le> c div 64" "c div 64 \<le> 31" using 2 by linarith+
    then show ?thesis using spelled_2 [of "c div 64" "c mod 64"] 2 dig [of c] by (simp add: utf8_encode_def)
  next
    case 3
    have "0 \<le> c div 4096" "c div 4096 \<le> 15" using 3 by linarith+
    then show ?thesis
      using spelled_3 [of "c div 4096" "c div 64 mod 64" "c mod 64"] 3 dig [of c] dig [of "c div 64"]
      unfolding digits_64 by (simp add: utf8_encode_def)
  next
    case 4
    have "0 \<le> c div 262144" "c div 262144 \<le> 4" using 4 top by linarith+
    then show ?thesis
      using spelled_4 [of "c div 262144" "c div 4096 mod 64" "c div 64 mod 64" "c mod 64"] 4
        dig [of c] dig [of "c div 64"] dig [of "c div 4096"]
      unfolding digits_64 by (simp add: utf8_encode_def)
  qed
qed

lemma div_mod_shift:
  fixes x r k :: int
  assumes "0 \<le> r" "r < k"
  shows "(x * k + r) div k = x" "(x * k + r) mod k = r"
  using assms by simp_all

lemma utf8_encode_digits:
  "2 \<le> x \<Longrightarrow> x \<le> 31 \<Longrightarrow> 0 \<le> y \<Longrightarrow> y < 64 \<Longrightarrow>
     utf8_encode (x * 64 + y) = [word_of_int (0xc0 + x), word_of_int (0x80 + y)]"
  "0 \<le> x \<Longrightarrow> x \<le> 15 \<Longrightarrow> 0 \<le> y \<Longrightarrow> y < 64 \<Longrightarrow> 0 \<le> z \<Longrightarrow> z < 64 \<Longrightarrow> 0x800 \<le> x * 4096 + y * 64 + z \<Longrightarrow>
     utf8_encode (x * 4096 + y * 64 + z) =
       [word_of_int (0xe0 + x), word_of_int (0x80 + y), word_of_int (0x80 + z)]"
  "0 \<le> u \<Longrightarrow> 0 \<le> x \<Longrightarrow> x < 64 \<Longrightarrow> 0 \<le> y \<Longrightarrow> y < 64 \<Longrightarrow> 0 \<le> z \<Longrightarrow> z < 64 \<Longrightarrow>
     0x10000 \<le> u * 262144 + x * 4096 + y * 64 + z \<Longrightarrow>
     utf8_encode (u * 262144 + x * 4096 + y * 64 + z) =
       [word_of_int (0xf0 + u), word_of_int (0x80 + x), word_of_int (0x80 + y), word_of_int (0x80 + z)]"
proof -
  assume "2 \<le> x" "x \<le> 31" "0 \<le> y" "y < 64"
  then show "utf8_encode (x * 64 + y) = [word_of_int (0xc0 + x), word_of_int (0x80 + y)]"
    using div_mod_shift [of y 64 x] by (simp add: utf8_encode_def)
next
  assume a: "0 \<le> x" "x \<le> 15" "0 \<le> y" "y < 64" "0 \<le> z" "z < 64" "0x800 \<le> x * 4096 + y * 64 + z"
  have e: "x * 4096 + y * 64 + z = (x * 64 + y) * 64 + z" "x * 4096 + y * 64 + z = x * 4096 + (y * 64 + z)" by simp_all
  have "(x * 4096 + y * 64 + z) div 64 = x * 64 + y" "(x * 4096 + y * 64 + z) mod 64 = z"
    unfolding e(1) using div_mod_shift [of z 64 "x * 64 + y"] a by blast+
  moreover have "(x * 4096 + y * 64 + z) div 4096 = x" unfolding e(2) by (rule div_mod_shift) (use a in auto)
  moreover have "(x * 64 + y) mod 64 = y" by (rule div_mod_shift) (use a in auto)
  moreover have "x * 4096 + y * 64 + z < 0x10000" "\<not> x * 4096 + y * 64 + z < 0x80" "\<not> x * 4096 + y * 64 + z < 0x800"
    using a by linarith+
  ultimately show "utf8_encode (x * 4096 + y * 64 + z) =
      [word_of_int (0xe0 + x), word_of_int (0x80 + y), word_of_int (0x80 + z)]"
    by (simp only: utf8_encode_def if_False if_True)
next
  assume a: "0 \<le> u" "0 \<le> x" "x < 64" "0 \<le> y" "y < 64" "0 \<le> z" "z < 64"
    "0x10000 \<le> u * 262144 + x * 4096 + y * 64 + z"
  let ?v = "u * 262144 + x * 4096 + y * 64 + z"
  have e: "?v = (u * 4096 + x * 64 + y) * 64 + z" "?v = (u * 64 + x) * 4096 + (y * 64 + z)"
    "?v = u * 262144 + (x * 4096 + y * 64 + z)" "u * 4096 + x * 64 + y = (u * 64 + x) * 64 + y" by simp_all
  have "?v div 64 = u * 4096 + x * 64 + y" "?v mod 64 = z"
    unfolding e(1) using div_mod_shift [of z 64 "u * 4096 + x * 64 + y"] a by blast+
  moreover have "?v div 4096 = u * 64 + x" unfolding e(2) by (rule div_mod_shift) (use a in auto)
  moreover have "?v div 262144 = u" unfolding e(3) by (rule div_mod_shift) (use a in auto)
  moreover have "(u * 4096 + x * 64 + y) mod 64 = y" unfolding e(4) by (rule div_mod_shift) (use a in auto)
  moreover have "(u * 64 + x) mod 64 = x" by (rule div_mod_shift) (use a in auto)
  moreover have "\<not> ?v < 0x80" "\<not> ?v < 0x800" "\<not> ?v < 0x10000" using a(8) by linarith+
  ultimately show "utf8_encode ?v =
      [word_of_int (0xf0 + u), word_of_int (0x80 + x), word_of_int (0x80 + y), word_of_int (0x80 + z)]"
    by (simp only: utf8_encode_def if_False)
qed

lemma spelled_loop:
  assumes "spelled c w" and "plain_scalar c"
  shows "utf8_loop (w @ r) = utf8_loop r"
proof -
  obtain a bs n x where w: "w = a # bs" "length bs = n" "list_all cont bs"
      "utf8_lead a = Some (Suc n, word_of_int x)" "0 \<le> x" "(x + 1) * 64 ^ n \<le> 2 ^ 26" "spell x bs = c"
      "n = 2 \<Longrightarrow> 0x800 \<le> c" "n = 3 \<Longrightarrow> 0x10000 \<le> c"
    using assms(1) unfolding spelled_def by blast
  show ?thesis
    using utf8_loop_spell [OF w(4-6), of "bs @ r"] w assms(2) by (auto simp: plain_scalar_def)
qed

lemma byte_parts:
  "word_of_int (0xc0 + (uint b - 192)) = b" "word_of_int (0xe0 + (uint b - 224)) = b"
  "word_of_int (0xf0 + (uint b - 240)) = b" "word_of_int (0x80 + (uint b - 128)) = (b :: byte)"
  by simp_all

lemma utf8_loop_splits:
  assumes loop: "utf8_loop (a # rest)"
  shows "\<exists>c r. plain_scalar c \<and> a # rest = utf8_encode c @ r \<and> utf8_loop r"
proof -
  consider "32 \<le> uint a" "uint a \<le> 126" | "194 \<le> uint a" "uint a \<le> 223" | "224 \<le> uint a" "uint a \<le> 239"
    | "240 \<le> uint a" "uint a \<le> 244"
    using utf8_loop_0 [of a rest] loop by linarith
  then show ?thesis
  proof cases
    case 1
    then have "utf8_encode (uint a) = [a]" "plain_scalar (uint a)" by (simp_all add: utf8_encode_def plain_scalar_def)
    then show ?thesis using loop 1 utf8_loop_1 [of a rest] by (metis append_Cons append_Nil)
  next
    case 2
    have lead: "utf8_lead a = Some (Suc 1, word_of_int (uint a - 192))"
      unfolding utf8_lead_eq Let_def using 2 by simp
    have "(uint a - 192 + 1) * 64 ^ 1 \<le> 2 ^ 26" using 2 by simp
    note l = utf8_loop_spell [OF lead _ this, of rest] loop
    then obtain b r where rest: "rest = b # r" using 2 by (cases rest) auto
    have b: "cont b" "utf8_loop r" using l 2 rest by auto
    have "utf8_encode ((uint a - 192) * 64 + (uint b - 128)) = [a, b]"
      using utf8_encode_digits(1) [of "uint a - 192" "uint b - 128"] 2 b unfolding byte_parts by simp
    moreover have "plain_scalar ((uint a - 192) * 64 + (uint b - 128))" using 2 b by (auto simp: plain_scalar_def)
    ultimately show ?thesis using rest b(2) by (metis append_Cons append_Nil)
  next
    case 3
    have lead: "utf8_lead a = Some (Suc 2, word_of_int (uint a - 224))"
      unfolding utf8_lead_eq Let_def using 3 by simp
    have "(uint a - 224 + 1) * 64 ^ 2 \<le> 2 ^ 26" using 3 by simp
    note l = utf8_loop_spell [OF lead _ this, of rest] loop
    then obtain b d r where rest: "rest = b # d # r" using 3 by (cases rest; cases "tl rest") auto
    let ?v = "(uint a - 224) * 4096 + (uint b - 128) * 64 + (uint d - 128)"
    have "take 2 rest = [b, d]" "drop 2 rest = r" using rest by simp_all
    then have b: "cont b" "cont d" "0x800 \<le> ?v" "\<not> (0xd800 \<le> ?v \<and> ?v \<le> 0xdfff)" "utf8_loop r"
      using l 3 by (simp_all add: spell_digits Let_def not_less)
    have "utf8_encode ?v = [a, b, d]"
      using utf8_encode_digits(2) [of "uint a - 224" "uint b - 128" "uint d - 128"] 3 b unfolding byte_parts by simp
    moreover have "plain_scalar ?v" unfolding plain_scalar_def using 3 b by auto
    ultimately show ?thesis using rest b(5) by (metis append_Cons append_Nil)
  next
    case 4
    have lead: "utf8_lead a = Some (Suc 3, word_of_int (uint a - 240))"
      unfolding utf8_lead_eq Let_def using 4 by simp
    have "(uint a - 240 + 1) * 64 ^ 3 \<le> 2 ^ 26" using 4 by simp
    note l = utf8_loop_spell [OF lead _ this, of rest] loop
    then obtain b d e r where rest: "rest = b # d # e # r"
      using 4 by (cases rest; cases "tl rest"; cases "tl (tl rest)") auto
    let ?v = "(uint a - 240) * 262144 + (uint b - 128) * 4096 + (uint d - 128) * 64 + (uint e - 128)"
    have "take 3 rest = [b, d, e]" "drop 3 rest = r" using rest by simp_all
    then have b: "cont b" "cont d" "cont e" "0x10000 \<le> ?v" "?v \<le> 0x10ffff" "utf8_loop r"
      using l 4 by (simp_all add: spell_digits Let_def not_less)
    have "utf8_encode ?v = [a, b, d, e]"
      using utf8_encode_digits(3) [of "uint a - 240" "uint b - 128" "uint d - 128" "uint e - 128"] 4 b
      unfolding byte_parts by simp
    moreover have "plain_scalar ?v" unfolding plain_scalar_def using 4 b by auto
    ultimately show ?thesis using rest b(6) by (metis append_Cons append_Nil)
  qed
qed

lemma utf8_loop_iff: "utf8_loop v \<longleftrightarrow> (\<exists>cs. list_all plain_scalar cs \<and> v = concat (map utf8_encode cs))"
proof
  assume "utf8_loop v"
  then show "\<exists>cs. list_all plain_scalar cs \<and> v = concat (map utf8_encode cs)"
  proof (induction v rule: length_induct)
    case (1 v)
    show ?case
    proof (cases v)
      case Nil
      then show ?thesis by (intro exI [of _ "[]"]) simp
    next
      case (Cons a rest)
      obtain c r where c: "plain_scalar c" "v = utf8_encode c @ r" "utf8_loop r"
        using utf8_loop_splits [of a rest] 1(2) Cons by blast
      have "utf8_encode c \<noteq> []" by (simp add: utf8_encode_def)
      then have "length r < length v" using c(2) by simp
      with 1(1) c(3) obtain cs where "list_all plain_scalar cs" "r = concat (map utf8_encode cs)" by blast
      with c show ?thesis by (intro exI [of _ "c # cs"]) simp
    qed
  qed
next
  assume "\<exists>cs. list_all plain_scalar cs \<and> v = concat (map utf8_encode cs)"
  then obtain cs where "list_all plain_scalar cs" and v: "v = concat (map utf8_encode cs)" by blast
  then have "utf8_loop (concat (map utf8_encode cs))"
    by (induction cs arbitrary: v) (auto simp: spelled_loop [OF utf8_encode_spelled])
  with v show "utf8_loop v" by simp
qed

lemma spelled_no_nul: "spelled c w \<Longrightarrow> 0 \<notin> set w"
proof -
  assume "spelled c w"
  then obtain a bs n x where w: "w = a # bs" "list_all cont bs" "utf8_lead a = Some (Suc n, word_of_int x)"
    unfolding spelled_def by blast
  have "utf8_lead 0 = None" by (simp add: utf8_lead_eq)
  then have "a \<noteq> 0" using w(3) by auto
  moreover have "b \<noteq> 0" if "b \<in> set bs" for b using w(2) that by (auto simp: list_all_iff)
  ultimately show ?thesis using w(1) by auto
qed

text \<open>
  C33. The text validator is right: it accepts exactly the UTF-8 encodings (RFC 3629) of
  sequences of Unicode scalar values without C0 control characters and DEL, when the text is
  not empty and not longer than the limit. Overlong forms, surrogates, values above 10FFFF,
  truncated sequences, stray continuation bytes and NUL are all refused.
\<close>

theorem valid_utf8_exact:
  "valid_utf8 v maximum \<longleftrightarrow> 0 < length v \<and> length v \<le> maximum \<and>
     (\<exists>cs. list_all plain_scalar cs \<and> v = concat (map utf8_encode cs))"
proof -
  have "0 \<notin> set v" if "utf8_loop v"
  proof -
    obtain cs where "list_all plain_scalar cs" "v = concat (map utf8_encode cs)"
      using \<open>utf8_loop v\<close> by (auto simp: utf8_loop_iff)
    then show ?thesis using spelled_no_nul [OF utf8_encode_spelled] by (auto simp: list_all_iff)
  qed
  then show ?thesis by (auto simp: valid_utf8_def utf8_loop_iff)
qed

text \<open>
  The three exam control messages have one wire form each: the decoder accepts precisely
  what the encoder produces for a valid message (start request, ready report, begin command),
  and returns that message; every other payload is refused.
\<close>

theorem exam_control_exact:
  "(decode_exam_start_request w = Some r \<longleftrightarrow>
      length (es_package_digest r) = 32 \<and> length (es_client_id r) = 16 \<and> length (es_session_id r) = 16 \<and>
      validate_exam_start_request r \<and> encode_exam_start_request r = w) \<and>
   (decode_exam_ready_report w = Some p \<longleftrightarrow>
      length (er_package_digest p) = 32 \<and> length (er_client_id p) = 16 \<and> length (er_session_id p) = 16 \<and>
      validate_exam_ready_report p \<and> encode_exam_ready_report p = w) \<and>
   (decode_exam_begin_command w = Some c \<longleftrightarrow>
      length (eb_package_digest c) = 32 \<and> length (eb_client_id c) = 16 \<and> length (eb_session_id c) = 16 \<and>
      validate_exam_begin_command c \<and> encode_exam_begin_command c = w)"
  by (auto simp: start_codec.dec_iff ready_codec.dec_iff begin_codec.dec_iff start_request_ok_def
      ready_report_ok_def begin_command_ok_def)

end
