(* ===== verification/ControlMessages.thy ===== *)
theory ControlMessages
  imports UrlValidation
begin

text \<open>
  The command payloads of \<^verbatim>\<open>common/src/control_messages.cpp\<close>: status reports, stream and snapshot
  requests, overlay strokes, the reboot-to-restore (UWF) requests and reports, the video group key,
  help requests, launch URLs, power actions and the small reports. Every \<open>enum class\<close> is a datatype, so a
  value outside the enumeration, which the encoders also refuse, does not exist here. An encoder
  answers with the empty vector when the value is out of bounds.

  Shown: every message is read back as it was written, and the decoders that look at every bit of the
  payload accept nothing but encodings of valid values; a fleet report that claims protection
  without the evidence of its own probe never decodes.
\<close>

unbundle bit_operations_syntax

section \<open>Types and limits\<close>

datatype delivery_mode = Multicast | Unicast

definition delivery_code :: "delivery_mode \<Rightarrow> u8" where
  "delivery_code d = (case d of Multicast \<Rightarrow> 0 | Unicast \<Rightarrow> 1)"

record status_report =
  sr_hostname :: bytes
  sr_locked :: bool
  sr_streaming :: bool
  sr_snapshotting :: bool
  sr_viewing_broadcast :: bool
  sr_frames_per_second :: u8
  sr_snapshot_interval_seconds :: u16
  sr_session_id :: u32
  sr_latency_ms :: u32
  sr_packet_loss_per_mille :: u32
  sr_packet_loss_sample_size :: u64
  sr_delivery :: delivery_mode

record snapshot_frame =
  sf_width :: u16
  sf_height :: u16
  sf_captured_at :: u64
  sf_jpeg :: bytes

record overlay_stroke =
  os_x0 :: u16
  os_y0 :: u16
  os_x1 :: u16
  os_y1 :: u16
  os_thickness :: u16
  os_rgba :: u32

definition kMinimumSnapshotIntervalSeconds :: u16 where "kMinimumSnapshotIntervalSeconds = 5"
definition kMaximumSnapshotIntervalSeconds :: u16 where "kMaximumSnapshotIntervalSeconds = 10"
definition kMaximumSnapshotWidth :: u16 where "kMaximumSnapshotWidth = 1280"
definition kMaximumSnapshotHeight :: u16 where "kMaximumSnapshotHeight = 720"
definition kMaximumSnapshotJpegBytes :: nat where "kMaximumSnapshotJpegBytes = 512 * 1024"
definition kMaximumUwfDetailBytes :: nat where "kMaximumUwfDetailBytes = 256"
definition kBootIdBytes :: nat where "kBootIdBytes = 16"
definition kMaximumHelpMessageBytes :: nat where "kMaximumHelpMessageBytes = 256"
definition kMaximumClientVersionBytes :: nat where "kMaximumClientVersionBytes = 32"
definition kStatusVersion :: u16 where "kStatusVersion = 2"
definition kSnapshotFrameVersion :: u16 where "kSnapshotFrameVersion = 1"
definition kBroadcastModeVersion :: u16 where "kBroadcastModeVersion = 1"
definition kFleetMetadataVersion :: u16 where "kFleetMetadataVersion = 1"
definition kMaximumHostnameBytes :: nat where "kMaximumHostnameBytes = 255"

lemmas control_limits = kMinimumSnapshotIntervalSeconds_def kMaximumSnapshotIntervalSeconds_def
  kMaximumSnapshotWidth_def kMaximumSnapshotHeight_def kMaximumSnapshotJpegBytes_def kMaximumUwfDetailBytes_def
  kBootIdBytes_def kMaximumHelpMessageBytes_def kMaximumClientVersionBytes_def kStatusVersion_def
  kSnapshotFrameVersion_def kBroadcastModeVersion_def kFleetMetadataVersion_def kMaximumHostnameBytes_def

datatype configure_outcome = Armed | Already_enabled | Unsupported_edition | Feature_missing | Probe_unavailable
  | Provider_unavailable | Reboot_pending | Invalid_data_root | Readiness_failed | Checkpoint_required
  | Access_denied | Outcome_failed | Busy

definition all_outcomes :: "configure_outcome list" where
  "all_outcomes = [Armed, Already_enabled, Unsupported_edition, Feature_missing, Probe_unavailable,
     Provider_unavailable, Reboot_pending, Invalid_data_root, Readiness_failed, Checkpoint_required,
     Access_denied, Outcome_failed, Busy]"

definition outcome_code :: "configure_outcome \<Rightarrow> u8" where
  "outcome_code c = (case c of Armed \<Rightarrow> 1 | Already_enabled \<Rightarrow> 2 | Unsupported_edition \<Rightarrow> 3 | Feature_missing \<Rightarrow> 4
     | Probe_unavailable \<Rightarrow> 5 | Provider_unavailable \<Rightarrow> 6 | Reboot_pending \<Rightarrow> 7 | Invalid_data_root \<Rightarrow> 8
     | Readiness_failed \<Rightarrow> 9 | Checkpoint_required \<Rightarrow> 10 | Access_denied \<Rightarrow> 11 | Outcome_failed \<Rightarrow> 12 | Busy \<Rightarrow> 13)"

record configure_report =
  cr_outcome :: configure_outcome
  cr_reboot_required :: bool
  cr_data_exclusion_ready :: bool
  cr_registry_exclusion_ready :: bool
  cr_detail :: bytes

datatype fleet_phase = Idle | Requested | Configuring | Awaiting_restart | Restarting | Verifying
  | Verified_protected | Phase_failed | Unsupported

definition all_phases :: "fleet_phase list" where
  "all_phases = [Idle, Requested, Configuring, Awaiting_restart, Restarting, Verifying, Verified_protected,
     Phase_failed, Unsupported]"

definition phase_code :: "fleet_phase \<Rightarrow> u8" where
  "phase_code p = (case p of Idle \<Rightarrow> 1 | Requested \<Rightarrow> 2 | Configuring \<Rightarrow> 3 | Awaiting_restart \<Rightarrow> 4 | Restarting \<Rightarrow> 5
     | Verifying \<Rightarrow> 6 | Verified_protected \<Rightarrow> 7 | Phase_failed \<Rightarrow> 8 | Unsupported \<Rightarrow> 9)"

record protection_probe =
  pp_succeeded :: bool
  pp_filter_current :: bool
  pp_filter_next :: bool
  pp_volume_current :: bool
  pp_data_exclusion :: bool
  pp_registry_exclusion :: bool

definition no_probe :: protection_probe where
  "no_probe = \<lparr>pp_succeeded = False, pp_filter_current = False, pp_filter_next = False, pp_volume_current = False,
     pp_data_exclusion = False, pp_registry_exclusion = False\<rparr>"

definition probe_proves_protection :: "protection_probe \<Rightarrow> bool" where
  "probe_proves_protection p \<longleftrightarrow> pp_succeeded p \<and> pp_filter_current p \<and> pp_volume_current p"

record fleet_request =
  fr_operation_id :: u64
  fr_checkpoint_acknowledged :: bool
  fr_restart_requested :: bool

record fleet_status =
  fl_operation_id :: u64
  fl_boot_id :: bytes
  fl_phase :: fleet_phase
  fl_probe :: protection_probe
  fl_detail :: bytes

record group_key_message =
  gk_stream_id :: u32
  gk_first_packet_sequence :: u64
  gk_key :: bytes

record help_request =
  hr_active :: bool
  hr_timestamp :: u64
  hr_message :: bytes

record help_ack =
  ha_resolved :: bool
  ha_timestamp :: u64

datatype power_kind = Reboot | Shutdown

record power_action =
  pa_action :: power_kind
  pa_force :: bool

datatype wol_support = Wol_unknown | Wol_supported | Wol_unsupported | Wol_missing_mac

definition wol_code :: "wol_support \<Rightarrow> u8" where
  "wol_code s = (case s of Wol_unknown \<Rightarrow> 0 | Wol_supported \<Rightarrow> 1 | Wol_unsupported \<Rightarrow> 2 | Wol_missing_mac \<Rightarrow> 3)"

record wol_report =
  wr_mac :: bytes
  wr_support :: wol_support

datatype demonstration_mode = Focus | Follow_along

record broadcast_mode =
  bm_mode :: demonstration_mode
  bm_lock_input :: bool

record fleet_metadata =
  fd_client_version :: bytes
  fd_agent_connected :: bool

text \<open>\<open>flag_if c v\<close> is the term \<open>c ? v : 0\<close> of a flag expression, and \<open>flag_set w v\<close> the test of it.\<close>

definition flag_if :: "bool \<Rightarrow> 'a::len word \<Rightarrow> 'a word" where
  "flag_if c v = (if c then v else 0)"

definition flag_set :: "'a::len word \<Rightarrow> 'a word \<Rightarrow> bool" where
  "flag_set w v \<longleftrightarrow> w AND v \<noteq> 0"

definition unknown_flags :: "'a::len word \<Rightarrow> 'a word \<Rightarrow> bool" where
  "unknown_flags w known \<longleftrightarrow> w AND NOT known \<noteq> 0"

definition printable_ascii :: "bytes \<Rightarrow> bool" where
  "printable_ascii t = list_all (\<lambda>b. b \<ge> 0x20 \<and> b < 0x7f) t"

section \<open>Status, streams and snapshots\<close>

definition rates_ok :: "status_report \<Rightarrow> bool" where
  "rates_ok r \<longleftrightarrow>
     \<not> (sr_streaming r \<and> (sr_frames_per_second r < 5 \<or> sr_frames_per_second r > 15)) \<and>
     \<not> (\<not> sr_streaming r \<and> sr_frames_per_second r \<noteq> 0) \<and>
     \<not> (sr_snapshotting r \<and> (sr_snapshot_interval_seconds r < kMinimumSnapshotIntervalSeconds \<or>
          sr_snapshot_interval_seconds r > kMaximumSnapshotIntervalSeconds)) \<and>
     \<not> (\<not> sr_snapshotting r \<and> sr_snapshot_interval_seconds r \<noteq> 0)"

definition encode_status_report :: "status_report \<Rightarrow> bytes" where
  "encode_status_report r =
     (if sr_hostname r = [] \<or> length (sr_hostname r) > kMaximumHostnameBytes \<or>
         sr_packet_loss_per_mille r > 1000 \<or> \<not> rates_ok r then []
      else append_le kStatusVersion @
        append_le (flag_if (sr_locked r) 1 OR flag_if (sr_streaming r) 2 OR flag_if (sr_snapshotting r) 4 OR
                   flag_if (sr_viewing_broadcast r) 8 :: u16) @
        append_le (sr_session_id r) @ append_le (sr_latency_ms r) @ append_le (sr_packet_loss_per_mille r) @
        append_le (sr_packet_loss_sample_size r) @ append_le (delivery_code (sr_delivery r)) @
        append_le (sr_frames_per_second r) @ append_le (sr_snapshot_interval_seconds r) @
        append_le (of_nat (length (sr_hostname r)) :: u16) @ sr_hostname r)"

definition decode_status_report :: "bytes \<Rightarrow> status_report option" where
  "decode_status_report w = do {
     (version :: u16, rest) \<leftarrow> read_le w;
     if version \<noteq> 1 \<and> version \<noteq> kStatusVersion then None else do {
     (flags :: u16, rest) \<leftarrow> read_le rest;
     if unknown_flags flags 15 then None else do {
     (session_id, rest) \<leftarrow> read_le rest;
     (latency_ms, rest) \<leftarrow> read_le rest;
     (loss, rest) \<leftarrow> read_le rest;
     if loss > 1000 then None else do {
     (samples, rest) \<leftarrow> read_le rest;
     (delivery :: u8, rest) \<leftarrow> read_le rest;
     if delivery > 1 then None else do {
     (fps, interval, rest) \<leftarrow> (if version = kStatusVersion
        then do { (fps, rest) \<leftarrow> read_le rest; (interval, rest) \<leftarrow> read_le rest; Some (fps, interval, rest) }
        else Some (0, 0, rest));
     (hostname_bytes :: u16, rest) \<leftarrow> read_le rest;
     if hostname_bytes = 0 \<or> unat hostname_bytes > kMaximumHostnameBytes \<or> length rest \<noteq> unat hostname_bytes then None
     else
       let r = \<lparr>sr_hostname = rest, sr_locked = flag_set flags 1, sr_streaming = flag_set flags 2,
            sr_snapshotting = flag_set flags 4, sr_viewing_broadcast = flag_set flags 8, sr_frames_per_second = fps,
            sr_snapshot_interval_seconds = interval, sr_session_id = session_id, sr_latency_ms = latency_ms,
            sr_packet_loss_per_mille = loss, sr_packet_loss_sample_size = samples,
            sr_delivery = (if delivery = 0 then Multicast else Unicast)\<rparr>
       in if rates_ok r then Some r else None
     }}}}}"

definition encode_start_stream_request :: "u8 \<Rightarrow> bytes" where
  "encode_start_stream_request fps = (if fps < 5 \<or> fps > 15 then [] else [fps])"

definition decode_start_stream_request :: "bytes \<Rightarrow> u8 option" where
  "decode_start_stream_request w =
     (case w of [fps] \<Rightarrow> if fps \<ge> 5 \<and> fps \<le> 15 then Some fps else None | _ \<Rightarrow> None)"

definition encode_snapshot_schedule :: "u16 \<Rightarrow> bytes" where
  "encode_snapshot_schedule interval =
     (if interval < kMinimumSnapshotIntervalSeconds \<or> interval > kMaximumSnapshotIntervalSeconds then []
      else append_le interval)"

definition decode_snapshot_schedule :: "bytes \<Rightarrow> u16 option" where
  "decode_snapshot_schedule w = do {
     (interval, rest) \<leftarrow> read_le w;
     if rest \<noteq> [] \<or> interval < kMinimumSnapshotIntervalSeconds \<or> interval > kMaximumSnapshotIntervalSeconds then None
     else Some interval
   }"

definition frame_fields_bad :: "snapshot_frame \<Rightarrow> bool" where
  "frame_fields_bad f \<longleftrightarrow> sf_width f = 0 \<or> sf_height f = 0 \<or> sf_width f > kMaximumSnapshotWidth \<or>
     sf_height f > kMaximumSnapshotHeight \<or> sf_captured_at f = 0 \<or> sf_jpeg f = [] \<or>
     length (sf_jpeg f) > kMaximumSnapshotJpegBytes"

definition encode_snapshot_frame :: "snapshot_frame \<Rightarrow> bytes" where
  "encode_snapshot_frame f =
     (if frame_fields_bad f then []
      else append_le kSnapshotFrameVersion @ append_le (sf_width f) @ append_le (sf_height f) @
        append_le (0 :: u16) @ append_le (sf_captured_at f) @ append_le (of_nat (length (sf_jpeg f)) :: u32) @ sf_jpeg f)"

definition decode_snapshot_frame :: "bytes \<Rightarrow> snapshot_frame option" where
  "decode_snapshot_frame w = do {
     (version :: u16, rest) \<leftarrow> read_le w;
     if version \<noteq> kSnapshotFrameVersion then None else do {
     (width, rest) \<leftarrow> read_le rest;
     if width = 0 \<or> width > kMaximumSnapshotWidth then None else do {
     (height, rest) \<leftarrow> read_le rest;
     if height = 0 \<or> height > kMaximumSnapshotHeight then None else do {
     (reserved :: u16, rest) \<leftarrow> read_le rest;
     if reserved \<noteq> 0 then None else do {
     (captured, rest) \<leftarrow> read_le rest;
     if captured = 0 then None else do {
     (jpeg_bytes :: u32, rest) \<leftarrow> read_le rest;
     if jpeg_bytes = 0 \<or> unat jpeg_bytes > kMaximumSnapshotJpegBytes \<or> length rest \<noteq> unat jpeg_bytes then None
     else Some \<lparr>sf_width = width, sf_height = height, sf_captured_at = captured, sf_jpeg = rest\<rparr>
     }}}}}}"

definition stroke_bad :: "overlay_stroke \<Rightarrow> bool" where
  "stroke_bad s \<longleftrightarrow> os_thickness s = 0 \<or> os_thickness s > 32 \<or> os_rgba s AND 0xff = 0"

definition encode_overlay_stroke :: "overlay_stroke \<Rightarrow> bytes" where
  "encode_overlay_stroke s =
     (if stroke_bad s then []
      else append_le (os_x0 s) @ append_le (os_y0 s) @ append_le (os_x1 s) @ append_le (os_y1 s) @
        append_le (os_thickness s) @ append_le (os_rgba s))"

definition decode_overlay_stroke :: "bytes \<Rightarrow> overlay_stroke option" where
  "decode_overlay_stroke w = do {
     (x0, rest) \<leftarrow> read_le w;
     (y0, rest) \<leftarrow> read_le rest;
     (x1, rest) \<leftarrow> read_le rest;
     (y1, rest) \<leftarrow> read_le rest;
     (thickness, rest) \<leftarrow> read_le rest;
     (rgba, rest) \<leftarrow> read_le rest;
     let s = \<lparr>os_x0 = x0, os_y0 = y0, os_x1 = x1, os_y1 = y1, os_thickness = thickness, os_rgba = rgba\<rparr> in
     if rest \<noteq> [] \<or> stroke_bad s then None else Some s
   }"

section \<open>Reboot to restore\<close>

definition encode_freeze_state :: "bool \<Rightarrow> bytes" where
  "encode_freeze_state frozen = [if frozen then 1 else 0]"

definition decode_freeze_state :: "bytes \<Rightarrow> bool option" where
  "decode_freeze_state w = (case w of [v] \<Rightarrow> if v \<le> 1 then Some (v \<noteq> 0) else None | _ \<Rightarrow> None)"

definition encode_uwf_configure_request :: "bool \<Rightarrow> bytes" where
  "encode_uwf_configure_request acknowledged = [if acknowledged then 1 else 0]"

definition decode_uwf_configure_request :: "bytes \<Rightarrow> bool option" where
  "decode_uwf_configure_request w = decode_freeze_state w"

definition encode_uwf_configure_report :: "configure_report \<Rightarrow> bytes" where
  "encode_uwf_configure_report r =
     (if cr_detail r = [] \<or> length (cr_detail r) > kMaximumUwfDetailBytes \<or> \<not> printable_ascii (cr_detail r) then []
      else append_le (outcome_code (cr_outcome r)) @
        append_le (flag_if (cr_reboot_required r) 1 OR flag_if (cr_data_exclusion_ready r) 2 OR
                   flag_if (cr_registry_exclusion_ready r) 4 :: u8) @
        append_le (of_nat (length (cr_detail r)) :: u16) @ cr_detail r)"

definition decode_uwf_configure_report :: "bytes \<Rightarrow> configure_report option" where
  "decode_uwf_configure_report w = do {
     (outcome :: u8, rest) \<leftarrow> read_le w;
     if outcome < outcome_code Armed \<or> outcome > outcome_code Busy then None else do {
     (flags :: u8, rest) \<leftarrow> read_le rest;
     if unknown_flags flags 7 then None else do {
     (detail_bytes :: u16, rest) \<leftarrow> read_le rest;
     if detail_bytes = 0 \<or> unat detail_bytes > kMaximumUwfDetailBytes \<or> length rest \<noteq> unat detail_bytes then None
     else if \<not> printable_ascii rest then None
     else Some \<lparr>cr_outcome = all_outcomes ! (unat outcome - 1), cr_reboot_required = flag_set flags 1,
            cr_data_exclusion_ready = flag_set flags 2, cr_registry_exclusion_ready = flag_set flags 4,
            cr_detail = rest\<rparr>
     }}}"

definition encode_uwf_fleet_configure_request :: "fleet_request \<Rightarrow> bytes" where
  "encode_uwf_fleet_configure_request r =
     (if fr_operation_id r = 0 then []
      else append_le (fr_operation_id r) @
        append_le (flag_if (fr_checkpoint_acknowledged r) 1 OR flag_if (fr_restart_requested r) 2 :: u8))"

definition decode_uwf_fleet_configure_request :: "bytes \<Rightarrow> fleet_request option" where
  "decode_uwf_fleet_configure_request w = do {
     (operation_id, rest) \<leftarrow> read_le w;
     if operation_id = 0 then None else do {
     (flags :: u8, rest) \<leftarrow> read_le rest;
     if unknown_flags flags 3 \<or> rest \<noteq> [] then None
     else Some \<lparr>fr_operation_id = operation_id, fr_checkpoint_acknowledged = flag_set flags 1,
            fr_restart_requested = flag_set flags 2\<rparr>
     }}"

definition encode_uwf_fleet_status_report :: "fleet_status \<Rightarrow> bytes" where
  "encode_uwf_fleet_status_report r =
     (if fl_detail r = [] \<or> length (fl_detail r) > kMaximumUwfDetailBytes \<or> \<not> printable_ascii (fl_detail r) then []
      else append_le (fl_operation_id r) @ fl_boot_id r @ append_le (phase_code (fl_phase r)) @
        append_le (flag_if (pp_succeeded (fl_probe r)) 1 OR flag_if (pp_filter_current (fl_probe r)) 2 OR
                   flag_if (pp_filter_next (fl_probe r)) 4 OR flag_if (pp_volume_current (fl_probe r)) 8 OR
                   flag_if (pp_data_exclusion (fl_probe r)) 16 OR
                   flag_if (pp_registry_exclusion (fl_probe r)) 32 :: u8) @
        append_le (of_nat (length (fl_detail r)) :: u16) @ fl_detail r)"

definition decode_uwf_fleet_status_report :: "bytes \<Rightarrow> fleet_status option" where
  "decode_uwf_fleet_status_report w = do {
     (operation_id, rest) \<leftarrow> read_le w;
     (boot_id, rest) \<leftarrow> read_array kBootIdBytes rest;
     (phase :: u8, rest) \<leftarrow> read_le rest;
     if phase < phase_code Idle \<or> phase > phase_code Unsupported then None else do {
     (flags :: u8, rest) \<leftarrow> read_le rest;
     if unknown_flags flags 0x3f then None else do {
     (detail_bytes :: u16, rest) \<leftarrow> read_le rest;
     if detail_bytes = 0 \<or> unat detail_bytes > kMaximumUwfDetailBytes \<or> length rest \<noteq> unat detail_bytes then None
     else if \<not> flag_set flags 1 \<and> unknown_flags flags 1 then None
     else
       let r = \<lparr>fl_operation_id = operation_id, fl_boot_id = boot_id, fl_phase = all_phases ! (unat phase - 1),
            fl_probe = \<lparr>pp_succeeded = flag_set flags 1, pp_filter_current = flag_set flags 2,
              pp_filter_next = flag_set flags 4, pp_volume_current = flag_set flags 8,
              pp_data_exclusion = flag_set flags 16, pp_registry_exclusion = flag_set flags 32\<rparr>,
            fl_detail = rest\<rparr>
       in if \<not> printable_ascii rest then None
          else if fl_phase r = Verified_protected \<and> \<not> probe_proves_protection (fl_probe r) then None
          else Some r
     }}}"

section \<open>The other messages\<close>

definition encode_video_group_key :: "group_key_message \<Rightarrow> bytes" where
  "encode_video_group_key m =
     (if gk_stream_id m = 0 then []
      else append_le (gk_stream_id m) @ append_le (gk_first_packet_sequence m) @ gk_key m)"

definition decode_video_group_key :: "bytes \<Rightarrow> group_key_message option" where
  "decode_video_group_key w =
     (if length w \<noteq> 4 + 8 + 32 then None
      else do {
        (stream_id, rest) \<leftarrow> read_le w;
        if stream_id = 0 then None else do {
        (sequence, rest) \<leftarrow> read_le rest;
        Some \<lparr>gk_stream_id = stream_id, gk_first_packet_sequence = sequence, gk_key = take 32 rest\<rparr>
        }})"

definition encode_help_request :: "help_request \<Rightarrow> bytes" where
  "encode_help_request m =
     (if length (hr_message m) > kMaximumHelpMessageBytes then []
      else [if hr_active m then 1 else 0] @ append_le (hr_timestamp m) @
        append_le (of_nat (length (hr_message m)) :: u16) @ hr_message m)"

definition decode_help_request :: "bytes \<Rightarrow> help_request option" where
  "decode_help_request w =
     (if length w < 1 + 8 + 2 then None
      else do {
        (active, rest) \<leftarrow> read_byte w;
        (timestamp, rest) \<leftarrow> read_le rest;
        (msg_len :: u16, rest) \<leftarrow> read_le rest;
        if unat msg_len > kMaximumHelpMessageBytes \<or> unat msg_len \<noteq> length rest then None
        else Some \<lparr>hr_active = (active \<noteq> 0), hr_timestamp = timestamp, hr_message = rest\<rparr>
      })"

definition encode_help_ack :: "help_ack \<Rightarrow> bytes" where
  "encode_help_ack m = [if ha_resolved m then 1 else 0] @ append_le (ha_timestamp m)"

definition decode_help_ack :: "bytes \<Rightarrow> help_ack option" where
  "decode_help_ack w =
     (if length w \<noteq> 1 + 8 then None
      else do {
        (resolved, rest) \<leftarrow> read_byte w;
        (timestamp, rest) \<leftarrow> read_le rest;
        Some \<lparr>ha_resolved = (resolved \<noteq> 0), ha_timestamp = timestamp\<rparr>
      })"

definition encode_launch_url :: "bytes \<Rightarrow> bytes" where
  "encode_launch_url url =
     (if \<not> is_valid_launch_url url then [] else append_le (of_nat (length url) :: u16) @ url)"

definition decode_launch_url :: "bytes \<Rightarrow> bytes option" where
  "decode_launch_url w =
     (if length w < 2 then None
      else do {
        (url_len :: u16, rest) \<leftarrow> read_le w;
        if unat url_len > kMaximumUrlBytes \<or> unat url_len \<noteq> length rest then None
        else if \<not> is_valid_launch_url rest then None
        else Some rest
      })"

definition encode_power_action :: "power_action \<Rightarrow> bytes" where
  "encode_power_action m = [case pa_action m of Reboot \<Rightarrow> 1 | Shutdown \<Rightarrow> 2, flag_if (pa_force m) 1]"

definition decode_power_action :: "bytes \<Rightarrow> power_action option" where
  "decode_power_action w =
     (case w of
        [action, flags] \<Rightarrow>
          if action \<noteq> 1 \<and> action \<noteq> 2 then None
          else if unknown_flags flags 1 then None
          else Some \<lparr>pa_action = (if action = 1 then Reboot else Shutdown), pa_force = flag_set flags 1\<rparr>
      | _ \<Rightarrow> None)"

definition encode_wol_report :: "wol_report \<Rightarrow> bytes" where
  "encode_wol_report m = take 6 (wr_mac m) @ [wol_code (wr_support m), 0]"

definition decode_wol_report :: "bytes \<Rightarrow> wol_report option" where
  "decode_wol_report w =
     (if length w \<noteq> 8 then None
      else if w ! 6 > wol_code Wol_missing_mac then None
      else if w ! 7 \<noteq> 0 then None
      else Some \<lparr>wr_mac = take 6 w,
             wr_support = [Wol_unknown, Wol_supported, Wol_unsupported, Wol_missing_mac] ! unat (w ! 6)\<rparr>)"

definition encode_broadcast_mode :: "broadcast_mode \<Rightarrow> bytes" where
  "encode_broadcast_mode m =
     append_le kBroadcastModeVersion @ [case bm_mode m of Focus \<Rightarrow> 0 | Follow_along \<Rightarrow> 1, flag_if (bm_lock_input m) 1]"

definition decode_broadcast_mode :: "bytes \<Rightarrow> broadcast_mode option" where
  "decode_broadcast_mode w =
     (if length w \<noteq> 4 then None
      else do {
        (version :: u16, rest) \<leftarrow> read_le w;
        if version \<noteq> kBroadcastModeVersion then None
        else if rest ! 0 > 1 then None
        else if rest ! 1 > 1 then None
        else Some \<lparr>bm_mode = (if rest ! 0 = 0 then Focus else Follow_along), bm_lock_input = (rest ! 1 \<noteq> 0)\<rparr>
      })"

definition encode_fleet_metadata :: "fleet_metadata \<Rightarrow> bytes" where
  "encode_fleet_metadata m =
     (if fd_client_version m = [] \<or> length (fd_client_version m) > kMaximumClientVersionBytes then []
      else append_le kFleetMetadataVersion @ [flag_if (fd_agent_connected m) 1] @
        append_le (of_nat (length (fd_client_version m)) :: u16) @ fd_client_version m)"

definition decode_fleet_metadata :: "bytes \<Rightarrow> fleet_metadata option" where
  "decode_fleet_metadata w = do {
     (version :: u16, rest) \<leftarrow> read_le w;
     if version \<noteq> kFleetMetadataVersion then None else do {
     (agent, rest) \<leftarrow> read_byte rest;
     if agent > 1 then None else do {
     (version_bytes :: u16, rest) \<leftarrow> read_le rest;
     if version_bytes = 0 \<or> unat version_bytes > kMaximumClientVersionBytes \<or> length rest \<noteq> unat version_bytes then None
     else Some \<lparr>fd_client_version = rest, fd_agent_connected = (agent \<noteq> 0)\<rparr>
     }}}"

section \<open>Flags and lengths\<close>

lemma flag_bit: "flag_if (flag_set w (2 ^ n)) (2 ^ n) = w AND (2 ^ n :: 'a::len word)"
  by (rule bit_word_eqI) (auto simp: flag_if_def flag_set_def and_exp_eq_0_iff_not_bit bit_and_iff bit_exp_iff)

lemmas flag_bits = flag_bit [of _ 0, simplified] flag_bit [of _ 1, simplified] flag_bit [of _ 2, simplified]
  flag_bit [of _ 3, simplified] flag_bit [of _ 4, simplified] flag_bit [of _ 5, simplified]

lemma masked_word: "\<not> unknown_flags w m \<Longrightarrow> w AND m = (w :: 'a::len word)"
  by (auto simp: unknown_flags_def bit_eq_iff bit_and_iff bit_not_iff)

lemmas flag_defs = flag_if_def flag_set_def unknown_flags_def

lemma length_u16: "n \<le> 2048 \<Longrightarrow> unat (of_nat n :: u16) = n"
  by (simp add: unat_of_nat take_bit_nat_eq_self)

lemma length_u16_zero: "n \<le> 2048 \<Longrightarrow> (of_nat n :: u16) = 0 \<longleftrightarrow> n = 0"
  using length_u16 [of n] by (auto simp: unat_eq_0 [symmetric])

lemma length_u32: "n \<le> 524288 \<Longrightarrow> unat (of_nat n :: u32) = n"
  by (simp add: unat_of_nat take_bit_nat_eq_self)

lemma length_u32_zero: "n \<le> 524288 \<Longrightarrow> (of_nat n :: u32) = 0 \<longleftrightarrow> n = 0"
  using length_u32 [of n] by (auto simp: unat_eq_0 [symmetric])

lemma outcome_nth: "all_outcomes ! (unat (outcome_code c) - 1) = c" and outcome_range:
  "\<not> outcome_code c < outcome_code Armed" "\<not> outcome_code c > outcome_code Busy"
  by (cases c; simp add: all_outcomes_def outcome_code_def)+

lemma phase_nth: "all_phases ! (unat (phase_code p) - 1) = p" and phase_range:
  "\<not> phase_code p < phase_code Idle" "\<not> phase_code p > phase_code Unsupported"
  by (cases p; simp add: all_phases_def phase_code_def)+

lemma code_cases:
  assumes "list_all (\<lambda>n. unat (f (xs ! (n - 1)) :: u8) = n) [1..<Suc (unat hi)]" "(c :: u8) \<noteq> 0" "\<not> c > hi"
  shows "f (xs ! (unat c - 1)) = c"
proof -
  have "0 < unat c" "unat c \<le> unat hi" using assms(2,3) by (auto simp: unat_gt_0 word_less_nat_alt)
  then have "unat c \<in> set [1..<Suc (unat hi)]" by (simp only: set_upt atLeastLessThan_iff) linarith
  with assms(1) have "unat (f (xs ! (unat c - 1))) = unat c" unfolding list_all_iff by (rule bspec)
  then show ?thesis by (simp add: word_unat_eq_iff)
qed

lemma outcome_of_code:
  assumes "\<not> c < outcome_code Armed" "\<not> c > outcome_code Busy"
  shows "outcome_code (all_outcomes ! (unat c - 1)) = c"
proof (rule code_cases)
  show "c \<noteq> 0" "\<not> c > 13" using assms by (auto simp: outcome_code_def)
qed (simp add: all_outcomes_def outcome_code_def upt_rec)

lemma phase_of_code:
  assumes "\<not> c < phase_code Idle" "\<not> c > phase_code Unsupported"
  shows "phase_code (all_phases ! (unat c - 1)) = c"
proof (rule code_cases)
  show "c \<noteq> 0" "\<not> c > 9" using assms by (auto simp: phase_code_def)
qed (simp add: all_phases_def phase_code_def upt_rec)

lemma byte_le_1: "(v :: byte) \<le> 1 \<Longrightarrow> v = 0 \<or> v = 1"
proof -
  assume "v \<le> 1"
  then have "unat v \<le> 1" by (simp add: word_le_nat_alt)
  then have "unat v = unat (0 :: byte) \<or> unat v = unat (1 :: byte)" by auto
  then show ?thesis by (simp only: word_unat_eq_iff)
qed

section \<open>The codecs\<close>

definition status_ok :: "status_report \<Rightarrow> bool" where
  "status_ok r \<longleftrightarrow> sr_hostname r \<noteq> [] \<and> length (sr_hostname r) \<le> 255 \<and> sr_packet_loss_per_mille r \<le> 1000 \<and> rates_ok r"

interpretation status_codec: codec encode_status_report decode_status_report status_ok
proof
  fix r assume r: "status_ok r"
  let ?f = "flag_if (sr_locked r) 1 OR flag_if (sr_streaming r) 2 OR flag_if (sr_snapshotting r) 4 OR
            flag_if (sr_viewing_broadcast r) 8 :: u16"
  have f: "\<not> unknown_flags ?f 15" "flag_set ?f 1 = sr_locked r" "flag_set ?f 2 = sr_streaming r"
    "flag_set ?f 4 = sr_snapshotting r" "flag_set ?f 8 = sr_viewing_broadcast r"
    by (cases "sr_locked r"; cases "sr_streaming r"; cases "sr_snapshotting r"; cases "sr_viewing_broadcast r";
        simp add: flag_defs)+
  have d: "\<not> delivery_code (sr_delivery r) > 1"
    "(if delivery_code (sr_delivery r) = 0 then Multicast else Unicast) = sr_delivery r"
    by (cases "sr_delivery r"; simp add: delivery_code_def)+
  show "decode_status_report (encode_status_report r) = Some r"
    using r d by (simp add: encode_status_report_def decode_status_report_def status_ok_def rates_ok_def f
        length_u16 length_u16_zero Let_def kStatusVersion_def kMaximumHostnameBytes_def linorder_not_le [symmetric]
        del: not_le)
qed

interpretation stream_codec: strict_codec encode_start_stream_request decode_start_stream_request "\<lambda>f. 5 \<le> f \<and> f \<le> 15"
  by unfold_locales (auto simp: encode_start_stream_request_def decode_start_stream_request_def split: list.splits if_splits)

interpretation schedule_codec: strict_codec encode_snapshot_schedule decode_snapshot_schedule "\<lambda>i. 5 \<le> i \<and> i \<le> 10"
  by unfold_locales (auto simp: encode_snapshot_schedule_def decode_snapshot_schedule_def control_limits
      bind_eq_Some_conv reader_iffs read_le_u16 [of _ "[]", simplified] split: if_splits)

interpretation frame_codec: strict_codec encode_snapshot_frame decode_snapshot_frame "\<lambda>f. \<not> frame_fields_bad f"
proof
  fix f assume "\<not> frame_fields_bad f"
  then show "decode_snapshot_frame (encode_snapshot_frame f) = Some f"
    by (simp add: encode_snapshot_frame_def decode_snapshot_frame_def frame_fields_bad_def control_limits
        length_u32 length_u32_zero)
next
  fix w f assume "decode_snapshot_frame w = Some f"
  then show "\<not> frame_fields_bad f \<and> encode_snapshot_frame f = w"
    by (auto simp: decode_snapshot_frame_def encode_snapshot_frame_def frame_fields_bad_def
        bind_eq_Some_conv reader_iffs Let_def unat_eq_0 split: if_splits)
qed

interpretation stroke_codec: strict_codec encode_overlay_stroke decode_overlay_stroke "\<lambda>s. \<not> stroke_bad s"
proof
  fix s assume "\<not> stroke_bad s"
  then show "decode_overlay_stroke (encode_overlay_stroke s) = Some s"
    by (simp add: encode_overlay_stroke_def decode_overlay_stroke_def stroke_bad_def Let_def read_le_u32 [of _ "[]", simplified])
next
  fix w s assume "decode_overlay_stroke w = Some s"
  then show "\<not> stroke_bad s \<and> encode_overlay_stroke s = w"
    by (auto simp: decode_overlay_stroke_def encode_overlay_stroke_def bind_eq_Some_conv reader_iffs Let_def split: if_splits)
qed

interpretation freeze_codec: strict_codec encode_freeze_state decode_freeze_state "\<lambda>_. True"
proof
  fix w b assume "decode_freeze_state w = Some b"
  then obtain v where "w = [v]" "v \<le> 1" "b = (v \<noteq> 0)"
    by (auto simp: decode_freeze_state_def split: list.splits if_splits)
  moreover from this have "v = 0 \<or> v = 1" by (simp add: byte_le_1)
  ultimately show "True \<and> encode_freeze_state b = w" by (auto simp: encode_freeze_state_def)
qed (simp add: encode_freeze_state_def decode_freeze_state_def)

definition detail_ok :: "bytes \<Rightarrow> bool" where
  "detail_ok t \<longleftrightarrow> t \<noteq> [] \<and> length t \<le> 256 \<and> printable_ascii t"

lemma detail_bad_iff:
  "(t = [] \<or> length t > kMaximumUwfDetailBytes \<or> \<not> printable_ascii t) \<longleftrightarrow> \<not> detail_ok t"
  by (auto simp: detail_ok_def kMaximumUwfDetailBytes_def)

lemma detail_okI:
  "detail_bytes \<noteq> 0 \<Longrightarrow> \<not> unat detail_bytes > kMaximumUwfDetailBytes \<Longrightarrow> length t = unat (detail_bytes :: u16) \<Longrightarrow>
   printable_ascii t \<Longrightarrow> detail_ok t"
  by (auto simp: detail_ok_def kMaximumUwfDetailBytes_def unat_eq_0)

lemma detail_okD:
  assumes "detail_ok t"
  shows "(of_nat (length t) :: u16) \<noteq> 0" "unat (of_nat (length t) :: u16) = length t"
    "length t \<le> kMaximumUwfDetailBytes" "printable_ascii t"
  using assms by (auto simp: detail_ok_def kMaximumUwfDetailBytes_def length_u16 length_u16_zero)

interpretation configure_report_codec:
  strict_codec encode_uwf_configure_report decode_uwf_configure_report "\<lambda>r. detail_ok (cr_detail r)"
proof
  fix r :: configure_report assume r: "detail_ok (cr_detail r)"
  let ?f = "flag_if (cr_reboot_required r) 1 OR flag_if (cr_data_exclusion_ready r) 2 OR
            flag_if (cr_registry_exclusion_ready r) 4 :: u8"
  have f: "\<not> unknown_flags ?f 7" "flag_set ?f 1 = cr_reboot_required r" "flag_set ?f 2 = cr_data_exclusion_ready r"
    "flag_set ?f 4 = cr_registry_exclusion_ready r"
    by (cases "cr_reboot_required r"; cases "cr_data_exclusion_ready r"; cases "cr_registry_exclusion_ready r";
        simp add: flag_defs)+
  show "decode_uwf_configure_report (encode_uwf_configure_report r) = Some r"
    using r detail_okD[OF r] f outcome_nth[of "cr_outcome r"] outcome_range[of "cr_outcome r"]
    unfolding encode_uwf_configure_report_def decode_uwf_configure_report_def detail_bad_iff by simp
next
  fix w r assume "decode_uwf_configure_report w = Some r"
  then obtain outcome flags n t where w: "w = append_le outcome @ append_le (flags :: u8) @ append_le (n :: u16) @ t"
    and c: "\<not> outcome < outcome_code Armed" "\<not> outcome > outcome_code Busy" "\<not> unknown_flags flags 7"
      "n \<noteq> 0" "\<not> unat n > kMaximumUwfDetailBytes" "length t = unat n" "printable_ascii t"
    and r: "r = \<lparr>cr_outcome = all_outcomes ! (unat outcome - 1), cr_reboot_required = flag_set flags 1,
            cr_data_exclusion_ready = flag_set flags 2, cr_registry_exclusion_ready = flag_set flags 4, cr_detail = t\<rparr>"
    by (auto simp: decode_uwf_configure_report_def bind_eq_Some_conv reader_iffs split: if_splits)
  have "flags AND 1 OR flags AND 2 OR flags AND 4 = flags AND 7"
    by (simp flip: bit.conj_disj_distrib add: or.assoc)
  then show "detail_ok (cr_detail r) \<and> encode_uwf_configure_report r = w"
    using detail_okI[OF c(4-7)] outcome_of_code[OF c(1,2)] masked_word[OF c(3)] c(6)
    unfolding encode_uwf_configure_report_def detail_bad_iff by (simp add: r w flag_bits)
qed

interpretation fleet_request_codec:
  strict_codec encode_uwf_fleet_configure_request decode_uwf_fleet_configure_request "\<lambda>r. fr_operation_id r \<noteq> 0"
proof
  fix r :: fleet_request assume "fr_operation_id r \<noteq> 0"
  moreover have "\<not> unknown_flags (flag_if a 1 OR flag_if b 2 :: u8) 3" "flag_set (flag_if a 1 OR flag_if b 2 :: u8) 1 = a"
    "flag_set (flag_if a 1 OR flag_if b 2 :: u8) 2 = b" for a b by (cases a; cases b; simp add: flag_defs)+
  ultimately show "decode_uwf_fleet_configure_request (encode_uwf_fleet_configure_request r) = Some r"
    by (simp add: encode_uwf_fleet_configure_request_def decode_uwf_fleet_configure_request_def
        read_le_u8 [of _ "[]", simplified])
next
  fix w r assume "decode_uwf_fleet_configure_request w = Some r"
  then obtain oid flags where w: "w = append_le oid @ append_le (flags :: u8)" and c: "oid \<noteq> 0" "\<not> unknown_flags flags 3"
    and r: "r = \<lparr>fr_operation_id = oid, fr_checkpoint_acknowledged = flag_set flags 1, fr_restart_requested = flag_set flags 2\<rparr>"
    by (auto simp: decode_uwf_fleet_configure_request_def bind_eq_Some_conv reader_iffs split: if_splits)
  have "flags AND 1 OR flags AND 2 = flags AND 3" by (simp flip: bit.conj_disj_distrib)
  then show "fr_operation_id r \<noteq> 0 \<and> encode_uwf_fleet_configure_request r = w"
    using c masked_word[OF c(2)] by (simp add: encode_uwf_fleet_configure_request_def r w flag_bits)
qed

definition probe_ok :: "protection_probe \<Rightarrow> bool" where
  "probe_ok p \<longleftrightarrow> pp_succeeded p \<or> p = no_probe"

definition fleet_status_ok :: "fleet_status \<Rightarrow> bool" where
  "fleet_status_ok r \<longleftrightarrow> length (fl_boot_id r) = 16 \<and> detail_ok (fl_detail r) \<and> probe_ok (fl_probe r) \<and>
     (fl_phase r = Verified_protected \<longrightarrow> probe_proves_protection (fl_probe r))"

definition probe_flags :: "protection_probe \<Rightarrow> u8" where
  "probe_flags p = flag_if (pp_succeeded p) 1 OR flag_if (pp_filter_current p) 2 OR flag_if (pp_filter_next p) 4 OR
     flag_if (pp_volume_current p) 8 OR flag_if (pp_data_exclusion p) 16 OR flag_if (pp_registry_exclusion p) 32"

definition flags_probe :: "u8 \<Rightarrow> protection_probe" where
  "flags_probe f = \<lparr>pp_succeeded = flag_set f 1, pp_filter_current = flag_set f 2, pp_filter_next = flag_set f 4,
     pp_volume_current = flag_set f 8, pp_data_exclusion = flag_set f 16, pp_registry_exclusion = flag_set f 32\<rparr>"

lemma probe_flags_cases:
  "\<not> unknown_flags (probe_flags p) 0x3f \<and> flags_probe (probe_flags p) = p \<and>
   (probe_ok p \<longrightarrow> flag_set (probe_flags p) 1 \<or> \<not> unknown_flags (probe_flags p) 1)"
proof (cases p)
  case (fields a b c d e f)
  then show ?thesis
    by (cases a; cases b; cases c; cases d; cases e; cases f;
        simp add: probe_flags_def flags_probe_def flag_defs probe_ok_def no_probe_def)
qed

lemma flags_probe_flags:
  assumes "\<not> unknown_flags f 0x3f"
  shows "probe_flags (flags_probe f) = f"
proof -
  have "f AND 1 OR f AND 2 OR f AND 4 OR f AND 8 OR f AND 16 OR f AND 32 = f AND 63"
    by (simp flip: bit.conj_disj_distrib add: or.assoc)
  then show ?thesis using masked_word[OF assms] by (simp add: probe_flags_def flags_probe_def flag_bits)
qed

lemma flags_probe_ok:
  assumes "flag_set f 1 \<or> \<not> unknown_flags f 1"
  shows "probe_ok (flags_probe f)"
proof (cases "flag_set f 1")
  case False
  then have "f = 0" using assms masked_word[of f 1] by (simp add: flag_set_def)
  then show ?thesis by (simp add: probe_ok_def flags_probe_def no_probe_def flag_set_def)
qed (simp add: probe_ok_def flags_probe_def)

interpretation fleet_status_codec:
  strict_codec encode_uwf_fleet_status_report decode_uwf_fleet_status_report fleet_status_ok
proof
  fix r assume r: "fleet_status_ok r"
  then have d: "detail_ok (fl_detail r)" by (simp add: fleet_status_ok_def)
  have e: "encode_uwf_fleet_status_report r = append_le (fl_operation_id r) @ fl_boot_id r @
      append_le (phase_code (fl_phase r)) @ append_le (probe_flags (fl_probe r)) @
      append_le (of_nat (length (fl_detail r)) :: u16) @ fl_detail r"
    using d unfolding encode_uwf_fleet_status_report_def detail_bad_iff probe_flags_def by simp
  show "decode_uwf_fleet_status_report (encode_uwf_fleet_status_report r) = Some r"
    using r detail_okD[OF d] probe_flags_cases[of "fl_probe r"] phase_nth[of "fl_phase r"] phase_range[of "fl_phase r"]
    unfolding e decode_uwf_fleet_status_report_def flags_probe_def [symmetric]
    by (auto simp: fleet_status_ok_def Let_def kBootIdBytes_def)
next
  fix w r assume "decode_uwf_fleet_status_report w = Some r"
  then obtain oid boot phase flags n t where
      w: "w = append_le oid @ boot @ append_le phase @ append_le (flags :: u8) @ append_le (n :: u16) @ t"
    and c: "length boot = 16" "\<not> phase < phase_code Idle" "\<not> phase > phase_code Unsupported" "\<not> unknown_flags flags 0x3f"
      "n \<noteq> 0" "\<not> unat n > kMaximumUwfDetailBytes" "length t = unat n" "printable_ascii t"
      "flag_set flags 1 \<or> \<not> unknown_flags flags 1"
      "all_phases ! (unat phase - 1) = Verified_protected \<longrightarrow> probe_proves_protection (flags_probe flags)"
    and r: "r = \<lparr>fl_operation_id = oid, fl_boot_id = boot, fl_phase = all_phases ! (unat phase - 1),
       fl_probe = flags_probe flags, fl_detail = t\<rparr>"
    unfolding decode_uwf_fleet_status_report_def flags_probe_def [symmetric]
    by (auto simp: bind_eq_Some_conv reader_iffs kBootIdBytes_def Let_def split: if_splits)
  have d: "detail_ok t" by (rule detail_okI[OF c(5-8)])
  have "encode_uwf_fleet_status_report r = w"
    using d phase_of_code[OF c(2,3)] flags_probe_flags[OF c(4)] c(7)
    unfolding encode_uwf_fleet_status_report_def probe_flags_def [symmetric] detail_bad_iff r w by simp
  then show "fleet_status_ok r \<and> encode_uwf_fleet_status_report r = w"
    using d c flags_probe_ok[OF c(9)] by (simp add: fleet_status_ok_def r)
qed

interpretation group_key_codec:
  strict_codec encode_video_group_key decode_video_group_key "\<lambda>m. gk_stream_id m \<noteq> 0 \<and> length (gk_key m) = 32"
  by unfold_locales (auto simp: encode_video_group_key_def decode_video_group_key_def bind_eq_Some_conv reader_iffs
      split: if_splits)

interpretation help_codec: codec encode_help_request decode_help_request "\<lambda>m. length (hr_message m) \<le> 256"
  by unfold_locales (simp add: encode_help_request_def decode_help_request_def kMaximumHelpMessageBytes_def length_u16)

interpretation help_ack_codec: codec encode_help_ack decode_help_ack "\<lambda>_. True"
  by unfold_locales (simp add: encode_help_ack_def decode_help_ack_def read_le_u64 [of _ "[]", simplified])

lemma valid_url_length: "is_valid_launch_url url \<Longrightarrow> length url \<le> 2048"
  by (auto simp: is_valid_launch_url_def launch_url_error_def kMaximumUrlBytes_def split: if_splits)

interpretation url_codec: strict_codec encode_launch_url decode_launch_url is_valid_launch_url
  by unfold_locales (auto simp: encode_launch_url_def decode_launch_url_def kMaximumUrlBytes_def reader_iffs
      bind_eq_Some_conv length_u16 word_unat_eq_iff dest: valid_url_length split: if_splits)

interpretation power_codec: strict_codec encode_power_action decode_power_action "\<lambda>_. True"
proof
  fix m show "decode_power_action (encode_power_action m) = Some m"
    by (cases m; cases "pa_action m"; cases "pa_force m") (simp_all add: encode_power_action_def decode_power_action_def flag_defs)
next
  fix w m assume "decode_power_action w = Some m"
  moreover have "\<not> unknown_flags f 1 \<Longrightarrow> flag_if (flag_set f 1) 1 = f" for f :: u8
    using masked_word[of f 1] by (simp add: flag_bits)
  ultimately show "True \<and> encode_power_action m = w"
    by (auto simp: encode_power_action_def decode_power_action_def split: list.splits if_splits)
qed

interpretation wol_codec: strict_codec encode_wol_report decode_wol_report "\<lambda>m. length (wr_mac m) = 6"
proof
  fix m :: wol_report assume "length (wr_mac m) = 6"
  then show "decode_wol_report (encode_wol_report m) = Some m"
    by (cases m; cases "wr_support m") (simp_all add: encode_wol_report_def decode_wol_report_def wol_code_def nth_append)
next
  fix w m assume "decode_wol_report w = Some m"
  then have l: "length w = 8" and c: "\<not> w ! 6 > 3" "w ! 7 = 0"
    and m: "m = \<lparr>wr_mac = take 6 w, wr_support = [Wol_unknown, Wol_supported, Wol_unsupported, Wol_missing_mac] ! unat (w ! 6)\<rparr>"
    by (auto simp: decode_wol_report_def wol_code_def split: if_splits)
  have "unat (w ! 6) \<le> 3" using c(1) by (simp add: word_less_nat_alt)
  then have "unat (w ! 6) \<in> {0, 1, 2, 3}" by auto
  then have "unat (wol_code (wr_support m)) = unat (w ! 6)" by (auto simp: m wol_code_def)
  then have "wol_code (wr_support m) = w ! 6" by (simp add: word_unat_eq_iff)
  moreover have "w = take 6 w @ [w ! 6, w ! 7]"
    using l id_take_nth_drop[of 6 w] id_take_nth_drop[of 0 "drop 7 w"] by (simp add: take_Suc_conv_app_nth)
  ultimately show "length (wr_mac m) = 6 \<and> encode_wol_report m = w"
    using l c(2) by (simp add: encode_wol_report_def m)
qed

interpretation broadcast_codec: strict_codec encode_broadcast_mode decode_broadcast_mode "\<lambda>_. True"
proof
  fix m show "decode_broadcast_mode (encode_broadcast_mode m) = Some m"
    by (cases m; cases "bm_mode m"; cases "bm_lock_input m")
       (simp_all add: encode_broadcast_mode_def decode_broadcast_mode_def flag_defs)
next
  fix w m assume "decode_broadcast_mode w = Some m"
  then obtain rest where w: "w = append_le kBroadcastModeVersion @ rest" and l: "length w = 4"
    and c: "rest ! 0 \<le> 1" "rest ! 1 \<le> 1"
    and m: "m = \<lparr>bm_mode = (if rest ! 0 = 0 then Focus else Follow_along), bm_lock_input = (rest ! 1 \<noteq> 0)\<rparr>"
    by (auto simp: decode_broadcast_mode_def bind_eq_Some_conv reader_iffs not_less split: if_splits)
  have "length rest = Suc (Suc 0)" using w l by simp
  then obtain a b where "rest = [a, b]" by (auto simp: length_Suc_conv)
  then show "True \<and> encode_broadcast_mode m = w"
    using w m c byte_le_1[of a] byte_le_1[of b] by (auto simp: encode_broadcast_mode_def flag_if_def)
qed

interpretation metadata_codec: strict_codec encode_fleet_metadata decode_fleet_metadata
  "\<lambda>m. fd_client_version m \<noteq> [] \<and> length (fd_client_version m) \<le> 32"
proof
  fix m :: fleet_metadata assume "fd_client_version m \<noteq> [] \<and> length (fd_client_version m) \<le> 32"
  then show "decode_fleet_metadata (encode_fleet_metadata m) = Some m"
    by (cases "fd_agent_connected m") (simp_all add: encode_fleet_metadata_def decode_fleet_metadata_def
        kMaximumClientVersionBytes_def length_u16 length_u16_zero flag_if_def)
next
  fix w m assume "decode_fleet_metadata w = Some m"
  then obtain a n t where w: "w = append_le kFleetMetadataVersion @ a # append_le (n :: u16) @ t"
    and c: "a \<le> 1" "n \<noteq> 0" "unat n \<le> 32" "length t = unat n"
    and m: "m = \<lparr>fd_client_version = t, fd_agent_connected = (a \<noteq> 0)\<rparr>"
    by (auto simp: decode_fleet_metadata_def bind_eq_Some_conv reader_iffs kMaximumClientVersionBytes_def not_less
        split: if_splits)
  have "t \<noteq> []" using c by (auto simp: unat_eq_0)
  then show "(fd_client_version m \<noteq> [] \<and> length (fd_client_version m) \<le> 32) \<and> encode_fleet_metadata m = w"
    using c w byte_le_1[OF c(1)] by (auto simp: encode_fleet_metadata_def kMaximumClientVersionBytes_def m flag_if_def)
qed

text \<open>C37. The messages that carry authority have one wire form each: a payload decodes as a fleet
  request, a fleet status, a configuration report, a group key, a power action or a launch URL
  exactly when it is the encoding of a valid value, and then gives that value. In particular a
  fleet status whose phase is \<open>verified_protected\<close> decodes only with a probe that completed and
  found the filter and the system volume protected in the current session.\<close>

theorem control_messages_exact:
  "(decode_uwf_fleet_status_report w = Some st \<longleftrightarrow> fleet_status_ok st \<and> encode_uwf_fleet_status_report st = w) \<and>
   (decode_uwf_fleet_configure_request w = Some rq \<longleftrightarrow> fr_operation_id rq \<noteq> 0 \<and> encode_uwf_fleet_configure_request rq = w) \<and>
   (decode_uwf_configure_report w = Some cr \<longleftrightarrow> detail_ok (cr_detail cr) \<and> encode_uwf_configure_report cr = w) \<and>
   (decode_video_group_key w = Some gk \<longleftrightarrow>
      (gk_stream_id gk \<noteq> 0 \<and> length (gk_key gk) = 32) \<and> encode_video_group_key gk = w) \<and>
   (decode_power_action w = Some pa \<longleftrightarrow> encode_power_action pa = w) \<and>
   (decode_launch_url w = Some url \<longleftrightarrow> is_valid_launch_url url \<and> encode_launch_url url = w)"
  using fleet_status_codec.dec_iff fleet_request_codec.dec_iff configure_report_codec.dec_iff
    group_key_codec.dec_iff power_codec.dec_iff url_codec.dec_iff by simp

end
