(* ===== verification/WakeOnLan.thy ===== *)
theory WakeOnLan
  imports Prelude
begin

text \<open>
  The pure part of \<^verbatim>\<open>common/src/wake_on_lan.cpp\<close>: MAC addresses as text and the magic packet. A MAC
  address is the list of its six octets; sending the packet is a socket call.

  Shown: an address is read back as it was printed, with either separator and in either case, and
  a packet verifies for an address exactly when it is the magic packet of that address.
\<close>

unbundle bit_operations_syntax

definition hex_val :: "byte \<Rightarrow> int" where
  "hex_val c =
     (if c \<ge> 48 \<and> c \<le> 57 then uint (c - 48)
      else if c \<ge> 97 \<and> c \<le> 102 then uint (c - 97) + 10
      else if c \<ge> 65 \<and> c \<le> 70 then uint (c - 65) + 10
      else -1)"

text \<open>The loop over the octets, \<open>n\<close> of them left; the text is what follows the cursor.\<close>

fun mac_loop :: "byte \<Rightarrow> nat \<Rightarrow> bytes \<Rightarrow> bytes option" where
  "mac_loop separator 0 cursor = Some []"
| "mac_loop separator (Suc n) (h # l # cursor) =
     (let high = hex_val h; low = hex_val l in
      if high < 0 \<or> low < 0 then None
      else
        let octet = word_of_int (push_bit 4 high OR low) in
        if n > 0
        then case cursor of
            [] \<Rightarrow> None
          | s # cursor' \<Rightarrow> if s \<noteq> separator then None else map_option ((#) octet) (mac_loop separator n cursor')
        else Some [octet])"
| "mac_loop separator (Suc n) cursor = None"

definition parse_mac_address :: "bytes \<Rightarrow> bytes option" where
  "parse_mac_address t =
     (if length t \<noteq> 17 then None
      else if t ! 2 \<noteq> 58 \<and> t ! 2 \<noteq> 45 then None
      else mac_loop (t ! 2) 6 t)"

definition hex_digits :: "bool \<Rightarrow> bytes" where
  "hex_digits uppercase = ascii (if uppercase then ''0123456789ABCDEF'' else ''0123456789abcdef'')"

definition format_octet :: "bool \<Rightarrow> byte \<Rightarrow> bytes" where
  "format_octet uppercase b =
     [hex_digits uppercase ! unat (drop_bit 4 b AND 0x0F), hex_digits uppercase ! unat (b AND 0x0F)]"

fun format_octets :: "byte \<Rightarrow> bool \<Rightarrow> bytes \<Rightarrow> bytes" where
  "format_octets separator uppercase [] = []"
| "format_octets separator uppercase [b] = format_octet uppercase b"
| "format_octets separator uppercase (b # bs) =
     format_octet uppercase b @ (if separator \<noteq> 0 then [separator] else []) @ format_octets separator uppercase bs"

definition format_mac_address :: "byte \<Rightarrow> bool \<Rightarrow> bytes \<Rightarrow> bytes" where
  "format_mac_address separator uppercase mac = format_octets separator uppercase (take 6 mac)"

definition kWolMagicPacketSize :: nat where "kWolMagicPacketSize = 102"

definition create_magic_packet :: "bytes \<Rightarrow> bytes" where
  "create_magic_packet mac = replicate 6 0xFF @ concat (replicate 16 (take 6 mac))"

fun verify_reps :: "nat \<Rightarrow> bytes \<Rightarrow> bytes \<Rightarrow> bool" where
  "verify_reps 0 mac packet = True"
| "verify_reps (Suc n) mac packet = (if take 6 packet \<noteq> mac then False else verify_reps n mac (drop 6 packet))"

definition verify_magic_packet :: "bytes \<Rightarrow> bytes \<Rightarrow> bool" where
  "verify_magic_packet packet mac =
     (if length packet \<noteq> kWolMagicPacketSize then False
      else if \<not> list_all (\<lambda>b. b = 0xFF) (take 6 packet) then False
      else verify_reps 16 mac (drop 6 packet))"

lemma hex_digit_value: "n < 16 \<Longrightarrow> hex_val (hex_digits u ! n) = int n"
proof -
  have "list_all (\<lambda>n. hex_val (hex_digits True ! n) = int n \<and> hex_val (hex_digits False ! n) = int n) [0..<16]"
    by code_simp
  moreover assume "n < 16"
  ultimately show ?thesis by (cases u) (simp_all only: list_all_iff set_upt atLeastLessThan_iff, simp_all)
qed

lemma nibbles: "word_of_int (push_bit 4 (uint (drop_bit 4 b AND 15)) OR uint (b AND 15)) = (b :: byte)"
  unfolding mask_eq_exp_minus_1 [of 4, where 'a = "8 word", simplified, symmetric]
  by (rule bit_word_eqI) (auto simp: bit_simps)

lemma nibble_lt: "unat (b AND 15 :: byte) < 16"
  using word_and_le1 [of b 15] by (simp add: word_le_nat_alt)

lemma format_octet_read:
  assumes "format_octet u b = [h, l]"
  shows "\<not> hex_val h < 0 \<and> \<not> hex_val l < 0 \<and> word_of_int (push_bit 4 (hex_val h) OR hex_val l) = b"
proof -
  have "hex_val h = uint (drop_bit 4 b AND 15)" "hex_val l = uint (b AND 15)"
    using assms nibble_lt by (auto simp: format_octet_def hex_digit_value)
  then show ?thesis using nibbles by simp
qed

lemma mac_loop_format:
  assumes "s \<noteq> 0" "bs \<noteq> []"
  shows "mac_loop s (length bs) (format_octets s u bs) = Some bs"
  using assms(2)
proof (induction bs rule: induct_list012)
  case (2 b)
  obtain h l where f: "format_octet u b = [h, l]" by (simp add: format_octet_def)
  then show ?case using format_octet_read[OF f] by simp
next
  case (3 b c bs)
  obtain h l where f: "format_octet u b = [h, l]" by (simp add: format_octet_def)
  then show ?case using format_octet_read[OF f] 3 assms(1) by simp
qed simp

lemma length_format: "s \<noteq> 0 \<Longrightarrow> bs \<noteq> [] \<Longrightarrow> length (format_octets s u bs) = 3 * length bs - 1"
  by (induction s u bs rule: format_octets.induct) (auto simp: format_octet_def)

theorem mac_address_roundtrip:
  assumes "length mac = 6" "s \<in> {58, 45}"
  shows "parse_mac_address (format_mac_address s u mac) = Some mac"
proof -
  have s: "s \<noteq> 0" using assms(2) by auto
  obtain b c bs where mac: "mac = b # c # bs" using assms(1) by (auto simp: length_Suc_conv eval_nat_numeral)
  have "format_mac_address s u mac ! 2 = s"
    using s assms(1) by (simp add: mac format_mac_address_def format_octet_def)
  moreover have "length (format_mac_address s u mac) = 17"
    using assms(1) length_format[OF s, of mac u] mac by (auto simp: format_mac_address_def)
  moreover have "mac_loop s 6 (format_mac_address s u mac) = Some mac"
    using mac_loop_format[OF s, of mac u] assms(1) mac by (auto simp: format_mac_address_def)
  ultimately show ?thesis using assms(2) by (auto simp: parse_mac_address_def)
qed

lemma verify_reps_iff:
  "length mac = 6 \<Longrightarrow> length p = 6 * n \<Longrightarrow> verify_reps n mac p \<longleftrightarrow> p = concat (replicate n mac)"
proof (induction n arbitrary: p)
  case (Suc n)
  have "verify_reps n mac (drop 6 p) \<longleftrightarrow> drop 6 p = concat (replicate n mac)" using Suc by simp
  moreover have "p = mac @ q \<longleftrightarrow> take 6 p = mac \<and> drop 6 p = q" for q
    using Suc.prems(1) by (metis append_eq_conv_conj)
  ultimately show ?case by simp
qed simp

theorem magic_packet_exact:
  assumes "length mac = 6"
  shows "verify_magic_packet packet mac \<longleftrightarrow> packet = create_magic_packet mac"
proof
  assume v: "verify_magic_packet packet mac"
  then have l: "length packet = 102" "list_all (\<lambda>b. b = 0xFF) (take 6 packet)" "verify_reps 16 mac (drop 6 packet)"
    by (auto simp: verify_magic_packet_def kWolMagicPacketSize_def split: if_splits)
  have "take 6 packet = replicate 6 0xFF" using l(1,2) by (auto simp: list_all_iff intro: replicate_eqI)
  moreover have "drop 6 packet = concat (replicate 16 mac)" using verify_reps_iff[OF assms, of "drop 6 packet" 16] l by simp
  ultimately show "packet = create_magic_packet mac"
    using assms append_take_drop_id[of 6 packet] by (simp only: create_magic_packet_def take_all order.refl)
next
  assume p: "packet = create_magic_packet mac"
  have "length (concat (replicate 16 mac)) = 6 * 16" using assms by (simp add: length_concat sum_list_replicate)
  then show "verify_magic_packet packet mac"
    using verify_reps_iff[OF assms, of "concat (replicate 16 mac)" 16] assms
    by (simp add: p verify_magic_packet_def create_magic_packet_def kWolMagicPacketSize_def list_all_iff)
qed

end
