(* ===== verification/ClientRegistry.thy ===== *)
theory ClientRegistry
  imports ControlMessages WakeOnLan "HOL-Library.List_Lexorder"
begin

text \<open>
  The registry of clients of \<^verbatim>\<open>server/src/client_registry.cpp\<close>: one record per client, updated by the
  authenticated reports, with the reboot-to-restore state an exam start is decided on. The
  \<open>unordered_map\<close> is an association list in some order of iteration; every operation holds the
  mutex, so it is one step, and the steady clock's reading is an argument. A null
  \<open>snapshot_jpeg\<close> is \<open>None\<close>; allocation does not fail.

  Shown: a record proves current protection exactly when the last thing that touched its restore state
  is a fleet report that claims it with a probe to match on the boot it reports; no other operation creates a proof,
  and the ones that end a session retire it.
\<close>

section \<open>Records\<close>

datatype client_status = Connecting | Online | Degraded | Locked | Offline

type_synonym time = int

definition no_boot_id :: bytes where "no_boot_id = replicate kBootIdBytes 0"

record uwf_fleet_state =
  uf_phase :: fleet_phase
  uf_operation_id :: u64
  uf_restart_requested :: bool
  uf_restart_expected :: bool
  uf_reported :: bool
  uf_configure_boot_id :: bytes
  uf_observed_boot_id :: bytes
  uf_verified_boot_id :: bytes
  uf_probe :: protection_probe
  uf_detail :: bytes
  uf_requested_at :: time
  uf_updated_at :: time

definition default_uwf :: uwf_fleet_state where
  "default_uwf = \<lparr>uf_phase = Idle, uf_operation_id = 0, uf_restart_requested = False, uf_restart_expected = False,
     uf_reported = False, uf_configure_boot_id = no_boot_id, uf_observed_boot_id = no_boot_id,
     uf_verified_boot_id = no_boot_id, uf_probe = no_probe, uf_detail = [], uf_requested_at = 0, uf_updated_at = 0\<rparr>"

definition proves_current_protection :: "uwf_fleet_state \<Rightarrow> bool" where
  "proves_current_protection u \<longleftrightarrow> uf_phase u = Verified_protected \<and> probe_proves_protection (uf_probe u) \<and>
     uf_verified_boot_id u \<noteq> no_boot_id \<and> uf_verified_boot_id u = uf_observed_boot_id u"

record client_record =
  cl_id :: u64
  cl_hostname :: bytes
  cl_address :: bytes
  cl_status :: client_status
  cl_delivery :: delivery_mode
  cl_latency_ms :: u32
  cl_packet_loss_per_mille :: u32
  cl_packet_loss_sample_size :: u64
  cl_streaming :: bool
  cl_snapshotting :: bool
  cl_viewing_broadcast :: bool
  cl_frozen :: bool
  cl_uwf :: uwf_fleet_state
  cl_frames_per_second :: u8
  cl_snapshot_interval_seconds :: u16
  cl_snapshot_width :: u16
  cl_snapshot_height :: u16
  cl_snapshot_captured_at :: u64
  cl_snapshot_generation :: u64
  cl_snapshot_jpeg :: "bytes option"
  cl_bad_loss_windows :: nat
  cl_good_loss_windows :: nat
  cl_last_seen :: time
  cl_help_requested :: bool
  cl_help_message :: bytes
  cl_help_requested_at :: u64
  cl_mac_address :: bytes
  cl_wol_support :: wol_support
  cl_client_version :: bytes
  cl_agent_connected :: bool

definition default_client :: client_record where
  "default_client = \<lparr>cl_id = 0, cl_hostname = [], cl_address = [], cl_status = Connecting, cl_delivery = Multicast,
     cl_latency_ms = 0, cl_packet_loss_per_mille = 0, cl_packet_loss_sample_size = 0, cl_streaming = False,
     cl_snapshotting = False, cl_viewing_broadcast = False, cl_frozen = False, cl_uwf = default_uwf,
     cl_frames_per_second = 0, cl_snapshot_interval_seconds = 0, cl_snapshot_width = 0, cl_snapshot_height = 0,
     cl_snapshot_captured_at = 0, cl_snapshot_generation = 0, cl_snapshot_jpeg = None, cl_bad_loss_windows = 0,
     cl_good_loss_windows = 0, cl_last_seen = 0, cl_help_requested = False, cl_help_message = [],
     cl_help_requested_at = 0, cl_mac_address = [], cl_wol_support = Wol_unknown, cl_client_version = [],
     cl_agent_connected = False\<rparr>"

type_synonym registry = "(u64 \<times> client_record) list"

section \<open>Operations\<close>

definition boot_id_is_set :: "bytes \<Rightarrow> bool" where
  "boot_id_is_set b \<longleftrightarrow> b \<noteq> no_boot_id"

definition phase_for_configure_outcome :: "configure_outcome \<Rightarrow> fleet_phase" where
  "phase_for_configure_outcome c =
     (case c of
        Armed \<Rightarrow> Awaiting_restart | Reboot_pending \<Rightarrow> Awaiting_restart
      | Already_enabled \<Rightarrow> Verifying
      | Unsupported_edition \<Rightarrow> Unsupported
      | _ \<Rightarrow> Phase_failed)"

definition retire_uwf_proof :: "time \<Rightarrow> string \<Rightarrow> uwf_fleet_state \<Rightarrow> uwf_fleet_state" where
  "retire_uwf_proof now detail u = u\<lparr>uf_phase := Verifying, uf_verified_boot_id := no_boot_id, uf_probe := no_probe,
     uf_detail := ascii detail, uf_updated_at := now\<rparr>"

definition carry_over :: "client_record \<Rightarrow> client_record \<Rightarrow> client_record" where
  "carry_over existing r =
     (let r = r\<lparr>cl_frozen := cl_frozen existing, cl_uwf := cl_uwf existing,
            cl_help_requested := cl_help_requested existing, cl_help_message := cl_help_message existing,
            cl_help_requested_at := cl_help_requested_at existing,
            cl_mac_address := (if cl_mac_address r = [] then cl_mac_address existing else cl_mac_address r),
            cl_wol_support := (if cl_wol_support r = Wol_unknown then cl_wol_support existing else cl_wol_support r),
            cl_client_version := (if cl_client_version r = [] then cl_client_version existing else cl_client_version r),
            cl_agent_connected := cl_agent_connected existing\<rparr> in
      if cl_snapshot_jpeg r = None \<or> cl_snapshot_jpeg r = Some []
      then r\<lparr>cl_snapshot_width := cl_snapshot_width existing, cl_snapshot_height := cl_snapshot_height existing,
            cl_snapshot_captured_at := cl_snapshot_captured_at existing,
            cl_snapshot_generation := cl_snapshot_generation existing, cl_snapshot_jpeg := cl_snapshot_jpeg existing\<rparr>
      else r)"

definition upsert :: "client_record \<Rightarrow> registry \<Rightarrow> registry" where
  "upsert r reg =
     (case map_of reg (cl_id r) of
        None \<Rightarrow> alist_emplace (cl_id r) r reg
      | Some existing \<Rightarrow> alist_modify (cl_id r) (\<lambda>_. carry_over existing r) reg)"

text \<open>The lookup every setter starts with: unknown clients are refused and nothing changes.\<close>

definition with_client :: "u64 \<Rightarrow> (client_record \<Rightarrow> client_record) \<Rightarrow> registry \<Rightarrow> bool \<times> registry" where
  "with_client cid f reg = (if map_of reg cid = None then (False, reg) else (True, alist_modify cid f reg))"

definition set_status :: "u64 \<Rightarrow> client_status \<Rightarrow> registry \<Rightarrow> bool \<times> registry" where
  "set_status cid status reg = with_client cid (\<lambda>c. c\<lparr>cl_status := status\<rparr>) reg"

definition set_frozen :: "u64 \<Rightarrow> bool \<Rightarrow> time \<Rightarrow> registry \<Rightarrow> bool \<times> registry" where
  "set_frozen cid frozen now reg = with_client cid (\<lambda>c. c\<lparr>cl_frozen := frozen, cl_last_seen := now\<rparr>) reg"

definition set_help_request :: "u64 \<Rightarrow> bool \<Rightarrow> bytes \<Rightarrow> u64 \<Rightarrow> time \<Rightarrow> registry \<Rightarrow> bool \<times> registry" where
  "set_help_request cid active message timestamp now reg =
     with_client cid (\<lambda>c. c\<lparr>cl_help_requested := active, cl_help_message := (if active then message else []),
       cl_help_requested_at := (if active then timestamp else 0), cl_last_seen := now\<rparr>) reg"

definition set_wol_report :: "u64 \<Rightarrow> bytes \<Rightarrow> wol_support \<Rightarrow> time \<Rightarrow> registry \<Rightarrow> bool \<times> registry" where
  "set_wol_report cid mac support now reg =
     with_client cid (\<lambda>c. c\<lparr>cl_mac_address := (if mac \<noteq> replicate 6 0 then format_mac_address 58 True mac else cl_mac_address c),
       cl_wol_support := support, cl_last_seen := now\<rparr>) reg"

definition set_fleet_metadata :: "u64 \<Rightarrow> bytes \<Rightarrow> bool \<Rightarrow> time \<Rightarrow> registry \<Rightarrow> bool \<times> registry" where
  "set_fleet_metadata cid version agent_connected now reg =
     with_client cid (\<lambda>c. c\<lparr>cl_client_version := (if version \<noteq> [] then version else cl_client_version c),
       cl_agent_connected := agent_connected, cl_last_seen := now\<rparr>) reg"

definition uwf_after_report :: "configure_report \<Rightarrow> time \<Rightarrow> uwf_fleet_state \<Rightarrow> uwf_fleet_state" where
  "uwf_after_report report now u =
     (let phase = phase_for_configure_outcome (cr_outcome report);
          u = u\<lparr>uf_reported := True, uf_phase := phase\<rparr>;
          u = (if phase = Awaiting_restart
               then u\<lparr>uf_restart_expected := True,
                      uf_configure_boot_id := (if \<not> boot_id_is_set (uf_configure_boot_id u)
                        then uf_observed_boot_id u else uf_configure_boot_id u)\<rparr>
               else u)
      in u\<lparr>uf_probe := no_probe, uf_verified_boot_id := no_boot_id, uf_detail := cr_detail report, uf_updated_at := now\<rparr>)"

definition set_uwf_report :: "u64 \<Rightarrow> configure_report \<Rightarrow> time \<Rightarrow> registry \<Rightarrow> bool \<times> registry" where
  "set_uwf_report cid report now reg =
     with_client cid (\<lambda>c. c\<lparr>cl_uwf := uwf_after_report report now (cl_uwf c), cl_last_seen := now\<rparr>) reg"

definition begin_uwf_fleet_operation :: "u64 \<Rightarrow> u64 \<Rightarrow> bool \<Rightarrow> time \<Rightarrow> registry \<Rightarrow> bool \<times> registry" where
  "begin_uwf_fleet_operation cid operation_id restart_requested now reg =
     (if operation_id = 0 then (False, reg)
      else with_client cid (\<lambda>c. c\<lparr>cl_uwf := (cl_uwf c)
         \<lparr>uf_operation_id := operation_id, uf_restart_requested := restart_requested, uf_restart_expected := False,
          uf_reported := False, uf_phase := Requested, uf_configure_boot_id := uf_observed_boot_id (cl_uwf c),
          uf_verified_boot_id := no_boot_id, uf_probe := no_probe,
          uf_detail := ascii ''reboot-to-restore operation requested'', uf_requested_at := now, uf_updated_at := now\<rparr>\<rparr>) reg)"

definition uwf_after_status :: "fleet_status \<Rightarrow> time \<Rightarrow> uwf_fleet_state \<Rightarrow> uwf_fleet_state" where
  "uwf_after_status report now u =
     (if fl_operation_id report \<noteq> 0 \<and> uf_operation_id u \<noteq> 0 \<and> fl_operation_id report \<noteq> uf_operation_id u then u
      else
        let u = (if fl_operation_id report \<noteq> 0 then u\<lparr>uf_operation_id := fl_operation_id report\<rparr> else u);
            u = u\<lparr>uf_reported := True, uf_observed_boot_id := fl_boot_id report, uf_probe := fl_probe report,
                  uf_detail := fl_detail report, uf_updated_at := now\<rparr>;
            phase = fl_phase report;
            u = (if phase = Awaiting_restart \<or> phase = Restarting
                 then u\<lparr>uf_restart_expected := True,
                        uf_configure_boot_id := (if \<not> boot_id_is_set (uf_configure_boot_id u)
                          then fl_boot_id report else uf_configure_boot_id u)\<rparr>
                 else u);
            (phase, u) =
              (if phase = Verified_protected
               then if \<not> probe_proves_protection (fl_probe report)
                    then (Phase_failed, u\<lparr>uf_detail := ascii ''UWF protection was claimed without evidence''\<rparr>)
                    else if uf_restart_expected u \<and> boot_id_is_set (uf_configure_boot_id u) \<and>
                            fl_boot_id report = uf_configure_boot_id u
                    then (Verifying, u\<lparr>uf_detail := ascii ''UWF protection was claimed without the expected restart''\<rparr>)
                    else (phase, u)
               else (phase, u))
        in u\<lparr>uf_phase := phase,
             uf_verified_boot_id := (if phase = Verified_protected then fl_boot_id report else no_boot_id)\<rparr>)"

definition set_uwf_fleet_status :: "u64 \<Rightarrow> fleet_status \<Rightarrow> time \<Rightarrow> registry \<Rightarrow> bool \<times> registry" where
  "set_uwf_fleet_status cid report now reg =
     with_client cid (\<lambda>c. c\<lparr>cl_uwf := uwf_after_status report now (cl_uwf c), cl_last_seen := now\<rparr>) reg"

definition demote_uwf_verification :: "u64 \<Rightarrow> time \<Rightarrow> registry \<Rightarrow> bool \<times> registry" where
  "demote_uwf_verification cid now reg =
     (case map_of reg cid of
        None \<Rightarrow> (False, reg)
      | Some c \<Rightarrow>
          if uf_phase (cl_uwf c) \<noteq> Verified_protected then (False, reg)
          else (True, alist_modify cid (\<lambda>c. c\<lparr>cl_uwf := retire_uwf_proof now
                 ''re-checking UWF protection after reconnect'' (cl_uwf c)\<rparr>) reg))"

definition touch :: "u64 \<Rightarrow> time \<Rightarrow> registry \<Rightarrow> bool \<times> registry" where
  "touch cid now reg =
     with_client cid (\<lambda>c. c\<lparr>cl_last_seen := now,
       cl_status := (if cl_status c = Connecting \<or> cl_status c = Offline then Online else cl_status c)\<rparr>) reg"

definition update_snapshot :: "u64 \<Rightarrow> snapshot_frame \<Rightarrow> time \<Rightarrow> registry \<Rightarrow> bool \<times> registry" where
  "update_snapshot cid frame now reg =
     (if frame_fields_bad frame then (False, reg)
      else with_client cid (\<lambda>c. c\<lparr>cl_snapshot_width := sf_width frame, cl_snapshot_height := sf_height frame,
             cl_snapshot_captured_at := sf_captured_at frame, cl_snapshot_jpeg := Some (sf_jpeg frame),
             cl_snapshot_generation := cl_snapshot_generation c + 1, cl_last_seen := now\<rparr>) reg)"

definition loss_windows :: "u32 \<Rightarrow> u64 \<Rightarrow> client_record \<Rightarrow> client_record" where
  "loss_windows loss samples c =
     (if samples \<ge> 200
      then if loss \<ge> 50 then c\<lparr>cl_bad_loss_windows := min (cl_bad_loss_windows c + 1) 3, cl_good_loss_windows := 0\<rparr>
           else if loss \<le> 20 then c\<lparr>cl_good_loss_windows := min (cl_good_loss_windows c + 1) 5, cl_bad_loss_windows := 0\<rparr>
           else c\<lparr>cl_bad_loss_windows := 0, cl_good_loss_windows := 0\<rparr>
      else c)"

definition update_health ::
  "u64 \<Rightarrow> u32 \<Rightarrow> u32 \<Rightarrow> u64 \<Rightarrow> delivery_mode \<Rightarrow> time \<Rightarrow> registry \<Rightarrow> bool \<times> registry" where
  "update_health cid latency loss samples delivery now reg =
     with_client cid (\<lambda>c.
       let c = loss_windows loss samples (c\<lparr>cl_latency_ms := latency, cl_packet_loss_per_mille := loss,
                 cl_packet_loss_sample_size := samples, cl_delivery := delivery, cl_last_seen := now\<rparr>) in
       if cl_status c \<noteq> Locked \<and> cl_status c \<noteq> Offline
       then if cl_bad_loss_windows c \<ge> 3 then c\<lparr>cl_status := Degraded\<rparr>
            else if cl_good_loss_windows c \<ge> 5 then c\<lparr>cl_status := Online\<rparr>
            else c
       else c) reg"

definition expired :: "time \<Rightarrow> time \<Rightarrow> client_record \<Rightarrow> bool" where
  "expired now timeout c \<longleftrightarrow> cl_status c \<noteq> Offline \<and> now - cl_last_seen c > timeout"

definition expire_client :: "time \<Rightarrow> time \<Rightarrow> client_record \<Rightarrow> client_record" where
  "expire_client now timeout c =
     (if expired now timeout c
      then c\<lparr>cl_status := Offline,
             cl_uwf := (if uf_phase (cl_uwf c) = Verified_protected
               then retire_uwf_proof now ''re-checking UWF protection after the client went offline'' (cl_uwf c)
               else cl_uwf c)\<rparr>
      else c)"

definition expire_clients :: "time \<Rightarrow> time \<Rightarrow> registry \<Rightarrow> nat \<times> registry" where
  "expire_clients now timeout reg =
     (length (filter (\<lambda>(cid, c). expired now timeout c) reg), map (\<lambda>(cid, c). (cid, expire_client now timeout c)) reg)"

text \<open>\<open>std::sort\<close> leaves the order of records with equal host names open; the model takes the stable one, and the
  callers only look records up by their id.\<close>

definition registry_snapshot :: "registry \<Rightarrow> client_record list" where
  "registry_snapshot reg = sort_key cl_hostname (map snd reg)"

definition registry_size :: "registry \<Rightarrow> nat" where
  "registry_size reg = length reg"

section \<open>Proofs of protection\<close>

definition superseded :: "fleet_status \<Rightarrow> uwf_fleet_state \<Rightarrow> bool" where
  "superseded report u \<longleftrightarrow>
     fl_operation_id report \<noteq> 0 \<and> uf_operation_id u \<noteq> 0 \<and> fl_operation_id report \<noteq> uf_operation_id u"

text \<open>A report that shows current protection: the claim, the evidence of its probe, a boot identity, and
  a boot other than the one the filter was armed in when a restart is due.\<close>

definition shows_protection :: "fleet_status \<Rightarrow> uwf_fleet_state \<Rightarrow> bool" where
  "shows_protection report u \<longleftrightarrow> fl_phase report = Verified_protected \<and> probe_proves_protection (fl_probe report) \<and>
     fl_boot_id report \<noteq> no_boot_id \<and>
     \<not> (uf_restart_expected u \<and> uf_configure_boot_id u \<noteq> no_boot_id \<and> fl_boot_id report = uf_configure_boot_id u)"

lemma proves_after_status:
  "proves_current_protection (uwf_after_status report now u) \<longleftrightarrow>
     (if superseded report u then proves_current_protection u else shows_protection report u)"
proof (cases "superseded report u")
  case True
  then show ?thesis by (simp add: uwf_after_status_def superseded_def)
next
  case False
  show ?thesis
    using False unfolding uwf_after_status_def superseded_def [symmetric]
    by (auto simp: proves_current_protection_def shows_protection_def boot_id_is_set_def Let_def)
qed

lemma no_proof_after_report: "\<not> proves_current_protection (uwf_after_report report now u)"
  by (auto simp: uwf_after_report_def proves_current_protection_def Let_def no_probe_def probe_proves_protection_def)

lemma no_proof_retired: "\<not> proves_current_protection (retire_uwf_proof now d u)"
  by (simp add: retire_uwf_proof_def proves_current_protection_def)

lemma no_proof_default [simp]: "\<not> proves_current_protection default_uwf"
  by (simp add: default_uwf_def proves_current_protection_def)

definition proven :: "registry \<Rightarrow> u64 \<Rightarrow> bool" where
  "proven reg cid = (case map_of reg cid of None \<Rightarrow> False | Some c \<Rightarrow> proves_current_protection (cl_uwf c))"

lemma proven_modify:
  "proven (alist_modify k f reg) cid =
     (if cid = k then (case map_of reg k of None \<Rightarrow> False | Some c \<Rightarrow> proves_current_protection (cl_uwf (f c)))
      else proven reg cid)"
  by (auto simp: proven_def split: option.splits)

lemma proven_with_client:
  "proven (snd (with_client k f reg)) cid =
     (if cid = k then (case map_of reg k of None \<Rightarrow> False | Some c \<Rightarrow> proves_current_protection (cl_uwf (f c)))
      else proven reg cid)"
  by (auto simp: with_client_def proven_modify proven_def split: option.splits)

lemma cl_uwf_carry_over [simp]: "cl_uwf (carry_over e r) = cl_uwf e"
  by (simp add: carry_over_def Let_def)

lemma proven_upsert:
  "\<not> proves_current_protection (cl_uwf r) \<Longrightarrow> proven (upsert r reg) cid = proven reg cid"
  by (auto simp: upsert_def proven_modify proven_def split: option.splits if_splits)

text \<open>The setters that leave the restore state alone.\<close>

lemma proven_same:
  assumes "\<And>c. cl_uwf (f c) = cl_uwf c"
  shows "proven (snd (with_client k f reg)) cid = proven reg cid"
  unfolding proven_with_client by (cases "map_of reg k") (auto simp: proven_def assms)

lemma proven_setters [simp]:
  "proven (snd (set_status k st reg)) cid = proven reg cid"
  "proven (snd (set_frozen k b now reg)) cid = proven reg cid"
  "proven (snd (set_help_request k b m ts now reg)) cid = proven reg cid"
  "proven (snd (set_wol_report k mac wol now reg)) cid = proven reg cid"
  "proven (snd (set_fleet_metadata k v b now reg)) cid = proven reg cid"
  "proven (snd (touch k now reg)) cid = proven reg cid"
  "proven (snd (update_snapshot k fr now reg)) cid = proven reg cid"
  "proven (snd (update_health k la lo sa de now reg)) cid = proven reg cid"
  by (simp_all add: set_status_def set_frozen_def set_help_request_def set_wol_report_def set_fleet_metadata_def
      touch_def update_snapshot_def update_health_def loss_windows_def Let_def proven_same)

lemma proven_uwf_report:
  "proven (snd (set_uwf_report k report now reg)) cid \<longleftrightarrow> cid \<noteq> k \<and> proven reg cid"
  by (auto simp: set_uwf_report_def proven_with_client no_proof_after_report split: option.splits)

lemma proven_begin_operation:
  "proven (snd (begin_uwf_fleet_operation k oid rr now reg)) cid \<Longrightarrow> proven reg cid \<and> (oid \<noteq> 0 \<longrightarrow> cid \<noteq> k)"
  by (auto simp: begin_uwf_fleet_operation_def proven_with_client proves_current_protection_def
      split: option.splits if_splits)

lemma proven_demote:
  "proven (snd (demote_uwf_verification k now reg)) cid \<longleftrightarrow> cid \<noteq> k \<and> proven reg cid"
proof (cases "map_of reg k")
  case (Some c)
  have "uf_phase (cl_uwf c) \<noteq> Verified_protected \<Longrightarrow> \<not> proves_current_protection (cl_uwf c)"
    by (simp add: proves_current_protection_def)
  then show ?thesis using Some by (auto simp: demote_uwf_verification_def proven_modify no_proof_retired proven_def)
qed (auto simp: demote_uwf_verification_def proven_def)

lemma proven_status:
  "proven (snd (set_uwf_fleet_status k report now reg)) cid \<longleftrightarrow>
     (if cid = k then (case map_of reg k of None \<Rightarrow> False
        | Some c \<Rightarrow> if superseded report (cl_uwf c) then proves_current_protection (cl_uwf c)
                    else shows_protection report (cl_uwf c))
      else proven reg cid)"
  by (auto simp: set_uwf_fleet_status_def proven_with_client proves_after_status split: option.splits)

lemma proven_expire:
  assumes "proven (snd (expire_clients now timeout reg)) cid"
  shows "proven reg cid"
proof -
  have m: "map_of (map (\<lambda>(k, c). (k, expire_client now timeout c)) reg) cid = map_option (expire_client now timeout) (map_of reg cid)"
    by (induction reg) auto
  have "proves_current_protection (cl_uwf (expire_client now timeout c)) \<Longrightarrow> proves_current_protection (cl_uwf c)" for c
    by (auto simp: expire_client_def no_proof_retired split: if_splits)
  then show ?thesis using assms by (auto simp: expire_clients_def proven_def m split: option.splits)
qed

lemma snapshot_lookup:
  assumes "distinct (map fst reg)" "alist_all (\<lambda>k c. cl_id c = k) reg"
  shows "List.find (\<lambda>c. cl_id c = cid) (registry_snapshot reg) = map_of reg cid"
proof -
  have id: "c \<in> set (map snd reg) \<and> cl_id c = cid \<longleftrightarrow> map_of reg cid = Some c" for c
    using assms by (force simp: alist_all_def)
  show ?thesis
  proof (cases "List.find (\<lambda>c. cl_id c = cid) (registry_snapshot reg)")
    case None
    then have "\<nexists>c. c \<in> set (map snd reg) \<and> cl_id c = cid" by (auto simp: find_None_iff registry_snapshot_def)
    then have "map_of reg cid = None" unfolding id by auto
    then show ?thesis using None by simp
  next
    case (Some c)
    then have "c \<in> set (registry_snapshot reg) \<and> cl_id c = cid" by (auto simp: find_Some_iff)
    then have "map_of reg cid = Some c" using id[of c] by (simp add: registry_snapshot_def)
    then show ?thesis using Some by simp
  qed
qed

end
