(* ===== verification/ExamAdmission.thy ===== *)
theory ExamAdmission
  imports AnswerDelivery ExamControl ClientRegistry
begin

text \<open>
  Who may start an exam: the part of \<^verbatim>\<open>server/src/control_plane.cpp\<close> that binds connections to clients,
  applies their reports to the registry, and starts, begins and stops exams. A \<open>ConnectionState\<close> is shared
  between the table of live connections and the handlers that still run on it, so the model keeps every
  object ever made (\<open>pl_objects\<close>) beside the list of live ones (\<open>pl_states\<close>); connection numbers are
  not reused. Each block under the ownership mutex or the mutex of the exam contexts is one step; the mutex of a
  connection is held by the handler of a ready report between its two blocks, and the calls that need it
  wait. The handshake ends in \<open>publish_authenticated\<close>
  (its checks are the ones of the session authentication); whether a command could be sent is an argument, and
  so is the outcome of the instructor ticket's check. Audit records and telemetry authorisations are left out.

  Shown: an exam is only admitted for the connection that owns the client, on the strength of a fleet report
  that this very connection delivered and that still stands; an exam begins at most once between
  its start and its stop, and only after a ready report that matched it, or the exam it replaced while
  the report was handled.
\<close>

section \<open>Connections and clients\<close>

record connection =
  cn_source :: bytes
  cn_hello :: bytes
  cn_registry_id :: u64
  cn_authenticated :: bool

record active_exam = exam_context +
  ax_instructor_id :: bytes
  ax_instructor_authorized :: bool
  ax_ready :: bool
  ax_begun :: bool
  ax_server_start :: u64

record plane =
  pl_objects :: "(u64 \<times> connection) list"
  pl_states :: "u64 list"
  pl_client_connections :: "(u64 \<times> u64) list"
  pl_registry :: registry
  pl_exams :: "(u64 \<times> active_exam) list"
  pl_marking :: "u64 list"
  pl_next_uwf_operation_id :: u64

definition initial_plane :: plane where
  "initial_plane = \<lparr>pl_objects = [], pl_states = [], pl_client_connections = [], pl_registry = [], pl_exams = [], pl_marking = [],
     pl_next_uwf_operation_id = 1\<rparr>"

definition registry_id_for :: "bytes \<Rightarrow> u64" where
  "registry_id_for identity =
     (let hash = foldl (\<lambda>hash b. (hash XOR ucast b) * 1099511628211) 14695981039346656037 identity
      in if hash = 0 then 1 else hash)"

definition fallback_hostname :: "u64 \<Rightarrow> bytes" where
  "fallback_hostname registry_id =
     ascii ''Client-'' @ concat (map (\<lambda>n. format_octet False (ucast (drop_bit n registry_id))) [24, 16, 8, 0])"

definition on_connected :: "u64 \<Rightarrow> bytes \<Rightarrow> plane \<Rightarrow> plane" where
  "on_connected k source pl =
     (if map_of (pl_objects pl) k \<noteq> None then pl
      else pl\<lparr>pl_objects := pl_objects pl @ [(k, \<lparr>cn_source = source, cn_hello = replicate 16 0, cn_registry_id = 0,
                cn_authenticated = False\<rparr>)],
              pl_states := k # pl_states pl\<rparr>)"

text \<open>The hello of a connection that is not authenticated yet.\<close>

definition on_hello :: "u64 \<Rightarrow> bytes \<Rightarrow> plane \<Rightarrow> plane" where
  "on_hello k client_id pl =
     pl\<lparr>pl_objects := alist_modify k (\<lambda>c. if cn_authenticated c then c else c\<lparr>cn_hello := client_id\<rparr>) (pl_objects pl)\<rparr>"

definition is_live_state :: "u64 \<Rightarrow> plane \<Rightarrow> bool" where
  "is_live_state k pl \<longleftrightarrow> k \<in> set (pl_states pl)"

definition is_current_state :: "u64 \<Rightarrow> connection \<Rightarrow> plane \<Rightarrow> bool" where
  "is_current_state k c pl \<longleftrightarrow> is_live_state k pl \<and> cn_authenticated c \<and> cn_registry_id c \<noteq> 0 \<and>
     cn_registry_id c = registry_id_for (cn_hello c) \<and>
     map_of (pl_client_connections pl) (cn_registry_id c) = Some k"

text \<open>\<open>client_connections_[registry_id] = connection_id\<close>.\<close>

definition assign_connection :: "u64 \<Rightarrow> u64 \<Rightarrow> (u64 \<times> u64) list \<Rightarrow> (u64 \<times> u64) list" where
  "assign_connection registry_id k xs = alist_modify registry_id (\<lambda>_. k) (alist_emplace registry_id k xs)"

text \<open>The end of the handshake: the connection takes the client over. The result is the connection that had
  it before, which the caller disconnects.\<close>

definition publish_authenticated :: "time \<Rightarrow> u64 \<Rightarrow> plane \<Rightarrow> (u64 option) option \<times> plane" where
  "publish_authenticated now k pl =
     (case map_of (pl_objects pl) k of
        None \<Rightarrow> (None, pl)
      | Some c \<Rightarrow>
          let registry_id = registry_id_for (cn_hello c);
              r = default_client\<lparr>cl_id := registry_id, cl_hostname := fallback_hostname registry_id,
                    cl_address := cn_source c, cl_status := Online, cl_last_seen := now\<rparr> in
          if \<not> is_live_state k pl then (None, pl)
          else
            (Some (map_of (pl_client_connections pl) registry_id),
             pl\<lparr>pl_objects := alist_modify k (\<lambda>c. c\<lparr>cn_registry_id := registry_id, cn_authenticated := True\<rparr>) (pl_objects pl),
                pl_client_connections := assign_connection registry_id k (pl_client_connections pl),
                pl_registry := upsert r (snd (demote_uwf_verification registry_id now (pl_registry pl)))\<rparr>))"

definition on_disconnected :: "time \<Rightarrow> u64 \<Rightarrow> plane \<Rightarrow> plane" where
  "on_disconnected now k pl =
     (if \<not> is_live_state k pl then pl
      else
        let pl = pl\<lparr>pl_states := filter (\<lambda>x. x \<noteq> k) (pl_states pl)\<rparr> in
        case map_of (pl_objects pl) k of
          None \<Rightarrow> pl
        | Some c \<Rightarrow>
            let registry_id = cn_registry_id c in
            if registry_id \<noteq> 0 \<and> map_of (pl_client_connections pl) registry_id = Some k
            then pl\<lparr>pl_client_connections := alist_erase registry_id (pl_client_connections pl),
                    pl_registry := snd (demote_uwf_verification registry_id now
                      (snd (set_status registry_id Offline (pl_registry pl))))\<rparr>
            else pl)"

section \<open>Reports\<close>

definition mutate_current_registry :: "u64 \<Rightarrow> (u64 \<Rightarrow> registry \<Rightarrow> bool \<times> registry) \<Rightarrow> plane \<Rightarrow> bool \<times> plane" where
  "mutate_current_registry k mutation pl =
     (case map_of (pl_objects pl) k of
        None \<Rightarrow> (False, pl)
      | Some c \<Rightarrow>
          if \<not> is_current_state k c pl then (False, pl)
          else let (ok, reg) = mutation (cn_registry_id c) (pl_registry pl) in (ok, pl\<lparr>pl_registry := reg\<rparr>))"

datatype command =
    Heartbeat
  | Uwf_report bytes
  | Uwf_fleet_status bytes
  | Freeze_report bytes
  | Help_request bytes
  | Wol_report bytes
  | Fleet_metadata bytes
  | Status_report bytes
  | Snapshot_frame bytes

definition record_of_report :: "time \<Rightarrow> bytes \<Rightarrow> status_report \<Rightarrow> u64 \<Rightarrow> client_record" where
  "record_of_report now source r registry_id = default_client\<lparr>cl_id := registry_id, cl_hostname := sr_hostname r,
     cl_address := source, cl_status := (if sr_locked r then Locked else Online), cl_delivery := sr_delivery r,
     cl_latency_ms := sr_latency_ms r, cl_packet_loss_per_mille := sr_packet_loss_per_mille r,
     cl_packet_loss_sample_size := sr_packet_loss_sample_size r, cl_streaming := sr_streaming r,
     cl_snapshotting := sr_snapshotting r, cl_viewing_broadcast := sr_viewing_broadcast r,
     cl_frames_per_second := sr_frames_per_second r, cl_snapshot_interval_seconds := sr_snapshot_interval_seconds r,
     cl_last_seen := now\<rparr>"

definition connection_source :: "u64 \<Rightarrow> plane \<Rightarrow> bytes" where
  "connection_source k pl = (case map_of (pl_objects pl) k of None \<Rightarrow> [] | Some c \<Rightarrow> cn_source c)"

text \<open>The handlers of the authenticated reports: \<open>False\<close> means that the connection is closed.\<close>

definition process_heartbeat :: "time \<Rightarrow> u64 \<Rightarrow> plane \<Rightarrow> bool \<times> plane" where
  "process_heartbeat now k pl = (True, snd (mutate_current_registry k (\<lambda>rid. touch rid now) pl))"

definition process_uwf_report :: "time \<Rightarrow> u64 \<Rightarrow> bytes \<Rightarrow> plane \<Rightarrow> bool \<times> plane" where
  "process_uwf_report now k w pl =
     (case decode_uwf_configure_report w of
        None \<Rightarrow> (False, pl)
      | Some r \<Rightarrow> mutate_current_registry k (\<lambda>rid. set_uwf_report rid r now) pl)"

definition process_uwf_fleet_status :: "time \<Rightarrow> u64 \<Rightarrow> bytes \<Rightarrow> plane \<Rightarrow> bool \<times> plane" where
  "process_uwf_fleet_status now k w pl =
     (case decode_uwf_fleet_status_report w of
        None \<Rightarrow> (False, pl)
      | Some r \<Rightarrow> mutate_current_registry k (\<lambda>rid. set_uwf_fleet_status rid r now) pl)"

definition process_freeze_report :: "time \<Rightarrow> u64 \<Rightarrow> bytes \<Rightarrow> plane \<Rightarrow> bool \<times> plane" where
  "process_freeze_report now k w pl =
     (case decode_freeze_state w of
        None \<Rightarrow> (False, pl)
      | Some b \<Rightarrow> mutate_current_registry k (\<lambda>rid. set_frozen rid b now) pl)"

definition process_help_request :: "time \<Rightarrow> u64 \<Rightarrow> bytes \<Rightarrow> plane \<Rightarrow> bool \<times> plane" where
  "process_help_request now k w pl =
     (case decode_help_request w of
        None \<Rightarrow> (False, pl)
      | Some h \<Rightarrow> mutate_current_registry k
          (\<lambda>rid. set_help_request rid (hr_active h) (hr_message h) (hr_timestamp h) now) pl)"

definition process_wol_report :: "time \<Rightarrow> u64 \<Rightarrow> bytes \<Rightarrow> plane \<Rightarrow> bool \<times> plane" where
  "process_wol_report now k w pl =
     (case decode_wol_report w of
        None \<Rightarrow> (False, pl)
      | Some m \<Rightarrow> mutate_current_registry k (\<lambda>rid. set_wol_report rid (wr_mac m) (wr_support m) now) pl)"

definition process_fleet_metadata :: "time \<Rightarrow> u64 \<Rightarrow> bytes \<Rightarrow> plane \<Rightarrow> bool \<times> plane" where
  "process_fleet_metadata now k w pl =
     (case decode_fleet_metadata w of
        None \<Rightarrow> (False, pl)
      | Some m \<Rightarrow> mutate_current_registry k
          (\<lambda>rid. set_fleet_metadata rid (fd_client_version m) (fd_agent_connected m) now) pl)"

definition process_status_report :: "time \<Rightarrow> u64 \<Rightarrow> bytes \<Rightarrow> plane \<Rightarrow> bool \<times> plane" where
  "process_status_report now k w pl =
     (case decode_status_report w of
        None \<Rightarrow> (False, pl)
      | Some r \<Rightarrow> (True, snd (mutate_current_registry k
          (\<lambda>rid reg. (True, upsert (record_of_report now (connection_source k pl) r rid) reg)) pl)))"

definition process_snapshot_frame :: "time \<Rightarrow> u64 \<Rightarrow> bytes \<Rightarrow> plane \<Rightarrow> bool \<times> plane" where
  "process_snapshot_frame now k w pl =
     (case decode_snapshot_frame w of
        None \<Rightarrow> (False, pl)
      | Some f \<Rightarrow> mutate_current_registry k (\<lambda>rid. update_snapshot rid f now) pl)"

lemmas process_defs = process_heartbeat_def process_uwf_report_def process_uwf_fleet_status_def process_freeze_report_def
  process_help_request_def process_wol_report_def process_fleet_metadata_def process_status_report_def
  process_snapshot_frame_def

fun process_authenticated :: "time \<Rightarrow> u64 \<Rightarrow> command \<Rightarrow> plane \<Rightarrow> bool \<times> plane" where
  "process_authenticated now k Heartbeat pl = process_heartbeat now k pl"
| "process_authenticated now k (Uwf_report w) pl = process_uwf_report now k w pl"
| "process_authenticated now k (Uwf_fleet_status w) pl = process_uwf_fleet_status now k w pl"
| "process_authenticated now k (Freeze_report w) pl = process_freeze_report now k w pl"
| "process_authenticated now k (Help_request w) pl = process_help_request now k w pl"
| "process_authenticated now k (Wol_report w) pl = process_wol_report now k w pl"
| "process_authenticated now k (Fleet_metadata w) pl = process_fleet_metadata now k w pl"
| "process_authenticated now k (Status_report w) pl = process_status_report now k w pl"
| "process_authenticated now k (Snapshot_frame w) pl = process_snapshot_frame now k w pl"

text \<open>The operator's request: the result and the payload that was to be sent.\<close>

definition configure_uwf_fleet ::
  "u64 \<Rightarrow> bool \<Rightarrow> bool \<Rightarrow> time \<Rightarrow> bool \<Rightarrow> plane \<Rightarrow> (bool \<times> bytes) \<times> plane" where
  "configure_uwf_fleet client_id acknowledged restart now sent pl =
     (let operation_id = pl_next_uwf_operation_id pl;
          (recorded, reg) = begin_uwf_fleet_operation client_id operation_id restart now (pl_registry pl);
          pl = pl\<lparr>pl_next_uwf_operation_id := operation_id + 1, pl_registry := reg\<rparr>;
          w = encode_uwf_fleet_configure_request \<lparr>fr_operation_id = operation_id,
                fr_checkpoint_acknowledged = acknowledged, fr_restart_requested = restart\<rparr> in
      if \<not> recorded then ((False, []), pl)
      else if w = [] then ((False, []), pl)
      else ((sent, w), pl))"

section \<open>Exams\<close>

datatype start_error = Invalid_request | Not_authenticated | Ticket_rejected | Ticket_required | Not_encodable
  | Identity_mismatch | Not_protected | Already_active | Send_failed

definition state_for_client :: "u64 \<Rightarrow> plane \<Rightarrow> u64 option" where
  "state_for_client client_id pl =
     (case map_of (pl_client_connections pl) client_id of
        None \<Rightarrow> None
      | Some k \<Rightarrow> if is_live_state k pl then Some k else None)"

text \<open>\<open>ticket\<close> is the verdict on the instructor's ticket when there is one: \<open>Some\<close> instructor or rejected.\<close>

definition context_of :: "exam_start_request \<Rightarrow> bytes option option \<Rightarrow> active_exam" where
  "context_of r ticket = \<lparr>cx_client_id = es_client_id r, cx_package_digest = es_package_digest r,
     cx_session_id = es_session_id r, cx_package_id = es_package_id r, cx_candidate_id = es_candidate_id r,
     ax_instructor_id = (case ticket of Some (Some i) \<Rightarrow> i | _ \<Rightarrow> []),
     ax_instructor_authorized = (case ticket of Some (Some i) \<Rightarrow> True | _ \<Rightarrow> False),
     ax_ready = False, ax_begun = False, ax_server_start = 0\<rparr>"

text \<open>The checks before the locks are taken; they pick the connection.\<close>

definition start_exam_select ::
  "u64 \<Rightarrow> exam_start_request \<Rightarrow> bytes option option \<Rightarrow> bool \<Rightarrow> plane \<Rightarrow> start_error + u64" where
  "start_exam_select client_id r ticket require_ticket pl =
     (if \<not> validate_exam_start_request r then Inl Invalid_request
      else case state_for_client client_id pl of
        None \<Rightarrow> Inl Not_authenticated
      | Some k \<Rightarrow>
          if ticket = Some None then Inl Ticket_rejected
          else if ticket = None \<and> require_ticket then Inl Ticket_required
          else if encode_exam_start_request r = [] then Inl Not_encodable
          else Inr k)"

text \<open>The admission under the locks, for the connection picked before. \<open>dev\<close> is the compile-time switch of the
  unprotected development build.\<close>

definition start_exam_admit ::
  "bool \<Rightarrow> u64 \<Rightarrow> u64 \<Rightarrow> exam_start_request \<Rightarrow> bytes option option \<Rightarrow> bool \<Rightarrow> plane \<Rightarrow> start_error option \<times> plane" where
  "start_exam_admit dev k client_id r ticket sent pl =
     (case map_of (pl_objects pl) k of
        None \<Rightarrow> (Some Not_authenticated, pl)
      | Some c \<Rightarrow>
          if \<not> is_current_state k c pl \<or> cn_registry_id c \<noteq> client_id \<or> cn_hello c \<noteq> es_client_id r
          then (Some Identity_mismatch, pl)
          else
            let protection_proven = (case List.find (\<lambda>x. cl_id x = cn_registry_id c) (registry_snapshot (pl_registry pl)) of
                    None \<Rightarrow> False | Some x \<Rightarrow> proves_current_protection (cl_uwf x));
                inserted = ((protection_proven \<or> dev) \<and> map_of (pl_exams pl) (cn_registry_id c) = None);
                pl' = (if protection_proven \<or> dev
                       then pl\<lparr>pl_exams := alist_emplace (cn_registry_id c) (context_of r ticket) (pl_exams pl)\<rparr> else pl) in
            if \<not> protection_proven \<and> \<not> dev then (Some Not_protected, pl')
            else if \<not> inserted then (Some Already_active, pl')
            else if \<not> sent then (Some Send_failed, pl'\<lparr>pl_exams := alist_erase (cn_registry_id c) (pl_exams pl')\<rparr>)
            else (None, pl'))"

definition matches_ready :: "active_exam \<Rightarrow> exam_ready_report \<Rightarrow> bool" where
  "matches_ready x r \<longleftrightarrow> cx_client_id x = er_client_id r \<and> cx_package_digest x = er_package_digest r \<and>
     cx_session_id x = er_session_id r \<and> cx_package_id x = er_package_id r \<and> cx_candidate_id x = er_candidate_id r"

text \<open>The handler of a ready report. It compares the report with a copy of the context, taken under the mutex of
  the contexts, and takes that mutex again to set the flag: two steps, with the mutex of the connection
  held from the first to the second (\<open>pl_marking\<close>).\<close>

definition process_exam_ready :: "u64 \<Rightarrow> bytes \<Rightarrow> plane \<Rightarrow> bool \<times> plane" where
  "process_exam_ready k w pl =
     (case map_of (pl_objects pl) k of
        None \<Rightarrow> (False, pl)
      | Some c \<Rightarrow>
          (case (decode_exam_ready_report w,
                 if cn_registry_id c = 0 then None else map_of (pl_exams pl) (cn_registry_id c)) of
             (Some r, Some x) \<Rightarrow>
               if er_client_id r \<noteq> cn_hello c \<or> \<not> matches_ready x r then (False, pl)
               else (True, pl\<lparr>pl_marking := k # pl_marking pl\<rparr>)
           | _ \<Rightarrow> (False, pl)))"

definition mark_exam_ready :: "u64 \<Rightarrow> plane \<Rightarrow> plane" where
  "mark_exam_ready k pl =
     (if k \<notin> set (pl_marking pl) then pl
      else
        let pl = pl\<lparr>pl_marking := removeAll k (pl_marking pl)\<rparr> in
        case map_of (pl_objects pl) k of
          None \<Rightarrow> pl
        | Some c \<Rightarrow> pl\<lparr>pl_exams := alist_modify (cn_registry_id c) (\<lambda>x. x\<lparr>ax_ready := True\<rparr>) (pl_exams pl)\<rparr>)"

datatype begin_error = No_client | No_sequence | No_exam | Not_ready | Already_begun | Begin_not_encodable | Begin_not_sent

definition begin_command :: "active_exam \<Rightarrow> u64 \<Rightarrow> u32 \<Rightarrow> exam_begin_command" where
  "begin_command x start duration = \<lparr>eb_package_id = cx_package_id x, eb_candidate_id = cx_candidate_id x,
     eb_package_digest = cx_package_digest x, eb_client_id = cx_client_id x, eb_session_id = cx_session_id x,
     eb_start = start, eb_duration = duration\<rparr>"

text \<open>\<open>k\<close> is the connection that \<open>state_for_client\<close> gave; the begin command that is sent is part of the result.\<close>

definition begin_exam :: "u64 \<Rightarrow> u32 \<Rightarrow> u64 \<Rightarrow> bool \<Rightarrow> plane \<Rightarrow> (begin_error + exam_begin_command) \<times> plane" where
  "begin_exam k duration now_ms sent pl =
     (case map_of (pl_objects pl) k of
        None \<Rightarrow> (Inl No_client, pl)
      | Some c \<Rightarrow>
          if \<not> cn_authenticated c \<or> cn_registry_id c = 0 then (Inl No_sequence, pl)
          else case map_of (pl_exams pl) (cn_registry_id c) of
            None \<Rightarrow> (Inl No_exam, pl)
          | Some x \<Rightarrow>
              if \<not> ax_ready x then (Inl Not_ready, pl)
              else if ax_begun x then (Inl Already_begun, pl)
              else if encode_exam_begin_command (begin_command x now_ms duration) = [] then (Inl Begin_not_encodable, pl)
              else if \<not> sent then (Inl Begin_not_sent, pl)
              else (Inr (begin_command x now_ms duration),
                    pl\<lparr>pl_exams := alist_modify (cn_registry_id c)
                        (\<lambda>x. x\<lparr>ax_begun := True, ax_server_start := now_ms\<rparr>) (pl_exams pl)\<rparr>))"

definition stop_exam :: "u64 \<Rightarrow> bool \<Rightarrow> plane \<Rightarrow> bool \<times> plane" where
  "stop_exam k sent pl =
     (case map_of (pl_objects pl) k of
        None \<Rightarrow> (False, pl)
      | Some c \<Rightarrow>
          if \<not> cn_authenticated c \<or> cn_registry_id c = 0 then (False, pl)
          else if \<not> sent then (False, pl)
          else (True, pl\<lparr>pl_exams := alist_erase (cn_registry_id c) (pl_exams pl)\<rparr>))"

definition exam_active :: "u64 \<Rightarrow> plane \<Rightarrow> bool" where
  "exam_active registry_id pl \<longleftrightarrow> map_of (pl_exams pl) registry_id \<noteq> None"

definition ready_exam_clients :: "plane \<Rightarrow> u64 list" where
  "ready_exam_clients pl = map fst (filter (\<lambda>(registry_id, x). ax_ready x) (pl_exams pl))"

section \<open>Runs\<close>

text \<open>
  The steps of the server's threads in the order in which they take the locks. The handshake of a connection is
  completed once; an exam start is an admission for any connection picked before, whatever has happened since.
\<close>

datatype plane_event =
    Connected u64 bytes
  | Hello u64 bytes
  | Authenticated u64 time
  | Command u64 command time
  | Disconnected u64 time
  | Configure u64 bool bool time bool
  | Expire time time
  | Resolve_help u64 time
  | Start u64 u64 exam_start_request "bytes option option" bool
  | Ready u64 bytes
  | Ready_mark u64
  | Begin u64 u32 u64 bool
  | Stop u64 bool

definition handshake_done :: "u64 \<Rightarrow> plane \<Rightarrow> bool" where
  "handshake_done k pl = (case map_of (pl_objects pl) k of None \<Rightarrow> True | Some c \<Rightarrow> cn_authenticated c)"

fun plane_act :: "plane_event \<Rightarrow> plane \<Rightarrow> plane" where
  "plane_act (Connected k source) pl = on_connected k source pl"
| "plane_act (Hello k client_id) pl = on_hello k client_id pl"
| "plane_act (Authenticated k now) pl = (if handshake_done k pl then pl else snd (publish_authenticated now k pl))"
| "plane_act (Command k cmd now) pl = snd (process_authenticated now k cmd pl)"
| "plane_act (Disconnected k now) pl = on_disconnected now k pl"
| "plane_act (Configure cid ack restart now sent) pl = snd (configure_uwf_fleet cid ack restart now sent pl)"
| "plane_act (Expire now timeout) pl = pl\<lparr>pl_registry := snd (expire_clients now timeout (pl_registry pl))\<rparr>"
| "plane_act (Resolve_help cid now) pl = pl\<lparr>pl_registry := snd (set_help_request cid False [] 0 now (pl_registry pl))\<rparr>"
| "plane_act (Start k cid r ticket sent) pl = snd (start_exam_admit False k cid r ticket sent pl)"
| "plane_act (Ready k w) pl = snd (process_exam_ready k w pl)"
| "plane_act (Ready_mark k) pl = mark_exam_ready k pl"
| "plane_act (Begin k duration now_ms sent) pl = snd (begin_exam k duration now_ms sent pl)"
| "plane_act (Stop k sent) pl = snd (stop_exam k sent pl)"

text \<open>The events that take the mutex of a connection wait while its handler is between its two blocks.\<close>

fun needs_connection :: "plane_event \<Rightarrow> u64 option" where
  "needs_connection (Hello k _) = Some k"
| "needs_connection (Authenticated k _) = Some k"
| "needs_connection (Command k _ _) = Some k"
| "needs_connection (Start k _ _ _ _) = Some k"
| "needs_connection (Ready k _) = Some k"
| "needs_connection (Begin k _ _ _) = Some k"
| "needs_connection (Stop k _) = Some k"
| "needs_connection _ = None"

definition waits :: "plane_event \<Rightarrow> plane \<Rightarrow> bool" where
  "waits e pl = (case needs_connection e of None \<Rightarrow> False | Some k \<Rightarrow> k \<in> set (pl_marking pl))"

definition plane_step :: "plane_event \<Rightarrow> plane \<Rightarrow> plane" where
  "plane_step e pl = (if waits e pl then pl else plane_act e pl)"

definition plane_run :: "plane_event list \<Rightarrow> plane" where
  "plane_run es = fold plane_step es initial_plane"

lemma plane_run_snoc: "plane_run (es @ [e]) = plane_step e (plane_run es)"
  by (simp add: plane_run_def)

definition owner :: "plane \<Rightarrow> u64 \<Rightarrow> u64 option" where
  "owner pl cid = map_of (pl_client_connections pl) cid"

definition current_for :: "u64 \<Rightarrow> u64 \<Rightarrow> plane \<Rightarrow> bool" where
  "current_for k cid pl \<longleftrightarrow> (\<exists>c. map_of (pl_objects pl) k = Some c \<and> is_current_state k c pl \<and> cn_registry_id c = cid)"

section \<open>The registry keeps its keys\<close>

definition registry_ok :: "registry \<Rightarrow> bool" where
  "registry_ok reg \<longleftrightarrow> distinct (map fst reg) \<and> alist_all (\<lambda>k c. cl_id c = k) reg"

lemma registry_ok_modify: "registry_ok reg \<Longrightarrow> (\<And>c. cl_id (f c) = cl_id c) \<Longrightarrow> registry_ok (alist_modify k f reg)"
  by (auto simp: registry_ok_def intro: alist_all_modify)

lemma registry_ok_with: "registry_ok reg \<Longrightarrow> (\<And>c. cl_id (f c) = cl_id c) \<Longrightarrow> registry_ok (snd (with_client k f reg))"
  by (simp add: with_client_def registry_ok_modify)

lemma cl_id_carry_over [simp]: "cl_id (carry_over e r) = cl_id r"
  by (simp add: carry_over_def Let_def)

lemma registry_ok_upsert: "registry_ok reg \<Longrightarrow> registry_ok (upsert r reg)"
  by (auto simp: upsert_def registry_ok_def intro: alist_all_emplace alist_all_modify split: option.splits)

lemma registry_ok_setters:
  assumes "registry_ok reg"
  shows "registry_ok (snd (set_status k st reg))" "registry_ok (snd (set_frozen k b now reg))"
    "registry_ok (snd (set_help_request k b m ts now reg))" "registry_ok (snd (set_wol_report k mac wol now reg))"
    "registry_ok (snd (set_fleet_metadata k v b now reg))" "registry_ok (snd (touch k now reg))"
    "registry_ok (snd (update_snapshot k fr now reg))" "registry_ok (snd (set_uwf_report k cr now reg))"
    "registry_ok (snd (set_uwf_fleet_status k fs now reg))"
    "registry_ok (snd (begin_uwf_fleet_operation k oid rr now reg))"
    "registry_ok (snd (demote_uwf_verification k now reg))" "registry_ok (snd (expire_clients now timeout reg))"
  using assms
  by (simp_all add: set_status_def set_frozen_def set_help_request_def set_wol_report_def set_fleet_metadata_def
      touch_def update_snapshot_def set_uwf_report_def set_uwf_fleet_status_def begin_uwf_fleet_operation_def
      registry_ok_with)
    (auto simp: demote_uwf_verification_def registry_ok_modify split: option.splits,
     auto simp: expire_clients_def registry_ok_def alist_all_def expire_client_def split_beta comp_def)

section \<open>Ownership\<close>

definition plane_inv :: "plane \<Rightarrow> bool" where
  "plane_inv pl \<longleftrightarrow> registry_ok (pl_registry pl) \<and>
     (\<forall>cid k. owner pl cid = Some k \<longrightarrow> current_for k cid pl) \<and>
     (\<forall>cid. proven (pl_registry pl) cid \<longrightarrow> owner pl cid \<noteq> None)"

text \<open>A step that changes no connection and creates no proof, or only for a client that has an owner.\<close>

lemma plane_inv_frame:
  assumes "plane_inv pl" "pl_objects pl' = pl_objects pl" "pl_states pl' = pl_states pl"
    "pl_client_connections pl' = pl_client_connections pl" "registry_ok (pl_registry pl')"
    "\<And>cid. proven (pl_registry pl') cid \<Longrightarrow> proven (pl_registry pl) cid \<or> owner pl cid \<noteq> None"
  shows "plane_inv pl'"
  using assms unfolding plane_inv_def owner_def current_for_def is_current_state_def is_live_state_def by metis

lemma owner_assign:
  "map_of (assign_connection rid k xs) cid = (if cid = rid then Some k else map_of xs cid)"
  by (auto simp: assign_connection_def split: option.splits)

lemma plane_inv_connected: "plane_inv pl \<Longrightarrow> plane_inv (on_connected k source pl)"
proof -
  assume inv: "plane_inv pl"
  show ?thesis
  proof (cases "map_of (pl_objects pl) k")
    case None
    have "current_for k' cid (on_connected k source pl)" if c: "current_for k' cid pl" for k' cid
    proof -
      obtain c where "map_of (pl_objects pl) k' = Some c" "is_current_state k' c pl" "cn_registry_id c = cid"
        using c by (auto simp: current_for_def)
      then show ?thesis
        using None by (auto simp: current_for_def on_connected_def is_current_state_def is_live_state_def map_add_def
            split: option.splits)
    qed
    then show ?thesis
      using inv None by (auto simp: plane_inv_def owner_def on_connected_def)
  qed (use inv in \<open>simp add: on_connected_def\<close>)
qed

lemma plane_inv_hello: "plane_inv pl \<Longrightarrow> plane_inv (on_hello k client_id pl)"
proof -
  assume inv: "plane_inv pl"
  have "current_for k' cid (on_hello k client_id pl)" if c: "current_for k' cid pl" for k' cid
    using c by (auto simp: current_for_def on_hello_def is_current_state_def is_live_state_def)
  then show ?thesis using inv by (auto simp: plane_inv_def owner_def on_hello_def)
qed

lemma registry_id_for_nonzero [simp]: "registry_id_for c \<noteq> 0"
  by (simp add: registry_id_for_def Let_def)

lemma default_client_uwf [simp]: "cl_uwf default_client = default_uwf"
  by (simp add: default_client_def)

lemma published:
  assumes "map_of (pl_objects pl) k = Some c" "is_live_state k pl"
  shows "pl_objects (snd (publish_authenticated now k pl)) = alist_modify k
       (\<lambda>c'. c'\<lparr>cn_registry_id := registry_id_for (cn_hello c), cn_authenticated := True\<rparr>) (pl_objects pl)"
    "pl_states (snd (publish_authenticated now k pl)) = pl_states pl"
    "owner (snd (publish_authenticated now k pl)) cid =
       (if cid = registry_id_for (cn_hello c) then Some k else owner pl cid)"
    "proven (pl_registry (snd (publish_authenticated now k pl))) cid \<longleftrightarrow>
       cid \<noteq> registry_id_for (cn_hello c) \<and> proven (pl_registry pl) cid"
    "pl_exams (snd (publish_authenticated now k pl)) = pl_exams pl"
    "registry_ok (pl_registry pl) \<Longrightarrow> registry_ok (pl_registry (snd (publish_authenticated now k pl)))"
  using assms by (simp_all add: publish_authenticated_def Let_def owner_def owner_assign proven_upsert proven_demote
      registry_ok_upsert registry_ok_setters)

lemma plane_inv_published:
  assumes inv: "plane_inv pl" and new: "\<not> handshake_done k pl"
  shows "plane_inv (snd (publish_authenticated now k pl))"
proof (cases "is_live_state k pl")
  case True
  obtain c where c: "map_of (pl_objects pl) k = Some c" "\<not> cn_authenticated c"
    using new by (auto simp: handshake_done_def split: option.splits)
  note P = published[OF c(1) True]
  have "current_for k' cid (snd (publish_authenticated now k pl))"
    if o: "owner (snd (publish_authenticated now k pl)) cid = Some k'" for k' cid
  proof (cases "cid = registry_id_for (cn_hello c)")
    case True
    then have k': "k' = k" using o P(3) by simp
    have "current_for k cid (snd (publish_authenticated now k pl))"
      using c \<open>is_live_state k pl\<close> True P(2) P(3)[of now cid]
      by (auto simp: current_for_def P(1) is_current_state_def is_live_state_def owner_def)
    then show ?thesis using k' by simp
  next
    case False
    then have old: "owner pl cid = Some k'" using o P(3) by simp
    then obtain c' where c': "map_of (pl_objects pl) k' = Some c'" "is_current_state k' c' pl" "cn_registry_id c' = cid"
      using inv by (auto simp: plane_inv_def current_for_def)
    then have "k' \<noteq> k" using c by (auto simp: is_current_state_def)
    then show ?thesis
      using c' o P(2) by (auto simp: current_for_def P(1) is_current_state_def is_live_state_def owner_def)
  qed
  then show ?thesis using inv P(4,6) P(3)[of now] by (auto simp: plane_inv_def)
next
  case False
  then show ?thesis using inv by (auto simp: publish_authenticated_def Let_def split: option.splits)
qed

lemma disconnected:
  "owner (on_disconnected now k pl) cid = (if current_owner then None else owner pl cid)"
  "proven (pl_registry (on_disconnected now k pl)) cid \<longleftrightarrow> \<not> current_owner \<and> proven (pl_registry pl) cid"
  if inv: "plane_inv pl" and co: "current_owner = (owner pl cid = Some k)"
proof -
  have cur: "is_live_state k pl \<and> (\<exists>c. map_of (pl_objects pl) k = Some c \<and> cn_registry_id c = cid \<and> cid \<noteq> 0)"
    if "owner pl cid = Some k"
    using inv that by (auto simp: plane_inv_def current_for_def is_current_state_def)
  show "owner (on_disconnected now k pl) cid = (if current_owner then None else owner pl cid)"
    "proven (pl_registry (on_disconnected now k pl)) cid \<longleftrightarrow> \<not> current_owner \<and> proven (pl_registry pl) cid"
    using cur unfolding co
    by (auto simp: on_disconnected_def owner_def Let_def proven_demote split: option.splits)
qed

lemma disconnected_frame:
  "pl_objects (on_disconnected now k pl) = pl_objects pl" "pl_exams (on_disconnected now k pl) = pl_exams pl"
  "is_live_state k' (on_disconnected now k pl) \<longleftrightarrow> k' \<noteq> k \<and> is_live_state k' pl"
  "registry_ok (pl_registry pl) \<Longrightarrow> registry_ok (pl_registry (on_disconnected now k pl))"
  by (auto simp: on_disconnected_def is_live_state_def Let_def registry_ok_setters split: option.splits)

lemma plane_inv_disconnected:
  assumes inv: "plane_inv pl"
  shows "plane_inv (on_disconnected now k pl)"
proof -
  have "current_for k' cid (on_disconnected now k pl)" if o: "owner (on_disconnected now k pl) cid = Some k'" for k' cid
  proof -
    have old: "owner pl cid = Some k'" "k' \<noteq> k" using o disconnected(1)[OF inv refl] by (auto split: if_splits)
    then have "current_for k' cid pl" using inv by (simp add: plane_inv_def)
    then show ?thesis
      using o old by (auto simp: current_for_def is_current_state_def disconnected_frame owner_def)
  qed
  then show ?thesis
    using inv disconnected[OF inv refl] disconnected_frame(4) by (auto simp: plane_inv_def split: if_splits)
qed

section \<open>Reports and operations\<close>

lemma mutated_frame [simp]:
  "pl_objects (snd (mutate_current_registry k f pl)) = pl_objects pl"
  "pl_states (snd (mutate_current_registry k f pl)) = pl_states pl"
  "pl_client_connections (snd (mutate_current_registry k f pl)) = pl_client_connections pl"
  "pl_exams (snd (mutate_current_registry k f pl)) = pl_exams pl"
  by (auto simp: mutate_current_registry_def split: option.splits prod.splits)

lemma mutated_ok:
  assumes "registry_ok (pl_registry pl)" "\<And>rid reg. registry_ok reg \<Longrightarrow> registry_ok (snd (f rid reg))"
  shows "registry_ok (pl_registry (snd (mutate_current_registry k f pl)))"
  using assms by (auto simp: mutate_current_registry_def split: option.splits prod.splits) (metis snd_conv)

lemma mutated_proven_same:
  assumes "\<And>rid reg. proven (snd (f rid reg)) cid = proven reg cid"
  shows "proven (pl_registry (snd (mutate_current_registry k f pl))) cid = proven (pl_registry pl) cid"
proof (cases "map_of (pl_objects pl) k")
  case (Some c)
  then show ?thesis
    using assms[of "cn_registry_id c" "pl_registry pl"] by (auto simp: mutate_current_registry_def split: prod.splits)
qed (simp add: mutate_current_registry_def)

lemma mutated_proven:
  assumes "proven (pl_registry (snd (mutate_current_registry k f pl))) cid" "\<not> proven (pl_registry pl) cid"
  shows "\<exists>c. map_of (pl_objects pl) k = Some c \<and> is_current_state k c pl \<and>
           proven (snd (f (cn_registry_id c) (pl_registry pl))) cid"
  using assms by (auto simp: mutate_current_registry_def split: option.splits if_splits prod.splits)

lemma command_frame [simp]:
  "pl_objects (snd (process_authenticated now k cmd pl)) = pl_objects pl"
  "pl_states (snd (process_authenticated now k cmd pl)) = pl_states pl"
  "pl_client_connections (snd (process_authenticated now k cmd pl)) = pl_client_connections pl"
  "pl_exams (snd (process_authenticated now k cmd pl)) = pl_exams pl"
  by (cases cmd; simp add: process_defs split: option.splits)+

lemma command_ok:
  assumes "registry_ok (pl_registry pl)"
  shows "registry_ok (pl_registry (snd (process_authenticated now k cmd pl)))"
  using assms
  by (cases cmd) (auto simp: process_defs registry_ok_setters registry_ok_upsert intro!: mutated_ok split: option.splits)

text \<open>The only command that creates a proof.\<close>

lemma command_proves:
  assumes "proven (pl_registry (snd (process_authenticated now k cmd pl))) cid" "\<not> proven (pl_registry pl) cid"
  obtains w report u where "cmd = Uwf_fleet_status w" "decode_uwf_fleet_status_report w = Some report"
    "current_for k cid pl" "map_option cl_uwf (map_of (pl_registry pl) cid) = Some u" "shows_protection report u"
proof (cases cmd)
  case (Uwf_fleet_status w)
  then obtain report where r: "decode_uwf_fleet_status_report w = Some report"
    using assms by (auto simp: process_defs split: option.splits)
  then obtain c where c: "map_of (pl_objects pl) k = Some c" "is_current_state k c pl"
    "proven (snd (set_uwf_fleet_status (cn_registry_id c) report now (pl_registry pl))) cid"
    using assms Uwf_fleet_status mutated_proven by (fastforce simp: process_defs)
  then obtain x where x: "cn_registry_id c = cid" "map_of (pl_registry pl) cid = Some x"
    "shows_protection report (cl_uwf x)"
    using assms(2) unfolding proven_status by (auto simp: proven_def split: if_splits option.splits)
  show thesis by (rule that[OF Uwf_fleet_status r, of "cl_uwf x"]) (use c x in \<open>auto simp: current_for_def\<close>)
next
  case (Uwf_report w)
  then have "proven (pl_registry pl) cid"
    using assms by (auto simp: process_defs proven_uwf_report split: option.splits dest!: mutated_proven[OF _ assms(2)])
  then show thesis using assms(2) by simp
next
  case (Status_report w)
  then have "proven (pl_registry pl) cid"
    using assms
    by (auto simp: process_defs proven_upsert record_of_report_def split: option.splits dest!: mutated_proven[OF _ assms(2)])
  then show thesis using assms(2) by simp
qed (use assms mutated_proven_same[of _ cid k pl] in \<open>auto simp: process_defs split: option.splits\<close>)

section \<open>Steps that concern exams\<close>

lemma exam_frames [simp]:
  "pl_objects (snd (start_exam_admit dev k cid r t sent pl)) = pl_objects pl"
  "pl_states (snd (start_exam_admit dev k cid r t sent pl)) = pl_states pl"
  "pl_client_connections (snd (start_exam_admit dev k cid r t sent pl)) = pl_client_connections pl"
  "pl_registry (snd (start_exam_admit dev k cid r t sent pl)) = pl_registry pl"
  "pl_objects (snd (process_exam_ready k w pl)) = pl_objects pl"
  "pl_states (snd (process_exam_ready k w pl)) = pl_states pl"
  "pl_client_connections (snd (process_exam_ready k w pl)) = pl_client_connections pl"
  "pl_registry (snd (process_exam_ready k w pl)) = pl_registry pl"
  "pl_exams (snd (process_exam_ready k w pl)) = pl_exams pl"
  "pl_objects (mark_exam_ready k pl) = pl_objects pl"
  "pl_states (mark_exam_ready k pl) = pl_states pl"
  "pl_client_connections (mark_exam_ready k pl) = pl_client_connections pl"
  "pl_registry (mark_exam_ready k pl) = pl_registry pl"
  "pl_objects (snd (begin_exam k du nw sent pl)) = pl_objects pl"
  "pl_states (snd (begin_exam k du nw sent pl)) = pl_states pl"
  "pl_client_connections (snd (begin_exam k du nw sent pl)) = pl_client_connections pl"
  "pl_registry (snd (begin_exam k du nw sent pl)) = pl_registry pl"
  "pl_objects (snd (stop_exam k sent pl)) = pl_objects pl"
  "pl_states (snd (stop_exam k sent pl)) = pl_states pl"
  "pl_client_connections (snd (stop_exam k sent pl)) = pl_client_connections pl"
  "pl_registry (snd (stop_exam k sent pl)) = pl_registry pl"
  by (auto simp: start_exam_admit_def process_exam_ready_def mark_exam_ready_def begin_exam_def stop_exam_def Let_def
      split: option.splits)

lemma configure_frame [simp]:
  "pl_objects (snd (configure_uwf_fleet cid ack rr now sent pl)) = pl_objects pl"
  "pl_states (snd (configure_uwf_fleet cid ack rr now sent pl)) = pl_states pl"
  "pl_client_connections (snd (configure_uwf_fleet cid ack rr now sent pl)) = pl_client_connections pl"
  "pl_exams (snd (configure_uwf_fleet cid ack rr now sent pl)) = pl_exams pl"
  "pl_registry (snd (configure_uwf_fleet cid ack rr now sent pl)) =
     snd (begin_uwf_fleet_operation cid (pl_next_uwf_operation_id pl) rr now (pl_registry pl))"
  by (simp_all add: configure_uwf_fleet_def Let_def split_beta)

text \<open>What one step does to a proof: only a fleet report of the owner creates it, and while it stands the
  client keeps its owner.\<close>

lemma act_proof_created:
  assumes "proven (pl_registry (plane_act e pl)) cid" "\<not> proven (pl_registry pl) cid" "plane_inv pl"
  obtains k w now report u where "e = Command k (Uwf_fleet_status w) now"
    "decode_uwf_fleet_status_report w = Some report" "current_for k cid pl"
    "map_option cl_uwf (map_of (pl_registry pl) cid) = Some u" "shows_protection report u"
proof (cases e)
  case (Command k cmd now)
  then have "proven (pl_registry (snd (process_authenticated now k cmd pl))) cid" using assms(1) by simp
  from command_proves[OF this assms(2)] obtain w report u where
    "cmd = Uwf_fleet_status w" "decode_uwf_fleet_status_report w = Some report"
    "current_for k cid pl" "map_option cl_uwf (map_of (pl_registry pl) cid) = Some u" "shows_protection report u" .
  then show thesis using Command by (intro that) auto
next
  case (Authenticated k now)
  have "proven (pl_registry (snd (publish_authenticated now k pl))) cid \<Longrightarrow> proven (pl_registry pl) cid"
  proof (cases "map_of (pl_objects pl) k")
    case (Some c)
    then show "proven (pl_registry (snd (publish_authenticated now k pl))) cid \<Longrightarrow> ?thesis"
      using published(4)[OF Some] by (cases "is_live_state k pl") (auto simp: publish_authenticated_def Let_def)
  qed (simp add: publish_authenticated_def)
  then show thesis using assms(1,2) Authenticated by (simp split: if_splits)
next
  case (Disconnected k now)
  then show thesis using assms disconnected(2)[OF assms(3) refl] by auto
next
  case (Configure c a r n s)
  then show thesis using assms(1,2) by (auto dest: proven_begin_operation)
next
  case (Expire now timeout)
  then show thesis using assms(1,2) by (auto dest: proven_expire)
qed (use assms(1,2) in \<open>auto simp: on_connected_def on_hello_def split: if_splits\<close>)

lemma act_owner_kept:
  assumes "proven (pl_registry (plane_act e pl)) cid" "plane_inv pl" "proven (pl_registry pl) cid"
  shows "owner (plane_act e pl) cid = owner pl cid"
proof (cases e)
  case (Authenticated k now)
  show ?thesis
  proof (cases "\<not> handshake_done k pl \<and> is_live_state k pl")
    case True
    then obtain c where "map_of (pl_objects pl) k = Some c" by (auto simp: handshake_done_def split: option.splits)
    then show ?thesis using published(3,4)[of pl k c] True assms(1) Authenticated by auto
  next
    case False
    then show ?thesis using Authenticated by (auto simp: publish_authenticated_def Let_def split: option.splits)
  qed
next
  case (Disconnected k now)
  then show ?thesis using assms(1) disconnected[OF assms(2) refl] by auto
qed (auto simp: owner_def on_connected_def on_hello_def)

lemma plane_inv_act:
  assumes inv: "plane_inv pl"
  shows "plane_inv (plane_act e pl)"
proof -
  have ok: "registry_ok (pl_registry pl)" using inv by (simp add: plane_inv_def)
  show ?thesis
  proof (cases e)
    case (Command k cmd now)
    have o: "owner pl cid \<noteq> None" if "current_for k cid pl" for cid
      using that by (auto simp: current_for_def is_current_state_def owner_def)
    show ?thesis unfolding Command plane_act.simps
    proof (rule plane_inv_frame[OF inv])
      fix cid
      assume "proven (pl_registry (snd (process_authenticated now k cmd pl))) cid"
      then show "proven (pl_registry pl) cid \<or> owner pl cid \<noteq> None" using command_proves o by metis
    qed (use ok in \<open>simp_all add: command_ok\<close>)
  next
    case (Configure c a r n s)
    show ?thesis unfolding Configure plane_act.simps
      by (rule plane_inv_frame[OF inv]) (use ok in \<open>auto simp: registry_ok_setters dest: proven_begin_operation\<close>)
  next
    case (Expire now timeout)
    show ?thesis unfolding Expire plane_act.simps
      by (rule plane_inv_frame[OF inv]) (use ok in \<open>auto simp: registry_ok_setters dest: proven_expire\<close>)
  next
    case (Resolve_help c now)
    show ?thesis unfolding Resolve_help plane_act.simps
      by (rule plane_inv_frame[OF inv]) (use ok in \<open>auto simp: registry_ok_setters\<close>)
  qed (use inv ok in \<open>auto simp: plane_inv_connected plane_inv_hello plane_inv_published plane_inv_disconnected
         intro: plane_inv_frame\<close>)
qed

lemma proof_created:
  assumes "proven (pl_registry (plane_step e pl)) cid" "\<not> proven (pl_registry pl) cid" "plane_inv pl"
  obtains k w now report u where "e = Command k (Uwf_fleet_status w) now"
    "decode_uwf_fleet_status_report w = Some report" "current_for k cid pl"
    "map_option cl_uwf (map_of (pl_registry pl) cid) = Some u" "shows_protection report u"
  using assms act_proof_created[of e pl cid thesis] by (auto simp: plane_step_def split: if_splits)

lemma owner_kept:
  "proven (pl_registry (plane_step e pl)) cid \<Longrightarrow> plane_inv pl \<Longrightarrow> proven (pl_registry pl) cid \<Longrightarrow>
   owner (plane_step e pl) cid = owner pl cid"
  using act_owner_kept[of e pl cid] by (cases "waits e pl") (simp_all add: plane_step_def)

lemma plane_inv_step: "plane_inv pl \<Longrightarrow> plane_inv (plane_step e pl)"
  using plane_inv_act by (simp add: plane_step_def)

interpretation plane_machine: machine plane_step plane_inv
  by unfold_locales (rule plane_inv_step)

lemma plane_inv_run: "plane_inv (plane_run es)"
proof -
  have "plane_inv initial_plane"
    by (simp add: plane_inv_def initial_plane_def registry_ok_def alist_all_def owner_def proven_def)
  then show ?thesis unfolding plane_run_def by (rule plane_machine.run_inv)
qed

section \<open>Admission\<close>

text \<open>The proof of a client, traced back to the report that created it.\<close>

definition stands_since :: "plane_event list \<Rightarrow> u64 \<Rightarrow> u64 \<Rightarrow> plane_event list \<Rightarrow> bytes \<Rightarrow> time \<Rightarrow> plane_event list \<Rightarrow> bool" where
  "stands_since es k cid xs w now ys \<longleftrightarrow> es = xs @ Command k (Uwf_fleet_status w) now # ys \<and> current_for k cid (plane_run xs) \<and>
     (\<forall>i \<le> length ys. current_for k cid (plane_run (xs @ Command k (Uwf_fleet_status w) now # take i ys)) \<and>
        proven (pl_registry (plane_run (xs @ Command k (Uwf_fleet_status w) now # take i ys))) cid)"

lemma current_for_owner: "current_for k cid pl \<Longrightarrow> owner pl cid = Some k"
  by (auto simp: current_for_def is_current_state_def owner_def)

lemma proof_stands:
  assumes "proven (pl_registry (plane_run es)) cid"
  shows "\<exists>k xs w now ys report u. stands_since es k cid xs w now ys \<and> decode_uwf_fleet_status_report w = Some report \<and>
    map_option cl_uwf (map_of (pl_registry (plane_run xs)) cid) = Some u \<and> shows_protection report u"
  using assms
proof (induction es rule: rev_induct)
  case Nil
  then show ?case by (simp add: plane_run_def initial_plane_def proven_def)
next
  case (snoc e es)
  have after: "proven (pl_registry (plane_step e (plane_run es))) cid" using snoc.prems by (simp add: plane_run_snoc)
  have inv: "plane_inv (plane_run es)" "plane_inv (plane_step e (plane_run es))"
    using plane_inv_run plane_inv_step by blast+
  show ?case
  proof (cases "proven (pl_registry (plane_run es)) cid")
    case True
    from snoc.IH[OF this] obtain k xs w now ys report u where s: "stands_since es k cid xs w now ys"
      and r: "decode_uwf_fleet_status_report w = Some report"
        "map_option cl_uwf (map_of (pl_registry (plane_run xs)) cid) = Some u" "shows_protection report u" by blast
    have "owner (plane_run es) cid = Some k"
      using s[unfolded stands_since_def] by (auto intro!: current_for_owner dest!: spec[of _ "length ys"])
    then have "current_for k cid (plane_step e (plane_run es))"
      using owner_kept[OF after inv(1) True] inv(2) by (auto simp: plane_inv_def)
    then have "stands_since (es @ [e]) k cid xs w now (ys @ [e])"
      using s after plane_run_snoc[of es e] unfolding stands_since_def by (auto simp: le_Suc_eq)
    then show ?thesis using r by blast
  next
    case False
    from proof_created[OF after False inv(1)] obtain k w now report u where e: "e = Command k (Uwf_fleet_status w) now"
      and r: "decode_uwf_fleet_status_report w = Some report" "current_for k cid (plane_run es)"
        "map_option cl_uwf (map_of (pl_registry (plane_run es)) cid) = Some u" "shows_protection report u" .
    have "current_for k cid (plane_step e (plane_run es))"
      using r(2) unfolding e
      by (auto simp: plane_step_def current_for_def is_current_state_def is_live_state_def simp del: process_authenticated.simps)
    then have "stands_since (es @ [e]) k cid es w now []"
      using r(2) after plane_run_snoc[of es e] by (simp add: stands_since_def e)
    then show ?thesis using r by blast
  qed
qed

lemma admitted_proven:
  assumes "start_exam_admit False k cid r ticket sent pl = (None, pl')" "plane_inv pl"
  shows "proven (pl_registry pl) cid" "current_for k cid pl" "registry_id_for (es_client_id r) = cid"
proof -
  obtain c where c: "map_of (pl_objects pl) k = Some c" "is_current_state k c pl" "cn_registry_id c = cid"
      "cn_hello c = es_client_id r"
    and p: "case List.find (\<lambda>x. cl_id x = cid) (registry_snapshot (pl_registry pl)) of None \<Rightarrow> False
            | Some x \<Rightarrow> proves_current_protection (cl_uwf x)"
    using assms(1) by (auto simp: start_exam_admit_def Let_def split: option.splits if_splits)
  have "List.find (\<lambda>x. cl_id x = cid) (registry_snapshot (pl_registry pl)) = map_of (pl_registry pl) cid"
    using assms(2) by (intro snapshot_lookup) (simp_all add: plane_inv_def registry_ok_def)
  then show "proven (pl_registry pl) cid" using p by (simp add: proven_def)
  show "current_for k cid pl" using c by (auto simp: current_for_def)
  show "registry_id_for (es_client_id r) = cid" using c by (auto simp: is_current_state_def)
qed

text \<open>C2. An exam starts only on a machine that has shown, in the session it is running, that it is protected.
  Take any interleaving of connections, handshakes, reports, operator requests and disconnects. If the server
  then admits an exam for a client on a connection, that connection owns the client and has itself delivered a
  well-formed fleet status report that claims current protection with a matching probe, from a boot that is not the
  one the filter was armed in when a restart is due; and from that report on, at every point until the
  admission, the same connection has owned the client and the proof has stood: no other connection took the client over,
  it was not disconnected, and no new operation or report revoked the proof in between.\<close>

theorem exam_needs_standing_proof:
  assumes "start_exam_admit False k cid r ticket sent (plane_run es) = (None, pl')"
  shows "registry_id_for (es_client_id r) = cid \<and>
    (\<exists>xs w now ys report u. stands_since es k cid xs w now ys \<and> decode_uwf_fleet_status_report w = Some report \<and>
       map_option cl_uwf (map_of (pl_registry (plane_run xs)) cid) = Some u \<and> shows_protection report u)"
proof -
  note A = admitted_proven[OF assms plane_inv_run]
  from proof_stands[OF A(1)] obtain k' xs w now ys report u where s: "stands_since es k' cid xs w now ys"
    and r: "decode_uwf_fleet_status_report w = Some report"
      "map_option cl_uwf (map_of (pl_registry (plane_run xs)) cid) = Some u" "shows_protection report u" by blast
  have "owner (plane_run es) cid = Some k'"
    using s[unfolded stands_since_def] by (auto intro!: current_for_owner dest!: spec[of _ "length ys"])
  then have "k' = k" using current_for_owner[OF A(2)] by simp
  then show ?thesis using s r A(3) by blast
qed

section \<open>Contexts and reports\<close>

definition registry_id_of :: "u64 \<Rightarrow> plane \<Rightarrow> u64" where
  "registry_id_of k pl = (case map_of (pl_objects pl) k of None \<Rightarrow> 0 | Some c \<Rightarrow> cn_registry_id c)"

text \<open>Two states of the context of one exam.\<close>

definition same_exam :: "active_exam \<Rightarrow> active_exam \<Rightarrow> bool" where
  "same_exam x y \<longleftrightarrow> cx_client_id x = cx_client_id y \<and> cx_package_digest x = cx_package_digest y \<and>
     cx_session_id x = cx_session_id y \<and> cx_package_id x = cx_package_id y \<and> cx_candidate_id x = cx_candidate_id y"

lemma same_exam_refl [simp]: "same_exam x x"
  by (simp add: same_exam_def)

lemma matches_same: "same_exam x y \<Longrightarrow> matches_ready y r = matches_ready x r"
  by (simp add: same_exam_def matches_ready_def)

text \<open>What a step does to the context of a client: it stays, or a stop removes it.\<close>

lemma act_context:
  assumes "map_of (pl_exams pl) rid = Some x"
  shows "(\<exists>y. map_of (pl_exams (plane_act e pl)) rid = Some y \<and> same_exam x y \<and> (ax_begun x \<longrightarrow> ax_begun y)) \<or>
    (\<exists>h. e = Stop h True \<and> registry_id_of h pl = rid)"
proof (cases e)
  case (Stop k sent)
  then show ?thesis using assms
    by (auto simp: stop_exam_def registry_id_of_def split: option.splits if_splits)
next
  case (Start k c r t sent)
  then show ?thesis using assms by (auto simp: start_exam_admit_def Let_def split: option.splits)
next
  case (Ready_mark k)
  then show ?thesis using assms by (auto simp: mark_exam_ready_def Let_def same_exam_def split: option.splits)
next
  case (Begin k du nw sent)
  then show ?thesis using assms by (auto simp: begin_exam_def same_exam_def split: option.splits)
next
  case (Authenticated k now)
  have "pl_exams (snd (publish_authenticated now k pl)) = pl_exams pl"
    by (auto simp: publish_authenticated_def Let_def split: option.splits)
  then show ?thesis using assms Authenticated by simp
qed (use assms in \<open>auto simp: on_connected_def on_hello_def disconnected_frame split: if_splits\<close>)

lemma step_context:
  assumes "map_of (pl_exams pl) rid = Some x"
  shows "(\<exists>y. map_of (pl_exams (plane_step e pl)) rid = Some y \<and> same_exam x y \<and> (ax_begun x \<longrightarrow> ax_begun y)) \<or>
    (\<exists>h. e = Stop h True \<and> registry_id_of h pl = rid \<and> h \<notin> set (pl_marking pl))"
  using assms act_context[OF assms, of e] by (auto simp: plane_step_def waits_def)

text \<open>Only the second block of a handler sets the flag.\<close>

lemma step_ready:
  assumes "map_of (pl_exams (plane_step e pl)) rid = Some y" "ax_ready y"
  shows "(\<exists>x. map_of (pl_exams pl) rid = Some x \<and> ax_ready x \<and> same_exam x y) \<or>
    (\<exists>k x. e = Ready_mark k \<and> k \<in> set (pl_marking pl) \<and> registry_id_of k pl = rid \<and>
       map_of (pl_exams pl) rid = Some x \<and> same_exam x y)"
proof (cases "waits e pl")
  case True
  then show ?thesis using assms by (auto simp: plane_step_def)
next
  case False
  then have a: "map_of (pl_exams (plane_act e pl)) rid = Some y" using assms(1) by (simp add: plane_step_def)
  show ?thesis
  proof (cases e)
    case (Stop k sent)
    then show ?thesis using a assms(2)
      by (auto simp: stop_exam_def split: option.splits if_splits)
  next
    case (Start k c r t sent)
    then show ?thesis using a assms(2)
      by (auto simp: start_exam_admit_def Let_def context_of_def split: option.splits if_splits)
  next
    case (Ready_mark k)
    then show ?thesis using a assms(2)
      by (auto simp: mark_exam_ready_def registry_id_of_def Let_def same_exam_def split: option.splits if_splits)
  next
    case (Begin k du nw sent)
    then show ?thesis using a assms(2)
      by (auto simp: begin_exam_def same_exam_def split: option.splits if_splits)
  next
    case (Authenticated k now)
    have "pl_exams (snd (publish_authenticated now k pl)) = pl_exams pl"
      by (auto simp: publish_authenticated_def Let_def split: option.splits)
    then show ?thesis using a assms(2) Authenticated by (auto split: if_splits)
  qed (use a assms(2) in \<open>auto simp: on_connected_def on_hello_def disconnected_frame split: if_splits\<close>)
qed

text \<open>While a handler is between its blocks, its connection keeps the client it speaks for.\<close>

lemma act_marking:
  "set (pl_marking (plane_act e pl)) = (case e of Ready_mark k \<Rightarrow> set (pl_marking pl) - {k}
     | Ready k w \<Rightarrow> if fst (process_exam_ready k w pl) then insert k (set (pl_marking pl)) else set (pl_marking pl)
     | _ \<Rightarrow> set (pl_marking pl))"
proof (cases e)
  case (Command k cmd now)
  have "pl_marking (snd (mutate_current_registry k f pl)) = pl_marking pl" for f
    by (auto simp: mutate_current_registry_def split: option.splits prod.splits)
  then have "pl_marking (snd (process_authenticated now k cmd pl)) = pl_marking pl"
    by (cases cmd) (simp_all add: process_defs split: option.splits)
  then show ?thesis using Command by simp
qed (auto simp: on_connected_def on_hello_def publish_authenticated_def on_disconnected_def configure_uwf_fleet_def
      start_exam_admit_def process_exam_ready_def mark_exam_ready_def begin_exam_def stop_exam_def Let_def split_beta
      split: option.splits)

lemma step_registry_id:
  assumes "k \<in> set (pl_marking pl) \<or> (\<exists>w. e = Ready k w)"
  shows "registry_id_of k (plane_step e pl) = registry_id_of k pl"
proof (cases "waits e pl")
  case False
  then show ?thesis using assms
  proof (cases e)
    case (Authenticated h now)
    then have "h \<noteq> k" using False assms by (auto simp: waits_def)
    then have "map_of (pl_objects (snd (publish_authenticated now h pl))) k = map_of (pl_objects pl) k"
      by (auto simp: publish_authenticated_def Let_def split: option.splits)
    then show ?thesis using False Authenticated by (simp add: plane_step_def registry_id_of_def)
  qed (auto simp: plane_step_def registry_id_of_def on_connected_def on_hello_def disconnected_frame map_add_def
      split: option.splits)
qed (simp add: plane_step_def)

text \<open>A ready report that passed the comparison at some point of a run: which connection sent it, for which
  client, and what came after.\<close>

definition report_checked ::
  "plane_event list \<Rightarrow> u64 \<Rightarrow> bytes \<Rightarrow> exam_ready_report \<Rightarrow> u64 \<Rightarrow> plane_event list \<Rightarrow> plane_event list \<Rightarrow> bool" where
  "report_checked es k w r rid xs ys \<longleftrightarrow> es = xs @ Ready k w # ys \<and> decode_exam_ready_report w = Some r \<and>
     (\<exists>c x. map_of (pl_objects (plane_run xs)) k = Some c \<and> cn_registry_id c = rid \<and> cn_hello c = er_client_id r \<and>
        map_of (pl_exams (plane_run xs)) rid = Some x \<and> matches_ready x r)"

text \<open>Another connection stopped the exam of the client between the two blocks of the handler.\<close>

definition overtaken :: "u64 \<Rightarrow> bytes \<Rightarrow> u64 \<Rightarrow> plane_event list \<Rightarrow> plane_event list \<Rightarrow> bool" where
  "overtaken k w rid xs ys \<longleftrightarrow> (\<exists>us h vs ws. ys = us @ Stop h True # vs @ Ready_mark k # ws \<and> h \<noteq> k \<and>
     registry_id_of h (plane_run (xs @ Ready k w # us)) = rid \<and> Ready_mark k \<notin> set (us @ vs))"

lemma report_checked_snoc: "report_checked es k w r rid xs ys \<Longrightarrow> report_checked (es @ [e]) k w r rid xs (ys @ [e])"
  by (auto simp: report_checked_def)

lemma overtaken_snoc: "overtaken k w rid xs ys \<Longrightarrow> overtaken k w rid xs (ys @ [e])"
  unfolding overtaken_def by fastforce

lemma ready_accepted:
  assumes "fst (process_exam_ready k w (plane_run es))"
  shows "\<exists>r. report_checked (es @ [Ready k w]) k w r (registry_id_of k (plane_run es)) es [] \<and>
    (\<exists>x. map_of (pl_exams (plane_run es)) (registry_id_of k (plane_run es)) = Some x \<and> matches_ready x r)"
  using assms
  by (auto simp: process_exam_ready_def report_checked_def registry_id_of_def split: option.splits if_splits)

text \<open>The handler that is between its blocks has seen a report that matches the context, or a stop by another
  connection came since.\<close>

definition handled :: "plane_event list \<Rightarrow> u64 \<Rightarrow> bool" where
  "handled es k \<longleftrightarrow> (\<exists>w r xs ys. report_checked es k w r (registry_id_of k (plane_run es)) xs ys \<and> Ready_mark k \<notin> set ys \<and>
     ((\<exists>x. map_of (pl_exams (plane_run es)) (registry_id_of k (plane_run es)) = Some x \<and> matches_ready x r) \<or>
      (\<exists>us h vs. ys = us @ Stop h True # vs \<and> h \<noteq> k \<and>
         registry_id_of h (plane_run (xs @ Ready k w # us)) = registry_id_of k (plane_run es))))"

lemma handled_step:
  assumes "handled es k" "k \<in> set (pl_marking (plane_run es))" "e \<noteq> Ready_mark k"
  shows "handled (es @ [e]) k"
proof -
  let ?pl = "plane_run es" and ?rid = "registry_id_of k (plane_run es)"
  have rid: "registry_id_of k (plane_run (es @ [e])) = ?rid"
    using step_registry_id assms(2) by (simp add: plane_run_snoc)
  from assms(1) obtain w r xs ys where h: "report_checked es k w r ?rid xs ys" "Ready_mark k \<notin> set ys"
    and d: "(\<exists>x. map_of (pl_exams ?pl) ?rid = Some x \<and> matches_ready x r) \<or>
      (\<exists>us h vs. ys = us @ Stop h True # vs \<and> h \<noteq> k \<and> registry_id_of h (plane_run (xs @ Ready k w # us)) = ?rid)"
    unfolding handled_def by blast
  have es: "es = xs @ Ready k w # ys" using h(1) by (simp add: report_checked_def)
  have "(\<exists>x. map_of (pl_exams (plane_run (es @ [e]))) ?rid = Some x \<and> matches_ready x r) \<or>
      (\<exists>us h vs. ys @ [e] = us @ Stop h True # vs \<and> h \<noteq> k \<and> registry_id_of h (plane_run (xs @ Ready k w # us)) = ?rid)"
    using d
  proof
    assume "\<exists>x. map_of (pl_exams ?pl) ?rid = Some x \<and> matches_ready x r"
    then obtain x where x: "map_of (pl_exams ?pl) ?rid = Some x" "matches_ready x r" by blast
    from step_context[OF x(1), of e] show ?thesis
    proof (elim disjE exE conjE)
      fix h assume h: "e = Stop h True" "registry_id_of h ?pl = ?rid" "h \<notin> set (pl_marking ?pl)"
      then have "h \<noteq> k" using assms(2) by auto
      then show ?thesis using h es by (intro disjI2 exI[of _ ys] exI[of _ h] exI[of _ "[]"]) simp
    qed (use x(2) in \<open>auto simp: plane_run_snoc matches_same\<close>)
  next
    assume "\<exists>us h vs. ys = us @ Stop h True # vs \<and> h \<noteq> k \<and> registry_id_of h (plane_run (xs @ Ready k w # us)) = ?rid"
    then show ?thesis by fastforce
  qed
  moreover have "Ready_mark k \<notin> set (ys @ [e])" using h(2) assms(3) by auto
  ultimately show ?thesis
    unfolding handled_def rid using report_checked_snoc[OF h(1), of e] by blast
qed

lemma marking_handled: "k \<in> set (pl_marking (plane_run es)) \<Longrightarrow> handled es k"
proof (induction es rule: rev_induct)
  case Nil
  then show ?case by (simp add: plane_run_def initial_plane_def)
next
  case (snoc e es)
  let ?pl = "plane_run es"
  have m: "k \<in> set (pl_marking (plane_step e ?pl))" using snoc.prems by (simp add: plane_run_snoc)
  show ?case
  proof (cases "k \<in> set (pl_marking ?pl)")
    case True
    have "plane_step (Ready_mark k) ?pl = plane_act (Ready_mark k) ?pl" by (simp add: plane_step_def waits_def)
    then have "k \<notin> set (pl_marking (plane_step (Ready_mark k) ?pl))"
      using act_marking[of "Ready_mark k" ?pl] by (simp only: plane_event.case) blast
    then have "e \<noteq> Ready_mark k" using m by metis
    then show ?thesis using handled_step[OF snoc.IH[OF True] True] by blast
  next
    case False
    then obtain w where e: "e = Ready k w" "fst (process_exam_ready k w ?pl)" "\<not> waits e ?pl"
      using m by (auto simp: plane_step_def act_marking split: if_splits plane_event.splits)
    have same: "registry_id_of k (plane_run (es @ [e])) = registry_id_of k ?pl" "pl_exams (plane_run (es @ [e])) = pl_exams ?pl"
      using step_registry_id[of k ?pl e] e by (simp_all add: plane_run_snoc plane_step_def)
    from ready_accepted[OF e(2)] show ?thesis unfolding handled_def same e(1)[symmetric]
      by (metis e(1) empty_iff list.set(1))
  qed
qed

lemma ready_reported:
  "map_of (pl_exams (plane_run es)) rid = Some x \<Longrightarrow> ax_ready x \<Longrightarrow>
   \<exists>k w r xs ys. report_checked es k w r rid xs ys \<and> (matches_ready x r \<or> overtaken k w rid xs ys)"
proof (induction es arbitrary: x rule: rev_induct)
  case Nil
  then show ?case by (simp add: plane_run_def initial_plane_def)
next
  case (snoc e es)
  have y: "map_of (pl_exams (plane_step e (plane_run es))) rid = Some x" using snoc.prems(1) by (simp add: plane_run_snoc)
  from step_ready[OF y snoc.prems(2)] show ?case
  proof (elim disjE exE conjE)
    fix x0 assume "map_of (pl_exams (plane_run es)) rid = Some x0" "ax_ready x0" "same_exam x0 x"
    then show ?thesis using snoc.IH[of x0] report_checked_snoc overtaken_snoc matches_same by metis
  next
    fix k x0 assume k: "e = Ready_mark k" "k \<in> set (pl_marking (plane_run es))" "registry_id_of k (plane_run es) = rid"
      and x0: "map_of (pl_exams (plane_run es)) rid = Some x0" "same_exam x0 x"
    from marking_handled[OF k(2)] have "\<exists>w r xs ys. report_checked es k w r rid xs ys \<and> Ready_mark k \<notin> set ys \<and> (matches_ready x0 r \<or>
        (\<exists>us h vs. ys = us @ Stop h True # vs \<and> h \<noteq> k \<and> registry_id_of h (plane_run (xs @ Ready k w # us)) = rid))"
      unfolding handled_def k(3) x0(1) by simp
    then obtain w r xs ys where h: "report_checked es k w r rid xs ys" "Ready_mark k \<notin> set ys"
      and d: "matches_ready x0 r \<or>
        (\<exists>us h vs. ys = us @ Stop h True # vs \<and> h \<noteq> k \<and> registry_id_of h (plane_run (xs @ Ready k w # us)) = rid)" by blast
    from d have "matches_ready x r \<or> overtaken k w rid xs (ys @ [e])"
      using h(2) x0(2) unfolding overtaken_def k(1) by (fastforce simp: matches_same)
    then show ?thesis using report_checked_snoc[OF h(1), of e] by blast
  qed
qed

section \<open>One beginning\<close>

definition begun :: "plane \<Rightarrow> u64 \<Rightarrow> bool" where
  "begun pl rid \<longleftrightarrow> (\<exists>x. map_of (pl_exams pl) rid = Some x \<and> ax_begun x)"

lemma begun_until_stop:
  assumes "begun pl rid" "\<not> begun (fold plane_step ys pl) rid"
  shows "\<exists>zs k us. ys = zs @ Stop k True # us \<and> registry_id_of k (fold plane_step zs pl) = rid"
  using assms
proof (induction ys arbitrary: pl)
  case (Cons e ys)
  show ?case
  proof (cases "begun (plane_step e pl) rid")
    case True
    from Cons.IH[OF True] Cons.prems(2) obtain zs k us
      where "ys = zs @ Stop k True # us" "registry_id_of k (fold plane_step zs (plane_step e pl)) = rid" by auto
    then show ?thesis by (intro exI[of _ "e # zs"]) auto
  next
    case False
    obtain k where "e = Stop k True" "registry_id_of k pl = rid"
      using Cons.prems(1) False step_context[of pl rid _ e] by (auto simp: begun_def)
    then show ?thesis by (intro exI[of _ "[]"]) auto
  qed
qed simp

lemma begin_success:
  assumes "begin_exam k du nw sent pl = (Inr cmd, pl')"
  shows "\<not> begun pl (registry_id_of k pl)" "begun pl' (registry_id_of k pl)"
    "\<exists>x. map_of (pl_exams pl) (registry_id_of k pl) = Some x \<and> ax_ready x \<and> cmd = begin_command x nw du"
  using assms by (auto simp: begin_exam_def begun_def registry_id_of_def split: option.splits if_splits)

text \<open>The command is for the exam the report names.\<close>

definition begins_reported :: "exam_begin_command \<Rightarrow> exam_ready_report \<Rightarrow> bool" where
  "begins_reported cmd r \<longleftrightarrow> eb_package_id cmd = er_package_id r \<and> eb_candidate_id cmd = er_candidate_id r \<and>
     eb_package_digest cmd = er_package_digest r \<and> eb_client_id cmd = er_client_id r \<and> eb_session_id cmd = er_session_id r"

text \<open>C17. The start time of an exam is given once, and only to a client that reported ready. Take any run and a
  begin command that is sent for the client of a connection. Before it, a connection of that client has
  delivered a ready report that names the client of its handshake and agreed in client, package, digest,
  candidate and session with the exam the client had then; and the command carries these data, unless another
  connection of the client stopped that exam in the short time between the comparison of the report and the
  setting of the flag, which are two separate critical sections. And when the server later begins an exam for
  the same client again, it has stopped the client's exam in between.\<close>

theorem exam_begins_once:
  assumes "begin_exam k du nw sent (plane_run es) = (Inr cmd, pl')"
  shows "(\<exists>h w r xs ys. report_checked es h w r (registry_id_of k (plane_run es)) xs ys \<and>
            (begins_reported cmd r \<or> overtaken h w (registry_id_of k (plane_run es)) xs ys)) \<and>
         (\<forall>ys k' du' nw' sent' cmd' pl''.
            begin_exam k' du' nw' sent' (fold plane_step ys pl') = (Inr cmd', pl'') \<longrightarrow>
            registry_id_of k' (fold plane_step ys pl') = registry_id_of k (plane_run es) \<longrightarrow>
            (\<exists>zs h us. ys = zs @ Stop h True # us \<and>
               registry_id_of h (fold plane_step zs pl') = registry_id_of k (plane_run es)))"
proof
  obtain x where x: "map_of (pl_exams (plane_run es)) (registry_id_of k (plane_run es)) = Some x" "ax_ready x"
    "cmd = begin_command x nw du" using begin_success(3)[OF assms] by blast
  have "begins_reported cmd r" if "matches_ready x r" for r
    using that by (simp add: begins_reported_def x(3) begin_command_def matches_ready_def)
  then show "\<exists>h w r xs ys. report_checked es h w r (registry_id_of k (plane_run es)) xs ys \<and>
      (begins_reported cmd r \<or> overtaken h w (registry_id_of k (plane_run es)) xs ys)"
    using ready_reported[OF x(1,2)] by blast
  show "\<forall>ys k' du' nw' sent' cmd' pl''.
      begin_exam k' du' nw' sent' (fold plane_step ys pl') = (Inr cmd', pl'') \<longrightarrow>
      registry_id_of k' (fold plane_step ys pl') = registry_id_of k (plane_run es) \<longrightarrow>
      (\<exists>zs h us. ys = zs @ Stop h True # us \<and>
         registry_id_of h (fold plane_step zs pl') = registry_id_of k (plane_run es))"
    using begun_until_stop[OF begin_success(2)[OF assms]] begin_success(1) by metis
qed

section \<open>A run\<close>

definition sample_client :: bytes where "sample_client = replicate 16 1"

definition sample_status :: fleet_status where
  "sample_status = \<lparr>fl_operation_id = 0, fl_boot_id = replicate 16 2, fl_phase = Verified_protected,
     fl_probe = \<lparr>pp_succeeded = True, pp_filter_current = True, pp_filter_next = True, pp_volume_current = True,
       pp_data_exclusion = False, pp_registry_exclusion = False\<rparr>, fl_detail = [79, 75]\<rparr>"

definition admission_request :: exam_start_request where
  "admission_request = \<lparr>es_package_root = [67], es_web_root = [], es_user_data_root = [], es_package_id = [112],
     es_candidate_id = [99], es_package_digest = replicate 32 3, es_client_id = sample_client,
     es_session_id = replicate 16 4\<rparr>"

definition admission_events :: "plane_event list" where
  "admission_events = [Connected 1 [], Hello 1 sample_client, Authenticated 1 0,
     Command 1 (Uwf_fleet_status (encode_uwf_fleet_status_report sample_status)) 5, Command 1 Heartbeat 6]"

definition sample_ready :: exam_ready_report where
  "sample_ready = \<lparr>er_package_id = [112], er_candidate_id = [99], er_package_digest = replicate 32 3,
     er_client_id = sample_client, er_session_id = replicate 16 4\<rparr>"

definition sample_exam :: "plane_event list" where
  "sample_exam = [Start 1 (registry_id_for sample_client) admission_request None True,
     Ready 1 (encode_exam_ready_report sample_ready), Ready_mark 1]"

lemma sample_admitted:
  "fst (start_exam_admit False 1 (registry_id_for sample_client) admission_request None True (plane_run admission_events)) = None"
  by code_simp

lemma sample_plane:
  "map_of (pl_objects (plane_run admission_events)) 1 = Some \<lparr>cn_source = [], cn_hello = sample_client,
     cn_registry_id = registry_id_for sample_client, cn_authenticated = True\<rparr>"
  "pl_exams (plane_run admission_events) = []" "pl_marking (plane_run admission_events) = []"
  by code_simp+

theorem exam_needs_standing_proof_witness:
  "fst (start_exam_admit False 1 (registry_id_for sample_client) admission_request None True (plane_run admission_events)) = None \<and>
   (\<exists>xs w now ys report u. stands_since admission_events 1 (registry_id_for sample_client) xs w now ys \<and>
      decode_uwf_fleet_status_report w = Some report \<and>
      map_option cl_uwf (map_of (pl_registry (plane_run xs)) (registry_id_for sample_client)) = Some u \<and>
      shows_protection report u)"
proof -
  have "start_exam_admit False 1 (registry_id_for sample_client) admission_request None True (plane_run admission_events) =
    (None, snd (start_exam_admit False 1 (registry_id_for sample_client) admission_request None True (plane_run admission_events)))"
    using sample_admitted by (metis prod.collapse)
  from exam_needs_standing_proof[OF this] sample_admitted show ?thesis by blast
qed

text \<open>The plane of the sample run with its exam in a given state.\<close>

definition sample_with :: "bool \<Rightarrow> bool \<Rightarrow> u64 \<Rightarrow> plane" where
  "sample_with ready beg start = (plane_run admission_events)\<lparr>pl_exams :=
     [(registry_id_for sample_client, (context_of admission_request None)
        \<lparr>ax_ready := ready, ax_begun := beg, ax_server_start := start\<rparr>)]\<rparr>"

lemma admit_keeps_plane:
  assumes "fst (start_exam_admit False k cid r t sent pl) = None" "pl_exams pl = []"
  shows "snd (start_exam_admit False k cid r t sent pl) = pl\<lparr>pl_exams := [(cid, context_of r t)]\<rparr>"
  using assms by (auto simp: start_exam_admit_def Let_def alist_emplace_def split: option.splits if_splits)

lemma sample_ready_ok: "ready_report_ok sample_ready"
  by code_simp

lemma keep_marking: "pl_marking pl = m \<Longrightarrow> pl\<lparr>pl_marking := m\<rparr> = pl"
  by (cases pl) simp

lemma sample_marking [simp]: "pl_marking (sample_with a b t) = []"
  using sample_plane(3) by (simp add: sample_with_def)

lemma sample_checked:
  "fold plane_step [Start 1 (registry_id_for sample_client) admission_request None True,
     Ready 1 (encode_exam_ready_report sample_ready)] (plane_run admission_events) =
   (sample_with False False 0)\<lparr>pl_marking := [1]\<rparr>"
proof -
  have "snd (start_exam_admit False 1 (registry_id_for sample_client) admission_request None True (plane_run admission_events)) =
      sample_with False False 0"
    using admit_keeps_plane[OF sample_admitted sample_plane(2)] by (simp add: sample_with_def context_of_def)
  moreover have "process_exam_ready 1 (encode_exam_ready_report sample_ready) (sample_with False False 0) =
      (True, (sample_with False False 0)\<lparr>pl_marking := [1]\<rparr>)"
    using sample_plane(1,3) ready_codec.dec_enc[OF sample_ready_ok]
    by (simp add: process_exam_ready_def sample_with_def matches_ready_def context_of_def admission_request_def sample_ready_def)
  ultimately show ?thesis using sample_plane(3) by (simp add: plane_step_def waits_def)
qed

lemma sample_started: "fold plane_step sample_exam (plane_run admission_events) = sample_with True False 0"
proof -
  have "mark_exam_ready 1 ((sample_with False False 0)\<lparr>pl_marking := [1]\<rparr>) = sample_with True False 0"
    using sample_plane(1) keep_marking[OF sample_plane(3)]
    by (simp add: mark_exam_ready_def sample_with_def alist_modify_def context_of_def)
  then show ?thesis using sample_checked by (simp add: sample_exam_def plane_step_def[of "Ready_mark 1"] waits_def)
qed

lemma sample_begin_ok: "encode_exam_begin_command (begin_command (context_of admission_request None) 1000 600) \<noteq> []"
proof -
  have "begin_command_ok (begin_command (context_of admission_request None) 1000 600)" by code_simp
  from begin_codec.dec_enc[OF this] show ?thesis by (auto simp: decode_exam_begin_command_def kExamBeginFixedBytes_def)
qed

lemma sample_begin:
  "begin_exam 1 600 1000 True (sample_with True False 0) =
     (Inr (begin_command (context_of admission_request None) 1000 600), sample_with True True 1000)"
  using sample_plane(1) sample_begin_ok
  by (simp add: begin_exam_def sample_with_def begin_command_def context_of_def alist_modify_def)

lemma sample_stop: "snd (stop_exam 1 True (sample_with True True 1000)) = plane_run admission_events"
  using sample_plane by (simp add: stop_exam_def sample_with_def alist_erase_def)

theorem exam_begins_once_witness:
  "(\<exists>h w r xs ys. report_checked (admission_events @ sample_exam) h w r (registry_id_for sample_client) xs ys \<and>
      (begins_reported (begin_command (context_of admission_request None) 1000 600) r \<or>
       overtaken h w (registry_id_for sample_client) xs ys)) \<and>
   (\<exists>zs h us. Stop 1 True # sample_exam = zs @ Stop h True # us \<and>
      registry_id_of h (fold plane_step zs (sample_with True True 1000)) = registry_id_for sample_client) \<and>
   isl (fst (begin_exam 1 600 1000 True (plane_run (admission_events @ sample_exam)))) = False"
proof -
  have r: "plane_run (admission_events @ sample_exam) = sample_with True False 0"
    using sample_started by (simp add: plane_run_def)
  have again: "fold plane_step (Stop 1 True # sample_exam) (sample_with True True 1000) = sample_with True False 0"
    using sample_stop sample_started by (simp add: plane_step_def waits_def)
  have rid: "registry_id_of 1 (sample_with True False 0) = registry_id_for sample_client"
    using sample_plane(1) by (simp add: registry_id_of_def sample_with_def)
  have first: "begin_exam 1 600 1000 True (plane_run (admission_events @ sample_exam)) =
      (Inr (begin_command (context_of admission_request None) 1000 600), sample_with True True 1000)"
    using sample_begin r by simp
  have "begin_exam 1 600 1000 True (fold plane_step (Stop 1 True # sample_exam) (sample_with True True 1000)) =
      (Inr (begin_command (context_of admission_request None) 1000 600), sample_with True True 1000)"
    using sample_begin again by simp
  then have "\<exists>zs h us. Stop 1 True # sample_exam = zs @ Stop h True # us \<and>
      registry_id_of h (fold plane_step zs (sample_with True True 1000)) = registry_id_for sample_client"
    using exam_begins_once[OF first, THEN conjunct2] unfolding r rid by (metis again rid)
  then show ?thesis using exam_begins_once[OF first, THEN conjunct1] first unfolding r rid by simp
qed

section \<open>A report that marks the next exam\<close>

text \<open>The handler of connection 1 has compared a report and not set the flag yet. Connection 2 takes the client
  over and shows its protection; the operator stops the exam and starts another session. Then connection 1 sets
  the flag: the new exam counts as ready, although no report of the run is for its session.\<close>

definition race_rest :: "plane_event list" where
  "race_rest = [Connected 2 [], Hello 2 sample_client, Authenticated 2 7,
     Command 2 (Uwf_fleet_status (encode_uwf_fleet_status_report sample_status)) 8, Stop 2 True,
     Start 2 (registry_id_for sample_client) (admission_request\<lparr>es_session_id := replicate 16 5\<rparr>) None True, Ready_mark 1]"

definition race_events :: "plane_event list" where
  "race_events = admission_events @ [Start 1 (registry_id_for sample_client) admission_request None True,
     Ready 1 (encode_exam_ready_report sample_ready)] @ race_rest"

lemma ready_flag_race:
  "map_option (\<lambda>x. (ax_ready x, cx_session_id x)) (map_of (pl_exams (plane_run race_events)) (registry_id_for sample_client)) =
     Some (True, replicate 16 5) \<and>
   (\<forall>k w. Ready k w \<in> set race_events \<longrightarrow> decode_exam_ready_report w = Some sample_ready \<and> er_session_id sample_ready = replicate 16 4)"
proof (intro conjI allI impI)
  have "map_option (\<lambda>x. (ax_ready x, cx_session_id x)) (map_of (pl_exams
      (fold plane_step race_rest ((sample_with False False 0)\<lparr>pl_marking := [1]\<rparr>))) (registry_id_for sample_client)) =
     Some (True, replicate 16 5)"
    by code_simp
  moreover have "plane_run race_events = fold plane_step race_rest ((sample_with False False 0)\<lparr>pl_marking := [1]\<rparr>)"
    using sample_checked by (simp add: race_events_def plane_run_def)
  ultimately show "map_option (\<lambda>x. (ax_ready x, cx_session_id x)) (map_of (pl_exams (plane_run race_events))
      (registry_id_for sample_client)) = Some (True, replicate 16 5)" by (simp only:)
next
  fix k w assume "Ready k w \<in> set race_events"
  then have "w = encode_exam_ready_report sample_ready"
    by (auto simp: race_events_def admission_events_def race_rest_def)
  then show "decode_exam_ready_report w = Some sample_ready" using ready_codec.dec_enc[OF sample_ready_ok] by (simp only:)
  show "er_session_id sample_ready = replicate 16 4" by (simp add: sample_ready_def)
qed

end
