(* ===== verification/OperatorAccess.thy ===== *)
theory OperatorAccess
  imports Prelude
begin

text \<open>
  The operator's side of \<^verbatim>\<open>server/src/operator_role.cpp\<close> and \<^verbatim>\<open>server/include/nstu/operator_login.hpp\<close>: what each
  role may do, the update plan only some roles may change, and the gate in front of the sign-in. The
  gate sees the hash a key derivation made of the password, never the password; the clock is an
  argument.

  Shown: the roles are ordered; a wrong hash is never let in, the right one always is unless the
  gate is locked; and guessing is throttled to the allowed number of comparisons per lockout.
\<close>

unbundle bit_operations_syntax

section \<open>Roles\<close>

datatype operator_role = Teacher | Technician | Developer

datatype operator_action = View_classroom | Toggle_lock | Broadcast | Chat | Manage_exam | Configure_uwf | Reboot_client
  | View_fleet_health | View_diagnostics_raw | Export_telemetry_report | Manage_settings | Shutdown_client
  | Wake_on_lan | Distribute_file | Manage_software_updates

definition is_action_permitted :: "operator_role \<Rightarrow> operator_action \<Rightarrow> bool" where
  "is_action_permitted role action =
     (case role of
        Teacher \<Rightarrow> (case action of
            View_classroom \<Rightarrow> True | Toggle_lock \<Rightarrow> True | Broadcast \<Rightarrow> True | Chat \<Rightarrow> True | Manage_exam \<Rightarrow> True
          | Manage_settings \<Rightarrow> True | Wake_on_lan \<Rightarrow> True | Distribute_file \<Rightarrow> True
          | Configure_uwf \<Rightarrow> False | Reboot_client \<Rightarrow> False | Shutdown_client \<Rightarrow> False | View_fleet_health \<Rightarrow> False
          | View_diagnostics_raw \<Rightarrow> False | Export_telemetry_report \<Rightarrow> False | Manage_software_updates \<Rightarrow> False)
      | Technician \<Rightarrow> (case action of
            View_diagnostics_raw \<Rightarrow> False | Export_telemetry_report \<Rightarrow> False
          | _ \<Rightarrow> True)
      | Developer \<Rightarrow> True)"

text \<open>The channel is the value of the enumeration, whose members are 1 to 3.\<close>

record fleet_update_config =
  fu_channel :: int
  fu_maintenance_window_planned :: bool
  fu_canary_rollout_percentage :: int

definition try_set_fleet_update_config ::
  "operator_role \<Rightarrow> fleet_update_config \<Rightarrow> fleet_update_config \<Rightarrow> bool \<times> fleet_update_config" where
  "try_set_fleet_update_config role current proposed =
     (if \<not> is_action_permitted role Manage_software_updates \<or> fu_canary_rollout_percentage proposed < 0 \<or>
         fu_canary_rollout_percentage proposed > 100 then (False, current)
      else if fu_channel proposed = 1 \<or> fu_channel proposed = 2 \<or> fu_channel proposed = 3 then (True, proposed)
      else (False, current))"

text \<open>The roles are ordered: whatever a teacher may do a technician may, and a developer may do
  everything; and the update plan changes exactly when the role may manage updates and the plan is
  within bounds.\<close>

theorem roles_ordered:
  "(is_action_permitted Teacher a \<longrightarrow> is_action_permitted Technician a) \<and> is_action_permitted Developer a \<and>
   (fst (try_set_fleet_update_config role cur p) \<longleftrightarrow> role \<noteq> Teacher \<and> fu_channel p \<in> {1, 2, 3} \<and>
      0 \<le> fu_canary_rollout_percentage p \<and> fu_canary_rollout_percentage p \<le> 100) \<and>
   snd (try_set_fleet_update_config role cur p) = (if fst (try_set_fleet_update_config role cur p) then p else cur)"
  by (cases role; cases a) (auto simp: is_action_permitted_def try_set_fleet_update_config_def)

section \<open>Sign-in\<close>

record login_decision =
  de_granted :: bool
  de_locked_out :: bool
  de_attempts_remaining :: u32

record login_gate =
  lg_stored_hash :: bytes
  lg_max_attempts :: u32
  lg_lockout_ms :: u64
  lg_failures :: u32
  lg_locked_until_ms :: u64

definition make_login_gate :: "bytes \<Rightarrow> u32 \<Rightarrow> u64 \<Rightarrow> login_gate" where
  "make_login_gate stored_hash max_attempts lockout_ms = \<lparr>lg_stored_hash = stored_hash,
     lg_max_attempts = (if max_attempts = 0 then 1 else max_attempts), lg_lockout_ms = lockout_ms, lg_failures = 0,
     lg_locked_until_ms = 0\<rparr>"

definition locked_out :: "u64 \<Rightarrow> login_gate \<Rightarrow> bool" where
  "locked_out now_ms g \<longleftrightarrow> now_ms < lg_locked_until_ms g"

fun difference :: "u32 \<Rightarrow> bytes \<Rightarrow> bytes \<Rightarrow> u32" where
  "difference d (l # left) (r # right) = difference (d OR (ucast l XOR ucast r)) left right"
| "difference d _ _ = d"

definition login_hash_equal :: "bytes \<Rightarrow> bytes \<Rightarrow> bool" where
  "login_hash_equal left right =
     (if length left \<noteq> length right \<or> left = [] then False else difference 0 left right = 0)"

definition verify_login :: "bytes \<Rightarrow> u64 \<Rightarrow> login_gate \<Rightarrow> login_decision \<times> login_gate" where
  "verify_login candidate now_ms g =
     (if locked_out now_ms g then (\<lparr>de_granted = False, de_locked_out = True, de_attempts_remaining = 0\<rparr>, g)
      else if login_hash_equal candidate (lg_stored_hash g)
      then (\<lparr>de_granted = True, de_locked_out = False, de_attempts_remaining = lg_max_attempts g\<rparr>, g\<lparr>lg_failures := 0\<rparr>)
      else
        let failures = lg_failures g + 1 in
        if failures \<ge> lg_max_attempts g
        then (\<lparr>de_granted = False, de_locked_out = True, de_attempts_remaining = 0\<rparr>,
              g\<lparr>lg_failures := 0, lg_locked_until_ms := now_ms + lg_lockout_ms g\<rparr>)
        else (\<lparr>de_granted = False, de_locked_out = False, de_attempts_remaining = lg_max_attempts g - failures\<rparr>,
              g\<lparr>lg_failures := failures\<rparr>))"

lemma ucast_eq_iff: "(ucast l :: u32) = ucast r \<longleftrightarrow> l = (r :: byte)"
proof
  assume e: "(ucast l :: u32) = ucast r"
  have "bit l n = bit r n" if "n < 8" for n
    using arg_cong[OF e, of "\<lambda>w. bit w n"] that by (simp add: bit_unsigned_iff)
  then show "l = r" by (intro bit_word_eqI) simp
qed simp

lemma difference_zero:
  "length left = length right \<Longrightarrow> difference d left right = 0 \<longleftrightarrow> d = 0 \<and> left = right"
proof (induction left right arbitrary: d rule: list_induct2)
  case (Cons l left r right)
  have "x XOR y = 0 \<longleftrightarrow> x = y" for x y :: u32 by (auto simp: bit_eq_iff bit_xor_iff)
  then have "(ucast l :: u32) XOR ucast r = 0 \<longleftrightarrow> l = r" by (simp only: ucast_eq_iff)
  then show ?case using Cons.IH by (auto simp: or_eq_0_iff)
qed simp

lemma login_hash_equal_iff: "login_hash_equal a b \<longleftrightarrow> a = b \<and> a \<noteq> []"
  by (auto simp: login_hash_equal_def difference_zero)

text \<open>The attempts so far, each a hash and a time, and how many of them the gate compares at all.\<close>

definition attempt :: "bytes \<times> u64 \<Rightarrow> login_gate \<Rightarrow> login_gate" where
  "attempt a g = snd (verify_login (fst a) (snd a) g)"

fun comparisons :: "(bytes \<times> u64) list \<Rightarrow> login_gate \<Rightarrow> nat" where
  "comparisons [] g = 0"
| "comparisons (a # as) g = (if locked_out (snd a) g then 0 else 1) + comparisons as (attempt a g)"

fun granted :: "(bytes \<times> u64) list \<Rightarrow> login_gate \<Rightarrow> bool list" where
  "granted [] g = []"
| "granted (a # as) g = de_granted (fst (verify_login (fst a) (snd a) g)) # granted as (attempt a g)"

definition gate_ok :: "bytes \<Rightarrow> u32 \<Rightarrow> u64 \<Rightarrow> login_gate \<Rightarrow> bool" where
  "gate_ok h m l g \<longleftrightarrow> lg_stored_hash g = h \<and> lg_max_attempts g = m \<and> lg_lockout_ms g = l \<and> 0 < m \<and> lg_failures g < m"

lemma gate_ok_attempt:
  assumes "gate_ok h m l g"
  shows "gate_ok h m l (attempt a g)"
  using assms by (auto simp: gate_ok_def attempt_def verify_login_def Let_def not_le)

interpretation login_machine: machine attempt "gate_ok h m l" for h m l
  by unfold_locales (rule gate_ok_attempt)

lemma locked_run:
  "list_all (\<lambda>a. snd a < lg_locked_until_ms g) as \<Longrightarrow> comparisons as g = 0"
  by (induction as) (auto simp: locked_out_def attempt_def verify_login_def)

lemma failures_Suc: "(f :: u32) < m \<Longrightarrow> unat (f + 1) = unat f + 1"
proof -
  assume "f < m"
  moreover have "unat m < 2 ^ 32" using unsigned_less[of m] by simp
  ultimately show ?thesis by (simp add: word_less_nat_alt unat_word_ariths)
qed

lemma comparisons_bound:
  assumes "gate_ok h m l g" "list_all (\<lambda>a. fst a \<noteq> h \<and> t0 \<le> snd a \<and> unat (snd a) < unat t0 + unat l \<and>
      unat (snd a) + unat l < 2 ^ 64) as"
  shows "comparisons as g \<le> unat m - unat (lg_failures g) \<and> True \<notin> set (granted as g)"
  using assms
proof (induction as arbitrary: g)
  case (Cons a as)
  have ok: "gate_ok h m l (attempt a g)" by (rule gate_ok_attempt[OF Cons.prems(1)])
  have IH: "comparisons as (attempt a g) \<le> unat m - unat (lg_failures (attempt a g)) \<and> True \<notin> set (granted as (attempt a g))"
    by (rule Cons.IH[OF ok]) (use Cons.prems(2) in simp)
  have f: "lg_failures g < m" "unat (lg_failures g) < unat m" using Cons.prems(1) by (simp_all add: gate_ok_def word_less_nat_alt)
  have wrong: "\<not> login_hash_equal (fst a) (lg_stored_hash g)"
    using Cons.prems by (simp add: gate_ok_def login_hash_equal_iff)
  show ?case
  proof (cases "locked_out (snd a) g")
    case True
    then show ?thesis using IH by (simp add: attempt_def verify_login_def)
  next
    case False
    show ?thesis
    proof (cases "lg_failures g + 1 \<ge> m")
      case True
      have u: "unat (snd a + l) = unat (snd a) + unat l" using Cons.prems(2) by (simp add: unat_word_ariths)
      have g: "lg_locked_until_ms (attempt a g) = snd a + l"
        using False wrong True Cons.prems(1) by (simp add: attempt_def verify_login_def Let_def gate_ok_def)
      have "list_all (\<lambda>b. snd b < lg_locked_until_ms (attempt a g)) as"
        using Cons.prems(2) unfolding g by (auto simp: list_all_iff word_less_nat_alt word_le_nat_alt u)
      then show ?thesis using False True wrong f IH Cons.prems(1)
        by (simp add: locked_run verify_login_def Let_def gate_ok_def)
    next
      case small: False
      have "lg_failures (attempt a g) = lg_failures g + 1"
        using False wrong small Cons.prems(1) by (simp add: attempt_def verify_login_def Let_def gate_ok_def)
      then show ?thesis using IH False wrong small f failures_Suc[OF f(1)] Cons.prems(1)
        by (auto simp: verify_login_def Let_def gate_ok_def)
    qed
  qed
qed simp

text \<open>Guessing the operator's password is throttled. Whatever was tried before, any further sequence of
  attempts with wrong hashes that all fall into a window shorter than the lockout is never let in, and the gate
  compares at most the allowed number of them (one if the limit was set to zero); the others are refused unseen. The clock
  must stay a lockout away from its end, where the sum that ends a lockout would wrap around.\<close>

theorem guessing_throttled:
  assumes "list_all (\<lambda>a. fst a \<noteq> stored \<and> t0 \<le> snd a \<and> unat (snd a) < unat t0 + unat lockout \<and>
      unat (snd a) + unat lockout < 2 ^ 64) as"
  shows "comparisons as (fold attempt history (make_login_gate stored limit lockout)) \<le> max 1 (unat limit) \<and>
         True \<notin> set (granted as (fold attempt history (make_login_gate stored limit lockout)))"
proof -
  let ?m = "if limit = 0 then 1 else limit"
  have "gate_ok stored ?m lockout (make_login_gate stored limit lockout)"
    by (auto simp: gate_ok_def make_login_gate_def word_gt_0)
  then have "gate_ok stored ?m lockout (fold attempt history (make_login_gate stored limit lockout))"
    by (rule login_machine.run_inv)
  from comparisons_bound[OF this assms] show ?thesis by (auto split: if_splits)
qed

definition sample_attempts :: "(bytes \<times> u64) list" where
  "sample_attempts = [([1], 10), ([2], 11), ([3], 12), ([4], 13)]"

theorem guessing_throttled_witness:
  "comparisons sample_attempts (fold attempt [([9], 1)] (make_login_gate [9] 3 1000)) = 3 \<and>
   comparisons sample_attempts (fold attempt [([9], 1)] (make_login_gate [9] 3 1000)) \<le> 3 \<and>
   True \<notin> set (granted sample_attempts (fold attempt [([9], 1)] (make_login_gate [9] 3 1000)))"
proof -
  have "comparisons sample_attempts (fold attempt [([9], 1)] (make_login_gate [9] 3 1000)) = 3" by code_simp
  moreover have "list_all (\<lambda>a. fst a \<noteq> [9] \<and> (10 :: u64) \<le> snd a \<and> unat (snd a) < unat (10 :: u64) + unat (1000 :: u64) \<and>
      unat (snd a) + unat (1000 :: u64) < 2 ^ 64) sample_attempts" by (simp add: sample_attempts_def)
  note guessing_throttled[OF this, of "[([9], 1)]" 3]
  ultimately show ?thesis by simp
qed

end
