(* ===== verification/AgentProtocol.thy ===== *)
theory AgentProtocol
  imports Protocol ControlMessages
begin

text \<open>
  The pipe between the service and the agent, \<^verbatim>\<open>client/src/agent_protocol.cpp\<close>: the queue of messages to
  the service, the framing with its reader, and the payloads of status, pairing and remote input. The
  type of a message is its 16-bit number, since the decoder starts from any. A pipe is the list of the chunks its
  reads deliver; an empty chunk is a read that fails.

  Shown: telemetry never displaces other messages and the queue stays bounded; a frame is read back from
  the pipe however it was cut into chunks, and nothing behind it is consumed; the payload decoders
  accept exactly the encodings of valid values.
\<close>

section \<open>The queue\<close>

record agent_message =
  am_type :: u16
  am_body :: bytes

definition exam_telemetry_samples :: u16 where "exam_telemetry_samples = 37"
definition host_broadcast_mode :: u16 where "host_broadcast_mode = 41"
definition kMaximumAgentPayloadBytes :: nat where "kMaximumAgentPayloadBytes = kMaxCommandPayload"

record agent_queue =
  aq_capacity :: nat
  aq_protected :: "agent_message list"
  aq_telemetry :: "agent_message list"

definition push_bounded :: "nat \<Rightarrow> bool \<Rightarrow> 'a \<Rightarrow> 'a list \<Rightarrow> 'a list" where
  "push_bounded capacity front m queue =
     (let queue = (if length queue \<ge> capacity then if front then butlast queue else tl queue else queue)
      in if front then m # queue else queue @ [m])"

definition queue_push :: "agent_message \<Rightarrow> bool \<Rightarrow> agent_queue \<Rightarrow> agent_queue" where
  "queue_push m front q =
     (let telemetry = (am_type m = exam_telemetry_samples);
          capacity = (if telemetry then 8 else aq_capacity q) in
      if capacity = 0 \<or> length (am_body m) > kMaximumAgentPayloadBytes then q
      else if telemetry then q\<lparr>aq_telemetry := push_bounded capacity front m (aq_telemetry q)\<rparr>
      else q\<lparr>aq_protected := push_bounded capacity front m (aq_protected q)\<rparr>)"

definition take_pending :: "agent_queue \<Rightarrow> agent_message list \<times> agent_queue" where
  "take_pending q =
     (case aq_telemetry q of
        [] \<Rightarrow> (aq_protected q, q\<lparr>aq_protected := []\<rparr>)
      | t # ts \<Rightarrow> (aq_protected q @ [t], q\<lparr>aq_protected := [], aq_telemetry := ts\<rparr>))"

section \<open>Frames\<close>

definition kAgentMagic :: u32 where "kAgentMagic = 0x4350494e"
definition kAgentVersion :: u16 where "kAgentVersion = 1"
definition kAgentHeaderBytes :: nat where "kAgentHeaderBytes = 12"

definition valid_type :: "u16 \<Rightarrow> bool" where
  "valid_type t \<longleftrightarrow> t \<ge> 1 \<and> t \<le> host_broadcast_mode"

definition encode_agent_message :: "agent_message \<Rightarrow> bytes" where
  "encode_agent_message m =
     (if \<not> valid_type (am_type m) \<or> length (am_body m) > kMaximumAgentPayloadBytes then []
      else append_le kAgentMagic @ append_le kAgentVersion @ append_le (am_type m) @
        append_le (of_nat (length (am_body m)) :: u32) @ am_body m)"

definition decode_agent_message :: "bytes \<Rightarrow> agent_message option" where
  "decode_agent_message w =
     (if length w < kAgentHeaderBytes then None
      else do {
        (magic, rest) \<leftarrow> read_le w;
        (version, rest) \<leftarrow> read_le rest;
        (raw_type, rest) \<leftarrow> read_le rest;
        (payload_bytes :: u32, rest) \<leftarrow> read_le rest;
        if magic \<noteq> kAgentMagic \<or> version \<noteq> kAgentVersion \<or> unat payload_bytes > kMaximumAgentPayloadBytes \<or>
           length rest \<noteq> unat payload_bytes then None
        else if \<not> valid_type raw_type then None
        else Some \<lparr>am_type = raw_type, am_body = rest\<rparr>
      })"

type_synonym pipe = "bytes list"

fun read_exact :: "nat \<Rightarrow> pipe \<Rightarrow> (bytes \<times> pipe) option" where
  "read_exact n [] = (if n = 0 then Some ([], []) else None)"
| "read_exact n (c # cs) =
     (if n = 0 then Some ([], c # cs)
      else if c = [] then None
      else if length c \<le> n then map_option (\<lambda>(r, cs). (c @ r, cs)) (read_exact (n - length c) cs)
      else Some (take n c, drop n c # cs))"

definition receive_agent_message :: "pipe \<Rightarrow> (agent_message \<times> pipe) option" where
  "receive_agent_message p =
     (case read_exact kAgentHeaderBytes p of
        None \<Rightarrow> None
      | Some (header, p) \<Rightarrow>
          (case read_le (drop 8 header) of
             None \<Rightarrow> None
           | Some (payload_bytes :: u32, _) \<Rightarrow>
               if unat payload_bytes > kMaximumAgentPayloadBytes then None
               else case (if payload_bytes \<noteq> 0 then read_exact (unat payload_bytes) p else Some ([], p)) of
                 None \<Rightarrow> None
               | Some (body, p) \<Rightarrow> map_option (\<lambda>m. (m, p)) (decode_agent_message (header @ body))))"

section \<open>Payloads\<close>

record agent_status =
  as_locked :: bool
  as_streaming :: bool
  as_snapshotting :: bool
  as_viewing_broadcast :: bool
  as_frames_per_second :: u8
  as_snapshot_interval_seconds :: u16
  as_session_id :: u32

abbreviation flag_byte :: "bool \<Rightarrow> u8" where "flag_byte b \<equiv> (if b then 1 else 0)"

definition encode_agent_status :: "agent_status \<Rightarrow> bytes" where
  "encode_agent_status s = append_le (flag_byte (as_locked s)) @ append_le (flag_byte (as_streaming s)) @
     append_le (flag_byte (as_snapshotting s)) @ append_le (flag_byte (as_viewing_broadcast s)) @
     append_le (as_frames_per_second s) @ append_le (as_snapshot_interval_seconds s) @ append_le (as_session_id s)"

definition agent_rates_bad :: "agent_status \<Rightarrow> bool" where
  "agent_rates_bad s \<longleftrightarrow>
     \<not> as_streaming s \<and> as_frames_per_second s \<noteq> 0 \<or>
     as_streaming s \<and> (as_frames_per_second s < 5 \<or> as_frames_per_second s > 15) \<or>
     \<not> as_snapshotting s \<and> as_snapshot_interval_seconds s \<noteq> 0 \<or>
     as_snapshotting s \<and> (as_snapshot_interval_seconds s < 5 \<or> as_snapshot_interval_seconds s > 10)"

definition decode_agent_status :: "bytes \<Rightarrow> agent_status option" where
  "decode_agent_status w =
     (if length w \<noteq> 11 then None
      else do {
        (locked :: u8, rest) \<leftarrow> read_le w;
        if locked > 1 then None else do {
        (streaming :: u8, rest) \<leftarrow> read_le rest;
        if streaming > 1 then None else do {
        (snapshotting :: u8, rest) \<leftarrow> read_le rest;
        if snapshotting > 1 then None else do {
        (viewing :: u8, rest) \<leftarrow> read_le rest;
        if viewing > 1 then None else do {
        (fps, rest) \<leftarrow> read_le rest;
        (interval, rest) \<leftarrow> read_le rest;
        (session_id, rest) \<leftarrow> read_le rest;
        let s = \<lparr>as_locked = (locked \<noteq> 0), as_streaming = (streaming \<noteq> 0), as_snapshotting = (snapshotting \<noteq> 0),
              as_viewing_broadcast = (viewing \<noteq> 0), as_frames_per_second = fps,
              as_snapshot_interval_seconds = interval, as_session_id = session_id\<rparr> in
        if agent_rates_bad s then None else Some s
        }}}}})"

definition kMaximumPairingChoices :: nat where "kMaximumPairingChoices = 8"
definition kMaximumPairingTextBytes :: nat where "kMaximumPairingTextBytes = 128"
definition kSasDigits :: nat where "kSasDigits = 6"

definition printable_text :: "bytes \<Rightarrow> nat \<Rightarrow> bool" where
  "printable_text t maximum =
     (if t = [] \<or> length t > maximum then False else list_all (\<lambda>b. b \<ge> 0x20 \<and> b < 0x7f) t)"

definition append_text :: "bytes \<Rightarrow> bytes" where
  "append_text t = append_le (of_nat (length t) :: u16) @ t"

definition read_pairing_text :: "bytes \<Rightarrow> (bytes \<times> bytes) option" where
  "read_pairing_text w = do {
     (n :: u16, rest) \<leftarrow> read_le w;
     if unat n > kMaximumPairingTextBytes \<or> unat n > length rest then None
     else Some (take (unat n) rest, drop (unat n) rest)
   }"

record pairing_choice =
  pc_server_name :: bytes
  pc_address :: bytes
  pc_port :: u16

definition choice_ok :: "pairing_choice \<Rightarrow> bool" where
  "choice_ok c \<longleftrightarrow> printable_text (pc_server_name c) kMaximumPairingTextBytes \<and>
     printable_text (pc_address c) kMaximumPairingTextBytes \<and> pc_port c \<noteq> 0"

definition encode_choice :: "pairing_choice \<Rightarrow> bytes" where
  "encode_choice c = append_text (pc_server_name c) @ append_text (pc_address c) @ append_le (pc_port c)"

definition encode_agent_pairing_choices :: "pairing_choice list \<Rightarrow> bytes" where
  "encode_agent_pairing_choices cs =
     (if cs = [] \<or> length cs > kMaximumPairingChoices then []
      else if \<not> list_all choice_ok cs then []
      else append_le (of_nat (length cs) :: u8) @ concat (map encode_choice cs))"

fun read_choices :: "nat \<Rightarrow> bytes \<Rightarrow> (pairing_choice list \<times> bytes) option" where
  "read_choices 0 w = Some ([], w)"
| "read_choices (Suc n) w = do {
     (name, rest) \<leftarrow> read_pairing_text w;
     (address, rest) \<leftarrow> read_pairing_text rest;
     (port, rest) \<leftarrow> read_le rest;
     let c = \<lparr>pc_server_name = name, pc_address = address, pc_port = port\<rparr> in
     if \<not> choice_ok c then None
     else do { (cs, rest) \<leftarrow> read_choices n rest; Some (c # cs, rest) }
   }"

definition decode_agent_pairing_choices :: "bytes \<Rightarrow> pairing_choice list option" where
  "decode_agent_pairing_choices w = do {
     (count :: u8, rest) \<leftarrow> read_le w;
     if count = 0 \<or> unat count > kMaximumPairingChoices then None
     else do { (cs, rest) \<leftarrow> read_choices (unat count) rest; if rest = [] then Some cs else None }
   }"

definition encode_agent_pairing_selection :: "u16 \<Rightarrow> bytes" where
  "encode_agent_pairing_selection i = (if unat i \<ge> kMaximumPairingChoices then [] else append_le i)"

definition decode_agent_pairing_selection :: "bytes \<Rightarrow> u16 option" where
  "decode_agent_pairing_selection w =
     (if length w \<noteq> 2 then None
      else do { (i, rest) \<leftarrow> read_le w; if unat i \<ge> kMaximumPairingChoices then None else Some i })"

record pairing_code =
  pk_code :: bytes
  pk_server_name :: bytes

definition pairing_code_ok :: "pairing_code \<Rightarrow> bool" where
  "pairing_code_ok c \<longleftrightarrow> length (pk_code c) = kSasDigits \<and> list_all (\<lambda>d. d \<ge> 48 \<and> d \<le> 57) (pk_code c) \<and>
     printable_text (pk_server_name c) kMaximumPairingTextBytes"

definition encode_agent_pairing_code :: "pairing_code \<Rightarrow> bytes" where
  "encode_agent_pairing_code c =
     (if \<not> pairing_code_ok c then [] else append_text (pk_code c) @ append_text (pk_server_name c))"

definition decode_agent_pairing_code :: "bytes \<Rightarrow> pairing_code option" where
  "decode_agent_pairing_code w = do {
     (code, rest) \<leftarrow> read_pairing_text w;
     (name, rest) \<leftarrow> read_pairing_text rest;
     let c = \<lparr>pk_code = code, pk_server_name = name\<rparr> in
     if rest \<noteq> [] \<or> \<not> pairing_code_ok c then None else Some c
   }"

record pairing_status =
  ps_outcome :: u8
  ps_detail :: bytes

definition encode_agent_pairing_status :: "pairing_status \<Rightarrow> bytes" where
  "encode_agent_pairing_status s =
     (if \<not> printable_text (ps_detail s) kMaximumPairingTextBytes then []
      else append_le (ps_outcome s) @ append_text (ps_detail s))"

definition decode_agent_pairing_status :: "bytes \<Rightarrow> pairing_status option" where
  "decode_agent_pairing_status w = do {
     (outcome, rest) \<leftarrow> read_le w;
     (detail, rest) \<leftarrow> read_pairing_text rest;
     if rest \<noteq> [] \<or> \<not> printable_text detail kMaximumPairingTextBytes then None
     else Some \<lparr>ps_outcome = outcome, ps_detail = detail\<rparr>
   }"

text \<open>The packed structure of 18 bytes in the little-endian layout of the machine.\<close>

record remote_input =
  ri_input_type :: u8
  ri_flags :: u8
  ri_x :: u32
  ri_y :: u32
  ri_virtual_key :: u16
  ri_reserved :: u16
  ri_mouse_data :: u32

definition remote_input_bad :: "remote_input \<Rightarrow> bool" where
  "remote_input_bad p \<longleftrightarrow> ri_input_type p \<noteq> 1 \<and> ri_input_type p \<noteq> 2 \<or> ri_reserved p \<noteq> 0"

definition encode_remote_input :: "remote_input \<Rightarrow> bytes" where
  "encode_remote_input p =
     (if remote_input_bad p then []
      else append_le (ri_input_type p) @ append_le (ri_flags p) @ append_le (ri_x p) @ append_le (ri_y p) @
        append_le (ri_virtual_key p) @ append_le (ri_reserved p) @ append_le (ri_mouse_data p))"

definition decode_remote_input :: "bytes \<Rightarrow> remote_input option" where
  "decode_remote_input w =
     (if length w \<noteq> 18 then None
      else do {
        (input_type, rest) \<leftarrow> read_le w;
        (flags, rest) \<leftarrow> read_le rest;
        (x, rest) \<leftarrow> read_le rest;
        (y, rest) \<leftarrow> read_le rest;
        (virtual_key, rest) \<leftarrow> read_le rest;
        (reserved, rest) \<leftarrow> read_le rest;
        (mouse_data, rest) \<leftarrow> read_le rest;
        let p = \<lparr>ri_input_type = input_type, ri_flags = flags, ri_x = x, ri_y = y, ri_virtual_key = virtual_key,
              ri_reserved = reserved, ri_mouse_data = mouse_data\<rparr> in
        if remote_input_bad p then None else Some p
      })"

section \<open>The queue keeps what it must\<close>

definition is_telemetry :: "agent_message \<Rightarrow> bool" where
  "is_telemetry m \<longleftrightarrow> am_type m = exam_telemetry_samples"

definition push_all :: "(agent_message \<times> bool) list \<Rightarrow> agent_queue \<Rightarrow> agent_queue" where
  "push_all ms q = fold (\<lambda>(m, front). queue_push m front) ms q"

definition queue_ok :: "agent_queue \<Rightarrow> bool" where
  "queue_ok q \<longleftrightarrow> length (aq_protected q) \<le> aq_capacity q \<and> length (aq_telemetry q) \<le> 8"

lemma push_bounded_length: "0 < n \<Longrightarrow> length xs \<le> n \<Longrightarrow> length (push_bounded n front m xs) \<le> n"
  by (auto simp: push_bounded_def Let_def)

lemma push_keeps:
  "aq_capacity (queue_push m front q) = aq_capacity q" "queue_ok q \<Longrightarrow> queue_ok (queue_push m front q)"
  by (auto simp: queue_push_def queue_ok_def Let_def intro!: push_bounded_length)

lemma push_protected:
  "aq_protected (queue_push m front q) = (if is_telemetry m \<or> aq_capacity q = 0 \<or> length (am_body m) > kMaximumAgentPayloadBytes
     then aq_protected q else push_bounded (aq_capacity q) front m (aq_protected q))"
  by (auto simp: queue_push_def is_telemetry_def Let_def)

lemma push_all_keeps:
  "aq_capacity (push_all ms q) = aq_capacity q" "queue_ok q \<Longrightarrow> queue_ok (push_all ms q)"
  unfolding push_all_def by (induction ms arbitrary: q) (auto simp: push_keeps)

lemma push_all_protected:
  "aq_protected q = aq_protected q' \<Longrightarrow> aq_capacity q = aq_capacity q' \<Longrightarrow>
   aq_protected (push_all ms q) = aq_protected (push_all (filter (\<lambda>a. \<not> is_telemetry (fst a)) ms) q')"
proof (induction ms arbitrary: q q')
  case (Cons a ms)
  obtain m front where a: "a = (m, front)" by (cases a)
  show ?case
  proof (cases "is_telemetry m")
    case True
    then have "aq_protected (queue_push m front q) = aq_protected q'" "aq_capacity (queue_push m front q) = aq_capacity q'"
      using Cons.prems by (simp_all add: push_protected push_keeps)
    from Cons.IH[OF this] show ?thesis using True by (simp add: a push_all_def)
  next
    case False
    have "aq_protected (queue_push m front q) = aq_protected (queue_push m front q')"
      "aq_capacity (queue_push m front q) = aq_capacity (queue_push m front q')"
      using Cons.prems by (simp_all add: push_protected push_keeps)
    from Cons.IH[OF this] show ?thesis using False by (simp add: a push_all_def)
  qed
qed (simp add: push_all_def)

text \<open>The messages the queue takes: not telemetry, and within the payload limit.\<close>

definition taken :: "(agent_message \<times> bool) list \<Rightarrow> (agent_message \<times> bool) list" where
  "taken ms = filter (\<lambda>(m, front). \<not> is_telemetry m \<and> length (am_body m) \<le> kMaximumAgentPayloadBytes) ms"

definition taken_front :: "(agent_message \<times> bool) list \<Rightarrow> agent_message list" where
  "taken_front ms = map fst (filter snd (taken ms))"

definition taken_back :: "(agent_message \<times> bool) list \<Rightarrow> agent_message list" where
  "taken_back ms = map fst (filter (\<lambda>a. \<not> snd a) (taken ms))"

lemma push_all_fits:
  "length (aq_protected q) + length (taken ms) \<le> aq_capacity q \<Longrightarrow>
   aq_protected (push_all ms q) = rev (taken_front ms) @ aq_protected q @ taken_back ms"
proof (induction ms arbitrary: q)
  case (Cons a ms)
  obtain m front where a: "a = (m, front)" by (cases a)
  show ?case
  proof (cases "is_telemetry m \<or> length (am_body m) > kMaximumAgentPayloadBytes")
    case True
    then have "aq_protected (queue_push m front q) = aq_protected q" "taken (a # ms) = taken ms"
      by (auto simp: push_protected taken_def a)
    then show ?thesis
      using Cons.IH[of "queue_push m front q"] Cons.prems
      by (simp add: a push_all_def push_keeps taken_front_def taken_back_def)
  next
    case False
    then have t: "taken (a # ms) = a # taken ms" by (simp add: taken_def a)
    have "aq_protected (queue_push m front q) = (if front then m # aq_protected q else aq_protected q @ [m])"
      using Cons.prems False t by (auto simp: push_protected push_bounded_def Let_def)
    then show ?thesis
      using Cons.IH[of "queue_push m front q"] Cons.prems t
      by (auto simp: a push_all_def push_keeps taken_front_def taken_back_def)
  qed
qed (simp add: push_all_def taken_def taken_front_def taken_back_def)

text \<open>C38. Telemetry cannot displace anything. Whatever is pushed in whatever order, at the back or at the front,
  the messages other than telemetry that wait are the ones that would wait had no telemetry been pushed, and
  both queues stay within their bounds. A message above the payload limit is dropped. As long as the other
  messages that are not telemetry fit together with those that wait, the next drain hands over all of them:
  the ones pushed at the front, the latest first, then those that waited before, then the ones pushed at the
  back in their order, followed by the oldest waiting telemetry message if there is one and by no other.\<close>

theorem telemetry_never_displaces:
  assumes "queue_ok q"
  shows "aq_protected (push_all ms q) = aq_protected (push_all (filter (\<lambda>a. \<not> is_telemetry (fst a)) ms) q) \<and>
    queue_ok (push_all ms q) \<and>
    (length (aq_protected q) + length (taken ms) \<le> aq_capacity q \<longrightarrow>
     fst (take_pending (push_all ms q)) =
       rev (taken_front ms) @ aq_protected q @ taken_back ms @ take 1 (aq_telemetry (push_all ms q)))"
proof -
  have "fst (take_pending p) = aq_protected p @ take 1 (aq_telemetry p)" for p
    by (auto simp: take_pending_def split: list.splits)
  then show ?thesis
    using push_all_protected[OF refl refl] push_all_keeps(2)[OF assms, of ms] push_all_fits[of q ms] by simp
qed

definition sample_pushes :: "(agent_message \<times> bool) list" where
  "sample_pushes = [(\<lparr>am_type = 37, am_body = [1]\<rparr>, False), (\<lparr>am_type = 19, am_body = [2]\<rparr>, False),
     (\<lparr>am_type = 37, am_body = [3]\<rparr>, False), (\<lparr>am_type = 20, am_body = [4]\<rparr>, True)]"

definition sample_queue :: agent_queue where
  "sample_queue = \<lparr>aq_capacity = 3, aq_protected = [\<lparr>am_type = 21, am_body = []\<rparr>], aq_telemetry = []\<rparr>"

theorem telemetry_never_displaces_witness:
  "map am_type (fst (take_pending (push_all sample_pushes sample_queue))) = [20, 21, 19, 37] \<and>
   queue_ok (push_all sample_pushes sample_queue)"
proof -
  have "queue_ok sample_queue" "length (aq_protected sample_queue) + length (taken sample_pushes) \<le> aq_capacity sample_queue"
    by (simp_all add: queue_ok_def sample_queue_def sample_pushes_def taken_def is_telemetry_def
        exam_telemetry_samples_def kMaximumAgentPayloadBytes_def kMaxCommandPayload_def)
  moreover have "map am_type (rev (taken_front sample_pushes) @ aq_protected sample_queue @ taken_back sample_pushes @
      take 1 (aq_telemetry (push_all sample_pushes sample_queue))) = [20, 21, 19, 37]"
    by (simp add: sample_pushes_def sample_queue_def taken_front_def taken_back_def taken_def is_telemetry_def push_all_def
        queue_push_def push_bounded_def exam_telemetry_samples_def Let_def kMaximumAgentPayloadBytes_def kMaxCommandPayload_def)
  ultimately show ?thesis using telemetry_never_displaces[of sample_queue sample_pushes] by metis
qed

section \<open>Frames on the pipe\<close>

definition open_pipe :: "pipe \<Rightarrow> bool" where
  "open_pipe p = list_all (\<lambda>c. c \<noteq> []) p"

lemma read_exact_stream:
  "open_pipe p \<Longrightarrow> n \<le> length (concat p) \<Longrightarrow>
   \<exists>p'. read_exact n p = Some (take n (concat p), p') \<and> open_pipe p' \<and> concat p' = drop n (concat p)"
proof (induction n p rule: read_exact.induct)
  case (2 n c cs)
  show ?case
  proof (cases "n = 0 \<or> length c > n")
    case True
    then show ?thesis using "2.prems" by (auto simp: open_pipe_def)
  next
    case False
    have "open_pipe cs" "n - length c \<le> length (concat cs)" using "2.prems" by (auto simp: open_pipe_def)
    then obtain p' where "read_exact (n - length c) cs = Some (take (n - length c) (concat cs), p')" "open_pipe p'"
      "concat p' = drop (n - length c) (concat cs)"
      using "2.IH" False "2.prems" by (auto simp: open_pipe_def)
    then show ?thesis using False "2.prems" by (auto simp: open_pipe_def)
  qed
qed (auto simp: open_pipe_def)

definition message_ok :: "agent_message \<Rightarrow> bool" where
  "message_ok m \<longleftrightarrow> valid_type (am_type m) \<and> length (am_body m) \<le> kMaximumAgentPayloadBytes"

lemma body_length: "length b \<le> kMaximumAgentPayloadBytes \<Longrightarrow> unat (of_nat (length b) :: u32) = length b"
  by (rule length_u32) (simp add: kMaximumAgentPayloadBytes_def kMaxCommandPayload_def)

interpretation agent_codec: strict_codec encode_agent_message decode_agent_message message_ok
proof
  fix m assume "message_ok m"
  then show "decode_agent_message (encode_agent_message m) = Some m"
    by (simp add: encode_agent_message_def decode_agent_message_def message_ok_def kAgentHeaderBytes_def body_length not_less)
next
  fix w m assume "decode_agent_message w = Some m"
  then obtain t n b where "w = append_le kAgentMagic @ append_le kAgentVersion @ append_le t @ append_le (n :: u32) @ b"
    "m = \<lparr>am_type = t, am_body = b\<rparr>" "valid_type t" "unat n \<le> kMaximumAgentPayloadBytes" "length b = unat n"
    by (auto simp: decode_agent_message_def bind_eq_Some_conv reader_iffs not_less split: if_splits)
  then show "message_ok m \<and> encode_agent_message m = w"
    by (auto simp: message_ok_def encode_agent_message_def)
qed

text \<open>A message sent over the pipe arrives. However the bytes of a frame and of what follows it are cut into
  chunks, the reader returns that message and leaves on the pipe exactly the bytes behind it; and the
  decoder accepts nothing but frames of known types within the size limit.\<close>

theorem pipe_frame_roundtrip:
  assumes "message_ok m" "open_pipe p" "concat p = encode_agent_message m @ rest"
  shows "(\<exists>p'. receive_agent_message p = Some (m, p') \<and> open_pipe p' \<and> concat p' = rest) \<and>
         (decode_agent_message w = Some x \<longleftrightarrow> message_ok x \<and> encode_agent_message x = w)"
proof -
  let ?n = "of_nat (length (am_body m)) :: u32"
  let ?h = "append_le kAgentMagic @ append_le kAgentVersion @ append_le (am_type m) @ append_le ?n"
  have e: "encode_agent_message m = ?h @ am_body m" and n: "unat ?n = length (am_body m)"
      "unat ?n \<le> kMaximumAgentPayloadBytes"
    using assms(1) by (simp_all add: encode_agent_message_def message_ok_def body_length not_less)
  have h: "length ?h = 12" by simp
  obtain p1 where p1: "read_exact 12 p = Some (?h, p1)" "open_pipe p1" "concat p1 = am_body m @ rest"
    using read_exact_stream[OF assms(2), of 12] assms(3) h unfolding e by auto
  obtain p2 where p2: "read_exact (unat ?n) p1 = Some (am_body m, p2)" "open_pipe p2" "concat p2 = rest"
    using read_exact_stream[OF p1(2), of "unat ?n"] p1(3) n by auto
  have body: "(if ?n \<noteq> 0 then read_exact (unat ?n) p1 else Some ([], p1)) = Some (am_body m, p2) \<or>
      am_body m = [] \<and> ?n = 0"
    using p2 n by (auto simp: unat_eq_0)
  have d: "decode_agent_message (?h @ am_body m) = Some m" using agent_codec.dec_enc[OF assms(1)] e by simp
  have l: "read_le (drop 8 ?h) = Some (?n, [])" using read_le_u32[of ?n "[]"] by simp
  have "\<exists>p'. receive_agent_message p = Some (m, p') \<and> open_pipe p' \<and> concat p' = rest"
  proof (cases "?n = 0")
    case True
    then have "am_body m = []" using n by (simp add: unat_eq_0 [symmetric])
    then show ?thesis using p1 l n d True by (auto simp: receive_agent_message_def kAgentHeaderBytes_def simp del: append_assoc)
  next
    case False
    then show ?thesis using p1 p2 l n d by (auto simp: receive_agent_message_def kAgentHeaderBytes_def simp del: append_assoc)
  qed
  then show ?thesis using agent_codec.dec_iff by blast
qed

theorem pipe_frame_roundtrip_witness:
  "concat [[0x4e, 0x49], [0x50, 0x43, 1, 0, 24, 0, 1], [0, 0, 0, 9, 7]] = encode_agent_message \<lparr>am_type = 24, am_body = [9]\<rparr> @ [7] \<and>
   (\<exists>p'. receive_agent_message [[0x4e, 0x49], [0x50, 0x43, 1, 0, 24, 0, 1], [0, 0, 0, 9, 7]] =
     Some (\<lparr>am_type = 24, am_body = [9]\<rparr>, p') \<and> open_pipe p' \<and> concat p' = [7])"
proof -
  have c: "concat [[0x4e, 0x49], [0x50, 0x43, 1, 0, 24, 0, 1], [0, 0, 0, 9, 7]] =
      encode_agent_message \<lparr>am_type = 24, am_body = [9]\<rparr> @ [7]"
  proof -
    have "encode_agent_message \<lparr>am_type = 24, am_body = [9]\<rparr> =
        append_le kAgentMagic @ append_le kAgentVersion @ append_le (24 :: u16) @ append_le (1 :: u32) @ [9]"
      by (simp add: encode_agent_message_def valid_type_def host_broadcast_mode_def kMaximumAgentPayloadBytes_def
          kMaxCommandPayload_def)
    moreover have "append_le kAgentMagic @ append_le kAgentVersion @ append_le (24 :: u16) @ append_le (1 :: u32) @ [9, 7] =
        concat [[0x4e, 0x49], [0x50, 0x43, 1, 0, 24, 0, 1], [0, 0, 0, 9, 7]]"
      by code_simp
    ultimately show ?thesis by simp
  qed
  have m: "message_ok \<lparr>am_type = 24, am_body = [9]\<rparr>"
    by (simp add: message_ok_def valid_type_def host_broadcast_mode_def kMaximumAgentPayloadBytes_def kMaxCommandPayload_def)
  have o: "open_pipe [[0x4e, 0x49], [0x50, 0x43, 1, 0, 24, 0, 1], [0, 0, 0, 9, 7]]" by (simp add: open_pipe_def)
  from pipe_frame_roundtrip[OF m o c] c show ?thesis by blast
qed

section \<open>The payloads\<close>

lemma flag_byte_of: "(v :: u8) \<le> 1 \<Longrightarrow> flag_byte (v \<noteq> 0) = v"
  using byte_le_1[of v] by auto

interpretation agent_status_codec: strict_codec encode_agent_status decode_agent_status "\<lambda>s. \<not> agent_rates_bad s"
proof
  fix s assume "\<not> agent_rates_bad s"
  moreover have "\<not> flag_byte b > 1" "(flag_byte b \<noteq> 0) = b" for b by simp_all
  ultimately show "decode_agent_status (encode_agent_status s) = Some s"
    by (simp add: encode_agent_status_def decode_agent_status_def Let_def read_le_u32 [of _ "[]", simplified]
        agent_rates_bad_def)
next
  fix w s assume "decode_agent_status w = Some s"
  then obtain l st sn v :: u8 and f i d r where "w = append_le l @ append_le st @ append_le sn @ append_le v @ append_le f @
      append_le i @ append_le d @ r" and l: "length w = 11"
    and c: "l \<le> 1" "st \<le> 1" "sn \<le> 1" "v \<le> 1"
    and s: "s = \<lparr>as_locked = (l \<noteq> 0), as_streaming = (st \<noteq> 0), as_snapshotting = (sn \<noteq> 0),
      as_viewing_broadcast = (v \<noteq> 0), as_frames_per_second = f, as_snapshot_interval_seconds = i, as_session_id = d\<rparr>"
      "\<not> agent_rates_bad s"
    by (auto simp: decode_agent_status_def bind_eq_Some_conv reader_iffs Let_def not_less split: if_splits)
  then show "\<not> agent_rates_bad s \<and> encode_agent_status s = w"
    by (simp add: encode_agent_status_def flag_byte_of[OF c(1)] flag_byte_of[OF c(2)] flag_byte_of[OF c(3)]
        flag_byte_of[OF c(4)] del: One_nat_def)
qed

lemma printable_bound: "printable_text t n \<Longrightarrow> t \<noteq> [] \<and> length t \<le> n"
  by (auto simp: printable_text_def split: if_splits)

lemma pairing_text_append: "length t \<le> 128 \<Longrightarrow> read_pairing_text (append_text t @ rest) = Some (t, rest)"
  by (simp add: read_pairing_text_def append_text_def length_u16 kMaximumPairingTextBytes_def)

lemma pairing_text_iff: "read_pairing_text w = Some (t, rest) \<longleftrightarrow> length t \<le> 128 \<and> w = append_text t @ rest"
proof
  assume "read_pairing_text w = Some (t, rest)"
  then obtain n r where "w = append_le (n :: u16) @ r" "unat n \<le> 128" "unat n \<le> length r" "t = take (unat n) r"
    "rest = drop (unat n) r"
    by (auto simp: read_pairing_text_def bind_eq_Some_conv reader_iffs kMaximumPairingTextBytes_def not_less split: if_splits)
  then show "length t \<le> 128 \<and> w = append_text t @ rest" by (auto simp: append_text_def min_absorb2)
qed (simp add: pairing_text_append)

lemma read_choices_iff:
  "read_choices n w = Some (cs, rest) \<longleftrightarrow> length cs = n \<and> list_all choice_ok cs \<and> w = concat (map encode_choice cs) @ rest"
proof (induction n arbitrary: w cs)
  case (Suc n)
  have ok: "choice_ok c \<Longrightarrow> length (pc_server_name c) \<le> 128 \<and> length (pc_address c) \<le> 128" for c
    by (auto simp: choice_ok_def kMaximumPairingTextBytes_def dest!: printable_bound)
  have "read_choices (Suc n) w = Some (cs, rest) \<longleftrightarrow>
      (\<exists>c r cs'. w = encode_choice c @ r \<and> choice_ok c \<and> read_choices n r = Some (cs', rest) \<and> cs = c # cs')"
    (is "?l \<longleftrightarrow> ?r")
  proof
    assume ?l
    then show ?r
      by (fastforce simp: bind_eq_Some_conv pairing_text_iff reader_iffs Let_def encode_choice_def split: if_splits)
  next
    assume ?r
    then show ?l using ok by (auto simp: encode_choice_def pairing_text_append Let_def) (simp add: choice_ok_def)
  qed
  then show ?case unfolding Suc.IH by (cases cs) auto
qed auto

interpretation choices_codec: strict_codec encode_agent_pairing_choices decode_agent_pairing_choices
  "\<lambda>cs. cs \<noteq> [] \<and> length cs \<le> 8 \<and> list_all choice_ok cs"
proof
  fix cs assume cs: "cs \<noteq> [] \<and> length cs \<le> 8 \<and> list_all choice_ok cs"
  have u: "unat (of_nat (length cs) :: u8) = length cs" using cs by (simp add: unat_of_nat take_bit_nat_eq_self)
  then have "(of_nat (length cs) :: u8) \<noteq> 0" using cs by (auto simp: unat_eq_0 [symmetric])
  moreover have "read_choices (length cs) (concat (map encode_choice cs)) = Some (cs, [])"
    using cs by (simp add: read_choices_iff)
  ultimately show "decode_agent_pairing_choices (encode_agent_pairing_choices cs) = Some cs"
    using cs u by (simp add: encode_agent_pairing_choices_def decode_agent_pairing_choices_def kMaximumPairingChoices_def)
next
  fix w cs assume "decode_agent_pairing_choices w = Some cs"
  then obtain n where "w = append_le (n :: u8) @ concat (map encode_choice cs)" "n \<noteq> 0" "unat n \<le> 8" "length cs = unat n"
    "list_all choice_ok cs"
    by (auto simp: decode_agent_pairing_choices_def bind_eq_Some_conv reader_iffs read_choices_iff
        kMaximumPairingChoices_def not_less split: if_splits)
  then show "(cs \<noteq> [] \<and> length cs \<le> 8 \<and> list_all choice_ok cs) \<and> encode_agent_pairing_choices cs = w"
    by (auto simp: encode_agent_pairing_choices_def kMaximumPairingChoices_def unat_eq_0)
qed

interpretation selection_codec: strict_codec encode_agent_pairing_selection decode_agent_pairing_selection "\<lambda>i. unat i < 8"
  by unfold_locales (auto simp: encode_agent_pairing_selection_def decode_agent_pairing_selection_def
      kMaximumPairingChoices_def bind_eq_Some_conv reader_iffs read_le_u16 [of _ "[]", simplified] split: if_splits)

interpretation code_codec: strict_codec encode_agent_pairing_code decode_agent_pairing_code pairing_code_ok
proof
  fix c assume c: "pairing_code_ok c"
  then have "length (pk_code c) \<le> 128" "length (pk_server_name c) \<le> 128"
    by (auto simp: pairing_code_ok_def kSasDigits_def kMaximumPairingTextBytes_def dest!: printable_bound)
  then show "decode_agent_pairing_code (encode_agent_pairing_code c) = Some c"
    using c pairing_text_append[of "pk_server_name c" "[]"]
    by (simp add: encode_agent_pairing_code_def decode_agent_pairing_code_def pairing_text_append Let_def)
      (simp add: pairing_code_ok_def)
next
  fix w c assume "decode_agent_pairing_code w = Some c"
  then show "pairing_code_ok c \<and> encode_agent_pairing_code c = w"
    by (auto simp: encode_agent_pairing_code_def decode_agent_pairing_code_def bind_eq_Some_conv pairing_text_iff Let_def
        split: if_splits)
qed

interpretation pairing_status_codec: strict_codec encode_agent_pairing_status decode_agent_pairing_status
  "\<lambda>s. printable_text (ps_detail s) kMaximumPairingTextBytes"
proof
  fix s :: pairing_status assume s: "printable_text (ps_detail s) kMaximumPairingTextBytes"
  then have "length (ps_detail s) \<le> 128" by (auto simp: kMaximumPairingTextBytes_def dest!: printable_bound)
  then show "decode_agent_pairing_status (encode_agent_pairing_status s) = Some s"
    using s pairing_text_append[of "ps_detail s" "[]"]
    by (simp add: encode_agent_pairing_status_def decode_agent_pairing_status_def)
next
  fix w s assume "decode_agent_pairing_status w = Some s"
  then show "printable_text (ps_detail s) kMaximumPairingTextBytes \<and> encode_agent_pairing_status s = w"
    by (auto simp: encode_agent_pairing_status_def decode_agent_pairing_status_def bind_eq_Some_conv pairing_text_iff
        reader_iffs split: if_splits)
qed

interpretation input_codec: strict_codec encode_remote_input decode_remote_input "\<lambda>p. \<not> remote_input_bad p"
proof
  fix p assume "\<not> remote_input_bad p"
  then show "decode_remote_input (encode_remote_input p) = Some p"
    by (simp add: encode_remote_input_def decode_remote_input_def Let_def remote_input_bad_def
        read_le_u32 [of _ "[]", simplified])
next
  fix w p assume "decode_remote_input w = Some p"
  then show "\<not> remote_input_bad p \<and> encode_remote_input p = w"
    by (auto simp: encode_remote_input_def decode_remote_input_def bind_eq_Some_conv reader_iffs Let_def split: if_splits)
qed

text \<open>The payloads the agent shows or acts on have one wire form each: what decodes as a status, a list of servers
  to pair with, a choice, a pairing code, a pairing status or a remote input event is the encoding of a valid
  value of that kind, and every valid value is read back.\<close>

theorem agent_payloads_exact:
  "(decode_agent_status w = Some s \<longleftrightarrow> \<not> agent_rates_bad s \<and> encode_agent_status s = w) \<and>
   (decode_agent_pairing_choices w = Some cs \<longleftrightarrow>
      (cs \<noteq> [] \<and> length cs \<le> 8 \<and> list_all choice_ok cs) \<and> encode_agent_pairing_choices cs = w) \<and>
   (decode_agent_pairing_selection w = Some i \<longleftrightarrow> unat i < 8 \<and> encode_agent_pairing_selection i = w) \<and>
   (decode_agent_pairing_code w = Some c \<longleftrightarrow> pairing_code_ok c \<and> encode_agent_pairing_code c = w) \<and>
   (decode_agent_pairing_status w = Some ps \<longleftrightarrow>
      printable_text (ps_detail ps) kMaximumPairingTextBytes \<and> encode_agent_pairing_status ps = w) \<and>
   (decode_remote_input w = Some p \<longleftrightarrow> \<not> remote_input_bad p \<and> encode_remote_input p = w)"
  using agent_status_codec.dec_iff choices_codec.dec_iff selection_codec.dec_iff code_codec.dec_iff
    pairing_status_codec.dec_iff input_codec.dec_iff by simp

end
