(* ===== verification/TelemetryMessages.thy ===== *)
theory TelemetryMessages
  imports ExamSync
begin

text \<open>
  The exam telemetry messages of \<^verbatim>\<open>common/src/exam_telemetry.cpp\<close>: samples, batches of samples, the
  acknowledgement of a batch and the permission to collect. Kinds, sources, reasons and states
  are enumerations over a fixed integer type, so a field holds any value of that type and the
  validation looks at its range. Digests and identifiers are byte lists whose lengths, fixed by
  \<open>std::array\<close> in the code, are the predicates \<open>batch_wf\<close>, \<open>tack_wf\<close> and \<open>enable_wf\<close>.

  Shown: every message has one wire form, and the limits on the size of a sample and of a batch
  never reject a valid one.
\<close>

section \<open>Limits\<close>

definition kMaximumTelemetrySampleBytes :: nat where "kMaximumTelemetrySampleBytes = 4 * 1024"
definition kMaximumTelemetryBatchBytes :: nat where "kMaximumTelemetryBatchBytes = 32 * 1024"
definition kMinimumBatchSamples :: nat where "kMinimumBatchSamples = 1"
definition kMaximumBatchSamples :: nat where "kMaximumBatchSamples = 32"
definition kTelemetrySampleFixedBytes :: nat where "kTelemetrySampleFixedBytes = 56"
definition kTelemetryBatchFixedBytes :: nat where "kTelemetryBatchFixedBytes = 108"
definition kTelemetryAckFixedBytes :: nat where "kTelemetryAckFixedBytes = 88"
definition kTelemetryEnableFixedBytes :: nat where "kTelemetryEnableFixedBytes = 84"
definition kMaximumTelemetryEnableBytes :: nat where "kMaximumTelemetryEnableBytes = 16 * 1024"
definition kSampleMagic :: u32 where "kSampleMagic = 0x3153544e"
definition kBatchMagic :: u32 where "kBatchMagic = 0x3154424e"
definition kTelemetryAckMagic :: u32 where "kTelemetryAckMagic = 0x3141544e"
definition kEnableMagic :: u32 where "kEnableMagic = 0x3145454e"

lemmas telemetry_limits = kMaximumTelemetrySampleBytes_def kMaximumTelemetryBatchBytes_def kMinimumBatchSamples_def
  kMaximumBatchSamples_def kTelemetrySampleFixedBytes_def kTelemetryBatchFixedBytes_def kTelemetryAckFixedBytes_def
  kTelemetryEnableFixedBytes_def kMaximumTelemetryEnableBytes_def kMaximumPackageIdBytes_def kMaximumCandidateIdBytes_def
  kMaximumQuestionIdBytes_def

section \<open>Text\<close>

abbreviation continuation :: "u8 \<Rightarrow> bool" where "continuation b \<equiv> b AND 0xc0 = 0x80"

function is_valid_utf8 :: "bytes \<Rightarrow> bool" where
  "is_valid_utf8 [] = True"
| "is_valid_utf8 (b # bs) =
     (if b = 0 then False
      else if b \<le> 0x7f then is_valid_utf8 bs
      else if b AND 0xe0 = 0xc0
      then (if length bs < 1 \<or> \<not> continuation (bs ! 0) then False
            else if b < 0xc2 then False
            else is_valid_utf8 (drop 1 bs))
      else if b AND 0xf0 = 0xe0
      then (if length bs < 2 \<or> \<not> continuation (bs ! 0) \<or> \<not> continuation (bs ! 1) then False
            else if b = 0xe0 \<and> bs ! 0 < 0xa0 then False
            else if b = 0xed \<and> bs ! 0 \<ge> 0xa0 then False
            else is_valid_utf8 (drop 2 bs))
      else if b AND 0xf8 = 0xf0
      then (if length bs < 3 \<or> \<not> continuation (bs ! 0) \<or> \<not> continuation (bs ! 1) \<or> \<not> continuation (bs ! 2) then False
            else if b = 0xf0 \<and> bs ! 0 < 0x90 then False
            else if b = 0xf4 \<and> bs ! 0 > 0x8f then False
            else if b > 0xf4 then False
            else is_valid_utf8 (drop 3 bs))
      else False)"
  by pat_completeness auto
termination
  by (relation "measure length") auto

definition telemetry_text :: "bytes \<Rightarrow> nat \<Rightarrow> bool \<Rightarrow> bool" where
  "telemetry_text v maximum allow_empty =
     (if v = [] then allow_empty else if length v > maximum then False else is_valid_utf8 v)"

definition append_string :: "bytes \<Rightarrow> bytes" where
  "append_string t = append_le (len16 t) @ t"

definition read_telemetry_string :: "nat \<Rightarrow> bool \<Rightarrow> bytes \<Rightarrow> (bytes \<times> bytes) option" where
  "read_telemetry_string maximum allow_empty w =
     do {
       (len :: u16, w) \<leftarrow> read_le w;
       if unat len > maximum \<or> (\<not> allow_empty \<and> len = 0) then None
       else do {
         (t, w) \<leftarrow> read_array (unat len) w;
         if telemetry_text t maximum allow_empty then Some (t, w) else None
       }
     }"

section \<open>Samples\<close>

record telemetry_sample =
  ts_kind :: u8
  ts_source :: u8
  ts_collector_id :: u64
  ts_question_id :: bytes
  ts_question_revision :: u32
  ts_elapsed :: u64
  ts_duration :: u32
  ts_client_time :: u64
  ts_numeric :: u32
  ts_count :: u32
  ts_reason :: u32

definition valid_sample_kind :: "u8 \<Rightarrow> bool" where "valid_sample_kind k \<longleftrightarrow> k \<ge> 1 \<and> k \<le> 11"
definition valid_source :: "u8 \<Rightarrow> bool" where "valid_source s \<longleftrightarrow> s = 1 \<or> s = 2"
definition valid_telemetry_reason :: "u32 \<Rightarrow> bool" where "valid_telemetry_reason r \<longleftrightarrow> r \<le> 20"

definition validate_telemetry_sample :: "telemetry_sample \<Rightarrow> bool" where
  "validate_telemetry_sample s =
     (if \<not> valid_sample_kind (ts_kind s) \<or> \<not> valid_source (ts_source s) \<or> \<not> valid_telemetry_reason (ts_reason s) then False
      else if ts_collector_id s = 0 \<or> ts_client_time s = 0 then False
      else if ts_question_id s = [] then ts_question_revision s = 0
      else if ts_question_revision s = 0 then False
      else telemetry_text (ts_question_id s) kMaximumQuestionIdBytes False)"

definition encode_telemetry_sample :: "telemetry_sample \<Rightarrow> bytes" where
  "encode_telemetry_sample s =
     (if \<not> validate_telemetry_sample s then []
      else let wire =
             append_le kSampleMagic @ append_le kWireVersion @ append_le (ts_kind s) @ append_le (ts_source s) @
             append_le (0 :: u16) @ append_le (ts_collector_id s) @ append_le (ts_elapsed s) @ append_le (ts_duration s) @
             append_le (ts_client_time s) @ append_le (ts_numeric s) @ append_le (ts_count s) @ append_le (ts_reason s) @
             append_le (ts_question_revision s) @ append_string (ts_question_id s)
           in if length wire > kMaximumTelemetrySampleBytes then [] else wire)"

definition decode_telemetry_sample :: "bytes \<Rightarrow> telemetry_sample option" where
  "decode_telemetry_sample w =
     (if length w < kTelemetrySampleFixedBytes \<or> length w > kMaximumTelemetrySampleBytes then None
      else do {
        (magic, w) \<leftarrow> read_le w;
        if magic \<noteq> kSampleMagic then None else do {
        (version, w) \<leftarrow> read_le w;
        if version \<noteq> kWireVersion then None else do {
        (kind, w) \<leftarrow> read_le w;
        (source, w) \<leftarrow> read_le w;
        (reserved :: u16, w) \<leftarrow> read_le w;
        if reserved \<noteq> 0 then None else do {
        (collector, w) \<leftarrow> read_le w;
        (elapsed, w) \<leftarrow> read_le w;
        (duration, w) \<leftarrow> read_le w;
        (time, w) \<leftarrow> read_le w;
        (numeric, w) \<leftarrow> read_le w;
        (count, w) \<leftarrow> read_le w;
        (reason, w) \<leftarrow> read_le w;
        if \<not> valid_telemetry_reason reason then None else do {
        (revision, w) \<leftarrow> read_le w;
        (question, w) \<leftarrow> read_telemetry_string kMaximumQuestionIdBytes True w;
        let s = \<lparr>ts_kind = kind, ts_source = source, ts_collector_id = collector, ts_question_id = question,
                 ts_question_revision = revision, ts_elapsed = elapsed, ts_duration = duration, ts_client_time = time,
                 ts_numeric = numeric, ts_count = count, ts_reason = reason\<rparr>
        in if w \<noteq> [] then None else if \<not> validate_telemetry_sample s then None else Some s
      }}}}})"

section \<open>Batches\<close>

record telemetry_batch =
  tb_package_id :: bytes
  tb_package_digest :: bytes
  tb_client_id :: bytes
  tb_session_id :: bytes
  tb_candidate_id :: bytes
  tb_producer_id :: bytes
  tb_sequence :: u64
  tb_first_enqueued :: u64
  tb_samples :: "telemetry_sample list"

definition validate_telemetry_batch :: "telemetry_batch \<Rightarrow> bool" where
  "validate_telemetry_batch b =
     (if tb_sequence b = 0 \<or> tb_first_enqueued b = 0 then False
      else if all_zero (tb_package_digest b) \<or> all_zero (tb_client_id b) \<or> all_zero (tb_session_id b) \<or>
              all_zero (tb_producer_id b) then False
      else if \<not> telemetry_text (tb_package_id b) kMaximumPackageIdBytes False \<or>
              \<not> telemetry_text (tb_candidate_id b) kMaximumCandidateIdBytes False then False
      else if length (tb_samples b) < kMinimumBatchSamples \<or> length (tb_samples b) > kMaximumBatchSamples then False
      else list_all validate_telemetry_sample (tb_samples b))"

text \<open>The loop over the samples; \<open>None\<close> is the early return.\<close>

fun encode_samples :: "telemetry_sample list \<Rightarrow> bytes option" where
  "encode_samples [] = Some []"
| "encode_samples (s # ss) =
     (let wire = encode_telemetry_sample s
      in if wire = [] \<or> length wire > kMaximumTelemetrySampleBytes then None
         else map_option (\<lambda>rest. append_le (len16 wire) @ wire @ rest) (encode_samples ss))"

definition encode_telemetry_batch :: "telemetry_batch \<Rightarrow> bytes" where
  "encode_telemetry_batch b =
     (if \<not> validate_telemetry_batch b then []
      else case encode_samples (tb_samples b) of
        None \<Rightarrow> []
      | Some samples \<Rightarrow>
          (let wire =
             append_le kBatchMagic @ append_le kWireVersion @ append_le (word_of_nat (length (tb_samples b)) :: u16) @
             append_le (tb_sequence b) @ append_le (tb_first_enqueued b) @ tb_package_digest b @ tb_client_id b @
             tb_session_id b @ tb_producer_id b @ append_string (tb_package_id b) @ append_string (tb_candidate_id b) @ samples
           in if length wire > kMaximumTelemetryBatchBytes then [] else wire))"

fun read_samples :: "nat \<Rightarrow> bytes \<Rightarrow> (telemetry_sample list \<times> bytes) option" where
  "read_samples 0 w = Some ([], w)"
| "read_samples (Suc n) w =
     do {
       (len :: u16, w) \<leftarrow> read_le w;
       if unat len > kMaximumTelemetrySampleBytes then None else do {
       (sample_wire, w) \<leftarrow> read_array (unat len) w;
       s \<leftarrow> decode_telemetry_sample sample_wire;
       (ss, w) \<leftarrow> read_samples n w;
       Some (s # ss, w) }
     }"

definition decode_telemetry_batch :: "bytes \<Rightarrow> telemetry_batch option" where
  "decode_telemetry_batch w =
     (if length w < kTelemetryBatchFixedBytes + 2 + 2 + kTelemetrySampleFixedBytes \<or>
         length w > kMaximumTelemetryBatchBytes then None
      else do {
        (magic, w) \<leftarrow> read_le w;
        if magic \<noteq> kBatchMagic then None else do {
        (version, w) \<leftarrow> read_le w;
        if version \<noteq> kWireVersion then None else do {
        (sample_count :: u16, w) \<leftarrow> read_le w;
        if unat sample_count < kMinimumBatchSamples \<or> unat sample_count > kMaximumBatchSamples then None else do {
        (sequence, w) \<leftarrow> read_le w;
        (enqueued, w) \<leftarrow> read_le w;
        (digest, w) \<leftarrow> read_array 32 w;
        (client, w) \<leftarrow> read_array 16 w;
        (session, w) \<leftarrow> read_array 16 w;
        (producer, w) \<leftarrow> read_array 16 w;
        (package, w) \<leftarrow> read_telemetry_string kMaximumPackageIdBytes False w;
        (candidate, w) \<leftarrow> read_telemetry_string kMaximumCandidateIdBytes False w;
        (samples, w) \<leftarrow> read_samples (unat sample_count) w;
        let b = \<lparr>tb_package_id = package, tb_package_digest = digest, tb_client_id = client, tb_session_id = session,
                 tb_candidate_id = candidate, tb_producer_id = producer, tb_sequence = sequence,
                 tb_first_enqueued = enqueued, tb_samples = samples\<rparr>
        in if w \<noteq> [] then None else if \<not> validate_telemetry_batch b then None else Some b
      }}}})"

definition compute_telemetry_batch_hash :: "(bytes \<Rightarrow> bytes option) \<Rightarrow> telemetry_batch \<Rightarrow> bytes option" where
  "compute_telemetry_batch_hash sha b =
     (let wire = encode_telemetry_batch b in if wire = [] then None else sha wire)"

section \<open>Acknowledgement and permission\<close>

record telemetry_ack =
  ta_session_id :: bytes
  ta_producer_id :: bytes
  ta_sequence :: u64
  ta_batch_hash :: bytes
  ta_server_time :: u64
  ta_status :: u8

definition tack_accepted :: u8 where "tack_accepted = 1"
definition tack_duplicate :: u8 where "tack_duplicate = 2"
definition tack_rejected :: u8 where "tack_rejected = 3"
definition tack_conflict :: u8 where "tack_conflict = 4"
definition tack_unavailable :: u8 where "tack_unavailable = 5"

definition valid_ack_status :: "u8 \<Rightarrow> bool" where "valid_ack_status s \<longleftrightarrow> s \<ge> tack_accepted \<and> s \<le> tack_unavailable"

definition validate_telemetry_ack :: "telemetry_ack \<Rightarrow> bool" where
  "validate_telemetry_ack a =
     (if \<not> valid_ack_status (ta_status a) then False
      else if ta_sequence a = 0 \<or> ta_server_time a = 0 then False
      else \<not> (all_zero (ta_session_id a) \<or> all_zero (ta_producer_id a)))"

definition encode_telemetry_ack :: "telemetry_ack \<Rightarrow> bytes" where
  "encode_telemetry_ack a =
     (if \<not> validate_telemetry_ack a then []
      else append_le kTelemetryAckMagic @ append_le kWireVersion @ append_le (ta_status a) @ append_le (0 :: u8) @
           append_le (ta_sequence a) @ append_le (ta_server_time a) @ ta_session_id a @ ta_producer_id a @ ta_batch_hash a)"

definition decode_telemetry_ack :: "bytes \<Rightarrow> telemetry_ack option" where
  "decode_telemetry_ack w =
     (if length w \<noteq> kTelemetryAckFixedBytes then None
      else do {
        (magic, w) \<leftarrow> read_le w;
        if magic \<noteq> kTelemetryAckMagic then None else do {
        (version, w) \<leftarrow> read_le w;
        if version \<noteq> kWireVersion then None else do {
        (status, w) \<leftarrow> read_le w;
        (reserved :: u8, w) \<leftarrow> read_le w;
        if reserved \<noteq> 0 then None else do {
        (sequence, w) \<leftarrow> read_le w;
        (time, w) \<leftarrow> read_le w;
        (session, w) \<leftarrow> read_array 16 w;
        (producer, w) \<leftarrow> read_array 16 w;
        (hash, w) \<leftarrow> read_array 32 w;
        let a = \<lparr>ta_session_id = session, ta_producer_id = producer, ta_sequence = sequence, ta_batch_hash = hash,
                 ta_server_time = time, ta_status = status\<rparr>
        in if w \<noteq> [] then None else if \<not> validate_telemetry_ack a then None else Some a
      }}}})"

record telemetry_enable =
  te_package_id :: bytes
  te_package_digest :: bytes
  te_client_id :: bytes
  te_session_id :: bytes
  te_candidate_id :: bytes
  te_server_time :: u64

definition validate_telemetry_enable :: "telemetry_enable \<Rightarrow> bool" where
  "validate_telemetry_enable e =
     (if all_zero (te_package_digest e) \<or> all_zero (te_client_id e) \<or> all_zero (te_session_id e) then False
      else telemetry_text (te_package_id e) kMaximumPackageIdBytes False \<and>
           telemetry_text (te_candidate_id e) kMaximumCandidateIdBytes False)"

definition encode_telemetry_enable :: "telemetry_enable \<Rightarrow> bytes" where
  "encode_telemetry_enable e =
     (if \<not> validate_telemetry_enable e then []
      else append_le kEnableMagic @ append_le kWireVersion @ append_le (0 :: u16) @ append_le (te_server_time e) @
           te_package_digest e @ te_client_id e @ te_session_id e @ append_string (te_package_id e) @
           append_string (te_candidate_id e))"

definition decode_telemetry_enable :: "bytes \<Rightarrow> telemetry_enable option" where
  "decode_telemetry_enable w =
     (if length w < kTelemetryEnableFixedBytes + 2 \<or> length w > kMaximumTelemetryEnableBytes then None
      else do {
        (magic, w) \<leftarrow> read_le w;
        if magic \<noteq> kEnableMagic then None else do {
        (version, w) \<leftarrow> read_le w;
        if version \<noteq> kWireVersion then None else do {
        (reserved :: u16, w) \<leftarrow> read_le w;
        if reserved \<noteq> 0 then None else do {
        (time, w) \<leftarrow> read_le w;
        (digest, w) \<leftarrow> read_array 32 w;
        (client, w) \<leftarrow> read_array 16 w;
        (session, w) \<leftarrow> read_array 16 w;
        (package, w) \<leftarrow> read_telemetry_string kMaximumPackageIdBytes False w;
        (candidate, w) \<leftarrow> read_telemetry_string kMaximumCandidateIdBytes False w;
        let e = \<lparr>te_package_id = package, te_package_digest = digest, te_client_id = client, te_session_id = session,
                 te_candidate_id = candidate, te_server_time = time\<rparr>
        in if w \<noteq> [] then None else if \<not> validate_telemetry_enable e then None else Some e
      }}}})"

section \<open>One wire form per message\<close>

lemma telemetry_text_length: "telemetry_text t m e \<Longrightarrow> length t \<le> m"
  by (auto simp: telemetry_text_def split: if_splits)

lemma length_append_string [simp]: "length (append_string t) = 2 + length t"
  by (simp add: append_string_def)

lemma read_telemetry_string_iff:
  assumes "m < 2 ^ 16"
  shows "read_telemetry_string m e w = Some (t, rest) \<longleftrightarrow> telemetry_text t m e \<and> w = append_string t @ rest"
proof
  assume "read_telemetry_string m e w = Some (t, rest)"
  then obtain n :: u16 where "w = append_le n @ t @ rest" "unat n = length t" "telemetry_text t m e"
    by (auto simp: read_telemetry_string_def bind_eq_Some_conv reader_iffs split: if_splits)
  then show "telemetry_text t m e \<and> w = append_string t @ rest"
    using len16_unat [of n t] by (simp add: append_string_def)
next
  assume r: "telemetry_text t m e \<and> w = append_string t @ rest"
  then have "unat (len16 t) = length t" "length t \<le> m" using assms telemetry_text_length unat_len16 by fastforce+
  moreover have "e \<or> t \<noteq> []" using r by (auto simp: telemetry_text_def)
  ultimately show "read_telemetry_string m e w = Some (t, rest)"
    using r by (auto simp: read_telemetry_string_def append_string_def unat_eq_zero [symmetric])
qed

lemma sample_question: "validate_telemetry_sample s \<Longrightarrow> telemetry_text (ts_question_id s) 128 True"
  by (auto simp: validate_telemetry_sample_def telemetry_text_def telemetry_limits split: if_splits)

lemma encode_sample_eq:
  assumes "validate_telemetry_sample s"
  shows "encode_telemetry_sample s =
    append_le kSampleMagic @ append_le kWireVersion @ append_le (ts_kind s) @ append_le (ts_source s) @
    append_le (0 :: u16) @ append_le (ts_collector_id s) @ append_le (ts_elapsed s) @ append_le (ts_duration s) @
    append_le (ts_client_time s) @ append_le (ts_numeric s) @ append_le (ts_count s) @ append_le (ts_reason s) @
    append_le (ts_question_revision s) @ append_string (ts_question_id s)"
  using assms telemetry_text_length [OF sample_question [OF assms]]
  by (simp add: encode_telemetry_sample_def Let_def telemetry_limits)

lemma length_encode_sample:
  "validate_telemetry_sample s \<Longrightarrow> length (encode_telemetry_sample s) = 56 + length (ts_question_id s)"
  by (simp add: encode_sample_eq)

lemma sample_bound: "validate_telemetry_sample s \<Longrightarrow> length (encode_telemetry_sample s) \<le> 184"
  using telemetry_text_length [OF sample_question] by (simp add: length_encode_sample)

interpretation sample_codec: strict_codec encode_telemetry_sample decode_telemetry_sample validate_telemetry_sample
proof
  fix s assume v: "validate_telemetry_sample s"
  have "valid_telemetry_reason (ts_reason s)" using v by (simp add: validate_telemetry_sample_def split: if_splits)
  moreover have "read_telemetry_string 128 True (append_string (ts_question_id s)) = Some (ts_question_id s, [])"
    using sample_question [OF v] by (simp add: read_telemetry_string_iff)
  ultimately show "decode_telemetry_sample (encode_telemetry_sample s) = Some s"
    using v sample_bound [OF v] length_encode_sample [OF v]
    by (cases s) (simp add: decode_telemetry_sample_def encode_sample_eq telemetry_limits Let_def)
next
  fix w s assume "decode_telemetry_sample w = Some s"
  then show "validate_telemetry_sample s \<and> encode_telemetry_sample s = w"
    by (auto simp: decode_telemetry_sample_def Let_def bind_eq_Some_conv reader_iffs read_telemetry_string_iff
        telemetry_limits encode_sample_eq split: if_splits)
qed

definition batch_wf :: "telemetry_batch \<Rightarrow> bool" where
  "batch_wf b \<longleftrightarrow> length (tb_package_digest b) = 32 \<and> length (tb_client_id b) = 16 \<and> length (tb_session_id b) = 16 \<and>
     length (tb_producer_id b) = 16"

definition sample_block :: "telemetry_sample \<Rightarrow> bytes" where
  "sample_block s = append_le (len16 (encode_telemetry_sample s)) @ encode_telemetry_sample s"

lemma encode_samples_eq:
  "list_all validate_telemetry_sample ss \<Longrightarrow> encode_samples ss = Some (concat (map sample_block ss))"
proof (induction ss)
  case (Cons s ss)
  then have "encode_telemetry_sample s \<noteq> []" "length (encode_telemetry_sample s) \<le> 4096"
    using length_encode_sample [of s] sample_bound [of s] by auto
  then show ?case using Cons by (simp add: Let_def telemetry_limits sample_block_def)
qed simp

lemma sample_blocks_bound:
  "list_all validate_telemetry_sample ss \<Longrightarrow> length (concat (map sample_block ss)) \<le> 186 * length ss"
  by (induction ss) (use sample_bound in \<open>auto simp: sample_block_def\<close>, fastforce)

lemma read_sample_block:
  assumes "validate_telemetry_sample s"
  shows "read_samples (Suc n) (sample_block s @ rest) = map_option (\<lambda>(ss, w). (s # ss, w)) (read_samples n rest)"
proof -
  have "unat (len16 (encode_telemetry_sample s)) = length (encode_telemetry_sample s)"
    using sample_bound [OF assms] unat_len16 by fastforce
  then show ?thesis using sample_bound [OF assms] sample_codec.dec_enc [OF assms]
    by (cases "read_samples n rest") (auto simp: sample_block_def telemetry_limits)
qed

lemma read_samples_blocks:
  "list_all validate_telemetry_sample ss \<Longrightarrow> read_samples (length ss) (concat (map sample_block ss) @ rest) = Some (ss, rest)"
  by (induction ss) (simp_all add: read_sample_block del: read_samples.simps(2))

lemma read_samples_sound:
  "read_samples n w = Some (ss, rest) \<Longrightarrow>
   length ss = n \<and> list_all validate_telemetry_sample ss \<and> w = concat (map sample_block ss) @ rest"
proof (induction n arbitrary: w ss)
  case (Suc n)
  then obtain len :: u16 and x w' s ss' where r: "w = append_le len @ x @ w'" "length x = unat len"
    "decode_telemetry_sample x = Some s" "read_samples n w' = Some (ss', rest)" "ss = s # ss'"
    by (auto simp: bind_eq_Some_conv reader_iffs split: if_splits)
  have "encode_telemetry_sample s = x" "validate_telemetry_sample s" using sample_codec.dec_sound [OF r(3)] by simp_all
  then have "sample_block s = append_le len @ x" using r(2) len16_unat [of len x] by (simp add: sample_block_def)
  then show ?case using Suc.IH [OF r(4)] r \<open>validate_telemetry_sample s\<close> by simp
qed simp

definition batch_ok :: "telemetry_batch \<Rightarrow> bool" where "batch_ok b \<longleftrightarrow> validate_telemetry_batch b \<and> batch_wf b"

lemma batch_fields:
  assumes "validate_telemetry_batch b"
  shows "telemetry_text (tb_package_id b) 128 False" "telemetry_text (tb_candidate_id b) 128 False"
    "list_all validate_telemetry_sample (tb_samples b)" "1 \<le> length (tb_samples b)" "length (tb_samples b) \<le> 32"
    "length (tb_package_id b) \<le> 128" "length (tb_candidate_id b) \<le> 128"
    "1 \<le> length (tb_package_id b)" "1 \<le> length (tb_candidate_id b)"
  using assms
  by (auto simp: validate_telemetry_batch_def telemetry_limits telemetry_text_def Suc_le_eq split: if_splits)

lemma encode_batch_eq:
  assumes "batch_ok b"
  shows "encode_telemetry_batch b =
    append_le kBatchMagic @ append_le kWireVersion @ append_le (word_of_nat (length (tb_samples b)) :: u16) @
    append_le (tb_sequence b) @ append_le (tb_first_enqueued b) @ tb_package_digest b @ tb_client_id b @
    tb_session_id b @ tb_producer_id b @ append_string (tb_package_id b) @ append_string (tb_candidate_id b) @
    concat (map sample_block (tb_samples b))"
proof -
  have v: "validate_telemetry_batch b" using assms by (simp add: batch_ok_def)
  note f = batch_fields [OF v]
  have "length (concat (map sample_block (tb_samples b))) \<le> 5952" using sample_blocks_bound [OF f(3)] f(5) by simp
  then show ?thesis using assms v f encode_samples_eq [OF f(3)]
    by (simp add: encode_telemetry_batch_def Let_def telemetry_limits batch_ok_def batch_wf_def)
qed

lemma batch_size:
  assumes "batch_ok b"
  shows "168 \<le> length (encode_telemetry_batch b)" "length (encode_telemetry_batch b) \<le> 6316"
proof -
  have v: "validate_telemetry_batch b" using assms by (simp add: batch_ok_def)
  note f = batch_fields [OF v]
  obtain s ss where ss: "tb_samples b = s # ss" using f(4) by (cases "tb_samples b") auto
  have "58 \<le> length (concat (map sample_block (tb_samples b)))"
    using f(3) ss length_encode_sample [of s] by (simp add: sample_block_def)
  then show "168 \<le> length (encode_telemetry_batch b)" "length (encode_telemetry_batch b) \<le> 6316"
    using sample_blocks_bound [OF f(3)] f assms by (simp_all add: encode_batch_eq batch_ok_def batch_wf_def)
qed

interpretation batch_codec: strict_codec encode_telemetry_batch decode_telemetry_batch batch_ok
proof
  fix b assume ok: "batch_ok b"
  have v: "validate_telemetry_batch b" and wf: "batch_wf b" using ok by (simp_all add: batch_ok_def)
  note f = batch_fields [OF v]
  have ne: "tb_samples b \<noteq> []" using f(4) by auto
  have n: "unat (word_of_nat (length (tb_samples b)) :: u16) = length (tb_samples b)" using f(5) by (simp add: unat_of_nat)
  have "read_telemetry_string 128 False (append_string t @ rest) = Some (t, rest)" if "telemetry_text t 128 False" for t rest
    using that by (simp add: read_telemetry_string_iff)
  then show "decode_telemetry_batch (encode_telemetry_batch b) = Some b"
    using ok batch_size [OF ok] v wf f n ne read_samples_blocks [OF f(3), of "[]"]
    by (cases b) (simp add: decode_telemetry_batch_def encode_batch_eq telemetry_limits Let_def batch_wf_def)
next
  fix w b assume d: "decode_telemetry_batch w = Some b"
  obtain n :: u16 and sequence enqueued digest client session producer package candidate samples where
    w: "w = append_le kBatchMagic @ append_le kWireVersion @ append_le n @ append_le sequence @ append_le enqueued @
      digest @ client @ session @ producer @ append_string package @ append_string candidate @ concat (map sample_block samples)"
    and b: "b = \<lparr>tb_package_id = package, tb_package_digest = digest, tb_client_id = client, tb_session_id = session,
      tb_candidate_id = candidate, tb_producer_id = producer, tb_sequence = sequence, tb_first_enqueued = enqueued,
      tb_samples = samples\<rparr>"
    and len: "length digest = 32" "length client = 16" "length session = 16" "length producer = 16" "length samples = unat n"
    and v: "validate_telemetry_batch b"
    using d by (auto simp: decode_telemetry_batch_def Let_def bind_eq_Some_conv reader_iffs read_telemetry_string_iff
        telemetry_limits split: if_splits dest!: read_samples_sound)
  have ok: "batch_ok b" using v len by (simp add: batch_ok_def batch_wf_def b)
  have "n = word_of_nat (length samples)" using len(5) by simp
  then show "batch_ok b \<and> encode_telemetry_batch b = w" using ok w by (simp add: encode_batch_eq b)
qed

interpretation tack_codec: strict_codec encode_telemetry_ack decode_telemetry_ack
  "\<lambda>a. validate_telemetry_ack a \<and> length (ta_session_id a) = 16 \<and> length (ta_producer_id a) = 16 \<and> length (ta_batch_hash a) = 32"
proof
  fix a assume "validate_telemetry_ack a \<and> length (ta_session_id a) = 16 \<and> length (ta_producer_id a) = 16 \<and>
    length (ta_batch_hash a) = 32"
  then show "decode_telemetry_ack (encode_telemetry_ack a) = Some a"
    by (cases a) (simp add: decode_telemetry_ack_def encode_telemetry_ack_def telemetry_limits Let_def)
next
  fix w a assume "decode_telemetry_ack w = Some a"
  then show "(validate_telemetry_ack a \<and> length (ta_session_id a) = 16 \<and> length (ta_producer_id a) = 16 \<and>
      length (ta_batch_hash a) = 32) \<and> encode_telemetry_ack a = w"
    by (auto simp: decode_telemetry_ack_def encode_telemetry_ack_def telemetry_limits Let_def bind_eq_Some_conv reader_iffs
        split: if_splits)
qed

interpretation enable_codec: strict_codec encode_telemetry_enable decode_telemetry_enable
  "\<lambda>e. validate_telemetry_enable e \<and> length (te_package_digest e) = 32 \<and> length (te_client_id e) = 16 \<and> length (te_session_id e) = 16"
proof
  fix e assume e: "validate_telemetry_enable e \<and> length (te_package_digest e) = 32 \<and> length (te_client_id e) = 16 \<and>
    length (te_session_id e) = 16"
  then have t: "telemetry_text (te_package_id e) 128 False" "telemetry_text (te_candidate_id e) 128 False"
    by (auto simp: validate_telemetry_enable_def telemetry_limits split: if_splits)
  have "1 \<le> length (te_package_id e)" "1 \<le> length (te_candidate_id e)"
    using t by (auto simp: telemetry_text_def Suc_le_eq split: if_splits)
  moreover have "read_telemetry_string 128 False (append_string t @ rest) = Some (t, rest)" if "telemetry_text t 128 False" for t rest
    using that by (simp add: read_telemetry_string_iff)
  moreover from this [OF t(2), of "[]"]
  have "read_telemetry_string 128 False (append_string (te_candidate_id e)) = Some (te_candidate_id e, [])" by simp
  ultimately show "decode_telemetry_enable (encode_telemetry_enable e) = Some e"
    using e t telemetry_text_length [OF t(1)] telemetry_text_length [OF t(2)]
    by (cases e) (simp add: decode_telemetry_enable_def encode_telemetry_enable_def telemetry_limits Let_def)
next
  fix w e assume "decode_telemetry_enable w = Some e"
  then show "(validate_telemetry_enable e \<and> length (te_package_digest e) = 32 \<and> length (te_client_id e) = 16 \<and>
      length (te_session_id e) = 16) \<and> encode_telemetry_enable e = w"
    by (auto simp: decode_telemetry_enable_def encode_telemetry_enable_def telemetry_limits Let_def bind_eq_Some_conv
        reader_iffs read_telemetry_string_iff split: if_splits)
qed

end
