(* ===== verification/Spec2Isabelle.thy ===== *)
theory Spec2Isabelle
  imports SessionSafety Keyring RateLimiter PacketLoss VideoTransport StartBarrier FileDistribution ExamGrader ExamLockdown
    ExamAdmission OperatorAccess AgentProtocol TelemetryMessages
begin

text \<open>
  \<^bold>\<open>NSTU: a verification library.\<close> NSTU runs a classroom of Windows machines from one server: it
  shows and streams screens, sends files and commands, and conducts exams on locked-down clients.
  This development models the program's own logic, the C++ under \<^verbatim>\<open>src/\<close>, as HOL functions and
  proves what makes it correct. Paths below are relative to \<^verbatim>\<open>src/\<close>.

  \<^bold>\<open>The parts and how they meet.\<close>
  A client connects over TCP. The bytes of the connection are cut into frames; a connection begins
  with a preamble and a mutual proof of a shared key, or it asks for a key by enrolment or by
  pairing with a six-digit code that the operator approves. From then on commands travel on an
  authenticated channel with consecutive numbers. The server admits a client to an exam only while
  the client's write protection is proven, releases the start of the exam to the whole cohort at
  once, and writes every answer to an append-only journal. The client keeps each answer in a
  write-ahead outbox until the journal has acknowledged it, and meanwhile its lockdown controller
  blocks the network except for the exam's origins. Afterwards the journal is graded. Screens
  travel as authenticated video fragments over UDP that are reassembled, reordered, counted and
  asked for again.

  \<^bold>\<open>Theories and sources.\<close>
  \<^item> \<open>Prelude\<close>, \<open>OrderedMap\<close>, \<open>TextScan\<close>: machine types, the little-endian codec every wire module
    repeats, tables as association lists, the byte-level text functions; the interfaces \<open>codec\<close>,
    \<open>strict_codec\<close>, \<open>guarded_machine\<close> and \<open>machine\<close> as locales.
  \<^item> \<open>Protocol\<close> (\<^verbatim>\<open>common/src/protocol.cpp\<close>): headers, preamble, the TCP frame parser.
    \<open>TcpTransport\<close> (\<^verbatim>\<open>common/src/network.cpp\<close>): sending with and without a deadline, receiving.
  \<^item> \<open>Auth\<close> (\<^verbatim>\<open>common/src/auth.cpp\<close>): proofs, session keys, control tags, sequence guard, replay
    protection. \<open>ControlChannel\<close> (\<^verbatim>\<open>common/src/control_channel.cpp\<close>): both handshakes, both wrappings
    of a command (HMAC and AES-GCM), the channel object.
  \<^item> \<open>KeyStore\<close>, \<open>Keyring\<close> (\<^verbatim>\<open>common/src/key_store.cpp\<close>, \<^verbatim>\<open>keyring.cpp\<close>): the table of client keys
    and its file. \<open>Pairing\<close> (\<^verbatim>\<open>common/src/pairing.cpp\<close>, \<^verbatim>\<open>enrollment.cpp\<close>): the messages, transcript,
    secrets, codes and tags. \<open>RateLimiter\<close> (\<^verbatim>\<open>common/src/rate_limiter.cpp\<close>).
  \<^item> \<open>ServerSession\<close> (\<^verbatim>\<open>server/src/control_plane.cpp\<close>: \<open>on_bytes\<close> to \<open>process_auth_proof\<close>, the pairing
    requests, the operator's answers): the stages of a connection. \<open>SessionSafety\<close> proves the
    properties of every run of it.
  \<^item> \<open>ClientRegistry\<close> (\<^verbatim>\<open>server/src/client_registry.cpp\<close>) and \<open>ExamAdmission\<close> (\<^verbatim>\<open>control_plane.cpp\<close>:
    \<open>start_exam\<close>, \<open>begin_exam\<close>, \<open>stop_exam\<close>, publication and loss of connections): which client may
    start which exam. \<open>StartBarrier\<close> (\<^verbatim>\<open>server/include/nstu/exam_start_barrier.hpp\<close> and two siblings):
    the synchronized start, the snapshot gate, the stream watchdog. \<open>OperatorAccess\<close>
    (\<^verbatim>\<open>server/src/operator_role.cpp\<close>, \<^verbatim>\<open>operator_login.hpp\<close>): permissions and sign-in.
  \<^item> \<open>ExamControl\<close>, \<open>ExamSync\<close>, \<open>ControlMessages\<close>, \<open>FileDistribution\<close>, \<open>TelemetryMessages\<close>, \<open>AgentProtocol\<close>
    (the files of these names under \<^verbatim>\<open>common/src\<close> and \<^verbatim>\<open>client/src\<close>): the message formats and their
    validators. \<open>UrlValidation\<close>, \<open>WakeOnLan\<close>: the launch-URL filter and the magic packet.
  \<^item> \<open>AnswerJournal\<close>, \<open>AnswerOutbox\<close> (\<^verbatim>\<open>common/src/answer_journal.cpp\<close>) and \<open>AnswerDelivery\<close>
    (\<^verbatim>\<open>client/service/main.cpp\<close> and the answer handler of \<^verbatim>\<open>control_plane.cpp\<close>): the path of an answer
    as an inductive run over a network that loses, duplicates and reorders. \<open>ExamGrader\<close>
    (\<^verbatim>\<open>server/src/exam_grader.cpp\<close>): scoring. \<open>ExamLockdown\<close> (\<^verbatim>\<open>client/src/exam_lockdown_controller.cpp\<close>,
    \<^verbatim>\<open>exam_app_suppression.cpp\<close>): the lockdown of the machine.
  \<^item> \<open>VideoTransport\<close>, \<open>FrameReassembler\<close>, \<open>PacketLoss\<close> (the files of these names): fragments,
    datagrams, jitter buffer, NACK policy, keyframe scheduler, reassembly, loss counters.

  A structure of the code is a record, an enumeration a datatype (or its integer type, where the
  code keeps values outside the enumeration), a table an association list with distinct keys, an
  unsigned integer a word of its width, a \<open>std::string\<close> its bytes, an error a value. One definition
  stands for one function, or for a named part of a long one.

  \<^bold>\<open>What is shown.\<close>
  \<^item> Delivery: no answer that was reported queued is lost, whatever the network, the disk and the
    restarts do; the journal accepts each event once and a restart reads back what was
    acknowledged; the outbox is a hash chain that survives every failed write.
  \<^item> Sessions: a connection is authenticated only by the HMAC of a key that the table held for its
    identity, over a challenge drawn for it; every such key comes from the keyring, an approved
    pairing or an enrolment; the channel delivers exactly the commands sent, in order, and under
    AES-GCM nothing else when no frame that arrives is a forgery; revoked keys stay revoked,
    replayed hellos are refused; a source that keeps failing is locked out.
  \<^item> Exams: an exam starts only on a client with a standing proof of write protection and begins
    once, after a matching ready report; the start barrier releases the cohort once and refines its history; the lockdown blocks
    unless it was told otherwise and ends by itself; grades follow the latest answers, and a written
    essay stays open until somebody reviews it.
  \<^item> Formats: each message has one wire form, the UTF-8 filter accepts exactly RFC 3629, the URL
    filter accepts an exact set that is wider than its comment says, video and TCP streams come
    back as sent.
  \<^item> Errors found while proving are stated as theorems: a late failure lifts a rate-limit block, a
    second exam keeps the first one's filters, a failed send uses a nonce again, a ready report can
    mark the exam that replaced the one it was compared with.

  \<^bold>\<open>Parameters.\<close> Code outside the repository is an argument: SHA-256 (\<open>sha\<close>), HMAC (\<open>bcrypt\<close>,
  \<open>crypto_hmac\<close>), AES-GCM (\<open>gcm_encrypt\<close>, \<open>gcm_decrypt\<close>), the key agreement (\<open>ecdh\<close>), the protection of
  secrets at rest (\<open>protect\<close>, \<open>unprotect\<close>), the arithmetic on doubles in grading, name resolution,
  process termination and firewall calls, the outcome of every send, write and random draw, and the
  clocks. What a theorem needs of one of them (a digest has 32 bytes, opening inverts protecting, no
  collision among the events at hand) is a named hypothesis, and its witness instantiates it.

  \<^bold>\<open>Loops.\<close> There is no fuel: loops are structural or carry a termination proof. The one loop that may
  run forever, the send under a deadline, is a partial function, and it is proved to return
  when the clock advances.

  \<^bold>\<open>Not modelled.\<close> Direct3D, ImGui, WebView2, Media Foundation, WMI, the registry, services, pipes and
  processes of Windows (server and client programs, exam page host, video capture, setup and
  diagnostics), because they are calls into libraries with little logic of their own; the
  completion-port threads, whose effect is the order of events; discovery over UDP, updates, room
  profiles, the roster, the audit log, maintenance records and the storage of telemetry, which are
  file formats and file handling next to the modelled core; exam sign-in tickets and the sealed
  export, which are library signatures and encryption around files.
\<close>

end
